(* ===== verification/Prelude.thy ===== *)
theory Prelude
  imports Main "HOL-Library.Sublist" "HOL-Library.Char_ord"
begin

text \<open>
  The text library of the development: the operations of Rust's \<^verbatim>\<open>str\<close> that the execution
  policy uses, on lists of characters, with the facts about them the components share.

  A Rust \<^verbatim>\<open>char\<close> is a Unicode scalar value; HOL's \<^typ>\<open>char\<close> has 256 values. The model reads
  a \<^typ>\<open>char\<close> as the scalar value U+0000 to U+00FF with the same number, so every text of the
  model is a text of the program, and each predicate below (white space, ASCII case, the
  length in UTF-8 bytes) is exact on that range. A string literal of the source is a string
  literal here; the characters that HOL's literals cannot hold have names of their own.
\<close>

section \<open>Characters\<close>

type_synonym rstr = string

abbreviation NL :: char where "NL \<equiv> CHR 0x0A"
abbreviation TAB :: char where "TAB \<equiv> CHR 0x09"
abbreviation SPC :: char where "SPC \<equiv> CHR 0x20"
abbreviation DQ :: char where "DQ \<equiv> CHR 0x22"
abbreviation SQ :: char where "SQ \<equiv> CHR 0x27"
abbreviation BSL :: char where "BSL \<equiv> CHR 0x5C"
abbreviation BTICK :: char where "BTICK \<equiv> CHR 0x60"

named_theorems text_simps \<open>rewrite rules of the text library\<close>

definition is_whitespace :: "char \<Rightarrow> bool" where
  "is_whitespace c \<longleftrightarrow>
     c \<in> set [CHR 0x09, CHR 0x0A, CHR 0x0B, CHR 0x0C, CHR 0x0D, CHR 0x20, CHR 0x85, CHR 0xA0]"

definition is_ascii_uppercase :: "char \<Rightarrow> bool" where
  "is_ascii_uppercase c \<longleftrightarrow> c \<in> set ''ABCDEFGHIJKLMNOPQRSTUVWXYZ''"

definition is_ascii_lowercase :: "char \<Rightarrow> bool" where
  "is_ascii_lowercase c \<longleftrightarrow> c \<in> set ''abcdefghijklmnopqrstuvwxyz''"

definition is_ascii_digit :: "char \<Rightarrow> bool" where
  "is_ascii_digit c \<longleftrightarrow> c \<in> set ''0123456789''"

definition is_ascii_alphabetic :: "char \<Rightarrow> bool" where
  "is_ascii_alphabetic c \<longleftrightarrow> is_ascii_lowercase c \<or> is_ascii_uppercase c"

definition is_ascii_alphanumeric :: "char \<Rightarrow> bool" where
  "is_ascii_alphanumeric c \<longleftrightarrow> is_ascii_alphabetic c \<or> is_ascii_digit c"

text \<open>Upper case differs from lower case in bit 5 of the ASCII code.\<close>

definition ascii_lower_char :: "char \<Rightarrow> char" where
  "ascii_lower_char c =
     (if is_ascii_uppercase c
      then Char (digit0 c) (digit1 c) (digit2 c) (digit3 c) (digit4 c) True (digit6 c) (digit7 c)
      else c)"

definition to_ascii_lowercase :: "rstr \<Rightarrow> rstr" where
  "to_ascii_lowercase s = map ascii_lower_char s"

definition utf8_len :: "rstr \<Rightarrow> nat" where
  "utf8_len s = sum_list (map (\<lambda>c. if digit7 c then 2 else 1) s)"

section \<open>Splitting, trimming, searching\<close>

fun split_on :: "(char \<Rightarrow> bool) \<Rightarrow> rstr \<Rightarrow> rstr list" where
  "split_on P [] = [[]]"
| "split_on P (c # cs) =
     (if P c then [] # split_on P cs
      else (case split_on P cs of [] \<Rightarrow> [[c]] | w # ws \<Rightarrow> (c # w) # ws))"

definition split_whitespace :: "rstr \<Rightarrow> rstr list" where
  "split_whitespace s = filter (\<lambda>w. w \<noteq> []) (split_on is_whitespace s)"

definition trim_start_matches :: "(char \<Rightarrow> bool) \<Rightarrow> rstr \<Rightarrow> rstr" where
  "trim_start_matches P s = dropWhile P s"

definition trim_end_matches :: "(char \<Rightarrow> bool) \<Rightarrow> rstr \<Rightarrow> rstr" where
  "trim_end_matches P s = rev (dropWhile P (rev s))"

definition trim :: "rstr \<Rightarrow> rstr" where
  "trim s = trim_end_matches is_whitespace (trim_start_matches is_whitespace s)"

fun strip_prefix :: "rstr \<Rightarrow> rstr \<Rightarrow> rstr option" where
  "strip_prefix [] s = Some s"
| "strip_prefix (p # ps) [] = None"
| "strip_prefix (p # ps) (c # cs) = (if p = c then strip_prefix ps cs else None)"

definition starts_with :: "rstr \<Rightarrow> rstr \<Rightarrow> bool" where
  "starts_with p s \<longleftrightarrow> strip_prefix p s \<noteq> None"

definition strip_suffix :: "rstr \<Rightarrow> rstr \<Rightarrow> rstr option" where
  "strip_suffix p s = map_option rev (strip_prefix (rev p) (rev s))"

definition ends_with :: "rstr \<Rightarrow> rstr \<Rightarrow> bool" where
  "ends_with p s \<longleftrightarrow> strip_suffix p s \<noteq> None"

fun contains_str :: "rstr \<Rightarrow> rstr \<Rightarrow> bool" where
  "contains_str p [] \<longleftrightarrow> p = []"
| "contains_str p (c # cs) \<longleftrightarrow> starts_with p (c # cs) \<or> contains_str p cs"

definition contains_any :: "rstr \<Rightarrow> rstr \<Rightarrow> bool" where
  "contains_any chars s \<longleftrightarrow> list_ex (\<lambda>c. c \<in> set chars) s"

text \<open>\<^verbatim>\<open>split_once(ch)\<close>: the text before and after the first \<open>ch\<close>.\<close>

fun split_once :: "char \<Rightarrow> rstr \<Rightarrow> (rstr \<times> rstr) option" where
  "split_once ch [] = None"
| "split_once ch (c # cs) =
     (if c = ch then Some ([], cs)
      else map_option (\<lambda>(a, b). (c # a, b)) (split_once ch cs))"

text \<open>\<^verbatim>\<open>split("..")\<close>, \<^verbatim>\<open>split("||")\<close>: at every leftmost match of a two-character pattern.\<close>

fun split_pair :: "char \<Rightarrow> char \<Rightarrow> rstr \<Rightarrow> rstr list" where
  "split_pair a b [] = [[]]"
| "split_pair a b [c] = [[c]]"
| "split_pair a b (c # d # cs) =
     (if c = a \<and> d = b then [] # split_pair a b cs
      else (case split_pair a b (d # cs) of [] \<Rightarrow> [[c]] | w # ws \<Rightarrow> (c # w) # ws))"

fun join_with :: "rstr \<Rightarrow> rstr list \<Rightarrow> rstr" where
  "join_with sep [] = []"
| "join_with sep [w] = w"
| "join_with sep (w # v # ws) = w @ sep @ join_with sep (v # ws)"

text \<open>\<^verbatim>\<open>replace("\r\n", "\n")\<close>.\<close>

fun replace_crlf :: "rstr \<Rightarrow> rstr" where
  "replace_crlf [] = []"
| "replace_crlf [c] = [c]"
| "replace_crlf (c # d # cs) = (if c = CHR 0x0D \<and> d = NL then NL # replace_crlf cs else c # replace_crlf (d # cs))"

fun find_map :: "('a \<Rightarrow> 'b option) \<Rightarrow> 'a list \<Rightarrow> 'b option" where
  "find_map f [] = None"
| "find_map f (x # xs) = (case f x of Some y \<Rightarrow> Some y | None \<Rightarrow> find_map f xs)"

definition get_at :: "'a list \<Rightarrow> nat \<Rightarrow> 'a option" where
  "get_at xs i = (if i < length xs then Some (xs ! i) else None)"

definition position :: "('a \<Rightarrow> bool) \<Rightarrow> 'a list \<Rightarrow> nat option" where
  "position P xs =
     (let n = length (takeWhile (\<lambda>x. \<not> P x) xs) in if n < length xs then Some n else None)"

section \<open>The bound on a tool's answer\<close>

text \<open>The characters of an answer the runtime keeps whole, and the two ends it keeps of a longer one
  (\<^verbatim>\<open>runtime/tool_result.rs\<close>).\<close>

definition TOOL_OUTPUT_BUDGET :: nat where "TOOL_OUTPUT_BUDGET = 12000"
definition TOOL_OUTPUT_HEAD :: nat where "TOOL_OUTPUT_HEAD = 4000"
definition TOOL_OUTPUT_TAIL :: nat where "TOOL_OUTPUT_TAIL = 4000"

section \<open>Facts about text\<close>

lemma strip_prefix_Some_iff [text_simps]: "strip_prefix p s = Some r \<longleftrightarrow> s = p @ r"
  by (induction p s rule: strip_prefix.induct) auto

lemma strip_prefix_append [simp]: "strip_prefix p (p @ r) = Some r"
  by (simp add: strip_prefix_Some_iff)

lemma starts_with_iff [text_simps]: "starts_with p s \<longleftrightarrow> prefix p s"
proof -
  have "starts_with p s \<longleftrightarrow> (\<exists>r. strip_prefix p s = Some r)"
    by (auto simp: starts_with_def)
  then show ?thesis by (simp add: strip_prefix_Some_iff prefix_def)
qed

lemma strip_suffix_Some_iff [text_simps]: "strip_suffix p s = Some r \<longleftrightarrow> s = r @ p"
proof
  assume "strip_suffix p s = Some r"
  then obtain z where "strip_prefix (rev p) (rev s) = Some z" and "r = rev z"
    by (auto simp: strip_suffix_def)
  then have "rev s = rev p @ rev r" by (simp add: strip_prefix_Some_iff)
  then show "s = r @ p" by (metis rev_append rev_rev_ident)
qed (simp add: strip_suffix_def)

lemma ends_with_iff [text_simps]: "ends_with p s \<longleftrightarrow> suffix p s"
proof -
  have "ends_with p s \<longleftrightarrow> (\<exists>r. strip_suffix p s = Some r)"
    by (auto simp: ends_with_def)
  then show ?thesis by (simp add: strip_suffix_Some_iff suffix_def)
qed

lemma contains_str_iff [text_simps]: "contains_str p s \<longleftrightarrow> sublist p s"
proof (induction s)
  case Nil
  then show ?case by simp
next
  case (Cons c cs)
  then show ?case by (auto simp: starts_with_iff sublist_Cons_right)
qed

lemma contains_any_iff [text_simps]: "contains_any chars s \<longleftrightarrow> set chars \<inter> set s \<noteq> {}"
  by (auto simp: contains_any_def list_ex_iff)

lemma split_on_not_Nil [simp]: "split_on P s \<noteq> []"
  by (induction s) (auto split: list.splits)

lemma split_on_free: "\<forall>c \<in> set s. \<not> P c \<Longrightarrow> split_on P s = [s]"
  by (induction s) auto

lemma split_on_sep:
  "P c \<Longrightarrow> split_on P (a @ c # b) = split_on P a @ split_on P b"
proof (induction a)
  case Nil
  then show ?case by simp
next
  case (Cons x a)
  then show ?case by (cases "split_on P a") auto
qed

lemma split_on_chars: "w \<in> set (split_on P s) \<Longrightarrow> c \<in> set w \<Longrightarrow> c \<in> set s \<and> \<not> P c"
proof (induction s arbitrary: w)
  case Nil
  then show ?case by simp
next
  case (Cons x s)
  show ?case
  proof (cases "split_on P s")
    case Nil
    then show ?thesis by simp
  next
    case (Cons v vs)
    with Cons.IH [of v] Cons.prems Cons.IH [of w] show ?thesis
      by (auto split: if_splits)
  qed
qed

lemma split_on_concat: "concat (split_on P s) = filter (\<lambda>c. \<not> P c) s"
proof (induction s)
  case Nil
  then show ?case by simp
next
  case (Cons x s)
  then show ?case by (cases "split_on P s") auto
qed

lemma split_whitespace_words:
  "w \<in> set (split_whitespace s) \<Longrightarrow> w \<noteq> [] \<and> (\<forall>c \<in> set w. \<not> is_whitespace c)"
  unfolding split_whitespace_def using split_on_chars by fastforce

lemma split_whitespace_free:
  "s \<noteq> [] \<Longrightarrow> \<forall>c \<in> set s. \<not> is_whitespace c \<Longrightarrow> split_whitespace s = [s]"
  by (simp add: split_whitespace_def split_on_free)

lemma split_whitespace_sep:
  "is_whitespace c \<Longrightarrow> split_whitespace (a @ c # b) = split_whitespace a @ split_whitespace b"
  by (simp add: split_whitespace_def split_on_sep)

lemma split_whitespace_Nil [simp]: "split_whitespace [] = []"
  by (simp add: split_whitespace_def)

lemma SPC_whitespace [simp]: "is_whitespace SPC"
  by (simp add: is_whitespace_def)

lemma split_whitespace_join:
  assumes "\<forall>w \<in> set ws. w \<noteq> [] \<and> (\<forall>c \<in> set w. \<not> is_whitespace c)"
  shows "split_whitespace (join_with [SPC] ws) = ws"
  using assms
proof (induction "[SPC]" ws rule: join_with.induct)
  case 1
  then show ?case by simp
next
  case (2 w)
  then show ?case by (simp add: split_whitespace_free)
next
  case (3 w v ws)
  then show ?case by (simp add: split_whitespace_sep split_whitespace_free)
qed

lemma join_split_whitespace_idem:
  "split_whitespace (join_with [SPC] (split_whitespace s)) = split_whitespace s"
  by (rule split_whitespace_join) (auto dest: split_whitespace_words)

text \<open>The first word of a text, and what stands around it.\<close>

lemma split_whitespace_skip: "is_whitespace c \<Longrightarrow> split_whitespace (c # s) = split_whitespace s"
  using split_whitespace_sep [of c "[]" s] by simp

lemma split_whitespace_ConsD:
  "split_whitespace s = w # ws \<Longrightarrow> \<exists>lead rest. s = lead @ w @ rest \<and>
     (\<forall>c \<in> set lead. is_whitespace c) \<and> (rest = [] \<or> is_whitespace (hd rest))"
proof (induction s)
  case Nil
  then show ?case by simp
next
  case (Cons c s)
  show ?case
  proof (cases "is_whitespace c")
    case True
    with Cons obtain lead rest where "s = lead @ w @ rest" "\<forall>c \<in> set lead. is_whitespace c"
      "rest = [] \<or> is_whitespace (hd rest)"
      by (auto simp: split_whitespace_skip)
    with True show ?thesis by (intro exI [of _ "c # lead"] exI [of _ rest]) auto
  next
    case False
    let ?t = "takeWhile (\<lambda>c. \<not> is_whitespace c) (c # s)" and ?r = "dropWhile (\<lambda>c. \<not> is_whitespace c) (c # s)"
    have t: "?t \<noteq> []" "\<forall>c \<in> set ?t. \<not> is_whitespace c" using False by (auto dest: set_takeWhileD)
    have s: "c # s = ?t @ ?r" by simp
    have r: "?r = [] \<or> is_whitespace (hd ?r)" using hd_dropWhile [of "\<lambda>c. \<not> is_whitespace c" "c # s"] by blast
    have "split_whitespace (c # s) = ?t # split_whitespace ?r"
    proof (cases ?r)
      case Nil
      then have "c # s = ?t" using s by simp
      then show ?thesis using split_whitespace_free [OF t] Nil by (metis split_whitespace_Nil)
    next
      case r': (Cons d ds)
      then have "is_whitespace d" using r by simp
      then show ?thesis
        using split_whitespace_sep [of d ?t ds] split_whitespace_free [OF t] s r'
        by (metis append_Cons append_Nil split_whitespace_skip)
    qed
    with Cons.prems have "w = ?t" by simp
    with s r show ?thesis by (intro exI [of _ "[]"] exI [of _ ?r]) simp
  qed
qed

lemma uppercase_digits: "is_ascii_uppercase c \<Longrightarrow> \<not> digit5 c \<and> digit6 c \<and> \<not> digit7 c"
  by (auto simp: is_ascii_uppercase_def)

lemma whitespace_digit6: "is_whitespace c \<Longrightarrow> \<not> digit6 c"
  by (auto simp: is_whitespace_def)

lemma ascii_lower_char_idem [simp]: "ascii_lower_char (ascii_lower_char c) = ascii_lower_char c"
  by (auto simp: ascii_lower_char_def dest: uppercase_digits)

lemma to_ascii_lowercase_idem [simp]:
  "to_ascii_lowercase (to_ascii_lowercase s) = to_ascii_lowercase s"
  by (simp add: to_ascii_lowercase_def)

lemma to_ascii_lowercase_append [simp]:
  "to_ascii_lowercase (a @ b) = to_ascii_lowercase a @ to_ascii_lowercase b"
  by (simp add: to_ascii_lowercase_def)

lemma ascii_lower_char_whitespace [simp]: "is_whitespace (ascii_lower_char c) = is_whitespace c"
proof (cases "is_ascii_uppercase c")
  case True
  then have "digit6 c" "digit6 (ascii_lower_char c)"
    by (auto simp: ascii_lower_char_def dest: uppercase_digits)
  then show ?thesis using whitespace_digit6 by blast
qed (simp add: ascii_lower_char_def)

lemma to_ascii_lowercase_join:
  "to_ascii_lowercase (join_with [SPC] ws) = join_with [SPC] (map to_ascii_lowercase ws)"
proof (induction ws rule: induct_list012)
  case (3 w v ws)
  then show ?case by (simp add: to_ascii_lowercase_def ascii_lower_char_def is_ascii_uppercase_def)
qed (simp_all add: to_ascii_lowercase_def)

lemma to_ascii_lowercase_whitespace [simp]:
  "(\<forall>c \<in> set (to_ascii_lowercase s). \<not> is_whitespace c) \<longleftrightarrow> (\<forall>c \<in> set s. \<not> is_whitespace c)"
  by (auto simp: to_ascii_lowercase_def)

lemma to_ascii_lowercase_Nil_iff [simp]: "to_ascii_lowercase s = [] \<longleftrightarrow> s = []"
  by (simp add: to_ascii_lowercase_def)

lemma trim_chars: "set (trim s) \<subseteq> set s"
  unfolding trim_def trim_end_matches_def trim_start_matches_def
  by (auto dest!: set_dropWhileD)

lemma trim_end_matches_id: "s = [] \<or> \<not> P (last s) \<Longrightarrow> trim_end_matches P s = s"
  unfolding trim_end_matches_def by (cases s rule: rev_cases) auto

lemma trim_id:
  assumes "s \<noteq> []" "\<not> is_whitespace (hd s)" "\<not> is_whitespace (last s)"
  shows "trim s = s"
proof -
  from assms have "dropWhile is_whitespace s = s"
    by (cases s) auto
  with assms show ?thesis
    by (simp add: trim_def trim_start_matches_def trim_end_matches_id)
qed

lemma find_map_None_iff: "find_map f xs = None \<longleftrightarrow> (\<forall>x \<in> set xs. f x = None)"
  by (induction xs) (auto split: option.splits)

lemma find_map_SomeD: "find_map f xs = Some y \<Longrightarrow> \<exists>x \<in> set xs. f x = Some y"
  by (induction xs) (auto split: option.splits)

lemma find_map_append:
  "find_map f (xs @ ys) = (case find_map f xs of Some y \<Rightarrow> Some y | None \<Rightarrow> find_map f ys)"
  by (induction xs) (auto split: option.splits)

lemma find_map_not_None: "x \<in> set xs \<Longrightarrow> f x \<noteq> None \<Longrightarrow> find_map f xs \<noteq> None"
  by (auto simp: find_map_None_iff)

lemma position_SomeD:
  assumes "position P xs = Some n"
  shows "n < length xs \<and> P (xs ! n) \<and> (\<forall>m < n. \<not> P (xs ! m))"
proof -
  from assms have n: "n = length (takeWhile (\<lambda>x. \<not> P x) xs)" "n < length xs"
    by (auto simp: position_def Let_def split: if_splits)
  moreover from n have "P (xs ! n)"
    using nth_length_takeWhile [of "\<lambda>x. \<not> P x" xs] by blast
  moreover have "\<forall>m < n. \<not> P (xs ! m)"
    using n(1) by (metis nth_mem set_takeWhileD takeWhile_nth)
  ultimately show ?thesis by blast
qed

lemma position_cong_map:
  assumes "map P xs = map P ys"
  shows "position P xs = position P ys"
proof -
  have "takeWhile (\<lambda>x. \<not> x) (map P xs) = takeWhile (\<lambda>x. \<not> x) (map P ys)" using assms by simp
  then have "length (takeWhile (\<lambda>x. \<not> P x) xs) = length (takeWhile (\<lambda>x. \<not> P x) ys)"
    by (metis (no_types, lifting) length_map takeWhile_map comp_def takeWhile_cong)
  then show ?thesis using map_eq_imp_length_eq [OF assms] by (simp add: position_def)
qed

lemma position_NoneD: "position P xs = None \<Longrightarrow> \<forall>x \<in> set xs. \<not> P x"
  unfolding position_def Let_def
  by (metis (mono_tags, lifting) length_takeWhile_le option.distinct(1) order_le_less
      set_takeWhileD takeWhile_eq_all_conv takeWhile_eq_take take_all_iff order_refl)

end
