(* ===== verification/Shell_Grammar.thy ===== *)
theory Shell_Grammar
  imports Prelude
begin

text \<open>
  The lexical readings of \<^verbatim>\<open>execution_policy/shell_lex.rs\<close> that both sides of the gate share:
  the \<^verbatim>\<open>Grammar\<close> of a platform with its two values \<open>SH\<close> and \<open>WINDOWS\<close>, the split of a line
  into segments, the join of continued lines, the text reading of a word, the rewritings of
  \<^verbatim>\<open>cmd.exe\<close>, and the spelling fences for paths outside the working directory.

  The source compiles one of the two grammars in as \<^verbatim>\<open>HOST\<close>; here a function that reads
  \<^verbatim>\<open>HOST\<close> takes the build flag \<open>win\<close> (\<^verbatim>\<open>cfg!(windows)\<close>) as its first argument.
\<close>

section \<open>Platform grammars\<close>

record Grammar =
  backslash_escapes :: bool
  path_separators :: rstr
  quoting_to_strip :: rstr
  rewrites_words_with :: rstr
  word_delimiters :: rstr
  word_delimiters_outside_flags :: rstr
  command_separators :: rstr
  comments_with_hash :: bool

definition SH :: Grammar where
  "SH = \<lparr>backslash_escapes = True, path_separators = ''/'',
         quoting_to_strip = [SQ, DQ, BSL], rewrites_words_with = [],
         word_delimiters = [], word_delimiters_outside_flags = [],
         command_separators = [NL, CHR '';'', CHR ''|'', CHR ''&''],
         comments_with_hash = True\<rparr>"

definition WINDOWS :: Grammar where
  "WINDOWS = \<lparr>backslash_escapes = False, path_separators = [CHR ''/'', BSL],
              quoting_to_strip = [SQ, DQ, CHR ''^''], rewrites_words_with = ''%'',
              word_delimiters = '',;'', word_delimiters_outside_flags = ''='',
              command_separators = [NL, CHR ''|'', CHR ''&''],
              comments_with_hash = False\<rparr>"

definition HOST :: "bool \<Rightarrow> Grammar" where
  "HOST win = (if win then WINDOWS else SH)"

lemmas grammar_defs = SH_def WINDOWS_def HOST_def

section \<open>Segments and continued lines\<close>

definition SEGMENT_SEPARATORS :: rstr where
  "SEGMENT_SEPARATORS = [NL, CHR '';'', CHR ''|'', CHR ''&'']"

definition segments :: "rstr \<Rightarrow> rstr list" where
  "segments command =
     filter (\<lambda>segment. segment \<noteq> [])
       (map trim (split_on (\<lambda>c. c \<in> set SEGMENT_SEPARATORS) command))"

fun join_lines :: "rstr \<Rightarrow> rstr" where
  "join_lines [] = []"
| "join_lines [c] = [c]"
| "join_lines (c # d # cs) =
     (if c \<noteq> BSL then c # join_lines (d # cs)
      else if d = NL then join_lines cs
      else BSL # d # join_lines cs)"

definition joined_continuations :: "Grammar \<Rightarrow> rstr \<Rightarrow> rstr option" where
  "joined_continuations g line =
     (if \<not> backslash_escapes g \<or> \<not> contains_str [BSL, NL] line then None
      else Some (join_lines line))"

section \<open>Words that run the rest of the line\<close>

definition PREFIX_WORDS :: "rstr list" where
  "PREFIX_WORDS =
     [''if'', ''then'', ''else'', ''elif'', ''while'', ''until'', ''do'', ''for'', ''case'',
      ''!'', ''time'', ''exec'', ''command'', ''builtin'', ''env'', ''nohup'', ''nice'',
      ''busybox'', ''xargs'', ''caffeinate'', ''xcrun'', ''setsid'', ''stdbuf'', ''timeout'',
      ''ionice'', ''taskset'', ''unshare'', ''chroot'', ''flock'', ''runuser'', ''arch'',
      ''watch'', ''script'', ''proxychains'', ''parallel'']"

definition INTERPRETERS :: "rstr list" where
  "INTERPRETERS =
     [''eval'', ''source'', ''.'', ''awk'', ''gawk'', ''osascript'', ''sh'', ''bash'', ''zsh'',
      ''dash'', ''ksh'', ''ash'', ''mksh'', ''yash'', ''posh'', ''rbash'', ''fish'', ''csh'',
      ''tcsh'', ''nu'', ''elvish'', ''xonsh'', ''perl'', ''python'', ''python3'', ''ruby'',
      ''node'', ''php'', ''powershell'', ''pwsh'', ''cmd'']"

definition runs_the_rest_of_the_line :: "rstr \<Rightarrow> bool" where
  "runs_the_rest_of_the_line program \<longleftrightarrow>
     program \<in> set PREFIX_WORDS \<or> program \<in> set INTERPRETERS"

section \<open>Characters the interpreter rewrites\<close>

definition rewrites_a_word :: "Grammar \<Rightarrow> rstr \<Rightarrow> bool" where
  "rewrites_a_word g word \<longleftrightarrow>
     (if rewrites_words_with g = [] then False
      else 2 \<le> length (filter (\<lambda>ch. ch \<in> set (rewrites_words_with g)) word))"

definition rewrites_a_word_of_the_line :: "Grammar \<Rightarrow> rstr \<Rightarrow> bool" where
  "rewrites_a_word_of_the_line g command \<longleftrightarrow>
     list_ex (rewrites_a_word g) (split_whitespace command)"

definition blanks_for :: "Grammar \<Rightarrow> rstr \<Rightarrow> rstr option" where
  "blanks_for g command =
     (if \<not> contains_any (word_delimiters g) command then None
      else Some (map (\<lambda>ch. if ch \<in> set (word_delimiters g) then SPC else ch) command))"

text \<open>The loop of \<^verbatim>\<open>blanks_for_outside_flags\<close>, with its variables \<open>token_start\<close>,
  \<open>in_flag\<close> and \<open>quote\<close>.\<close>

fun blank_outside_flags :: "Grammar \<Rightarrow> bool \<Rightarrow> bool \<Rightarrow> char option \<Rightarrow> rstr \<Rightarrow> rstr" where
  "blank_outside_flags g token_start in_flag quote [] = []"
| "blank_outside_flags g token_start in_flag quote (ch # cs) =
     (let quoted = (quote \<noteq> None);
          quote' = (case quote of
                      Some active \<Rightarrow> if ch = active then None else quote
                    | None \<Rightarrow> if ch = SQ \<or> ch = DQ then Some ch else None)
      in if \<not> quoted \<and> (is_whitespace ch \<or> ch \<in> set (command_separators g)) then
           ch # blank_outside_flags g True in_flag quote' cs
         else if token_start \<and> (ch = SQ \<or> ch = DQ) then
           ch # blank_outside_flags g True in_flag quote' cs
         else
           (let in_flag' = (if token_start then ch = CHR ''-'' else in_flag)
            in if \<not> in_flag' \<and> ch \<in> set (word_delimiters_outside_flags g) then
                 SPC # blank_outside_flags g True in_flag' quote' cs
               else ch # blank_outside_flags g False in_flag' quote' cs))"

definition blanks_for_outside_flags :: "Grammar \<Rightarrow> rstr \<Rightarrow> rstr option" where
  "blanks_for_outside_flags g command =
     (if \<not> contains_any (word_delimiters_outside_flags g) command then None
      else Some (blank_outside_flags g True False None command))"

definition INDIRECTION :: rstr where
  "INDIRECTION = [CHR ''>'', CHR ''<'', BTICK, CHR ''$'', CHR ''{'', CHR ''}'', CHR ''('',
                  CHR '')'', CHR ''*'', CHR ''?'', CHR ''['', CHR '']'']"

definition has_shell_indirection :: "Grammar \<Rightarrow> rstr \<Rightarrow> bool" where
  "has_shell_indirection g command \<longleftrightarrow>
     contains_any INDIRECTION command \<or> rewrites_a_word_of_the_line g command"

section \<open>The text reading of a word\<close>

definition clean_token_in :: "Grammar \<Rightarrow> rstr \<Rightarrow> rstr" where
  "clean_token_in g token = filter (\<lambda>ch. ch \<notin> set (quoting_to_strip g)) token"

definition clean_token :: "bool \<Rightarrow> rstr \<Rightarrow> rstr" where
  "clean_token win token = clean_token_in (HOST win) token"

definition EXECUTABLE_SUFFIXES :: "rstr list" where
  "EXECUTABLE_SUFFIXES = [''.exe'', ''.com'', ''.bat'', ''.cmd'']"

definition strip_executable_extension :: "rstr \<Rightarrow> rstr" where
  "strip_executable_extension base =
     (case find_map
             (\<lambda>suffix. case strip_suffix suffix base of
                          Some stem \<Rightarrow> if stem \<noteq> [] then Some stem else None
                        | None \<Rightarrow> None) EXECUTABLE_SUFFIXES of
        Some stem \<Rightarrow> stem
      | None \<Rightarrow> base)"

definition basename_lower_in :: "Grammar \<Rightarrow> rstr \<Rightarrow> rstr" where
  "basename_lower_in g token =
     (let cleaned = clean_token_in g token;
          base = last (split_on (\<lambda>c. c \<in> set (path_separators g)) cleaned)
      in strip_executable_extension (to_ascii_lowercase base))"

definition basename_lower :: "bool \<Rightarrow> rstr \<Rightarrow> rstr" where
  "basename_lower win token = basename_lower_in (HOST win) token"

section \<open>Paths that leave the working directory by spelling\<close>

fun drive_letter :: "rstr \<Rightarrow> bool" where
  "drive_letter (a # b # _) \<longleftrightarrow> is_ascii_alphabetic a \<and> b = CHR '':''"
| "drive_letter _ \<longleftrightarrow> False"

definition escapes_cwd_by_spelling :: "rstr \<Rightarrow> bool" where
  "escapes_cwd_by_spelling token \<longleftrightarrow>
     (case token of [] \<Rightarrow> False | c # _ \<Rightarrow> c \<in> set [CHR ''/'', CHR ''~'', BSL])
     \<or> list_ex (\<lambda>component. component = ''..'')
          (split_on (\<lambda>c. c \<in> set [CHR ''/'', BSL]) token)
     \<or> drive_letter token"

fun drive_letter_inside :: "rstr \<Rightarrow> bool" where
  "drive_letter_inside (a # b # cs) \<longleftrightarrow>
     (is_ascii_alphabetic a \<and> b = CHR '':'') \<or> drive_letter_inside (b # cs)"
| "drive_letter_inside _ \<longleftrightarrow> False"

definition glued_value_leaves_cwd :: "rstr \<Rightarrow> bool" where
  "glued_value_leaves_cwd bundle \<longleftrightarrow>
     contains_any [CHR ''/'', BSL, CHR ''~''] bundle
     \<or> ends_with ''..'' bundle
     \<or> drive_letter_inside bundle"

definition operand_leaves_cwd :: "rstr \<Rightarrow> bool" where
  "operand_leaves_cwd cleaned \<longleftrightarrow>
     (case strip_prefix ''-'' cleaned of
        None \<Rightarrow> escapes_cwd_by_spelling cleaned
      | Some flag \<Rightarrow>
          (case split_once CHR ''='' flag of
             Some (name, val) \<Rightarrow>
               if \<not> contains_any [CHR ''/'', BSL, CHR ''~''] name
               then escapes_cwd_by_spelling val
               else \<not> starts_with ''-'' flag \<and> glued_value_leaves_cwd flag
           | None \<Rightarrow> \<not> starts_with ''-'' flag \<and> glued_value_leaves_cwd flag))"

section \<open>Segments: composition and shape\<close>

lemma segments_sequence:
  "sep \<in> set SEGMENT_SEPARATORS \<Longrightarrow> segments (a @ sep # b) = segments a @ segments b"
  by (simp add: segments_def split_on_sep)

lemma segments_Nil [simp]: "segments [] = []"
  by (simp add: segments_def trim_def trim_end_matches_def trim_start_matches_def)

lemma segments_chars:
  "s \<in> set (segments command) \<Longrightarrow> c \<in> set s \<Longrightarrow> c \<in> set command \<and> c \<notin> set SEGMENT_SEPARATORS"
  unfolding segments_def using split_on_chars trim_chars by fastforce

lemma segments_single:
  assumes "\<forall>c \<in> set s. c \<notin> set SEGMENT_SEPARATORS" "trim s = s" "s \<noteq> []"
  shows "segments s = [s]"
  using assms by (simp add: segments_def split_on_free)

text \<open>A segment between two separators is a segment of the whole line.\<close>

lemma segments_embedded:
  assumes "segments s = [s]" "p \<in> set SEGMENT_SEPARATORS" "q \<in> set SEGMENT_SEPARATORS"
  shows "segments (a @ p # s @ q # b) = segments a @ s # segments b"
  using assms by (simp add: segments_sequence)

section \<open>The rewritings only blank characters\<close>

text \<open>\<open>blanking s t\<close>: \<open>t\<close> is \<open>s\<close> with some characters turned into blanks.\<close>

definition blanking :: "rstr \<Rightarrow> rstr \<Rightarrow> bool" where
  "blanking s t \<longleftrightarrow> list_all2 (\<lambda>a b. b = a \<or> b = SPC) s t"

lemma blanking_refl [simp]: "blanking s s"
  by (simp add: blanking_def list_all2_refl)

lemma blanking_trans: "blanking s t \<Longrightarrow> blanking t u \<Longrightarrow> blanking s u"
  unfolding blanking_def by (rule list_all2_trans) auto

lemma blanking_length: "blanking s t \<Longrightarrow> length t = length s"
  by (auto simp: blanking_def dest: list_all2_lengthD)

lemma blanking_chars: "blanking s t \<Longrightarrow> set t \<subseteq> insert SPC (set s)"
  unfolding blanking_def by (induction rule: list_all2_induct) auto

lemma finite_blankings: "finite {t. blanking s t}"
proof (rule finite_subset)
  show "{t. blanking s t} \<subseteq> {t. set t \<subseteq> insert SPC (set s) \<and> length t = length s}"
    using blanking_chars blanking_length by blast
  show "finite {t. set t \<subseteq> insert SPC (set s) \<and> length t = length s}"
    by (rule finite_lists_length_eq) simp
qed

lemma blanks_for_blanking: "blanks_for g s = Some t \<Longrightarrow> blanking s t"
  by (auto simp: blanks_for_def blanking_def list_all2_map2 split: if_splits
      intro!: list_all2_all_nthI)

lemma blank_outside_flags_blanking: "blanking s (blank_outside_flags g ts fl q s)"
proof (induction s arbitrary: ts fl q)
  case Nil
  then show ?case by (simp add: blanking_def)
next
  case (Cons ch cs)
  then show ?case by (simp add: blanking_def Let_def)
qed

lemma blanks_for_outside_flags_blanking:
  "blanks_for_outside_flags g s = Some t \<Longrightarrow> blanking s t"
  by (auto simp: blanks_for_outside_flags_def blank_outside_flags_blanking split: if_splits)

section \<open>The suffix scan\<close>

lemma drive_letter_suffix: "drive_letter_inside b \<longleftrightarrow> (\<exists>s. suffix s b \<and> drive_letter s)"
proof (induction b rule: drive_letter_inside.induct, goal_cases)
  case (1 a b cs)
  have "(\<exists>s. suffix s (a # b # cs) \<and> drive_letter s) \<longleftrightarrow>
        drive_letter (a # b # cs) \<or> (\<exists>s. suffix s (b # cs) \<and> drive_letter s)"
    unfolding suffix_Cons [of _ a "b # cs"] by blast
  with 1 show ?case by simp
next
  case 2
  then show ?case by simp
next
  case (3 v)
  have "s = [] \<or> s = [v]" if "suffix s [v]" for s
    using that by (auto simp: suffix_Cons)
  then show ?case by fastforce
qed

lemma dotdot_component:
  assumes "''..'' \<in> set (split_on P s)" "\<not> P CHR ''.''"
  shows "s = ''..'' \<or> (\<exists>c \<in> set s. P c)"
  using assms split_on_free [of s P] by (cases "\<exists>c \<in> set s. P c") auto

lemma contains_suffix_head:
  "set cs \<inter> set b \<noteq> {} \<longleftrightarrow> (\<exists>c t. suffix (c # t) b \<and> c \<in> set cs)"
proof
  assume "set cs \<inter> set b \<noteq> {}"
  then obtain c where "c \<in> set cs" "c \<in> set b" by auto
  then show "\<exists>c t. suffix (c # t) b \<and> c \<in> set cs"
    by (metis split_list suffixI)
next
  assume "\<exists>c t. suffix (c # t) b \<and> c \<in> set cs"
  then show "set cs \<inter> set b \<noteq> {}"
    using set_mono_suffix by fastforce
qed

lemma escapes_cwd_cases:
  "escapes_cwd_by_spelling s \<Longrightarrow>
     (\<exists>c \<in> set s. c \<in> set [CHR ''/'', BSL, CHR ''~'']) \<or> s = ''..'' \<or> drive_letter s"
proof -
  let ?sep = "\<lambda>c. c \<in> set [CHR ''/'', BSL]"
  assume "escapes_cwd_by_spelling s"
  then consider c t where "s = c # t" "c \<in> set [CHR ''/'', CHR ''~'', BSL]"
    | "''..'' \<in> set (split_on ?sep s)" | "drive_letter s"
    unfolding escapes_cwd_by_spelling_def list_ex_iff by (cases s; simp only: list.case; blast)
  then show ?thesis
  proof cases
    case 1
    then show ?thesis by auto
  next
    case 2
    have "\<not> ?sep CHR ''.''" by simp
    from dotdot_component [OF 2 this] show ?thesis by auto
  qed simp
qed

lemma glued_value_suffix_scan:
  "glued_value_leaves_cwd bundle \<longleftrightarrow> (\<exists>s. suffix s bundle \<and> escapes_cwd_by_spelling s)"
proof
  assume "glued_value_leaves_cwd bundle"
  then consider "set [CHR ''/'', BSL, CHR ''~''] \<inter> set bundle \<noteq> {}"
    | "suffix ''..'' bundle" | "drive_letter_inside bundle"
    unfolding glued_value_leaves_cwd_def contains_any_iff ends_with_iff by blast
  then show "\<exists>s. suffix s bundle \<and> escapes_cwd_by_spelling s"
  proof cases
    case 1
    then obtain c t where "suffix (c # t) bundle" "c \<in> set [CHR ''/'', BSL, CHR ''~'']"
      unfolding contains_suffix_head by blast
    then show ?thesis by (auto simp: escapes_cwd_by_spelling_def)
  next
    case 2
    then show ?thesis by (auto simp: escapes_cwd_by_spelling_def)
  next
    case 3
    then show ?thesis by (auto simp: drive_letter_suffix escapes_cwd_by_spelling_def)
  qed
next
  assume "\<exists>s. suffix s bundle \<and> escapes_cwd_by_spelling s"
  then obtain s where s: "suffix s bundle" "escapes_cwd_by_spelling s" by blast
  from escapes_cwd_cases [OF s(2)] s(1) show "glued_value_leaves_cwd bundle"
    unfolding glued_value_leaves_cwd_def contains_any_iff ends_with_iff drive_letter_suffix
    using set_mono_suffix by blast
qed

section \<open>Cleaning exposes words\<close>

lemma clean_token_idem [simp]: "clean_token_in g (clean_token_in g t) = clean_token_in g t"
  by (simp add: clean_token_in_def)

lemma clean_token_subseq: "subseq (clean_token_in g t) t"
  by (simp add: clean_token_in_def)

lemma clean_token_id: "\<forall>c \<in> set t. c \<notin> set (quoting_to_strip g) \<Longrightarrow> clean_token_in g t = t"
  by (simp add: clean_token_in_def)

end
