(* ===== verification/Unattended.thy ===== *)
theory Unattended
  imports Shell_Grammar
begin

text \<open>
  The parser of commands that run without a human reading them,
  \<^verbatim>\<open>parse_unattended\<close> of \<^verbatim>\<open>execution_policy/shell_lex.rs\<close>: the argv sequence of a line, or
  \<open>None\<close> when the line holds anything a shell would have to interpret. The words it returns
  are the words the executor runs, so the theory shows that it invents no character, that no
  word it returns carries an expansion, and that it reads quoted words back exactly.
\<close>

section \<open>Commands of an unattended sequence\<close>

datatype RunIf = Always | PreviousSucceeded

record UnattendedCommand =
  argv :: "rstr list"
  run_if :: RunIf

abbreviation unattended_command :: "rstr list \<Rightarrow> RunIf \<Rightarrow> UnattendedCommand" where
  "unattended_command ws gate \<equiv> \<lparr>argv = ws, run_if = gate\<rparr>"

text \<open>\<^verbatim>\<open>word.get_or_insert_with(String::new)\<close> and \<^verbatim>\<open>word.take()\<close>.\<close>

definition open_word :: "rstr option \<Rightarrow> rstr" where
  "open_word word = (case word of Some w \<Rightarrow> w | None \<Rightarrow> [])"

definition take_word :: "rstr option \<Rightarrow> rstr list" where
  "take_word word = (case word of Some w \<Rightarrow> [w] | None \<Rightarrow> [])"

section \<open>The parser\<close>

definition ambiguous_backslash_quote :: "rstr \<Rightarrow> bool" where
  "ambiguous_backslash_quote command \<longleftrightarrow> contains_str [BSL, DQ] command"

text \<open>The two inner loops: the word read up to the closing quote, and what follows it.\<close>

fun single_quoted :: "rstr \<Rightarrow> rstr \<Rightarrow> (rstr \<times> rstr) option" where
  "single_quoted w [] = None"
| "single_quoted w (c # cs) = (if c = SQ then Some (w, cs) else single_quoted (w @ [c]) cs)"

fun double_quoted :: "Grammar \<Rightarrow> rstr \<Rightarrow> rstr \<Rightarrow> (rstr \<times> rstr) option" where
  "double_quoted g w [] = None"
| "double_quoted g w (c # cs) =
     (if c = DQ then Some (w, cs)
      else if c = BSL \<and> backslash_escapes g then
        (case cs of
           [] \<Rightarrow> None
         | e # es \<Rightarrow>
             if e = DQ \<or> e = BSL then double_quoted g (w @ [e]) es
             else if e = NL then double_quoted g w es
             else double_quoted g (w @ [BSL, e]) es)
      else double_quoted g (w @ [c]) cs)"

lemma single_quoted_length:
  "single_quoted w cs = Some (w', rest) \<Longrightarrow> length rest < length cs"
  by (induction w cs rule: single_quoted.induct) (auto split: if_splits)

lemma double_quoted_length:
  "double_quoted g w cs = Some (w', rest) \<Longrightarrow> length rest < length cs"
  by (induction g w cs rule: double_quoted.induct) (auto split: if_splits list.splits)

text \<open>The main loop. \<open>unattended_step\<close> is one round of \<^verbatim>\<open>while let Some(c) = chars.next()\<close> over
  the variables \<open>commands\<close>, \<open>argv\<close>, \<open>word\<close> and \<open>gate\<close>: the new variables and the characters
  still to read, or \<open>None\<close> where the source returns.\<close>

record unattended_state =
  u_commands :: "UnattendedCommand list"
  u_argv :: "rstr list"
  u_word :: "rstr option"
  u_gate :: RunIf

definition unattended_step ::
  "Grammar \<Rightarrow> unattended_state \<Rightarrow> char \<Rightarrow> rstr \<Rightarrow> (unattended_state \<times> rstr) option" where
  "unattended_step g st c cs =
     (if c = BSL \<and> backslash_escapes g then
        (case cs of
           [] \<Rightarrow> None
         | nxt # rest \<Rightarrow>
             if nxt = NL then Some (st, rest)
             else Some (st\<lparr>u_word := Some (open_word (u_word st) @ [nxt])\<rparr>, rest))
      else if c = SQ then
        (case single_quoted (open_word (u_word st)) cs of
           None \<Rightarrow> None
         | Some (w, rest) \<Rightarrow> Some (st\<lparr>u_word := Some w\<rparr>, rest))
      else if c = DQ then
        (case double_quoted g (open_word (u_word st)) cs of
           None \<Rightarrow> None
         | Some (w, rest) \<Rightarrow> Some (st\<lparr>u_word := Some w\<rparr>, rest))
      else if c = SPC \<or> c = TAB then
        Some (st\<lparr>u_argv := u_argv st @ take_word (u_word st), u_word := None\<rparr>, cs)
      else if c = NL \<or> c = CHR '';'' then
        (let av = u_argv st @ take_word (u_word st) in
         if av = [] then
           (if c = CHR '';'' then None else Some (st\<lparr>u_argv := [], u_word := None\<rparr>, cs))
         else Some (\<lparr>u_commands = u_commands st @ [unattended_command av (u_gate st)],
                     u_argv = [], u_word = None, u_gate = Always\<rparr>, cs))
      else if c = CHR ''&'' then
        (case cs of
           [] \<Rightarrow> None
         | nxt # rest \<Rightarrow>
             if nxt \<noteq> CHR ''&'' then None
             else (let av = u_argv st @ take_word (u_word st) in
                   if av = [] then None
                   else Some (\<lparr>u_commands = u_commands st @ [unattended_command av (u_gate st)],
                               u_argv = [], u_word = None, u_gate = PreviousSucceeded\<rparr>, rest)))
      else if c = CHR ''|'' then None
      else if c = CHR ''#'' \<and> comments_with_hash g \<and> u_word st = None then
        Some (st, dropWhile (\<lambda>ch. ch \<noteq> NL) cs)
      else Some (st\<lparr>u_word := Some (open_word (u_word st) @ [c])\<rparr>, cs))"

lemma unattended_step_length:
  "unattended_step g st c cs = Some (st', rest) \<Longrightarrow> length rest \<le> length cs"
  unfolding unattended_step_def Let_def
  by (auto split: if_splits list.splits option.splits prod.splits
      dest: single_quoted_length double_quoted_length simp: length_dropWhile_le)

function unattended_loop ::
  "Grammar \<Rightarrow> unattended_state \<Rightarrow> rstr \<Rightarrow> unattended_state option" where
  "unattended_loop g st [] = Some st"
| "unattended_loop g st (c # cs) =
     (case unattended_step g st c cs of
        None \<Rightarrow> None
      | Some (st', rest) \<Rightarrow> unattended_loop g st' rest)"
  by pat_completeness auto
termination
  by (relation "measure (\<lambda>(g, st, cs). length cs)")
    (auto dest: unattended_step_length intro: le_imp_less_Suc)

text \<open>The tests on the finished commands: a program word that is no assignment, and no word
  the shell would expand as a home directory.\<close>

definition runnable_argv :: "rstr list \<Rightarrow> bool" where
  "runnable_argv ws \<longleftrightarrow>
     (case ws of
        [] \<Rightarrow> False
      | program # _ \<Rightarrow> program \<noteq> [] \<and> CHR ''='' \<notin> set program)
     \<and> \<not> list_ex (starts_with ''~'') ws"

definition parse_unattended_in :: "Grammar \<Rightarrow> rstr \<Rightarrow> UnattendedCommand list option" where
  "parse_unattended_in g command =
     (if has_shell_indirection g command then None
      else if \<not> backslash_escapes g \<and> ambiguous_backslash_quote command then None
      else case unattended_loop g
                  \<lparr>u_commands = [], u_argv = [], u_word = None, u_gate = Always\<rparr> command of
             None \<Rightarrow> None
           | Some st \<Rightarrow>
               (let av = u_argv st @ take_word (u_word st);
                    cmds = (if av \<noteq> [] then u_commands st @ [unattended_command av (u_gate st)]
                            else u_commands st)
                in if av = [] \<and> u_gate st = PreviousSucceeded then None
                   else if cmds = [] then None
                   else if list_all (\<lambda>c. runnable_argv (argv c)) cmds then Some cmds
                   else None))"

definition parse_unattended :: "bool \<Rightarrow> rstr \<Rightarrow> UnattendedCommand list option" where
  "parse_unattended win command = parse_unattended_in (HOST win) command"

definition executed_words_in :: "Grammar \<Rightarrow> rstr \<Rightarrow> rstr list option" where
  "executed_words_in g command =
     (case parse_unattended_in g command of
        None \<Rightarrow> None
      | Some commands \<Rightarrow>
          (if length commands \<noteq> 1 then None else Some (argv (last commands))))"

definition executed_words :: "bool \<Rightarrow> rstr \<Rightarrow> rstr list option" where
  "executed_words win command = executed_words_in (HOST win) command"

section \<open>The parser invents nothing\<close>

text \<open>Everything the loop has collected, as one text.\<close>

definition collected :: "unattended_state \<Rightarrow> rstr" where
  "collected st =
     concat (concat (map argv (u_commands st))) @ concat (u_argv st) @ open_word (u_word st)"

lemma take_word_simps [simp]:
  "take_word None = []" "take_word (Some w) = [w]" "open_word None = []" "open_word (Some w) = w"
  by (simp_all add: take_word_def open_word_def)

lemma take_word_Nil_iff [simp]: "take_word w = [] \<longleftrightarrow> w = None"
  by (cases w) auto

lemma concat_take_word [simp]: "concat (take_word w) = open_word w"
  by (cases w) auto

lemma single_quoted_collects:
  "single_quoted w cs = Some (w', rest) \<Longrightarrow> \<exists>u. w' = w @ u \<and> cs = u @ SQ # rest"
proof (induction w cs rule: single_quoted.induct)
  case (2 w c cs)
  then show ?case by (cases "c = SQ") force+
qed simp

lemma double_quoted_collects:
  "double_quoted g w cs = Some (w', rest) \<Longrightarrow>
     \<exists>u pre. w' = w @ u \<and> cs = pre @ rest \<and> subseq u pre"
proof (induction g w cs rule: double_quoted.induct)
  case (1 g w)
  then show ?case by simp
next
  case (2 g w c cs)
  have step: "\<exists>u pre. w' = w @ u \<and> c # cs = pre @ rest \<and> subseq u pre"
    if "double_quoted g (w @ k) s = Some (w', rest)" "c # cs = p @ s" "subseq k p"
      "\<exists>u pre. w' = (w @ k) @ u \<and> s = pre @ rest \<and> subseq u pre" for k p s
  proof -
    from that(4) obtain u pre where "w' = (w @ k) @ u" "s = pre @ rest" "subseq u pre" by blast
    with that(2,3) show ?thesis
      by (intro exI [of _ "k @ u"] exI [of _ "p @ pre"]) (auto intro: list_emb_append_mono)
  qed
  consider "c = DQ" | "c \<noteq> DQ" "c = BSL" "backslash_escapes g"
    | "c \<noteq> DQ" "\<not> (c = BSL \<and> backslash_escapes g)" by blast
  then show ?case
  proof cases
    case 1
    with "2.prems" show ?thesis by (auto intro!: exI [of _ "[c]"])
  next
    case esc: 2
    with "2.prems" obtain e es where cs: "cs = e # es" by (cases cs) auto
    show ?thesis
    proof (cases "e = DQ \<or> e = BSL")
      case True
      with "2.prems" esc cs have "double_quoted g (w @ [e]) es = Some (w', rest)" by simp
      with step [OF this, of "[c, e]"] "2.IH"(1) [of e es] esc cs True show ?thesis by auto
    next
      case no: False
      show ?thesis
      proof (cases "e = NL")
        case True
        with "2.prems" esc cs no have "double_quoted g (w @ []) es = Some (w', rest)" by simp
        with step [OF this, of "[c, e]"] "2.IH"(2) [of e es] esc cs no True show ?thesis by auto
      next
        case False
        with "2.prems" esc cs no have "double_quoted g (w @ [BSL, e]) es = Some (w', rest)" by simp
        with step [OF this, of "[c, e]"] "2.IH"(3) [of e es] esc cs no False show ?thesis by auto
      qed
    qed
  next
    case 3
    with "2.prems" have "double_quoted g (w @ [c]) cs = Some (w', rest)" by (auto split: if_splits)
    with step [OF this, of "[c]"] "2.IH"(4) 3 show ?thesis by auto
  qed
qed


text \<open>Reasoning about the loop: a property of the variables and the characters still to read
  that every round keeps holds at the end.\<close>

lemma unattended_loop_inv:
  assumes "unattended_loop g st cs = Some st'" and "I st cs"
    and "\<And>st c cs st' rest.
           I st (c # cs) \<Longrightarrow> unattended_step g st c cs = Some (st', rest) \<Longrightarrow> I st' rest"
  shows "I st' []"
  using assms
proof (induction g st cs rule: unattended_loop.induct)
  case (2 g st c cs)
  from "2.prems"(1) obtain st1 rest where step: "unattended_step g st c cs = Some (st1, rest)"
    and loop: "unattended_loop g st1 rest = Some st'"
    by (auto split: option.splits)
  from "2.prems"(3) [OF "2.prems"(2) step] have "I st1 rest" .
  with "2.IH" [OF step refl loop] "2.prems"(3) show ?case by blast
qed simp

text \<open>One round, by the character it reads.\<close>

definition plain_char :: "Grammar \<Rightarrow> char \<Rightarrow> bool" where
  "plain_char g c \<longleftrightarrow>
     c \<notin> set [SQ, DQ, SPC, TAB, NL, CHR '';'', CHR ''&'', CHR ''|'', CHR ''#'']
     \<and> (c = BSL \<longrightarrow> \<not> backslash_escapes g)"

lemma unattended_step_escape:
  "backslash_escapes g \<Longrightarrow> unattended_step g st BSL (nxt # rest) =
     (if nxt = NL then Some (st, rest)
      else Some (st\<lparr>u_word := Some (open_word (u_word st) @ [nxt])\<rparr>, rest))"
  "backslash_escapes g \<Longrightarrow> unattended_step g st BSL [] = None"
  by (simp_all add: unattended_step_def)

lemma unattended_step_quotes:
  "unattended_step g st SQ cs =
     map_option (\<lambda>(w, rest). (st\<lparr>u_word := Some w\<rparr>, rest))
       (single_quoted (open_word (u_word st)) cs)"
  "unattended_step g st DQ cs =
     map_option (\<lambda>(w, rest). (st\<lparr>u_word := Some w\<rparr>, rest))
       (double_quoted g (open_word (u_word st)) cs)"
  by (auto simp: unattended_step_def split: option.splits)

lemma unattended_step_blank:
  "unattended_step g st SPC cs =
     Some (st\<lparr>u_argv := u_argv st @ take_word (u_word st), u_word := None\<rparr>, cs)"
  "unattended_step g st TAB cs =
     Some (st\<lparr>u_argv := u_argv st @ take_word (u_word st), u_word := None\<rparr>, cs)"
  by (simp_all add: unattended_step_def)

lemma unattended_step_end:
  "unattended_step g st NL cs =
     (if u_argv st @ take_word (u_word st) = [] then Some (st\<lparr>u_argv := [], u_word := None\<rparr>, cs)
      else Some (\<lparr>u_commands = u_commands st @
                   [unattended_command (u_argv st @ take_word (u_word st)) (u_gate st)],
                  u_argv = [], u_word = None, u_gate = Always\<rparr>, cs))"
  "unattended_step g st CHR '';'' cs =
     (if u_argv st @ take_word (u_word st) = [] then None
      else Some (\<lparr>u_commands = u_commands st @
                   [unattended_command (u_argv st @ take_word (u_word st)) (u_gate st)],
                  u_argv = [], u_word = None, u_gate = Always\<rparr>, cs))"
  by (simp_all add: unattended_step_def Let_def)

lemma unattended_step_and:
  "unattended_step g st CHR ''&'' (nxt # rest) =
     (if nxt \<noteq> CHR ''&'' \<or> u_argv st @ take_word (u_word st) = [] then None
      else Some (\<lparr>u_commands = u_commands st @
                   [unattended_command (u_argv st @ take_word (u_word st)) (u_gate st)],
                  u_argv = [], u_word = None, u_gate = PreviousSucceeded\<rparr>, rest))"
  "unattended_step g st CHR ''&'' [] = None"
  "unattended_step g st CHR ''|'' cs = None"
  by (simp_all add: unattended_step_def Let_def)

lemma unattended_step_hash:
  "unattended_step g st CHR ''#'' cs =
     (if comments_with_hash g \<and> u_word st = None then Some (st, dropWhile (\<lambda>ch. ch \<noteq> NL) cs)
      else Some (st\<lparr>u_word := Some (open_word (u_word st) @ [CHR ''#''])\<rparr>, cs))"
  by (simp add: unattended_step_def)

lemma unattended_step_plain:
  "plain_char g c \<Longrightarrow> unattended_step g st c cs =
     Some (st\<lparr>u_word := Some (open_word (u_word st) @ [c])\<rparr>, cs)"
  by (cases "c = BSL") (simp_all add: unattended_step_def plain_char_def)

lemmas unattended_step_simps = unattended_step_escape unattended_step_quotes
  unattended_step_blank unattended_step_end unattended_step_and unattended_step_hash
  unattended_step_plain

lemma char_class_cases:
  obtains (escape) "c = BSL" "backslash_escapes g"
    | (single) "c = SQ" | (double) "c = DQ" | (blank) "c = SPC \<or> c = TAB"
    | (line) "c = NL" | (semi) "c = CHR '';''" | (amp) "c = CHR ''&''" | (bar) "c = CHR ''|''"
    | (hash) "c = CHR ''#''" | (plain) "plain_char g c"
proof (rule ccontr)
  assume neg: "\<not> thesis"
  have 1: "\<not> (c = BSL \<and> backslash_escapes g)" using that(1) neg by metis
  have 2: "c \<noteq> SQ" using that(2) neg by metis
  have 3: "c \<noteq> DQ" using that(3) neg by metis
  have 4: "\<not> (c = SPC \<or> c = TAB)" using that(4) neg by metis
  have 5: "c \<noteq> NL" using that(5) neg by metis
  have 6: "c \<noteq> CHR '';''" using that(6) neg by metis
  have 7: "c \<noteq> CHR ''&''" using that(7) neg by metis
  have 8: "c \<noteq> CHR ''|''" using that(8) neg by metis
  have 9: "c \<noteq> CHR ''#''" using that(9) neg by metis
  have "plain_char g c"
    using 1 4 by (simp only: plain_char_def list.set insert_iff empty_iff 2 3 5 6 7 8 9
        simp_thms de_Morgan_disj de_Morgan_conj imp_conv_disj)
  with that(10) neg show False by metis
qed

text \<open>One round collects a subsequence of the characters it consumes.\<close>

lemma unattended_step_collects:
  assumes step: "unattended_step g st c cs = Some (st', rest)"
  shows "\<exists>u pre. collected st' = collected st @ u \<and> c # cs = pre @ rest \<and> subseq u pre"
proof -
  have skip: ?thesis if "collected st' = collected st" "c # cs = p @ rest" for p
    using that by (intro exI [of _ "[]"] exI [of _ p]) simp
  have one: ?thesis if "st' = st\<lparr>u_word := Some (open_word (u_word st) @ u)\<rparr>"
    "c # cs = p @ rest" "subseq u p" for u p
    using that by (intro exI [of _ u] exI [of _ p]) (simp add: collected_def)
  show ?thesis
  proof (cases rule: char_class_cases [of c g])
    case escape
    with step obtain nxt rest' where cs: "cs = nxt # rest'"
      by (cases cs) (auto simp: unattended_step_escape)
    show ?thesis
    proof (cases "nxt = NL")
      case True
      with step escape cs show ?thesis
        by (intro skip [of "[c, nxt]"]) (simp_all add: unattended_step_escape)
    next
      case False
      with step escape cs show ?thesis
        by (intro one [of "[nxt]" "[c, nxt]"]) (simp_all add: unattended_step_escape)
    qed
  next
    case single
    with step obtain w where "single_quoted (open_word (u_word st)) cs = Some (w, rest)"
      and st': "st' = st\<lparr>u_word := Some w\<rparr>"
      by (auto simp: unattended_step_quotes)
    then obtain u where "w = open_word (u_word st) @ u" "cs = u @ SQ # rest"
      using single_quoted_collects by blast
    then show ?thesis by (intro one [of u "c # u @ [SQ]"]) (auto simp: st')
  next
    case double
    with step obtain w where "double_quoted g (open_word (u_word st)) cs = Some (w, rest)"
      and st': "st' = st\<lparr>u_word := Some w\<rparr>"
      by (auto simp: unattended_step_quotes)
    then obtain u pre where "w = open_word (u_word st) @ u" "cs = pre @ rest" "subseq u pre"
      using double_quoted_collects by blast
    then show ?thesis by (intro one [of u "c # pre"]) (auto simp: st')
  next
    case blank
    with step show ?thesis
      by (intro skip [of "[c]"]) (auto simp: unattended_step_blank collected_def)
  next
    case line
    with step show ?thesis
      by (intro skip [of "[c]"]) (auto simp: unattended_step_end collected_def split: if_splits)
  next
    case semi
    with step show ?thesis
      by (intro skip [of "[c]"]) (auto simp: unattended_step_end collected_def split: if_splits)
  next
    case amp
    with step obtain rest' where "cs = CHR ''&'' # rest'"
      by (cases cs) (auto simp: unattended_step_and split: if_splits)
    with amp step show ?thesis
      by (intro skip [of "[c, CHR ''&'']"])
        (auto simp: unattended_step_and collected_def split: if_splits)
  next
    case bar
    with step show ?thesis by (simp add: unattended_step_and)
  next
    case hash
    show ?thesis
    proof (cases "comments_with_hash g \<and> u_word st = None")
      case True
      with step hash have "rest = dropWhile (\<lambda>ch. ch \<noteq> NL) cs" "st' = st"
        by (simp_all add: unattended_step_hash)
      then show ?thesis
        by (intro skip [of "c # takeWhile (\<lambda>ch. ch \<noteq> NL) cs"]) simp_all
    next
      case False
      with step hash show ?thesis
        by (intro one [of "[c]" "[c]"]) (simp_all add: unattended_step_hash)
    qed
  next
    case plain
    with step show ?thesis by (intro one [of "[c]" "[c]"]) (simp_all add: unattended_step_plain)
  qed
qed

lemma unattended_loop_collects:
  assumes "unattended_loop g st cs = Some st'"
  shows "\<exists>u. collected st' = collected st @ u \<and> subseq u cs"
proof -
  let ?I = "\<lambda>s r. \<exists>u pre. collected s = collected st @ u \<and> cs = pre @ r \<and> subseq u pre"
  have "?I st' []"
  proof (rule unattended_loop_inv [OF assms, where I = ?I])
    show "?I st cs" by (auto intro: exI [of _ "[]"])
  next
    fix s c r s' r'
    assume "?I s (c # r)" and "unattended_step g s c r = Some (s', r')"
    then obtain u pre v p where "collected s = collected st @ u" "cs = pre @ c # r" "subseq u pre"
      "collected s' = collected s @ v" "c # r = p @ r'" "subseq v p"
      using unattended_step_collects by metis
    then show "?I s' r'"
      by (intro exI [of _ "u @ v"] exI [of _ "pre @ p"]) (auto intro: list_emb_append_mono)
  qed
  then show ?thesis by auto
qed


lemma parse_unattended_inD:
  assumes "parse_unattended_in g command = Some cs"
  obtains st where "\<not> has_shell_indirection g command"
    and "unattended_loop g \<lparr>u_commands = [], u_argv = [], u_word = None, u_gate = Always\<rparr> command
           = Some st"
    and "cs = u_commands st @
           (if u_argv st @ take_word (u_word st) = [] then []
            else [unattended_command (u_argv st @ take_word (u_word st)) (u_gate st)])"
    and "cs \<noteq> []" and "\<forall>c \<in> set cs. runnable_argv (argv c)"
  using assms that
  by (auto simp: parse_unattended_in_def Let_def list_all_iff split: if_splits option.splits)

lemma parse_unattended_subseq:
  assumes "parse_unattended_in g command = Some cs"
  shows "subseq (concat (concat (map argv cs))) command"
proof -
  from assms obtain st where
    loop: "unattended_loop g \<lparr>u_commands = [], u_argv = [], u_word = None, u_gate = Always\<rparr> command
             = Some st"
    and cs: "cs = u_commands st @
           (if u_argv st @ take_word (u_word st) = [] then []
            else [unattended_command (u_argv st @ take_word (u_word st)) (u_gate st)])"
    by (rule parse_unattended_inD)
  have "concat (concat (map argv cs)) = collected st"
    by (simp add: cs collected_def)
  with unattended_loop_collects [OF loop] show ?thesis
    by (auto simp: collected_def)
qed

lemma parse_unattended_word_chars:
  assumes "parse_unattended_in g command = Some cs" "c \<in> set cs" "w \<in> set (argv c)"
  shows "set w \<subseteq> set command"
proof -
  have "set w \<subseteq> set (concat (concat (map argv cs)))"
    using assms(2,3) by auto
  also have "\<dots> \<subseteq> set command"
    using parse_unattended_subseq [OF assms(1)] by (fastforce elim: list_emb_set)
  finally show ?thesis .
qed

text \<open>The gate of the first command.\<close>

definition gates_ok :: "unattended_state \<Rightarrow> bool" where
  "gates_ok st \<longleftrightarrow>
     (case u_commands st of [] \<Rightarrow> u_gate st = Always | c # _ \<Rightarrow> run_if c = Always)"

lemma gates_ok_same:
  "gates_ok st \<Longrightarrow> u_commands st' = u_commands st \<Longrightarrow> u_gate st' = u_gate st \<Longrightarrow> gates_ok st'"
  by (cases "u_commands st") (simp_all add: gates_ok_def)

lemma gates_ok_push:
  "gates_ok st \<Longrightarrow> u_commands st' = u_commands st @ [unattended_command ws (u_gate st)] \<Longrightarrow>
   gates_ok st'"
  by (cases "u_commands st") (simp_all add: gates_ok_def)

lemma unattended_step_gates:
  assumes "unattended_step g st c cs = Some (st', rest)" "gates_ok st"
  shows "gates_ok st'"
proof (cases rule: char_class_cases [of c g])
  case escape
  with assms(1) show ?thesis
    by (cases cs) (auto simp: unattended_step_escape intro: gates_ok_same [OF assms(2)] split: if_splits)
next
  case blank
  with assms(1) have "st' = st\<lparr>u_argv := u_argv st @ take_word (u_word st), u_word := None\<rparr>"
    by (auto simp: unattended_step_blank)
  then show ?thesis by (intro gates_ok_same [OF assms(2)]) simp_all
next
  case amp
  with assms(1) show ?thesis
    by (cases cs) (auto simp: unattended_step_and intro: gates_ok_push [OF assms(2)] split: if_splits)
qed (use assms(1) in \<open>auto simp: unattended_step_simps split: if_splits
       intro: gates_ok_same [OF assms(2)] gates_ok_push [OF assms(2)]\<close>)

lemma unattended_loop_gates:
  "unattended_loop g st cs = Some st' \<Longrightarrow> gates_ok st \<Longrightarrow> gates_ok st'"
  by (rule unattended_loop_inv [where I = "\<lambda>st cs. gates_ok st"])
    (auto intro: unattended_step_gates)

lemma parse_unattended_first_gate:
  assumes "parse_unattended_in g command = Some cs"
  shows "run_if (hd cs) = Always"
proof -
  from assms obtain st where
    loop: "unattended_loop g \<lparr>u_commands = [], u_argv = [], u_word = None, u_gate = Always\<rparr> command
             = Some st"
    and cs: "cs = u_commands st @
           (if u_argv st @ take_word (u_word st) = [] then []
            else [unattended_command (u_argv st @ take_word (u_word st)) (u_gate st)])"
    and ne: "cs \<noteq> []"
    by (rule parse_unattended_inD)
  have "gates_ok st"
    by (rule unattended_loop_gates [OF loop]) (simp add: gates_ok_def)
  with ne show ?thesis
    unfolding cs by (cases "u_commands st") (auto simp: gates_ok_def split: if_splits)
qed

section \<open>Reading quoted words back\<close>

definition quote_word :: "rstr \<Rightarrow> rstr" where
  "quote_word w = SQ # w @ [SQ]"

definition render_command :: "rstr list \<Rightarrow> rstr" where
  "render_command ws = join_with [SPC] (map quote_word ws)"

fun render_rest :: "UnattendedCommand list \<Rightarrow> rstr" where
  "render_rest [] = []"
| "render_rest (c # cs) =
     (case run_if c of Always \<Rightarrow> ''; '' | PreviousSucceeded \<Rightarrow> '' && '')
     @ render_command (argv c) @ render_rest cs"

fun render_sequence :: "UnattendedCommand list \<Rightarrow> rstr" where
  "render_sequence [] = []"
| "render_sequence (c # cs) = render_command (argv c) @ render_rest cs"

lemma single_quoted_reads:
  "SQ \<notin> set u \<Longrightarrow> single_quoted w (u @ SQ # rest) = Some (w @ u, rest)"
  by (induction u arbitrary: w) auto

lemma loop_reads_word:
  "SQ \<notin> set w \<Longrightarrow> unattended_loop g st (quote_word w @ rest) =
     unattended_loop g (st\<lparr>u_word := Some (open_word (u_word st) @ w)\<rparr>) rest"
  by (simp add: quote_word_def unattended_step_quotes single_quoted_reads)

lemma loop_reads_command:
  "ws \<noteq> [] \<Longrightarrow> \<forall>w \<in> set ws. SQ \<notin> set w \<Longrightarrow> u_word st = None \<Longrightarrow>
   unattended_loop g st (render_command ws @ rest) =
   unattended_loop g (st\<lparr>u_argv := u_argv st @ butlast ws, u_word := Some (last ws)\<rparr>) rest"
proof (induction ws arbitrary: st rule: list_nonempty_induct)
  case (single w)
  then show ?case by (simp add: render_command_def loop_reads_word)
next
  case (cons w ws)
  obtain v vs where ws: "ws = v # vs" using cons.hyps by (cases ws) auto
  have "unattended_loop g st (render_command (w # ws) @ rest) =
        unattended_loop g (st\<lparr>u_word := Some w\<rparr>) (SPC # render_command ws @ rest)"
    using cons.prems by (simp add: render_command_def ws loop_reads_word)
  also have "\<dots> = unattended_loop g (st\<lparr>u_argv := u_argv st @ [w]\<rparr>) (render_command ws @ rest)"
    using cons.prems(2) by (cases st) (simp add: unattended_step_blank)
  also have "\<dots> = unattended_loop g
      (st\<lparr>u_argv := u_argv st @ butlast (w # ws), u_word := Some (last (w # ws))\<rparr>) rest"
    using cons.prems cons.hyps cons.IH [of "st\<lparr>u_argv := u_argv st @ [w]\<rparr>"] by simp
  finally show ?case .
qed

lemma command_eta: "unattended_command (argv c) (run_if c) = c"
  by simp

lemma loop_reads_rest:
  assumes "\<forall>c \<in> set cs. argv c \<noteq> [] \<and> (\<forall>w \<in> set (argv c). SQ \<notin> set w)"
    and "u_argv st @ take_word (u_word st) \<noteq> []"
  shows "\<exists>st'. unattended_loop g st (render_rest cs) = Some st' \<and>
     u_argv st' @ take_word (u_word st') \<noteq> [] \<and>
     u_commands st' @ [unattended_command (u_argv st' @ take_word (u_word st')) (u_gate st')] =
     u_commands st @ unattended_command (u_argv st @ take_word (u_word st)) (u_gate st) # cs"
  using assms
proof (induction cs arbitrary: st)
  case Nil
  then show ?case by simp
next
  case (Cons c cs)
  let ?st1 = "\<lparr>u_commands = u_commands st @
        [unattended_command (u_argv st @ take_word (u_word st)) (u_gate st)],
      u_argv = butlast (argv c), u_word = Some (last (argv c)), u_gate = run_if c\<rparr>"
  have read: "unattended_loop g st (render_rest (c # cs)) = unattended_loop g ?st1 (render_rest cs)"
    using Cons.prems by (cases "run_if c")
      (auto simp: unattended_step_simps loop_reads_command)
  have "\<exists>st'. unattended_loop g ?st1 (render_rest cs) = Some st' \<and>
     u_argv st' @ take_word (u_word st') \<noteq> [] \<and>
     u_commands st' @ [unattended_command (u_argv st' @ take_word (u_word st')) (u_gate st')] =
     u_commands ?st1 @ unattended_command (u_argv ?st1 @ take_word (u_word ?st1)) (u_gate ?st1) # cs"
    using Cons.prems by (intro Cons.IH) auto
  with Cons.prems(1) show ?case unfolding read by (simp add: command_eta)
qed

text \<open>C3 (round trip). Take any sequence of commands, each a non-empty list of words that hold
  no single quote, with a program word that is no assignment and no word that starts with a
  tilde, chained by \<^verbatim>\<open>;\<close> or \<^verbatim>\<open>&&\<close>, and write every word between single quotes. If the text holds
  no character the platform's interpreter would rewrite, \<^verbatim>\<open>parse_unattended\<close> reads exactly those
  commands back: the same words, in the same order, under the same gates.\<close>

theorem parse_unattended_roundtrip:
  assumes "cs \<noteq> []" and "run_if (hd cs) = Always"
    and "\<forall>c \<in> set cs. runnable_argv (argv c) \<and> (\<forall>w \<in> set (argv c). SQ \<notin> set w)"
    and "\<not> has_shell_indirection g (render_sequence cs)"
    and "backslash_escapes g \<or> \<not> ambiguous_backslash_quote (render_sequence cs)"
  shows "parse_unattended_in g (render_sequence cs) = Some cs"
proof -
  obtain c rest where cs: "cs = c # rest" using assms(1) by (cases cs) auto
  have ne: "\<forall>c \<in> set cs. argv c \<noteq> [] \<and> (\<forall>w \<in> set (argv c). SQ \<notin> set w)"
    using assms(3) by (auto simp: runnable_argv_def)
  let ?st = "\<lparr>u_commands = [], u_argv = butlast (argv c), u_word = Some (last (argv c)),
               u_gate = Always\<rparr>"
  have "unattended_loop g \<lparr>u_commands = [], u_argv = [], u_word = None, u_gate = Always\<rparr>
          (render_sequence cs) = unattended_loop g ?st (render_rest rest)"
    using ne by (simp add: cs loop_reads_command)
  moreover have "\<exists>st'. unattended_loop g ?st (render_rest rest) = Some st' \<and>
     u_argv st' @ take_word (u_word st') \<noteq> [] \<and>
     u_commands st' @ [unattended_command (u_argv st' @ take_word (u_word st')) (u_gate st')] =
     u_commands ?st @ unattended_command (u_argv ?st @ take_word (u_word ?st)) (u_gate ?st) # rest"
    using ne by (intro loop_reads_rest) (auto simp: cs)
  ultimately obtain st' where
    loop: "unattended_loop g \<lparr>u_commands = [], u_argv = [], u_word = None, u_gate = Always\<rparr>
          (render_sequence cs) = Some st'"
    and ne': "u_argv st' @ take_word (u_word st') \<noteq> []"
    and eq: "u_commands st' @ [unattended_command (u_argv st' @ take_word (u_word st')) (u_gate st')]
          = cs"
    using assms(2) ne by (auto simp: cs)
  with assms(3-5) show ?thesis
    by (auto simp: parse_unattended_in_def Let_def list_all_iff assms(1))
qed

theorem parse_unattended_roundtrip_witness:
  "parse_unattended_in SH
     (render_sequence [unattended_command [''git'', ''commit'', ''-m'', ''a; b && c''] Always,
                       unattended_command [''echo'', ''done''] PreviousSucceeded]) =
   Some [unattended_command [''git'', ''commit'', ''-m'', ''a; b && c''] Always,
         unattended_command [''echo'', ''done''] PreviousSucceeded]"
proof (rule parse_unattended_roundtrip)
  show "\<not> has_shell_indirection SH
     (render_sequence [unattended_command [''git'', ''commit'', ''-m'', ''a; b && c''] Always,
                       unattended_command [''echo'', ''done''] PreviousSucceeded])"
    by code_simp
qed (simp_all add: runnable_argv_def starts_with_def SH_def)

text \<open>Every command \<^verbatim>\<open>parse_unattended\<close> returns is one the executor can run as it is:
  there is at least one command and the first runs unconditionally, each has a non-empty
  program word with no \<^verbatim>\<open>=\<close>, no word starts with a tilde, no word holds a character of a
  redirection, substitution, expansion or grouping, and the words, put one after the other,
  are a subsequence of the line as written: the parser drops characters and invents none.\<close>

theorem parse_unattended_sound:
  assumes "parse_unattended_in g command = Some cs"
  shows "cs \<noteq> [] \<and> run_if (hd cs) = Always \<and>
     (\<forall>c \<in> set cs. argv c \<noteq> [] \<and> hd (argv c) \<noteq> [] \<and> CHR ''='' \<notin> set (hd (argv c)) \<and>
        (\<forall>w \<in> set (argv c). \<not> prefix ''~'' w \<and> set w \<inter> set INDIRECTION = {})) \<and>
     subseq (concat (concat (map argv cs))) command"
proof -
  from assms have ind: "\<not> has_shell_indirection g command"
    and ne: "cs \<noteq> []" and run: "\<forall>c \<in> set cs. runnable_argv (argv c)"
    by (auto elim!: parse_unattended_inD)
  have "run_if (hd cs) = Always"
    using assms by (rule parse_unattended_first_gate)
  moreover have "set w \<inter> set INDIRECTION = {}" if "c \<in> set cs" "w \<in> set (argv c)" for c w
    using parse_unattended_word_chars [OF assms that] ind
    by (auto simp: has_shell_indirection_def contains_any_iff)
  moreover have "argv c \<noteq> [] \<and> hd (argv c) \<noteq> [] \<and> CHR ''='' \<notin> set (hd (argv c)) \<and>
      (\<forall>w \<in> set (argv c). \<not> prefix ''~'' w)" if "c \<in> set cs" for c
    using run that
    by (cases "argv c") (auto simp: runnable_argv_def list_ex_iff starts_with_iff)
  ultimately show ?thesis
    using ne parse_unattended_subseq [OF assms] by blast
qed

theorem parse_unattended_sound_witness:
  "let cs = [unattended_command [''cargo'', ''test''] Always] in
   parse_unattended_in SH ''cargo test'' = Some cs \<and> run_if (hd cs) = Always \<and>
   subseq (concat (concat (map argv cs))) ''cargo test''"
proof -
  have "parse_unattended_in SH ''cargo test'' =
      Some [unattended_command [''cargo'', ''test''] Always]"
    by code_simp
  from this parse_unattended_sound [OF this] show ?thesis unfolding Let_def by blast
qed

end
