(* ===== verification/Sh_Lexer.thy ===== *)
theory Sh_Lexer
  imports Unattended "HOL-Library.Monad_Syntax"
begin

text \<open>
  The quote-aware reading of a line, \<^verbatim>\<open>sh_commands\<close> of \<^verbatim>\<open>execution_policy/shell_lex.rs\<close>: a
  machine with a stack of open contexts (the line, groups, substitutions, double quotes), the
  here-documents waiting for their bodies, the compound commands open at the top level and the
  commands held back until a \<^verbatim>\<open>$((\<close> is decided.

  The stacks \<open>frames\<close>, \<open>compounds\<close> and \<open>held\<close> have their innermost element first (the vectors
  of the source have it last). An operation returns an option whose \<open>None\<close> is a panic of the
  source (\<^verbatim>\<open>unreachable!\<close>); a step returns besides the new state the index to continue from,
  \<open>None\<close> there being the source's \<open>None\<close>: a line the lexer does not model. \<^verbatim>\<open>open_cases\<close> is a
  natural number: it grows by one for a word of the line, so it stays below \<^verbatim>\<open>u32::MAX\<close> on
  every line shorter than that.
\<close>

section \<open>The state of the machine\<close>

datatype HeredocBodies = Skip | Read

record ShCommands =
  commands :: "rstr list list"
  skipped_heredoc :: bool
  here_strings :: "rstr list"
  finished_before_heredoc :: nat

definition LEADS_A_COMMAND :: "rstr list" where
  "LEADS_A_COMMAND = [''!'', ''{'', ''if'', ''then'', ''else'', ''elif'', ''while'', ''until'',
                      ''do'', ''time'']"

definition CLOSES_A_COMPOUND :: "rstr list" where
  "CLOSES_A_COMPOUND = [''}'', ''fi'', ''esac'', ''done'']"

record CommandFrame =
  closer :: "char option"
  arithmetic :: bool
  discard :: bool
  holds :: bool
  undecided :: bool
  open_cases :: nat
  command_position :: bool
  function_word :: "nat option"
  cf_argv :: "rstr list"
  cf_word :: "rstr option"
  quoted :: bool

definition new_frame :: "char option \<Rightarrow> bool \<Rightarrow> bool \<Rightarrow> CommandFrame" where
  "new_frame cl arith disc =
     \<lparr>closer = cl, arithmetic = arith, discard = disc, holds = False, undecided = False,
      open_cases = 0, command_position = True, function_word = None, cf_argv = [],
      cf_word = None, quoted = False\<rparr>"

datatype LexFrame = Commands CommandFrame | DoubleQuoted

record Held =
  held_commands :: "rstr list list"
  backgrounds :: bool

record OpenCompound =
  oc_closer :: rstr
  oc_pipeline_start :: nat
  fence_cap :: "nat option"

record PendingHeredoc =
  delimiter :: rstr
  strip_tabs :: bool

record ShLexer =
  frames :: "LexFrame list"
  lx_read :: ShCommands
  pending :: "PendingHeredoc list"
  after_redirect :: bool
  after_pipe :: bool
  here_string_at :: "nat option"
  pipeline_start :: nat
  compounds :: "OpenCompound list"
  backgrounded :: bool
  fence :: "nat option"
  held :: "Held list"

abbreviation read_commands :: "ShLexer \<Rightarrow> rstr list list" where
  "read_commands lx \<equiv> commands (lx_read lx)"

definition record_commands :: "rstr list list \<Rightarrow> ShLexer \<Rightarrow> ShLexer" where
  "record_commands cs lx = lx\<lparr>lx_read := (lx_read lx)\<lparr>commands := read_commands lx @ cs\<rparr>\<rparr>"

section \<open>Words and commands\<close>

fun innermost :: "LexFrame list \<Rightarrow> CommandFrame option" where
  "innermost [] = None"
| "innermost (Commands f # fs) = Some f"
| "innermost (DoubleQuoted # fs) = innermost fs"

fun upd_innermost :: "(CommandFrame \<Rightarrow> CommandFrame) \<Rightarrow> LexFrame list \<Rightarrow> LexFrame list option" where
  "upd_innermost u [] = None"
| "upd_innermost u (Commands f # fs) = Some (Commands (u f) # fs)"
| "upd_innermost u (DoubleQuoted # fs) = map_option ((#) DoubleQuoted) (upd_innermost u fs)"

text \<open>\<^verbatim>\<open>command_frame\<close>: a read of the innermost frame of commands, and a write through the
  reference it returns.\<close>

definition command_frame :: "ShLexer \<Rightarrow> CommandFrame option" where
  "command_frame lx = innermost (frames lx)"

definition with_frame :: "(CommandFrame \<Rightarrow> CommandFrame) \<Rightarrow> ShLexer \<Rightarrow> ShLexer option" where
  "with_frame u lx = map_option (\<lambda>fs. lx\<lparr>frames := fs\<rparr>) (upd_innermost u (frames lx))"

definition push :: "char \<Rightarrow> ShLexer \<Rightarrow> ShLexer option" where
  "push ch lx =
     with_frame (\<lambda>f. f\<lparr>cf_word := Some (open_word (cf_word f) @ [ch])\<rparr>)
       (lx\<lparr>after_redirect := False, after_pipe := False\<rparr>)"

fun push_all :: "rstr \<Rightarrow> ShLexer \<Rightarrow> ShLexer option" where
  "push_all [] lx = Some lx"
| "push_all (ch # chs) lx = push ch lx \<bind> push_all chs"

definition touch_word :: "ShLexer \<Rightarrow> ShLexer option" where
  "touch_word lx =
     with_frame (\<lambda>f. f\<lparr>cf_word := Some (open_word (cf_word f))\<rparr>) (lx\<lparr>after_pipe := False\<rparr>)"

definition mark_quoted :: "ShLexer \<Rightarrow> ShLexer option" where
  "mark_quoted lx = touch_word lx \<bind> with_frame (\<lambda>f. f\<lparr>quoted := True\<rparr>)"

definition compound_parts :: "rstr \<Rightarrow> (rstr \<times> bool) option" where
  "compound_parts word =
     (if word = ''{'' then Some (''}'', False)
      else if word = ''if'' then Some (''fi'', False)
      else if word = ''case'' then Some (''esac'', False)
      else if word \<in> set [''while'', ''until'', ''for'', ''select''] then Some (''done'', True)
      else None)"

definition compound_word :: "rstr \<Rightarrow> ShLexer \<Rightarrow> ShLexer" where
  "compound_word word lx =
     (case compound_parts word of
        Some (cl, is_loop) \<Rightarrow>
          (let piped_into = length (read_commands lx) > pipeline_start lx;
               own = (if is_loop \<or> piped_into then Some (pipeline_start lx) else None);
               around = (case compounds lx of [] \<Rightarrow> None | outer # _ \<Rightarrow> fence_cap outer);
               cap = (case own of
                        None \<Rightarrow> around
                      | Some n \<Rightarrow> (case around of None \<Rightarrow> Some n | Some m \<Rightarrow> Some (min n m)))
           in lx\<lparr>compounds := \<lparr>oc_closer = cl, oc_pipeline_start = pipeline_start lx,
                              fence_cap = cap\<rparr> # compounds lx\<rparr>)
      | None \<Rightarrow>
          if word \<in> set CLOSES_A_COMPOUND then
            (case compounds lx of
               [] \<Rightarrow> lx
             | compound # cs \<Rightarrow>
                 if oc_closer compound = word
                 then lx\<lparr>compounds := cs, pipeline_start := oc_pipeline_start compound\<rparr>
                 else lx)
          else lx)"

text \<open>The part of \<^verbatim>\<open>end_word\<close> that reads and writes the frame: whether the word is reserved, and
  the frame after \<^verbatim>\<open>word.take()\<close> and the updates before the word is pushed.\<close>

definition word_is_reserved :: "CommandFrame \<Rightarrow> rstr \<Rightarrow> bool" where
  "word_is_reserved f word \<longleftrightarrow>
     \<not> quoted f \<and>
     (command_position f \<or>
      (word = ''{'' \<and> (case function_word f of None \<Rightarrow> False | Some at \<Rightarrow> at + 2 = length (cf_argv f))))"

definition frame_ends_word :: "rstr \<Rightarrow> CommandFrame \<Rightarrow> CommandFrame" where
  "frame_ends_word word f =
     (let reserved = word_is_reserved f word in
      f\<lparr>cf_word := None, quoted := False,
        function_word :=
          (if reserved \<and> word = ''function'' then Some (length (cf_argv f)) else function_word f),
        command_position :=
          (reserved \<and> (word \<in> set LEADS_A_COMMAND \<or> word \<in> set CLOSES_A_COMPOUND)),
        open_cases :=
          (if reserved \<and> word = ''case'' then open_cases f + 1
           else if reserved \<and> word = ''esac'' then open_cases f - 1
           else open_cases f)\<rparr>)"

definition note_here_string :: "rstr \<Rightarrow> ShLexer \<Rightarrow> ShLexer" where
  "note_here_string word lx =
     (if here_string_at lx = Some (length (frames lx))
      then lx\<lparr>here_string_at := None,
              lx_read := (lx_read lx)\<lparr>here_strings := here_strings (lx_read lx) @ [word]\<rparr>\<rparr>
      else lx)"

definition end_word :: "ShLexer \<Rightarrow> ShLexer option" where
  "end_word lx0 =
     (let lx = lx0\<lparr>after_redirect := False\<rparr> in
      do { f \<leftarrow> command_frame lx;
           case cf_word f of
             None \<Rightarrow> Some lx
           | Some word \<Rightarrow>
               do { lx1 \<leftarrow> with_frame (frame_ends_word word) lx;
                    let lx2 = note_here_string word lx1;
                    let lx3 = (if word_is_reserved f word \<and> closer f = None
                               then compound_word word lx2 else lx2);
                    with_frame (\<lambda>f. f\<lparr>cf_argv := cf_argv f @ [word]\<rparr>) lx3 } })"

text \<open>Where a finished command goes: the innermost \<open>held\<close> entry, or the commands read.\<close>

definition record_argv :: "bool \<Rightarrow> rstr list \<Rightarrow> ShLexer \<Rightarrow> ShLexer" where
  "record_argv hold av lx =
     (case held lx of
        h # hs \<Rightarrow>
          if hold then lx\<lparr>held := h\<lparr>held_commands := held_commands h @ [av]\<rparr> # hs\<rparr>
          else record_commands [av] lx
      | [] \<Rightarrow> record_commands [av] lx)"

definition end_command :: "ShLexer \<Rightarrow> ShLexer option" where
  "end_command lx =
     do { lx1 \<leftarrow> end_word lx;
          f \<leftarrow> command_frame lx1;
          lx2 \<leftarrow> with_frame
                  (\<lambda>f. f\<lparr>cf_argv := [], command_position := True, function_word := None\<rparr>) lx1;
          if cf_argv f = [] \<or> command_position f \<or> discard f then Some lx2
          else Some (record_argv (holds f) (cf_argv f) lx2) }"

definition drop_words :: "ShLexer \<Rightarrow> ShLexer option" where
  "drop_words lx =
     end_word lx \<bind>
     with_frame (\<lambda>f. f\<lparr>cf_argv := [], command_position := True, function_word := None\<rparr>)"

definition background :: "ShLexer \<Rightarrow> ShLexer option" where
  "background lx =
     do { f \<leftarrow> command_frame lx;
          case held lx of
            h # hs \<Rightarrow>
              if holds f then Some (lx\<lparr>held := h\<lparr>backgrounds := True\<rparr> # hs\<rparr>)
              else Some (lx\<lparr>backgrounded := True\<rparr>)
          | [] \<Rightarrow> Some (lx\<lparr>backgrounded := True\<rparr>) }"

definition end_pipeline :: "ShLexer \<Rightarrow> ShLexer option" where
  "end_pipeline lx =
     do { lx1 \<leftarrow> end_command lx;
          f \<leftarrow> command_frame lx1;
          Some (if closer f = None then lx1\<lparr>pipeline_start := length (read_commands lx1)\<rparr>
                else lx1) }"

definition mark_fed :: "ShLexer \<Rightarrow> ShLexer" where
  "mark_fed lx =
     (case fence lx of
        Some _ \<Rightarrow> lx
      | None \<Rightarrow>
          (let cap = (case compounds lx of [] \<Rightarrow> None | opened # _ \<Rightarrow> fence_cap opened)
           in lx\<lparr>fence := Some (if backgrounded lx then 0
                               else case cap of
                                      None \<Rightarrow> pipeline_start lx
                                    | Some c \<Rightarrow> min c (pipeline_start lx))\<rparr>))"

section \<open>Opening and closing frames\<close>

definition open_frame :: "char \<Rightarrow> bool \<Rightarrow> bool \<Rightarrow> ShLexer \<Rightarrow> ShLexer" where
  "open_frame cl arith disc lx =
     lx\<lparr>after_pipe := False, frames := Commands (new_frame (Some cl) arith disc) # frames lx\<rparr>"

definition open_group :: "bool \<Rightarrow> ShLexer \<Rightarrow> ShLexer option" where
  "open_group arith lx =
     do { around \<leftarrow> command_frame lx;
          with_frame (\<lambda>f. f\<lparr>holds := holds around\<rparr>)
            (open_frame CHR '')'' (arith \<or> arithmetic around) (discard around) lx) }"

definition open_undecided :: "ShLexer \<Rightarrow> ShLexer option" where
  "open_undecided lx =
     (let lx1 = open_frame CHR '')'' True False lx
      in with_frame (\<lambda>f. f\<lparr>holds := True, undecided := True\<rparr>)
           (lx1\<lparr>held := \<lparr>held_commands = [], backgrounds = False\<rparr> # held lx1\<rparr>))"

definition close_frame :: "bool \<Rightarrow> ShLexer \<Rightarrow> ShLexer option" where
  "close_frame first_of_double lx =
     do { lx1 \<leftarrow> end_pipeline lx;
          case frames lx1 of
            Commands f # fs \<Rightarrow>
              (let lx2 = lx1\<lparr>frames := fs\<rparr> in
               if undecided f then
                 (let h = (case held lx2 of [] \<Rightarrow> \<lparr>held_commands = [], backgrounds = False\<rparr> | h # _ \<Rightarrow> h);
                      lx3 = lx2\<lparr>held := tl (held lx2)\<rparr>
                  in if first_of_double then Some lx3
                     else (let lx4 = record_commands (held_commands h) lx3
                           in if backgrounds h then background lx4 else Some lx4))
               else Some lx2)
          | _ \<Rightarrow> None }"

section \<open>One step\<close>

type_synonym lex_result = "(ShLexer \<times> nat option) option"

definition goes :: "nat \<Rightarrow> ShLexer \<Rightarrow> lex_result" where
  "goes i lx = Some (lx, Some i)"

definition refuses :: "ShLexer \<Rightarrow> lex_result" where
  "refuses lx = Some (lx, None)"

definition step_quoted :: "rstr \<Rightarrow> nat \<Rightarrow> ShLexer \<Rightarrow> lex_result" where
  "step_quoted chars i lx =
     (let c = chars ! i; next = get_at chars (i + 1) in
      if c = DQ then goes (i + 1) (lx\<lparr>frames := tl (frames lx)\<rparr>)
      else if c = BSL then
        (case next of
           None \<Rightarrow> goes (i + 1) lx
         | Some e \<Rightarrow>
             if e = NL then goes (i + 2) lx
             else if e = DQ \<or> e = BSL \<or> e = CHR ''$'' \<or> e = BTICK
             then push e lx \<bind> goes (i + 2)
             else push BSL lx \<bind> push e \<bind> goes (i + 2))
      else if c = CHR ''$'' \<and> next = Some CHR ''('' \<and> get_at chars (i + 2) = Some CHR ''('' then
        open_undecided (open_frame CHR '')'' False False lx) \<bind> goes (i + 3)
      else if c = CHR ''$'' \<and> next = Some CHR ''('' then
        goes (i + 2) (open_frame CHR '')'' False False lx)
      else if c = BTICK then goes (i + 1) (open_frame BTICK False False lx)
      else push c lx \<bind> goes (i + 1))"

text \<open>The delimiter word of a here-document, read from the characters after the blanks: the
  delimiter and the index reached, or \<open>None\<close> for an unterminated quote or a final backslash.\<close>

function heredoc_delimiter :: "rstr \<Rightarrow> rstr \<Rightarrow> nat \<Rightarrow> (rstr \<times> nat) option" where
  "heredoc_delimiter chars acc i =
     (case get_at chars i of
        None \<Rightarrow> Some (acc, i)
      | Some ch \<Rightarrow>
          if ch \<in> {SPC, TAB, NL, CHR '';'', CHR ''&'', CHR ''|'', CHR ''<'', CHR ''>'', CHR ''('', CHR '')''}
          then Some (acc, i)
          else if ch = SQ \<or> ch = DQ then
            (case position (\<lambda>c. c = ch) (drop (i + 1) chars) of
               None \<Rightarrow> None
             | Some n \<Rightarrow> heredoc_delimiter chars (acc @ take n (drop (i + 1) chars)) (n + i + 1 + 1))
          else if ch = BSL then
            (case get_at chars (i + 1) of
               None \<Rightarrow> None
             | Some e \<Rightarrow> heredoc_delimiter chars (acc @ [e]) (i + 2))
          else heredoc_delimiter chars (acc @ [ch]) (i + 1))"
  by pat_completeness auto
termination
  by (relation "measure (\<lambda>(chars, acc, i). length chars - i)")
    (auto simp: get_at_def split: if_splits)

definition skip_blanks :: "rstr \<Rightarrow> nat \<Rightarrow> nat" where
  "skip_blanks chars i = i + length (takeWhile (\<lambda>c. c = SPC \<or> c = TAB) (drop i chars))"

definition heredoc :: "rstr \<Rightarrow> nat \<Rightarrow> ShLexer \<Rightarrow> lex_result" where
  "heredoc chars start lx0 =
     do { lx1 \<leftarrow> end_word lx0;
          let lx = mark_fed lx1;
          let tabs = (get_at chars start = Some CHR ''-'');
          let i = skip_blanks chars (if tabs then start + 1 else start);
          case heredoc_delimiter chars [] i of
            None \<Rightarrow> refuses lx
          | Some (delim, j) \<Rightarrow>
              if delim = [] then refuses lx
              else goes j (lx\<lparr>pending := pending lx @ [\<lparr>delimiter = delim, strip_tabs = tabs\<rparr>]\<rparr>) }"

text \<open>The end of the line that starts at \<open>i\<close>: its newline, or the end of the text.\<close>

definition line_end :: "rstr \<Rightarrow> nat \<Rightarrow> nat" where
  "line_end chars i =
     (case position (\<lambda>ch. ch = NL) (drop i chars) of None \<Rightarrow> length chars | Some off \<Rightarrow> i + off)"

lemma position_less: "position P xs = Some n \<Longrightarrow> n < length xs"
  by (auto simp: position_def Let_def split: if_splits)

lemma line_end_le: "i \<le> line_end chars i" if "i \<le> length chars"
  using that by (auto simp: line_end_def split: option.splits)

text \<open>The body of one here-document: the index after its delimiter line, or \<open>None\<close> when the text
  ends first (the \<open>return chars.len()\<close> of the source).\<close>

function skip_body :: "rstr \<Rightarrow> PendingHeredoc \<Rightarrow> nat \<Rightarrow> nat option" where
  "skip_body chars doc i =
     (if i \<ge> length chars then None
      else (let e = line_end chars i;
                raw = take (e - i) (drop i chars);
                line = (if strip_tabs doc then dropWhile (\<lambda>c. c = TAB) raw else raw)
            in if line = delimiter doc then Some (e + 1) else skip_body chars doc (e + 1)))"
  by pat_completeness auto
termination
proof (relation "measure (\<lambda>(chars, doc, i). length chars - i)", goal_cases)
  case (2 chars doc i e raw line)
  then show ?case using line_end_le [of i chars] by auto
qed simp

fun skip_bodies :: "rstr \<Rightarrow> PendingHeredoc list \<Rightarrow> nat \<Rightarrow> nat" where
  "skip_bodies chars [] i = min i (length chars)"
| "skip_bodies chars (doc # docs) i =
     (case skip_body chars doc i of
        None \<Rightarrow> length chars
      | Some j \<Rightarrow> skip_bodies chars docs j)"

definition after_newline :: "rstr \<Rightarrow> nat \<Rightarrow> HeredocBodies \<Rightarrow> ShLexer \<Rightarrow> ShLexer \<times> nat" where
  "after_newline chars start bodies lx =
     (if pending lx = [] then (lx, start)
      else if bodies = Read then (lx\<lparr>pending := []\<rparr>, start)
      else (lx\<lparr>pending := [], lx_read := (lx_read lx)\<lparr>skipped_heredoc := True\<rparr>\<rparr>,
            skip_bodies chars (pending lx) start))"

text \<open>The arms of \<^verbatim>\<open>step\<close>, grouped by the character they match.\<close>

definition step_backslash :: "rstr \<Rightarrow> nat \<Rightarrow> char option \<Rightarrow> ShLexer \<Rightarrow> lex_result" where
  "step_backslash chars i cl lx =
     (case get_at chars (i + 1) of
        None \<Rightarrow> refuses lx
      | Some e \<Rightarrow>
          if e = NL then goes (i + 2) lx
          else if e = BTICK \<and> cl = Some BTICK then refuses lx
          else mark_quoted lx \<bind> push e \<bind> goes (i + 2))"

definition step_single_quote :: "rstr \<Rightarrow> nat \<Rightarrow> ShLexer \<Rightarrow> lex_result" where
  "step_single_quote chars i lx =
     (case position (\<lambda>ch. ch = SQ) (drop (i + 1) chars) of
        None \<Rightarrow> refuses lx
      | Some n \<Rightarrow>
          mark_quoted lx \<bind> push_all (take n (drop (i + 1) chars)) \<bind> goes (n + i + 1 + 1))"

definition step_double_quote :: "nat \<Rightarrow> ShLexer \<Rightarrow> lex_result" where
  "step_double_quote i lx =
     do { lx1 \<leftarrow> mark_quoted lx;
          goes (i + 1) (lx1\<lparr>after_redirect := False, frames := DoubleQuoted # frames lx1\<rparr>) }"

definition step_dollar :: "rstr \<Rightarrow> nat \<Rightarrow> ShLexer \<Rightarrow> lex_result" where
  "step_dollar chars i lx =
     (case get_at chars (i + 1) of
        None \<Rightarrow> push CHR ''$'' lx \<bind> goes (i + 1)
      | Some n \<Rightarrow>
          if n = CHR ''('' \<and> get_at chars (i + 2) = Some CHR ''('' then
            do { lx1 \<leftarrow> touch_word lx;
                 lx2 \<leftarrow> open_undecided (open_frame CHR '')'' False False lx1);
                 goes (i + 3) lx2 }
          else if n = CHR ''('' then
            do { lx1 \<leftarrow> touch_word lx;
                 goes (i + 2) (open_frame CHR '')'' False False lx1) }
          else if n = SQ then
            (case position (\<lambda>ch. ch = SQ) (drop (i + 2) chars) of
               None \<Rightarrow> refuses lx
             | Some m \<Rightarrow>
                 (let body = take m (drop (i + 2) chars);
                      escapes = length (takeWhile (\<lambda>ch. ch = BSL) (rev body))
                  in if escapes mod 2 = 1 then refuses lx
                     else mark_quoted lx \<bind> push_all body \<bind> goes (m + i + 2 + 1)))
          else if n = DQ then goes (i + 1) lx
          else push CHR ''$'' lx \<bind> goes (i + 1))"

definition step_backtick :: "nat \<Rightarrow> char option \<Rightarrow> ShLexer \<Rightarrow> lex_result" where
  "step_backtick i cl lx =
     (if cl = Some BTICK then close_frame False lx \<bind> goes (i + 1)
      else do { lx1 \<leftarrow> touch_word lx; goes (i + 1) (open_frame BTICK False False lx1) })"

definition step_open_paren :: "rstr \<Rightarrow> nat \<Rightarrow> bool \<Rightarrow> ShLexer \<Rightarrow> lex_result" where
  "step_open_paren chars i arith lx =
     (if i > 0 \<and> chars ! (i - 1) = CHR ''('' then open_group True lx \<bind> goes (i + 1)
      else do { f \<leftarrow> command_frame lx;
        if \<not> arith \<and> (case cf_word f of None \<Rightarrow> False | Some w \<Rightarrow> ends_with ''='' w) then
          goes (i + 1) (open_frame CHR '')'' False True lx)
        else if \<not> arith \<and>
            List.find (\<lambda>ch. \<not> (ch = SPC \<or> ch = TAB)) (drop (i + 1) chars) = Some CHR '')'' then
          do { lx1 \<leftarrow> drop_words lx;
               case position (\<lambda>ch. ch = CHR '')'') (drop (i + 1) chars) of
                 None \<Rightarrow> refuses lx1
               | Some n \<Rightarrow> goes (n + i + 1 + 1) lx1 }
        else end_command lx \<bind> open_group False \<bind> goes (i + 1) })"

definition step_close_paren :: "rstr \<Rightarrow> nat \<Rightarrow> char option \<Rightarrow> ShLexer \<Rightarrow> lex_result" where
  "step_close_paren chars i cl lx =
     do { lx1 \<leftarrow> end_word lx;
          f \<leftarrow> command_frame lx1;
          if cl = Some CHR '')'' \<and> open_cases f = 0 then
            close_frame (get_at chars (i + 1) = Some CHR '')'') lx1 \<bind> goes (i + 1)
          else
            do { lx2 \<leftarrow> (if open_cases f > 0 then drop_words lx1 else Some lx1);
                 end_pipeline lx2 \<bind> goes (i + 1) } }"

definition step_newline :: "rstr \<Rightarrow> nat \<Rightarrow> HeredocBodies \<Rightarrow> ShLexer \<Rightarrow> lex_result" where
  "step_newline chars i bodies lx =
     do { lx1 \<leftarrow> (if after_pipe lx then Some lx else end_pipeline lx);
          let (lx2, j) = after_newline chars (i + 1) bodies lx1;
          goes j lx2 }"

definition step_ampersand :: "rstr \<Rightarrow> nat \<Rightarrow> ShLexer \<Rightarrow> lex_result" where
  "step_ampersand chars i lx =
     (if after_redirect lx then push CHR ''&'' lx \<bind> goes (i + 1)
      else if get_at chars (i + 1) = Some CHR ''&'' then end_pipeline lx \<bind> goes (i + 2)
      else do { lx1 \<leftarrow> (if get_at chars (i + 1) \<noteq> Some CHR ''>'' then background lx else Some lx);
                end_pipeline lx1 \<bind> goes (i + 1) })"

definition step_bar :: "rstr \<Rightarrow> nat \<Rightarrow> ShLexer \<Rightarrow> lex_result" where
  "step_bar chars i lx =
     (if after_redirect lx then push CHR ''|'' lx \<bind> goes (i + 1)
      else if get_at chars (i + 1) \<noteq> Some CHR ''|'' then
        do { lx1 \<leftarrow> end_command lx;
             goes (if get_at chars (i + 1) = Some CHR ''&'' then i + 2 else i + 1)
               (lx1\<lparr>after_pipe := True\<rparr>) }
      else end_pipeline lx \<bind> goes (i + 2))"

definition step_angle :: "rstr \<Rightarrow> nat \<Rightarrow> bool \<Rightarrow> ShLexer \<Rightarrow> lex_result" where
  "step_angle chars i arith lx =
     (let c = chars ! i; next = get_at chars (i + 1) in
      if c = CHR ''<'' \<and> next = Some CHR ''<'' \<and> get_at chars (i + 2) = Some CHR ''<'' then
        do { lx1 \<leftarrow> end_word lx;
             let lx2 = mark_fed lx1;
             goes (i + 3) (lx2\<lparr>here_string_at := Some (length (frames lx2))\<rparr>) }
      else if c = CHR ''<'' \<and> next = Some CHR ''<'' \<and> \<not> arith then heredoc chars (i + 2) lx
      else do { lx1 \<leftarrow> push c lx; goes (i + 1) (lx1\<lparr>after_redirect := True\<rparr>) })"

definition step_commands ::
  "rstr \<Rightarrow> nat \<Rightarrow> HeredocBodies \<Rightarrow> char option \<Rightarrow> bool \<Rightarrow> ShLexer \<Rightarrow> lex_result" where
  "step_commands chars i bodies cl arith lx =
     (let c = chars ! i in
      if c = BSL then step_backslash chars i cl lx
      else if c = SQ then step_single_quote chars i lx
      else if c = DQ then step_double_quote i lx
      else if c = CHR ''$'' then step_dollar chars i lx
      else if c = BTICK then step_backtick i cl lx
      else if c = CHR ''('' then step_open_paren chars i arith lx
      else if c = CHR '')'' then step_close_paren chars i cl lx
      else if c = SPC \<or> c = TAB then end_word lx \<bind> goes (i + 1)
      else if c = NL then step_newline chars i bodies lx
      else if c = CHR ''&'' then step_ampersand chars i lx
      else if c = CHR ''|'' then step_bar chars i lx
      else if c = CHR '';'' then end_pipeline lx \<bind> goes (i + 1)
      else if c = CHR ''<'' \<or> c = CHR ''>'' then step_angle chars i arith lx
      else if c = CHR ''#'' then
        do { f \<leftarrow> command_frame lx;
             if cf_word f = None then goes (line_end chars i) lx
             else push c lx \<bind> goes (i + 1) }
      else push c lx \<bind> goes (i + 1))"

definition lex_step :: "rstr \<Rightarrow> nat \<Rightarrow> HeredocBodies \<Rightarrow> ShLexer \<Rightarrow> lex_result" where
  "lex_step chars i bodies lx =
     (case frames lx of
        DoubleQuoted # _ \<Rightarrow> step_quoted chars i lx
      | Commands f # _ \<Rightarrow> step_commands chars i bodies (closer f) (arithmetic f) lx
      | [] \<Rightarrow> None)"

section \<open>The loop\<close>

lemma lex_result_simps [simp]:
  "goes i lx = Some (lx', Some j) \<longleftrightarrow> lx' = lx \<and> j = i"
  "refuses lx \<noteq> Some (lx', Some j)"
  by (auto simp: goes_def refuses_def)

declare heredoc_delimiter.simps [simp del] skip_body.simps [simp del]

lemma heredoc_delimiter_le:
  "heredoc_delimiter chars acc i = Some (d, j) \<Longrightarrow> i \<le> j"
proof (induction chars acc i rule: heredoc_delimiter.induct)
  case (1 chars acc i)
  show ?case
  proof (cases "get_at chars i")
    case None
    with "1.prems" show ?thesis by (simp add: heredoc_delimiter.simps)
  next
    case (Some ch)
    note prems = "1.prems" [unfolded heredoc_delimiter.simps [of chars acc i] Some option.case]
    note IH = "1.IH" [OF Some]
    show ?thesis
    proof (cases "ch \<in> {SPC, TAB, NL, CHR '';'', CHR ''&'', CHR ''|'', CHR ''<'', CHR ''>'', CHR ''('', CHR '')''}")
      case True
      with prems show ?thesis by (simp only: if_True option.inject prod.inject)
    next
      case False
      note prems = prems [unfolded if_not_P [OF False]] and IH = IH [OF False]
      show ?thesis
      proof (cases "ch = SQ \<or> ch = DQ")
        case True
        from prems [unfolded if_P [OF True]] obtain n
          where n: "position (\<lambda>c. c = ch) (drop (i + 1) chars) = Some n"
            and rec: "heredoc_delimiter chars (acc @ take n (drop (i + 1) chars)) (n + i + 1 + 1) = Some (d, j)"
          by (auto split: option.splits)
        from IH(1) [OF True n rec] show ?thesis by simp
      next
        case noquote: False
        note prems = prems [unfolded if_not_P [OF noquote]]
        show ?thesis
        proof (cases "ch = BSL")
          case True
          from prems [unfolded if_P [OF True]] obtain e
            where e: "get_at chars (i + 1) = Some e"
              and rec: "heredoc_delimiter chars (acc @ [e]) (i + 2) = Some (d, j)"
            by (auto split: option.splits)
          from IH(2) [OF noquote True e rec] show ?thesis by simp
        next
          case False
          from IH(3) [OF noquote False prems [unfolded if_not_P [OF False]]] show ?thesis by simp
        qed
      qed
    qed
  qed
qed

lemma skip_body_le: "skip_body chars doc i = Some j \<Longrightarrow> i < j"
proof (induction chars doc i rule: skip_body.induct)
  case (1 chars doc i)
  from "1.prems" show ?case
    using line_end_le [of i chars] "1.IH"
    by (subst (asm) skip_body.simps) (fastforce simp: Let_def split: if_splits)
qed

lemma skip_bodies_le: "i \<le> length chars \<Longrightarrow> i \<le> skip_bodies chars docs i"
proof (induction chars docs i rule: skip_bodies.induct)
  case (2 chars doc docs i)
  have "skip_bodies chars docs j \<ge> i" if "skip_body chars doc i = Some j" for j
  proof (cases "j \<le> length chars")
    case True
    with "2.IH" that skip_body_le [OF that] show ?thesis by fastforce
  next
    case False
    then show ?thesis
      using "2.prems" by (cases docs) (simp_all add: skip_body.simps)
  qed
  with "2.prems" show ?case by (simp split: option.splits)
qed simp

lemma skip_blanks_le: "i \<le> skip_blanks chars i"
  by (simp add: skip_blanks_def)

lemma line_end_comment: "i < length chars \<Longrightarrow> chars ! i \<noteq> NL \<Longrightarrow> i < line_end chars i"
proof -
  assume a: "i < length chars" "chars ! i \<noteq> NL"
  then have "drop i chars = chars ! i # drop (Suc i) chars" by (simp add: Cons_nth_drop_Suc)
  with a show ?thesis by (auto simp: line_end_def position_def Let_def split: option.splits if_splits)
qed

lemmas step_arm_defs = step_quoted_def step_backslash_def step_single_quote_def
  step_double_quote_def step_dollar_def step_backtick_def step_open_paren_def
  step_close_paren_def step_ampersand_def step_bar_def

lemma step_newline_progress:
  assumes "step_newline chars i bodies lx = Some (lx', Some j)" "i < length chars"
  shows "i < j"
proof -
  have "i < snd (after_newline chars (i + 1) bodies lx1)" for lx1
    using assms(2) skip_bodies_le [of "i + 1" chars "pending lx1"] by (simp add: after_newline_def)
  moreover from assms(1) obtain lx1 where
    "goes (snd (after_newline chars (i + 1) bodies lx1)) (fst (after_newline chars (i + 1) bodies lx1))
       = Some (lx', Some j)"
    by (auto simp: step_newline_def bind_eq_Some_conv case_prod_beta Let_def)
  ultimately show ?thesis by (simp only: lex_result_simps)
qed

lemma heredoc_progress:
  assumes "heredoc chars start lx = Some (lx', Some j)"
  shows "start \<le> j"
proof -
  let ?tabs = "get_at chars start = Some CHR ''-''"
  let ?k = "skip_blanks chars (if ?tabs then start + 1 else start)"
  have "start \<le> ?k"
    using skip_blanks_le [of start chars] skip_blanks_le [of "start + 1" chars] by simp
  moreover from assms obtain d where "heredoc_delimiter chars [] ?k = Some (d, j)"
    by (cases "heredoc_delimiter chars [] ?k") (auto simp: heredoc_def bind_eq_Some_conv Let_def split: if_splits)
  then have "?k \<le> j" by (rule heredoc_delimiter_le)
  ultimately show ?thesis by simp
qed

lemma step_angle_progress:
  assumes "step_angle chars i arith lx = Some (lx', Some j)"
  shows "i < j"
  using assms heredoc_progress [of chars "i + 2" lx lx' j]
  by (auto simp: step_angle_def bind_eq_Some_conv Let_def split: if_splits)

text \<open>Every step that continues reads at least one character.\<close>

lemma lex_step_progress:
  assumes "lex_step chars i bodies lx = Some (lx', Some j)" "i < length chars"
  shows "i < j"
proof -
  have quoted: "i < j" if "step_quoted chars i lx = Some (lx', Some j)"
    using that by (auto simp: step_quoted_def bind_eq_Some_conv Let_def split: if_splits option.splits)
  have "i < j" if step: "step_commands chars i bodies cl arith lx = Some (lx', Some j)" for cl arith
    using step assms(2)
    unfolding step_commands_def Let_def
    by (auto simp: step_arm_defs bind_eq_Some_conv Let_def line_end_comment
        split: if_splits option.splits dest: step_newline_progress step_angle_progress)
  with quoted assms(1) show ?thesis
    by (auto simp: lex_step_def split: list.splits LexFrame.splits)
qed

text \<open>The loop of \<^verbatim>\<open>sh_commands_in\<close>: outer \<open>None\<close> a panic, inner \<open>None\<close> a line not modelled.\<close>

function lex_loop :: "rstr \<Rightarrow> HeredocBodies \<Rightarrow> nat \<Rightarrow> ShLexer \<Rightarrow> ShLexer option option" where
  "lex_loop chars bodies i lx =
     (if i < length chars then
        (case lex_step chars i bodies lx of
           None \<Rightarrow> None
         | Some (lx', None) \<Rightarrow> Some None
         | Some (lx', Some j) \<Rightarrow> lex_loop chars bodies j lx')
      else Some (Some lx))"
  by pat_completeness auto
termination
  by (relation "measure (\<lambda>(chars, bodies, i, lx). length chars - i)")
    (auto dest: lex_step_progress)

definition new_lexer :: ShLexer where
  "new_lexer =
     \<lparr>frames = [Commands (new_frame None False False)],
      lx_read = \<lparr>commands = [], skipped_heredoc = False, here_strings = [],
                 finished_before_heredoc = 0\<rparr>,
      pending = [], after_redirect = False, after_pipe = False, here_string_at = None,
      pipeline_start = 0, compounds = [], backgrounded = False, fence = None, held = []\<rparr>"

definition sh_commands_in :: "Grammar \<Rightarrow> rstr \<Rightarrow> HeredocBodies \<Rightarrow> ShCommands option option" where
  "sh_commands_in g command bodies =
     (if g \<noteq> SH then Some None
      else case lex_loop command bodies 0 new_lexer of
             None \<Rightarrow> None
           | Some None \<Rightarrow> Some None
           | Some (Some lx) \<Rightarrow>
               if length (frames lx) \<noteq> 1 then Some None
               else (case end_pipeline lx of
                       None \<Rightarrow> None
                     | Some lx1 \<Rightarrow>
                         Some (Some ((lx_read lx1)\<lparr>finished_before_heredoc :=
                           (case fence lx1 of None \<Rightarrow> 0 | Some n \<Rightarrow> n)\<rparr>))))"

definition sh_commands :: "bool \<Rightarrow> rstr \<Rightarrow> HeredocBodies \<Rightarrow> ShCommands option option" where
  "sh_commands win command bodies = sh_commands_in (HOST win) command bodies"

declare lex_loop.simps [simp del]

section \<open>The stack invariant\<close>

text \<open>What the operations on words and commands never change of a frame: its closer and how it
  holds commands back. \<open>None\<close> is a double quote.\<close>

type_synonym frame_shape = "(char option \<times> bool \<times> bool) option"

fun frame_shape :: "LexFrame \<Rightarrow> frame_shape" where
  "frame_shape (Commands f) = Some (closer f, holds f, undecided f)"
| "frame_shape DoubleQuoted = None"

abbreviation shapes :: "ShLexer \<Rightarrow> frame_shape list" where
  "shapes lx \<equiv> map frame_shape (frames lx)"

definition holding :: "frame_shape \<Rightarrow> bool" where
  "holding s \<longleftrightarrow> (case s of Some (_, h, _) \<Rightarrow> h | None \<Rightarrow> False)"

definition undecided_shape :: "frame_shape \<Rightarrow> bool" where
  "undecided_shape s \<longleftrightarrow> (case s of Some (_, _, u) \<Rightarrow> u | None \<Rightarrow> False)"

text \<open>The bottom frame is the line itself, and only it has no closer; a double quote sits on a
  frame of commands; an undecided frame holds its commands, and a frame that holds without being
  undecided sits directly on another that holds.\<close>

fun stack_ok :: "frame_shape list \<Rightarrow> bool" where
  "stack_ok [] = False"
| "stack_ok [s] = (s = Some (None, False, False))"
| "stack_ok (s # t # ss) =
     (stack_ok (t # ss) \<and>
      (case s of
         None \<Rightarrow> t \<noteq> None
       | Some (cl, h, u) \<Rightarrow> cl \<noteq> None \<and> (u \<longrightarrow> h) \<and> (h \<and> \<not> u \<longrightarrow> holding t)))"

text \<open>The counters that the fence is computed from never exceed the commands read.\<close>

definition counters_ok :: "ShLexer \<Rightarrow> bool" where
  "counters_ok lx \<longleftrightarrow>
     pipeline_start lx \<le> length (read_commands lx) \<and>
     (\<forall>c \<in> set (compounds lx). oc_pipeline_start c \<le> length (read_commands lx)) \<and>
     (\<forall>n. fence lx = Some n \<longrightarrow> n \<le> length (read_commands lx))"

definition lex_inv :: "ShLexer \<Rightarrow> bool" where
  "lex_inv lx \<longleftrightarrow>
     stack_ok (shapes lx) \<and>
     length (held lx) = length (filter undecided_shape (shapes lx)) \<and>
     counters_ok lx"

text \<open>An operation on the word or command being read keeps the stack, the number of undecided
  substitutions and the counters.\<close>

definition keeps :: "ShLexer \<Rightarrow> ShLexer \<Rightarrow> bool" where
  "keeps lx lx' \<longleftrightarrow>
     shapes lx' = shapes lx \<and> length (held lx') = length (held lx) \<and>
     (counters_ok lx \<longrightarrow> counters_ok lx')"

definition has_frame :: "ShLexer \<Rightarrow> bool" where
  "has_frame lx \<longleftrightarrow> innermost (frames lx) \<noteq> None"

lemma keeps_refl [simp]: "keeps lx lx"
  by (simp add: keeps_def)

lemma keeps_trans: "keeps a b \<Longrightarrow> keeps b c \<Longrightarrow> keeps a c"
  by (simp add: keeps_def)

lemma keeps_lex_inv: "keeps lx lx' \<Longrightarrow> lex_inv lx \<Longrightarrow> lex_inv lx'"
  by (simp add: keeps_def lex_inv_def)

lemma innermost_shape: "innermost fs \<noteq> None \<longleftrightarrow> (\<exists>s \<in> set (map frame_shape fs). s \<noteq> None)"
  by (induction fs rule: innermost.induct) auto

lemma keeps_has_frame: "keeps lx lx' \<Longrightarrow> has_frame lx \<Longrightarrow> has_frame lx'"
  unfolding keeps_def has_frame_def innermost_shape by metis

lemma stack_ok_innermost: "stack_ok (map frame_shape fs) \<Longrightarrow> innermost fs \<noteq> None"
proof (induction fs rule: innermost.induct)
  case (3 fs)
  then show ?case by (cases fs) auto
qed auto

lemma lex_inv_has_frame: "lex_inv lx \<Longrightarrow> has_frame lx"
  by (simp add: lex_inv_def has_frame_def stack_ok_innermost)

text \<open>The contract of the operations on words and commands: with a frame of commands open they
  do not panic, and they keep the stack.\<close>

locale word_operation =
  fixes operation :: "ShLexer \<Rightarrow> ShLexer option"
  assumes no_panic: "has_frame lx \<Longrightarrow> operation lx \<noteq> None"
    and keeps_stack: "operation lx = Some lx' \<Longrightarrow> keeps lx lx'"
begin

lemma runs:
  assumes "lex_inv lx"
  obtains lx' where "operation lx = Some lx'" "lex_inv lx'" "keeps lx lx'"
  using assms no_panic keeps_stack keeps_lex_inv lex_inv_has_frame by blast

lemma runs_before:
  assumes "lex_inv lx" and "\<And>lx'. operation lx = Some lx' \<Longrightarrow> lex_inv lx' \<Longrightarrow> P (g lx')"
  shows "P (operation lx \<bind> g)"
  using assms by (metis bind.bind_lunit runs)

end

lemma word_operation_bind:
  "word_operation f \<Longrightarrow> word_operation g \<Longrightarrow> word_operation (\<lambda>lx. f lx \<bind> g)"
proof (unfold_locales, goal_cases)
  case (1 lx)
  then obtain lx1 where "f lx = Some lx1" "keeps lx lx1"
    using word_operation.no_panic word_operation.keeps_stack by blast
  with 1 show ?case using word_operation.no_panic [OF 1(2)] keeps_has_frame by fastforce
next
  case (2 lx lx')
  then obtain lx1 where "f lx = Some lx1" "g lx1 = Some lx'" by (auto simp: bind_eq_Some_conv)
  with 2 show ?case using word_operation.keeps_stack keeps_trans by meson
qed

lemma upd_innermost_shape:
  assumes "\<And>f. (closer (u f), holds (u f), undecided (u f)) = (closer f, holds f, undecided f)"
    and "upd_innermost u fs = Some fs'"
  shows "map frame_shape fs' = map frame_shape fs"
  using assms(2)
proof (induction fs arbitrary: fs' rule: innermost.induct)
  case (2 f fs)
  then have "fs' = Commands (u f) # fs" by simp
  with assms(1) [of f] show ?case by simp
qed auto

lemma upd_innermost_None [simp]: "upd_innermost u fs = None \<longleftrightarrow> innermost fs = None"
  by (induction fs rule: innermost.induct) auto

lemma word_operation_with_frame:
  assumes "\<And>f. (closer (u f), holds (u f), undecided (u f)) = (closer f, holds f, undecided f)"
  shows "word_operation (with_frame u)"
proof
  show "with_frame u lx \<noteq> None" if "has_frame lx" for lx
    using that by (simp add: with_frame_def has_frame_def)
  show "keeps lx lx'" if "with_frame u lx = Some lx'" for lx lx'
  proof -
    from that obtain fs where "upd_innermost u (frames lx) = Some fs" "lx' = lx\<lparr>frames := fs\<rparr>"
      by (auto simp: with_frame_def)
    then show ?thesis
      using upd_innermost_shape [OF assms] by (auto simp: keeps_def counters_ok_def)
  qed
qed

lemma word_operation_pure:
  "(\<And>lx. keeps lx (h lx)) \<Longrightarrow> word_operation f \<Longrightarrow> word_operation (\<lambda>lx. f (h lx))"
  unfolding word_operation_def by (meson keeps_has_frame keeps_trans)

interpretation push: word_operation "push ch"
  unfolding push_def [abs_def]
  by (rule word_operation_pure [where h = "\<lambda>lx. lx\<lparr>after_redirect := False, after_pipe := False\<rparr>"])
    (auto simp: keeps_def counters_ok_def intro: word_operation_with_frame)

interpretation touch_word: word_operation touch_word
  unfolding touch_word_def [abs_def]
  by (rule word_operation_pure [where h = "\<lambda>lx. lx\<lparr>after_pipe := False\<rparr>"])
    (auto simp: keeps_def counters_ok_def intro: word_operation_with_frame)

interpretation mark_quoted: word_operation mark_quoted
  unfolding mark_quoted_def [abs_def]
  by (intro word_operation_bind word_operation_with_frame touch_word.word_operation_axioms) auto

interpretation push_all: word_operation "push_all chs"
proof (induction chs)
  case Nil
  show ?case by unfold_locales auto
next
  case (Cons ch chs)
  then show ?case
    by (simp add: word_operation_bind push.word_operation_axioms)
qed

lemma counters_ok_stack [simp]:
  "counters_ok (lx\<lparr>frames := fs\<rparr>) = counters_ok lx" "counters_ok (lx\<lparr>held := hs\<rparr>) = counters_ok lx"
  "counters_ok (lx\<lparr>after_pipe := b\<rparr>) = counters_ok lx"
  "counters_ok (lx\<lparr>after_redirect := b\<rparr>) = counters_ok lx"
  "counters_ok (lx\<lparr>pending := ds\<rparr>) = counters_ok lx"
  "counters_ok (lx\<lparr>here_string_at := n\<rparr>) = counters_ok lx"
  "counters_ok (lx\<lparr>backgrounded := b\<rparr>) = counters_ok lx"
  by (simp_all add: counters_ok_def)

lemma keeps_compound_word: "keeps lx (compound_word word lx)"
  by (auto simp: compound_word_def keeps_def counters_ok_def Let_def
      split: option.splits list.splits prod.splits)

lemma keeps_note_here_string: "keeps lx (note_here_string word lx)"
  by (auto simp: note_here_string_def keeps_def counters_ok_def)

lemma keeps_record_commands: "keeps lx (record_commands cs lx)"
  by (fastforce simp: record_commands_def keeps_def counters_ok_def)

lemma keeps_record_argv: "keeps lx (record_argv hold av lx)"
  using keeps_record_commands [of lx "[av]"]
  by (auto simp: record_argv_def keeps_def counters_ok_def split: list.splits)

lemma keeps_mark_fed: "keeps lx (mark_fed lx)"
  by (auto simp: mark_fed_def keeps_def counters_ok_def Let_def min_def split: option.splits list.splits)

lemma keeps_redirect: "keeps lx (lx\<lparr>after_redirect := b\<rparr>)"
  by (simp add: keeps_def counters_ok_def)

lemma has_frame_command_frame: "has_frame lx \<Longrightarrow> \<exists>f. command_frame lx = Some f"
  by (simp add: has_frame_def command_frame_def)

lemma frame_ends_word_shape:
  "(closer (frame_ends_word w f), holds (frame_ends_word w f), undecided (frame_ends_word w f))
     = (closer f, holds f, undecided f)"
  by (simp add: frame_ends_word_def Let_def)

interpretation frame_ends_word: word_operation "with_frame (frame_ends_word w)"
  by (rule word_operation_with_frame) (rule frame_ends_word_shape)

interpretation add_argv: word_operation "with_frame (\<lambda>f. f\<lparr>cf_argv := cf_argv f @ [word]\<rparr>)"
  by (rule word_operation_with_frame) simp

interpretation clear_argv: word_operation
  "with_frame (\<lambda>f. f\<lparr>cf_argv := [], command_position := True, function_word := None\<rparr>)"
  by (rule word_operation_with_frame) simp

text \<open>\<^verbatim>\<open>end_word\<close> is a sequence of such operations.\<close>

lemma end_word_unfold:
  assumes "command_frame (lx\<lparr>after_redirect := False\<rparr>) = Some f"
  shows "end_word lx =
    (case cf_word f of
       None \<Rightarrow> Some (lx\<lparr>after_redirect := False\<rparr>)
     | Some word \<Rightarrow>
         with_frame (frame_ends_word word) (lx\<lparr>after_redirect := False\<rparr>) \<bind>
         (\<lambda>lx1. with_frame (\<lambda>f. f\<lparr>cf_argv := cf_argv f @ [word]\<rparr>)
            (if word_is_reserved f word \<and> closer f = None
             then compound_word word (note_here_string word lx1) else note_here_string word lx1)))"
  unfolding end_word_def Let_def assms by (simp cong: option.case_cong)

lemma word_operation_add_argv:
  "word_operation (\<lambda>lx1. with_frame (\<lambda>f. f\<lparr>cf_argv := cf_argv f @ [word]\<rparr>)
     (if b then compound_word word (note_here_string word lx1) else note_here_string word lx1))"
  by (rule word_operation_pure [where h = "\<lambda>lx1. if b
        then compound_word word (note_here_string word lx1) else note_here_string word lx1"])
    (auto intro: keeps_trans keeps_note_here_string keeps_compound_word add_argv.word_operation_axioms)

lemma word_operation_end_some:
  "word_operation (\<lambda>lx. with_frame (frame_ends_word word) lx \<bind>
         (\<lambda>lx1. with_frame (\<lambda>f. f\<lparr>cf_argv := cf_argv f @ [word]\<rparr>)
            (if b then compound_word word (note_here_string word lx1) else note_here_string word lx1)))"
  by (rule word_operation_bind [OF frame_ends_word.word_operation_axioms word_operation_add_argv])

interpretation end_word: word_operation end_word
proof
  fix lx :: ShLexer
  let ?lx = "lx\<lparr>after_redirect := False\<rparr>"
  have k: "keeps lx ?lx" by (rule keeps_redirect)
  show "end_word lx \<noteq> None" if hf: "has_frame lx"
  proof -
    obtain f where f: "command_frame ?lx = Some f"
      using has_frame_command_frame [OF keeps_has_frame [OF k hf]] by blast
    show ?thesis unfolding end_word_unfold [OF f]
      using word_operation.no_panic [OF word_operation_end_some keeps_has_frame [OF k hf]]
      by (auto split: option.splits)
  qed
  show "keeps lx lx'" if "end_word lx = Some lx'" for lx'
  proof -
    from that obtain f where f: "command_frame ?lx = Some f"
      by (auto simp: end_word_def Let_def bind_eq_Some_conv)
    from that [unfolded end_word_unfold [OF f]] show ?thesis
      using k by (auto split: option.splits
          intro: keeps_trans [OF k] word_operation.keeps_stack [OF word_operation_end_some])
  qed
qed

interpretation drop_words: word_operation drop_words
  unfolding drop_words_def [abs_def]
  by (rule word_operation_bind [OF end_word.word_operation_axioms clear_argv.word_operation_axioms])

interpretation end_command: word_operation end_command
proof
  fix lx
  show "end_command lx \<noteq> None" if hf: "has_frame lx"
  proof -
    obtain lx1 where "end_word lx = Some lx1" "has_frame lx1"
      using hf end_word.no_panic end_word.keeps_stack keeps_has_frame by blast
    then show ?thesis
      using has_frame_command_frame clear_argv.no_panic by (fastforce simp: end_command_def)
  qed
  show "keeps lx lx'" if "end_command lx = Some lx'" for lx'
    using that by (auto simp: end_command_def bind_eq_Some_conv split: if_splits
        dest!: end_word.keeps_stack clear_argv.keeps_stack
        intro: keeps_trans keeps_record_argv)
qed

lemma keeps_pipeline_start: "keeps lx (lx\<lparr>pipeline_start := length (read_commands lx)\<rparr>)"
  by (simp add: keeps_def counters_ok_def)

interpretation end_pipeline: word_operation end_pipeline
proof
  fix lx
  show "end_pipeline lx \<noteq> None" if hf: "has_frame lx"
  proof -
    obtain lx1 where "end_command lx = Some lx1" "has_frame lx1"
      using hf end_command.no_panic end_command.keeps_stack keeps_has_frame by blast
    then show ?thesis
      using has_frame_command_frame by (fastforce simp: end_pipeline_def)
  qed
  show "keeps lx lx'" if "end_pipeline lx = Some lx'" for lx'
    using that by (auto simp: end_pipeline_def bind_eq_Some_conv
        dest!: end_command.keeps_stack intro: keeps_trans [OF _ keeps_pipeline_start])
qed

interpretation background: word_operation background
proof
  fix lx
  show "background lx \<noteq> None" if "has_frame lx"
    using has_frame_command_frame [OF that] by (auto simp: background_def split: list.splits)
  show "keeps lx lx'" if "background lx = Some lx'" for lx'
    using that by (cases "held lx")
      (auto simp: background_def bind_eq_Some_conv keeps_def split: if_splits)
qed

text \<open>Opening and closing frames.\<close>

lemma lex_inv_fields [simp]:
  "lex_inv (lx\<lparr>after_pipe := b\<rparr>) = lex_inv lx" "lex_inv (lx\<lparr>after_redirect := b\<rparr>) = lex_inv lx"
  "lex_inv (lx\<lparr>pending := ds\<rparr>) = lex_inv lx" "lex_inv (lx\<lparr>here_string_at := n\<rparr>) = lex_inv lx"
  by (simp_all add: lex_inv_def)

definition commands_on_top :: "ShLexer \<Rightarrow> bool" where
  "commands_on_top lx \<longleftrightarrow> (\<exists>s ss. shapes lx = Some s # ss)"

lemma keeps_commands_on_top: "keeps lx lx' \<Longrightarrow> commands_on_top lx \<Longrightarrow> commands_on_top lx'"
  by (simp add: keeps_def commands_on_top_def)

lemma commands_on_topE:
  assumes "commands_on_top lx"
  obtains f fs where "frames lx = Commands f # fs"
  using assms by (auto simp: commands_on_top_def map_eq_Cons_conv elim: frame_shape.elims)

lemma stack_ok_Cons_closer:
  "stack_ok ss \<Longrightarrow> stack_ok (Some (Some cl, h, u) # ss) \<longleftrightarrow> (u \<longrightarrow> h) \<and> (h \<and> \<not> u \<longrightarrow> holding (hd ss))"
  by (cases ss) auto

lemma lex_inv_open_frame: "lex_inv lx \<Longrightarrow> lex_inv (open_frame cl arith disc lx)"
  by (simp add: lex_inv_def open_frame_def new_frame_def stack_ok_Cons_closer undecided_shape_def)

lemma open_group_runs:
  assumes "lex_inv lx" "commands_on_top lx"
  obtains lx' where "open_group arith lx = Some lx'" "lex_inv lx'"
proof -
  from assms(2) obtain f fs where fs: "frames lx = Commands f # fs" by (rule commands_on_topE)
  have "open_group arith lx = Some (lx\<lparr>after_pipe := False, frames :=
      Commands (new_frame (Some CHR '')'') (arith \<or> arithmetic f) (discard f) \<lparr>holds := holds f\<rparr>) # frames lx\<rparr>)"
    by (simp add: open_group_def command_frame_def fs open_frame_def with_frame_def)
  moreover have "lex_inv (lx\<lparr>after_pipe := False, frames :=
      Commands (new_frame (Some CHR '')'') (arith \<or> arithmetic f) (discard f) \<lparr>holds := holds f\<rparr>) # frames lx\<rparr>)"
    using assms(1)
    by (simp add: lex_inv_def new_frame_def stack_ok_Cons_closer undecided_shape_def fs holding_def)
  ultimately show thesis by (rule that)
qed

lemma open_undecided_runs:
  assumes "lex_inv lx"
  obtains lx' where "open_undecided lx = Some lx'" "lex_inv lx'"
proof
  show "open_undecided lx = Some (lx\<lparr>after_pipe := False,
      frames := Commands (new_frame (Some CHR '')'') True False \<lparr>holds := True, undecided := True\<rparr>) # frames lx,
      held := \<lparr>held_commands = [], backgrounds = False\<rparr> # held lx\<rparr>)"
    by (simp add: open_undecided_def open_frame_def with_frame_def Let_def)
  show "lex_inv (lx\<lparr>after_pipe := False,
      frames := Commands (new_frame (Some CHR '')'') True False \<lparr>holds := True, undecided := True\<rparr>) # frames lx,
      held := \<lparr>held_commands = [], backgrounds = False\<rparr> # held lx\<rparr>)"
    using assms
    by (simp add: lex_inv_def new_frame_def stack_ok_Cons_closer undecided_shape_def)
qed

lemma stack_ok_tl:
  "stack_ok (Some (Some cl, h, u) # ss) \<Longrightarrow> stack_ok ss" "stack_ok (None # ss) \<Longrightarrow> stack_ok ss"
  by (cases ss; simp)+

lemma close_frame_runs:
  assumes inv: "lex_inv lx" and top: "shapes lx = Some (Some cl, h, u) # ss"
  obtains lx' where "close_frame first_of_double lx = Some lx'" "lex_inv lx'"
proof -
  obtain lx1 where lx1: "end_pipeline lx = Some lx1" "lex_inv lx1" "keeps lx lx1"
    by (rule end_pipeline.runs [OF inv])
  with top have "shapes lx1 = Some (Some cl, h, u) # ss" by (simp add: keeps_def)
  then obtain f fs where fs: "frames lx1 = Commands f # fs" and f: "closer f = Some cl"
    "undecided f = u" "map frame_shape fs = ss"
    by (auto simp: map_eq_Cons_conv elim!: frame_shape.elims)
  let ?lx2 = "lx1\<lparr>frames := fs\<rparr>" and ?lx3 = "lx1\<lparr>frames := fs, held := tl (held lx1)\<rparr>"
  have ok: "stack_ok (map frame_shape fs)"
    using lx1(2) f(1) by (auto simp: lex_inv_def fs intro: stack_ok_tl)
  have dec: "lex_inv ?lx2" if "\<not> undecided f"
    using that ok lx1(2) by (simp add: lex_inv_def fs undecided_shape_def)
  have und: "lex_inv ?lx3" if "undecided f"
    using that ok lx1(2) by (simp add: lex_inv_def fs undecided_shape_def)
  define h where "h = (case held lx1 of [] \<Rightarrow> \<lparr>held_commands = [], backgrounds = False\<rparr> | h # _ \<Rightarrow> h)"
  define lx4 where "lx4 = record_commands (held_commands h) ?lx3"
  have inv4: "lex_inv lx4" if "undecided f"
    using keeps_lex_inv [OF keeps_record_commands und [OF that]] by (simp add: lx4_def)
  have eq: "close_frame first_of_double lx =
    (if undecided f then
       if first_of_double then Some ?lx3
       else if backgrounds h then background lx4 else Some lx4
     else Some ?lx2)"
    by (simp add: close_frame_def lx1(1) fs Let_def lx4_def h_def)
  show thesis
  proof (cases "undecided f \<and> \<not> first_of_double \<and> backgrounds h")
    case True
    then show thesis using eq inv4 that background.runs [of lx4] by metis
  next
    case False
    then show thesis using eq inv4 dec und that by (auto split: if_splits)
  qed
qed

text \<open>Every step from a state with the invariant goes on to such a state or refuses the line.\<close>

definition safe_result :: "lex_result \<Rightarrow> bool" where
  "safe_result r \<longleftrightarrow>
     (case r of None \<Rightarrow> False | Some (lx, None) \<Rightarrow> True | Some (lx, Some j) \<Rightarrow> lex_inv lx)"

lemma safe_goes [simp]: "safe_result (goes i lx) \<longleftrightarrow> lex_inv lx"
  by (simp add: safe_result_def goes_def)

lemma safe_refuses [simp]: "safe_result (refuses lx)"
  by (simp add: safe_result_def refuses_def)

lemma safe_bind:
  assumes "word_operation operation" "lex_inv lx"
    and "\<And>lx'. operation lx = Some lx' \<Longrightarrow> lex_inv lx' \<Longrightarrow> keeps lx lx' \<Longrightarrow> safe_result (g lx')"
  shows "safe_result (operation lx \<bind> g)"
  using word_operation.runs [OF assms(1,2)] assms(3) by (metis bind.bind_lunit)

lemmas safe_binds =
  safe_bind [OF push.word_operation_axioms] safe_bind [OF push_all.word_operation_axioms]
  safe_bind [OF touch_word.word_operation_axioms] safe_bind [OF mark_quoted.word_operation_axioms]
  safe_bind [OF end_word.word_operation_axioms] safe_bind [OF end_command.word_operation_axioms]
  safe_bind [OF end_pipeline.word_operation_axioms] safe_bind [OF drop_words.word_operation_axioms]
  safe_bind [OF background.word_operation_axioms]

lemma safe_open_undecided:
  "lex_inv lx \<Longrightarrow> safe_result (open_undecided lx \<bind> goes i)"
  by (metis bind.bind_lunit open_undecided_runs safe_goes)

lemma safe_open_group:
  "lex_inv lx \<Longrightarrow> commands_on_top lx \<Longrightarrow> safe_result (open_group arith lx \<bind> goes i)"
  by (metis bind.bind_lunit open_group_runs safe_goes)

lemma safe_close_frame:
  "lex_inv lx \<Longrightarrow> shapes lx = Some (Some cl, h, u) # ss \<Longrightarrow>
   safe_result (close_frame first_of_double lx \<bind> goes i)"
  by (metis bind.bind_lunit close_frame_runs safe_goes)

lemma safe_mark_fed: "lex_inv lx \<Longrightarrow> lex_inv (mark_fed lx)"
  using keeps_mark_fed keeps_lex_inv by blast

lemma safe_step_quoted:
  assumes inv: "lex_inv lx" and top: "frames lx = DoubleQuoted # fs"
  shows "safe_result (step_quoted chars i lx)"
proof -
  have pop: "lex_inv (lx\<lparr>frames := tl (frames lx)\<rparr>)"
    using inv stack_ok_tl(2) by (auto simp: lex_inv_def top undecided_shape_def)
  show ?thesis
    unfolding step_quoted_def Let_def
    using pop inv
    by (auto split: option.splits intro!: safe_binds safe_open_undecided lex_inv_open_frame)
qed

lemma safe_heredoc: "lex_inv lx \<Longrightarrow> safe_result (heredoc chars start lx)"
  unfolding heredoc_def Let_def
  by (auto split: option.splits prod.splits intro!: safe_binds safe_mark_fed)

lemma safe_step_angle: "lex_inv lx \<Longrightarrow> safe_result (step_angle chars i arith lx)"
  unfolding step_angle_def Let_def
  by (auto intro!: safe_binds safe_heredoc safe_mark_fed)

lemma lex_inv_after_newline:
  "lex_inv lx \<Longrightarrow> lex_inv (fst (after_newline chars start bodies lx))"
  by (auto simp: after_newline_def lex_inv_def counters_ok_def)

lemma safe_step_newline:
  assumes "lex_inv lx"
  shows "safe_result (step_newline chars i bodies lx)"
proof -
  have "safe_result (let (lx2, j) = after_newline chars (i + 1) bodies lx1 in goes j lx2)"
    if "lex_inv lx1" for lx1
    using lex_inv_after_newline [OF that, of chars "i + 1" bodies] by (simp add: case_prod_beta)
  with assms show ?thesis
    unfolding step_newline_def by (auto intro!: safe_binds)
qed

lemma safe_step_dollar: "lex_inv lx \<Longrightarrow> safe_result (step_dollar chars i lx)"
  unfolding step_dollar_def Let_def
  by (auto split: option.splits intro!: safe_binds safe_open_undecided lex_inv_open_frame)

lemma keeps_frame:
  "keeps lx lx' \<Longrightarrow> frames lx = Commands f # fs \<Longrightarrow>
   \<exists>f' fs'. frames lx' = Commands f' # fs' \<and> closer f' = closer f \<and> command_frame lx' = Some f'"
  by (auto simp: keeps_def map_eq_Cons_conv command_frame_def elim!: frame_shape.elims)

lemma safe_step_open_paren:
  assumes inv: "lex_inv lx" and top: "frames lx = Commands f # fs"
  shows "safe_result (step_open_paren chars i arith lx)"
proof -
  have cot: "commands_on_top lx'" if "keeps lx lx'" for lx'
    using keeps_commands_on_top [OF that] top by (simp add: commands_on_top_def)
  have f: "command_frame lx = Some f" by (simp add: command_frame_def top)
  show ?thesis
    unfolding step_open_paren_def f bind.bind_lunit
    using inv cot [OF keeps_refl]
    by (auto split: option.splits
        intro!: safe_binds safe_open_group lex_inv_open_frame intro: cot)
qed

lemma safe_step_close_paren:
  assumes inv: "lex_inv lx" and top: "frames lx = Commands f # fs"
  shows "safe_result (step_close_paren chars i (closer f) lx)"
proof -
  have "safe_result (command_frame lx1 \<bind> (\<lambda>f'.
          if closer f = Some CHR '')'' \<and> open_cases f' = 0 then
            close_frame (get_at chars (i + 1) = Some CHR '')'') lx1 \<bind> goes (i + 1)
          else
            do { lx2 \<leftarrow> (if open_cases f' > 0 then drop_words lx1 else Some lx1);
                 end_pipeline lx2 \<bind> goes (i + 1) }))"
    if lx1: "lex_inv lx1" "keeps lx lx1" for lx1
  proof -
    obtain f' fs' where f': "frames lx1 = Commands f' # fs'" "closer f' = closer f"
      "command_frame lx1 = Some f'"
      using keeps_frame [OF lx1(2) top] by blast
    have sh: "shapes lx1 = Some (closer f, holds f', undecided f') # map frame_shape fs'"
      using f' by simp
    show ?thesis
      unfolding f'(3) bind.bind_lunit
      using lx1(1) sh by (auto intro!: safe_binds intro: safe_close_frame)
  qed
  with inv show ?thesis
    unfolding step_close_paren_def by (auto intro!: safe_binds)
qed

lemma safe_step_backtick:
  assumes inv: "lex_inv lx" and top: "frames lx = Commands f # fs"
  shows "safe_result (step_backtick i (closer f) lx)"
  using inv top unfolding step_backtick_def
  by (auto intro!: safe_binds lex_inv_open_frame intro: safe_close_frame)

lemma safe_step_double_quote:
  assumes inv: "lex_inv lx" and top: "frames lx = Commands f # fs"
  shows "safe_result (step_double_quote i lx)"
proof -
  have "lex_inv (lx1\<lparr>after_redirect := False, frames := DoubleQuoted # frames lx1\<rparr>)"
    if "lex_inv lx1" "keeps lx lx1" for lx1
    using that keeps_frame [OF that(2) top]
    by (auto simp: lex_inv_def undecided_shape_def)
  with inv show ?thesis unfolding step_double_quote_def by (auto intro!: safe_binds)
qed

lemma safe_step_operators:
  assumes "lex_inv lx"
  shows "safe_result (step_backslash chars i cl lx)" "safe_result (step_single_quote chars i lx)"
    "safe_result (step_ampersand chars i lx)" "safe_result (step_bar chars i lx)"
  using assms
  unfolding step_backslash_def step_single_quote_def step_ampersand_def step_bar_def
  by (auto split: option.splits intro!: safe_binds)

lemma lex_step_safe:
  assumes inv: "lex_inv lx"
  shows "safe_result (lex_step chars i bodies lx)"
proof -
  have ne: "frames lx \<noteq> []" using inv by (auto simp: lex_inv_def)
  then obtain fr fs where fs: "frames lx = fr # fs" by (cases "frames lx") auto
  show ?thesis
  proof (cases fr)
    case DoubleQuoted
    then show ?thesis using safe_step_quoted [OF inv] fs by (simp add: lex_step_def)
  next
    case (Commands f)
    with fs have top: "frames lx = Commands f # fs" by simp
    have cf: "command_frame lx = Some f" by (simp add: top command_frame_def)
    note arms = safe_step_operators [OF inv] safe_step_double_quote [OF inv top]
      safe_step_dollar [OF inv] safe_step_backtick [OF inv top] safe_step_open_paren [OF inv top]
      safe_step_close_paren [OF inv top] safe_step_newline [OF inv] safe_step_angle [OF inv]
    have "safe_result (step_commands chars i bodies (closer f) arith lx)" for arith
      unfolding step_commands_def Let_def cf bind.bind_lunit
      by (auto intro!: arms safe_binds inv simp: inv)
    then show ?thesis by (simp add: lex_step_def top)
  qed
qed

section \<open>Reachable states\<close>

text \<open>The states the loop passes through on a line, with the index it has reached.\<close>

inductive lex_reach :: "rstr \<Rightarrow> HeredocBodies \<Rightarrow> nat \<Rightarrow> ShLexer \<Rightarrow> bool"
  for chars :: rstr and bodies :: HeredocBodies where
  lex_start: "lex_reach chars bodies 0 new_lexer"
| lex_next: "lex_reach chars bodies i lx \<Longrightarrow> i < length chars \<Longrightarrow>
     lex_step chars i bodies lx = Some (lx', Some j) \<Longrightarrow> lex_reach chars bodies j lx'"

lemma new_lexer_inv: "lex_inv new_lexer"
  by (simp add: lex_inv_def new_lexer_def new_frame_def undecided_shape_def counters_ok_def)

lemma lex_reach_inv: "lex_reach chars bodies i lx \<Longrightarrow> lex_inv lx"
proof (induction rule: lex_reach.induct)
  case (lex_next i lx lx' j)
  then show ?case using lex_step_safe [of lx chars i bodies] by (simp add: safe_result_def)
qed (rule new_lexer_inv)

lemma holding_has_undecided:
  "stack_ok (s # ss) \<Longrightarrow> holding s \<Longrightarrow> \<exists>u \<in> set (s # ss). undecided_shape u"
proof (induction ss arbitrary: s)
  case Nil
  then show ?case by (simp add: holding_def)
next
  case (Cons t ts)
  then obtain cl h u where s: "s = Some (cl, h, u)" "h" by (auto simp: holding_def split: option.splits)
  show ?case
  proof (cases u)
    case True
    with s show ?thesis by (simp add: undecided_shape_def)
  next
    case False
    with Cons s have "\<exists>u \<in> set (t # ts). undecided_shape u" by simp
    then show ?thesis by auto
  qed
qed

lemma holding_frame_has_entry:
  assumes "lex_inv lx" "command_frame lx = Some f" "holds f"
  shows "held lx \<noteq> []"
proof -
  have ok: "stack_ok (shapes lx)" and len: "length (held lx) = length (filter undecided_shape (shapes lx))"
    using assms(1) by (simp_all add: lex_inv_def)
  obtain s ss where sub: "set (s # ss) \<subseteq> set (shapes lx)" "stack_ok (s # ss)" "holding s"
  proof (cases "frames lx" rule: innermost.cases)
    case 1
    with ok show thesis by simp
  next
    case (2 g fs)
    with assms show thesis
      using that [of "frame_shape (Commands g)" "map frame_shape fs"] ok
      by (simp add: command_frame_def holding_def)
  next
    case (3 fs)
    then obtain g gs where gs: "fs = Commands g # gs"
      using ok by (cases fs rule: innermost.cases) auto
    with 3 assms ok show thesis
      using that [of "frame_shape (Commands g)" "map frame_shape gs"]
      by (auto simp: command_frame_def holding_def)
  qed
  then have "filter undecided_shape (shapes lx) \<noteq> []"
    using holding_has_undecided [OF sub(2,3)] by (auto simp: filter_empty_conv)
  with len show ?thesis by (metis length_0_conv)
qed

lemma lex_loop_safe:
  "lex_inv lx \<Longrightarrow> \<exists>r. lex_loop chars bodies i lx = Some r \<and> (\<forall>lx'. r = Some lx' \<longrightarrow> lex_inv lx')"
proof (induction chars bodies i lx rule: lex_loop.induct)
  case (1 chars bodies i lx)
  note step = lex_step_safe [OF "1.prems", of chars i bodies]
  show ?case
  proof (cases "i < length chars")
    case True
    from step obtain lx' r where r: "lex_step chars i bodies lx = Some (lx', r)"
      "\<And>j. r = Some j \<Longrightarrow> lex_inv lx'"
      by (auto simp: safe_result_def split: option.splits)
    show ?thesis
    proof (cases r)
      case None
      with True r show ?thesis by (simp add: lex_loop.simps)
    next
      case (Some j)
      with True r have "lex_loop chars bodies i lx = lex_loop chars bodies j lx'"
        by (simp add: lex_loop.simps [of chars bodies i lx])
      with "1.IH" [OF True r(1) refl Some r(2)] Some show ?thesis by simp
    qed
  next
    case False
    with "1.prems" show ?thesis by (simp add: lex_loop.simps)
  qed
qed

text \<open>In every state the lexer can reach on any line, with either way of reading
  here-documents: the bottom frame is the line itself and is never closed; every double quote
  sits on a frame of commands; each undecided \<^verbatim>\<open>$((\<close> has its own entry of held commands, and a
  frame that holds commands back always finds one; the counters that the fence is taken from
  never exceed the number of commands read; and the next step does not panic.\<close>

theorem lex_reachable_invariant:
  assumes "lex_reach chars bodies i lx"
  shows "stack_ok (shapes lx) \<and>
    length (held lx) = length (filter undecided_shape (shapes lx)) \<and>
    (\<forall>f. command_frame lx = Some f \<and> holds f \<longrightarrow> held lx \<noteq> []) \<and>
    counters_ok lx \<and> lex_step chars i bodies lx \<noteq> None"
proof -
  have inv: "lex_inv lx" using assms by (rule lex_reach_inv)
  then have "lex_step chars i bodies lx \<noteq> None"
    using lex_step_safe [OF inv, of chars i bodies] by (cases "lex_step chars i bodies lx") (simp_all add: safe_result_def)
  with inv holding_frame_has_entry [OF inv] show ?thesis by (auto simp: lex_inv_def)
qed

theorem lex_reachable_invariant_witness:
  "\<exists>i lx. 0 < i \<and> lex_reach ''a; b'' Skip i lx \<and> lex_step ''a; b'' i Skip lx \<noteq> None \<and> counters_ok lx"
proof -
  obtain lx where step: "lex_step ''a; b'' 0 Skip new_lexer = Some (lx, Some 1)"
    by (simp add: lex_step_def new_lexer_def new_frame_def step_commands_def push_def
        with_frame_def goes_def)
  have "lex_reach ''a; b'' Skip 1 lx"
    by (rule lex_next [OF lex_start _ step]) simp
  from lex_reachable_invariant [OF this] this show ?thesis by (intro exI [of _ 1] exI [of _ lx]) simp
qed

text \<open>The lexer returns on every line.\<close>

lemma sh_commands_returns:
  "\<exists>r. sh_commands_in g command bodies = Some r \<and>
     (\<forall>c. r = Some c \<longrightarrow> finished_before_heredoc c \<le> length (commands c))"
proof (cases "g = SH")
  case False
  then show ?thesis by (simp add: sh_commands_in_def)
next
  case True
  obtain r where r: "lex_loop command bodies 0 new_lexer = Some r"
    "\<And>lx. r = Some lx \<Longrightarrow> lex_inv lx"
    using lex_loop_safe [OF new_lexer_inv] by blast
  show ?thesis
  proof (cases r)
    case None
    with True r show ?thesis by (simp add: sh_commands_in_def)
  next
    case (Some lx)
    then obtain lx1 where "end_pipeline lx = Some lx1" "lex_inv lx1"
      using r(2) end_pipeline.runs by blast
    with True r(1) Some show ?thesis
      by (auto simp: sh_commands_in_def lex_inv_def counters_ok_def split: option.splits)
  qed
qed

text \<open>C5 (termination and totality). On every line and under every grammar \<^verbatim>\<open>sh_commands\<close> returns: its
  loop ends and none of its \<^verbatim>\<open>unreachable!\<close> branches is taken. When it reads the line, the number
  of commands it says had finished before anything was fed is at most the number it read, so the
  caller may take that many from the front.\<close>

theorem sh_commands_total:
  "\<exists>r. sh_commands_in g command bodies = Some r \<and>
     (\<forall>c. r = Some c \<longrightarrow> finished_before_heredoc c \<le> length (commands c))"
  by (rule sh_commands_returns)

theorem sh_commands_total_witness:
  "\<exists>c. sh_commands_in SH ''a && b'' Skip = Some (Some c) \<and>
     finished_before_heredoc c \<le> length (commands c) \<and> length (commands c) = 2"
proof -
  have "sh_commands_in SH ''a && b'' Skip = Some (Some \<lparr>commands = [[''a''], [''b'']],
      skipped_heredoc = False, here_strings = [], finished_before_heredoc = 0\<rparr>)"
    by code_simp
  with sh_commands_total [of SH "''a && b''" Skip] show ?thesis by auto
qed

end
