(* ===== verification/Lexer_Agreement.thy ===== *)
theory Lexer_Agreement
  imports Sh_Lexer
begin

text \<open>
  The two readers of a line agree. \<^verbatim>\<open>parse_unattended\<close> says what the executor runs;
  \<^verbatim>\<open>sh_commands\<close> says what the floor for irreversible commands reads. A simulation between the two
  machines shows that the second reads the commands of the first, and a direct reading that
  words between single quotes stay the words of one command, whatever they hold.
\<close>

section \<open>Reading at the line's top level\<close>

text \<open>The lexer between two commands or words of the line itself, with nothing fed, nothing
  piped and no substitution open.\<close>

definition at_line :: "ShLexer \<Rightarrow> CommandFrame \<Rightarrow> bool" where
  "at_line lx f \<longleftrightarrow>
     frames lx = [Commands f] \<and> closer f = None \<and> \<not> discard f \<and> \<not> holds f \<and>
     pending lx = [] \<and> \<not> after_redirect lx \<and> \<not> after_pipe lx \<and> here_string_at lx = None \<and>
     held lx = [] \<and> fence lx = None \<and> \<not> skipped_heredoc (lx_read lx) \<and>
     here_strings (lx_read lx) = [] \<and> finished_before_heredoc (lx_read lx) = 0"

lemma at_line_new_lexer: "at_line new_lexer (new_frame None False False)"
  by (simp add: at_line_def new_lexer_def new_frame_def)

lemma lex_loop_step:
  "drop i chars = c # cs \<Longrightarrow> lex_step chars i bodies lx = Some (lx', Some j) \<Longrightarrow>
   lex_loop chars bodies i lx = lex_loop chars bodies j lx'"
  by (cases "i < length chars") (simp_all add: lex_loop.simps [of chars bodies i lx])

lemma drop_get:
  assumes "drop i chars = c # cs"
  shows "i < length chars" "chars ! i = c" "drop (Suc i) chars = cs"
    "get_at chars (Suc i) = (case cs of [] \<Rightarrow> None | d # _ \<Rightarrow> Some d)"
proof -
  show "i < length chars" using assms by (cases "i < length chars") simp_all
  then show "chars ! i = c" "drop (Suc i) chars = cs"
    using assms by (simp_all add: Cons_nth_drop_Suc [symmetric])
  then show "get_at chars (Suc i) = (case cs of [] \<Rightarrow> None | d # _ \<Rightarrow> Some d)"
    by (cases "Suc i < length chars") (auto simp: get_at_def Cons_nth_drop_Suc [symmetric])
qed

lemma drop_more: "drop i chars = xs @ ys \<Longrightarrow> drop (i + length xs) chars = ys"
  by (metis append_eq_conv_conj add.commute drop_drop)

lemma at_line_command_frame: "at_line lx f \<Longrightarrow> command_frame lx = Some f"
  by (simp add: at_line_def command_frame_def)

lemma at_line_with_frame:
  "at_line lx f \<Longrightarrow> with_frame u lx = Some (lx\<lparr>frames := [Commands (u f)]\<rparr>)"
  by (simp add: at_line_def with_frame_def)

lemma at_line_update:
  "at_line lx f \<Longrightarrow> closer g = None \<Longrightarrow> \<not> discard g \<Longrightarrow> \<not> holds g \<Longrightarrow>
   at_line (lx\<lparr>frames := [Commands g]\<rparr>) g"
  by (simp add: at_line_def)

text \<open>The operations on such a state, by what they do to the word, the words and the commands.\<close>

lemma at_line_push:
  assumes "at_line lx f"
  shows "push c lx = Some (lx\<lparr>frames := [Commands (f\<lparr>cf_word := Some (open_word (cf_word f) @ [c])\<rparr>)]\<rparr>)"
proof -
  have "lx\<lparr>after_redirect := False, after_pipe := False\<rparr> = lx"
    using assms by (cases lx) (simp add: at_line_def)
  with at_line_with_frame [OF assms] show ?thesis by (simp add: push_def)
qed

lemma at_line_mark_quoted:
  assumes "at_line lx f"
  shows "mark_quoted lx =
    Some (lx\<lparr>frames := [Commands (f\<lparr>cf_word := Some (open_word (cf_word f)), quoted := True\<rparr>)]\<rparr>)"
proof -
  have "lx\<lparr>after_pipe := False\<rparr> = lx"
    using assms by (cases lx) (simp add: at_line_def)
  then have "touch_word lx = Some (lx\<lparr>frames := [Commands (f\<lparr>cf_word := Some (open_word (cf_word f))\<rparr>)]\<rparr>)"
    by (simp add: touch_word_def at_line_with_frame [OF assms])
  then show ?thesis by (simp add: mark_quoted_def with_frame_def)
qed

lemma at_line_push_all:
  assumes "at_line lx f" "cf_word f = Some w"
  shows "push_all u lx = Some (lx\<lparr>frames := [Commands (f\<lparr>cf_word := Some (w @ u)\<rparr>)]\<rparr>)"
  using assms
proof (induction u arbitrary: lx f w)
  case Nil
  then show ?case by (cases lx; cases f) (simp add: at_line_def)
next
  case (Cons c u)
  let ?f = "f\<lparr>cf_word := Some (w @ [c])\<rparr>" and ?lx = "lx\<lparr>frames := [Commands (f\<lparr>cf_word := Some (w @ [c])\<rparr>)]\<rparr>"
  have "at_line ?lx ?f" using Cons.prems by (intro at_line_update [OF Cons.prems(1)]) (simp_all add: at_line_def)
  from Cons.IH [OF this, of "w @ [c]"] show ?case
    using Cons.prems by (simp add: at_line_push)
qed

definition ends_in_command_position :: "CommandFrame \<Rightarrow> bool" where
  "ends_in_command_position f \<longleftrightarrow>
     (case cf_word f of
        None \<Rightarrow> command_position f
      | Some w \<Rightarrow> word_is_reserved f w \<and> (w \<in> set LEADS_A_COMMAND \<or> w \<in> set CLOSES_A_COMPOUND))"

lemma at_line_compound_word: "at_line lx f \<Longrightarrow> at_line (compound_word word lx) f"
  by (auto simp: at_line_def compound_word_def Let_def split: option.splits list.splits prod.splits)

lemma read_compound_word [simp]: "lx_read (compound_word word lx) = lx_read lx"
  by (auto simp: compound_word_def Let_def split: option.splits list.splits prod.splits)

lemma at_line_end_word:
  assumes at: "at_line lx f"
  obtains lx' f' where "end_word lx = Some lx'" "at_line lx' f'" "cf_word f' = None"
    "cf_argv f' = cf_argv f @ take_word (cf_word f)" "lx_read lx' = lx_read lx"
    "command_position f' = ends_in_command_position f"
proof -
  have same: "lx\<lparr>after_redirect := False\<rparr> = lx" using at by (cases lx) (simp add: at_line_def)
  have f: "command_frame (lx\<lparr>after_redirect := False\<rparr>) = Some f"
    using at_line_command_frame [OF at] by (simp add: same)
  show thesis
  proof (cases "cf_word f")
    case None
    then show thesis
      using that [OF _ at] end_word_unfold [OF f] by (simp add: same ends_in_command_position_def)
  next
    case (Some w)
    let ?g = "frame_ends_word w f"
    let ?lx1 = "lx\<lparr>frames := [Commands ?g]\<rparr>"
    have g: "closer ?g = None" "\<not> discard ?g" "\<not> holds ?g" "cf_argv ?g = cf_argv f"
      "command_position ?g = ends_in_command_position f"
      using at Some by (simp_all add: at_line_def frame_ends_word_def Let_def ends_in_command_position_def)
    have at1: "at_line ?lx1 ?g" using at_line_update [OF at g(1-3)] .
    then have here: "note_here_string w ?lx1 = ?lx1"
      by (simp add: note_here_string_def at_line_def)
    define lx2 where "lx2 = (if word_is_reserved f w \<and> closer f = None then compound_word w ?lx1 else ?lx1)"
    have at2: "at_line lx2 ?g" using at1 by (simp add: lx2_def at_line_compound_word)
    have "end_word lx = with_frame (\<lambda>f. f\<lparr>cf_argv := cf_argv f @ [w]\<rparr>) lx2"
      unfolding lx2_def by (simp add: end_word_unfold [OF f] Some same at_line_with_frame [OF at] here)
    then have "end_word lx = Some (lx2\<lparr>frames := [Commands (?g\<lparr>cf_argv := cf_argv ?g @ [w]\<rparr>)]\<rparr>)"
      by (simp add: at_line_with_frame [OF at2])
    moreover have "at_line (lx2\<lparr>frames := [Commands (?g\<lparr>cf_argv := cf_argv ?g @ [w]\<rparr>)]\<rparr>)
        (?g\<lparr>cf_argv := cf_argv ?g @ [w]\<rparr>)"
      using g by (intro at_line_update [OF at2]) simp_all
    moreover have "lx_read lx2 = lx_read lx" by (simp add: lx2_def)
    moreover have "cf_word ?g = None" by (simp add: frame_ends_word_def Let_def)
    ultimately show thesis
      using that Some g(4,5) by simp
  qed
qed

lemma record_no_commands [simp]: "record_commands [] lx = lx"
  by (simp add: record_commands_def)

lemma at_line_end_pipeline:
  assumes at: "at_line lx f"
  obtains lx' f' where "end_pipeline lx = Some lx'" "at_line lx' f'" "cf_word f' = None"
    "cf_argv f' = []" "command_position f'" "function_word f' = None"
    "read_commands lx' = read_commands lx @
       (if cf_argv f @ take_word (cf_word f) = [] \<or> ends_in_command_position f then []
        else [cf_argv f @ take_word (cf_word f)])"
proof -
  obtain lx1 f1 where 1: "end_word lx = Some lx1" "at_line lx1 f1" "cf_word f1 = None"
    "cf_argv f1 = cf_argv f @ take_word (cf_word f)" "lx_read lx1 = lx_read lx"
    "command_position f1 = ends_in_command_position f"
    using at_line_end_word [OF at] .
  let ?g = "f1\<lparr>cf_argv := [], command_position := True, function_word := None\<rparr>"
  let ?lx2 = "lx1\<lparr>frames := [Commands ?g]\<rparr>"
  have at2: "at_line ?lx2 ?g" using 1(2) by (intro at_line_update [OF 1(2)]) (simp_all add: at_line_def)
  have dh: "\<not> discard f1" "held ?lx2 = []" using 1(2) by (simp_all add: at_line_def)
  define out where "out = (if cf_argv f1 = [] \<or> command_position f1 then [] else [cf_argv f1])"
  have cmd: "end_command lx = Some (record_commands out ?lx2)"
    using at_line_with_frame [OF 1(2)] dh
    by (simp add: end_command_def 1(1) at_line_command_frame [OF 1(2)] out_def record_argv_def
        record_no_commands)
  let ?lx3 = "record_commands out ?lx2"
  have at3: "at_line (?lx3\<lparr>pipeline_start := n\<rparr>) ?g" for n
    using at2 by (simp add: at_line_def record_commands_def)
  have "command_frame ?lx3 = Some ?g" by (simp add: command_frame_def record_commands_def)
  moreover have "closer ?g = None" using 1(2) by (simp add: at_line_def)
  ultimately have eq: "end_pipeline lx = Some (?lx3\<lparr>pipeline_start := length (read_commands ?lx3)\<rparr>)"
    by (simp add: end_pipeline_def cmd)
  have rd: "read_commands ?lx3 = read_commands lx @ out"
    using 1(5) by (simp add: record_commands_def)
  have "read_commands (?lx3\<lparr>pipeline_start := n\<rparr>) = read_commands lx @
       (if cf_argv f @ take_word (cf_word f) = [] \<or> ends_in_command_position f then []
        else [cf_argv f @ take_word (cf_word f)])" for n
    using rd 1(4,6) by (simp add: out_def)
  with 1(3) show thesis by (intro that [OF eq at3]) simp_all
qed

section \<open>The simulation\<close>

definition RESERVED_WORDS :: "rstr set" where
  "RESERVED_WORDS = set LEADS_A_COMMAND \<union> set CLOSES_A_COMPOUND"

text \<open>\<open>cs\<close> is \<open>ds\<close> less some commands made of reserved words only.\<close>

definition drops_reserved :: "rstr list list \<Rightarrow> rstr list list \<Rightarrow> bool" where
  "drops_reserved cs ds \<longleftrightarrow>
     subseq cs ds \<and>
     filter (\<lambda>ws. \<not> set ws \<subseteq> RESERVED_WORDS) cs = filter (\<lambda>ws. \<not> set ws \<subseteq> RESERVED_WORDS) ds"

lemma drops_reserved_keep:
  "drops_reserved cs ds \<Longrightarrow> drops_reserved (cs @ [w]) (ds @ [w])"
  by (simp add: drops_reserved_def list_emb_append_mono)

lemma drops_reserved_drop:
  "drops_reserved cs ds \<Longrightarrow> set w \<subseteq> RESERVED_WORDS \<Longrightarrow> drops_reserved cs (ds @ [w])"
  by (auto simp: drops_reserved_def)

text \<open>Two states that have read the same: the frame has the parser's words, and is in command
  position only while every word so far is a reserved one.\<close>

definition sim :: "unattended_state \<Rightarrow> ShLexer \<Rightarrow> CommandFrame \<Rightarrow> bool" where
  "sim st lx f \<longleftrightarrow>
     at_line lx f \<and> cf_argv f = u_argv st \<and> cf_word f = u_word st \<and>
     (command_position f \<longrightarrow> set (cf_argv f) \<subseteq> RESERVED_WORDS) \<and>
     CHR ''{'' \<notin> set (open_word (cf_word f)) \<and>
     drops_reserved (read_commands lx) (map argv (u_commands st))"

lemma sim_at_line: "sim st lx f \<Longrightarrow> at_line lx f"
  by (simp add: sim_def)

lemma ends_in_command_position_reserved:
  assumes "sim st lx f" "ends_in_command_position f"
  shows "set (cf_argv f @ take_word (cf_word f)) \<subseteq> RESERVED_WORDS"
  using assms
  by (auto simp: sim_def ends_in_command_position_def word_is_reserved_def RESERVED_WORDS_def
      split: option.splits)

lemma sim_word:
  assumes "sim st lx f" "CHR ''{'' \<notin> set w"
  shows "sim (st\<lparr>u_word := Some w\<rparr>) (lx\<lparr>frames := [Commands (f\<lparr>cf_word := Some w, quoted := q\<rparr>)]\<rparr>)
    (f\<lparr>cf_word := Some w, quoted := q\<rparr>)"
  using assms by (auto simp: sim_def at_line_def)

lemma sim_plain_word:
  assumes "sim st lx f" "CHR ''{'' \<notin> set w"
  shows "sim (st\<lparr>u_word := Some w\<rparr>) (lx\<lparr>frames := [Commands (f\<lparr>cf_word := Some w\<rparr>)]\<rparr>)
    (f\<lparr>cf_word := Some w\<rparr>)"
  using assms by (auto simp: sim_def at_line_def)

lemma sim_end_word:
  assumes "sim st lx f"
  obtains lx' f' where "end_word lx = Some lx'"
    "sim (st\<lparr>u_argv := u_argv st @ take_word (u_word st), u_word := None\<rparr>) lx' f'"
proof -
  obtain lx' f' where e: "end_word lx = Some lx'" "at_line lx' f'" "cf_word f' = None"
    "cf_argv f' = cf_argv f @ take_word (cf_word f)" "lx_read lx' = lx_read lx"
    "command_position f' = ends_in_command_position f"
    using at_line_end_word [OF sim_at_line [OF assms]] .
  have "sim (st\<lparr>u_argv := u_argv st @ take_word (u_word st), u_word := None\<rparr>) lx' f'"
    using assms ends_in_command_position_reserved [OF assms] e by (simp add: sim_def)
  with e(1) show thesis by (rule that)
qed

lemma sim_end_pipeline:
  assumes "sim st lx f"
  obtains lx' f' where "end_pipeline lx = Some lx'"
    "sim \<lparr>u_commands = u_commands st @
            (if u_argv st @ take_word (u_word st) = [] then []
             else [unattended_command (u_argv st @ take_word (u_word st)) (u_gate st)]),
          u_argv = [], u_word = None, u_gate = gate\<rparr> lx' f'"
proof -
  obtain lx' f' where e: "end_pipeline lx = Some lx'" "at_line lx' f'" "cf_word f' = None"
    "cf_argv f' = []" "read_commands lx' = read_commands lx @
       (if cf_argv f @ take_word (cf_word f) = [] \<or> ends_in_command_position f then []
        else [cf_argv f @ take_word (cf_word f)])"
    using at_line_end_pipeline [OF sim_at_line [OF assms]] by metis
  have s: "cf_argv f = u_argv st" "cf_word f = u_word st"
    "drops_reserved (read_commands lx) (map argv (u_commands st))"
    using assms by (simp_all add: sim_def)
  let ?av = "u_argv st @ take_word (u_word st)"
  have "drops_reserved (read_commands lx')
     (map argv (u_commands st @ (if ?av = [] then [] else [unattended_command ?av (u_gate st)])))"
  proof (cases "?av = [] \<or> ends_in_command_position f")
    case True
    then show ?thesis
      using e(5) s ends_in_command_position_reserved [OF assms] drops_reserved_drop [OF s(3), of ?av]
      by auto
  next
    case False
    then show ?thesis using e(5) s drops_reserved_keep [OF s(3), of ?av] by auto
  qed
  with e(2-4) have "sim \<lparr>u_commands = u_commands st @
            (if ?av = [] then [] else [unattended_command ?av (u_gate st)]),
          u_argv = [], u_word = None, u_gate = gate\<rparr> lx' f'"
    by (simp add: sim_def)
  with e(1) show thesis by (rule that)
qed

text \<open>The lexer inside double quotes, against the inner loop of the parser.\<close>

lemma double_quoted_lexes:
  assumes "double_quoted SH w cs = Some (w', rest)" "drop i chars = cs"
    and "set cs \<inter> set INDIRECTION = {}"
    and "at_line (lx\<lparr>frames := [Commands f]\<rparr>) f" "frames lx = [DoubleQuoted, Commands f]"
    and "cf_word f = Some w" "CHR ''{'' \<notin> set w"
  shows "\<exists>j. lex_loop chars bodies i lx =
      lex_loop chars bodies j (lx\<lparr>frames := [Commands (f\<lparr>cf_word := Some w'\<rparr>)]\<rparr>) \<and>
      drop j chars = rest \<and> CHR ''{'' \<notin> set w'"
  using assms
proof (induction SH w cs arbitrary: i lx f rule: double_quoted.induct)
  case (1 w)
  then show ?case by simp
next
  case (2 w c cs)
  note d = drop_get [OF "2.prems"(2)]
  have lx: "\<not> after_redirect lx" "\<not> after_pipe lx" using "2.prems"(4) by (simp_all add: at_line_def)
  have same: "lx\<lparr>after_redirect := False, after_pipe := False\<rparr> = lx"
    using lx by (cases lx) simp
  have push: "push e (lx\<lparr>frames := [DoubleQuoted, Commands (f\<lparr>cf_word := Some v\<rparr>)]\<rparr>) =
     Some (lx\<lparr>frames := [DoubleQuoted, Commands (f\<lparr>cf_word := Some (v @ [e])\<rparr>)]\<rparr>)" for e v
    using lx by (cases lx) (simp add: push_def with_frame_def)
  have push1: "push e lx = Some (lx\<lparr>frames := [DoubleQuoted, Commands (f\<lparr>cf_word := Some (w @ [e])\<rparr>)]\<rparr>)" for e
    using "2.prems"(5,6) same by (simp add: push_def with_frame_def)
  have notin: "c \<notin> set INDIRECTION" "set cs \<inter> set INDIRECTION = {}" using "2.prems"(3) by auto
  have goon: "\<exists>j. lex_loop chars bodies i lx =
      lex_loop chars bodies j (lx\<lparr>frames := [Commands (f\<lparr>cf_word := Some w'\<rparr>)]\<rparr>) \<and>
      drop j chars = rest \<and> CHR ''{'' \<notin> set w'"
    if "lex_step chars i bodies lx =
          Some (lx\<lparr>frames := [DoubleQuoted, Commands (f\<lparr>cf_word := Some v\<rparr>)]\<rparr>, Some k)"
      and IH: "\<And>i lx f. drop i chars = s \<Longrightarrow> set s \<inter> set INDIRECTION = {} \<Longrightarrow>
        at_line (lx\<lparr>frames := [Commands f]\<rparr>) f \<Longrightarrow> frames lx = [DoubleQuoted, Commands f] \<Longrightarrow>
        cf_word f = Some v \<Longrightarrow> CHR ''{'' \<notin> set v \<Longrightarrow>
        \<exists>j. lex_loop chars bodies i lx =
          lex_loop chars bodies j (lx\<lparr>frames := [Commands (f\<lparr>cf_word := Some w'\<rparr>)]\<rparr>) \<and>
          drop j chars = rest \<and> CHR ''{'' \<notin> set w'"
      and "drop k chars = s" "set s \<inter> set INDIRECTION = {}" "CHR ''{'' \<notin> set v" for v k s
  proof -
    let ?f = "f\<lparr>cf_word := Some v\<rparr>" and ?lx = "lx\<lparr>frames := [DoubleQuoted, Commands (f\<lparr>cf_word := Some v\<rparr>)]\<rparr>"
    have "at_line (?lx\<lparr>frames := [Commands ?f]\<rparr>) ?f" using "2.prems"(4) by (simp add: at_line_def)
    from IH [OF that(3,4) this] that(5) lex_loop_step [OF "2.prems"(2) that(1)] show ?thesis by simp
  qed
  have step: "lex_step chars i bodies lx = step_quoted chars i lx"
    using "2.prems"(5) by (simp add: lex_step_def)
  have notin': "c \<noteq> CHR ''$''" "c \<noteq> BTICK" "c \<noteq> CHR ''{''" using notin by (auto simp: INDIRECTION_def)
  consider (close) "c = DQ" | (esc) "c \<noteq> DQ" "c = BSL" | (other) "c \<noteq> DQ" "c \<noteq> BSL" by blast
  then show ?case
  proof cases
    case close
    with "2.prems" have r: "w' = w" "rest = cs" by simp_all
    have "lex_step chars i bodies lx = Some (lx\<lparr>frames := [Commands f]\<rparr>, Some (i + 1))"
      using close d "2.prems"(5) by (simp add: step step_quoted_def goes_def Let_def)
    moreover have "f\<lparr>cf_word := Some w'\<rparr> = f" using "2.prems"(6) r by (cases f) simp
    ultimately show ?thesis
      using lex_loop_step [OF "2.prems"(2)] d(3) r "2.prems"(7) by (intro exI [of _ "Suc i"]) simp
  next
    case esc
    with "2.prems" obtain e es where cs: "cs = e # es" by (cases cs) (auto simp: SH_def)
    have k: "drop (i + 2) chars = es" "get_at chars (Suc i) = Some e"
      using d cs drop_get(3) [of "Suc i" chars e es] by (simp_all add: eval_nat_numeral)
    have es: "set es \<inter> set INDIRECTION = {}" "e \<noteq> CHR ''$''" "e \<noteq> BTICK" "e \<noteq> CHR ''{''"
      using notin(2) cs by (auto simp: INDIRECTION_def)
    have bs: "backslash_escapes SH" by (simp add: SH_def)
    have lxeq: "lx\<lparr>frames := [DoubleQuoted, Commands (f\<lparr>cf_word := Some w\<rparr>)]\<rparr> = lx"
      using "2.prems"(5,6) by (cases lx; cases f) simp
    have call: "step_quoted chars i lx =
       (if e = NL then goes (i + 2) lx
        else if e = DQ \<or> e = BSL then push e lx \<bind> goes (i + 2)
        else push BSL lx \<bind> push e \<bind> goes (i + 2))"
      using esc d(2) k(2) es by (simp add: step_quoted_def Let_def)
    consider (q) "e = DQ \<or> e = BSL" | (nl) "e = NL" | (o) "\<not> (e = DQ \<or> e = BSL)" "e \<noteq> NL" by blast
    then show ?thesis
    proof cases
      case q
      then have dq: "double_quoted SH (w @ [e]) es = Some (w', rest)" using "2.prems"(1) esc bs cs by simp
      have s: "lex_step chars i bodies lx =
          Some (lx\<lparr>frames := [DoubleQuoted, Commands (f\<lparr>cf_word := Some (w @ [e])\<rparr>)]\<rparr>, Some (i + 2))"
        unfolding step call using q by (auto simp: push1 goes_def)
      show ?thesis
        by (rule goon [OF s "2.hyps"(1) [OF esc(1) conjI [OF esc(2) bs] cs q dq] k(1) es(1)])
          (use "2.prems"(7) es(4) in auto)
    next
      case nl
      then have dq: "double_quoted SH w es = Some (w', rest)" using "2.prems"(1) esc bs cs by simp
      have s: "lex_step chars i bodies lx =
          Some (lx\<lparr>frames := [DoubleQuoted, Commands (f\<lparr>cf_word := Some w\<rparr>)]\<rparr>, Some (i + 2))"
        unfolding step call lxeq using nl by (simp add: goes_def)
      have no: "\<not> (e = DQ \<or> e = BSL)" using nl by simp
      show ?thesis
        by (rule goon [OF s "2.hyps"(2) [OF esc(1) conjI [OF esc(2) bs] cs no nl dq] k(1) es(1) "2.prems"(7)])
    next
      case o
      then have dq: "double_quoted SH (w @ [BSL, e]) es = Some (w', rest)" using "2.prems"(1) esc bs cs by simp
      have s: "lex_step chars i bodies lx =
          Some (lx\<lparr>frames := [DoubleQuoted, Commands (f\<lparr>cf_word := Some (w @ [BSL, e])\<rparr>)]\<rparr>, Some (i + 2))"
        unfolding step call using o push [of e "w @ [BSL]"] by (simp add: push1 goes_def)
      show ?thesis
        by (rule goon [OF s "2.hyps"(3) [OF esc(1) conjI [OF esc(2) bs] cs o dq] k(1) es(1)])
          (use "2.prems"(7) es(4) in auto)
    qed
  next
    case other
    then have dq: "double_quoted SH (w @ [c]) cs = Some (w', rest)" using "2.prems"(1) by simp
    have s: "lex_step chars i bodies lx =
          Some (lx\<lparr>frames := [DoubleQuoted, Commands (f\<lparr>cf_word := Some (w @ [c])\<rparr>)]\<rparr>, Some (Suc i))"
      unfolding step using other notin' d(2) by (simp add: step_quoted_def push1 goes_def Let_def)
    show ?thesis
      by (rule goon [OF s "2.hyps"(4) [OF other(1) _ dq] d(3) notin(2)])
        (use "2.prems"(7) notin'(3) other in auto)
  qed
qed

lemma single_quoted_position:
  "single_quoted w cs = Some (w', rest) \<Longrightarrow> \<exists>u. SQ \<notin> set u \<and> w' = w @ u \<and> cs = u @ SQ # rest"
proof (induction w cs rule: single_quoted.induct)
  case (2 w c cs)
  show ?case
  proof (cases "c = SQ")
    case True
    with 2 show ?thesis by simp
  next
    case False
    with 2 obtain u where "SQ \<notin> set u" "w' = (w @ [c]) @ u" "cs = u @ SQ # rest" by auto
    with False show ?thesis by (intro exI [of _ "c # u"]) simp
  qed
qed simp

lemma position_after: "c \<notin> set u \<Longrightarrow> position (\<lambda>x. x = c) (u @ c # rest) = Some (length u)"
proof -
  assume "c \<notin> set u"
  then have "takeWhile (\<lambda>x. x \<noteq> c) (u @ c # rest) = u"
    by (subst takeWhile_append2) auto
  then show ?thesis by (simp add: position_def Let_def)
qed

text \<open>One character of the line, with the frame of commands on top.\<close>

lemma lex_step_at_line:
  "at_line lx f \<Longrightarrow> lex_step chars i bodies lx = step_commands chars i bodies None (arithmetic f) lx"
  by (simp add: lex_step_def at_line_def)

lemma lex_quoted_word:
  assumes at: "at_line lx f" and d: "drop i chars = SQ # u @ SQ # rest" and u: "SQ \<notin> set u"
  shows "lex_loop chars bodies i lx = lex_loop chars bodies (i + length u + 2)
     (lx\<lparr>frames := [Commands (f\<lparr>cf_word := Some (open_word (cf_word f) @ u), quoted := True\<rparr>)]\<rparr>)"
    and "drop (i + length u + 2) chars = rest"
proof -
  note dg = drop_get [OF d]
  let ?g = "f\<lparr>cf_word := Some (open_word (cf_word f)), quoted := True\<rparr>"
  have at': "at_line (lx\<lparr>frames := [Commands ?g]\<rparr>) ?g"
    using at by (intro at_line_update [OF at]) (simp_all add: at_line_def)
  have swap: "f\<lparr>quoted := True, cf_word := w\<rparr> = f\<lparr>cf_word := w, quoted := True\<rparr>" for w
    by (cases f) simp
  have "step_single_quote chars i lx = goes (length u + i + 1 + 1)
     (lx\<lparr>frames := [Commands (f\<lparr>cf_word := Some (open_word (cf_word f) @ u), quoted := True\<rparr>)]\<rparr>)"
    using at_line_push_all [OF at', of "open_word (cf_word f)" u]
    by (simp add: swap step_single_quote_def dg(3) position_after [OF u] at_line_mark_quoted [OF at])
  then have "lex_step chars i bodies lx = Some (lx\<lparr>frames := [Commands (f\<lparr>cf_word :=
       Some (open_word (cf_word f) @ u), quoted := True\<rparr>)]\<rparr>, Some (i + length u + 2))"
    by (simp add: lex_step_at_line [OF at] step_commands_def dg(2) goes_def add.commute)
  from lex_loop_step [OF d this]
  show "lex_loop chars bodies i lx = lex_loop chars bodies (i + length u + 2)
     (lx\<lparr>frames := [Commands (f\<lparr>cf_word := Some (open_word (cf_word f) @ u), quoted := True\<rparr>)]\<rparr>)" .
  show "drop (i + length u + 2) chars = rest"
    using drop_more [of i chars "SQ # u @ [SQ]" rest] d by (simp add: add.commute add.left_commute)
qed

lemma lex_char:
  assumes "at_line lx f" "drop i chars = c # cs"
    and "step_commands chars i bodies None (arithmetic f) lx = Some (lx', Some j)"
  shows "lex_loop chars bodies i lx = lex_loop chars bodies j lx'"
  using lex_loop_step [OF assms(2)] lex_step_at_line [OF assms(1)] assms(3) by metis

lemma lex_blank:
  assumes "at_line lx f" "drop i chars = c # cs" "c = SPC \<or> c = TAB" "end_word lx = Some lx'"
  shows "lex_loop chars bodies i lx = lex_loop chars bodies (Suc i) lx'"
  using assms drop_get [OF assms(2)]
  by (intro lex_char [OF assms(1,2)]) (auto simp: step_commands_def goes_def)

lemma lex_semicolon:
  assumes "at_line lx f" "drop i chars = CHR '';'' # cs" "end_pipeline lx = Some lx'"
  shows "lex_loop chars bodies i lx = lex_loop chars bodies (Suc i) lx'"
  using assms drop_get [OF assms(2)]
  by (intro lex_char [OF assms(1,2)]) (simp add: step_commands_def goes_def)

lemma lex_newline:
  assumes at: "at_line lx f" and d: "drop i chars = NL # cs" and e: "end_pipeline lx = Some lx'"
    and at': "at_line lx' f'"
  shows "lex_loop chars bodies i lx = lex_loop chars bodies (Suc i) lx'"
proof -
  have "pending lx' = []" "\<not> after_pipe lx" using at at' by (simp_all add: at_line_def)
  then show ?thesis
    using drop_get [OF d] e
    by (intro lex_char [OF at d]) (simp add: step_commands_def step_newline_def after_newline_def goes_def)
qed

lemma lex_and:
  assumes "at_line lx f" "drop i chars = CHR ''&'' # CHR ''&'' # cs" "end_pipeline lx = Some lx'"
  shows "lex_loop chars bodies i lx = lex_loop chars bodies (i + 2) lx'"
proof -
  have "\<not> after_redirect lx" using assms(1) by (simp add: at_line_def)
  then show ?thesis
    using assms drop_get [OF assms(2)]
    by (intro lex_char [OF assms(1,2)]) (simp add: step_commands_def step_ampersand_def goes_def)
qed

lemma lex_escape:
  assumes "at_line lx f" "drop i chars = BSL # c # cs" "c \<noteq> NL"
  shows "lex_loop chars bodies i lx = lex_loop chars bodies (i + 2)
     (lx\<lparr>frames := [Commands (f\<lparr>cf_word := Some (open_word (cf_word f) @ [c]), quoted := True\<rparr>)]\<rparr>)"
proof -
  let ?g = "f\<lparr>cf_word := Some (open_word (cf_word f)), quoted := True\<rparr>"
  have at': "at_line (lx\<lparr>frames := [Commands ?g]\<rparr>) ?g"
    using assms(1) by (intro at_line_update [OF assms(1)]) (simp_all add: at_line_def)
  show ?thesis
    using drop_get [OF assms(2)] assms(3) at_line_push [OF at', of c]
    by (intro lex_char [OF assms(1,2)])
      (simp add: step_commands_def step_backslash_def goes_def at_line_mark_quoted [OF assms(1)])
qed

lemma lex_continued:
  assumes "at_line lx f" "drop i chars = BSL # NL # cs"
  shows "lex_loop chars bodies i lx = lex_loop chars bodies (i + 2) lx"
  using drop_get [OF assms(2)]
  by (intro lex_char [OF assms]) (simp add: step_commands_def step_backslash_def goes_def)

lemma line_end_drop:
  assumes "drop i chars = c # cs" "c \<noteq> NL"
  shows "drop (line_end chars i) chars = dropWhile (\<lambda>ch. ch \<noteq> NL) cs"
proof -
  let ?n = "length (takeWhile (\<lambda>ch. ch \<noteq> NL) (drop i chars))"
  have "drop (i + ?n) chars = dropWhile (\<lambda>ch. ch \<noteq> NL) (drop i chars)"
    by (rule drop_more) simp
  with assms have n: "drop (i + ?n) chars = dropWhile (\<lambda>ch. ch \<noteq> NL) cs" by simp
  show ?thesis
  proof (cases "?n < length (drop i chars)")
    case True
    then show ?thesis using n by (simp add: line_end_def position_def Let_def)
  next
    case False
    then have "length chars \<le> i + ?n" by auto
    with n have "dropWhile (\<lambda>ch. ch \<noteq> NL) cs = []" by simp
    moreover from False have "line_end chars i = length chars"
      by (simp add: line_end_def position_def Let_def)
    ultimately show ?thesis by (metis drop_all order_refl)
  qed
qed

text \<open>One round of the parser is one or more steps of the lexer.\<close>

lemma INDIRECTION_iff:
  "c \<notin> set INDIRECTION \<longleftrightarrow> c \<noteq> CHR ''>'' \<and> c \<noteq> CHR ''<'' \<and> c \<noteq> BTICK \<and> c \<noteq> CHR ''$'' \<and>
     c \<noteq> CHR ''{'' \<and> c \<noteq> CHR ''}'' \<and> c \<noteq> CHR ''('' \<and> c \<noteq> CHR '')'' \<and> c \<noteq> CHR ''*'' \<and>
     c \<noteq> CHR ''?'' \<and> c \<noteq> CHR ''['' \<and> c \<noteq> CHR '']''"
  unfolding INDIRECTION_def by (simp only: list.set insert_iff empty_iff de_Morgan_disj simp_thms)

lemma SH_fields [simp]: "backslash_escapes SH" "comments_with_hash SH"
  by (simp_all add: SH_def)

lemma lex_plain:
  assumes at: "at_line lx f" and d: "drop i chars = c # cs" and c: "c \<notin> set INDIRECTION"
    and p: "plain_char SH c \<or> c = CHR ''#'' \<and> cf_word f \<noteq> None"
  shows "lex_loop chars bodies i lx = lex_loop chars bodies (Suc i)
     (lx\<lparr>frames := [Commands (f\<lparr>cf_word := Some (open_word (cf_word f) @ [c])\<rparr>)]\<rparr>)"
proof (rule lex_char [OF at d])
  have "c \<noteq> BSL \<and> c \<noteq> SQ \<and> c \<noteq> DQ \<and> c \<noteq> SPC \<and> c \<noteq> TAB \<and> c \<noteq> NL \<and> c \<noteq> CHR '';'' \<and> c \<noteq> CHR ''&'' \<and>
      c \<noteq> CHR ''|'' \<and> (c = CHR ''#'' \<longrightarrow> cf_word f \<noteq> None)"
    using p by (auto simp: plain_char_def)
  with c drop_get(2) [OF d]
  show "step_commands chars i bodies None (arithmetic f) lx =
    Some (lx\<lparr>frames := [Commands (f\<lparr>cf_word := Some (open_word (cf_word f) @ [c])\<rparr>)]\<rparr>, Some (Suc i))"
    by (auto simp: step_commands_def Let_def INDIRECTION_iff at_line_push [OF at]
        at_line_command_frame [OF at] goes_def)
qed

lemma lex_comment:
  assumes at: "at_line lx f" and d: "drop i chars = CHR ''#'' # cs" and w: "cf_word f = None"
  shows "lex_loop chars bodies i lx = lex_loop chars bodies (line_end chars i) lx"
  using drop_get(2) [OF d] w
  by (intro lex_char [OF at d])
    (simp add: step_commands_def at_line_command_frame [OF at] goes_def)

lemma lex_double_quote:
  assumes at: "at_line lx f" and d: "drop i chars = DQ # cs"
  shows "lex_loop chars bodies i lx = lex_loop chars bodies (Suc i)
     (lx\<lparr>frames := [DoubleQuoted, Commands (f\<lparr>cf_word := Some (open_word (cf_word f)), quoted := True\<rparr>)]\<rparr>)"
proof -
  have "lx\<lparr>frames := fs, after_redirect := False\<rparr> = lx\<lparr>frames := fs\<rparr>" for fs
    using at by (cases lx) (simp add: at_line_def)
  then show ?thesis
    using drop_get(2) [OF d]
    by (intro lex_char [OF at d])
      (simp add: step_commands_def step_double_quote_def at_line_mark_quoted [OF at] goes_def)
qed

lemma sim_step:
  assumes step: "unattended_step SH st c cs = Some (st', rest)"
    and d: "drop i chars = c # cs" and ind: "set (c # cs) \<inter> set INDIRECTION = {}"
    and sim: "sim st lx f"
  shows "\<exists>j lx' f'. lex_loop chars bodies i lx = lex_loop chars bodies j lx' \<and>
     drop j chars = rest \<and> sim st' lx' f'"
proof -
  note at = sim_at_line [OF sim] and d1 = drop_get(3) [OF d]
  have c: "c \<notin> set INDIRECTION" "set cs \<inter> set INDIRECTION = {}" using ind by auto
  have brace: "CHR ''{'' \<in> set INDIRECTION" by (simp add: INDIRECTION_def)
  have same: "cf_word f = u_word st" "CHR ''{'' \<notin> set (open_word (u_word st))"
    using sim by (auto simp: sim_def)
  have nb: "CHR ''{'' \<notin> set (open_word (u_word st) @ u)" if "set u \<subseteq> set (c # cs)" for u
    using that ind brace same(2) by auto
  show ?thesis
  proof (cases rule: char_class_cases [of c SH])
    case escape
    with step obtain n r where cs: "cs = n # r" by (cases cs) (auto simp: unattended_step_escape)
    have d2: "drop (i + 2) chars = r" using drop_get(3) [of "Suc i" chars n r] d1 cs by simp
    show ?thesis
    proof (cases "n = NL")
      case True
      with step escape cs have "st' = st" "rest = r" by (simp_all add: unattended_step_escape)
      with lex_continued [OF at, of i chars r] True escape cs d d2 sim show ?thesis by blast
    next
      case False
      with step escape cs have st': "st' = st\<lparr>u_word := Some (open_word (u_word st) @ [n])\<rparr>" "rest = r"
        by (simp_all add: unattended_step_escape)
      from lex_escape [OF at _ False, of i chars r] escape cs d d2
        sim_word [OF sim nb [of "[n]"], of True] same st' show ?thesis by fastforce
    qed
  next
    case single
    with step obtain w where q: "single_quoted (open_word (u_word st)) cs = Some (w, rest)"
      and st': "st' = st\<lparr>u_word := Some w\<rparr>"
      by (auto simp: unattended_step_quotes)
    from single_quoted_position [OF q] obtain u where u: "SQ \<notin> set u" "w = open_word (u_word st) @ u"
      "cs = u @ SQ # rest" by blast
    have d': "drop i chars = SQ # u @ SQ # rest" using d single u(3) by simp
    have "sim st' (lx\<lparr>frames := [Commands (f\<lparr>cf_word := Some (open_word (cf_word f) @ u), quoted := True\<rparr>)]\<rparr>)
        (f\<lparr>cf_word := Some (open_word (cf_word f) @ u), quoted := True\<rparr>)"
      using sim_word [OF sim nb [of u]] u same(1) by (auto simp: st')
    with lex_quoted_word [OF at d' u(1)] show ?thesis by blast
  next
    case double
    with step obtain w where q: "double_quoted SH (open_word (u_word st)) cs = Some (w, rest)"
      and st': "st' = st\<lparr>u_word := Some w\<rparr>"
      by (auto simp: unattended_step_quotes)
    let ?f = "f\<lparr>cf_word := Some (open_word (cf_word f)), quoted := True\<rparr>"
    let ?lx = "lx\<lparr>frames := [DoubleQuoted, Commands ?f]\<rparr>"
    have at': "at_line (?lx\<lparr>frames := [Commands ?f]\<rparr>) ?f"
      using at_line_update [OF at, of ?f] at by (simp add: at_line_def)
    obtain j where j: "lex_loop chars bodies (Suc i) ?lx =
       lex_loop chars bodies j (?lx\<lparr>frames := [Commands (?f\<lparr>cf_word := Some w\<rparr>)]\<rparr>)"
      "drop j chars = rest" "CHR ''{'' \<notin> set w"
      using double_quoted_lexes [OF q d1 c(2) at'] same by auto
    have "?lx\<lparr>frames := [Commands (?f\<lparr>cf_word := Some w\<rparr>)]\<rparr> = lx\<lparr>frames := [Commands (f\<lparr>cf_word := Some w, quoted := True\<rparr>)]\<rparr>"
      by (cases f) simp
    with sim_word [OF sim j(3), of True] lex_double_quote [OF at, of i chars cs] double d j st'
    show ?thesis by metis
  next
    case blank
    obtain lx' f' where e: "end_word lx = Some lx'"
      "sim (st\<lparr>u_argv := u_argv st @ take_word (u_word st), u_word := None\<rparr>) lx' f'"
      using sim_end_word [OF sim] .
    moreover have "st' = st\<lparr>u_argv := u_argv st @ take_word (u_word st), u_word := None\<rparr>" "rest = cs"
      using step blank by (auto simp: unattended_step_blank)
    ultimately show ?thesis using lex_blank [OF at d blank e(1)] d1 by metis
  next
    case line
    obtain lx' f' where e: "end_pipeline lx = Some lx'"
      "sim \<lparr>u_commands = u_commands st @
            (if u_argv st @ take_word (u_word st) = [] then []
             else [unattended_command (u_argv st @ take_word (u_word st)) (u_gate st)]),
          u_argv = [], u_word = None, u_gate = u_gate st'\<rparr> lx' f'"
      using sim_end_pipeline [OF sim] .
    moreover have "st' = \<lparr>u_commands = u_commands st @
            (if u_argv st @ take_word (u_word st) = [] then []
             else [unattended_command (u_argv st @ take_word (u_word st)) (u_gate st)]),
          u_argv = [], u_word = None, u_gate = u_gate st'\<rparr>" "rest = cs"
      using step line by (auto simp: unattended_step_end split: if_splits)
    ultimately show ?thesis using lex_newline [OF at _ e(1) sim_at_line [OF e(2)]] d line d1 by metis
  next
    case semi
    obtain lx' f' where e: "end_pipeline lx = Some lx'"
      "sim \<lparr>u_commands = u_commands st @
            (if u_argv st @ take_word (u_word st) = [] then []
             else [unattended_command (u_argv st @ take_word (u_word st)) (u_gate st)]),
          u_argv = [], u_word = None, u_gate = Always\<rparr> lx' f'"
      using sim_end_pipeline [OF sim] .
    moreover have "st' = \<lparr>u_commands = u_commands st @
            (if u_argv st @ take_word (u_word st) = [] then []
             else [unattended_command (u_argv st @ take_word (u_word st)) (u_gate st)]),
          u_argv = [], u_word = None, u_gate = Always\<rparr>" "rest = cs"
      using step semi by (auto simp: unattended_step_end split: if_splits)
    ultimately show ?thesis using lex_semicolon [OF at _ e(1)] d semi d1 by metis
  next
    case amp
    with step obtain r where cs: "cs = CHR ''&'' # r" "rest = r"
      and st': "st' = \<lparr>u_commands = u_commands st @
            (if u_argv st @ take_word (u_word st) = [] then []
             else [unattended_command (u_argv st @ take_word (u_word st)) (u_gate st)]),
          u_argv = [], u_word = None, u_gate = PreviousSucceeded\<rparr>"
      by (cases cs) (auto simp: unattended_step_and split: if_splits)
    obtain lx' f' where e: "end_pipeline lx = Some lx'"
      "sim \<lparr>u_commands = u_commands st @
            (if u_argv st @ take_word (u_word st) = [] then []
             else [unattended_command (u_argv st @ take_word (u_word st)) (u_gate st)]),
          u_argv = [], u_word = None, u_gate = PreviousSucceeded\<rparr> lx' f'"
      using sim_end_pipeline [OF sim] .
    have "drop (i + 2) chars = r" using drop_get(3) [of "Suc i" chars "CHR ''&''" r] d1 cs by simp
    with lex_and [OF at _ e(1), of i chars r] d amp cs e(2) st' show ?thesis by metis
  next
    case bar
    with step show ?thesis by (simp add: unattended_step_and)
  next
    case hash
    show ?thesis
    proof (cases "u_word st = None")
      case True
      then have "st' = st" "rest = dropWhile (\<lambda>ch. ch \<noteq> NL) cs"
        using step hash by (simp_all add: unattended_step_hash)
      then show ?thesis
        using lex_comment [OF at, of i chars cs] line_end_drop [OF d] True same(1) hash d sim by auto
    next
      case False
      then have "st' = st\<lparr>u_word := Some (open_word (u_word st) @ [c])\<rparr>" "rest = cs"
        using step hash by (auto simp: unattended_step_hash)
      then show ?thesis
        using lex_plain [OF at d c(1), of bodies] False same(1) hash d1
          sim_plain_word [OF sim nb [of "[c]"]] by auto
    qed
  next
    case plain
    then have "st' = st\<lparr>u_word := Some (open_word (u_word st) @ [c])\<rparr>" "rest = cs"
      using step by (simp_all add: unattended_step_plain)
    then show ?thesis
      using lex_plain [OF at d c(1), of bodies] plain same(1) d1
        sim_plain_word [OF sim nb [of "[c]"]] by auto
  qed
qed

lemma sim_loop:
  assumes "unattended_loop SH st cs = Some st'" "drop i chars = cs"
    and "set cs \<inter> set INDIRECTION = {}" "sim st lx f"
  shows "\<exists>lx' f'. lex_loop chars bodies i lx = Some (Some lx') \<and> sim st' lx' f'"
  using assms
proof (induction SH st cs arbitrary: i lx f rule: unattended_loop.induct)
  case (1 st)
  then show ?case by (auto simp: lex_loop.simps)
next
  case (2 st c cs)
  from "2.prems"(1) obtain st1 rest where step: "unattended_step SH st c cs = Some (st1, rest)"
    and loop: "unattended_loop SH st1 rest = Some st'"
    by (auto split: option.splits)
  obtain j lx1 f1 where j: "lex_loop chars bodies i lx = lex_loop chars bodies j lx1"
    "drop j chars = rest" "sim st1 lx1 f1"
    using sim_step [OF step "2.prems"(2-4)] by blast
  have "set rest \<subseteq> set (c # cs)"
    using unattended_step_collects [OF step] by (metis Un_upper2 set_append)
  with "2.prems"(3) have "set rest \<inter> set INDIRECTION = {}" by auto
  from "2.hyps" [OF step refl loop j(2) this j(3)] j(1) show ?case by simp
qed

lemma sim_start:
  "sim \<lparr>u_commands = [], u_argv = [], u_word = None, u_gate = Always\<rparr> new_lexer (new_frame None False False)"
  using at_line_new_lexer
  by (simp add: sim_def new_frame_def new_lexer_def drops_reserved_def)

text \<open>The end of a line read at the top level.\<close>

lemma sh_commands_at_line:
  assumes "lex_loop command bodies 0 new_lexer = Some (Some lx)" "at_line lx f"
    and "end_pipeline lx = Some lx'" "at_line lx' f'"
  shows "sh_commands_in SH command bodies = Some (Some \<lparr>commands = read_commands lx',
    skipped_heredoc = False, here_strings = [], finished_before_heredoc = 0\<rparr>)"
  using assms by (cases "lx_read lx'") (simp add: sh_commands_in_def at_line_def)

text \<open>The two readers agree on every line the executor accepts.\<close>

lemma lexer_reads_unattended:
  assumes "parse_unattended_in SH command = Some cs"
  shows "\<exists>read. sh_commands_in SH command bodies = Some (Some read) \<and>
     \<not> skipped_heredoc read \<and> here_strings read = [] \<and>
     subseq (commands read) (map argv cs) \<and>
     (\<forall>c \<in> set cs. argv c \<in> set (commands read) \<or> set (argv c) \<subseteq> RESERVED_WORDS)"
proof -
  from assms obtain st where
    ind: "\<not> has_shell_indirection SH command" and
    loop: "unattended_loop SH \<lparr>u_commands = [], u_argv = [], u_word = None, u_gate = Always\<rparr> command
             = Some st"
    and cs: "cs = u_commands st @
           (if u_argv st @ take_word (u_word st) = [] then []
            else [unattended_command (u_argv st @ take_word (u_word st)) (u_gate st)])"
    by (rule parse_unattended_inD)
  have "set command \<inter> set INDIRECTION = {}"
    using ind by (auto simp: has_shell_indirection_def contains_any_iff)
  then obtain lx f where lx: "lex_loop command bodies 0 new_lexer = Some (Some lx)" "sim st lx f"
    using sim_loop [OF loop _ _ sim_start, of 0 command bodies] by auto
  obtain lx' f' where e: "end_pipeline lx = Some lx'"
    "sim \<lparr>u_commands = cs, u_argv = [], u_word = None, u_gate = Always\<rparr> lx' f'"
    using sim_end_pipeline [OF lx(2)] unfolding cs .
  have read: "sh_commands_in SH command bodies = Some (Some \<lparr>commands = read_commands lx',
    skipped_heredoc = False, here_strings = [], finished_before_heredoc = 0\<rparr>)"
    using sh_commands_at_line [OF lx(1) sim_at_line [OF lx(2)] e(1) sim_at_line [OF e(2)]] .
  have dr: "drops_reserved (read_commands lx') (map argv cs)" using e(2) by (simp add: sim_def)
  then have "argv c \<in> set (read_commands lx')" if "c \<in> set cs" "\<not> set (argv c) \<subseteq> RESERVED_WORDS" for c
  proof -
    have "argv c \<in> set (filter (\<lambda>ws. \<not> set ws \<subseteq> RESERVED_WORDS) (map argv cs))" using that by simp
    with dr show ?thesis unfolding drops_reserved_def by (metis filter_is_subset subsetD)
  qed
  with dr read show ?thesis by (auto simp: drops_reserved_def)
qed

text \<open>C1 (refinement). The floor reads what the executor runs. Whenever \<^verbatim>\<open>parse_unattended\<close> accepts
  a line under the \<^verbatim>\<open>sh\<close> grammar, \<^verbatim>\<open>sh_commands\<close> reads it too, without a here-document, and reads
  the same commands with the same words in the same order, except that it may leave out a command
  made of reserved words alone (\<^verbatim>\<open>then\<close>, \<^verbatim>\<open>fi\<close>), which runs nothing.\<close>

theorem sh_commands_reads_unattended:
  assumes "parse_unattended_in SH command = Some cs"
  shows "\<exists>read. sh_commands_in SH command bodies = Some (Some read) \<and>
     \<not> skipped_heredoc read \<and> here_strings read = [] \<and>
     subseq (commands read) (map argv cs) \<and>
     (\<forall>c \<in> set cs. argv c \<in> set (commands read) \<or> set (argv c) \<subseteq> RESERVED_WORDS)"
  using assms by (rule lexer_reads_unattended)

theorem sh_commands_reads_unattended_witness:
  "parse_unattended_in SH ''cargo fmt && git commit -m \"a; b\"'' =
     Some [unattended_command [''cargo'', ''fmt''] Always,
           unattended_command [''git'', ''commit'', ''-m'', ''a; b''] PreviousSucceeded] \<and>
   (\<exists>read. sh_commands_in SH ''cargo fmt && git commit -m \"a; b\"'' Skip = Some (Some read) \<and>
     subseq (commands read) [[''cargo'', ''fmt''], [''git'', ''commit'', ''-m'', ''a; b'']])"
proof -
  have p: "parse_unattended_in SH ''cargo fmt && git commit -m \"a; b\"'' =
     Some [unattended_command [''cargo'', ''fmt''] Always,
           unattended_command [''git'', ''commit'', ''-m'', ''a; b''] PreviousSucceeded]"
    by code_simp
  from sh_commands_reads_unattended [OF p, of Skip] p show ?thesis by auto
qed

section \<open>Quoted words stay words\<close>

lemma at_line_blank:
  assumes "at_line lx f" "cf_word f = None"
  obtains lx' f' where "end_word lx = Some lx'" "at_line lx' f'" "cf_word f' = None"
    "cf_argv f' = cf_argv f" "lx_read lx' = lx_read lx" "command_position f' = command_position f"
proof -
  obtain lx' f' where "end_word lx = Some lx'" "at_line lx' f'" "cf_word f' = None"
    "cf_argv f' = cf_argv f @ take_word (cf_word f)" "lx_read lx' = lx_read lx"
    "command_position f' = ends_in_command_position f"
    using at_line_end_word [OF assms(1)] .
  with assms(2) show thesis by (intro that [of lx' f']) (simp_all add: ends_in_command_position_def)
qed

lemma at_line_finish:
  assumes "at_line lx f" "cf_argv f @ take_word (cf_word f) = av" "av \<noteq> []"
    "\<not> ends_in_command_position f"
  obtains lx' f' where "end_pipeline lx = Some lx'" "at_line lx' f'" "cf_word f' = None"
    "cf_argv f' = []" "read_commands lx' = read_commands lx @ [av]"
proof -
  obtain lx' f' where "end_pipeline lx = Some lx'" "at_line lx' f'" "cf_word f' = None"
    "cf_argv f' = []" "command_position f'" "function_word f' = None"
    "read_commands lx' = read_commands lx @
       (if cf_argv f @ take_word (cf_word f) = [] \<or> ends_in_command_position f then []
        else [cf_argv f @ take_word (cf_word f)])"
    using at_line_end_pipeline [OF assms(1)] .
  with assms(2-4) show thesis by (intro that [of lx' f']) simp_all
qed

lemma lex_reads_command:
  assumes "ws \<noteq> []" "\<forall>w \<in> set ws. SQ \<notin> set w" "at_line lx f" "cf_word f = None"
    and "drop i chars = render_command ws @ rest"
  shows "\<exists>j lx' f'. lex_loop chars bodies i lx = lex_loop chars bodies j lx' \<and>
     drop j chars = rest \<and> at_line lx' f' \<and> cf_argv f' @ take_word (cf_word f') = cf_argv f @ ws \<and>
     \<not> ends_in_command_position f' \<and> read_commands lx' = read_commands lx"
  using assms
proof (induction ws arbitrary: lx f i rule: list_nonempty_induct)
  case (single w)
  let ?f = "f\<lparr>cf_word := Some w, quoted := True\<rparr>" and ?lx = "lx\<lparr>frames := [Commands (f\<lparr>cf_word := Some w, quoted := True\<rparr>)]\<rparr>"
  have d: "drop i chars = SQ # w @ SQ # rest"
    using single by (simp add: render_command_def quote_word_def)
  have "at_line ?lx ?f"
    using single.prems(2) by (intro at_line_update [OF single.prems(2)]) (simp_all add: at_line_def)
  with lex_quoted_word(1) [OF single.prems(2) d, of bodies] lex_quoted_word(2) [OF single.prems(2) d]
    single.prems show ?case
    by (intro exI [of _ "i + length w + 2"] exI [of _ ?lx] exI [of _ ?f])
      (simp add: ends_in_command_position_def word_is_reserved_def)
next
  case (cons w ws)
  obtain v vs where ws: "ws = v # vs" using cons.hyps by (cases ws) auto
  let ?f = "f\<lparr>cf_word := Some w, quoted := True\<rparr>" and ?lx = "lx\<lparr>frames := [Commands (f\<lparr>cf_word := Some w, quoted := True\<rparr>)]\<rparr>"
  have d: "drop i chars = SQ # w @ SQ # SPC # render_command ws @ rest"
    using cons.prems by (simp add: render_command_def quote_word_def ws)
  have at: "at_line ?lx ?f"
    using cons.prems(2) by (intro at_line_update [OF cons.prems(2)]) (simp_all add: at_line_def)
  obtain lx1 f1 where 1: "end_word ?lx = Some lx1" "at_line lx1 f1" "cf_word f1 = None"
    "cf_argv f1 = cf_argv ?f @ take_word (cf_word ?f)" "lx_read lx1 = lx_read ?lx"
    "command_position f1 = ends_in_command_position ?f"
    using at_line_end_word [OF at] .
  let ?j = "i + length w + 2"
  have w: "lex_loop chars bodies i lx = lex_loop chars bodies ?j ?lx"
      "drop ?j chars = SPC # render_command ws @ rest"
    using lex_quoted_word(1) [OF cons.prems(2) d, of bodies] lex_quoted_word(2) [OF cons.prems(2) d]
      cons.prems by simp_all
  have b: "lex_loop chars bodies ?j ?lx = lex_loop chars bodies (Suc ?j) lx1"
    using lex_blank [OF at w(2) _ 1(1)] by simp
  from cons.IH [OF _ 1(2,3) drop_get(3) [OF w(2)]] cons.prems(1) obtain j lx' f' where
    "lex_loop chars bodies (Suc ?j) lx1 = lex_loop chars bodies j lx'" "drop j chars = rest"
    "at_line lx' f'" "cf_argv f' @ take_word (cf_word f') = cf_argv f1 @ ws"
    "\<not> ends_in_command_position f'" "read_commands lx' = read_commands lx1"
    by auto
  with w(1) b 1(4,5) show ?case by (intro exI [of _ j] exI [of _ lx'] exI [of _ f']) simp
qed

lemma lex_reads_rest:
  assumes "\<forall>c \<in> set cs. argv c \<noteq> [] \<and> (\<forall>w \<in> set (argv c). SQ \<notin> set w)"
    and "at_line lx f" "cf_argv f @ take_word (cf_word f) \<noteq> []" "\<not> ends_in_command_position f"
    and "drop i chars = render_rest cs"
  shows "\<exists>lx' f' lx'' f''. lex_loop chars bodies i lx = Some (Some lx') \<and> at_line lx' f' \<and>
     end_pipeline lx' = Some lx'' \<and> at_line lx'' f'' \<and>
     read_commands lx'' = read_commands lx @ (cf_argv f @ take_word (cf_word f)) # map argv cs"
  using assms
proof (induction cs arbitrary: lx f i)
  case Nil
  then have "length chars \<le> i" by simp
  then have l: "lex_loop chars bodies i lx = Some (Some lx)" by (simp add: lex_loop.simps)
  obtain lx'' f'' where "end_pipeline lx = Some lx''" "at_line lx'' f''"
    "read_commands lx'' = read_commands lx @ [cf_argv f @ take_word (cf_word f)]"
    using at_line_finish [OF Nil.prems(2) refl Nil.prems(3,4)] .
  with l Nil.prems(2) show ?case
    by (intro exI [of _ lx] exI [of _ f] exI [of _ lx''] exI [of _ f'']) simp
next
  case (Cons c cs)
  note at = Cons.prems(2)
  let ?av = "cf_argv f @ take_word (cf_word f)"
  have ne: "argv c \<noteq> []" "\<forall>w \<in> set (argv c). SQ \<notin> set w" using Cons.prems(1) by auto
  obtain j lx' f' where sep: "lex_loop chars bodies i lx = lex_loop chars bodies j lx'"
    "drop j chars = render_command (argv c) @ render_rest cs" "at_line lx' f'" "cf_word f' = None"
    "cf_argv f' = []" "read_commands lx' = read_commands lx @ [cf_argv f @ take_word (cf_word f)]"
  proof (cases "run_if c")
    case Always
    with Cons.prems(5) have d: "drop i chars = CHR '';'' # SPC # render_command (argv c) @ render_rest cs" by simp
    note d1 = drop_get(3) [OF d] and d2 = drop_get(3) [OF drop_get(3) [OF d]]
    obtain lx1 f1 where 1: "end_pipeline lx = Some lx1" "at_line lx1 f1" "cf_word f1 = None"
      "cf_argv f1 = []" "read_commands lx1 = read_commands lx @ [?av]"
      using at_line_finish [OF at refl Cons.prems(3,4)] .
    obtain lx2 f2 where 2: "end_word lx1 = Some lx2" "at_line lx2 f2" "cf_word f2 = None"
      "cf_argv f2 = cf_argv f1" "lx_read lx2 = lx_read lx1" "command_position f2 = command_position f1"
      using at_line_blank [OF 1(2,3)] .
    have "lex_loop chars bodies i lx = lex_loop chars bodies (Suc (Suc i)) lx2"
      using lex_semicolon [OF at d 1(1)] lex_blank [OF 1(2) d1 _ 2(1)] by simp
    with 1(4,5) 2(4,5) show thesis by (intro that [OF _ d2 2(2,3)]) simp_all
  next
    case PreviousSucceeded
    with Cons.prems(5) have d: "drop i chars = SPC # CHR ''&'' # CHR ''&'' # SPC # render_command (argv c) @ render_rest cs" by simp
    note d1 = drop_get(3) [OF d]
    have d3: "drop (Suc i + 2) chars = SPC # render_command (argv c) @ render_rest cs"
      using drop_more [of "Suc i" chars "''&&''"] d1 by simp
    note d4 = drop_get(3) [OF d3]
    obtain lx1 f1 where 1: "end_word lx = Some lx1" "at_line lx1 f1" "cf_word f1 = None"
      "cf_argv f1 = ?av" "lx_read lx1 = lx_read lx" "command_position f1 = ends_in_command_position f"
      using at_line_end_word [OF at] .
    have av: "cf_argv f1 @ take_word (cf_word f1) = ?av" "\<not> ends_in_command_position f1"
      using 1(3,4,6) Cons.prems(4) by (simp_all add: ends_in_command_position_def)
    obtain lx2 f2 where 2: "end_pipeline lx1 = Some lx2" "at_line lx2 f2" "cf_word f2 = None"
      "cf_argv f2 = []" "read_commands lx2 = read_commands lx1 @ [?av]"
      using at_line_finish [OF 1(2) av(1) Cons.prems(3) av(2)] .
    obtain lx3 f3 where 3: "end_word lx2 = Some lx3" "at_line lx3 f3" "cf_word f3 = None"
      "cf_argv f3 = cf_argv f2" "lx_read lx3 = lx_read lx2" "command_position f3 = command_position f2"
      using at_line_blank [OF 2(2,3)] .
    have "lex_loop chars bodies i lx = lex_loop chars bodies (Suc (Suc i + 2)) lx3"
      using lex_blank [OF at d _ 1(1)] lex_and [OF 1(2) d1 2(1)] lex_blank [OF 2(2) d3 _ 3(1)] by simp
    with 1(5) 2(4,5) 3(4,5) show thesis by (intro that [OF _ d4 3(2,3)]) simp_all
  qed
  from lex_reads_command [OF ne sep(3,4,2)] obtain k lx7 f7 where
    7: "lex_loop chars bodies j lx' = lex_loop chars bodies k lx7" "drop k chars = render_rest cs"
    "at_line lx7 f7" "cf_argv f7 @ take_word (cf_word f7) = cf_argv f' @ argv c"
    "\<not> ends_in_command_position f7" "read_commands lx7 = read_commands lx'" by blast
  from Cons.IH [OF _ 7(3) _ 7(5,2)] Cons.prems(1) 7(4) ne(1) sep(5) show ?case
    by (auto simp: sep(1,6) 7(1,6))
qed

text \<open>Reading back a line of quoted words.\<close>

lemma lexer_reads_quoted:
  assumes "cs \<noteq> []"
    and "\<forall>c \<in> set cs. argv c \<noteq> [] \<and> (\<forall>w \<in> set (argv c). SQ \<notin> set w)"
  shows "sh_commands_in SH (render_sequence cs) bodies =
     Some (Some \<lparr>commands = map argv cs, skipped_heredoc = False, here_strings = [],
                 finished_before_heredoc = 0\<rparr>)"
proof -
  obtain c rest where cs: "cs = c # rest" using assms(1) by (cases cs) auto
  have c: "argv c \<noteq> []" "\<forall>w \<in> set (argv c). SQ \<notin> set w"
    "\<forall>c \<in> set rest. argv c \<noteq> [] \<and> (\<forall>w \<in> set (argv c). SQ \<notin> set w)"
    using assms(2) by (auto simp: cs)
  let ?line = "render_sequence cs"
  have d: "drop 0 ?line = render_command (argv c) @ render_rest rest" by (simp add: cs)
  have w: "cf_word (new_frame None False False) = None" "cf_argv (new_frame None False False) = []"
    "read_commands new_lexer = []" by (simp_all add: new_frame_def new_lexer_def)
  from lex_reads_command [OF c(1,2) at_line_new_lexer w(1) d, of bodies] obtain j lx f where
    1: "lex_loop ?line bodies 0 new_lexer = lex_loop ?line bodies j lx" "drop j ?line = render_rest rest"
    "at_line lx f" "cf_argv f @ take_word (cf_word f) = argv c"
    "\<not> ends_in_command_position f" "read_commands lx = []"
    by (auto simp: w)
  have "cf_argv f @ take_word (cf_word f) \<noteq> []" unfolding 1(4) by (rule c(1))
  from lex_reads_rest [OF c(3) 1(3) this 1(5,2), of bodies] obtain lx' f' lx'' f'' where
    2: "lex_loop ?line bodies 0 new_lexer = Some (Some lx')" "at_line lx' f'"
    "end_pipeline lx' = Some lx''" "at_line lx'' f''"
    "read_commands lx'' = read_commands lx @ (cf_argv f @ take_word (cf_word f)) # map argv rest"
    unfolding 1(1) by blast
  have "read_commands lx'' = map argv cs" unfolding 2(5) 1(4,6) cs by simp
  with sh_commands_at_line [OF 2(1-4)] show ?thesis by simp
qed

text \<open>C2 (round trip). Write any sequence of commands with every word between single quotes, words that
  may hold anything but a single quote (separators, substitutions, here-documents, newlines), chained
  by \<^verbatim>\<open>;\<close> or \<^verbatim>\<open>&&\<close>. \<^verbatim>\<open>sh_commands\<close> reads exactly those commands with exactly those words: nothing
  inside a quoted word is read as a command, and nothing is fed to one.\<close>

theorem sh_commands_quoted_roundtrip:
  assumes "cs \<noteq> []"
    and "\<forall>c \<in> set cs. argv c \<noteq> [] \<and> (\<forall>w \<in> set (argv c). SQ \<notin> set w)"
  shows "sh_commands_in SH (render_sequence cs) bodies =
     Some (Some \<lparr>commands = map argv cs, skipped_heredoc = False, here_strings = [],
                 finished_before_heredoc = 0\<rparr>)"
  using assms by (rule lexer_reads_quoted)

theorem sh_commands_quoted_roundtrip_witness:
  "sh_commands_in SH
     (render_sequence [unattended_command [''git'', ''commit'', ''-m'', ''$(npm publish); rm -rf /''] Always]) Skip
   = Some (Some \<lparr>commands = [[''git'', ''commit'', ''-m'', ''$(npm publish); rm -rf /'']],
       skipped_heredoc = False, here_strings = [], finished_before_heredoc = 0\<rparr>)"
  by (subst sh_commands_quoted_roundtrip) simp_all

end
