(* ===== verification/Permission_Mode.thy ===== *)
theory Permission_Mode
  imports Prelude "HOL-Library.Word"
begin

text \<open>
  The session permission mode of \<^verbatim>\<open>execution_policy/permission_mode.rs\<close>: the four modes from
  strictest to most permissive, their settings, the ring the user walks with a key, and the byte in
  which the mode is shared between the user interface and the approval gate. The byte is an
  \<^typ>\<open>8 word\<close>; the shared cell is its content.
\<close>

datatype PermissionMode = Default | AcceptEdits | Auto | Yolo

definition mode_cycle :: "PermissionMode \<Rightarrow> PermissionMode" where
  "mode_cycle m = (case m of Default \<Rightarrow> AcceptEdits | AcceptEdits \<Rightarrow> Auto | Auto \<Rightarrow> Yolo | Yolo \<Rightarrow> Default)"

definition mode_as_setting :: "PermissionMode \<Rightarrow> rstr" where
  "mode_as_setting m =
     (case m of Default \<Rightarrow> ''default'' | AcceptEdits \<Rightarrow> ''accept_edits'' | Auto \<Rightarrow> ''auto'' | Yolo \<Rightarrow> ''yolo'')"

text \<open>\<^verbatim>\<open>replace('-', "_")\<close>, which the roles of sub-agents use as well.\<close>

definition dash_to_underscore :: "rstr \<Rightarrow> rstr" where
  "dash_to_underscore s = map (\<lambda>c. if c = CHR ''-'' then CHR ''_'' else c) s"

definition mode_parse :: "rstr \<Rightarrow> PermissionMode option" where
  "mode_parse val =
     (let text = dash_to_underscore (to_ascii_lowercase (trim val)) in
      if text = ''default'' then Some Default
      else if text = ''accept_edits'' \<or> text = ''acceptedits'' \<or> text = ''edits'' then Some AcceptEdits
      else if text = ''auto'' then Some Auto
      else if text = ''yolo'' then Some Yolo
      else None)"

definition to_u8 :: "PermissionMode \<Rightarrow> 8 word" where
  "to_u8 m = (case m of Default \<Rightarrow> 0 | AcceptEdits \<Rightarrow> 1 | Auto \<Rightarrow> 2 | Yolo \<Rightarrow> 3)"

definition from_u8 :: "8 word \<Rightarrow> PermissionMode" where
  "from_u8 val =
     (if val = 1 then AcceptEdits else if val = 2 then Auto else if val = 3 then Yolo else Default)"

section \<open>The shared cell\<close>

type_synonym SharedPermissionMode = "8 word"

definition shared_new :: "PermissionMode \<Rightarrow> SharedPermissionMode" where
  "shared_new m = to_u8 m"

definition shared_get :: "SharedPermissionMode \<Rightarrow> PermissionMode" where
  "shared_get cell = from_u8 cell"

definition shared_set :: "PermissionMode \<Rightarrow> SharedPermissionMode \<Rightarrow> SharedPermissionMode" where
  "shared_set m cell = to_u8 m"

definition shared_cycle :: "SharedPermissionMode \<Rightarrow> SharedPermissionMode \<times> PermissionMode" where
  "shared_cycle cell =
     (let nxt = mode_cycle (shared_get cell) in (shared_set nxt cell, nxt))"

section \<open>The permissiveness ladder\<close>

lemma from_to_u8 [simp]: "from_u8 (to_u8 m) = m"
  by (cases m) (simp_all add: from_u8_def to_u8_def)

text \<open>The order of the rank, so that \<open>\<le>\<close> on modes is the ladder the configuration merge and the
  approval gate compare on.\<close>

instantiation PermissionMode :: linorder
begin

definition less_eq_PermissionMode :: "PermissionMode \<Rightarrow> PermissionMode \<Rightarrow> bool" where
  "less_eq_PermissionMode m n \<longleftrightarrow> to_u8 m \<le> to_u8 n"

definition less_PermissionMode :: "PermissionMode \<Rightarrow> PermissionMode \<Rightarrow> bool" where
  "less_PermissionMode m n \<longleftrightarrow> to_u8 m < to_u8 n"

instance
proof
  fix x y z :: PermissionMode
  show "(x < y) = (x \<le> y \<and> \<not> y \<le> x)" and "x \<le> x"
    by (auto simp: less_eq_PermissionMode_def less_PermissionMode_def)
  show "x \<le> y \<Longrightarrow> y \<le> z \<Longrightarrow> x \<le> z" by (simp add: less_eq_PermissionMode_def)
  show "x \<le> y \<Longrightarrow> y \<le> x \<Longrightarrow> x = y"
    by (metis antisym from_to_u8 less_eq_PermissionMode_def)
  show "x \<le> y \<or> y \<le> x" by (auto simp: less_eq_PermissionMode_def)
qed

end

text \<open>C20 (round trip and bounds). The shared cell keeps the mode: what is set is what the gate reads, a
  key press moves it one stop along the ring of four, and the setting a mode is written as is read
  back as that mode in any letter case and with either spelling of the separator. A byte that no
  mode was written as is read as the strictest mode, so reading never gives more than was written.\<close>

theorem shared_mode_faithful:
  "shared_get (shared_set m cell) = m \<and> shared_get (shared_new m) = m \<and>
   shared_get (fst (shared_cycle cell)) = mode_cycle (shared_get cell) \<and>
   snd (shared_cycle cell) = mode_cycle (shared_get cell) \<and>
   (mode_cycle ^^ 4) m = m \<and>
   mode_parse (mode_as_setting m) = Some m \<and>
   to_u8 (from_u8 cell) \<le> cell \<and> (shared_get cell = Default \<or> to_u8 (shared_get cell) = cell)"
proof -
  have "list_all (\<lambda>m. mode_parse (mode_as_setting m) = Some m) [Default, AcceptEdits, Auto, Yolo]" by code_simp
  then have "mode_parse (mode_as_setting m) = Some m" by (cases m) simp_all
  moreover have "(mode_cycle ^^ 4) m = m" by (cases m) (simp_all add: eval_nat_numeral mode_cycle_def)
  moreover have "to_u8 (from_u8 cell) \<le> cell" "shared_get cell = Default \<or> to_u8 (shared_get cell) = cell"
    by (simp_all add: from_u8_def to_u8_def shared_get_def)
  ultimately show ?thesis
    by (simp add: shared_get_def shared_set_def shared_new_def shared_cycle_def Let_def)
qed

end
