(* ===== verification/Subagent_Roles.thy ===== *)
theory Subagent_Roles
  imports Permission_Mode
begin

text \<open>
  The roles of sub-agents, \<^verbatim>\<open>subagent/roles.rs\<close>: the table of spellings a role may be written in,
  how a name is normalized and looked up, which role writes, and which model a role is pinned to.
  The prompts are text for the model and are not modelled.
\<close>

datatype SubAgentRole = General | Explore | Plan | Review | Implementer | Verifier

datatype SubAgentError = InvalidRole rstr | AgentNotFound rstr | ConcurrencyLimit nat | AgentArguments rstr

definition ROLE_ALIASES :: "(rstr \<times> SubAgentRole) list" where
  "ROLE_ALIASES =
     [(''general'', General), (''worker'', General), (''default'', General), (''general_purpose'', General),
      (''explore'', Explore), (''explorer'', Explore), (''exploration'', Explore),
      (''plan'', Plan), (''planning'', Plan), (''planner'', Plan),
      (''review'', Review), (''reviewer'', Review), (''code_review'', Review),
      (''implementer'', Implementer), (''implement'', Implementer), (''implementation'', Implementer),
      (''builder'', Implementer),
      (''verifier'', Verifier), (''verify'', Verifier), (''verification'', Verifier),
      (''validator'', Verifier), (''tester'', Verifier)]"

definition role_normalize :: "rstr \<Rightarrow> rstr" where
  "role_normalize val = dash_to_underscore (to_ascii_lowercase (trim val))"

definition role_parse :: "rstr \<Rightarrow> SubAgentError + SubAgentRole" where
  "role_parse val =
     (let normalized = role_normalize val in
      case find (\<lambda>(alias, _). alias = normalized) ROLE_ALIASES of
        None \<Rightarrow> Inl (InvalidRole normalized)
      | Some (_, role) \<Rightarrow> Inr role)"

definition role_as_str :: "SubAgentRole \<Rightarrow> rstr" where
  "role_as_str role =
     (case role of
        General \<Rightarrow> ''general'' | Explore \<Rightarrow> ''explore'' | Plan \<Rightarrow> ''plan'' | Review \<Rightarrow> ''review''
      | Implementer \<Rightarrow> ''implementer'' | Verifier \<Rightarrow> ''verifier'')"

definition allows_writes :: "SubAgentRole \<Rightarrow> bool" where
  "allows_writes role \<longleftrightarrow> role = Implementer"

definition DEEPSEEK_FLASH :: rstr where "DEEPSEEK_FLASH = ''deepseek-flash''"

definition model_override :: "SubAgentRole \<Rightarrow> rstr option" where
  "model_override role =
     (case role of
        Explore \<Rightarrow> Some DEEPSEEK_FLASH | Review \<Rightarrow> Some DEEPSEEK_FLASH | Verifier \<Rightarrow> Some DEEPSEEK_FLASH
      | General \<Rightarrow> None | Plan \<Rightarrow> None | Implementer \<Rightarrow> None)"

definition underscore_to_dash :: "rstr \<Rightarrow> rstr" where
  "underscore_to_dash s = map (\<lambda>c. if c = CHR ''_'' then CHR ''-'' else c) s"

text \<open>C21 (round trip). Every spelling of the table is live: written as it stands, in capitals aside, or
  with dashes for underscores, each alias is read as its own role; the name a role is printed as is
  read back as the role; every role has a spelling; and a name is read as a role exactly when its
  normal form is in the table, the error carrying that normal form otherwise. Only the implementer
  may write, and a role that may write keeps the model of its parent.\<close>

theorem role_parse_table:
  "list_all (\<lambda>(alias, role). role_parse alias = Inr role \<and> role_parse (underscore_to_dash alias) = Inr role)
     ROLE_ALIASES \<and>
   role_parse (role_as_str role) = Inr role \<and> role \<in> snd ` set ROLE_ALIASES \<and>
   (role_parse val = Inr role \<longleftrightarrow> map_of ROLE_ALIASES (role_normalize val) = Some role) \<and>
   (role_parse val = Inl e \<longleftrightarrow> e = InvalidRole (role_normalize val) \<and> map_of ROLE_ALIASES (role_normalize val) = None) \<and>
   (allows_writes role \<longleftrightarrow> role_as_str role = ''implementer'') \<and>
   \<not> (allows_writes role \<and> model_override role \<noteq> None)"
proof -
  have find: "find (\<lambda>(a, _). a = k) xs = map_option (Pair k) (map_of xs k)"
    for k :: rstr and xs :: "(rstr \<times> SubAgentRole) list" by (induction xs) auto
  have "role_parse val = (case map_of ROLE_ALIASES (role_normalize val) of
      None \<Rightarrow> Inl (InvalidRole (role_normalize val)) | Some r \<Rightarrow> Inr r)"
    by (auto simp: role_parse_def Let_def find split: option.splits)
  then have "(role_parse val = Inr role \<longleftrightarrow> map_of ROLE_ALIASES (role_normalize val) = Some role) \<and>
     (role_parse val = Inl e \<longleftrightarrow> e = InvalidRole (role_normalize val) \<and> map_of ROLE_ALIASES (role_normalize val) = None)"
    by (auto split: option.splits)
  moreover have "list_all (\<lambda>(alias, role). role_parse alias = Inr role \<and> role_parse (underscore_to_dash alias) = Inr role)
     ROLE_ALIASES" by code_simp
  moreover have "list_all (\<lambda>role. role_parse (role_as_str role) = Inr role)
     [General, Explore, Plan, Review, Implementer, Verifier]" by code_simp
  then have "role_parse (role_as_str role) = Inr role" by (cases role) simp_all
  moreover have "role \<in> snd ` set ROLE_ALIASES" by (cases role) (simp_all add: ROLE_ALIASES_def)
  moreover have "allows_writes role \<longleftrightarrow> role_as_str role = ''implementer''"
    by (cases role) (simp_all add: allows_writes_def role_as_str_def)
  moreover have "\<not> (allows_writes role \<and> model_override role \<noteq> None)"
    by (simp add: allows_writes_def model_override_def)
  ultimately show ?thesis by blast
qed

end
