(* ===== verification/Brace_Expansion.thy ===== *)
theory Brace_Expansion
  imports Shell_Grammar
begin

text \<open>
  Brace expansion as the deny floor reads it, \<^verbatim>\<open>brace_expanded_line\<close> and the functions below it in
  \<^verbatim>\<open>execution_policy/shell_deny.rs\<close>: the group a shell would expand first, its alternatives (comma
  lists, and ranges over \<^verbatim>\<open>i64\<close> and ASCII), and the expander with its three budgets.

  Offsets into a word count characters where the source counts bytes; every offset is that of an
  ASCII brace, comma or quote, so the slices are the same. Lengths that a budget is compared with
  are counted in UTF-8 bytes, as in the source. The \<^verbatim>\<open>saturating_add\<close>s are additions: the sums stay
  below \<^verbatim>\<open>MAX_BRACE_SCAN_BYTES\<close> plus the length of one word.
\<close>

section \<open>Numbers as text\<close>

definition i64_min :: int where "i64_min = - (2 ^ 63)"
definition i64_max :: int where "i64_max = 2 ^ 63 - 1"

definition digit_value :: "char \<Rightarrow> int" where
  "digit_value c = of_char c - 48"

definition decimal_value :: "rstr \<Rightarrow> int" where
  "decimal_value s = foldl (\<lambda>n c. 10 * n + digit_value c) 0 s"

text \<open>\<^verbatim>\<open>str::parse::<i64>\<close>: an optional sign and at least one ASCII digit, within the range of the
  type.\<close>

definition parse_i64 :: "rstr \<Rightarrow> int option" where
  "parse_i64 s =
     (let (neg, digits) = (case s of
            [] \<Rightarrow> (False, [])
          | c # cs \<Rightarrow> if c = CHR ''-'' then (True, cs)
                      else if c = CHR ''+'' then (False, cs) else (False, s));
          v = (if neg then - decimal_value digits else decimal_value digits)
      in if digits = [] \<or> \<not> list_all is_ascii_digit digits then None
         else if i64_min \<le> v \<and> v \<le> i64_max then Some v else None)"

fun nat_digits :: "nat \<Rightarrow> rstr" where
  "nat_digits n =
     (if n < 10 then [char_of (48 + n)] else nat_digits (n div 10) @ [char_of (48 + n mod 10)])"

declare nat_digits.simps [simp del]

definition i64_to_string :: "int \<Rightarrow> rstr" where
  "i64_to_string v = (if v < 0 then CHR ''-'' # nat_digits (nat (- v)) else nat_digits (nat v))"

definition i64_checked_add :: "int \<Rightarrow> int \<Rightarrow> int option" where
  "i64_checked_add a b = (if i64_min \<le> a + b \<and> a + b \<le> i64_max then Some (a + b) else None)"

section \<open>Ranges\<close>

definition MAX_BRACE_WORDS :: nat where "MAX_BRACE_WORDS = 256"
definition MAX_BRACE_LINE_BYTES :: nat where "MAX_BRACE_LINE_BYTES = 2 ^ 18"
definition MAX_BRACE_SCAN_BYTES :: nat where "MAX_BRACE_SCAN_BYTES = 2 ^ 24"

text \<open>The two walks. \<open>room\<close> is how many words may still be pushed: the loop of the source runs
  while at most \<^verbatim>\<open>MAX_BRACE_WORDS\<close> words are there. In \<open>char_walk\<close> a \<^verbatim>\<open>u8\<close> is a number below 256.\<close>

fun int_walk :: "nat \<Rightarrow> int \<Rightarrow> int \<Rightarrow> int \<Rightarrow> rstr list" where
  "int_walk 0 value end step = []"
| "int_walk (Suc room) value end step =
     (if (if step > 0 then value \<le> end else value \<ge> end) then
        i64_to_string value #
        (case i64_checked_add value step of
           None \<Rightarrow> []
         | Some next \<Rightarrow> int_walk room next end step)
      else [])"

function char_walk :: "nat \<Rightarrow> nat \<Rightarrow> nat \<Rightarrow> bool \<Rightarrow> rstr list" where
  "char_walk value to step ascending =
     [char_of value] #
     (if step = 0 then []
      else if ascending then
        (if value + step \<le> to \<and> value + step < 256 then char_walk (value + step) to step ascending else [])
      else (if step \<le> value \<and> value - step \<ge> to then char_walk (value - step) to step ascending else []))"
  by pat_completeness auto
termination
  by (relation "measure (\<lambda>(value, to, step, ascending). if ascending then 256 - value else value)") auto

declare char_walk.simps [simp del]

definition char_range :: "nat \<Rightarrow> nat \<Rightarrow> nat \<Rightarrow> rstr list" where
  "char_range from to step =
     (let s = max step 1 in
      if s > 255 then [[char_of from]]
      else char_walk from to s (from \<le> to))"

text \<open>The two kinds of range, once the step's magnitude is known.\<close>

definition range_words :: "rstr \<Rightarrow> rstr \<Rightarrow> int \<Rightarrow> rstr list option" where
  "range_words from to magnitude =
     (case (parse_i64 from, parse_i64 to) of
        (Some start, Some stop) \<Rightarrow>
          Some (int_walk (MAX_BRACE_WORDS + 1) start stop
                  (if start \<le> stop then magnitude else - magnitude))
      | (None, None) \<Rightarrow>
          (case (from, to) of
             ([a], [b]) \<Rightarrow>
               if of_char a < (128 :: nat) \<and> of_char b < (128 :: nat)
               then Some (char_range (of_char a) (of_char b) (nat magnitude))
               else None
           | _ \<Rightarrow> None)
      | _ \<Rightarrow> None)"

definition range_step :: "rstr option \<Rightarrow> int option" where
  "range_step part =
     (case part of
        Some text \<Rightarrow> (case parse_i64 text of None \<Rightarrow> None | Some v \<Rightarrow> Some (if v = 0 then 1 else v))
      | None \<Rightarrow> Some 1)"

definition range_alternatives :: "rstr \<Rightarrow> rstr list option" where
  "range_alternatives body =
     (let parts = split_pair CHR ''.'' CHR ''.'' body in
      case parts of
        from # to # extra \<Rightarrow>
          (case range_step (get_at extra 0) of
             None \<Rightarrow> None
           | Some step \<Rightarrow>
               if length extra > 1 \<or> from = [] \<or> to = [] then None
               else range_words from to (if step = i64_min then 1 else max \<bar>step\<bar> 1))
      | _ \<Rightarrow> None)"

section \<open>The first group\<close>

record BraceFrame =
  br_open :: nat
  br_commas :: "nat list"
  br_nested :: bool

record brace_scan =
  bs_stack :: "BraceFrame list"
  bs_best :: "(nat \<times> nat \<times> nat list) option"
  bs_quote :: "char option"

definition slice :: "rstr \<Rightarrow> nat \<Rightarrow> nat \<Rightarrow> rstr" where
  "slice word a b = take (b - a) (drop a word)"

text \<open>One character of the scan; the stack has its innermost group first.\<close>

definition brace_step :: "rstr \<Rightarrow> nat \<Rightarrow> char \<Rightarrow> brace_scan \<Rightarrow> brace_scan" where
  "brace_step word index c sc =
     (case bs_quote sc of
        Some active \<Rightarrow> if c = active then sc\<lparr>bs_quote := None\<rparr> else sc
      | None \<Rightarrow>
          if c = SQ \<or> c = DQ then sc\<lparr>bs_quote := Some c\<rparr>
          else if c = CHR ''{'' then
            (let fresh = \<lparr>br_open = index, br_commas = [], br_nested = False\<rparr> in
             sc\<lparr>bs_stack := fresh # (case bs_stack sc of
                                      [] \<Rightarrow> []
                                    | parent # fs \<Rightarrow> parent\<lparr>br_nested := True\<rparr> # fs)\<rparr>)
          else if c = CHR '','' then
            (case bs_stack sc of
               [] \<Rightarrow> sc
             | f # fs \<Rightarrow> sc\<lparr>bs_stack := f\<lparr>br_commas := br_commas f @ [index]\<rparr> # fs\<rparr>)
          else if c = CHR ''}'' then
            (case bs_stack sc of
               [] \<Rightarrow> sc
             | f # fs \<Rightarrow>
                 (let sc' = sc\<lparr>bs_stack := fs\<rparr> in
                  if (case bs_best sc of None \<Rightarrow> False | Some (winner, _, _) \<Rightarrow> winner < br_open f) then sc'
                  else if br_commas f \<noteq> [] \<or>
                          (\<not> br_nested f \<and>
                           range_alternatives (slice word (br_open f + 1) index) \<noteq> None)
                  then sc'\<lparr>bs_best := Some (br_open f, index, br_commas f)\<rparr>
                  else sc'))
          else sc)"

fun brace_scan_from :: "rstr \<Rightarrow> nat \<Rightarrow> rstr \<Rightarrow> brace_scan \<Rightarrow> brace_scan" where
  "brace_scan_from word index [] sc = sc"
| "brace_scan_from word index (c # cs) sc = brace_scan_from word (index + 1) cs (brace_step word index c sc)"

fun comma_parts :: "rstr \<Rightarrow> nat \<Rightarrow> nat list \<Rightarrow> nat \<Rightarrow> rstr list" where
  "comma_parts word start [] close = [slice word start close]"
| "comma_parts word start (comma # commas) close =
     slice word start comma # comma_parts word (comma + 1) commas close"

definition build_alternatives :: "rstr \<Rightarrow> nat \<Rightarrow> nat \<Rightarrow> nat list \<Rightarrow> rstr list option" where
  "build_alternatives word open close commas =
     (if commas = [] then range_alternatives (slice word (open + 1) close)
      else Some (comma_parts word (open + 1) commas close))"

definition split_first_brace_group :: "rstr \<Rightarrow> (rstr \<times> rstr list \<times> rstr) option" where
  "split_first_brace_group word =
     (case bs_best (brace_scan_from word 0 word \<lparr>bs_stack = [], bs_best = None, bs_quote = None\<rparr>) of
        None \<Rightarrow> None
      | Some (open, close, commas) \<Rightarrow>
          (case build_alternatives word open close commas of
             None \<Rightarrow> None
           | Some alternatives \<Rightarrow> Some (take open word, alternatives, drop (close + 1) word)))"

section \<open>The expander\<close>

fun first_expansion_passes :: "nat \<Rightarrow> rstr \<Rightarrow> rstr" where
  "first_expansion_passes 0 current = current"
| "first_expansion_passes (Suc n) current =
     (case split_first_brace_group current of
        Some (pre, first # _, suf) \<Rightarrow> first_expansion_passes n (pre @ first @ suf)
      | _ \<Rightarrow> current)"

definition first_expansion :: "rstr \<Rightarrow> rstr" where
  "first_expansion word = first_expansion_passes MAX_BRACE_WORDS word"

lemma split_first_brace_group_nonempty:
  "split_first_brace_group word = Some r \<Longrightarrow> word \<noteq> []"
  by (auto simp: split_first_brace_group_def)

lemma utf8_len_pos: "w \<noteq> [] \<Longrightarrow> utf8_len w > 0"
  by (cases w) (auto simp: utf8_len_def)

text \<open>The loop of \<^verbatim>\<open>expand_word\<close>, with \<open>pending\<close> as a stack whose top is its head: the finished words,
  or \<open>None\<close> where the source returns the first expansion alone.\<close>

function expand_loop ::
  "nat \<Rightarrow> rstr list \<Rightarrow> rstr list \<Rightarrow> nat \<Rightarrow> nat \<Rightarrow> rstr list option" where
  "expand_loop budget finished [] bytes scanned = Some finished"
| "expand_loop budget finished (candidate # pending) bytes scanned =
     (let scanned' = scanned + utf8_len candidate in
      if scanned' > MAX_BRACE_SCAN_BYTES then None
      else case split_first_brace_group candidate of
             None \<Rightarrow>
               (let bytes' = bytes + (utf8_len candidate + 1);
                    finished' = finished @ [candidate]
                in if length finished' + length pending > MAX_BRACE_WORDS \<or> bytes' > budget then None
                   else expand_loop budget finished' pending bytes' scanned')
           | Some (pre, alternatives, suf) \<Rightarrow>
               if length finished + length pending + length alternatives > MAX_BRACE_WORDS then None
               else expand_loop budget finished
                      (map (\<lambda>a. pre @ a @ suf) alternatives @ pending) bytes scanned')"
  by pat_completeness auto
termination
proof (relation "inv_image (less_than <*lex*> less_than)
    (\<lambda>(budget, finished, pending, bytes, scanned). (MAX_BRACE_SCAN_BYTES - scanned, length pending))",
    goal_cases)
  case (3 budget finished candidate pending bytes scanned scanned' x2 pre y alternatives suf)
  then have "utf8_len candidate > 0" using split_first_brace_group_nonempty utf8_len_pos by blast
  with 3 show ?case by auto
qed auto

declare expand_loop.simps(2) [simp del]

definition expand_word :: "rstr \<Rightarrow> nat \<Rightarrow> rstr list" where
  "expand_word word line_budget =
     (if CHR ''{'' \<notin> set word then [word]
      else case expand_loop line_budget [] [word] 0 0 of
             None \<Rightarrow> [first_expansion word]
           | Some finished \<Rightarrow> finished)"

definition ends_a_word :: "char \<Rightarrow> bool" where
  "ends_a_word ch \<longleftrightarrow> is_whitespace ch \<or> ch \<in> set SEGMENT_SEPARATORS \<or> ch = CHR ''('' \<or> ch = CHR '')''"

lemma length_dropWhile_less: "xs \<noteq> [] \<Longrightarrow> P (hd xs) \<Longrightarrow> length (dropWhile P xs) < length xs"
  by (cases xs) (simp_all add: length_dropWhile_le le_imp_less_Suc)

function expand_line :: "rstr \<Rightarrow> rstr \<Rightarrow> rstr" where
  "expand_line out rest0 =
     (if rest0 = [] then out
      else
        (let gap = takeWhile ends_a_word rest0;
             rest = dropWhile ends_a_word rest0;
             out1 = out @ gap
         in if rest = [] then out1
            else
              (let word = takeWhile (\<lambda>c. \<not> ends_a_word c) rest;
                   tail = dropWhile (\<lambda>c. \<not> ends_a_word c) rest;
                   line_budget = MAX_BRACE_LINE_BYTES - utf8_len out1
               in expand_line (out1 @ join_with [SPC] (expand_word word line_budget)) tail)))"
  by pat_completeness auto
termination
proof (relation "measure (\<lambda>(out, rest). length rest)", goal_cases)
  case (2 out rest0 gap rest out1 word tail line_budget)
  have "\<not> ends_a_word (hd rest)" using 2 hd_dropWhile by blast
  then have "length tail < length rest" using 2 length_dropWhile_less by metis
  also have "length rest \<le> length rest0" using 2 by (simp add: length_dropWhile_le)
  finally show ?case by simp
qed simp

declare expand_line.simps [simp del]

definition brace_expanded_line :: "rstr \<Rightarrow> rstr" where
  "brace_expanded_line command = expand_line [] command"

section \<open>Every group has an alternative\<close>

lemma char_walk_nonempty: "char_walk value to step ascending \<noteq> []"
  by (simp add: char_walk.simps)

lemma char_range_nonempty: "char_range from to step \<noteq> []"
  by (simp add: char_range_def Let_def char_walk_nonempty)

lemma range_words_nonempty: "range_words from to m = Some alts \<Longrightarrow> m \<ge> 1 \<Longrightarrow> alts \<noteq> []"
  by (auto simp: range_words_def char_range_nonempty split: option.splits list.splits if_split_asm)

lemma range_alternatives_nonempty: "range_alternatives body = Some alts \<Longrightarrow> alts \<noteq> []"
  unfolding range_alternatives_def Let_def
  by (auto split: list.splits option.splits if_split_asm dest!: range_words_nonempty)

lemma comma_parts_nonempty: "comma_parts word start commas close \<noteq> []"
  by (cases commas) auto

lemma split_first_brace_group_alternatives:
  "split_first_brace_group word = Some (pre, alts, suf) \<Longrightarrow> alts \<noteq> []"
  by (auto simp: split_first_brace_group_def build_alternatives_def comma_parts_nonempty
      dest: range_alternatives_nonempty split: option.splits if_splits prod.splits)

section \<open>The expansion of a word\<close>

text \<open>The words a word expands to, without budgets: a word with no group stands for itself, a word
  with a group for the expansions of its alternatives in order.\<close>

inductive expands_to :: "rstr \<Rightarrow> rstr list \<Rightarrow> bool" where
  expands_leaf: "split_first_brace_group word = None \<Longrightarrow> expands_to word [word]"
| expands_group: "split_first_brace_group word = Some (pre, alts, suf) \<Longrightarrow>
     list_all2 expands_to (map (\<lambda>a. pre @ a @ suf) alts) wss \<Longrightarrow> expands_to word (concat wss)"

lemma expand_loop_expands:
  "expand_loop budget finished pending bytes scanned = Some words \<Longrightarrow>
   \<exists>wss. list_all2 expands_to pending wss \<and> words = finished @ concat wss"
proof (induction budget finished pending bytes scanned rule: expand_loop.induct)
  case (1 budget finished bytes scanned)
  then show ?case by simp
next
  case (2 budget finished candidate pending bytes scanned)
  let ?scanned = "scanned + utf8_len candidate"
  have room: "\<not> ?scanned > MAX_BRACE_SCAN_BYTES"
    using "2.prems" by (auto simp: expand_loop.simps Let_def split: if_splits)
  show ?case
  proof (cases "split_first_brace_group candidate")
    case None
    with "2.prems" room obtain
      rec: "expand_loop budget (finished @ [candidate]) pending (bytes + (utf8_len candidate + 1)) ?scanned = Some words"
      and ok: "\<not> (length (finished @ [candidate]) + length pending > MAX_BRACE_WORDS \<or>
           bytes + (utf8_len candidate + 1) > budget)"
      by (auto simp: expand_loop.simps Let_def split: if_splits)
    from "2.IH"(1) [OF refl room None refl refl ok rec] obtain wss where
      "list_all2 expands_to pending wss" "words = (finished @ [candidate]) @ concat wss" by blast
    with None show ?thesis
      by (intro exI [of _ "[candidate] # wss"]) (simp add: expands_leaf)
  next
    case (Some g)
    obtain pre alts suf where g: "g = (pre, alts, suf)" by (cases g)
    with "2.prems" room Some obtain
      rec: "expand_loop budget finished (map (\<lambda>a. pre @ a @ suf) alts @ pending) bytes ?scanned = Some words"
      and ok: "\<not> length finished + length pending + length alts > MAX_BRACE_WORDS"
      by (auto simp: expand_loop.simps Let_def split: if_splits)
    from "2.IH"(2) [OF refl room Some g [symmetric] refl ok rec] obtain wss where
      wss: "list_all2 expands_to (map (\<lambda>a. pre @ a @ suf) alts @ pending) wss"
      "words = finished @ concat wss" by blast
    then obtain ws1 ws2 where "wss = ws1 @ ws2" "list_all2 expands_to (map (\<lambda>a. pre @ a @ suf) alts) ws1"
      "list_all2 expands_to pending ws2" by (auto simp: list_all2_append1)
    with Some g wss(2) show ?thesis
      by (intro exI [of _ "concat ws1 # ws2"]) (simp add: expands_group)
  qed
qed

lemma expand_loop_bounds:
  "expand_loop budget finished pending bytes scanned = Some words \<Longrightarrow>
   length finished + length pending \<le> MAX_BRACE_WORDS \<Longrightarrow>
   length finished + length pending \<le> length words \<and> length words \<le> MAX_BRACE_WORDS"
proof (induction budget finished pending bytes scanned rule: expand_loop.induct)
  case (2 budget finished candidate pending bytes scanned)
  let ?scanned = "scanned + utf8_len candidate"
  have room: "\<not> ?scanned > MAX_BRACE_SCAN_BYTES"
    using "2.prems" by (auto simp: expand_loop.simps Let_def split: if_splits)
  show ?case
  proof (cases "split_first_brace_group candidate")
    case None
    with "2.prems" room obtain
      rec: "expand_loop budget (finished @ [candidate]) pending (bytes + (utf8_len candidate + 1)) ?scanned = Some words"
      and ok: "\<not> (length (finished @ [candidate]) + length pending > MAX_BRACE_WORDS \<or>
           bytes + (utf8_len candidate + 1) > budget)"
      by (auto simp: expand_loop.simps Let_def split: if_splits)
    from "2.IH"(1) [OF refl room None refl refl ok rec] ok show ?thesis by simp
  next
    case (Some g)
    obtain pre alts suf where g: "g = (pre, alts, suf)" by (cases g)
    with "2.prems" room Some obtain
      rec: "expand_loop budget finished (map (\<lambda>a. pre @ a @ suf) alts @ pending) bytes ?scanned = Some words"
      and ok: "\<not> length finished + length pending + length alts > MAX_BRACE_WORDS"
      by (auto simp: expand_loop.simps Let_def split: if_splits)
    have "alts \<noteq> []" using split_first_brace_group_alternatives Some g by blast
    then have "length alts \<ge> 1" by (cases alts) simp_all
    with "2.IH"(2) [OF refl room Some g [symmetric] refl ok rec] ok show ?thesis by simp
  qed
qed simp

text \<open>The first word of the expansion.\<close>

lemma expands_to_first:
  assumes "expands_to word ws" "split_first_brace_group (first_expansion_passes n word) = None"
  shows "ws \<noteq> [] \<and> hd ws = first_expansion_passes n word"
  using assms
proof (induction n arbitrary: word ws)
  case 0
  then show ?case by (auto elim: expands_to.cases)
next
  case (Suc n)
  from Suc.prems(1) show ?case
  proof cases
    case expands_leaf
    then show ?thesis by simp
  next
    case (expands_group pre alts suf wss)
    obtain a as where alts: "alts = a # as"
      using split_first_brace_group_alternatives [OF expands_group(2)] by (cases alts) auto
    then obtain w1 rest where w: "wss = w1 # rest" "expands_to (pre @ a @ suf) w1"
      using expands_group(3) by (auto simp: list_all2_Cons1)
    have eq: "first_expansion_passes (Suc n) word = first_expansion_passes n (pre @ a @ suf)"
      using expands_group(2) alts by simp
    have "w1 \<noteq> [] \<and> hd w1 = first_expansion_passes n (pre @ a @ suf)"
      using Suc.IH [OF w(2)] Suc.prems(2) unfolding eq by blast
    with expands_group(1) w(1) eq show ?thesis by simp
  qed
qed

text \<open>A word, or a line, with no brace is left as it is.\<close>

lemma brace_scan_no_brace:
  "CHR ''{'' \<notin> set cs \<Longrightarrow> bs_stack sc = [] \<Longrightarrow> bs_best sc = None \<Longrightarrow>
   bs_best (brace_scan_from word i cs sc) = None"
proof (induction cs arbitrary: i sc)
  case (Cons c cs)
  have "bs_stack (brace_step word i c sc) = [] \<and> bs_best (brace_step word i c sc) = None"
    using Cons.prems by (auto simp: brace_step_def split: option.splits)
  with Cons show ?case by simp
qed simp

lemma split_first_brace_group_no_brace:
  "CHR ''{'' \<notin> set word \<Longrightarrow> split_first_brace_group word = None"
  by (simp add: split_first_brace_group_def brace_scan_no_brace)

lemma expand_line_no_brace: "CHR ''{'' \<notin> set rest \<Longrightarrow> expand_line out rest = out @ rest"
proof (induction out rest rule: expand_line.induct)
  case (1 out rest0)
  let ?rest = "dropWhile ends_a_word rest0"
  let ?word = "takeWhile (\<lambda>c. \<not> ends_a_word c) ?rest" and ?tail = "dropWhile (\<lambda>c. \<not> ends_a_word c) ?rest"
  let ?out = "out @ takeWhile ends_a_word rest0"
  show ?case
  proof (cases "?rest = []")
    case True
    then have "takeWhile ends_a_word rest0 = rest0"
      by (metis append_Nil2 takeWhile_dropWhile_id)
    with True show ?thesis by (subst expand_line.simps) (simp add: Let_def)
  next
    case False
    then have ne: "rest0 \<noteq> []" by auto
    have word: "CHR ''{'' \<notin> set ?word" "CHR ''{'' \<notin> set ?tail"
      using "1.prems" by (auto dest!: set_takeWhileD set_dropWhileD)
    let ?b = "MAX_BRACE_LINE_BYTES - utf8_len ?out"
    have e: "join_with [SPC] (expand_word ?word ?b) = ?word"
      unfolding expand_word_def if_P [OF word(1)] by simp
    have "expand_line out rest0 = expand_line (?out @ join_with [SPC] (expand_word ?word ?b)) ?tail"
      unfolding expand_line.simps [of out rest0] Let_def if_not_P [OF ne] if_not_P [OF False] ..
    also have "\<dots> = (?out @ join_with [SPC] (expand_word ?word ?b)) @ ?tail"
      by (rule "1.IH" [OF ne refl refl refl False refl refl refl word(2)])
    also have "\<dots> = out @ rest0" unfolding e by simp
    finally show ?thesis .
  qed
qed

lemma brace_expanded_line_no_brace: "CHR ''{'' \<notin> set line \<Longrightarrow> brace_expanded_line line = line"
  by (simp add: brace_expanded_line_def expand_line_no_brace)

section \<open>Properties\<close>

text \<open>C11 (equivalence and bounds). The budgeted expander agrees with the reference expansion: it returns
  exactly the words the word expands to, or, past a budget, the first expansion alone; and it
  always returns between one and \<^verbatim>\<open>MAX_BRACE_WORDS\<close> words.\<close>

theorem expand_word_reference:
  "(expands_to word (expand_word word budget) \<or> expand_word word budget = [first_expansion word]) \<and>
   1 \<le> length (expand_word word budget) \<and> length (expand_word word budget) \<le> MAX_BRACE_WORDS"
proof (cases "CHR ''{'' \<notin> set word")
  case True
  then show ?thesis
    using expands_leaf [OF split_first_brace_group_no_brace]
    by (simp add: expand_word_def MAX_BRACE_WORDS_def)
next
  case False
  show ?thesis
  proof (cases "expand_loop budget [] [word] 0 0")
    case None
    with False show ?thesis by (simp add: expand_word_def MAX_BRACE_WORDS_def)
  next
    case (Some words)
    from expand_loop_expands [OF Some] have "expands_to word words"
      by (auto simp: list_all2_Cons1)
    moreover have "1 \<le> length words \<and> length words \<le> MAX_BRACE_WORDS"
      using expand_loop_bounds [OF Some] by (simp add: MAX_BRACE_WORDS_def)
    ultimately show ?thesis using False Some by (simp add: expand_word_def)
  qed
qed

text \<open>The program word survives every budget: whatever the budget, the first word of an
  expansion is the first expansion of the word, the one word an over-budget word is read as, as long
  as \<^verbatim>\<open>MAX_BRACE_WORDS\<close> passes are enough to replace all its groups.\<close>

theorem expand_word_first:
  assumes "split_first_brace_group (first_expansion word) = None"
  shows "hd (expand_word word budget) = first_expansion word"
proof (cases "CHR ''{'' \<in> set word \<and> expand_loop budget [] [word] 0 0 = None")
  case True
  then show ?thesis by (simp add: expand_word_def)
next
  case False
  have "expands_to word (expand_word word budget)"
  proof (cases "CHR ''{'' \<in> set word")
    case True
    with False obtain words where w: "expand_loop budget [] [word] 0 0 = Some words" by auto
    with True expand_loop_expands [OF w] show ?thesis by (auto simp: expand_word_def list_all2_Cons1)
  next
    case False
    then show ?thesis using expands_leaf [OF split_first_brace_group_no_brace] by (simp add: expand_word_def)
  qed
  from expands_to_first [OF this] assms show ?thesis by (simp add: first_expansion_def)
qed

theorem expand_word_first_witness:
  "hd (expand_word ''r{m..n}{,x}'' 1000) = ''rm'' \<and> hd (expand_word ''r{m..n}{,x}'' 2) = ''rm''"
proof -
  have f: "first_expansion ''r{m..n}{,x}'' = ''rm''" "split_first_brace_group ''rm'' = None" by code_simp+
  then have "split_first_brace_group (first_expansion ''r{m..n}{,x}'') = None" by simp
  from expand_word_first [OF this] f(1) show ?thesis by simp
qed

end
