(* ===== verification/Shell_Deny.thy ===== *)
theory Shell_Deny
  imports Unattended Brace_Expansion
begin

text \<open>
  The deny floor, \<^verbatim>\<open>execution_policy/shell_deny.rs\<close>: how a segment is read past assignments, wrappers
  and grouping, the rules that refuse a segment, a fetch piped into a shell, the readings of a line
  an interpreter could take, the advisory notes, and the bounded file edits that accept-edits mode
  approves. The texts of the rules and remedies are presentation; a rule is a constructor of
  \<open>DenyRule\<close>, and a reason says whether it has a remedy.
\<close>

section \<open>Reading a segment\<close>

datatype DenyRule =
    Fork_bomb | Privilege_escalation | Recursive_force_remove | Recursive_remove_root_or_home
  | Dd_to_device | Disk_formatting_partitioning | Disk_formatting | World_writable_chmod
  | Recursive_delete_system_path | Registry_deletion | Ownership_takeover | Fetch_piped_to_shell

record DenyReason =
  rule :: DenyRule
  has_remedy :: bool

definition new_reason :: "DenyRule \<Rightarrow> DenyReason" where
  "new_reason r = \<lparr>rule = r, has_remedy = False\<rparr>"

definition with_remedy :: "DenyRule \<Rightarrow> DenyReason" where
  "with_remedy r = \<lparr>rule = r, has_remedy = True\<rparr>"

definition is_identifier :: "rstr \<Rightarrow> bool" where
  "is_identifier name \<longleftrightarrow>
     (case name of
        [] \<Rightarrow> False
      | c # cs \<Rightarrow> (c = CHR ''_'' \<or> is_ascii_alphabetic c) \<and>
                  list_all (\<lambda>c. c = CHR ''_'' \<or> is_ascii_alphanumeric c) cs)"

definition is_env_assignment :: "rstr \<Rightarrow> bool" where
  "is_env_assignment token \<longleftrightarrow>
     (case split_once CHR ''='' token of
        None \<Rightarrow> False
      | Some (name0, _) \<Rightarrow>
          (let name = (case strip_suffix ''+'' name0 of Some n \<Rightarrow> n | None \<Rightarrow> name0) in
           case split_once CHR ''['' name of
             Some (bas, subscript) \<Rightarrow> ends_with '']'' subscript \<and> is_identifier bas
           | None \<Rightarrow> is_identifier name))"

record SegmentWords =
  program :: rstr
  args :: "rstr list"

fun words_of :: "bool \<Rightarrow> rstr list \<Rightarrow> SegmentWords option" where
  "words_of win [] = None"
| "words_of win (cleaned # tokens) =
     (if is_env_assignment cleaned then words_of win tokens
      else
        (let word = trim_end_matches (\<lambda>c. c = CHR '')'')
                      (trim_start_matches (\<lambda>c. c = CHR ''('' \<or> c = CHR ''{'') cleaned)
         in if word = [] then words_of win tokens
            else
              (let bas = basename_lower win word
               in if bas \<in> set PREFIX_WORDS then words_of win tokens
                  else Some \<lparr>program = bas, args = tokens\<rparr>)))"

definition segment_words :: "bool \<Rightarrow> rstr \<Rightarrow> SegmentWords option" where
  "segment_words win segment = words_of win (map (clean_token win) (split_whitespace segment))"

definition program_of :: "bool \<Rightarrow> rstr \<Rightarrow> rstr option" where
  "program_of win segment = map_option program (segment_words win segment)"

definition program_and_args :: "bool \<Rightarrow> rstr \<Rightarrow> (rstr \<times> rstr list) option" where
  "program_and_args win segment = map_option (\<lambda>w. (program w, args w)) (segment_words win segment)"

definition program_and_args_of_argv :: "bool \<Rightarrow> rstr list \<Rightarrow> (rstr \<times> rstr list) option" where
  "program_and_args_of_argv win av = map_option (\<lambda>w. (program w, args w)) (words_of win av)"

definition args_of :: "bool \<Rightarrow> rstr \<Rightarrow> rstr list" where
  "args_of win segment = (case segment_words win segment of None \<Rightarrow> [] | Some w \<Rightarrow> args w)"

section \<open>Flags and targets\<close>

definition has_flag :: "rstr list \<Rightarrow> char \<Rightarrow> rstr list \<Rightarrow> bool" where
  "has_flag as short longs \<longleftrightarrow>
     list_ex (\<lambda>arg.
       case strip_prefix ''--'' arg of
         Some long \<Rightarrow> hd (split_on (\<lambda>c. c = CHR ''='') long) \<in> set longs
       | None \<Rightarrow> (case strip_prefix ''-'' arg of
                    Some bundle \<Rightarrow> short \<in> set bundle
                  | None \<Rightarrow> False)) as"

definition has_dos_switch :: "rstr list \<Rightarrow> char \<Rightarrow> bool" where
  "has_dos_switch as switch \<longleftrightarrow>
     list_ex (\<lambda>arg.
       case strip_prefix ''/'' arg of
         Some rest \<Rightarrow>
           list_ex (\<lambda>piece. to_ascii_lowercase (hd (split_on (\<lambda>c. c = CHR '':'') piece))
                              = to_ascii_lowercase [switch])
             (split_on (\<lambda>c. c = CHR ''/'') rest)
       | None \<Rightarrow> False) as"

definition WINDOWS_SYSTEM_ROOTS :: "rstr list" where
  "WINDOWS_SYSTEM_ROOTS =
     map ((#) BSL) [''windows'', ''system32'', ''program files'', ''progra~1'', ''progra~2'', ''programdata'']"

definition is_drive_spec :: "rstr \<Rightarrow> bool" where
  "is_drive_spec token \<longleftrightarrow>
     (case trim_end_matches (\<lambda>c. c = BSL \<or> c = CHR ''/'') (trim token) of
        [a, b] \<Rightarrow> is_ascii_alphabetic a \<and> b = CHR '':''
      | _ \<Rightarrow> False)"

definition is_volume_or_device_path :: "rstr \<Rightarrow> bool" where
  "is_volume_or_device_path token \<longleftrightarrow>
     (let lower = to_ascii_lowercase (trim token) in
      starts_with ([BSL, BSL, CHR ''?'', BSL] @ ''volume{'') lower \<or>
      starts_with [BSL, BSL, CHR ''.'', BSL] lower \<or>
      (case strip_prefix [BSL, BSL, CHR ''?'', BSL] lower of
         Some rest \<Rightarrow> is_drive_spec rest
       | None \<Rightarrow> False))"

definition dos_target_is_catastrophic :: "rstr \<Rightarrow> bool" where
  "dos_target_is_catastrophic target0 \<longleftrightarrow>
     (let target = trim target0 in
      if target = [] then False
      else if length (filter (\<lambda>c. c = CHR ''%'') target) \<ge> 2 then True
      else
        (let normalized = map (\<lambda>c. if c = CHR ''/'' then BSL else c) (to_ascii_lowercase target) in
         if list_ex (\<lambda>part. part = ''.'' \<or> part = ''..'') (split_on (\<lambda>c. c = BSL) normalized) then True
         else if normalized = [BSL] then True
         else
           (let after_drive = (if drive_letter normalized then drop 2 normalized else normalized) in
            if after_drive = [] \<or> after_drive = [BSL] then True
            else
              (let trimmed = trim_end_matches (\<lambda>c. c = CHR ''.'' \<or> c = SPC)
                               (trim_end_matches (\<lambda>c. c = BSL) after_drive) in
               if list_all (\<lambda>c. c = CHR ''*'' \<or> c = CHR ''?'' \<or> c = CHR ''.'')
                    (trim_start_matches (\<lambda>c. c = BSL) trimmed) then True
               else list_ex (\<lambda>root. trimmed = root \<or> starts_with (root @ [BSL]) trimmed)
                      WINDOWS_SYSTEM_ROOTS))))"

definition dos_delete_target_is_catastrophic :: "rstr list \<Rightarrow> bool" where
  "dos_delete_target_is_catastrophic as \<longleftrightarrow>
     list_ex dos_target_is_catastrophic (filter (\<lambda>arg. \<not> starts_with ''/'' arg) as)"

definition names_root_or_home :: "rstr \<Rightarrow> bool" where
  "names_root_or_home arg \<longleftrightarrow>
     arg \<in> set [''/'', ''/*'', ''/.'', ''~'', ''~/'', ''~/*'', ''$HOME'', ''$HOME/'', ''$HOME/*'',
                ''${HOME}'', ''${HOME}/'', ''${HOME}/*'']"

definition chmod_world_writable :: "rstr \<Rightarrow> bool" where
  "chmod_world_writable arg \<longleftrightarrow>
     (if starts_with ''-'' arg then False
      else if arg \<noteq> [] \<and> list_all is_ascii_digit arg then
        last arg \<in> set ''2367''
      else
        list_ex (\<lambda>clause.
          case position (\<lambda>c. c = CHR ''+'' \<or> c = CHR ''='') clause of
            None \<Rightarrow> False
          | Some op \<Rightarrow>
              (let scope = take op clause; perms = drop op clause in
               (scope = [] \<or> CHR ''a'' \<in> set scope \<or> CHR ''o'' \<in> set scope) \<and>
               CHR ''w'' \<in> set (drop 1 perms)))
          (split_on (\<lambda>c. c = CHR '','') arg))"

section \<open>The rules\<close>

definition deny_program :: "rstr \<Rightarrow> rstr list \<Rightarrow> DenyReason option" where
  "deny_program prog as =
     (if prog \<in> set [''sudo'', ''su'', ''doas''] then Some (with_remedy Privilege_escalation)
      else if prog = ''rm'' then
        (let recursive = (has_flag as CHR ''r'' [''recursive''] \<or> has_flag as CHR ''R'' [''recursive'']);
             force = has_flag as CHR ''f'' [''force'']
         in if recursive \<and> force then Some (with_remedy Recursive_force_remove)
            else if recursive \<and> list_ex names_root_or_home as
            then Some (new_reason Recursive_remove_root_or_home)
            else None)
      else if prog = ''dd'' then
        (if list_ex (\<lambda>arg. case strip_prefix ''of='' arg of
                            Some target \<Rightarrow> starts_with ''/dev/'' target | None \<Rightarrow> False) as
         then Some (new_reason Dd_to_device) else None)
      else if prog \<in> set [''mkfs'', ''fdisk'', ''parted''] then Some (new_reason Disk_formatting_partitioning)
      else if starts_with ''mkfs.'' prog then Some (new_reason Disk_formatting)
      else if prog = ''chmod'' then
        (if list_ex chmod_world_writable as then Some (with_remedy World_writable_chmod) else None)
      else if prog \<in> set [''del'', ''erase'', ''rd'', ''rmdir''] then
        (if has_dos_switch as CHR ''s'' \<and> dos_delete_target_is_catastrophic as
         then Some (new_reason Recursive_delete_system_path) else None)
      else if prog = ''diskpart'' then Some (new_reason Disk_formatting_partitioning)
      else if prog = ''format'' then
        (if list_ex (\<lambda>arg. is_drive_spec arg \<or> is_volume_or_device_path arg) as
         then Some (new_reason Disk_formatting_partitioning) else None)
      else if prog = ''reg'' then
        (if (case as of [] \<Rightarrow> False | s # _ \<Rightarrow> to_ascii_lowercase s = ''delete'')
         then Some (new_reason Registry_deletion) else None)
      else if prog = ''takeown'' then Some (new_reason Ownership_takeover)
      else None)"

definition deny_segment :: "bool \<Rightarrow> rstr \<Rightarrow> DenyReason option" where
  "deny_segment win segment =
     (let squished = filter (\<lambda>c. \<not> is_whitespace c) segment in
      if contains_str '':():{'' squished \<or> contains_str '':(){'' squished \<or> contains_str '':|:&'' squished
      then Some (new_reason Fork_bomb)
      else case program_of win segment of
             None \<Rightarrow> None
           | Some prog \<Rightarrow> deny_program prog (args_of win segment))"

definition fetch_piped_into_shell :: "bool \<Rightarrow> rstr \<Rightarrow> DenyReason option" where
  "fetch_piped_into_shell win branch =
     (let parts = split_on (\<lambda>c. c = CHR ''|'') branch;
          producer = (\<lambda>part. case segments part of [] \<Rightarrow> None | ss \<Rightarrow> program_of win (last ss));
          consumer = (\<lambda>part. case segments part of [] \<Rightarrow> None | s # _ \<Rightarrow> program_of win s);
          fetches = (\<lambda>part. producer part \<in> set [Some ''curl'', Some ''wget'', Some ''fetch'']);
          is_shell = (\<lambda>part. case consumer part of None \<Rightarrow> False | Some p \<Rightarrow> p \<in> set INTERPRETERS)
      in case position fetches parts of
           None \<Rightarrow> None
         | Some first_fetch \<Rightarrow>
             if list_ex is_shell (drop (first_fetch + 1) parts)
             then Some (with_remedy Fetch_piped_to_shell) else None)"

definition deny_pipe_to_shell :: "bool \<Rightarrow> rstr \<Rightarrow> DenyReason option" where
  "deny_pipe_to_shell win command =
     (if CHR ''|'' \<notin> set command then None
      else find_map (fetch_piped_into_shell win) (split_pair CHR ''|'' CHR ''|'' command))"

definition deny_line :: "bool \<Rightarrow> rstr \<Rightarrow> DenyReason option" where
  "deny_line win command =
     (case deny_pipe_to_shell win command of
        Some reason \<Rightarrow> Some reason
      | None \<Rightarrow> find_map (deny_segment win) (segments command))"

section \<open>The readings of a line\<close>

definition push_reading :: "rstr list \<Rightarrow> rstr \<Rightarrow> rstr list" where
  "push_reading readings reading = (if reading \<in> set readings then readings else readings @ [reading])"

definition push_rewritten :: "rstr option \<Rightarrow> rstr list \<Rightarrow> rstr list" where
  "push_rewritten rewritten readings =
     (case rewritten of None \<Rightarrow> readings | Some r \<Rightarrow> push_reading readings r)"

definition push_expanded :: "rstr list \<Rightarrow> rstr \<Rightarrow> rstr list" where
  "push_expanded readings seed =
     (if CHR ''{'' \<in> set seed then push_reading readings (brace_expanded_line seed) else readings)"

definition seed_readings :: "Grammar \<Rightarrow> rstr \<Rightarrow> rstr list" where
  "seed_readings g line =
     (let readings = push_rewritten (joined_continuations g line) [line]
      in foldl push_expanded readings readings)"

text \<open>One round of the worklist: both rewritings of one reading.\<close>

definition reread :: "Grammar \<Rightarrow> rstr list \<Rightarrow> rstr \<Rightarrow> rstr list" where
  "reread g readings reading =
     push_rewritten (blanks_for_outside_flags g reading)
       (push_rewritten (blanks_for g reading) readings)"

text \<open>The contract of a delimiter rewriting: it only turns characters into blanks. It is all the
  worklist needs to end.\<close>

locale delimiter_rewriting =
  fixes normalize :: "Grammar \<Rightarrow> rstr \<Rightarrow> rstr option"
  assumes only_blanks: "normalize g s = Some t \<Longrightarrow> blanking s t"
begin

lemma stays_in_universe:
  "normalize g s = Some t \<Longrightarrow> blanking r s \<Longrightarrow> blanking r t"
  using only_blanks blanking_trans by blast

lemma keeps_length: "normalize g s = Some t \<Longrightarrow> length t = length s"
  using only_blanks blanking_length by blast

end

interpretation blanks: delimiter_rewriting blanks_for
  by unfold_locales (rule blanks_for_blanking)

interpretation outside_flags: delimiter_rewriting blanks_for_outside_flags
  by unfold_locales (rule blanks_for_outside_flags_blanking)

text \<open>Everything the rewritings could make of some readings.\<close>

definition universe :: "rstr list \<Rightarrow> rstr set" where
  "universe readings = {t. \<exists>r \<in> set readings. blanking r t}"

lemma finite_universe: "finite (universe readings)"
proof -
  have "universe readings = (\<Union>r \<in> set readings. {t. blanking r t})" by (auto simp: universe_def)
  then show ?thesis by (simp add: finite_blankings)
qed

lemma readings_in_universe: "set readings \<subseteq> universe readings"
  unfolding universe_def using blanking_refl by blast

lemma push_rewritten_cases:
  assumes "\<And>t. rewritten = Some t \<Longrightarrow> t \<in> universe readings"
  shows "push_rewritten rewritten readings = readings \<or>
    (\<exists>t. t \<in> universe readings - set readings \<and> push_rewritten rewritten readings = readings @ [t])"
  using assms by (auto simp: push_rewritten_def push_reading_def split: option.splits)

lemma universe_push: "t \<in> universe readings \<Longrightarrow> universe (readings @ [t]) = universe readings"
  unfolding universe_def using blanking_trans by (auto intro: blanking_refl)

lemma reread_grows:
  assumes "r \<in> set readings"
  shows "\<exists>new. reread g readings r = readings @ new \<and> set new \<subseteq> universe readings \<and>
     set new \<inter> set readings = {}"
proof -
  have r: "r \<in> universe readings" using assms readings_in_universe by blast
  have u1: "t \<in> universe readings" if "blanks_for g r = Some t" for t
    using blanks.only_blanks [OF that] assms by (auto simp: universe_def)
  have u2: "t \<in> universe readings" if "blanks_for_outside_flags g r = Some t" for t
    using outside_flags.only_blanks [OF that] assms by (auto simp: universe_def)
  define mid where "mid = push_rewritten (blanks_for g r) readings"
  have mid: "mid = readings \<or> (\<exists>t. t \<in> universe readings - set readings \<and> mid = readings @ [t])"
    unfolding mid_def by (rule push_rewritten_cases) (rule u1)
  then have same: "universe mid = universe readings" using universe_push by auto
  have "push_rewritten (blanks_for_outside_flags g r) mid = mid \<or>
    (\<exists>t. t \<in> universe mid - set mid \<and> push_rewritten (blanks_for_outside_flags g r) mid = mid @ [t])"
    using u2 same by (intro push_rewritten_cases) auto
  with mid same show ?thesis unfolding reread_def mid_def [symmetric] by auto
qed

lemma card_universe_less:
  assumes "new \<noteq> []" "set new \<subseteq> universe readings" "set new \<inter> set readings = {}"
  shows "card (universe (readings @ new) - set (readings @ new)) < card (universe readings - set readings)"
proof -
  have "universe (readings @ new) \<subseteq> universe readings"
  proof
    fix x assume "x \<in> universe (readings @ new)"
    then obtain r where r: "r \<in> set readings \<union> set new" "blanking r x" by (auto simp: universe_def)
    with assms(2) readings_in_universe have "r \<in> universe readings" by blast
    with r(2) show "x \<in> universe readings" unfolding universe_def using blanking_trans by blast
  qed
  moreover have "universe readings \<subseteq> universe (readings @ new)" by (auto simp: universe_def)
  ultimately have "universe (readings @ new) = universe readings" by blast
  then have "universe (readings @ new) - set (readings @ new) = (universe readings - set readings) - set new"
    by auto
  moreover have "(universe readings - set readings) - set new \<subset> universe readings - set readings"
    using assms by (cases new) auto
  ultimately show ?thesis using finite_universe by (metis finite_Diff psubset_card_mono)
qed

function close_readings :: "Grammar \<Rightarrow> rstr list \<Rightarrow> nat \<Rightarrow> rstr list" where
  "close_readings g readings nx =
     (if nx < length readings
      then close_readings g (reread g readings (readings ! nx)) (nx + 1)
      else readings)"
  by pat_completeness auto
termination
proof (relation "inv_image (less_than <*lex*> less_than)
    (\<lambda>(g, readings, nx). (card (universe readings - set readings), length readings - nx))", goal_cases)
  case (2 g readings nx)
  obtain new where new: "reread g readings (readings ! nx) = readings @ new"
    "set new \<subseteq> universe readings" "set new \<inter> set readings = {}"
    using reread_grows [OF nth_mem [OF 2]] by blast
  show ?case
  proof (cases "new = []")
    case True
    with new 2 show ?thesis by simp
  next
    case False
    with card_universe_less [OF False new(2,3)] new(1) show ?thesis by simp
  qed
qed auto

declare close_readings.simps [simp del]

definition readings_of_in :: "Grammar \<Rightarrow> rstr \<Rightarrow> rstr list" where
  "readings_of_in g line = close_readings g (seed_readings g line) 0"

definition readings_of :: "bool \<Rightarrow> rstr \<Rightarrow> rstr list" where
  "readings_of win line = readings_of_in (HOST win) line"

definition builtin_deny :: "bool \<Rightarrow> rstr \<Rightarrow> DenyReason option" where
  "builtin_deny win command = find_map (deny_line win) (readings_of win command)"

section \<open>Advisory notes\<close>

datatype TextId =
    SafetyRedirectReason | SafetyRedirectSuggestion | SafetyPathOutsideReason
  | SafetyPathOutsideSuggestion | SafetyNetworkReason | SafetyNetworkSuggestion
  | SafetyDeleteReason | SafetyDeleteSuggestion | SafetyChmodReason | SafetyChmodSuggestion
  | SafetyGitRemoteReason | SafetyGitRemoteSuggestion | SafetyInstallReason | SafetyInstallSuggestion

record SafetyNote =
  sn_reason :: TextId
  sn_suggestion :: TextId

definition add_note :: "TextId \<Rightarrow> TextId \<Rightarrow> SafetyNote list \<Rightarrow> SafetyNote list" where
  "add_note reason suggestion notes =
     (if list_ex (\<lambda>existing. sn_reason existing = reason) notes then notes
      else notes @ [\<lparr>sn_reason = reason, sn_suggestion = suggestion\<rparr>])"

definition note_segment :: "bool \<Rightarrow> rstr \<Rightarrow> SafetyNote list \<Rightarrow> SafetyNote list" where
  "note_segment win segment notes =
     (case program_of win segment of
        None \<Rightarrow> notes
      | Some prog \<Rightarrow>
          (let as = args_of win segment;
               positional = map to_ascii_lowercase (filter (\<lambda>token. \<not> starts_with ''-'' token) as);
               notes1 = (if list_ex operand_leaves_cwd as
                         then add_note SafetyPathOutsideReason SafetyPathOutsideSuggestion notes else notes);
               subcommand = get_at positional 0
           in if prog \<in> set [''curl'', ''wget'', ''nc'', ''ncat'', ''ssh'', ''scp'', ''rsync'', ''ftp'', ''telnet'']
              then add_note SafetyNetworkReason SafetyNetworkSuggestion notes1
              else if prog \<in> set [''rm'', ''rmdir'', ''unlink'', ''shred'', ''trash'', ''del'', ''erase'', ''rd'']
              then add_note SafetyDeleteReason SafetyDeleteSuggestion notes1
              else if prog \<in> set [''chmod'', ''chown'']
              then add_note SafetyChmodReason SafetyChmodSuggestion notes1
              else if prog = ''git'' \<and>
                subcommand \<in> set (map Some [''push'', ''pull'', ''fetch'', ''clone'', ''remote''])
              then add_note SafetyGitRemoteReason SafetyGitRemoteSuggestion notes1
              else if prog \<in> set [''npm'', ''pnpm'', ''yarn'', ''pip'', ''pip3'', ''gem'', ''go'', ''cargo''] \<and>
                subcommand \<in> set (map Some [''install'', ''ci'', ''add'', ''get''])
              then add_note SafetyInstallReason SafetyInstallSuggestion notes1
              else notes1))"

definition note_segments_of :: "bool \<Rightarrow> rstr \<Rightarrow> SafetyNote list \<Rightarrow> SafetyNote list" where
  "note_segments_of win command notes = foldl (\<lambda>ns segment. note_segment win segment ns) notes (segments command)"

definition safety_notes :: "bool \<Rightarrow> rstr \<Rightarrow> SafetyNote list" where
  "safety_notes win command =
     foldl (\<lambda>notes reading.
         note_segments_of win reading
           (if CHR ''>'' \<in> set reading then add_note SafetyRedirectReason SafetyRedirectSuggestion notes else notes))
       [] (readings_of win command)"

section \<open>Bounded file edits\<close>

definition FS_EDIT :: "rstr list" where
  "FS_EDIT = [''mkdir'', ''touch'', ''mv'', ''cp'', ''rm'', ''rmdir'']"

definition bounded_fs_edit :: "bool \<Rightarrow> rstr list \<Rightarrow> bool" where
  "bounded_fs_edit win av \<longleftrightarrow>
     (case av of
        [] \<Rightarrow> False
      | prog0 # as \<Rightarrow>
          if CHR ''/'' \<in> set prog0 \<or> BSL \<in> set prog0 then False
          else
            (let prog = basename_lower win prog0 in
             if prog \<notin> set FS_EDIT then False
             else if list_ex operand_leaves_cwd as then False
             else \<not> (prog = ''rm'' \<and>
                     (has_flag as CHR ''r'' [''recursive''] \<or> has_flag as CHR ''R'' [''recursive'']))))"

definition is_workspace_fs_edit :: "bool \<Rightarrow> rstr \<Rightarrow> bool" where
  "is_workspace_fs_edit win command \<longleftrightarrow>
     (case parse_unattended win command of
        None \<Rightarrow> False
      | Some cmds \<Rightarrow> list_all (\<lambda>parsed. bounded_fs_edit win (argv parsed)) cmds)"

section \<open>Facts about the readings\<close>

lemma set_push_rewritten:
  "set (push_rewritten rewritten readings) = set readings \<union> set_option rewritten"
  by (auto simp: push_rewritten_def push_reading_def split: option.splits)

lemma distinct_push_rewritten: "distinct readings \<Longrightarrow> distinct (push_rewritten rewritten readings)"
  by (auto simp: push_rewritten_def push_reading_def split: option.splits)

lemma reread_prefix: "\<exists>new. reread g readings r = readings @ new"
  by (auto simp: reread_def push_rewritten_def push_reading_def split: option.splits)

lemma close_readings_prefix: "\<exists>new. close_readings g readings nx = readings @ new"
proof (induction g readings nx rule: close_readings.induct)
  case (1 g readings nx)
  show ?case
  proof (cases "nx < length readings")
    case True
    then show ?thesis
      using "1.IH" reread_prefix [of g readings "readings ! nx"]
      by (subst close_readings.simps) fastforce
  next
    case False
    then show ?thesis by (simp add: close_readings.simps)
  qed
qed

text \<open>A set of readings is closed up to \<open>n\<close> when both rewritings of the first \<open>n\<close> are in it.\<close>

definition closed_upto :: "Grammar \<Rightarrow> rstr list \<Rightarrow> nat \<Rightarrow> bool" where
  "closed_upto g readings n \<longleftrightarrow>
     (\<forall>i < n. i < length readings \<longrightarrow>
        set_option (blanks_for g (readings ! i)) \<subseteq> set readings \<and>
        set_option (blanks_for_outside_flags g (readings ! i)) \<subseteq> set readings)"

lemma closed_upto_reread:
  assumes "closed_upto g readings n" "n < length readings"
  shows "closed_upto g (reread g readings (readings ! n)) (Suc n)"
proof -
  obtain new where new: "reread g readings (readings ! n) = readings @ new" using reread_prefix by blast
  have both: "set_option (blanks_for g (readings ! n)) \<subseteq> set (reread g readings (readings ! n))"
    "set_option (blanks_for_outside_flags g (readings ! n)) \<subseteq> set (reread g readings (readings ! n))"
    "set readings \<subseteq> set (reread g readings (readings ! n))"
    by (auto simp: reread_def set_push_rewritten)
  show ?thesis
    unfolding closed_upto_def
  proof (intro allI impI)
    fix i assume i: "i < Suc n" "i < length (reread g readings (readings ! n))"
    have nth: "reread g readings (readings ! n) ! i = readings ! i" if "i < length readings" for i
      using that by (simp add: new nth_append)
    show "set_option (blanks_for g (reread g readings (readings ! n) ! i)) \<subseteq> set (reread g readings (readings ! n)) \<and>
      set_option (blanks_for_outside_flags g (reread g readings (readings ! n) ! i)) \<subseteq> set (reread g readings (readings ! n))"
    proof (cases "i = n")
      case True
      with both assms(2) nth show ?thesis by simp
    next
      case False
      with i(1) assms(2) have "i < n" "i < length readings" by simp_all
      with assms(1) both(3) nth show ?thesis unfolding closed_upto_def by auto
    qed
  qed
qed

lemma close_readings_closed:
  "closed_upto g readings nx \<Longrightarrow> closed_upto g (close_readings g readings nx) (length (close_readings g readings nx))"
proof (induction g readings nx rule: close_readings.induct)
  case (1 g readings nx)
  show ?case
  proof (cases "nx < length readings")
    case True
    with "1.IH" [OF True] closed_upto_reread [OF "1.prems" True] show ?thesis
      by (subst (1 2) close_readings.simps) simp
  next
    case False
    with "1.prems" show ?thesis by (simp add: close_readings.simps closed_upto_def)
  qed
qed

lemma close_readings_distinct: "distinct readings \<Longrightarrow> distinct (close_readings g readings nx)"
proof (induction g readings nx rule: close_readings.induct)
  case (1 g readings nx)
  have "distinct (reread g readings r)" for r
    using "1.prems" by (simp add: reread_def distinct_push_rewritten)
  with 1 show ?case by (subst close_readings.simps) simp
qed

lemma push_expanded_prefix: "\<exists>new. push_expanded rs seed = rs @ new"
  by (auto simp: push_expanded_def push_reading_def)

lemma seed_fold_prefix: "\<exists>new. foldl push_expanded rs seeds = rs @ new"
proof (induction seeds arbitrary: rs)
  case (Cons s seeds)
  then show ?case using push_expanded_prefix [of rs s] by (metis append.assoc foldl_Cons)
qed simp

lemma seed_fold_distinct: "distinct rs \<Longrightarrow> distinct (foldl push_expanded rs seeds)"
  by (induction seeds arbitrary: rs) (auto simp: push_expanded_def push_reading_def)

lemma seed_fold_expansions:
  "seed \<in> set seeds \<Longrightarrow> CHR ''{'' \<in> set seed \<Longrightarrow>
   brace_expanded_line seed \<in> set (foldl push_expanded rs seeds)"
proof (induction seeds arbitrary: rs)
  case (Cons s seeds)
  show ?case
  proof (cases "s = seed")
    case True
    obtain new where "foldl push_expanded (push_expanded rs seed) seeds = push_expanded rs seed @ new"
      using seed_fold_prefix by blast
    moreover have "brace_expanded_line seed \<in> set (push_expanded rs seed)"
      using Cons.prems(2) by (simp add: push_expanded_def push_reading_def)
    ultimately show ?thesis using True by simp
  next
    case False
    with Cons show ?thesis by simp
  qed
qed simp

lemma seed_readings_head: "\<exists>new. seed_readings g line = line # new"
proof -
  have "\<exists>new. push_rewritten (joined_continuations g line) [line] = line # new"
    by (auto simp: push_rewritten_def push_reading_def split: option.splits)
  then show ?thesis unfolding seed_readings_def Let_def
    by (metis append_Cons seed_fold_prefix)
qed

lemma readings_of_in_head: "\<exists>new. readings_of_in g line = line # new"
  unfolding readings_of_in_def using seed_readings_head close_readings_prefix by (metis append_Cons)

lemma seed_readings_subset: "set (seed_readings g line) \<subseteq> set (readings_of_in g line)"
  unfolding readings_of_in_def using close_readings_prefix [of g "seed_readings g line" 0] by auto

section \<open>Properties\<close>

text \<open>The readings of a line: each is there once, the line as written is the first, the line
  with its continuations joined is there, so is the brace expansion of either, and the set is closed
  under both delimiter rewritings, whatever their order; and the enumeration ends.\<close>

theorem readings_closed:
  "distinct (readings_of_in g line) \<and> hd (readings_of_in g line) = line \<and>
   set_option (joined_continuations g line) \<subseteq> set (readings_of_in g line) \<and>
   brace_expanded_line line \<in> set (readings_of_in g line) \<and>
   brace_expanded_line ` set_option (joined_continuations g line) \<subseteq> set (readings_of_in g line) \<and>
   (\<Union>r \<in> set (readings_of_in g line). set_option (blanks_for g r)) \<subseteq> set (readings_of_in g line) \<and>
   (\<Union>r \<in> set (readings_of_in g line). set_option (blanks_for_outside_flags g r)) \<subseteq> set (readings_of_in g line)"
proof -
  let ?R = "readings_of_in g line" and ?S = "push_rewritten (joined_continuations g line) [line]"
  have seeds: "set ?S = insert line (set_option (joined_continuations g line))"
    by (simp add: set_push_rewritten)
  have expanded: "brace_expanded_line s \<in> set ?R" if "s \<in> set ?S" for s
  proof (cases "CHR ''{'' \<in> set s")
    case True
    with seed_fold_expansions [OF that True] seed_readings_subset show ?thesis
      unfolding seed_readings_def Let_def by blast
  next
    case False
    have "s \<in> set (seed_readings g line)"
      using that seed_fold_prefix [of ?S ?S] unfolding seed_readings_def Let_def by auto
    with False seed_readings_subset show ?thesis by (auto simp: brace_expanded_line_no_brace)
  qed
  have "set ?S \<subseteq> set ?R"
    using seed_fold_prefix [of ?S ?S] seed_readings_subset unfolding seed_readings_def Let_def by fastforce
  moreover have "distinct ?R"
    unfolding readings_of_in_def seed_readings_def Let_def
    by (intro close_readings_distinct seed_fold_distinct distinct_push_rewritten) simp
  moreover have "closed_upto g ?R (length ?R)"
    unfolding readings_of_in_def by (rule close_readings_closed) (simp add: closed_upto_def)
  then have "set_option (blanks_for g r) \<subseteq> set ?R \<and> set_option (blanks_for_outside_flags g r) \<subseteq> set ?R"
    if "r \<in> set ?R" for r
    using that by (auto simp: closed_upto_def in_set_conv_nth)
  moreover have "hd ?R = line" using readings_of_in_head [of g line] by auto
  ultimately show ?thesis using seeds expanded by auto
qed

text \<open>The line as written is a reading, so what its segments are refused for refuses the line.\<close>

lemma builtin_deny_segment:
  assumes "s \<in> set (segments command)" "deny_segment win s \<noteq> None"
  shows "builtin_deny win command \<noteq> None"
proof -
  obtain new where r: "readings_of win command = command # new"
    using readings_of_in_head unfolding readings_of_def by blast
  have "deny_line win command \<noteq> None"
    using find_map_not_None [of s "segments command" "deny_segment win"] assms
    by (simp add: deny_line_def split: option.splits)
  then show ?thesis by (auto simp: builtin_deny_def r split: option.splits)
qed

text \<open>Nothing around a dangerous command hides it: a segment that is refused on its own
  refuses every line it stands in between two command separators, whatever stands before and after,
  quotes, comments and other commands included.\<close>

theorem deny_embedded:
  assumes "segments s = [s]" "deny_segment win s \<noteq> None"
    and "p \<in> set SEGMENT_SEPARATORS" "q \<in> set SEGMENT_SEPARATORS"
  shows "builtin_deny win (before @ p # s @ q # after) \<noteq> None"
  using segments_embedded [OF assms(1,3,4), of before after] assms(2)
  by (intro builtin_deny_segment [of s]) simp_all

theorem deny_embedded_witness:
  "builtin_deny False (''echo hi # '' @ CHR '';'' # ''sudo ls'' @ CHR ''|'' # ''cat'') \<noteq> None"
proof (rule deny_embedded)
  show "segments ''sudo ls'' = [''sudo ls'']" "deny_segment False ''sudo ls'' \<noteq> None"
    "CHR '';'' \<in> set SEGMENT_SEPARATORS" "CHR ''|'' \<in> set SEGMENT_SEPARATORS" by code_simp+
qed

text \<open>The words the floor reads past: assignments, grouping, and wrappers by their basename.\<close>

definition read_past :: "bool \<Rightarrow> rstr \<Rightarrow> bool" where
  "read_past win token \<longleftrightarrow>
     is_env_assignment token \<or>
     (let word = trim_end_matches (\<lambda>c. c = CHR '')'')
                   (trim_start_matches (\<lambda>c. c = CHR ''('' \<or> c = CHR ''{'') token)
      in word = [] \<or> basename_lower win word \<in> set PREFIX_WORDS)"

lemma words_of_read_past: "\<forall>t \<in> set ps. read_past win t \<Longrightarrow> words_of win (ps @ ws) = words_of win ws"
  by (induction ps) (auto simp: read_past_def Let_def)

lemma segment_join:
  assumes "ws \<noteq> []" "\<forall>w \<in> set ws. w \<noteq> [] \<and> (\<forall>c \<in> set w. \<not> is_whitespace c \<and> c \<notin> set SEGMENT_SEPARATORS)"
  shows "segments (join_with [SPC] ws) = [join_with [SPC] ws]"
proof (rule segments_single)
  have ends: "join_with [SPC] ws \<noteq> [] \<and> hd (join_with [SPC] ws) = hd (hd ws) \<and>
     last (join_with [SPC] ws) = last (last ws)" if "ws \<noteq> []" "\<forall>w \<in> set ws. w \<noteq> []" for ws :: "rstr list"
    using that by (induction ws rule: induct_list012) auto
  have hd: "hd ws \<in> set ws" "last ws \<in> set ws" using assms(1) by simp_all
  have chars: "hd (hd ws) \<in> set (hd ws)" "last (last ws) \<in> set (last ws)"
    using assms(2) hd by auto
  show "join_with [SPC] ws \<noteq> []" using ends assms by blast
  show "trim (join_with [SPC] ws) = join_with [SPC] ws"
    using ends [OF assms(1)] assms(2) hd chars by (intro trim_id) auto
  have "set (join_with [SPC] vs) \<subseteq> insert SPC (\<Union>(set ` set vs))" for vs :: "rstr list"
    by (induction vs rule: induct_list012) auto
  moreover have "SPC \<notin> set SEGMENT_SEPARATORS" by (simp add: SEGMENT_SEPARATORS_def)
  ultimately show "\<forall>c \<in> set (join_with [SPC] ws). c \<notin> set SEGMENT_SEPARATORS"
    using assms(2) by blast
qed

text \<open>A recursive forced remove is refused however it is spelled: behind any wrappers,
  assignments and grouping, by any path to \<^verbatim>\<open>rm\<close>, with the two flags in any bundle, order or long
  form, quoted or not, and wherever it stands in the line.\<close>

theorem recursive_force_remove_denied:
  assumes tokens: "\<forall>t \<in> set (ps @ prog # as). t \<noteq> [] \<and> (\<forall>c \<in> set t. \<not> is_whitespace c \<and> c \<notin> set SEGMENT_SEPARATORS)"
    and ps: "\<forall>t \<in> set ps. read_past win (clean_token win t)"
    and prog: "\<not> is_env_assignment (clean_token win prog)"
      "basename_lower win (trim_end_matches (\<lambda>c. c = CHR '')'')
         (trim_start_matches (\<lambda>c. c = CHR ''('' \<or> c = CHR ''{'') (clean_token win prog))) = ''rm''"
    and recursive: "has_flag (map (clean_token win) as) CHR ''r'' [''recursive''] \<or>
      has_flag (map (clean_token win) as) CHR ''R'' [''recursive'']"
    and force: "has_flag (map (clean_token win) as) CHR ''f'' [''force'']"
    and sep: "p \<in> set SEGMENT_SEPARATORS" "q \<in> set SEGMENT_SEPARATORS"
  shows "builtin_deny win (before @ p # join_with [SPC] (ps @ prog # as) @ q # after) \<noteq> None"
proof -
  let ?s = "join_with [SPC] (ps @ prog # as)"
  have seg: "segments ?s = [?s]" by (rule segment_join) (use tokens in simp_all)
  have split: "split_whitespace ?s = ps @ prog # as"
    by (rule split_whitespace_join) (use tokens in blast)
  have "basename_lower win [] = []"
    by (simp add: basename_lower_def basename_lower_in_def strip_executable_extension_def
        EXECUTABLE_SUFFIXES_def clean_token_in_def to_ascii_lowercase_def ends_with_def
        strip_suffix_def)
  then have ne: "trim_end_matches (\<lambda>c. c = CHR '')'')
         (trim_start_matches (\<lambda>c. c = CHR ''('' \<or> c = CHR ''{'') (clean_token win prog)) \<noteq> []"
    using prog(2) by (metis list.distinct(1))
  have "''rm'' \<notin> set PREFIX_WORDS" by code_simp
  then have "segment_words win ?s = Some \<lparr>program = ''rm'', args = map (clean_token win) as\<rparr>"
    using prog ne ps by (simp add: segment_words_def split words_of_read_past Let_def)
  then have "deny_segment win ?s \<noteq> None"
    using recursive force
    by (simp add: deny_segment_def program_of_def args_of_def deny_program_def Let_def)
  then show ?thesis
    using segments_embedded [OF seg sep, of before after]
    by (intro builtin_deny_segment [of ?s]) simp_all
qed

theorem recursive_force_remove_denied_witness:
  "builtin_deny False (''echo hi'' @ CHR '';'' #
     join_with [SPC] ([''FOO=/x'', ''/usr/bin/env'', ''(time''] @ ''/bin/rm'' # [''--force'', ''build'', ''-vR'']) @ CHR ''&'' # []) \<noteq> None"
proof (rule recursive_force_remove_denied)
  show "\<forall>t \<in> set ([''FOO=/x'', ''/usr/bin/env'', ''(time''] @ ''/bin/rm'' # [''--force'', ''build'', ''-vR'']).
      t \<noteq> [] \<and> (\<forall>c \<in> set t. \<not> is_whitespace c \<and> c \<notin> set SEGMENT_SEPARATORS)"
    "\<forall>t \<in> set [''FOO=/x'', ''/usr/bin/env'', ''(time'']. read_past False (clean_token False t)"
    "\<not> is_env_assignment (clean_token False ''/bin/rm'')"
    "basename_lower False (trim_end_matches (\<lambda>c. c = CHR '')'')
         (trim_start_matches (\<lambda>c. c = CHR ''('' \<or> c = CHR ''{'') (clean_token False ''/bin/rm''))) = ''rm''"
    "has_flag (map (clean_token False) [''--force'', ''build'', ''-vR'']) CHR ''r'' [''recursive''] \<or>
     has_flag (map (clean_token False) [''--force'', ''build'', ''-vR'']) CHR ''R'' [''recursive'']"
    "has_flag (map (clean_token False) [''--force'', ''build'', ''-vR'']) CHR ''f'' [''force'']"
    "CHR '';'' \<in> set SEGMENT_SEPARATORS" "CHR ''&'' \<in> set SEGMENT_SEPARATORS"
    by code_simp+
qed

lemma no_dos_switch_in_cwd: "\<forall>a \<in> set as. \<not> operand_leaves_cwd a \<Longrightarrow> \<not> has_dos_switch as switch"
proof -
  have "operand_leaves_cwd a" if "strip_prefix ''/'' a = Some r" for a r
    using that by (auto simp: strip_prefix_Some_iff operand_leaves_cwd_def escapes_cwd_by_spelling_def
        starts_with_def)
  then show "\<forall>a \<in> set as. \<not> operand_leaves_cwd a \<Longrightarrow> \<not> has_dos_switch as switch"
    by (fastforce simp: has_dos_switch_def list_ex_iff split: option.splits)
qed

lemma fs_edit_not_denied:
  assumes "prog \<in> set FS_EDIT" "\<forall>a \<in> set as. \<not> operand_leaves_cwd a"
    and "prog = ''rm'' \<longrightarrow> \<not> has_flag as CHR ''r'' [''recursive''] \<and> \<not> has_flag as CHR ''R'' [''recursive'']"
  shows "deny_program prog as = None"
proof -
  have "prog = ''mkdir'' \<or> prog = ''touch'' \<or> prog = ''mv'' \<or> prog = ''cp'' \<or> prog = ''rm'' \<or> prog = ''rmdir''"
    using assms(1) by (simp add: FS_EDIT_def)
  then show ?thesis
    using assms(3) no_dos_switch_in_cwd [OF assms(2), of "CHR ''s''"]
    by (elim disjE) (simp_all add: deny_program_def starts_with_def)
qed

text \<open>What accept-edits mode approves is a bounded edit: the line parses to commands the
  executor runs as they are; each runs one of the six file programs by its bare name; no operand or
  flag value leaves the working directory; \<^verbatim>\<open>rm\<close> does not recurse; and none of them is a command
  the deny floor's rules refuse.\<close>

theorem workspace_fs_edit_bounded:
  assumes "is_workspace_fs_edit win command"
  shows "\<exists>cs. parse_unattended win command = Some cs \<and> cs \<noteq> [] \<and>
    (\<forall>c \<in> set cs. \<exists>prog as. argv c = prog # as \<and>
       CHR ''/'' \<notin> set prog \<and> BSL \<notin> set prog \<and> basename_lower win prog \<in> set FS_EDIT \<and>
       (\<forall>a \<in> set as. \<not> operand_leaves_cwd a) \<and>
       (basename_lower win prog = ''rm'' \<longrightarrow> \<not> has_flag as CHR ''r'' [''recursive''] \<and> \<not> has_flag as CHR ''R'' [''recursive'']) \<and>
       deny_program (basename_lower win prog) as = None)"
proof -
  from assms obtain cs where parse: "parse_unattended win command = Some cs"
    and all: "\<forall>c \<in> set cs. bounded_fs_edit win (argv c)"
    by (auto simp: is_workspace_fs_edit_def list_all_iff split: option.splits)
  have "cs \<noteq> []" using parse by (auto simp: parse_unattended_def elim!: parse_unattended_inD)
  moreover have "\<exists>prog as. argv c = prog # as \<and>
       CHR ''/'' \<notin> set prog \<and> BSL \<notin> set prog \<and> basename_lower win prog \<in> set FS_EDIT \<and>
       (\<forall>a \<in> set as. \<not> operand_leaves_cwd a) \<and>
       (basename_lower win prog = ''rm'' \<longrightarrow> \<not> has_flag as CHR ''r'' [''recursive''] \<and> \<not> has_flag as CHR ''R'' [''recursive'']) \<and>
       deny_program (basename_lower win prog) as = None" if "c \<in> set cs" for c
  proof -
    from all that obtain prog as where av: "argv c = prog # as"
      by (cases "argv c") (auto simp: bounded_fs_edit_def)
    with all that have b: "CHR ''/'' \<notin> set prog" "BSL \<notin> set prog" "basename_lower win prog \<in> set FS_EDIT"
      "\<forall>a \<in> set as. \<not> operand_leaves_cwd a"
      "basename_lower win prog = ''rm'' \<longrightarrow> \<not> has_flag as CHR ''r'' [''recursive''] \<and> \<not> has_flag as CHR ''R'' [''recursive'']"
      by (fastforce simp: bounded_fs_edit_def Let_def list_ex_iff split: if_splits)+
    have "deny_program (basename_lower win prog) as = None"
      using b fs_edit_not_denied by blast
    with av b show ?thesis by blast
  qed
  ultimately show ?thesis using parse by blast
qed

theorem workspace_fs_edit_bounded_witness:
  "is_workspace_fs_edit False ''mkdir -p a && cp x a'' \<and>
   (\<exists>cs. parse_unattended False ''mkdir -p a && cp x a'' = Some cs \<and> cs \<noteq> [])"
proof -
  have "is_workspace_fs_edit False ''mkdir -p a && cp x a''" by code_simp
  from workspace_fs_edit_bounded [OF this] this show ?thesis by blast
qed

end
