(* ===== verification/Irreversible.thy ===== *)
theory Irreversible
  imports Lexer_Agreement Shell_Deny
begin

text \<open>
  The irreversible-outward floor of \<^verbatim>\<open>execution_policy/engine.rs\<close>: how it reads the commands of a
  line (quote-aware where the lexer models the line, blind where it does not, scripts inside
  arguments and here-documents included) and which of them publish, force-push, merge, apply or
  delete. A command is the pair of its program word and its arguments. \<open>win\<close> says whether the host
  is Windows, as in the theories below this one.

  The recursion on scripts inside arguments is bounded by the source itself
  (\<^verbatim>\<open>SCRIPT_NESTING\<close>), so it is primitive recursion on the levels left to read.
\<close>

section \<open>Reading the commands of a line\<close>

type_synonym floor_command = "rstr \<times> rstr list"

fun words_in_order :: "rstr list \<Rightarrow> rstr list \<Rightarrow> bool" where
  "words_in_order [] haystack = True"
| "words_in_order (word # needle) haystack =
     (case dropWhile (\<lambda>candidate. candidate \<noteq> word) haystack of
        [] \<Rightarrow> False
      | _ # rest \<Rightarrow> words_in_order needle rest)"

text \<open>The value of the call \<^verbatim>\<open>shell_lex::sh_commands\<close>: its panicking branches are never taken
  (\<open>sh_read_value\<close> below), so they have no value of their own here.\<close>

definition sh_read :: "bool \<Rightarrow> rstr \<Rightarrow> HeredocBodies \<Rightarrow> ShCommands option" where
  "sh_read win line bodies =
     (case sh_commands win line bodies of None \<Rightarrow> None | Some result \<Rightarrow> result)"

definition HEREDOC_DATA_SINKS :: "rstr list" where
  "HEREDOC_DATA_SINKS =
     [''cat'', ''tee'', ''git'', ''gh'', ''cd'', ''echo'', ''printf'', ''mkdir'', ''chmod'', ''touch'',
      ''cp'', ''mv'', ''ls'', ''pwd'', ''grep'', ''head'', ''tail'', ''wc'', ''sort'', ''jq'', ''diff'',
      ''true'', ''}'', ''fi'', ''esac'', ''done'']"

definition RUNS_LATER :: "rstr list" where
  "RUNS_LATER = [''trap'']"

definition SHELLS :: "rstr list" where
  "SHELLS =
     [''sh'', ''bash'', ''zsh'', ''dash'', ''ksh'', ''ash'', ''mksh'', ''yash'', ''posh'', ''rbash'',
      ''fish'', ''csh'', ''tcsh'', ''nu'', ''elvish'', ''xonsh'']"

definition may_run_fed_text :: "bool \<Rightarrow> nat \<Rightarrow> nat \<Rightarrow> rstr list \<Rightarrow> bool" where
  "may_run_fed_text win finished index av =
     (let prog = map_option fst (program_and_args_of_argv win av);
          may_run_it = index \<ge> finished \<or> (case prog of None \<Rightarrow> False | Some p \<Rightarrow> p \<in> set RUNS_LATER)
      in may_run_it \<and>
         (case prog of
            Some p \<Rightarrow> p \<notin> set HEREDOC_DATA_SINKS
          | None \<Rightarrow> \<not> list_all is_env_assignment av))"

definition runs_what_it_is_fed :: "bool \<Rightarrow> ShCommands \<Rightarrow> bool" where
  "runs_what_it_is_fed win read =
     (if \<not> skipped_heredoc read \<and> here_strings read = [] then False
      else list_ex (\<lambda>(index, av). may_run_fed_text win (finished_before_heredoc read) index av)
             (enumerate 0 (commands read)))"

definition program_words :: "bool \<Rightarrow> rstr list list \<Rightarrow> floor_command list" where
  "program_words win cmds = List.map_filter (program_and_args_of_argv win) cmds"

definition blind_commands :: "bool \<Rightarrow> rstr \<Rightarrow> floor_command list" where
  "blind_commands win line =
     List.map_filter (program_and_args win)
       (concat (map segments
          (line # (case joined_continuations (HOST win) line of None \<Rightarrow> [] | Some joined \<Rightarrow> [joined]))))"

definition line_commands :: "bool \<Rightarrow> rstr \<Rightarrow> floor_command list \<times> rstr list" where
  "line_commands win line =
     (case sh_read win line Skip of
        None \<Rightarrow> (blind_commands win line, [])
      | Some read \<Rightarrow>
          if \<not> runs_what_it_is_fed win read then (program_words win (commands read), [])
          else if \<not> skipped_heredoc read then (program_words win (commands read), here_strings read)
          else
            (case sh_read win line Read of
               Some again \<Rightarrow> (program_words win (commands again), here_strings again)
             | None \<Rightarrow>
                 (program_words win (commands read) @ blind_commands win line, here_strings read)))"

definition trap_action :: "rstr list \<Rightarrow> rstr option" where
  "trap_action as =
     (case as of
        [] \<Rightarrow> None
      | first # rest \<Rightarrow>
          if first = ''--'' then
            (case rest of [] \<Rightarrow> None | action # _ \<Rightarrow> if action \<noteq> ''-'' then Some action else None)
          else if \<not> starts_with ''-'' first then Some first
          else None)"

definition hands_on_text :: "rstr \<Rightarrow> bool" where
  "hands_on_text bas \<longleftrightarrow> bas = ''ssh'' \<or> bas \<in> set SHELLS"

definition operand_words :: "rstr list \<Rightarrow> rstr list" where
  "operand_words words = filter (\<lambda>word. \<not> starts_with ''-'' word) words"

definition is_command_flag :: "rstr \<Rightarrow> bool" where
  "is_command_flag word \<longleftrightarrow>
     (case strip_prefix ''-'' word of
        None \<Rightarrow> False
      | Some flags \<Rightarrow> \<not> starts_with ''-'' flags \<and> CHR ''c'' \<in> set flags)"

definition shell_scripts :: "rstr \<Rightarrow> rstr list \<Rightarrow> rstr list" where
  "shell_scripts shell rest =
     (if shell = ''ssh'' then operand_words rest
      else (case position is_command_flag rest of
              Some flag \<Rightarrow> operand_words (drop (flag + 1) rest)
            | None \<Rightarrow> []))"

definition scripts_handed_to_a_shell :: "bool \<Rightarrow> rstr \<Rightarrow> rstr list \<Rightarrow> rstr list" where
  "scripts_handed_to_a_shell win prog as =
     (if prog = ''eval'' then [join_with [SPC] as]
      else if prog = ''trap'' then (case trap_action as of None \<Rightarrow> [] | Some action \<Rightarrow> [action])
      else if hands_on_text prog then shell_scripts prog as
      else (case position (\<lambda>arg. hands_on_text (basename_lower win arg)) as of
              None \<Rightarrow> []
            | Some at \<Rightarrow> shell_scripts (basename_lower win (as ! at)) (drop (at + 1) as)))"

definition SCRIPT_NESTING :: nat where "SCRIPT_NESTING = 4"

primrec read_floor_commands :: "bool \<Rightarrow> nat \<Rightarrow> rstr \<Rightarrow> floor_command list" where
  "read_floor_commands win 0 line = fst (line_commands win line)"
| "read_floor_commands win (Suc deeper) line =
     (let (cmds, fed_text) = line_commands win line in
      concat (map (\<lambda>(prog, as).
                concat (map (read_floor_commands win deeper) (scripts_handed_to_a_shell win prog as))
                @ [(prog, as)]) cmds)
      @ concat (map (read_floor_commands win deeper) fed_text))"

definition irreversible_floor_commands :: "bool \<Rightarrow> rstr \<Rightarrow> floor_command list" where
  "irreversible_floor_commands win command = read_floor_commands win SCRIPT_NESTING command"

section \<open>Dry runs and subcommands\<close>

definition dry_run_value_on :: "rstr \<Rightarrow> bool" where
  "dry_run_value_on val \<longleftrightarrow>
     to_ascii_lowercase val \<notin> set [''false'', ''none'', ''no'', ''off'', ''0'', '''']"

definition is_dry_run_on :: "rstr \<Rightarrow> bool" where
  "is_dry_run_on word \<longleftrightarrow>
     (if word = ''--dry-run'' \<or> word = ''--dryrun'' then True
      else case strip_prefix ''--dry-run='' word of
             Some val \<Rightarrow> dry_run_value_on val
           | None \<Rightarrow>
               (case strip_prefix ''--dryrun='' word of
                  Some val \<Rightarrow> dry_run_value_on val
                | None \<Rightarrow> False))"

definition options_taking_a_value :: "rstr \<Rightarrow> rstr list" where
  "options_taking_a_value prog =
     (if prog = ''git'' then
        [''-o'', ''--push-option'', ''--repo'', ''--receive-pack'', ''--exec'']
      else if prog = ''gh'' then
        [''-b'', ''--body'', ''-F'', ''--body-file'', ''-t'', ''--title'',
         ''--subject'', ''-n'', ''--notes'', ''--notes-file'', ''-R'', ''--repo'',
         ''--match-head-commit'', ''--author-email'']
      else if prog = ''npm'' then
        [''--tag'', ''--otp'', ''--registry'', ''--access'', ''--prefix'',
         ''--userconfig'', ''--cache'', ''--globalconfig'', ''--loglevel'', ''-w'',
         ''--workspace'', ''-C'']
      else if prog = ''pnpm'' then
        [''--tag'', ''--otp'', ''--registry'', ''--access'', ''--prefix'',
         ''--userconfig'', ''--cache'', ''--globalconfig'', ''--loglevel'', ''-C'',
         ''--dir'', ''--filter'', ''--filter-prod'', ''-F'']
      else if prog = ''yarn'' then
        [''--tag'', ''--otp'', ''--registry'', ''--access'', ''--cwd'',
         ''--use-yarnrc'', ''--mutex'']
      else if prog = ''bun'' then
        [''--tag'', ''--otp'', ''--registry'', ''--access'', ''--cwd'', ''--filter'',
         ''-F'', ''--env-file'', ''--config'']
      else if prog = ''cargo'' then
        [''--registry'', ''--index'', ''--token'', ''-p'', ''--package'', ''--config'']
      else if prog = ''kubectl'' then
        [''-n'', ''--namespace'', ''-l'', ''--selector'', ''--context'',
         ''--kubeconfig'', ''--server'', ''--token'', ''--as'', ''--as-group'',
         ''--as-uid'', ''--cache-dir'', ''--certificate-authority'',
         ''--client-certificate'', ''--client-key'', ''--cluster'', ''--user'',
         ''--v'', ''--request-timeout'', ''--tls-server-name'']
      else if prog = ''helm'' then
        [''-n'', ''--namespace'', ''--kube-context'', ''--kube-apiserver'',
         ''--kube-as-user'', ''--kube-as-group'', ''--kube-token'', ''--kube-ca-file'',
         ''--kube-tls-server-name'', ''--kubeconfig'', ''--registry-config'',
         ''--repository-cache'', ''--repository-config'', ''--burst-limit'', ''--qps'']
      else if prog = ''terraform'' then
        [''-var'', ''-var-file'', ''-target'']
      else if prog = ''aws'' then
        [''--profile'', ''--region'', ''--exclude'', ''--include'', ''--output'',
         ''--query'', ''--endpoint-url'', ''--ca-bundle'', ''--cli-read-timeout'',
         ''--cli-connect-timeout'', ''--cli-binary-format'', ''--color'']
      else if prog = ''twine'' \<or> prog = ''poetry'' then
        [''-r'', ''--repository'', ''-u'', ''--username'', ''-p'', ''--password'']
      else if prog = ''docker'' then
        [''--context'', ''-H'', ''--host'', ''--config'', ''--log-level'',
         ''--tlscacert'', ''--tlscert'', ''--tlskey'']
      else if prog = ''gem'' then
        [''--config-file'']
      else [])"

definition is_dry_run :: "rstr \<Rightarrow> rstr list \<Rightarrow> bool" where
  "is_dry_run prog as \<longleftrightarrow>
     (let takes_a_value = options_taking_a_value prog in
      list_ex (\<lambda>(index, word).
          is_dry_run_on word \<and>
          (index = 0 \<or> as ! (index - 1) \<notin> set takes_a_value))
        (enumerate 0 as))"

definition syncs_into_s3 :: "rstr list \<Rightarrow> bool" where
  "syncs_into_s3 as \<longleftrightarrow>
     (let operands = filter (\<lambda>word. \<not> starts_with ''-'' word) as in
      length operands < 2 \<or> list_ex (starts_with ''s3://'') (drop 1 operands))"

definition GIT_GLOBAL_OPTIONS_WITH_VALUE :: "rstr list" where
  "GIT_GLOBAL_OPTIONS_WITH_VALUE =
     [''-C'', ''-c'', ''--git-dir'', ''--work-tree'', ''--namespace'', ''--config-env'',
      ''--super-prefix'', ''--attr-source'']"

text \<open>The two loops that look for the subcommand, on the words from \<open>index\<close> on.\<close>

function git_subcommand_from :: "nat \<Rightarrow> rstr list \<Rightarrow> nat option" where
  "git_subcommand_from index [] = None"
| "git_subcommand_from index (word # rest) =
     (if word \<in> set GIT_GLOBAL_OPTIONS_WITH_VALUE then git_subcommand_from (index + 2) (drop 1 rest)
      else if starts_with ''-'' word then git_subcommand_from (index + 1) rest
      else Some index)"
  by pat_completeness auto
termination
  by (relation "measure (\<lambda>(index, words). length words)") auto

definition git_subcommand_index :: "rstr list \<Rightarrow> nat option" where
  "git_subcommand_index as = git_subcommand_from 0 as"

function subcommand_from :: "rstr \<Rightarrow> nat \<Rightarrow> rstr list \<Rightarrow> nat option" where
  "subcommand_from prog index [] = None"
| "subcommand_from prog index (word # rest) =
     (if word = ''--'' then (if rest \<noteq> [] then Some (index + 1) else None)
      else if prog = ''cargo'' \<and> starts_with ''+'' word then subcommand_from prog (index + 1) rest
      else
        (let option_name = (case split_once CHR ''='' word of None \<Rightarrow> word | Some (name, _) \<Rightarrow> name)
         in if option_name \<in> set (options_taking_a_value prog) \<and> CHR ''='' \<notin> set word
            then subcommand_from prog (index + 2) (drop 1 rest)
            else if starts_with ''-'' word then subcommand_from prog (index + 1) rest
            else Some index))"
  by pat_completeness auto
termination
  by (relation "measure (\<lambda>(prog, index, words). length words)") auto

definition subcommand_index_after_options :: "rstr \<Rightarrow> rstr list \<Rightarrow> nat option" where
  "subcommand_index_after_options prog as =
     (if prog = ''git'' then git_subcommand_index as else subcommand_from prog 0 as)"

section \<open>The irreversible commands\<close>

definition forces_a_push :: "rstr \<Rightarrow> bool" where
  "forces_a_push word \<longleftrightarrow>
     word \<in> set [''--force'', ''--force-with-lease'', ''--mirror'', ''--delete'', ''--prune''] \<or>
     starts_with ''--force-with-lease='' word \<or>
     (word \<noteq> ''+'' \<and> starts_with ''+'' word) \<or>
     (word \<noteq> '':'' \<and> starts_with '':'' word) \<or>
     (starts_with ''-'' word \<and> \<not> starts_with ''--'' word \<and> length word > 1 \<and>
      (CHR ''f'' \<in> set (drop 1 word) \<or> CHR ''d'' \<in> set (drop 1 word)))"

definition git_outward :: "rstr list \<Rightarrow> rstr option" where
  "git_outward as =
     (case git_subcommand_index as of
        None \<Rightarrow> None
      | Some push_at \<Rightarrow>
          if as ! push_at \<noteq> ''push'' then None
          else map_option (\<lambda>matched. ''git push '' @ matched)
                 (find forces_a_push (drop (push_at + 1) as)))"

definition gh_outward :: "nat option \<Rightarrow> rstr list \<Rightarrow> rstr option" where
  "gh_outward subcommand_at as =
     (case subcommand_at of
        None \<Rightarrow> None
      | Some index \<Rightarrow>
          (case (get_at as index, get_at as (index + 1)) of
             (Some subcommand, Some nxt) \<Rightarrow>
               if (subcommand = ''pr'' \<and> nxt = ''merge'') \<or>
                  (subcommand = ''release'' \<and> (nxt = ''create'' \<or> nxt = ''delete'')) \<or>
                  (subcommand = ''repo'' \<and> nxt = ''delete'')
               then Some (''gh '' @ subcommand @ '' '' @ nxt)
               else None
           | _ \<Rightarrow> None))"

definition aws_outward :: "nat option \<Rightarrow> rstr list \<Rightarrow> rstr option" where
  "aws_outward subcommand_at as =
     (case subcommand_at of
        None \<Rightarrow> None
      | Some index \<Rightarrow>
          (case get_at as index of
             None \<Rightarrow> None
           | Some service \<Rightarrow>
               let verb = get_at as (index + 1) in
               if service = ''s3'' \<and> verb = Some ''rm'' then Some ''aws s3 rm''
               else if service = ''s3'' \<and> verb = Some ''rb'' then Some ''aws s3 rb''
               else if service = ''s3'' \<and> verb = Some ''sync'' \<and> ''--delete'' \<in> set as \<and>
                       syncs_into_s3 (drop (index + 2) as) then Some ''aws s3 sync --delete''
               else if service = ''s3api'' \<and> verb = Some ''delete-object'' then Some ''aws s3api delete-object''
               else if service = ''s3api'' \<and> verb = Some ''delete-objects'' then Some ''aws s3api delete-objects''
               else if service = ''s3api'' \<and> verb = Some ''delete-bucket'' then Some ''aws s3api delete-bucket''
               else None))"

text \<open>The arms of the match, after the dry-run exemption.\<close>

definition outward_class :: "rstr \<Rightarrow> rstr list \<Rightarrow> rstr option" where
  "outward_class prog as =
     (let subcommand_at = subcommand_index_after_options prog as;
          subcommand = (case subcommand_at of None \<Rightarrow> None | Some index \<Rightarrow> get_at as index);
          following = (case subcommand_at of None \<Rightarrow> None | Some index \<Rightarrow> get_at as (index + 1))
      in if prog = ''git'' then git_outward as
         else if prog = ''yarn'' \<and> subcommand = Some ''npm'' \<and> following = Some ''publish''
           then Some ''yarn npm publish''
         else if prog \<in> set [''npm'', ''yarn'', ''pnpm'', ''bun''] \<and> subcommand = Some ''publish''
           then Some (prog @ '' publish'')
         else if prog = ''cargo'' \<and> subcommand = Some ''publish'' then Some ''cargo publish''
         else if prog = ''twine'' \<and> subcommand = Some ''upload'' then Some ''twine upload''
         else if prog = ''poetry'' \<and> subcommand = Some ''publish'' then Some ''poetry publish''
         else if prog = ''gem'' \<and> subcommand = Some ''push'' then Some ''gem push''
         else if prog = ''gh'' \<and> subcommand \<in> set [Some ''pr'', Some ''release'', Some ''repo'']
           then gh_outward subcommand_at as
         else if prog = ''terraform'' \<and> (subcommand = Some ''apply'' \<or> subcommand = Some ''destroy'')
           then Some (''terraform '' @ the subcommand)
         else if prog = ''kubectl'' \<and> (subcommand = Some ''delete'' \<or> subcommand = Some ''drain'')
           then Some (''kubectl '' @ the subcommand)
         else if prog = ''docker'' \<and> subcommand = Some ''push'' then Some ''docker push''
         else if prog = ''helm'' \<and> (subcommand = Some ''uninstall'' \<or> subcommand = Some ''delete'')
           then Some (''helm '' @ the subcommand)
         else if prog = ''aws'' then aws_outward subcommand_at as
         else None)"

definition irreversible_outward_words :: "rstr \<Rightarrow> rstr list \<Rightarrow> rstr option" where
  "irreversible_outward_words prog as =
     (if is_dry_run prog as then None else outward_class prog as)"

section \<open>What the floor reads\<close>

lemma sh_read_value: "sh_commands win line bodies = Some (sh_read win line bodies)"
  using sh_commands_returns [of "HOST win" line bodies]
  by (auto simp: sh_read_def sh_commands_def)

lemma words_in_order_subseq: "words_in_order needle haystack \<longleftrightarrow> subseq needle haystack"
proof (induction needle arbitrary: haystack)
  case Nil
  then show ?case by simp
next
  case (Cons w ws)
  show ?case
  proof (induction haystack)
    case Nil
    then show ?case by simp
  next
    case (Cons h hs)
    then show ?case using Cons.IH \<open>\<And>haystack. words_in_order ws haystack = subseq ws haystack\<close>
      by (cases "h = w") (auto simp: subseq_Cons2_iff)
  qed
qed

lemma program_words_member:
  "av \<in> set cmds \<Longrightarrow> program_and_args_of_argv win av = Some pa \<Longrightarrow> pa \<in> set (program_words win cmds)"
  by (force simp: program_words_def List.map_filter_def)

lemma nothing_fed: "\<not> skipped_heredoc read \<Longrightarrow> here_strings read = [] \<Longrightarrow> \<not> runs_what_it_is_fed win read"
  by (simp add: runs_what_it_is_fed_def)

text \<open>A line the executor accepts is read quote-aware, and nothing is fed on it.\<close>

lemma line_commands_unattended:
  assumes "parse_unattended False line = Some cs"
  obtains cmds where "line_commands False line = (program_words False cmds, [])"
    and "\<forall>c \<in> set cs. argv c \<in> set cmds \<or> set (argv c) \<subseteq> RESERVED_WORDS"
proof -
  have "parse_unattended_in SH line = Some cs" using assms by (simp add: parse_unattended_def HOST_def)
  from lexer_reads_unattended [OF this, of Skip] obtain read where
    "sh_commands_in SH line Skip = Some (Some read)" "\<not> skipped_heredoc read" "here_strings read = []"
    "\<forall>c \<in> set cs. argv c \<in> set (commands read) \<or> set (argv c) \<subseteq> RESERVED_WORDS" by blast
  then show thesis
    by (intro that [of "commands read"])
      (simp_all add: line_commands_def sh_read_def sh_commands_def HOST_def nothing_fed)
qed

lemma line_commands_quoted:
  assumes "cs \<noteq> []" and "\<forall>c \<in> set cs. argv c \<noteq> [] \<and> (\<forall>w \<in> set (argv c). SQ \<notin> set w)"
  shows "line_commands False (render_sequence cs) = (program_words False (map argv cs), [])"
  using lexer_reads_quoted [OF assms, of Skip]
  by (simp add: line_commands_def sh_read_def sh_commands_def HOST_def nothing_fed)

text \<open>Reserved words run nothing the floor reads: a command made of them alone hands no script to a
  shell and is in no irreversible class.\<close>

definition stripped_word :: "rstr \<Rightarrow> rstr" where
  "stripped_word w = trim_end_matches (\<lambda>c. c = CHR '')'')
     (trim_start_matches (\<lambda>c. c = CHR ''('' \<or> c = CHR ''{'') w)"

lemma words_of_program:
  assumes "words_of win av = Some w"
  shows "set (args w) \<subseteq> set av \<and> (\<exists>t \<in> set av. program w = basename_lower win (stripped_word t))"
  using assms
  by (induction win av rule: words_of.induct) (auto simp: Let_def stripped_word_def split: if_splits)

definition OUTWARD_PROGRAMS :: "rstr list" where
  "OUTWARD_PROGRAMS = [''git'', ''npm'', ''yarn'', ''pnpm'', ''bun'', ''cargo'', ''twine'', ''poetry'',
     ''gem'', ''gh'', ''terraform'', ''kubectl'', ''docker'', ''helm'', ''aws'']"

lemma outward_program:
  assumes "irreversible_outward_words prog as \<noteq> None" shows "prog \<in> set OUTWARD_PROGRAMS"
proof (rule ccontr)
  assume "prog \<notin> set OUTWARD_PROGRAMS"
  then have "outward_class prog as = None" by (simp add: outward_class_def OUTWARD_PROGRAMS_def)
  with assms show False by (simp add: irreversible_outward_words_def split: if_splits)
qed

lemma reserved_word_inert:
  assumes "w \<in> RESERVED_WORDS"
  shows "basename_lower False (stripped_word w) \<notin> set OUTWARD_PROGRAMS \<union> {''eval'', ''trap''} \<and>
     \<not> hands_on_text (basename_lower False (stripped_word w)) \<and> \<not> hands_on_text (basename_lower False w)"
proof -
  have "list_all (\<lambda>w. basename_lower False (stripped_word w) \<notin> set OUTWARD_PROGRAMS \<union> {''eval'', ''trap''} \<and>
     \<not> hands_on_text (basename_lower False (stripped_word w)) \<and> \<not> hands_on_text (basename_lower False w))
     (LEADS_A_COMMAND @ CLOSES_A_COMPOUND)" by code_simp
  then show ?thesis using assms by (simp add: RESERVED_WORDS_def list_all_iff)
qed

lemma reserved_command_inert:
  assumes "set av \<subseteq> RESERVED_WORDS" "program_and_args_of_argv False av = Some (prog, as)"
  shows "irreversible_outward_words prog as = None \<and> scripts_handed_to_a_shell False prog as = []"
proof -
  from assms(2) obtain w where w: "words_of False av = Some w" "prog = program w" "as = args w"
    by (auto simp: program_and_args_of_argv_def)
  from words_of_program [OF w(1)] w(2,3) obtain t where
    t: "t \<in> set av" "prog = basename_lower False (stripped_word t)" and as: "set as \<subseteq> set av" by auto
  from t(1) assms(1) have "t \<in> RESERVED_WORDS" by blast
  from reserved_word_inert [OF this] have p: "prog \<notin> set OUTWARD_PROGRAMS" "prog \<noteq> ''eval''" "prog \<noteq> ''trap''"
    "\<not> hands_on_text prog" by (simp_all add: t(2))
  have "\<not> hands_on_text (basename_lower False a)" if "a \<in> set as" for a
    using that as assms(1) reserved_word_inert by blast
  then have "position (\<lambda>arg. hands_on_text (basename_lower False arg)) as = None"
    by (metis nth_mem option.exhaust position_SomeD)
  then have "scripts_handed_to_a_shell False prog as = []"
    using p by (simp add: scripts_handed_to_a_shell_def)
  with p(1) outward_program show ?thesis by blast
qed

lemma floor_command_read:
  assumes "parse_unattended False line = Some cs" "c \<in> set cs"
    and "program_and_args_of_argv False (argv c) = Some (prog, as)"
    and "irreversible_outward_words prog as \<noteq> None \<or> scripts_handed_to_a_shell False prog as \<noteq> []"
  shows "(prog, as) \<in> set (fst (line_commands False line))"
proof -
  from assms(1) obtain cmds where cmds: "line_commands False line = (program_words False cmds, [])"
    "\<forall>c \<in> set cs. argv c \<in> set cmds \<or> set (argv c) \<subseteq> RESERVED_WORDS"
    by (rule line_commands_unattended)
  from reserved_command_inert [OF _ assms(3)] assms(4) have "\<not> set (argv c) \<subseteq> RESERVED_WORDS" by blast
  with cmds(2) assms(2) have "argv c \<in> set cmds" by blast
  from program_words_member [OF this assms(3)] cmds(1) show ?thesis by simp
qed

lemma set_read_floor_commands:
  "set (read_floor_commands win (Suc n) line) =
     (\<Union>pa \<in> set (fst (line_commands win line)).
        insert pa (\<Union>script \<in> set (scripts_handed_to_a_shell win (fst pa) (snd pa)).
                     set (read_floor_commands win n script))) \<union>
     (\<Union>text \<in> set (snd (line_commands win line)). set (read_floor_commands win n text))"
  by (simp add: case_prod_beta)

lemma read_floor_commands_line:
  "pa \<in> set (fst (line_commands win line)) \<Longrightarrow> pa \<in> set (read_floor_commands win n line)"
  by (cases n) (simp, auto simp only: set_read_floor_commands)

lemma read_floor_commands_script:
  assumes "(prog, as) \<in> set (fst (line_commands win line))"
    and "script \<in> set (scripts_handed_to_a_shell win prog as)" "pa \<in> set (read_floor_commands win n script)"
  shows "pa \<in> set (read_floor_commands win (Suc n) line)"
  using assms unfolding set_read_floor_commands by fastforce

text \<open>What a line runs on a \<^verbatim>\<open>sh\<close> host, through at most \<open>n\<close> shells that are handed a script as
  text: the commands of the line, and those of the scripts its commands hand on.\<close>

inductive runs :: "nat \<Rightarrow> rstr \<Rightarrow> floor_command \<Rightarrow> bool" where
  runs_command: "parse_unattended False line = Some cs \<Longrightarrow> c \<in> set cs \<Longrightarrow>
     program_and_args_of_argv False (argv c) = Some pa \<Longrightarrow> runs n line pa"
| runs_script: "parse_unattended False line = Some cs \<Longrightarrow> c \<in> set cs \<Longrightarrow>
     program_and_args_of_argv False (argv c) = Some (prog, as) \<Longrightarrow>
     script \<in> set (scripts_handed_to_a_shell False prog as) \<Longrightarrow> runs n script pa \<Longrightarrow> runs (Suc n) line pa"

lemma runs_read:
  assumes "runs n line pa" "irreversible_outward_words (fst pa) (snd pa) \<noteq> None"
  shows "pa \<in> set (read_floor_commands False n line)"
  using assms
proof (induction rule: runs.induct)
  case (runs_command line cs c pa n)
  then show ?case using floor_command_read by (intro read_floor_commands_line) (cases pa, simp)
next
  case (runs_script line cs c prog as script n pa)
  then have "(prog, as) \<in> set (fst (line_commands False line))"
    by (intro floor_command_read [OF runs_script.hyps(1-3)]) auto
  with runs_script show ?case by (intro read_floor_commands_script) auto
qed

lemma runs_mono: "runs n line pa \<Longrightarrow> n \<le> m \<Longrightarrow> runs m line pa"
proof (induction arbitrary: m rule: runs.induct)
  case (runs_command line cs c pa n)
  show ?case using runs_command(1-3) by (rule runs.runs_command)
next
  case (runs_script line cs c prog as script n pa)
  then obtain k where "m = Suc k" "n \<le> k" by (cases m) auto
  with runs_script show ?case by (auto intro: runs.runs_script)
qed



text \<open>What a quote makes data stays data. On a line of commands whose words all stand
  between single quotes, none of which hands a script to a shell, the floor reads exactly those
  commands, in order, each with its program word past assignments and wrappers: nothing a quoted
  word holds (a commit message with a newline and \<^verbatim>\<open>npm publish\<close> in it) is read as a command.\<close>

theorem floor_reads_quoted_words:
  assumes "cs \<noteq> []" and "\<forall>c \<in> set cs. argv c \<noteq> [] \<and> (\<forall>w \<in> set (argv c). SQ \<notin> set w)"
    and "\<forall>c \<in> set cs. \<forall>pa \<in> set_option (program_and_args_of_argv False (argv c)).
       scripts_handed_to_a_shell False (fst pa) (snd pa) = []"
  shows "irreversible_floor_commands False (render_sequence cs) =
     List.map_filter (\<lambda>c. program_and_args_of_argv False (argv c)) cs"
proof -
  let ?cmds = "program_words False (map argv cs)"
  have cmds: "?cmds = List.map_filter (\<lambda>c. program_and_args_of_argv False (argv c)) cs"
    by (simp add: program_words_def List.map_filter_def comp_def filter_map)
  have "scripts_handed_to_a_shell False prog as = []" if "(prog, as) \<in> set ?cmds" for prog as
    using that assms(3) by (fastforce simp: program_words_def List.map_filter_def)
  then have "concat (map (\<lambda>(prog, as). concat (map (read_floor_commands False n)
      (scripts_handed_to_a_shell False prog as)) @ [(prog, as)]) ?cmds) = concat (map (\<lambda>pa. [pa]) ?cmds)" for n
    by (intro arg_cong [of _ _ concat] map_cong) auto
  then have "read_floor_commands False (Suc n) (render_sequence cs) = ?cmds" for n
    using line_commands_quoted [OF assms(1,2)] by simp
  from this [of 3] show ?thesis
    by (simp only: irreversible_floor_commands_def SCRIPT_NESTING_def cmds) (simp add: eval_nat_numeral)
qed

theorem floor_reads_quoted_words_witness:
  "irreversible_floor_commands False (render_sequence
     [unattended_command [''git'', ''commit'', ''-m'', ''release'' @ [NL] @ ''npm publish; $(git push -f)''] Always])
   = [(''git'', [''commit'', ''-m'', ''release'' @ [NL] @ ''npm publish; $(git push -f)''])]"
  by (subst floor_reads_quoted_words) (simp_all, code_simp+)

section \<open>Force pushes\<close>

text \<open>The global options git reads before its subcommand.\<close>

inductive git_globals :: "rstr list \<Rightarrow> bool" where
  no_globals: "git_globals []"
| global_with_value: "opt \<in> set GIT_GLOBAL_OPTIONS_WITH_VALUE \<Longrightarrow> git_globals gs \<Longrightarrow> git_globals (opt # val # gs)"
| global_flag: "starts_with ''-'' opt \<Longrightarrow> opt \<notin> set GIT_GLOBAL_OPTIONS_WITH_VALUE \<Longrightarrow> git_globals gs \<Longrightarrow>
     git_globals (opt # gs)"

lemma value_option_is_flag: "opt \<in> set GIT_GLOBAL_OPTIONS_WITH_VALUE \<Longrightarrow> starts_with ''-'' opt"
proof -
  have "list_all (starts_with ''-'') GIT_GLOBAL_OPTIONS_WITH_VALUE" by code_simp
  then show "opt \<in> set GIT_GLOBAL_OPTIONS_WITH_VALUE \<Longrightarrow> starts_with ''-'' opt" by (simp add: list_all_iff)
qed

lemma git_subcommand_from_past_globals:
  "git_globals gs \<Longrightarrow> \<not> starts_with ''-'' w \<Longrightarrow> git_subcommand_from i (gs @ w # rest) = Some (i + length gs)"
proof (induction arbitrary: i rule: git_globals.induct)
  case no_globals
  then show ?case using value_option_is_flag by auto
qed simp_all

lemma git_subcommand_fromD:
  "git_subcommand_from i as = Some k \<Longrightarrow>
     \<exists>gs w rest. as = gs @ w # rest \<and> git_globals gs \<and> \<not> starts_with ''-'' w \<and> k = i + length gs"
proof (induction i as rule: git_subcommand_from.induct)
  case (1 index)
  then show ?case by simp
next
  case (2 index word rest)
  consider (valued) "word \<in> set GIT_GLOBAL_OPTIONS_WITH_VALUE" | (flag) "word \<notin> set GIT_GLOBAL_OPTIONS_WITH_VALUE" "starts_with ''-'' word"
    | (found) "\<not> starts_with ''-'' word" by blast
  then show ?case
  proof cases
    case valued
    with 2 obtain gs w r where ih: "drop 1 rest = gs @ w # r" "git_globals gs" "\<not> starts_with ''-'' w" "k = index + 2 + length gs"
      by auto
    then obtain v where "rest = v # gs @ w # r" by (cases rest) auto
    with ih valued show ?thesis
      by (intro exI [of _ "word # v # gs"] exI [of _ w] exI [of _ r]) (simp add: global_with_value)
  next
    case flag
    with 2 obtain gs w r where "rest = gs @ w # r" "git_globals gs" "\<not> starts_with ''-'' w" "k = index + 1 + length gs"
      by auto
    with flag show ?thesis
      by (intro exI [of _ "word # gs"] exI [of _ w] exI [of _ r]) (simp add: global_flag)
  next
    case found
    with 2 value_option_is_flag [of word] show ?thesis
      by (intro exI [of _ "[]"] exI [of _ word] exI [of _ rest]) (auto simp: no_globals split: if_splits)
  qed
qed

text \<open>Which \<^verbatim>\<open>git\<close> commands are irreversible: exactly those, dry runs aside, whose
  subcommand, read past any global options and their values, is \<^verbatim>\<open>push\<close> and that carry after it a
  word that forces, mirrors, prunes or deletes. A later \<^verbatim>\<open>push\<close> (\<^verbatim>\<open>git stash push\<close>, a word of a
  message) is no push.\<close>

theorem git_irreversible_iff:
  "irreversible_outward_words ''git'' as \<noteq> None \<longleftrightarrow>
     \<not> is_dry_run ''git'' as \<and>
     (\<exists>gs rest. as = gs @ ''push'' # rest \<and> git_globals gs \<and> list_ex forces_a_push rest)"
proof -
  have push: "\<not> starts_with ''-'' ''push''" by code_simp
  have "git_outward as \<noteq> None \<longleftrightarrow>
     (\<exists>gs rest. as = gs @ ''push'' # rest \<and> git_globals gs \<and> list_ex forces_a_push rest)" (is "?l \<longleftrightarrow> ?r")
  proof
    assume ?l
    then obtain k where k: "git_subcommand_from 0 as = Some k" "as ! k = ''push''"
      "find forces_a_push (drop (k + 1) as) \<noteq> None"
      by (auto simp: git_outward_def git_subcommand_index_def split: option.splits if_splits)
    from git_subcommand_fromD [OF k(1)] obtain gs w rest where
      "as = gs @ w # rest" "git_globals gs" "k = length gs" by auto
    with k(2,3) show ?r by (auto simp: find_None_iff list_ex_iff)
  next
    assume ?r
    then obtain gs rest where r: "as = gs @ ''push'' # rest" "git_globals gs" "list_ex forces_a_push rest" by blast
    from git_subcommand_from_past_globals [OF r(2) push, of 0 rest] r(1,3) show ?l
      by (auto simp: git_outward_def git_subcommand_index_def find_None_iff list_ex_iff)
  qed
  then show ?thesis by (simp add: irreversible_outward_words_def outward_class_def)
qed

text \<open>The dry-run exemption does not know git's global options: a directory named \<^verbatim>\<open>--dry-run\<close> after
  \<^verbatim>\<open>-C\<close> exempts a push that is really forced, though it is the value of an option that takes the
  next word. A \<^verbatim>\<open>--no-dry-run\<close> after a \<^verbatim>\<open>--dry-run\<close> is not read either.\<close>

lemma dry_run_as_global_value_exempts:
  "irreversible_outward_words ''git'' [''-C'', ''--dry-run'', ''push'', ''--force''] = None \<and>
   ''-C'' \<in> set GIT_GLOBAL_OPTIONS_WITH_VALUE \<and>
   irreversible_outward_words ''git'' [''push'', ''--force'', ''--dry-run'', ''--no-dry-run''] = None"
  by code_simp

end
