(* ===== verification/Command_Shape.thy ===== *)
theory Command_Shape
  imports Unattended
begin

text \<open>
  Command identities and trust rules, \<^verbatim>\<open>execution_policy/command_shape.rs\<close>: the shapes of the known
  programs, the identity of a command, whether a trusted-prefix rule covers a command, and the
  key under which a session consent is remembered. The functions that read the platform take the
  build flag \<open>win\<close> first.
\<close>

section \<open>Shapes of programs\<close>

record Shape =
  base :: nat
  overrides :: "(rstr \<times> nat) list"

definition flat :: Shape where
  "flat = \<lparr>base = 1, overrides = []\<rparr>"

definition sub :: Shape where
  "sub = \<lparr>base = 2, overrides = []\<rparr>"

definition sub_with :: "(rstr \<times> nat) list \<Rightarrow> Shape" where
  "sub_with ovs = \<lparr>base = 2, overrides = ovs\<rparr>"

definition depth_for :: "Shape \<Rightarrow> rstr option \<Rightarrow> nat" where
  "depth_for shape subcommand =
     (case subcommand of
        None \<Rightarrow> base shape
      | Some s \<Rightarrow>
          (case find_map (\<lambda>(name, depth). if name = s then Some depth else None) (overrides shape) of
             Some depth \<Rightarrow> depth
           | None \<Rightarrow> base shape))"

definition PROGRAM_SHAPES :: "(rstr \<times> Shape) list" where
  "PROGRAM_SHAPES =
     [(''git'', sub), (''cargo'', sub), (''pip'', sub), (''pip3'', sub), (''deno'', sub),
      (''npm'', sub_with [(''run'', 3)]),
      (''yarn'', sub_with [(''run'', 3), (''workspace'', 3)]),
      (''pnpm'', sub_with [(''run'', 3)]),
      (''bun'', sub_with [(''run'', 3)]),
      (''npx'', sub),
      (''docker'', sub_with [(''compose'', 3), (''container'', 3), (''image'', 3), (''network'', 3),
                             (''system'', 3), (''volume'', 3)]),
      (''kubectl'', sub_with [(''create'', 3), (''delete'', 3), (''describe'', 3), (''get'', 3),
                              (''rollout'', 3), (''top'', 3)]),
      (''go'', sub_with [(''mod'', 3), (''work'', 3)]),
      (''rustup'', sub_with [(''target'', 3), (''toolchain'', 3)]),
      (''terraform'', sub_with [(''state'', 3), (''workspace'', 3)]),
      (''helm'', sub_with [(''repo'', 3)]),
      (''gh'', \<lparr>base = 3, overrides = []\<rparr>),
      (''aws'', \<lparr>base = 3, overrides = [(''configure'', 2)]\<rparr>),
      (''make'', sub),
      (''cmake'', flat)]"

section \<open>Flags that change what runs\<close>

definition squeeze :: "rstr \<Rightarrow> rstr" where
  "squeeze s = to_ascii_lowercase (join_with [SPC] (split_whitespace s))"

definition flag_name :: "bool \<Rightarrow> rstr \<Rightarrow> rstr" where
  "flag_name win token =
     to_ascii_lowercase
       (trim_end_matches (\<lambda>c. c = BSL) (hd (split_on (\<lambda>c. c = CHR ''='') (clean_token win token))))"

definition REDIRECTING :: "rstr list" where
  "REDIRECTING = [''--config'', ''--exec-path'', ''--upload-pack'', ''--receive-pack'',
                  ''--ext-diff'', ''--output'', ''--output-file'', ''--target-dir'', ''--no-index'',
                  ''-exec'', ''-execdir'', ''-ok'', ''-okdir'']"

definition redirects_execution :: "bool \<Rightarrow> rstr \<Rightarrow> bool" where
  "redirects_execution win token \<longleftrightarrow> flag_name win token \<in> set REDIRECTING"

definition option_tokens :: "rstr list \<Rightarrow> rstr list" where
  "option_tokens tokens = takeWhile (\<lambda>token. token \<noteq> ''--'') tokens"

definition trailing_tokens :: "rstr list \<Rightarrow> rstr list" where
  "trailing_tokens tokens = drop 1 (dropWhile (\<lambda>token. token \<noteq> ''--'') tokens)"

definition HARNESS_WRITE_FLAGS :: "rstr list" where
  "HARNESS_WRITE_FLAGS = [''--logfile'']"

definition harness_writes_a_path :: "bool \<Rightarrow> rstr \<Rightarrow> bool" where
  "harness_writes_a_path win token \<longleftrightarrow> flag_name win token \<in> set HARNESS_WRITE_FLAGS"

section \<open>Identities\<close>

text \<open>The loop over the words after the program: the identity's words, or \<open>None\<close> where a flag in
  identity position degrades the identity to the literal line.\<close>

fun identity_words :: "Shape option \<Rightarrow> rstr list \<Rightarrow> rstr list \<Rightarrow> rstr list option" where
  "identity_words shape words [] = Some words"
| "identity_words shape words (raw # rest) =
     (let needed = (case shape of
                      Some sh \<Rightarrow> depth_for sh (get_at words 1)
                    | None \<Rightarrow> 1)
      in if length words \<ge> needed then Some words
         else if starts_with ''-'' raw then None
         else identity_words shape (words @ [to_ascii_lowercase raw]) rest)"

definition identity :: "bool \<Rightarrow> rstr list \<Rightarrow> rstr" where
  "identity win tokens =
     (case tokens of
        [] \<Rightarrow> []
      | first # rest \<Rightarrow>
          (let program = to_ascii_lowercase first;
               literal = squeeze (join_with [SPC] tokens)
           in if starts_with ''-'' program then []
              else if (program = ''python'' \<or> program = ''python3'') \<and>
                      get_at rest 0 = Some ''-m'' \<and> length rest \<ge> 2
              then program @ '' -m '' @ to_ascii_lowercase (rest ! 1)
              else if runs_the_rest_of_the_line (basename_lower win first) then literal
              else if list_ex (redirects_execution win) (option_tokens rest) \<or>
                      list_ex (harness_writes_a_path win) (trailing_tokens rest)
              then literal
              else (case identity_words (map_of PROGRAM_SHAPES program) [program] rest of
                      None \<Rightarrow> literal
                    | Some words \<Rightarrow> join_with [SPC] words)))"

section \<open>Trust rules and session keys\<close>

definition operands_outside_cwd :: "rstr list \<Rightarrow> rstr list" where
  "operands_outside_cwd words = filter operand_leaves_cwd (drop 1 words)"

definition rule_spells_out_word :: "bool \<Rightarrow> rstr \<Rightarrow> rstr \<Rightarrow> bool" where
  "rule_spells_out_word win rule token \<longleftrightarrow>
     list_ex (\<lambda>word. clean_token win word = to_ascii_lowercase (clean_token win token))
       (split_whitespace rule)"

definition rule_spells_out_flag :: "bool \<Rightarrow> rstr \<Rightarrow> rstr \<Rightarrow> bool" where
  "rule_spells_out_flag win rule flag \<longleftrightarrow>
     list_ex (\<lambda>word. flag_name win word = flag) (split_whitespace rule)"

definition rule_covers :: "bool \<Rightarrow> rstr \<Rightarrow> rstr \<Rightarrow> bool" where
  "rule_covers win rule0 command0 =
     (let rule = squeeze rule0 in
      if rule = [] then False
      else case executed_words win command0 of
             None \<Rightarrow> False
           | Some tokens \<Rightarrow>
               if list_ex (\<lambda>token. redirects_execution win token \<and>
                             \<not> rule_spells_out_flag win rule (flag_name win token))
                    (option_tokens tokens)
               then False
               else if list_ex (\<lambda>token. harness_writes_a_path win token \<and>
                                  \<not> rule_spells_out_flag win rule (flag_name win token))
                         (trailing_tokens tokens)
               then False
               else if list_ex (\<lambda>token. \<not> rule_spells_out_word win rule token)
                         (operands_outside_cwd tokens)
               then False
               else if identity win tokens = rule then True
               else (let command = squeeze command0
                     in command = rule \<or> starts_with (rule @ [SPC]) command))"

definition session_identity :: "bool \<Rightarrow> rstr \<Rightarrow> rstr option" where
  "session_identity win command0 =
     (let command = trim command0 in
      if segments command \<noteq> [command] then None
      else case executed_words win command of
             None \<Rightarrow> None
           | Some tokens \<Rightarrow>
               if (case tokens of [] \<Rightarrow> False | token # _ \<Rightarrow> CHR ''='' \<in> set token) then None
               else if operands_outside_cwd tokens \<noteq> [] then None
               else (let canonical = identity win tokens
                     in if canonical \<noteq> [] then Some canonical else None))"

section \<open>Squeezing\<close>

lemma split_whitespace_squeeze:
  "split_whitespace (squeeze s) = map to_ascii_lowercase (split_whitespace s)"
  unfolding squeeze_def to_ascii_lowercase_join
  by (rule split_whitespace_join) (auto dest: split_whitespace_words)

lemma squeeze_idem [simp]: "squeeze (squeeze s) = squeeze s"
  unfolding squeeze_def [of "squeeze s"] split_whitespace_squeeze
  by (simp add: squeeze_def to_ascii_lowercase_join comp_def)

lemma squeeze_Nil_iff: "squeeze s = [] \<longleftrightarrow> split_whitespace s = []"
proof
  assume "squeeze s = []"
  then have "map to_ascii_lowercase (split_whitespace s) = []"
    using split_whitespace_squeeze [of s] by simp
  then show "split_whitespace s = []" by simp
qed (simp add: squeeze_def to_ascii_lowercase_def)

section \<open>The program a rule covers\<close>

text \<open>The words the parser has closed, and how one round extends them or the open word.\<close>

definition closed_words :: "unattended_state \<Rightarrow> rstr list" where
  "closed_words st = concat (map argv (u_commands st)) @ u_argv st"

lemma unattended_step_words:
  assumes step: "unattended_step g st c cs = Some (st', rest)"
  shows "(\<exists>x. closed_words st' = closed_words st @ x) \<and>
    (closed_words st' = closed_words st \<and> u_word st' = u_word st \<or>
     closed_words st' = closed_words st \<and> (\<exists>u. u_word st' = Some (open_word (u_word st) @ u)) \<or>
     closed_words st' = closed_words st @ take_word (u_word st) \<and> u_word st' = None)"
proof (cases rule: char_class_cases [of c g])
  case escape
  with step show ?thesis
    by (cases cs) (auto simp: unattended_step_escape closed_words_def split: if_splits)
next
  case single
  with step obtain w where w: "single_quoted (open_word (u_word st)) cs = Some (w, rest)"
    and "st' = st\<lparr>u_word := Some w\<rparr>"
    by (auto simp: unattended_step_quotes)
  with single_quoted_collects [OF w] show ?thesis by (auto simp: closed_words_def)
next
  case double
  with step obtain w where w: "double_quoted g (open_word (u_word st)) cs = Some (w, rest)"
    and "st' = st\<lparr>u_word := Some w\<rparr>"
    by (auto simp: unattended_step_quotes)
  with double_quoted_collects [OF w] show ?thesis by (auto simp: closed_words_def)
next
  case amp
  with step show ?thesis
    by (cases cs) (auto simp: unattended_step_and closed_words_def split: if_splits)
qed (use step in \<open>auto simp: unattended_step_simps closed_words_def split: if_splits\<close>)

text \<open>Once a first word is closed it stays, and while it is open it only grows.\<close>

definition first_word_is :: "rstr \<Rightarrow> unattended_state \<Rightarrow> bool" where
  "first_word_is w st \<longleftrightarrow> (\<exists>rest. closed_words st = w # rest)"

definition first_word_extends :: "rstr \<Rightarrow> unattended_state \<Rightarrow> bool" where
  "first_word_extends w st \<longleftrightarrow>
     (\<exists>v rest. closed_words st @ take_word (u_word st) = v # rest \<and> prefix w v)"

lemma unattended_loop_first_word_is:
  "unattended_loop g st cs = Some st' \<Longrightarrow> first_word_is w st \<Longrightarrow> first_word_is w st'"
  by (rule unattended_loop_inv [where I = "\<lambda>st cs. first_word_is w st"])
    (auto simp: first_word_is_def dest: unattended_step_words)

lemma first_word_extends_step:
  assumes "unattended_step g st c cs = Some (st', rest)" "first_word_extends w st"
  shows "first_word_extends w st'"
proof -
  from assms(2) obtain v r where v: "closed_words st @ take_word (u_word st) = v # r" "prefix w v"
    by (auto simp: first_word_extends_def)
  from conjunct2 [OF unattended_step_words [OF assms(1)]] consider
    "closed_words st' = closed_words st" "u_word st' = u_word st"
    | u where "closed_words st' = closed_words st" "u_word st' = Some (open_word (u_word st) @ u)"
    | "closed_words st' = closed_words st @ take_word (u_word st)" "u_word st' = None"
    by metis
  then show ?thesis
  proof cases
    case (2 u)
    show ?thesis
    proof (cases "closed_words st")
      case Nil
      with v 2 show ?thesis
        by (cases "u_word st") (auto simp: first_word_extends_def)
    next
      case (Cons x xs)
      with v 2 show ?thesis by (simp add: first_word_extends_def)
    qed
  qed (use v in \<open>auto simp: first_word_extends_def\<close>)
qed

lemma unattended_loop_first_word_extends:
  "unattended_loop g st cs = Some st' \<Longrightarrow> first_word_extends w st \<Longrightarrow> first_word_extends w st'"
  by (rule unattended_loop_inv [where I = "\<lambda>st cs. first_word_extends w st"])
    (auto intro: first_word_extends_step)

lemma executed_words_first:
  assumes "executed_words win command = Some words"
  obtains st where "unattended_loop (HOST win)
      \<lparr>u_commands = [], u_argv = [], u_word = None, u_gate = Always\<rparr> command = Some st"
    and "words = closed_words st @ take_word (u_word st)" "words \<noteq> []" "hd words \<noteq> []"
proof -
  from assms obtain cs where parse: "parse_unattended_in (HOST win) command = Some cs"
    and one: "length cs = 1" and words: "words = argv (last cs)"
    by (auto simp: executed_words_def executed_words_in_def split: option.splits if_splits)
  from parse obtain st where loop: "unattended_loop (HOST win)
      \<lparr>u_commands = [], u_argv = [], u_word = None, u_gate = Always\<rparr> command = Some st"
    and cs: "cs = u_commands st @
           (if u_argv st @ take_word (u_word st) = [] then []
            else [unattended_command (u_argv st @ take_word (u_word st)) (u_gate st)])"
    and run: "\<forall>c \<in> set cs. runnable_argv (argv c)"
    by (rule parse_unattended_inD)
  obtain c where c: "cs = [c]" using one by (cases cs) auto
  have "words = closed_words st @ take_word (u_word st)"
    using words c unfolding cs closed_words_def
    by (cases "u_commands st") (auto split: if_splits)
  moreover have "words \<noteq> []" "hd words \<noteq> []"
    using run words c by (auto simp: runnable_argv_def split: list.splits)
  ultimately show thesis using loop that by blast
qed

lemma executed_words_nonempty:
  assumes "executed_words win command = Some words"
  shows "words \<noteq> []" "hd words \<noteq> []"
  by (rule executed_words_first [OF assms], assumption)+

text \<open>Leading blanks are skipped and plain characters open the first word.\<close>

abbreviation initial_state :: unattended_state where
  "initial_state \<equiv> \<lparr>u_commands = [], u_argv = [], u_word = None, u_gate = Always\<rparr>"

lemma loop_skips_blanks:
  "set lead \<subseteq> {SPC, TAB, NL} \<Longrightarrow>
   unattended_loop g initial_state (lead @ rest) = unattended_loop g initial_state rest"
  by (induction lead) (auto simp: unattended_step_blank unattended_step_end)

lemma loop_reads_plain:
  "\<forall>c \<in> set w. plain_char g c \<Longrightarrow>
   unattended_loop g (st\<lparr>u_word := Some v\<rparr>) (w @ rest) =
   unattended_loop g (st\<lparr>u_word := Some (v @ w)\<rparr>) rest"
  by (induction w arbitrary: v) (auto simp: unattended_step_plain)

lemma loop_opens_plain:
  "w \<noteq> [] \<Longrightarrow> \<forall>c \<in> set w. plain_char g c \<Longrightarrow>
   unattended_loop g initial_state (w @ rest) =
   unattended_loop g (initial_state\<lparr>u_word := Some w\<rparr>) rest"
proof (cases w)
  case (Cons c w')
  assume "\<forall>c \<in> set w. plain_char g c"
  then show ?thesis
    using Cons loop_reads_plain [of w' g, where st = initial_state and v = "[c]" and rest = rest]
    by (simp add: unattended_step_plain)
qed simp

lemma lower_special:
  assumes "to_ascii_lowercase t = r" "set r \<inter> set special = {}"
    and "\<forall>c \<in> set special. \<not> is_ascii_uppercase c"
  shows "set t \<inter> set special = {}"
proof -
  have "c \<in> set r" if "c \<in> set t" "c \<in> set special" for c
  proof -
    have "ascii_lower_char c = c" using assms(3) that(2) by (simp add: ascii_lower_char_def)
    with that(1) assms(1) show ?thesis by (metis imageI list.set_map to_ascii_lowercase_def)
  qed
  with assms(2) show ?thesis by auto
qed

definition SHELL_SYNTAX :: rstr where
  "SHELL_SYNTAX = [SQ, DQ, BSL, CHR ''#'', CHR '';'', CHR ''&'', CHR ''|'']"

lemma SHELL_SYNTAX_plain:
  "\<forall>c \<in> set SHELL_SYNTAX. \<not> is_whitespace c \<and> \<not> is_ascii_uppercase c"
  by (simp add: SHELL_SYNTAX_def is_whitespace_def is_ascii_uppercase_def)

lemma plain_charI: "c \<notin> set SHELL_SYNTAX \<Longrightarrow> c \<notin> {SPC, TAB, NL} \<Longrightarrow> plain_char g c"
  unfolding plain_char_def SHELL_SYNTAX_def by (simp only: list.set insert_iff empty_iff) simp

lemma blank_whitespace: "c \<in> {SPC, TAB, NL} \<Longrightarrow> is_whitespace c"
  by (auto simp: is_whitespace_def)

lemma split_list_first_outside:
  assumes "\<not> set xs \<subseteq> B"
  obtains ys x zs where "xs = ys @ x # zs" "set ys \<subseteq> B" "x \<notin> B"
  using assms split_list_first_prop [of xs "\<lambda>x. x \<notin> B"] by blast

lemma first_token_is_program:
  assumes words: "executed_words win command = Some words"
    and first: "split_whitespace command = t # ts" and plain: "set t \<inter> set SHELL_SYNTAX = {}"
  shows "hd words = t \<or> (\<exists>c \<in> set (hd words). is_whitespace c)"
proof -
  from words obtain st where loop: "unattended_loop (HOST win) initial_state command = Some st"
    and w: "words = closed_words st @ take_word (u_word st)" "words \<noteq> []"
    by (rule executed_words_first)
  have extends: "prefix v (hd words)" if "unattended_loop (HOST win) (initial_state\<lparr>u_word := Some v\<rparr>) r = Some st" for v r
    using unattended_loop_first_word_extends [OF that, of v] w
    by (auto simp: first_word_extends_def closed_words_def)
  have isw: "hd words = v" if "unattended_loop (HOST win) s r = Some st" "first_word_is v s" for v r s
    using unattended_loop_first_word_is [OF that] w by (auto simp: first_word_is_def)
  from split_whitespace_ConsD [OF first] obtain lead rest where c: "command = lead @ t @ rest"
    "\<forall>c \<in> set lead. is_whitespace c" "rest = [] \<or> is_whitespace (hd rest)" by blast
  have t: "t \<noteq> []" "\<forall>c \<in> set t. \<not> is_whitespace c"
    using split_whitespace_words [of t command] first by auto
  have pc: "\<forall>c \<in> set t. plain_char (HOST win) c"
  proof (intro ballI plain_charI)
    fix c assume c: "c \<in> set t"
    with plain show "c \<notin> set SHELL_SYNTAX" by (metis disjoint_iff)
    from c t(2) show "c \<notin> {SPC, TAB, NL}" using blank_whitespace by metis
  qed
  have ws_plain: "plain_char (HOST win) d" if "is_whitespace d" "d \<notin> {SPC, TAB, NL}" for d
    using that SHELL_SYNTAX_plain by (metis plain_charI)
  show ?thesis
  proof (cases "set lead \<subseteq> {SPC, TAB, NL}")
    case False
    obtain l1 d l2 where l: "lead = l1 @ d # l2" "set l1 \<subseteq> {SPC, TAB, NL}" "d \<notin> {SPC, TAB, NL}"
      using split_list_first_outside [OF False] .
    have "is_whitespace d" using c(2) l(1) by simp
    with l(3) have "unattended_loop (HOST win) (initial_state\<lparr>u_word := Some [d]\<rparr>) (l2 @ t @ rest) = Some st"
      using loop l ws_plain [of d] loop_skips_blanks [OF l(2), of "HOST win" "d # l2 @ t @ rest"]
      by (simp add: c(1) unattended_step_plain)
    from extends [OF this] have "d \<in> set (hd words)" by (cases "hd words") auto
    with \<open>is_whitespace d\<close> show ?thesis by blast
  next
    case True
    have opened: "unattended_loop (HOST win) (initial_state\<lparr>u_word := Some t\<rparr>) rest = Some st"
      using loop loop_skips_blanks [OF True] loop_opens_plain [OF t(1) pc] by (simp add: c(1))
    show ?thesis
    proof (cases rest)
      case Nil
      with opened have "st = initial_state\<lparr>u_word := Some t\<rparr>" by simp
      with w show ?thesis by (simp add: closed_words_def)
    next
      case (Cons d r)
      then have d: "is_whitespace d" using c(3) by simp
      consider "d = SPC \<or> d = TAB" | "d = NL" | "d \<notin> {SPC, TAB, NL}" by blast
      then show ?thesis
      proof cases
        case 1
        with opened Cons have "unattended_loop (HOST win) (initial_state\<lparr>u_argv := [t]\<rparr>) r = Some st"
          by (auto simp: unattended_step_blank)
        from isw [OF this, of t] show ?thesis by (simp add: first_word_is_def closed_words_def)
      next
        case 2
        with opened Cons have "unattended_loop (HOST win)
            \<lparr>u_commands = [unattended_command [t] Always], u_argv = [], u_word = None, u_gate = Always\<rparr> r = Some st"
          by (auto simp: unattended_step_end)
        from isw [OF this, of t] show ?thesis by (simp add: first_word_is_def closed_words_def)
      next
        case 3
        with opened Cons ws_plain [OF d 3]
        have "unattended_loop (HOST win) (initial_state\<lparr>u_word := Some (t @ [d])\<rparr>) r = Some st"
          by (simp add: unattended_step_plain)
        from extends [OF this] have "d \<in> set (hd words)" by (auto simp: prefix_def)
        with d show ?thesis by blast
      qed
    qed
  qed
qed

text \<open>The identity of a command starts with its program word.\<close>

lemma identity_words_head:
  "identity_words shape (p # ws) rest = Some v \<Longrightarrow> \<exists>vs. v = p # vs"
  by (induction shape "p # ws" rest arbitrary: ws rule: identity_words.induct)
    (auto simp: Let_def split: if_splits)

lemma join_with_Cons: "join_with [SPC] (p # vs) = p \<or> prefix (p @ [SPC]) (join_with [SPC] (p # vs))"
  by (cases vs) auto

lemma squeeze_join_head:
  assumes "p \<noteq> []" "\<forall>c \<in> set p. \<not> is_whitespace c"
  shows "\<exists>vs. squeeze (join_with [SPC] (p # rest)) = join_with [SPC] (to_ascii_lowercase p # vs)"
proof -
  have "\<exists>us. split_whitespace (join_with [SPC] (p # rest)) = p # us"
    using split_whitespace_free [OF assms] split_whitespace_sep [of SPC p]
    by (cases rest) auto
  then show ?thesis by (auto simp: squeeze_def to_ascii_lowercase_join)
qed

lemma identity_head:
  assumes "identity win (p # rest) \<noteq> []" "p \<noteq> []" "\<forall>c \<in> set p. \<not> is_whitespace c"
  shows "hd (split_whitespace (identity win (p # rest))) = to_ascii_lowercase p"
proof -
  have "\<exists>vs. identity win (p # rest) = join_with [SPC] (to_ascii_lowercase p # vs)"
  proof -
    have "\<exists>vs. to_ascii_lowercase p @ '' -m '' @ m = join_with [SPC] (to_ascii_lowercase p # vs)" for m
      by (intro exI [of _ "[''-m'', m]"]) simp
    then show ?thesis
      using assms(1) squeeze_join_head [OF assms(2,3), of rest]
      unfolding identity_def Let_def
      by (auto split: if_splits option.splits dest!: identity_words_head)
  qed
  then obtain vs where eq: "identity win (p # rest) = join_with [SPC] (to_ascii_lowercase p # vs)" ..
  have "split_whitespace (to_ascii_lowercase p) = [to_ascii_lowercase p]"
    using assms(2,3) by (intro split_whitespace_free) simp_all
  then show ?thesis
    unfolding eq using split_whitespace_sep [of SPC "to_ascii_lowercase p"]
    by (cases vs) auto
qed

lemma rule_coversD:
  assumes "rule_covers win rule command"
  obtains words where "executed_words win command = Some words" "squeeze rule \<noteq> []"
    "identity win words = squeeze rule \<or> squeeze command = squeeze rule \<or>
     prefix (squeeze rule @ [SPC]) (squeeze command)"
    "\<forall>t \<in> set (option_tokens words). redirects_execution win t \<longrightarrow>
       rule_spells_out_flag win (squeeze rule) (flag_name win t)"
    "\<forall>t \<in> set (trailing_tokens words). harness_writes_a_path win t \<longrightarrow>
       rule_spells_out_flag win (squeeze rule) (flag_name win t)"
    "\<forall>t \<in> set (operands_outside_cwd words). rule_spells_out_word win (squeeze rule) t"
proof (cases "executed_words win command")
  case None
  with assms show thesis by (simp add: rule_covers_def Let_def split: if_splits)
next
  case (Some words)
  have e: "rule_covers win rule command \<longleftrightarrow> squeeze rule \<noteq> [] \<and>
    \<not> list_ex (\<lambda>t. redirects_execution win t \<and> \<not> rule_spells_out_flag win (squeeze rule) (flag_name win t))
        (option_tokens words) \<and>
    \<not> list_ex (\<lambda>t. harness_writes_a_path win t \<and> \<not> rule_spells_out_flag win (squeeze rule) (flag_name win t))
        (trailing_tokens words) \<and>
    \<not> list_ex (\<lambda>t. \<not> rule_spells_out_word win (squeeze rule) t) (operands_outside_cwd words) \<and>
    (identity win words = squeeze rule \<or> squeeze command = squeeze rule \<or>
     starts_with (squeeze rule @ [SPC]) (squeeze command))"
    unfolding rule_covers_def Let_def Some option.case if_bool_eq_conj by argo
  show thesis
    by (rule that [OF Some]) (use assms in \<open>simp_all add: e list_ex_iff starts_with_iff\<close>)
qed

lemma executed_words_parse:
  assumes "executed_words win command = Some words"
  shows "parse_unattended win command = Some [unattended_command words Always]"
proof -
  from assms obtain cs where cs: "parse_unattended_in (HOST win) command = Some cs"
    "length cs = 1" "words = argv (last cs)"
    by (auto simp: executed_words_def executed_words_in_def split: option.splits if_splits)
  obtain c where c: "cs = [c]" using cs(2) by (cases cs) auto
  have "run_if c = Always" using parse_unattended_first_gate [OF cs(1)] c by simp
  with cs(1,3) c show ?thesis by (simp add: parse_unattended_def)
qed

section \<open>Properties\<close>

text \<open>A trust rule never lends its trust to another program. If a rule whose first word
  holds no shell syntax covers a command, the command is one simple command, and the program the
  executor runs is the rule's first word, letter case aside, unless the program word itself holds
  white space (which \<^verbatim>\<open>rule_covers_exotic_blank\<close> shows can happen).\<close>

theorem rule_covers_program:
  assumes "rule_covers win rule command"
    and "set (hd (split_whitespace (squeeze rule))) \<inter> set SHELL_SYNTAX = {}"
  shows "\<exists>words. parse_unattended win command = Some [unattended_command words Always] \<and>
     (to_ascii_lowercase (hd words) = hd (split_whitespace (squeeze rule)) \<or>
      (\<exists>c \<in> set (hd words). is_whitespace c))"
proof -
  from assms(1) obtain words where words: "executed_words win command = Some words"
    and ne: "squeeze rule \<noteq> []"
    and match: "identity win words = squeeze rule \<or> squeeze command = squeeze rule \<or>
       prefix (squeeze rule @ [SPC]) (squeeze command)"
    by (rule rule_coversD)
  obtain r rs where r: "split_whitespace rule = r # rs"
    using ne by (cases "split_whitespace rule") (auto simp: squeeze_Nil_iff)
  have sq: "hd (split_whitespace (squeeze rule)) = to_ascii_lowercase r"
    by (simp add: split_whitespace_squeeze r)
  note executed_words_nonempty [OF words]
  then obtain p args where p: "words = p # args" "p \<noteq> []" by (cases words) simp_all
  have "to_ascii_lowercase p = to_ascii_lowercase r \<or> (\<exists>c \<in> set p. is_whitespace c)"
  proof (cases "identity win words = squeeze rule")
    case True
    show ?thesis
    proof (cases "\<forall>c \<in> set p. \<not> is_whitespace c")
      case free: True
      have "identity win (p # args) \<noteq> []" using True ne p(1) by simp
      from identity_head [OF this p(2) free] True sq p(1) show ?thesis by simp
    qed blast
  next
    case False
    with match consider "squeeze command = squeeze rule"
      | x where "squeeze command = squeeze rule @ SPC # x" by (auto simp: prefix_def)
    then have "\<exists>x. split_whitespace (squeeze command) = split_whitespace (squeeze rule) @ x"
      by cases (auto simp: split_whitespace_sep)
    then obtain x where "map to_ascii_lowercase (split_whitespace command) = to_ascii_lowercase r # x"
      by (auto simp: split_whitespace_squeeze r)
    then obtain t ts where t: "split_whitespace command = t # ts" "to_ascii_lowercase t = to_ascii_lowercase r"
      by (auto simp: map_eq_Cons_conv)
    have low: "set (to_ascii_lowercase r) \<inter> set SHELL_SYNTAX = {}"
      using assms(2) unfolding sq .
    have "set t \<inter> set SHELL_SYNTAX = {}"
      using lower_special [OF t(2) low] SHELL_SYNTAX_plain by metis
    from first_token_is_program [OF words t(1) this] t(2) p(1) show ?thesis by auto
  qed
  then show ?thesis
    by (intro exI [of _ words] conjI executed_words_parse [OF words]) (simp only: p(1) list.sel sq)
qed

theorem rule_covers_program_witness:
  "rule_covers False ''git status'' ''git status -s'' \<and>
   (\<exists>words. parse_unattended False ''git status -s'' = Some [unattended_command words Always] \<and>
     (to_ascii_lowercase (hd words) = ''git'' \<or> (\<exists>c \<in> set (hd words). is_whitespace c)))"
proof -
  have c: "rule_covers False ''git status'' ''git status -s''" by code_simp
  have h: "hd (split_whitespace (squeeze ''git status'')) = ''git''"
    "set (hd (split_whitespace (squeeze ''git status''))) \<inter> set SHELL_SYNTAX = {}" by code_simp+
  from rule_covers_program [OF c h(2)] c show ?thesis by (simp only: h(1))
qed

text \<open>White space that Rust's \<^verbatim>\<open>split_whitespace\<close> cuts at and the parser does not (a vertical tab, a
  form feed, a carriage return) makes the two disagree: the rule for \<^verbatim>\<open>ls\<close> covers a line whose one
  word is a program of another name, here a file in the directory \<^verbatim>\<open>ls<VT>.\<close> of the workspace.\<close>

lemma rule_covers_exotic_blank:
  "rule_covers False ''ls'' (''ls'' @ [CHR 0x0B] @ ''./evil'') \<and>
   executed_words False (''ls'' @ [CHR 0x0B] @ ''./evil'') = Some [''ls'' @ [CHR 0x0B] @ ''./evil'']"
  by code_simp

text \<open>The three fences of a trust rule, on the words the executor passes to the program: a
  covered command has no option that redirects execution, no harness flag that writes a path after
  \<^verbatim>\<open>--\<close>, and no operand that leaves the working directory, unless a word of the rule itself names
  that flag or that operand.\<close>

theorem rule_covers_fenced:
  assumes "rule_covers win rule command"
  shows "\<exists>words. parse_unattended win command = Some [unattended_command words Always] \<and>
    (\<forall>t \<in> set (option_tokens words). flag_name win t \<in> set REDIRECTING \<longrightarrow>
       (\<exists>w \<in> set (split_whitespace (squeeze rule)). flag_name win w = flag_name win t)) \<and>
    (\<forall>t \<in> set (trailing_tokens words). flag_name win t \<in> set HARNESS_WRITE_FLAGS \<longrightarrow>
       (\<exists>w \<in> set (split_whitespace (squeeze rule)). flag_name win w = flag_name win t)) \<and>
    (\<forall>t \<in> set (drop 1 words). operand_leaves_cwd t \<longrightarrow>
       (\<exists>w \<in> set (split_whitespace (squeeze rule)).
          clean_token win w = to_ascii_lowercase (clean_token win t)))"
proof -
  from assms obtain words where words: "executed_words win command = Some words"
    and f: "\<forall>t \<in> set (option_tokens words). redirects_execution win t \<longrightarrow>
       rule_spells_out_flag win (squeeze rule) (flag_name win t)"
    "\<forall>t \<in> set (trailing_tokens words). harness_writes_a_path win t \<longrightarrow>
       rule_spells_out_flag win (squeeze rule) (flag_name win t)"
    "\<forall>t \<in> set (operands_outside_cwd words). rule_spells_out_word win (squeeze rule) t"
    by (rule rule_coversD)
  from f show ?thesis
    by (intro exI [of _ words] conjI executed_words_parse [OF words])
      (simp_all add: redirects_execution_def harness_writes_a_path_def rule_spells_out_flag_def
        rule_spells_out_word_def operands_outside_cwd_def list_ex_iff)
qed

theorem rule_covers_fenced_witness:
  "rule_covers False ''ls /tmp'' ''ls -l /tmp'' = False \<and> rule_covers False ''ls -l /tmp'' ''ls -l /tmp'' \<and>
   (\<exists>words. parse_unattended False ''ls -l /tmp'' = Some [unattended_command words Always] \<and>
     (\<forall>t \<in> set (drop 1 words). operand_leaves_cwd t \<longrightarrow>
       (\<exists>w \<in> set (split_whitespace (squeeze ''ls -l /tmp'')).
          clean_token False w = to_ascii_lowercase (clean_token False t))))"
proof -
  have c: "rule_covers False ''ls /tmp'' ''ls -l /tmp'' = False" "rule_covers False ''ls -l /tmp'' ''ls -l /tmp''"
    by code_simp+
  from rule_covers_fenced [OF c(2)] c show ?thesis by blast
qed

text \<open>What a session consent is remembered for. A command has a session key only if it is
  one segment that parses to exactly one unconditional command, whose program word is no assignment
  and none of whose operands leaves the working directory; the key is the identity of the words the
  executor runs, and when an option of the command redirects execution, the key is the whole line,
  squeezed (or the \<^verbatim>\<open>python -m\<close> module).\<close>

theorem session_identity_sound:
  assumes "session_identity win command = Some key"
  shows "\<exists>program args.
     parse_unattended win (trim command) = Some [unattended_command (program # args) Always] \<and>
     segments (trim command) = [trim command] \<and> CHR ''='' \<notin> set program \<and>
     (\<forall>t \<in> set args. \<not> operand_leaves_cwd t) \<and>
     key = identity win (program # args) \<and> key \<noteq> [] \<and>
     ((\<exists>t \<in> set (option_tokens args). flag_name win t \<in> set REDIRECTING) \<longrightarrow>
        key = squeeze (join_with [SPC] (program # args)) \<or> prefix ''python'' key)"
proof -
  from assms obtain words where seg: "segments (trim command) = [trim command]"
    and words: "executed_words win (trim command) = Some words"
    and ops: "operands_outside_cwd words = []" and key: "key = identity win words" "key \<noteq> []"
    by (auto simp: session_identity_def Let_def split: if_splits option.splits)
  have "words \<noteq> []" by (rule executed_words_nonempty(1) [OF words])
  then obtain program args where w: "words = program # args" by (cases words) simp_all
  have "CHR ''='' \<notin> set program"
    using assms words seg by (auto simp: session_identity_def Let_def w split: if_splits)
  moreover have "\<forall>t \<in> set args. \<not> operand_leaves_cwd t"
    using ops by (simp add: operands_outside_cwd_def w filter_empty_conv)
  moreover have "key = squeeze (join_with [SPC] (program # args)) \<or> prefix ''python'' key"
    if "\<exists>t \<in> set (option_tokens args). flag_name win t \<in> set REDIRECTING"
    using that key unfolding w identity_def Let_def
    by (auto simp: list_ex_iff redirects_execution_def split: if_splits)
  ultimately show ?thesis
    using executed_words_parse [OF words] seg key w by blast
qed

theorem session_identity_sound_witness:
  "session_identity False ''cargo test --config x'' = Some ''cargo test --config x'' \<and>
   (\<exists>program args.
     parse_unattended False (trim ''cargo test --config x'') = Some [unattended_command (program # args) Always] \<and>
     (\<forall>t \<in> set args. \<not> operand_leaves_cwd t))"
proof -
  have "session_identity False ''cargo test --config x'' = Some ''cargo test --config x''" by code_simp
  from session_identity_sound [OF this] this show ?thesis by blast
qed

text \<open>The key of a line kept in full still folds letter case and joins words by blanks, so it is not
  the key of that line alone: two commands that read different files share one.\<close>

lemma session_key_shared:
  "session_identity False (''sh -c '' @ [SQ] @ ''cat Notes'' @ [SQ]) =
   session_identity False (''sh -c '' @ [SQ] @ ''cat notes'' @ [SQ]) \<and>
   session_identity False (''sh -c '' @ [SQ] @ ''cat notes'' @ [SQ]) = Some ''sh -c cat notes'' \<and>
   executed_words False (''sh -c '' @ [SQ] @ ''cat Notes'' @ [SQ]) \<noteq>
   executed_words False (''sh -c '' @ [SQ] @ ''cat notes'' @ [SQ])"
  by code_simp

text \<open>An identity is complete when the words read so far are as many as the program's shape asks
  for.\<close>

definition identity_complete :: "rstr \<Rightarrow> rstr list \<Rightarrow> bool" where
  "identity_complete program args \<longleftrightarrow>
     (let shape = map_of PROGRAM_SHAPES (to_ascii_lowercase program)
      in case identity_words shape [to_ascii_lowercase program] args of
           None \<Rightarrow> False
         | Some ws \<Rightarrow> (case shape of Some sh \<Rightarrow> depth_for sh (get_at ws 1) | None \<Rightarrow> 1) \<le> length ws)"

lemma identity_words_append:
  "identity_words shape v args = Some ws \<Longrightarrow>
   (case shape of Some sh \<Rightarrow> depth_for sh (get_at ws 1) | None \<Rightarrow> 1) \<le> length ws \<Longrightarrow>
   identity_words shape v (args @ extra) = Some ws"
proof (induction shape v args rule: identity_words.induct)
  case (1 shape words)
  then show ?case by (cases extra) (simp_all add: Let_def)
next
  case (2 shape words raw rest)
  then show ?case by (simp add: Let_def split: if_splits)
qed

text \<open>Flags do not change what a command is. Once the identity of a command that opens
  with no wrapper or interpreter is complete, appending any words, flags included, that are no
  redirecting option leaves the identity as it was; so every flag variant of a command has the
  same session key and meets the same identity rules.\<close>

theorem identity_ignores_arguments:
  assumes "identity_complete program args"
    and "\<not> runs_the_rest_of_the_line (basename_lower win program)"
    and "''--'' \<notin> set (args @ extra)"
    and "\<forall>t \<in> set (args @ extra). flag_name win t \<notin> set REDIRECTING"
    and "program \<noteq> []"
    and "\<not> (get_at args 0 = Some ''-m'' \<or> args = [])"
  shows "identity win (program # args @ extra) = identity win (program # args)"
proof -
  let ?p = "to_ascii_lowercase program"
  let ?shape = "map_of PROGRAM_SHAPES ?p"
  from assms(1) obtain ws where ws: "identity_words ?shape [?p] args = Some ws"
    "(case ?shape of Some sh \<Rightarrow> depth_for sh (get_at ws 1) | None \<Rightarrow> 1) \<le> length ws"
    by (auto simp: identity_complete_def Let_def split: option.splits)
  have extra: "identity_words ?shape [?p] (args @ extra) = Some ws"
    using identity_words_append [OF ws] .
  have none: "\<not> list_ex (redirects_execution win) (option_tokens v)"
    "\<not> list_ex (harness_writes_a_path win) (trailing_tokens v)"
    if "set v \<subseteq> set (args @ extra)" for v
  proof -
    show "\<not> list_ex (redirects_execution win) (option_tokens v)"
      using that assms(4)
      by (auto simp: list_ex_iff redirects_execution_def option_tokens_def dest!: set_takeWhileD)
    have "dropWhile (\<lambda>t. t \<noteq> ''--'') v = []" using that assms(3) by auto
    then show "\<not> list_ex (harness_writes_a_path win) (trailing_tokens v)"
      unfolding trailing_tokens_def by (metis drop_Nil list_ex_iff empty_iff list.set(1))
  qed
  have first: "get_at (args @ extra) 0 = get_at args 0"
    using assms(6) by (cases args) (simp_all add: get_at_def)
  show ?thesis
    unfolding identity_def Let_def list.case first
    using assms(2,6) none [of "args @ extra"] none [of args] ws(1) extra by simp
qed

theorem identity_ignores_arguments_witness:
  "identity False (''git'' # [''status''] @ [''-s'', ''--porcelain'']) = identity False [''git'', ''status'']"
proof (rule identity_ignores_arguments)
  show "identity_complete ''git'' [''status'']"
    "\<not> runs_the_rest_of_the_line (basename_lower False ''git'')"
    "''--'' \<notin> set ([''status''] @ [''-s'', ''--porcelain''])"
    "\<forall>t \<in> set ([''status''] @ [''-s'', ''--porcelain'']). flag_name False t \<notin> set REDIRECTING"
    "(''git''::rstr) \<noteq> []"
    "\<not> (get_at [''status''] 0 = Some ''-m'' \<or> [''status''] = [])" by code_simp+
qed

end
