(* ===== verification/Trusted_Run.thy ===== *)
theory Trusted_Run
  imports Command_Shape
begin

text \<open>
  What the rules judge is what runs. The trust gate cuts a line into segments without reading quotes
  and matches a rule against each segment on its own, while the executor parses the whole line and
  runs the commands of that parse. This theory relates the two: when every segment of a line parses
  to one command of its own, each command of the whole line is the command of one of its segments.
\<close>

section \<open>Running a piece of a line\<close>

abbreviation separator_free :: "rstr \<Rightarrow> bool" where
  "separator_free s \<equiv> set s \<inter> set SEGMENT_SEPARATORS = {}"

lemma single_quoted_append:
  "single_quoted w p = Some (w', r) \<Longrightarrow> single_quoted w (p @ rest) = Some (w', r @ rest)"
  by (induction w p rule: single_quoted.induct) (auto split: if_splits)

lemma double_quoted_append:
  "double_quoted g w p = Some (w', r) \<Longrightarrow> double_quoted g w (p @ rest) = Some (w', r @ rest)"
  by (induction g w p rule: double_quoted.induct) (auto split: if_splits list.splits)

lemma single_quoted_suffix: "single_quoted w p = Some (w', r) \<Longrightarrow> suffix r p"
  by (induction w p rule: single_quoted.induct) (auto split: if_splits intro: suffix_ConsI)

lemma double_quoted_suffix: "double_quoted g w p = Some (w', r) \<Longrightarrow> suffix r p"
  by (induction g w p rule: double_quoted.induct)
    (auto split: if_splits list.splits intro: suffix_ConsI)

text \<open>One round on a piece: it leaves the finished commands and the gate alone, does not depend on
  them, and does the same when more text follows, except that a comment swallows the text up to the
  next newline.\<close>

lemma piece_step:
  assumes "unattended_step g st c p = Some (st', r)" "separator_free (c # p)"
  shows "u_commands st' = u_commands st \<and> u_gate st' = u_gate st \<and> suffix r p \<and>
    unattended_step g (st\<lparr>u_commands := C, u_gate := G\<rparr>) c p = Some (st'\<lparr>u_commands := C, u_gate := G\<rparr>, r) \<and>
    (unattended_step g st c (p @ rest) = Some (st', r @ rest) \<or>
     r = [] \<and> unattended_step g st c (p @ rest) = Some (st', dropWhile (\<lambda>ch. ch \<noteq> NL) rest))"
proof (cases rule: char_class_cases [of c g])
  case escape
  with assms show ?thesis
    by (cases p) (auto simp: unattended_step_escape suffix_ConsI split: if_splits)
next
  case single
  with assms(1) obtain w where "single_quoted (open_word (u_word st)) p = Some (w, r)" "st' = st\<lparr>u_word := Some w\<rparr>"
    by (auto simp: unattended_step_quotes)
  with single show ?thesis
    by (auto simp: unattended_step_quotes single_quoted_append intro: single_quoted_suffix)
next
  case double
  with assms(1) obtain w where "double_quoted g (open_word (u_word st)) p = Some (w, r)" "st' = st\<lparr>u_word := Some w\<rparr>"
    by (auto simp: unattended_step_quotes)
  with double show ?thesis
    by (auto simp: unattended_step_quotes double_quoted_append intro: double_quoted_suffix)
next
  case hash
  have free: "dropWhile (\<lambda>ch. ch \<noteq> NL) p = []" using assms(2) by (auto simp: SEGMENT_SEPARATORS_def)
  have more: "dropWhile (\<lambda>ch. ch \<noteq> NL) (p @ rest) = dropWhile (\<lambda>ch. ch \<noteq> NL) rest"
    using assms(2) by (intro dropWhile_append2) (auto simp: SEGMENT_SEPARATORS_def)
  show ?thesis
  proof (cases "comments_with_hash g \<and> u_word st = None")
    case True
    with assms(1) have "st' = st" "r = []" by (simp_all only: hash unattended_step_hash free) simp_all
    with True show ?thesis by (simp only: hash unattended_step_hash free more) simp
  next
    case False
    with assms(1) have "st' = st\<lparr>u_word := Some (open_word (u_word st) @ [CHR ''#''])\<rparr>" "r = p"
      by (simp_all only: hash unattended_step_hash if_False option.inject prod.inject)
    with False show ?thesis by (simp only: hash unattended_step_hash) auto
  qed
next
  case plain
  with assms(1) show ?thesis by (auto simp: unattended_step_plain)
next
  case blank
  have "unattended_step g t c q = Some (t\<lparr>u_argv := u_argv t @ take_word (u_word t), u_word := None\<rparr>, q)" for t q
    using blank by (auto simp: unattended_step_blank)
  with assms(1) show ?thesis by auto
qed (use assms(2) in \<open>simp_all add: SEGMENT_SEPARATORS_def\<close>)

lemma piece_loop:
  assumes "unattended_loop g st p = Some st'" "separator_free p"
  shows "u_commands st' = u_commands st \<and> u_gate st' = u_gate st \<and>
    unattended_loop g (st\<lparr>u_commands := C, u_gate := G\<rparr>) p = Some (st'\<lparr>u_commands := C, u_gate := G\<rparr>) \<and>
    (unattended_loop g st (p @ rest) = unattended_loop g st' rest \<or>
     unattended_loop g st (p @ rest) = unattended_loop g st' (dropWhile (\<lambda>ch. ch \<noteq> NL) rest))"
  using assms
proof (induction g st p rule: unattended_loop.induct)
  case (1 g st)
  then show ?case by simp
next
  case (2 g st c p)
  from "2.prems"(1) obtain st1 r where step: "unattended_step g st c p = Some (st1, r)"
    and loop: "unattended_loop g st1 r = Some st'" by (auto split: option.splits)
  note s = piece_step [OF step "2.prems"(2), where C = C and G = G and rest = rest]
  from s have "set r \<subseteq> set p" by (auto dest: set_mono_suffix)
  then have r: "separator_free r" using "2.prems"(2) by auto
  note ih = "2.IH" [OF step refl loop r]
  consider (same) "unattended_step g st c (p @ rest) = Some (st1, r @ rest)"
    | (comment) "r = []" "unattended_step g st c (p @ rest) = Some (st1, dropWhile (\<lambda>ch. ch \<noteq> NL) rest)"
    using s by blast
  then show ?case
  proof cases
    case same
    with s ih show ?thesis by simp
  next
    case comment
    with s loop ih show ?thesis by simp
  qed
qed

section \<open>The words of a segment\<close>

definition finished_words :: "unattended_state \<Rightarrow> rstr list" where
  "finished_words st = u_argv st @ take_word (u_word st)"

lemma loop_blanks:
  "set bs \<subseteq> {SPC, TAB} \<Longrightarrow>
   \<exists>st'. unattended_loop g st bs = Some st' \<and> finished_words st' = finished_words st"
proof (induction bs arbitrary: st)
  case (Cons b bs)
  then have "b = SPC \<or> b = TAB" by simp
  then have step: "unattended_step g st b bs = Some (st\<lparr>u_argv := finished_words st, u_word := None\<rparr>, bs)"
    by (auto simp: unattended_step_blank finished_words_def)
  from Cons obtain st' where "unattended_loop g (st\<lparr>u_argv := finished_words st, u_word := None\<rparr>) bs = Some st'"
    "finished_words st' = finished_words (st\<lparr>u_argv := finished_words st, u_word := None\<rparr>)" by auto
  then show ?case by (simp add: step) (simp add: finished_words_def)
qed simp

lemma leading_blanks:
  "set bs \<subseteq> {SPC, TAB} \<Longrightarrow>
   unattended_loop g \<lparr>u_commands = C, u_argv = [], u_word = None, u_gate = G\<rparr> (bs @ rest) =
   unattended_loop g \<lparr>u_commands = C, u_argv = [], u_word = None, u_gate = G\<rparr> rest"
  by (induction bs) (auto simp: unattended_step_blank)

text \<open>White space other than the blanks the parser skips: vertical tab, form feed, carriage return,
  next line and no-break space.\<close>

definition ordinary_blanks :: "rstr \<Rightarrow> bool" where
  "ordinary_blanks s \<longleftrightarrow> list_all (\<lambda>c. is_whitespace c \<longrightarrow> c = SPC \<or> c = TAB \<or> c = NL) s"

lemma trim_decomposition:
  obtains lead trail where "s = lead @ trim s @ trail"
    "\<forall>c \<in> set lead. is_whitespace c" "\<forall>c \<in> set trail. is_whitespace c"
proof -
  let ?t = "dropWhile is_whitespace s"
  have s: "s = takeWhile is_whitespace s @ ?t" by simp
  have "rev (rev ?t) = rev (dropWhile is_whitespace (rev ?t)) @ rev (takeWhile is_whitespace (rev ?t))"
    by (metis rev_append takeWhile_dropWhile_id)
  then have t: "?t = trim s @ rev (takeWhile is_whitespace (rev ?t))"
    by (simp add: trim_def trim_end_matches_def trim_start_matches_def)
  show thesis
  proof (rule that)
    show "s = takeWhile is_whitespace s @ trim s @ rev (takeWhile is_whitespace (rev ?t))"
      using s t by metis
  qed (auto dest: set_takeWhileD)
qed

text \<open>The state after a piece of the line, when its trimmed text parses to one command on its own.\<close>

lemma piece_words:
  assumes "separator_free p" "ordinary_blanks p" "u_argv st = []" "u_word st = None"
    and "trim p = [] \<or> executed_words_in g (trim p) \<noteq> None"
  shows "\<exists>st'. unattended_loop g st p = Some st' \<and>
    (if trim p = [] then finished_words st' = [] else executed_words_in g (trim p) = Some (finished_words st'))"
proof -
  obtain lead trail where p: "p = lead @ trim p @ trail"
    and w: "\<forall>c \<in> set lead. is_whitespace c" "\<forall>c \<in> set trail. is_whitespace c"
    by (rule trim_decomposition [of p])
  have lt: "set lead \<union> set trail \<subseteq> set p" by (subst p) auto
  then have b: "set lead \<subseteq> {SPC, TAB}" "set trail \<subseteq> {SPC, TAB}"
    using w assms(1,2) by (auto simp: ordinary_blanks_def list_all_iff SEGMENT_SEPARATORS_def)
  show ?thesis
  proof (cases "trim p = []")
    case True
    with p b have "set p \<subseteq> {SPC, TAB}" by (metis Un_subset_iff append_Nil set_append)
    from loop_blanks [OF this] True assms(3,4) show ?thesis by (fastforce simp: finished_words_def)
  next
    case False
    with assms(5) obtain words where ex: "executed_words_in g (trim p) = Some words" by auto
    have free: "separator_free (trim p)" using assms(1) trim_chars [of p] by auto
    from ex obtain cs where parse: "parse_unattended_in g (trim p) = Some cs" "length cs = 1" "words = argv (last cs)"
      by (auto simp: executed_words_in_def split: option.splits if_splits)
    from parse(1) obtain s1 where s1: "unattended_loop g initial_state (trim p) = Some s1"
      "cs = u_commands s1 @ (if u_argv s1 @ take_word (u_word s1) = [] then []
            else [unattended_command (u_argv s1 @ take_word (u_word s1)) (u_gate s1)])"
      by (rule parse_unattended_inD)
    have "u_commands s1 = []" using piece_loop [OF s1(1) free] by simp
    with s1(2) parse(2,3) have words: "words = finished_words s1"
      by (auto simp: finished_words_def split: if_splits)
    let ?st = "initial_state\<lparr>u_commands := u_commands st, u_gate := u_gate st\<rparr>"
    let ?s1 = "s1\<lparr>u_commands := u_commands st, u_gate := u_gate st\<rparr>"
    have st: "st = ?st" using assms(3,4) by (cases st) simp
    have run: "unattended_loop g st (trim p) = Some ?s1"
      using piece_loop [OF s1(1) free, where C = "u_commands st" and G = "u_gate st"] st by metis
    have "unattended_loop g st p = unattended_loop g st (trim p @ trail)"
    proof -
      obtain C G where "st = \<lparr>u_commands = C, u_argv = [], u_word = None, u_gate = G\<rparr>"
        using assms(3,4) by (cases st) simp
      with leading_blanks [OF b(1), of g C G "trim p @ trail"] p show ?thesis by simp
    qed
    moreover have "dropWhile (\<lambda>ch. ch \<noteq> NL) trail = []" using b(2) by auto
    moreover have "unattended_loop g st (trim p @ trail) = unattended_loop g ?s1 trail \<or>
        unattended_loop g st (trim p @ trail) = unattended_loop g ?s1 (dropWhile (\<lambda>ch. ch \<noteq> NL) trail)"
      using piece_loop [OF run free] by blast
    ultimately have "unattended_loop g st p = unattended_loop g ?s1 trail \<or> unattended_loop g st p = Some ?s1"
      by (metis unattended_loop.simps(1))
    moreover obtain s2 where "unattended_loop g ?s1 trail = Some s2" "finished_words s2 = finished_words ?s1"
      using loop_blanks [OF b(2), of g ?s1] by blast
    ultimately show ?thesis using False ex words by (auto simp: finished_words_def)
  qed
qed

section \<open>The line and its segments\<close>

definition run_commands :: "unattended_state \<Rightarrow> rstr list set" where
  "run_commands st = argv ` set (u_commands st) \<union> (if finished_words st = [] then {} else {finished_words st})"

abbreviation pieces :: "rstr \<Rightarrow> rstr list" where
  "pieces s \<equiv> split_on (\<lambda>c. c \<in> set SEGMENT_SEPARATORS) s"

lemma pieces_segments: "p \<in> set (pieces s) \<Longrightarrow> trim p \<noteq> [] \<Longrightarrow> trim p \<in> set (segments s)"
  by (simp add: segments_def)

lemma piece_prefix:
  obtains p rest where "s = p @ rest" "separator_free p" "p \<in> set (pieces s)"
    "rest = [] \<or> hd rest \<in> set SEGMENT_SEPARATORS"
proof -
  let ?P = "\<lambda>c. c \<notin> set SEGMENT_SEPARATORS"
  let ?p = "takeWhile ?P s" and ?r = "dropWhile ?P s"
  have free: "\<forall>c \<in> set ?p. c \<notin> set SEGMENT_SEPARATORS" by (auto dest: set_takeWhileD)
  then have own: "pieces ?p = [?p]" by (intro split_on_free) blast
  have r: "?r = [] \<or> hd ?r \<in> set SEGMENT_SEPARATORS" using hd_dropWhile [of ?P s] by blast
  have "?p \<in> set (pieces s)"
  proof (cases ?r)
    case Nil
    then have "s = ?p" by (metis append_Nil2 takeWhile_dropWhile_id)
    then show ?thesis using own by (metis list.set_intros(1))
  next
    case (Cons c cs)
    then have "c \<in> set SEGMENT_SEPARATORS" using r by simp
    from split_on_sep [where P = "\<lambda>c. c \<in> set SEGMENT_SEPARATORS", OF this, of ?p cs]
    have "pieces (?p @ c # cs) = ?p # pieces cs" using own by simp
    moreover have "?p @ c # cs = s" using Cons by (metis takeWhile_dropWhile_id)
    ultimately show ?thesis by (metis list.set_intros(1))
  qed
  with r free show thesis by (intro that [of ?p ?r]) auto
qed

lemma pieces_after:
  assumes "c \<in> set SEGMENT_SEPARATORS" shows "set (pieces b) \<subseteq> set (pieces (a @ c # b))"
  using split_on_sep [where P = "\<lambda>c. c \<in> set SEGMENT_SEPARATORS", OF assms, of a b] by simp

lemma ordinary_blanks_append [simp]: "ordinary_blanks (a @ b) \<longleftrightarrow> ordinary_blanks a \<and> ordinary_blanks b"
  by (simp add: ordinary_blanks_def)

lemma separator_step:
  assumes "unattended_step g st c b = Some (st', b')" "c \<in> set SEGMENT_SEPARATORS"
  shows "u_argv st' = [] \<and> u_word st' = None \<and> argv ` set (u_commands st') \<subseteq> run_commands st \<and>
    (b' = b \<or> b = CHR ''&'' # b')"
proof -
  from assms(2) consider "c = NL" | "c = CHR '';''" | "c = CHR ''|''" | "c = CHR ''&''"
    by (auto simp: SEGMENT_SEPARATORS_def)
  then show ?thesis
  proof cases
    case 4
    with assms(1) show ?thesis
      by (cases b) (auto simp: unattended_step_and run_commands_def finished_words_def split: if_splits)
  qed (use assms(1) in \<open>auto simp: unattended_step_end unattended_step_and run_commands_def finished_words_def split: if_splits\<close>)
qed

text \<open>Every command a fresh run over a line finishes is one it had or the command of a segment.\<close>

lemma loop_runs_segments:
  assumes "unattended_loop g st s = Some st'" "u_argv st = []" "u_word st = None" "ordinary_blanks s"
    and "\<forall>p \<in> set (pieces s). trim p = [] \<or> executed_words_in g (trim p) \<noteq> None"
  shows "run_commands st' \<subseteq> argv ` set (u_commands st) \<union>
           {words. \<exists>p \<in> set (pieces s). trim p \<noteq> [] \<and> executed_words_in g (trim p) = Some words}"
  using assms
proof (induction "length s" arbitrary: s st rule: less_induct)
  case less
  let ?S = "\<lambda>s. {words. \<exists>p \<in> set (pieces s). trim p \<noteq> [] \<and> executed_words_in g (trim p) = Some words}"
  obtain p rest where s: "s = p @ rest" and free: "separator_free p" and piece: "p \<in> set (pieces s)"
    and rest: "rest = [] \<or> hd rest \<in> set SEGMENT_SEPARATORS" by (rule piece_prefix)
  have "ordinary_blanks p" using less.prems(4) s by simp
  then obtain s1 where s1: "unattended_loop g st p = Some s1"
    and words: "if trim p = [] then finished_words s1 = [] else executed_words_in g (trim p) = Some (finished_words s1)"
    using piece_words [OF free _ less.prems(2,3), of g] less.prems(5) piece by blast
  have frame: "u_commands s1 = u_commands st" using piece_loop [OF s1 free] by simp
  have fin: "run_commands s1 \<subseteq> argv ` set (u_commands st) \<union> ?S s"
    using words piece frame by (auto simp: run_commands_def split: if_splits)
  have go: "run_commands st' \<subseteq> argv ` set (u_commands st) \<union> ?S s"
    if "unattended_loop g s1 (c # b) = Some st'" and c: "c \<in> set SEGMENT_SEPARATORS" and cut: "s = a @ c # b" for a b c
  proof -
    from that(1) obtain s2 b' where step: "unattended_step g s1 c b = Some (s2, b')"
      and loop: "unattended_loop g s2 b' = Some st'" by (auto split: option.splits)
    from separator_step [OF step c] have fresh: "u_argv s2 = []" "u_word s2 = None"
      and cmds: "argv ` set (u_commands s2) \<subseteq> run_commands s1"
      and tail: "b' = b \<or> b = CHR ''&'' # b'" by blast+
    have sub: "set (pieces b') \<subseteq> set (pieces s)"
      using tail pieces_after [OF c, of b a] pieces_after [of "CHR ''&''" b' "a @ [c]"]
      unfolding cut by (auto simp: SEGMENT_SEPARATORS_def)
    have "length b' < length s" using tail cut by auto
    moreover have "ordinary_blanks b'" using less.prems(4) tail by (auto simp: cut ordinary_blanks_def)
    ultimately have "run_commands st' \<subseteq> argv ` set (u_commands s2) \<union> ?S b'"
      using less.prems(5) sub by (intro less.hyps [OF _ loop fresh]) auto
    moreover have "?S b' \<subseteq> ?S s" using sub by auto
    ultimately show ?thesis using cmds fin by (meson Un_least order_trans sup.cobounded2)
  qed
  from piece_loop [OF s1 free, where rest = rest] s less.prems(1)
  consider "unattended_loop g s1 rest = Some st'" | "unattended_loop g s1 (dropWhile (\<lambda>ch. ch \<noteq> NL) rest) = Some st'"
    by metis
  then show ?case
  proof cases
    case 1
    show ?thesis
    proof (cases rest)
      case Nil
      with 1 fin show ?thesis by simp
    next
      case (Cons c b)
      then have c: "c \<in> set SEGMENT_SEPARATORS" using rest by simp
      from 1 have "unattended_loop g s1 (c # b) = Some st'" unfolding Cons .
      from go [OF this c] s show ?thesis unfolding Cons by blast
    qed
  next
    case 2
    show ?thesis
    proof (cases "dropWhile (\<lambda>ch. ch \<noteq> NL) rest")
      case Nil
      with 2 fin show ?thesis by simp
    next
      case (Cons c b)
      then have "c = NL" using hd_dropWhile [of "\<lambda>ch. ch \<noteq> NL" rest] by auto
      moreover have "s = (p @ takeWhile (\<lambda>ch. ch \<noteq> NL) rest) @ c # b"
        unfolding s using Cons by (metis append.assoc takeWhile_dropWhile_id)
      moreover from 2 have "unattended_loop g s1 (c # b) = Some st'" unfolding Cons .
      ultimately show ?thesis using go [of c b] by (simp add: SEGMENT_SEPARATORS_def)
    qed
  qed
qed

lemma segments_run:
  assumes "parse_unattended_in g command = Some cs" "ordinary_blanks command"
    and "\<forall>segment \<in> set (segments command). executed_words_in g segment \<noteq> None" "c \<in> set cs"
  shows "\<exists>segment \<in> set (segments command). executed_words_in g segment = Some (argv c)"
proof -
  from assms(1) obtain st where st: "unattended_loop g initial_state command = Some st"
    "cs = u_commands st @ (if u_argv st @ take_word (u_word st) = [] then []
            else [unattended_command (u_argv st @ take_word (u_word st)) (u_gate st)])"
    by (rule parse_unattended_inD)
  then have "argv c \<in> run_commands st"
    using assms(4) by (auto simp: run_commands_def finished_words_def split: if_splits)
  moreover have "\<forall>p \<in> set (pieces command). trim p = [] \<or> executed_words_in g (trim p) \<noteq> None"
    using assms(3) pieces_segments by blast
  ultimately have "\<exists>p \<in> set (pieces command). trim p \<noteq> [] \<and> executed_words_in g (trim p) = Some (argv c)"
    using loop_runs_segments [OF st(1) _ _ assms(2)] by auto
  then show ?thesis using pieces_segments by blast
qed

end
