(* ===== verification/Exec_Policy.thy ===== *)
theory Exec_Policy
  imports Irreversible Trusted_Run Subagent_Roles
begin

text \<open>
  The policy engine of \<^verbatim>\<open>execution_policy/engine.rs\<close>: from the name and the arguments of a tool
  call to its execution plan, that is a verdict (allow, deny, or ask, and who may answer), whether
  the call runs sandboxed and with network, and its risk.

  The arguments are a JSON value; the engine reads keys of an object, booleans, strings and arrays.
  The sentences shown to a human are the constructors of \<open>Reason\<close>, with what each sentence
  names as their arguments (some sentences hold characters outside the model's range); the ids of
  rules are texts, except that the id of a deny rule is that rule.
\<close>

section \<open>JSON arguments\<close>

datatype Value =
    Null
  | Bool bool
  | Number rstr
  | String rstr
  | Array "Value list"
  | Object "(rstr \<times> Value) list"

definition json_get :: "rstr \<Rightarrow> Value \<Rightarrow> Value option" where
  "json_get key val = (case val of Object members \<Rightarrow> map_of members key | _ \<Rightarrow> None)"

definition as_bool :: "Value \<Rightarrow> bool option" where
  "as_bool val = (case val of Bool b \<Rightarrow> Some b | _ \<Rightarrow> None)"

definition as_str :: "Value \<Rightarrow> rstr option" where
  "as_str val = (case val of String s \<Rightarrow> Some s | _ \<Rightarrow> None)"

definition as_array :: "Value \<Rightarrow> Value list option" where
  "as_array val = (case val of Array vs \<Rightarrow> Some vs | _ \<Rightarrow> None)"

definition str_field :: "rstr \<Rightarrow> Value \<Rightarrow> rstr option" where
  "str_field key arguments = Option.bind (json_get key arguments) as_str"

section \<open>Kinds, verdicts and plans\<close>

datatype ToolKind =
    ReadOnlyFile | WriteFile | Search | Shell | Job | Mock | SubAgent | Network | RootGrant | UnknownKind

datatype RiskLevel = Low | Medium | High

datatype ApprovalAuthority = AutomaticAllowed | HumanOnly

datatype Reason =
    ShellDenied DenyReason
  | NetworkDisabled rstr
  | WritesFiles
  | SendsData
  | CancelsJob
  | UnknownJobAction
  | MockApproval
  | Dispatch bool bool "rstr list"
  | GrantsRoot
  | UnknownToolReason rstr
  | IrreversibleOutward rstr
  | DeclaresNetwork
  | ShellDefault
  | SpecDescription rstr

datatype PolicyVerdict = Allow | Deny Reason | NeedsApproval Reason ApprovalAuthority

datatype RuleId = RuleText rstr | DenyRuleId DenyRule

datatype NetworkMode = Prompt | NetAlways | Never

definition network_parse :: "rstr \<Rightarrow> NetworkMode option" where
  "network_parse val =
     (let text = to_ascii_lowercase (trim val) in
      if text = ''prompt'' then Some Prompt
      else if text = ''always'' then Some NetAlways
      else if text = ''never'' then Some Never
      else None)"

definition network_as_setting :: "NetworkMode \<Rightarrow> rstr" where
  "network_as_setting m = (case m of Prompt \<Rightarrow> ''prompt'' | NetAlways \<Rightarrow> ''always'' | Never \<Rightarrow> ''never'')"

definition network_rank :: "NetworkMode \<Rightarrow> 8 word" where
  "network_rank m = (case m of Never \<Rightarrow> 0 | Prompt \<Rightarrow> 1 | NetAlways \<Rightarrow> 2)"

datatype SandboxMode = Os | Off

definition sandbox_parse :: "rstr \<Rightarrow> SandboxMode option" where
  "sandbox_parse val =
     (let text = to_ascii_lowercase (trim val) in
      if text = ''os'' then Some Os
      else if text = ''off'' \<or> text = ''none'' then Some Off
      else None)"

definition sandbox_as_setting :: "SandboxMode \<Rightarrow> rstr" where
  "sandbox_as_setting m = (case m of Os \<Rightarrow> ''os'' | Off \<Rightarrow> ''off'')"

definition sandbox_rank :: "SandboxMode \<Rightarrow> 8 word" where
  "sandbox_rank m = (case m of Off \<Rightarrow> 0 | Os \<Rightarrow> 1)"

definition is_os :: "SandboxMode \<Rightarrow> bool" where
  "is_os m \<longleftrightarrow> m = Os"

record ToolExecutionPlan =
  verdict :: PolicyVerdict
  requires_sandbox :: bool
  read_only :: bool
  risk_level :: RiskLevel
  matched_rule :: "RuleId option"
  network :: bool

definition requires_approval :: "ToolExecutionPlan \<Rightarrow> bool" where
  "requires_approval plan = (case verdict plan of NeedsApproval _ _ \<Rightarrow> True | _ \<Rightarrow> False)"

definition approval_authority :: "ToolExecutionPlan \<Rightarrow> ApprovalAuthority option" where
  "approval_authority plan = (case verdict plan of NeedsApproval _ authority \<Rightarrow> Some authority | _ \<Rightarrow> None)"

definition requires_human :: "ToolExecutionPlan \<Rightarrow> bool" where
  "requires_human plan \<longleftrightarrow> approval_authority plan = Some HumanOnly"

definition denied_reason :: "ToolExecutionPlan \<Rightarrow> Reason option" where
  "denied_reason plan = (case verdict plan of Deny reason \<Rightarrow> Some reason | _ \<Rightarrow> None)"

definition network_disabled_plan :: "rstr \<Rightarrow> bool \<Rightarrow> ToolExecutionPlan" where
  "network_disabled_plan subject ro =
     \<lparr>verdict = Deny (NetworkDisabled subject), requires_sandbox = False, read_only = ro,
      risk_level = Medium, matched_rule = Some (RuleText ''deny:network_disabled''), network = False\<rparr>"

section \<open>What the arguments declare\<close>

definition classify_tool :: "rstr \<Rightarrow> ToolKind" where
  "classify_tool tool_name =
     (if tool_name \<in> set [''read_file'', ''list_dir'', ''skill'', ''todo_write''] then ReadOnlyFile
      else if tool_name = ''grep_files'' then Search
      else if tool_name = ''write_file'' \<or> tool_name = ''apply_patch'' then WriteFile
      else if tool_name = ''shell'' then Shell
      else if tool_name = ''job'' then Job
      else if tool_name = ''web_search'' \<or> tool_name = ''fetch_url'' then Network
      else if tool_name = ''mock_echo'' then Mock
      else if tool_name = ''agent'' then SubAgent
      else if tool_name = ''request_write_root'' then RootGrant
      else UnknownKind)"

definition network_requested :: "Value \<Rightarrow> bool" where
  "network_requested arguments =
     (case Option.bind (json_get ''network'' arguments) as_bool of None \<Rightarrow> False | Some b \<Rightarrow> b)"

definition justification_claimed :: "Value \<Rightarrow> rstr option" where
  "justification_claimed arguments =
     (case map_option trim (str_field ''justification'' arguments) of
        None \<Rightarrow> None
      | Some text \<Rightarrow> if text = [] then None else Some text)"

definition add_allow_command :: "rstr list \<Rightarrow> rstr \<Rightarrow> rstr list" where
  "add_allow_command normalized entry =
     (let entry' = trim entry in
      if entry' = [] \<or> entry' \<in> set normalized then normalized else normalized @ [entry'])"

definition normalize_allow_commands :: "rstr list \<Rightarrow> rstr list" where
  "normalize_allow_commands entries = foldl add_allow_command [] entries"

definition subagent_allow_commands :: "Value \<Rightarrow> rstr list" where
  "subagent_allow_commands arguments =
     normalize_allow_commands
       (case Option.bind (json_get ''allow_commands'' arguments) as_array of
          None \<Rightarrow> []
        | Some entries \<Rightarrow> List.map_filter as_str entries)"

definition subagent_role_writes :: "Value \<Rightarrow> bool" where
  "subagent_role_writes arguments =
     (let role = (case str_field ''role'' arguments of None \<Rightarrow> ''general'' | Some r \<Rightarrow> r) in
      case role_parse role of Inr r \<Rightarrow> allows_writes r | Inl _ \<Rightarrow> True)"

definition dispatch_declares_allow_commands :: "rstr \<Rightarrow> Value \<Rightarrow> bool" where
  "dispatch_declares_allow_commands tool_name arguments \<longleftrightarrow>
     classify_tool tool_name = SubAgent \<and> subagent_allow_commands arguments \<noteq> []"

definition shell_command_of :: "rstr \<Rightarrow> Value \<Rightarrow> rstr option" where
  "shell_command_of tool_name arguments =
     (let command_bearing =
        (case classify_tool tool_name of
           Shell \<Rightarrow> True
         | Job \<Rightarrow> str_field ''action'' arguments = Some ''start''
         | _ \<Rightarrow> False)
      in if command_bearing then str_field ''command'' arguments else None)"

definition accept_edits_approvable :: "bool \<Rightarrow> rstr \<Rightarrow> Value \<Rightarrow> bool" where
  "accept_edits_approvable win tool_name arguments =
     (if network_requested arguments then False
      else case classify_tool tool_name of
             WriteFile \<Rightarrow> True
           | SubAgent \<Rightarrow> subagent_role_writes arguments \<and> subagent_allow_commands arguments = []
           | Shell \<Rightarrow> (case shell_command_of tool_name arguments of
                        None \<Rightarrow> False | Some command \<Rightarrow> is_workspace_fs_edit win command)
           | Job \<Rightarrow> (case shell_command_of tool_name arguments of
                        None \<Rightarrow> False | Some command \<Rightarrow> is_workspace_fs_edit win command)
           | _ \<Rightarrow> False)"

section \<open>The policy\<close>

record ExecPolicy =
  trusted_shell_prefixes :: "rstr list"
  network_mode :: NetworkMode
  sandbox_off :: bool
  allow_irreversible :: "rstr list"

definition default_policy :: "bool \<Rightarrow> ExecPolicy" where
  "default_policy win =
     \<lparr>trusted_shell_prefixes =
        [''git status'', ''git diff'', ''git log'', ''cargo test'', ''cargo build'', ''cargo check'']
        @ (if win then [] else [''printf'', ''echo'']),
      network_mode = Prompt, sandbox_off = False, allow_irreversible = []\<rparr>"

definition with_network_mode :: "NetworkMode \<Rightarrow> ExecPolicy \<Rightarrow> ExecPolicy" where
  "with_network_mode m policy = policy\<lparr>network_mode := m\<rparr>"

definition with_sandbox_mode :: "SandboxMode \<Rightarrow> ExecPolicy \<Rightarrow> ExecPolicy" where
  "with_sandbox_mode m policy = policy\<lparr>sandbox_off := \<not> is_os m\<rparr>"

definition with_allow_irreversible :: "rstr list \<Rightarrow> ExecPolicy \<Rightarrow> ExecPolicy" where
  "with_allow_irreversible allow policy = policy\<lparr>allow_irreversible := allow\<rparr>"

definition with_trusted_prefix :: "rstr \<Rightarrow> ExecPolicy \<Rightarrow> ExecPolicy" where
  "with_trusted_prefix rl policy =
     policy\<lparr>trusted_shell_prefixes := trusted_shell_prefixes policy @ [rl]\<rparr>"

definition irreversible_allowed :: "ExecPolicy \<Rightarrow> rstr \<Rightarrow> rstr list \<Rightarrow> rstr \<Rightarrow> bool" where
  "irreversible_allowed policy prog as matched \<longleftrightarrow>
     (let cls = split_whitespace matched in
      list_ex (\<lambda>entry.
        case split_whitespace entry of
          [] \<Rightarrow> False
        | first # rest \<Rightarrow>
            words_in_order (first # rest) cls \<or> (first = prog \<and> words_in_order rest as))
        (allow_irreversible policy))"

definition irreversible_outward :: "bool \<Rightarrow> ExecPolicy \<Rightarrow> rstr \<Rightarrow> rstr option" where
  "irreversible_outward win policy command =
     find_map (\<lambda>(prog, as).
       case irreversible_outward_words prog as of
         None \<Rightarrow> None
       | Some matched \<Rightarrow> if irreversible_allowed policy prog as matched then None else Some matched)
     (irreversible_floor_commands win command)"

section \<open>Evaluating a command\<close>

definition command_trusted :: "bool \<Rightarrow> ExecPolicy \<Rightarrow> rstr \<Rightarrow> bool" where
  "command_trusted win policy command \<longleftrightarrow>
     parse_unattended win command \<noteq> None \<and>
     list_all (\<lambda>segment. list_ex (\<lambda>prefix. rule_covers win prefix segment) (trusted_shell_prefixes policy))
       (segments command)"

definition granted_network :: "ExecPolicy \<Rightarrow> bool \<Rightarrow> bool" where
  "granted_network policy requested =
     (case network_mode policy of NetAlways \<Rightarrow> True | Prompt \<Rightarrow> requested | Never \<Rightarrow> False)"

definition evaluate_shell_command :: "bool \<Rightarrow> ExecPolicy \<Rightarrow> rstr \<Rightarrow> bool \<Rightarrow> ToolExecutionPlan" where
  "evaluate_shell_command win policy command requested =
     (case builtin_deny win command of
        Some reason \<Rightarrow>
          \<lparr>verdict = Deny (ShellDenied reason), requires_sandbox = False, read_only = False,
           risk_level = High, matched_rule = Some (DenyRuleId (rule reason)), network = False\<rparr>
      | None \<Rightarrow>
          if requested \<and> network_mode policy = Never then network_disabled_plan [] False
          else
            (let net = granted_network policy requested in
             case irreversible_outward win policy command of
               Some matched \<Rightarrow>
                 \<lparr>verdict = NeedsApproval (IrreversibleOutward matched) HumanOnly, requires_sandbox = True,
                  read_only = False, risk_level = High,
                  matched_rule = Some (RuleText (''irreversible:'' @ matched)), network = net\<rparr>
             | None \<Rightarrow>
                 (let trusted = command_trusted win policy command in
                  if requested \<and> network_mode policy = Prompt then
                    \<lparr>verdict = NeedsApproval DeclaresNetwork AutomaticAllowed, requires_sandbox = True,
                     read_only = False, risk_level = (if trusted then Medium else High),
                     matched_rule = Some (RuleText ''gate:network''), network = net\<rparr>
                  else if trusted then
                    \<lparr>verdict = Allow, requires_sandbox = True, read_only = False, risk_level = Low,
                     matched_rule = Some (RuleText ''trust:all_segments''), network = net\<rparr>
                  else
                    \<lparr>verdict = NeedsApproval ShellDefault AutomaticAllowed, requires_sandbox = True,
                     read_only = False, risk_level = High,
                     matched_rule = Some (RuleText ''builtin:shell_default''), network = net\<rparr>)))"

definition evaluate_command_bearing :: "bool \<Rightarrow> ExecPolicy \<Rightarrow> rstr \<Rightarrow> Value \<Rightarrow> ToolExecutionPlan" where
  "evaluate_command_bearing win policy tool_name arguments =
     evaluate_shell_command win policy
       (case shell_command_of tool_name arguments of None \<Rightarrow> [] | Some command \<Rightarrow> command)
       (network_requested arguments)"

definition unsandboxed_plan :: "PolicyVerdict \<Rightarrow> bool \<Rightarrow> RiskLevel \<Rightarrow> RuleId option \<Rightarrow> ToolExecutionPlan" where
  "unsandboxed_plan v ro risk rl =
     \<lparr>verdict = v, requires_sandbox = False, read_only = ro, risk_level = risk, matched_rule = rl,
      network = False\<rparr>"

definition evaluate_job :: "bool \<Rightarrow> ExecPolicy \<Rightarrow> rstr \<Rightarrow> Value \<Rightarrow> ToolExecutionPlan" where
  "evaluate_job win policy tool_name arguments =
     (case str_field ''action'' arguments of
        None \<Rightarrow> unsandboxed_plan (NeedsApproval UnknownJobAction AutomaticAllowed) False High None
      | Some action \<Rightarrow>
          if action = ''start'' then evaluate_command_bearing win policy tool_name arguments
          else if action = ''status'' \<or> action = ''tail'' then
            unsandboxed_plan Allow True Low (Some (RuleText ''builtin:job_control''))
          else if action = ''cancel'' then
            unsandboxed_plan (NeedsApproval CancelsJob AutomaticAllowed) False Low
              (Some (RuleText ''builtin:job_control''))
          else unsandboxed_plan (NeedsApproval UnknownJobAction AutomaticAllowed) False High None)"

definition evaluate_dispatch :: "ExecPolicy \<Rightarrow> Value \<Rightarrow> ToolExecutionPlan" where
  "evaluate_dispatch policy arguments =
     (let writes = subagent_role_writes arguments;
          net = network_requested arguments;
          allow_commands = subagent_allow_commands arguments
      in if net \<and> network_mode policy = Never
         then network_disabled_plan '', so a networked sub-agent cannot run'' False
         else
           (let network_gated = net \<and> network_mode policy = Prompt in
            if writes \<or> network_gated \<or> allow_commands \<noteq> [] then
              unsandboxed_plan
                (NeedsApproval (Dispatch writes network_gated allow_commands) AutomaticAllowed)
                (\<not> writes) Medium
                (Some (RuleText
                  (if allow_commands \<noteq> [] then ''builtin:subagent_allow_commands''
                   else if network_gated then ''builtin:subagent_network_dispatch''
                   else ''builtin:subagent_writing_role'')))
            else unsandboxed_plan Allow True Low (Some (RuleText ''builtin:subagent_tool''))))"

definition evaluate_tool :: "bool \<Rightarrow> ExecPolicy \<Rightarrow> rstr \<Rightarrow> Value \<Rightarrow> ToolExecutionPlan" where
  "evaluate_tool win policy tool_name arguments =
     (case classify_tool tool_name of
        ReadOnlyFile \<Rightarrow> unsandboxed_plan Allow True Low (Some (RuleText ''builtin:read_only_tool''))
      | Search \<Rightarrow> unsandboxed_plan Allow True Low (Some (RuleText ''builtin:read_only_tool''))
      | WriteFile \<Rightarrow>
          unsandboxed_plan (NeedsApproval WritesFiles AutomaticAllowed) False Medium
            (Some (RuleText ''builtin:write_tool''))
      | Network \<Rightarrow>
          if network_mode policy = Never then network_disabled_plan '', so the web tools cannot run'' True
          else unsandboxed_plan (NeedsApproval SendsData AutomaticAllowed) True Medium
                 (Some (RuleText ''builtin:network_tool''))
      | Job \<Rightarrow> evaluate_job win policy tool_name arguments
      | Shell \<Rightarrow> evaluate_command_bearing win policy tool_name arguments
      | Mock \<Rightarrow>
          unsandboxed_plan (NeedsApproval MockApproval AutomaticAllowed) True Low
            (Some (RuleText ''builtin:mock_tool''))
      | SubAgent \<Rightarrow> evaluate_dispatch policy arguments
      | RootGrant \<Rightarrow>
          unsandboxed_plan (NeedsApproval GrantsRoot HumanOnly) False High
            (Some (RuleText ''builtin:root_grant''))
      | UnknownKind \<Rightarrow>
          unsandboxed_plan (NeedsApproval (UnknownToolReason tool_name) AutomaticAllowed) False High None)"

section \<open>Reading a plan\<close>

lemmas plan_queries = requires_human_def approval_authority_def denied_reason_def requires_approval_def
  network_disabled_plan_def unsandboxed_plan_def

text \<open>Whether a command is refused whatever else holds of it.\<close>

definition shell_refused :: "bool \<Rightarrow> ExecPolicy \<Rightarrow> rstr \<Rightarrow> bool \<Rightarrow> bool" where
  "shell_refused win policy command requested \<longleftrightarrow>
     builtin_deny win command \<noteq> None \<or> requested \<and> network_mode policy = Never"

lemma shell_plan_cases:
  fixes win policy command requested
  defines "plan \<equiv> evaluate_shell_command win policy command requested"
  obtains (refused) reason where "shell_refused win policy command requested" "verdict plan = Deny reason"
      "\<not> requires_sandbox plan" "\<not> network plan"
    | (floor) matched where "\<not> shell_refused win policy command requested"
      "irreversible_outward win policy command = Some matched"
      "verdict plan = NeedsApproval (IrreversibleOutward matched) HumanOnly"
      "requires_sandbox plan" "network plan = granted_network policy requested"
    | (asked) reason where "\<not> shell_refused win policy command requested"
      "irreversible_outward win policy command = None"
      "requested \<and> network_mode policy = Prompt \<or> \<not> command_trusted win policy command"
      "verdict plan = NeedsApproval reason AutomaticAllowed"
      "requires_sandbox plan" "network plan = granted_network policy requested"
    | (trusted) "\<not> shell_refused win policy command requested"
      "irreversible_outward win policy command = None" "command_trusted win policy command"
      "\<not> (requested \<and> network_mode policy = Prompt)" "verdict plan = Allow"
      "requires_sandbox plan" "network plan = granted_network policy requested"
proof (cases "shell_refused win policy command requested")
  case True
  then show thesis
    by (cases "builtin_deny win command")
      (auto simp: plan_def evaluate_shell_command_def shell_refused_def network_disabled_plan_def intro!: refused)
next
  case False
  then have d: "builtin_deny win command = None" "\<not> (requested \<and> network_mode policy = Never)"
    by (auto simp: shell_refused_def)
  show thesis
  proof (cases "irreversible_outward win policy command")
    case (Some matched)
    with d show thesis
      by (intro floor [OF False Some]) (auto simp: plan_def evaluate_shell_command_def)
  next
    case None
    show thesis
    proof (cases "(requested \<and> network_mode policy = Prompt) \<or> \<not> command_trusted win policy command")
      case True
      with d None show thesis
        by (cases "requested \<and> network_mode policy = Prompt")
          (auto simp: plan_def evaluate_shell_command_def Let_def intro!: asked [OF False None True])
    next
      case trusted': False
      with d None show thesis
        by (intro trusted [OF False None]) (auto simp: plan_def evaluate_shell_command_def Let_def)
    qed
  qed
qed

section \<open>Properties\<close>

text \<open>The decision on a command. It is refused exactly when the deny floor knows it, or
  it declares network where the configuration forbids network; only a human may answer exactly when
  it is not refused and holds an unauthorized irreversible command; it runs unasked exactly when,
  beyond that, every segment is trusted and no network prompt is due. Whatever may run is sandboxed,
  and has network exactly when the configuration grants it always or it was declared where
  declarations are asked about.\<close>

theorem shell_decision_table:
  "(denied_reason (evaluate_shell_command win policy command requested) \<noteq> None \<longleftrightarrow>
      shell_refused win policy command requested) \<and>
   (requires_human (evaluate_shell_command win policy command requested) \<longleftrightarrow>
      \<not> shell_refused win policy command requested \<and> irreversible_outward win policy command \<noteq> None) \<and>
   (verdict (evaluate_shell_command win policy command requested) = Allow \<longleftrightarrow>
      \<not> shell_refused win policy command requested \<and> irreversible_outward win policy command = None \<and>
      command_trusted win policy command \<and> \<not> (requested \<and> network_mode policy = Prompt)) \<and>
   (requires_sandbox (evaluate_shell_command win policy command requested) \<longleftrightarrow>
      \<not> shell_refused win policy command requested) \<and>
   (network (evaluate_shell_command win policy command requested) \<longleftrightarrow>
      \<not> shell_refused win policy command requested \<and>
      (network_mode policy = NetAlways \<or> network_mode policy = Prompt \<and> requested))"
  by (cases win policy command requested rule: shell_plan_cases)
    (auto simp: plan_queries granted_network_def split: NetworkMode.splits)



lemma trusted_exotic_blank:
  "verdict (evaluate_shell_command False (default_policy False) (CHR 0x0B # ''printf x'') False) = Allow \<and>
   parse_unattended False (CHR 0x0B # ''printf x'') = Some [unattended_command [CHR 0x0B # ''printf'', ''x''] Always]"
  by code_simp

text \<open>Which irreversible commands the user has authorized: the floor lets a line pass
  exactly when each irreversible command it reads is named by an entry of the configuration whose
  words stand in order in the command's class, or that starts with the command's program and whose
  other words stand in order among its arguments. An authorized command authorizes no other command
  of the line.\<close>

theorem irreversible_outward_None_iff:
  "irreversible_outward win policy command = None \<longleftrightarrow>
     (\<forall>(prog, as) \<in> set (irreversible_floor_commands win command).
        \<forall>matched. irreversible_outward_words prog as = Some matched \<longrightarrow>
          (\<exists>entry \<in> set (allow_irreversible policy). \<exists>first rest. split_whitespace entry = first # rest \<and>
             (subseq (first # rest) (split_whitespace matched) \<or> first = prog \<and> subseq rest as)))"
proof -
  have allowed: "irreversible_allowed policy prog as matched \<longleftrightarrow>
      (\<exists>entry \<in> set (allow_irreversible policy). \<exists>first rest. split_whitespace entry = first # rest \<and>
             (subseq (first # rest) (split_whitespace matched) \<or> first = prog \<and> subseq rest as))"
    for prog as matched
    unfolding irreversible_allowed_def Let_def list_ex_iff words_in_order_subseq
    by (rule bex_cong [OF refl], rename_tac entry, case_tac "split_whitespace entry") simp_all
  show ?thesis
    by (auto simp: irreversible_outward_def find_map_None_iff allowed [symmetric] split: option.splits if_splits)
qed

theorem irreversible_outward_None_iff_witness:
  "irreversible_outward False (with_allow_irreversible [''git push''] (default_policy False))
     ''git push --force && npm publish'' \<noteq> None"
proof -
  have "(''npm'', [''publish'']) \<in> set (irreversible_floor_commands False ''git push --force && npm publish'')"
    "irreversible_outward_words ''npm'' [''publish''] = Some ''npm publish''"
    "split_whitespace ''git push'' = [''git'', ''push'']"
    "\<not> words_in_order [''git'', ''push''] (split_whitespace ''npm publish'')"
    by code_simp+
  then show ?thesis
    unfolding irreversible_outward_None_iff
    by (fastforce simp: with_allow_irreversible_def words_in_order_subseq simp del: subseq_Cons2_iff)
qed

text \<open>C3 (safety). No irreversible command runs on anyone's word but a human's. Let a line on a \<^verbatim>\<open>sh\<close>
  host run an irreversible command that the configuration does not authorize, directly or through
  scripts handed to shells, to the depth the floor reads. Whatever else the line holds and whatever
  is trusted, the plan of the line is a denial, or one that only a human may approve.\<close>

theorem irreversible_needs_human:
  assumes "runs n line (prog, as)" "n \<le> SCRIPT_NESTING"
    and "irreversible_outward_words prog as = Some matched"
    and "\<not> irreversible_allowed policy prog as matched"
  shows "denied_reason (evaluate_shell_command False policy line requested) \<noteq> None \<or>
    requires_human (evaluate_shell_command False policy line requested)"
proof -
  have "(prog, as) \<in> set (irreversible_floor_commands False line)"
    using runs_read [OF runs_mono [OF assms(1,2)]] assms(3) by (simp add: irreversible_floor_commands_def)
  then have "irreversible_outward False policy line \<noteq> None"
    unfolding irreversible_outward_def by (rule find_map_not_None) (simp add: assms(3,4))
  then show ?thesis
    by (cases False policy line requested rule: shell_plan_cases) (simp_all add: plan_queries)
qed

theorem irreversible_needs_human_witness:
  "requires_human (evaluate_shell_command False (with_network_mode NetAlways (default_policy False))
     ''git status && npm publish'' True)"
proof -
  have p: "parse_unattended False ''git status && npm publish'' =
     Some [unattended_command [''git'', ''status''] Always, unattended_command [''npm'', ''publish''] PreviousSucceeded]"
    by code_simp
  have r: "runs 0 ''git status && npm publish'' (''npm'', [''publish''])"
    by (rule runs_command [OF p, of "unattended_command [''npm'', ''publish''] PreviousSucceeded"]) (simp, code_simp)
  have w: "irreversible_outward_words ''npm'' [''publish''] = Some ''npm publish''"
    "\<not> irreversible_allowed (with_network_mode NetAlways (default_policy False)) ''npm'' [''publish''] ''npm publish''"
    by code_simp+
  have "denied_reason (evaluate_shell_command False (with_network_mode NetAlways (default_policy False))
     ''git status && npm publish'' True) = None" by code_simp
  with irreversible_needs_human [OF r _ w, of True] show ?thesis by simp
qed

text \<open>The command a call carries, the empty one when it carries none.\<close>

definition carried_command :: "rstr \<Rightarrow> Value \<Rightarrow> rstr" where
  "carried_command tool_name arguments =
     (case shell_command_of tool_name arguments of None \<Rightarrow> [] | Some command \<Rightarrow> command)"

definition command_bearing :: "rstr \<Rightarrow> Value \<Rightarrow> bool" where
  "command_bearing tool_name arguments \<longleftrightarrow>
     classify_tool tool_name = Shell \<or>
     classify_tool tool_name = Job \<and> str_field ''action'' arguments = Some ''start''"

lemma evaluate_tool_command_bearing:
  "command_bearing tool_name arguments \<Longrightarrow>
   evaluate_tool win policy tool_name arguments =
   evaluate_shell_command win policy (carried_command tool_name arguments) (network_requested arguments)"
  by (auto simp: command_bearing_def evaluate_tool_def evaluate_job_def evaluate_command_bearing_def carried_command_def)

lemma shell_command_of_bearing:
  "shell_command_of tool_name arguments = Some command \<Longrightarrow>
   command_bearing tool_name arguments \<and> carried_command tool_name arguments = command"
  by (auto simp: shell_command_of_def command_bearing_def carried_command_def Let_def
      split: if_splits ToolKind.splits)

lemma evaluate_tool_quiet:
  "\<not> command_bearing tool_name arguments \<Longrightarrow>
   \<not> requires_sandbox (evaluate_tool win policy tool_name arguments) \<and>
   \<not> network (evaluate_tool win policy tool_name arguments) \<and>
   (requires_human (evaluate_tool win policy tool_name arguments) \<longleftrightarrow> classify_tool tool_name = RootGrant)"
  by (auto simp: command_bearing_def evaluate_tool_def evaluate_job_def evaluate_dispatch_def Let_def plan_queries
      split: ToolKind.splits option.splits)

text \<open>The decisions reserved to a human, over all tools and arguments: a call to widen the
  write boundary, and a call that carries a command which is not refused and holds an unauthorized
  irreversible command; no other.\<close>

theorem human_only_calls:
  "requires_human (evaluate_tool win policy tool_name arguments) \<longleftrightarrow>
     classify_tool tool_name = RootGrant \<or>
     command_bearing tool_name arguments \<and>
     \<not> shell_refused win policy (carried_command tool_name arguments) (network_requested arguments) \<and>
     irreversible_outward win policy (carried_command tool_name arguments) \<noteq> None"
proof (cases "command_bearing tool_name arguments")
  case True
  then have "classify_tool tool_name \<noteq> RootGrant" by (auto simp: command_bearing_def)
  with True show ?thesis
    by (cases win policy "carried_command tool_name arguments" "network_requested arguments" rule: shell_plan_cases)
      (simp_all add: evaluate_tool_command_bearing plan_queries)
next
  case False
  with evaluate_tool_quiet show ?thesis by blast
qed

text \<open>With network forbidden by the configuration, no plan of any call grants network, and
  every call that would use it is refused: the web tools, and a command or a dispatch that declares
  network.\<close>

theorem never_means_no_network:
  assumes "network_mode policy = Never"
  shows "\<not> network (evaluate_tool win policy tool_name arguments) \<and>
    (classify_tool tool_name = Network \<or>
     network_requested arguments \<and> (command_bearing tool_name arguments \<or> classify_tool tool_name = SubAgent) \<longrightarrow>
     denied_reason (evaluate_tool win policy tool_name arguments) \<noteq> None)"
proof (cases "command_bearing tool_name arguments")
  case True
  then have "classify_tool tool_name \<noteq> Network" by (auto simp: command_bearing_def)
  with assms show ?thesis unfolding evaluate_tool_command_bearing [OF True]
    by (cases win policy "carried_command tool_name arguments" "network_requested arguments" rule: shell_plan_cases)
      (auto simp: plan_queries granted_network_def shell_refused_def)
next
  case False
  with assms evaluate_tool_quiet [OF False] show ?thesis
    by (auto simp: evaluate_tool_def evaluate_dispatch_def plan_queries)
qed

theorem never_means_no_network_witness:
  "denied_reason (evaluate_tool False (with_network_mode Never (default_policy False)) ''fetch_url''
     (Object [(''url'', String ''https://example.org'')])) \<noteq> None"
proof -
  have "network_mode (with_network_mode Never (default_policy False)) = Never" "classify_tool ''fetch_url'' = Network"
    by code_simp+
  with never_means_no_network show ?thesis by blast
qed

section \<open>Dispatching a sub-agent\<close>

lemma add_allow_command_subset:
  "set (add_allow_command acc e) = set acc \<union> {t. t = trim e \<and> t \<noteq> []}"
  by (auto simp: add_allow_command_def Let_def)

lemma normalize_allow_commands_snoc:
  "normalize_allow_commands (es @ [e]) = add_allow_command (normalize_allow_commands es) e"
  by (simp add: normalize_allow_commands_def)

lemma normalize_allow_commands_facts:
  "distinct (normalize_allow_commands es) \<and>
   set (normalize_allow_commands es) = trim ` set es - {[]} \<and>
   subseq (normalize_allow_commands es) (map trim es)"
proof (induction es rule: rev_induct)
  case Nil
  then show ?case by (simp add: normalize_allow_commands_def)
next
  case (snoc e es)
  let ?n = "normalize_allow_commands es"
  have d: "distinct (add_allow_command ?n e)"
    using snoc by (auto simp: add_allow_command_def Let_def)
  have s: "set (add_allow_command ?n e) = trim ` set (es @ [e]) - {[]}"
    using snoc by (auto simp: add_allow_command_subset)
  have "subseq ?n (map trim es @ [trim e])" using snoc subseq_rev_drop_many by blast
  moreover have "subseq (?n @ [trim e]) (map trim es @ [trim e])" using snoc by simp
  ultimately have "subseq (add_allow_command ?n e) (map trim (es @ [e]))"
    by (simp add: add_allow_command_def Let_def)
  with d s show ?case by (simp add: normalize_allow_commands_snoc)
qed

lemma trim_idem [simp]: "trim (trim s) = trim s"
proof (cases "trim s = []")
  case True
  have "trim [] = []" by (simp add: trim_def trim_end_matches_def trim_start_matches_def)
  with True show ?thesis by simp
next
  case False
  let ?t = "dropWhile is_whitespace s"
  have t: "trim s = rev (dropWhile is_whitespace (rev ?t))"
    by (simp add: trim_def trim_end_matches_def trim_start_matches_def)
  then have ne: "dropWhile is_whitespace (rev ?t) \<noteq> []" using False by auto
  have "prefix (trim s) ?t" unfolding t by (metis rev_rev_ident suffix_dropWhile suffix_to_prefix)
  then obtain z where z: "?t = trim s @ z" by (auto simp: prefix_def)
  then have "hd (trim s) = hd ?t" and "?t \<noteq> []" unfolding z using False by (simp_all add: hd_append)
  then have "\<not> is_whitespace (hd (trim s))" using hd_dropWhile [of is_whitespace s] by simp
  moreover have "\<not> is_whitespace (last (trim s))"
    using hd_dropWhile [OF ne] by (simp add: t last_rev)
  ultimately show ?thesis using False by (intro trim_id)
qed

lemma normalize_allow_commands_id:
  "distinct es \<Longrightarrow> \<forall>e \<in> set es. trim e = e \<and> e \<noteq> [] \<Longrightarrow> normalize_allow_commands es = es"
proof (induction es rule: rev_induct)
  case Nil
  then show ?case by (simp add: normalize_allow_commands_def)
next
  case (snoc e es)
  then show ?case by (simp add: normalize_allow_commands_snoc add_allow_command_def Let_def)
qed

text \<open>The commands a dispatch asks for: each once, none blank, in the order they were
  written, exactly the trimmed non-blank entries; and normalizing what was normalized changes
  nothing, so the list a human is shown is the list the child is given.\<close>

theorem normalize_allow_commands_spec:
  "distinct (normalize_allow_commands es) \<and>
   set (normalize_allow_commands es) = trim ` set es - {[]} \<and>
   subseq (normalize_allow_commands es) (map trim es) \<and>
   normalize_allow_commands (normalize_allow_commands es) = normalize_allow_commands es"
proof -
  have "trim e = e \<and> e \<noteq> []" if "e \<in> set (normalize_allow_commands es)" for e
    using that normalize_allow_commands_facts [of es] by auto
  then have "normalize_allow_commands (normalize_allow_commands es) = normalize_allow_commands es"
    using conjunct1 [OF normalize_allow_commands_facts [of es]] by (intro normalize_allow_commands_id) blast+
  with normalize_allow_commands_facts [of es] show ?thesis by simp
qed

text \<open>When a dispatch asks and what it asks about. A sub-agent is dispatched unasked
  exactly when its role does not write, it is given no commands, and it declares no network unless
  the configuration grants network always. Otherwise it is refused (network where network is
  forbidden) or asked about, and the question names the writing, the network, and every command.\<close>

theorem dispatch_gate:
  "(verdict (evaluate_dispatch policy arguments) = Allow \<longleftrightarrow>
     \<not> subagent_role_writes arguments \<and> subagent_allow_commands arguments = [] \<and>
     \<not> (network_requested arguments \<and> network_mode policy \<noteq> NetAlways)) \<and>
   (denied_reason (evaluate_dispatch policy arguments) \<noteq> None \<longleftrightarrow>
     network_requested arguments \<and> network_mode policy = Never) \<and>
   verdict (evaluate_dispatch policy arguments) \<in>
     {Allow, Deny (NetworkDisabled '', so a networked sub-agent cannot run''),
      NeedsApproval (Dispatch (subagent_role_writes arguments)
        (network_requested arguments \<and> network_mode policy = Prompt) (subagent_allow_commands arguments)) AutomaticAllowed}"
  by (cases "network_mode policy") (auto simp: evaluate_dispatch_def Let_def plan_queries)

end
