(* ===== verification/File_System.thy ===== *)
theory File_System
  imports Prelude
begin

text \<open>
  Unix paths and the file system under them, as far as the workspace boundary uses them: the
  components of a path as Rust's \<^verbatim>\<open>std::path\<close> reads them, the calls of \<^verbatim>\<open>std::fs\<close> that resolve
  and inspect a path, and the no-follow calls of a directory handle (\<^verbatim>\<open>pinned_dir.rs\<close>).

  A file system maps the names from the root to a node. A node may be a symbolic link, whose target
  is a path; resolving follows at most \<open>MAX_LINKS\<close> of them, as the kernel does. A path is its
  components, so \<^verbatim>\<open>a/./b\<close> and \<^verbatim>\<open>a/b\<close> are one path here, as they are for \<^verbatim>\<open>Path\<close>'s equality,
  \<^verbatim>\<open>starts_with\<close> and \<^verbatim>\<open>parent\<close>. A directory handle is the location it was opened at.
\<close>

section \<open>Paths\<close>

datatype Component = RootDir | CurDir | ParentDir | Normal rstr

type_synonym path = "Component list"

definition path_segments :: "rstr \<Rightarrow> rstr list" where
  "path_segments raw = split_on (\<lambda>c. c = CHR ''/'') raw"

definition segment_component :: "rstr \<Rightarrow> Component" where
  "segment_component s = (if s = ''..'' then ParentDir else Normal s)"

definition path_of :: "rstr \<Rightarrow> path" where
  "path_of raw =
     (case raw of
        [] \<Rightarrow> []
      | c # _ \<Rightarrow>
          (if c = CHR ''/'' then [RootDir]
           else if path_segments raw \<noteq> [] \<and> hd (path_segments raw) = ''.'' then [CurDir] else []) @
          map segment_component (filter (\<lambda>s. s \<noteq> [] \<and> s \<noteq> ''.'') (path_segments raw)))"

definition is_absolute :: "path \<Rightarrow> bool" where
  "is_absolute p \<longleftrightarrow> (case p of RootDir # _ \<Rightarrow> True | _ \<Rightarrow> False)"

definition path_join :: "path \<Rightarrow> path \<Rightarrow> path" where
  "path_join p q = (if is_absolute q then q else if p = [] then q else p @ filter (\<lambda>c. c \<noteq> CurDir) q)"

definition path_starts_with :: "path \<Rightarrow> path \<Rightarrow> bool" where
  "path_starts_with p base \<longleftrightarrow> prefix base p"

definition path_strip_prefix :: "path \<Rightarrow> path \<Rightarrow> path option" where
  "path_strip_prefix p base = (if prefix base p then Some (drop (length base) p) else None)"

definition path_parent :: "path \<Rightarrow> path option" where
  "path_parent p = (if p = [] \<or> last p = RootDir then None else Some (butlast p))"

definition path_file_name :: "path \<Rightarrow> rstr option" where
  "path_file_name p = (if p = [] then None else case last p of Normal n \<Rightarrow> Some n | _ \<Rightarrow> None)"

definition is_normal :: "Component \<Rightarrow> bool" where
  "is_normal c \<longleftrightarrow> (case c of Normal _ \<Rightarrow> True | _ \<Rightarrow> False)"

fun normal_names :: "path \<Rightarrow> rstr list" where
  "normal_names [] = []"
| "normal_names (Normal n # p) = n # normal_names p"
| "normal_names (_ # p) = normal_names p"

text \<open>The text of a canonical path.\<close>

definition path_text :: "path \<Rightarrow> rstr" where
  "path_text p = (if normal_names p = [] then ''/'' else concat (map (\<lambda>n. CHR ''/'' # n) (normal_names p)))"

type_synonym location = "rstr list"

definition canonical_path :: "location \<Rightarrow> path" where
  "canonical_path l = RootDir # map Normal l"

section \<open>The file system\<close>

datatype Node = DirNode | FileNode rstr | LinkNode path

type_synonym file_system = "location \<Rightarrow> Node option"

datatype IoError = NotFoundError | NotADirectoryError | LinkLoop | IsADirectory | AlreadyExists | OtherIo

definition MAX_LINKS :: nat where "MAX_LINKS = 40"

function resolve :: "file_system \<Rightarrow> nat \<Rightarrow> location \<Rightarrow> path \<Rightarrow> IoError + location" where
  "resolve fs links l [] = Inr l"
| "resolve fs links l (RootDir # p) = resolve fs links [] p"
| "resolve fs links l (CurDir # p) = resolve fs links l p"
| "resolve fs links l (ParentDir # p) = resolve fs links (butlast l) p"
| "resolve fs links l (Normal n # p) =
     (case fs (l @ [n]) of
        None \<Rightarrow> Inl NotFoundError
      | Some DirNode \<Rightarrow> resolve fs links (l @ [n]) p
      | Some (FileNode _) \<Rightarrow> if p = [] then Inr (l @ [n]) else Inl NotADirectoryError
      | Some (LinkNode target) \<Rightarrow>
          (case links of 0 \<Rightarrow> Inl LinkLoop | Suc k \<Rightarrow> resolve fs k l (target @ p)))"
  by pat_completeness auto
termination
  by (relation "measures [\<lambda>(fs, links, l, p). links, \<lambda>(fs, links, l, p). length p]") auto

text \<open>\<^verbatim>\<open>paths::canonicalize\<close> off macOS. A relative path starts at the process's directory.\<close>

definition canonicalize :: "file_system \<Rightarrow> location \<Rightarrow> path \<Rightarrow> IoError + path" where
  "canonicalize fs cwd p =
     (if p = [] then Inl NotFoundError
      else case resolve fs MAX_LINKS cwd p of Inl e \<Rightarrow> Inl e | Inr l \<Rightarrow> Inr (canonical_path l))"

definition node_at :: "file_system \<Rightarrow> location \<Rightarrow> Node option" where
  "node_at fs l = (if l = [] then Some DirNode else fs l)"

definition path_is_dir :: "file_system \<Rightarrow> location \<Rightarrow> path \<Rightarrow> bool" where
  "path_is_dir fs cwd p =
     (case resolve fs MAX_LINKS cwd p of Inl _ \<Rightarrow> False | Inr l \<Rightarrow> node_at fs l = Some DirNode)"

definition symlink_metadata :: "file_system \<Rightarrow> location \<Rightarrow> path \<Rightarrow> IoError + Node" where
  "symlink_metadata fs cwd p =
     (if p = [] then Inl NotFoundError
      else case last p of
        Normal n \<Rightarrow>
          (case resolve fs MAX_LINKS cwd (butlast p) of
             Inl e \<Rightarrow> Inl e
           | Inr l \<Rightarrow> (case fs (l @ [n]) of None \<Rightarrow> Inl NotFoundError | Some node \<Rightarrow> Inr node))
      | _ \<Rightarrow>
          (case resolve fs MAX_LINKS cwd p of
             Inl e \<Rightarrow> Inl e
           | Inr l \<Rightarrow> (case node_at fs l of None \<Rightarrow> Inl NotFoundError | Some node \<Rightarrow> Inr node)))"

section \<open>Directory handles\<close>

definition open_dir_nofollow :: "file_system \<Rightarrow> location \<Rightarrow> rstr \<Rightarrow> IoError + location" where
  "open_dir_nofollow fs l n =
     (case fs (l @ [n]) of
        None \<Rightarrow> Inl NotFoundError
      | Some DirNode \<Rightarrow> Inr (l @ [n])
      | Some (FileNode _) \<Rightarrow> Inl NotADirectoryError
      | Some (LinkNode _) \<Rightarrow> Inl LinkLoop)"

fun open_dirs :: "file_system \<Rightarrow> location \<Rightarrow> rstr list \<Rightarrow> IoError + location" where
  "open_dirs fs l [] = Inr l"
| "open_dirs fs l (n # ns) =
     (case open_dir_nofollow fs l n of Inl e \<Rightarrow> Inl e | Inr l' \<Rightarrow> open_dirs fs l' ns)"

definition open_canonical :: "file_system \<Rightarrow> path \<Rightarrow> IoError + location" where
  "open_canonical fs p =
     (if \<not> is_absolute p then Inl OtherIo
      else if list_ex (\<lambda>c. c = CurDir \<or> c = ParentDir) p then Inl OtherIo
      else open_dirs fs [] (normal_names p))"

definition create_dir :: "file_system \<Rightarrow> location \<Rightarrow> rstr \<Rightarrow> file_system \<times> IoError option" where
  "create_dir fs l n =
     (if fs (l @ [n]) = None then (fs(l @ [n] \<mapsto> DirNode), None) else (fs, Some AlreadyExists))"

section \<open>Facts\<close>

lemma normal_names_map [simp]: "normal_names (map Normal l) = l"
  by (induction l) simp_all

lemma normal_names_canonical [simp]: "normal_names (canonical_path l) = l"
  by (simp add: canonical_path_def)

lemma normal_names_append [simp]: "normal_names (p @ q) = normal_names p @ normal_names q"
  by (induction p rule: normal_names.induct) simp_all

lemma canonical_path_inject [simp]: "canonical_path k = canonical_path l \<longleftrightarrow> k = l"
  by (auto simp: canonical_path_def inj_map_eq_map inj_def)

lemma prefix_canonical [simp]: "prefix (canonical_path k) (canonical_path l) \<longleftrightarrow> prefix k l"
proof -
  have "prefix (map Normal k) (map Normal l) \<longleftrightarrow> prefix k l"
    by (metis (no_types, lifting) Component.inject inj_def inj_map_eq_map map_append prefix_def
        map_eq_append_conv)
  then show ?thesis by (simp add: canonical_path_def)
qed

lemma open_dirs_location: "open_dirs fs l ns = Inr l' \<Longrightarrow> l' = l @ ns"
  by (induction fs l ns rule: open_dirs.induct) (auto simp: open_dir_nofollow_def split: option.splits Node.splits)

lemma open_canonical_location: "open_canonical fs p = Inr l \<Longrightarrow> l = normal_names p"
  by (auto simp: open_canonical_def dest: open_dirs_location split: if_splits)

text \<open>A location all of whose directories, itself included, are real directories.\<close>

definition real_dir :: "file_system \<Rightarrow> location \<Rightarrow> bool" where
  "real_dir fs l \<longleftrightarrow> list_all (\<lambda>k. fs (take k l) = Some DirNode) [1..<Suc (length l)]"

lemma real_dir_prefix: "real_dir fs l \<Longrightarrow> prefix k l \<Longrightarrow> real_dir fs k"
  by (auto simp: real_dir_def list_all_iff prefix_def)

lemma real_dir_snoc [simp]: "real_dir fs (l @ [n]) \<longleftrightarrow> real_dir fs l \<and> fs (l @ [n]) = Some DirNode"
proof -
  have i: "real_dir fs k \<longleftrightarrow> (\<forall>j \<in> {1..length k}. fs (take j k) = Some DirNode)" for k
    by (auto simp: real_dir_def list_all_iff)
  have "{1..length (l @ [n])} = insert (Suc (length l)) {1..length l}" by auto
  then show ?thesis unfolding i by auto
qed

lemma resolve_real_dir:
  assumes "real_dir fs (l @ ns)" "real_dir fs l"
  shows "resolve fs links l (map Normal ns @ p) = resolve fs links (l @ ns) p"
  using assms
proof (induction ns arbitrary: l)
  case (Cons n ns)
  have "real_dir fs (l @ [n])" by (rule real_dir_prefix [OF Cons.prems(1)]) simp
  moreover from this have "fs (l @ [n]) = Some DirNode" by simp
  ultimately show ?case using Cons.IH [of "l @ [n]"] Cons.prems(1) by simp
qed simp

lemma resolve_real:
  "real_dir fs l \<Longrightarrow> resolve fs links cwd (canonical_path l) = Inr l"
  using resolve_real_dir [of fs "[]" l links "[]"] by (simp add: canonical_path_def real_dir_def)

lemma resolve_real_file:
  "real_dir fs k \<Longrightarrow> fs (k @ [n]) = Some (FileNode f) \<Longrightarrow>
   resolve fs links cwd (canonical_path (k @ [n])) = Inr (k @ [n])"
  using resolve_real_dir [of fs "[]" k links "[Normal n]"] by (simp add: canonical_path_def real_dir_def)

text \<open>What resolving returns has only real directories above it.\<close>

lemma resolve_parents_real:
  "resolve fs links l p = Inr l' \<Longrightarrow> real_dir fs l \<Longrightarrow> real_dir fs (butlast l') \<and> (real_dir fs l' \<or> (\<exists>c. fs l' = Some (FileNode c)))"
proof (induction fs links l p rule: resolve.induct)
  case (1 fs links l)
  then show ?case using real_dir_prefix [of fs l "butlast l"] by (simp add: prefixeq_butlast)
next
  case (2 fs links l p)
  then show ?case by (simp add: real_dir_def)
next
  case (4 fs links l p)
  then show ?case using real_dir_prefix [of fs l "butlast l"] by (simp add: prefixeq_butlast)
next
  case (5 fs links l n p)
  then show ?case by (auto split: option.splits Node.splits if_splits nat.splits)
qed auto

end
