(* ===== verification/Workspace_Policy.thy ===== *)
theory Workspace_Policy
  imports File_System
begin

text \<open>
  The write boundary of a session, \<^verbatim>\<open>workspace_policy.rs\<close>, with the locations it refuses
  (\<^verbatim>\<open>paths.rs\<close>): which directories are granted, how a requested grant is vetted and applied, and how
  a path of a tool call is checked and then opened through directory handles.

  An operation of the source that looks at the disk takes the file system it sees as an argument; one
  that changes the disk returns the new one. Where the source checks first and opens later, the model
  takes two file systems, so that anything may happen to the disk in between. Messages are the
  constructors of \<open>PathRefusal\<close>; the environment variables are arguments.
\<close>

section \<open>The boundary\<close>

record WorkspacePolicy =
  ws_primary :: path
  ws_extras :: "path list"

datatype GrantFloor = FilesystemRoot | CoversHome | OverlapsSecret path

datatype PathRefusal =
    EmptyPath
  | ParentTraversal
  | SymlinkRefused
  | OutsideRoots
  | NamesDirectory
  | NotADirectory
  | InvalidComponent
  | NoLeaf
  | NoParentDirectory
  | PrimaryMoved
  | GrantMoved
  | GrantNotAbsolute
  | GrantControlCharacters
  | GrantFloored GrantFloor
  | IoFailed IoError
  | DestinationFailed PathRefusal

fun pin_extras ::
  "bool \<Rightarrow> file_system \<Rightarrow> location \<Rightarrow> path \<Rightarrow> path list \<Rightarrow> path list \<Rightarrow> PathRefusal + path list" where
  "pin_extras pinned fs cwd primary done_so_far [] = Inr done_so_far"
| "pin_extras pinned fs cwd primary done_so_far (extra # extras) =
     (case canonicalize fs cwd extra of
        Inl e \<Rightarrow> Inl (IoFailed e)
      | Inr canonical \<Rightarrow>
          if pinned \<and> canonical \<noteq> extra then Inl GrantMoved
          else if \<not> path_is_dir fs cwd canonical then Inl NotADirectory
          else pin_extras pinned fs cwd primary
                 (if canonical \<noteq> primary \<and> canonical \<notin> set done_so_far then done_so_far @ [canonical] else done_so_far)
                 extras)"

definition new_inner ::
  "bool \<Rightarrow> file_system \<Rightarrow> location \<Rightarrow> path \<Rightarrow> path list \<Rightarrow> PathRefusal + WorkspacePolicy" where
  "new_inner pinned fs cwd primary extras =
     (case canonicalize fs cwd primary of
        Inl e \<Rightarrow> Inl (IoFailed e)
      | Inr canonical \<Rightarrow>
          if pinned \<and> canonical \<noteq> primary then Inl PrimaryMoved
          else case pin_extras pinned fs cwd canonical [] extras of
                 Inl e \<Rightarrow> Inl e
               | Inr es \<Rightarrow> Inr \<lparr>ws_primary = canonical, ws_extras = es\<rparr>)"

definition new_pinned :: "file_system \<Rightarrow> location \<Rightarrow> path \<Rightarrow> path list \<Rightarrow> PathRefusal + WorkspacePolicy" where
  "new_pinned fs cwd primary extras = new_inner True fs cwd primary extras"

definition granted_roots :: "WorkspacePolicy \<Rightarrow> path list" where
  "granted_roots policy = ws_primary policy # ws_extras policy"

definition is_granted :: "WorkspacePolicy \<Rightarrow> path \<Rightarrow> bool" where
  "is_granted policy canonical \<longleftrightarrow>
     path_starts_with canonical (ws_primary policy) \<or> list_ex (path_starts_with canonical) (ws_extras policy)"

section \<open>Locations that are never granted unattended\<close>

definition home_from :: "rstr option \<Rightarrow> rstr option \<Rightarrow> path option" where
  "home_from home profile =
     find is_absolute (map path_of (List.map_filter id [home, profile]))"

function canonicalize_existing_prefix :: "file_system \<Rightarrow> location \<Rightarrow> path \<Rightarrow> rstr list \<Rightarrow> path option" where
  "canonicalize_existing_prefix fs cwd probe trailing =
     (case canonicalize fs cwd probe of
        Inr resolved \<Rightarrow> Some (resolved @ map Normal trailing)
      | Inl _ \<Rightarrow>
          (case (path_file_name probe, path_parent probe) of
             (Some name, Some parent) \<Rightarrow> canonicalize_existing_prefix fs cwd parent (name # trailing)
           | _ \<Rightarrow> None))"
  by pat_completeness auto
termination
  by (relation "measure (\<lambda>(fs, cwd, probe, trailing). length probe)")
    (auto simp: path_parent_def split: if_splits)

definition CREDENTIAL_ENTRIES :: "rstr list" where
  "CREDENTIAL_ENTRIES =
     [''.ssh'', ''.aws'', ''.config/gcloud'', ''.azure'', ''.gnupg'', ''.netrc'', ''.config/gh'', ''.docker'',
      ''.kube'', ''.npmrc'', ''.pypirc'', ''.git-credentials'', ''.claude'', ''Library/Keychains'']"

definition DEEP_CODE_DIR :: rstr where "DEEP_CODE_DIR = ''.deep-code''"

definition sensitive_paths :: "file_system \<Rightarrow> location \<Rightarrow> path option \<Rightarrow> path list" where
  "sensitive_paths fs cwd home0 =
     (case home0 of
        None \<Rightarrow> []
      | Some h \<Rightarrow>
          (let home = (case canonicalize fs cwd h of Inr c \<Rightarrow> c | Inl _ \<Rightarrow> h) in
           concat (map (\<lambda>entry.
             let joined = path_join home (path_of entry) in
             (case canonicalize_existing_prefix fs cwd joined [] of
                Some resolved \<Rightarrow> if resolved \<noteq> joined then [resolved] else []
              | None \<Rightarrow> []) @ [joined])
             (CREDENTIAL_ENTRIES @ [DEEP_CODE_DIR]))))"

definition sensitive_overlap :: "path \<Rightarrow> path list \<Rightarrow> path option" where
  "sensitive_overlap canonical secrets =
     find (\<lambda>secret. path_starts_with canonical secret \<or> path_starts_with secret canonical) secrets"

definition refuse_as_unattended_root :: "file_system \<Rightarrow> location \<Rightarrow> path option \<Rightarrow> path \<Rightarrow> GrantFloor option" where
  "refuse_as_unattended_root fs cwd home canonical =
     (if path_parent canonical = None then Some FilesystemRoot
      else if (case home of
                 None \<Rightarrow> False
               | Some h \<Rightarrow> (case canonicalize fs cwd h of Inl _ \<Rightarrow> False | Inr h' \<Rightarrow> path_starts_with h' canonical))
      then Some CoversHome
      else case sensitive_overlap canonical (sensitive_paths fs cwd home) of
             Some secret \<Rightarrow> Some (OverlapsSecret secret)
           | None \<Rightarrow> None)"

section \<open>Granting\<close>

definition is_control :: "char \<Rightarrow> bool" where
  "is_control c \<longleftrightarrow> of_char c < (32 :: nat) \<or> 127 \<le> (of_char c :: nat) \<and> of_char c < (160 :: nat)"

definition resolve_grant_target ::
  "file_system \<Rightarrow> location \<Rightarrow> path option \<Rightarrow> WorkspacePolicy \<Rightarrow> path \<Rightarrow> PathRefusal + path" where
  "resolve_grant_target fs cwd home policy raw =
     (if \<not> is_absolute raw then Inl GrantNotAbsolute
      else case canonicalize fs cwd raw of
        Inl e \<Rightarrow> Inl (IoFailed e)
      | Inr canonical \<Rightarrow>
          if \<not> path_is_dir fs cwd canonical then Inl NotADirectory
          else if list_ex (list_ex is_control) (normal_names canonical) then Inl GrantControlCharacters
          else if is_granted policy canonical then Inr canonical
          else case refuse_as_unattended_root fs cwd home canonical of
                 Some floor \<Rightarrow> Inl (GrantFloored floor)
               | None \<Rightarrow> Inr canonical)"

datatype RootGrantOutcome = Granted path | AlreadyGranted path

definition grant_resolved :: "path \<Rightarrow> WorkspacePolicy \<Rightarrow> WorkspacePolicy \<times> RootGrantOutcome" where
  "grant_resolved canonical policy =
     (if path_starts_with canonical (ws_primary policy) \<or> list_ex (path_starts_with canonical) (ws_extras policy)
      then (policy, AlreadyGranted canonical)
      else (policy\<lparr>ws_extras := ws_extras policy @ [canonical]\<rparr>, Granted canonical))"

section \<open>Checking a path\<close>

definition stattable_segments :: "path \<Rightarrow> (nat \<times> path) list" where
  "stattable_segments p = map (\<lambda>i. (i, take (i + 1) p)) (filter (\<lambda>i. is_normal (p ! i)) [0..<length p])"

fun any_symlink :: "file_system \<Rightarrow> location \<Rightarrow> nat \<Rightarrow> (nat \<times> path) list \<Rightarrow> IoError + bool" where
  "any_symlink fs cwd start [] = Inr False"
| "any_symlink fs cwd start ((i, current) # segs) =
     (if i < start then any_symlink fs cwd start segs
      else case symlink_metadata fs cwd current of
             Inl e \<Rightarrow> Inl e
           | Inr (LinkNode _) \<Rightarrow> Inr True
           | Inr _ \<Rightarrow> any_symlink fs cwd start segs)"

definition contains_symlink :: "file_system \<Rightarrow> location \<Rightarrow> path \<Rightarrow> path list \<Rightarrow> IoError + bool" where
  "contains_symlink fs cwd p skip =
     (let start = foldr max (map length (filter (path_starts_with p) skip)) 0
      in any_symlink fs cwd start (stattable_segments p))"

fun first_file :: "file_system \<Rightarrow> location \<Rightarrow> (nat \<times> path) list \<Rightarrow> path option" where
  "first_file fs cwd [] = None"
| "first_file fs cwd ((i, current) # segs) =
     (case symlink_metadata fs cwd current of
        Inl _ \<Rightarrow> None
      | Inr DirNode \<Rightarrow> first_file fs cwd segs
      | Inr _ \<Rightarrow> Some current)"

definition first_file_segment :: "file_system \<Rightarrow> location \<Rightarrow> path \<Rightarrow> path option" where
  "first_file_segment fs cwd p = first_file fs cwd (stattable_segments p)"

definition has_trailing_directory_marker :: "rstr \<Rightarrow> bool" where
  "has_trailing_directory_marker raw \<longleftrightarrow> raw = ''.'' \<or> suffix ''/'' raw \<or> suffix ''/.'' raw"

definition prepare_candidate :: "WorkspacePolicy \<Rightarrow> rstr \<Rightarrow> PathRefusal + path" where
  "prepare_candidate policy raw =
     (let p = path_of raw in
      if trim raw = [] then Inl EmptyPath
      else if is_absolute p then
        if ParentDir \<in> set p then Inl ParentTraversal else Inr p
      else if ParentDir \<in> set p \<or> RootDir \<in> set p then Inl ParentTraversal
      else Inr (path_join (ws_primary policy) p))"

definition resolve_existing :: "file_system \<Rightarrow> location \<Rightarrow> WorkspacePolicy \<Rightarrow> rstr \<Rightarrow> PathRefusal + path" where
  "resolve_existing fs cwd policy raw =
     (case prepare_candidate policy raw of
        Inl e \<Rightarrow> Inl e
      | Inr candidate \<Rightarrow>
          (case contains_symlink fs cwd candidate (granted_roots policy) of
             Inl e \<Rightarrow> Inl (IoFailed e)
           | Inr True \<Rightarrow> Inl SymlinkRefused
           | Inr False \<Rightarrow>
               (case canonicalize fs cwd candidate of
                  Inl e \<Rightarrow> Inl (IoFailed e)
                | Inr canonical \<Rightarrow> if is_granted policy canonical then Inr canonical else Inl OutsideRoots)))"

definition resolve_cwd :: "file_system \<Rightarrow> location \<Rightarrow> WorkspacePolicy \<Rightarrow> rstr option \<Rightarrow> PathRefusal + path" where
  "resolve_cwd fs cwd policy raw =
     (case raw of
        None \<Rightarrow> Inr (ws_primary policy)
      | Some r \<Rightarrow>
          (case resolve_existing fs cwd policy r of
             Inl e \<Rightarrow> Inl e
           | Inr p \<Rightarrow> if path_is_dir fs cwd p then Inr p else Inl NotADirectory))"

text \<open>The deepest ancestor with an entry of its own, a dangling link included.\<close>

function deepest_existing :: "file_system \<Rightarrow> location \<Rightarrow> path \<Rightarrow> path" where
  "deepest_existing fs cwd existing =
     (case symlink_metadata fs cwd existing of
        Inr _ \<Rightarrow> existing
      | Inl _ \<Rightarrow> (case path_parent existing of Some nx \<Rightarrow> deepest_existing fs cwd nx | None \<Rightarrow> existing))"
  by pat_completeness auto
termination
  by (relation "measure (\<lambda>(fs, cwd, p). length p)") (auto simp: path_parent_def split: if_splits)

definition resolve_for_write :: "file_system \<Rightarrow> location \<Rightarrow> WorkspacePolicy \<Rightarrow> rstr \<Rightarrow> PathRefusal + path" where
  "resolve_for_write fs cwd policy raw =
     (if has_trailing_directory_marker raw then Inl NamesDirectory
      else case prepare_candidate policy raw of
        Inl e \<Rightarrow> Inl e
      | Inr candidate \<Rightarrow>
          (let vet = (\<lambda>existing.
             case contains_symlink fs cwd existing (granted_roots policy) of
               Inl e \<Rightarrow> Inl (IoFailed e)
             | Inr True \<Rightarrow> Inl SymlinkRefused
             | Inr False \<Rightarrow>
                 (case canonicalize fs cwd existing of
                    Inl e \<Rightarrow> Inl (IoFailed e)
                  | Inr canonical \<Rightarrow> if is_granted policy canonical then Inr candidate else Inl OutsideRoots))
           in case symlink_metadata fs cwd candidate of
                Inr _ \<Rightarrow> vet candidate
              | Inl _ \<Rightarrow>
                  (case path_parent candidate of
                     None \<Rightarrow> Inl NoParentDirectory
                   | Some parent \<Rightarrow> vet (deepest_existing fs cwd parent))))"

section \<open>Opening through handles\<close>

record SafePath =
  sp_path :: path
  sp_parent :: location
  sp_leaf :: rstr

text \<open>The deepest granted root that covers a path; of several as deep, the last one.\<close>

definition covering_root :: "WorkspacePolicy \<Rightarrow> path \<Rightarrow> path option" where
  "covering_root policy p =
     foldl (\<lambda>best root. case best of
              None \<Rightarrow> Some root
            | Some b \<Rightarrow> if length b \<le> length root then Some root else Some b)
       None (filter (path_starts_with p) (granted_roots policy))"

definition root_relative :: "WorkspacePolicy \<Rightarrow> path \<Rightarrow> PathRefusal + path \<times> path" where
  "root_relative policy p =
     (case covering_root policy p of
        None \<Rightarrow> Inl OutsideRoots
      | Some root \<Rightarrow> (case path_strip_prefix p root of None \<Rightarrow> Inl OutsideRoots | Some rel \<Rightarrow> Inr (root, rel)))"

fun walk_dirs :: "bool \<Rightarrow> file_system \<Rightarrow> location \<Rightarrow> rstr list \<Rightarrow> file_system \<times> (IoError + location)" where
  "walk_dirs create fs l [] = (fs, Inr l)"
| "walk_dirs create fs l (n # ns) =
     (case open_dir_nofollow fs l n of
        Inr l' \<Rightarrow> walk_dirs create fs l' ns
      | Inl e \<Rightarrow>
          if create \<and> e = NotFoundError then
            (case create_dir fs l n of
               (fs', Some e') \<Rightarrow> (fs', Inl e')
             | (fs', None) \<Rightarrow>
                 (case open_dir_nofollow fs' l n of
                    Inl e' \<Rightarrow> (fs', Inl e')
                  | Inr l' \<Rightarrow> walk_dirs create fs' l' ns))
          else (fs, Inl e))"

definition open_parent_from ::
  "bool \<Rightarrow> file_system \<Rightarrow> location \<Rightarrow> path \<Rightarrow> file_system \<times> (PathRefusal + location \<times> rstr)" where
  "open_parent_from create fs root_dir rel =
     (let names = normal_names rel in
      if names = [] then (fs, Inl NoLeaf)
      else case walk_dirs create fs root_dir (butlast names) of
             (fs', Inl e) \<Rightarrow> (fs', Inl (IoFailed e))
           | (fs', Inr l) \<Rightarrow> (fs', Inr (l, last names)))"

definition open_parent ::
  "bool \<Rightarrow> file_system \<Rightarrow> path \<Rightarrow> path \<Rightarrow> file_system \<times> (PathRefusal + location \<times> rstr)" where
  "open_parent create fs root rel =
     (case open_canonical fs root of
        Inl e \<Rightarrow> (fs, Inl (IoFailed e))
      | Inr root_dir \<Rightarrow> open_parent_from create fs root_dir rel)"

definition open_existing_path ::
  "file_system \<Rightarrow> file_system \<Rightarrow> location \<Rightarrow> WorkspacePolicy \<Rightarrow> path \<Rightarrow> PathRefusal + SafePath" where
  "open_existing_path fs1 fs2 cwd policy p =
     (case canonicalize fs1 cwd p of
        Inl e \<Rightarrow> Inl (IoFailed e)
      | Inr canonical \<Rightarrow>
          if \<not> is_granted policy canonical then Inl OutsideRoots
          else case root_relative policy canonical of
                 Inl e \<Rightarrow> Inl e
               | Inr (root, rel) \<Rightarrow>
                   (case snd (open_parent False fs2 root rel) of
                      Inl e \<Rightarrow> Inl e
                    | Inr (parent, leaf) \<Rightarrow> Inr \<lparr>sp_path = canonical, sp_parent = parent, sp_leaf = leaf\<rparr>))"

definition open_existing ::
  "file_system \<Rightarrow> file_system \<Rightarrow> location \<Rightarrow> WorkspacePolicy \<Rightarrow> rstr \<Rightarrow> PathRefusal + SafePath" where
  "open_existing fs1 fs2 cwd policy raw =
     (case resolve_existing fs1 cwd policy raw of
        Inl e \<Rightarrow> Inl e
      | Inr p \<Rightarrow> open_existing_path fs1 fs2 cwd policy p)"

definition open_existing_beneath ::
  "file_system \<Rightarrow> path \<Rightarrow> path \<Rightarrow> location \<Rightarrow> PathRefusal + SafePath" where
  "open_existing_beneath fs canonical root root_dir =
     (case path_strip_prefix canonical root of
        None \<Rightarrow> Inl OutsideRoots
      | Some rel \<Rightarrow>
          (case snd (open_parent_from False fs root_dir rel) of
             Inl e \<Rightarrow> Inl e
           | Inr (parent, leaf) \<Rightarrow> Inr \<lparr>sp_path = canonical, sp_parent = parent, sp_leaf = leaf\<rparr>))"

definition open_existing_dir ::
  "file_system \<Rightarrow> file_system \<Rightarrow> location \<Rightarrow> WorkspacePolicy \<Rightarrow> rstr \<Rightarrow> PathRefusal + path \<times> location" where
  "open_existing_dir fs1 fs2 cwd policy raw =
     (case resolve_existing fs1 cwd policy raw of
        Inl e \<Rightarrow> Inl e
      | Inr p \<Rightarrow>
          (case root_relative policy p of
             Inl e \<Rightarrow> Inl e
           | Inr (root, rel) \<Rightarrow>
               (case open_canonical fs2 root of
                  Inl e \<Rightarrow> Inl (IoFailed e)
                | Inr root_dir \<Rightarrow>
                    if list_ex (\<lambda>c. \<not> is_normal c) rel then Inl InvalidComponent
                    else case open_dirs fs2 root_dir (normal_names rel) of
                           Inl e \<Rightarrow> Inl (IoFailed e)
                         | Inr l \<Rightarrow> Inr (p, l))))"

definition prepare_write_target ::
  "file_system \<Rightarrow> file_system \<Rightarrow> location \<Rightarrow> WorkspacePolicy \<Rightarrow> rstr \<Rightarrow> file_system \<times> (PathRefusal + SafePath)" where
  "prepare_write_target fs1 fs2 cwd policy raw =
     (case resolve_for_write fs1 cwd policy raw of
        Inl e \<Rightarrow> (fs2, Inl e)
      | Inr candidate \<Rightarrow>
          (case root_relative policy candidate of
             Inl e \<Rightarrow> (fs2, Inl e)
           | Inr (root, rel) \<Rightarrow>
               (case open_parent True fs2 root rel of
                  (fs', Inl e) \<Rightarrow> (fs', Inl (DestinationFailed e))
                | (fs', Inr (parent, leaf)) \<Rightarrow>
                    (fs', Inr \<lparr>sp_path = candidate, sp_parent = parent, sp_leaf = leaf\<rparr>))))"

definition no_follow_metadata :: "file_system \<Rightarrow> SafePath \<Rightarrow> IoError + Node" where
  "no_follow_metadata fs sp =
     (case fs (sp_parent sp @ [sp_leaf sp]) of None \<Rightarrow> Inl NotFoundError | Some node \<Rightarrow> Inr node)"

definition safe_read :: "file_system \<Rightarrow> SafePath \<Rightarrow> IoError + rstr" where
  "safe_read fs sp =
     (case fs (sp_parent sp @ [sp_leaf sp]) of
        None \<Rightarrow> Inl NotFoundError
      | Some DirNode \<Rightarrow> Inl IsADirectory
      | Some (FileNode content) \<Rightarrow> Inr content
      | Some (LinkNode _) \<Rightarrow> Inl LinkLoop)"

definition safe_replace :: "file_system \<Rightarrow> SafePath \<Rightarrow> rstr \<Rightarrow> file_system \<times> IoError option" where
  "safe_replace fs sp content =
     (case fs (sp_parent sp @ [sp_leaf sp]) of
        Some DirNode \<Rightarrow> (fs, Some IsADirectory)
      | Some (LinkNode _) \<Rightarrow> (fs, Some LinkLoop)
      | _ \<Rightarrow> (fs(sp_parent sp @ [sp_leaf sp] \<mapsto> FileNode content), None))"

section \<open>The boundary over a session\<close>

text \<open>How a boundary comes about: it is built at launch, and then widened by grants, each of a target that
  was vetted on the disk of that moment.\<close>

inductive boundary_reach :: "WorkspacePolicy \<Rightarrow> bool" where
  launch: "new_inner pinned fs cwd primary extras = Inr policy \<Longrightarrow> boundary_reach policy"
| grant: "boundary_reach policy \<Longrightarrow> resolve_grant_target fs cwd home policy raw = Inr canonical \<Longrightarrow>
    boundary_reach (fst (grant_resolved canonical policy))"

definition canonical_roots :: "WorkspacePolicy \<Rightarrow> bool" where
  "canonical_roots policy \<longleftrightarrow>
     distinct (granted_roots policy) \<and> (\<forall>root \<in> set (granted_roots policy). \<exists>l. root = canonical_path l)"

lemma canonicalizeD:
  "canonicalize fs cwd p = Inr c \<Longrightarrow> \<exists>l. c = canonical_path l \<and> resolve fs MAX_LINKS cwd p = Inr l"
  by (auto simp: canonicalize_def split: if_splits sum.splits)

lemma pin_extras_roots:
  assumes "pin_extras pinned fs cwd primary sofar extras = Inr es"
    and "distinct (primary # sofar)" "\<forall>root \<in> set sofar. \<exists>l. root = canonical_path l"
  shows "distinct (primary # es) \<and> (\<forall>root \<in> set es. \<exists>l. root = canonical_path l)"
  using assms
proof (induction pinned fs cwd primary sofar extras rule: pin_extras.induct)
  case (2 pinned fs cwd primary sofar extra extras)
  then obtain canonical where c: "canonicalize fs cwd extra = Inr canonical" "\<not> (pinned \<and> canonical \<noteq> extra)"
    "path_is_dir fs cwd canonical"
    "pin_extras pinned fs cwd primary
      (if canonical \<noteq> primary \<and> canonical \<notin> set sofar then sofar @ [canonical] else sofar) extras = Inr es"
    by (auto split: sum.splits if_splits)
  with canonicalizeD [OF c(1)] 2 show ?case by (auto split: if_splits)
qed auto

lemma grant_resolved_roots:
  "granted_roots (fst (grant_resolved c policy)) =
     (if is_granted policy c then granted_roots policy else granted_roots policy @ [c])"
  by (simp add: grant_resolved_def is_granted_def granted_roots_def)

lemma is_granted_iff: "is_granted policy p \<longleftrightarrow> (\<exists>root \<in> set (granted_roots policy). prefix root p)"
  by (auto simp: is_granted_def granted_roots_def path_starts_with_def list_ex_iff)

lemma resolve_grant_targetD:
  assumes "resolve_grant_target fs cwd home policy raw = Inr c"
  shows "canonicalize fs cwd raw = Inr c \<and> path_is_dir fs cwd c \<and>
    \<not> list_ex (list_ex is_control) (normal_names c) \<and>
    (is_granted policy c \<or> refuse_as_unattended_root fs cwd home c = None)"
  using assms by (auto simp: resolve_grant_target_def split: if_splits sum.splits option.splits)

lemma boundary_canonical: "boundary_reach policy \<Longrightarrow> canonical_roots policy"
proof (induction rule: boundary_reach.induct)
  case (launch pinned fs cwd primary extras policy)
  then obtain c es where c: "canonicalize fs cwd primary = Inr c" "pin_extras pinned fs cwd c [] extras = Inr es"
    "policy = \<lparr>ws_primary = c, ws_extras = es\<rparr>"
    by (auto simp: new_inner_def split: sum.splits if_splits)
  from pin_extras_roots [OF c(2)] canonicalizeD [OF c(1)] c(3) show ?case
    by (auto simp: canonical_roots_def granted_roots_def)
next
  case (grant policy fs cwd home raw canonical)
  obtain l where "canonical = canonical_path l"
    using resolve_grant_targetD [OF grant(2)] canonicalizeD by blast
  with grant(3) show ?case
    by (auto simp: canonical_roots_def grant_resolved_roots is_granted_iff)
qed

text \<open>C24 (functional). What a grant does. A target that passes is a directory all of whose parents are real
  directories at that moment, whose name can be shown faithfully; unless it was writable already, it
  is not the file system's root, covers neither the home directory nor a credential store, and lies
  in none. Granting it makes exactly the paths at and under it writable and takes nothing away.\<close>

theorem grant_widens_exactly:
  assumes "resolve_grant_target fs cwd home policy raw = Inr c" and "real_dir fs cwd"
  shows "(\<exists>l. c = canonical_path l \<and> real_dir fs l \<and> \<not> list_ex (list_ex is_control) l) \<and>
    (is_granted policy c \<or>
      c \<noteq> canonical_path [] \<and>
      (\<forall>h h'. home = Some h \<and> canonicalize fs cwd h = Inr h' \<longrightarrow> \<not> prefix c h') \<and>
      (\<forall>secret \<in> set (sensitive_paths fs cwd home). \<not> prefix secret c \<and> \<not> prefix c secret)) \<and>
    (\<forall>p. is_granted (fst (grant_resolved c policy)) p \<longleftrightarrow> is_granted policy p \<or> prefix c p)"
proof -
  note d = resolve_grant_targetD [OF assms(1)]
  then obtain l where l: "c = canonical_path l" "resolve fs MAX_LINKS cwd raw = Inr l"
    using canonicalizeD by blast
  have parents: "real_dir fs l \<or> (\<exists>f. fs l = Some (FileNode f))" "real_dir fs (butlast l)"
    using resolve_parents_real [OF l(2) assms(2)] by auto
  have "real_dir fs l"
  proof (rule ccontr)
    assume "\<not> real_dir fs l"
    with parents obtain f where f: "fs l = Some (FileNode f)" by blast
    then have "l \<noteq> []" using \<open>\<not> real_dir fs l\<close> by (auto simp: real_dir_def)
    then have e: "l = butlast l @ [last l]" by simp
    have "resolve fs MAX_LINKS cwd (canonical_path l) = Inr l"
      using resolve_real_file [of fs "butlast l" "last l" f MAX_LINKS cwd] parents(2) f e by simp
    with d f \<open>l \<noteq> []\<close> l(1) show False by (simp add: path_is_dir_def node_at_def)
  qed
  moreover have "is_granted policy c \<or>
      c \<noteq> canonical_path [] \<and>
      (\<forall>h h'. home = Some h \<and> canonicalize fs cwd h = Inr h' \<longrightarrow> \<not> prefix c h') \<and>
      (\<forall>secret \<in> set (sensitive_paths fs cwd home). \<not> prefix secret c \<and> \<not> prefix c secret)"
    using d by (auto simp: refuse_as_unattended_root_def sensitive_overlap_def path_starts_with_def path_parent_def
        canonical_path_def find_None_iff split: if_splits option.splits sum.splits)
  moreover have "is_granted (fst (grant_resolved c policy)) p \<longleftrightarrow> is_granted policy p \<or> prefix c p" for p
    by (auto simp: is_granted_iff grant_resolved_roots intro: prefix_order.trans)
  ultimately show ?thesis using l d by auto
qed

text \<open>A small disk: a workspace with a link out of it, a library beside it, and a home.\<close>

definition sample_disk :: file_system where
  "sample_disk l =
     (if l \<in> {[], [''ws''], [''ws'', ''src''], [''lib''], [''home''], [''home'', ''.ssh'']} then Some DirNode
      else if l = [''ws'', ''out''] then Some (LinkNode [RootDir, Normal ''home'', Normal ''.ssh''])
      else if l = [''ws'', ''a.txt''] then Some (FileNode ''a'')
      else None)"

definition sample_policy :: WorkspacePolicy where
  "sample_policy = \<lparr>ws_primary = canonical_path [''ws''], ws_extras = []\<rparr>"

lemma sample_policy_reach: "boundary_reach sample_policy"
proof (rule boundary_reach.launch [of True sample_disk "[]" "canonical_path [''ws'']" "[]"])
  have "resolve sample_disk MAX_LINKS [] (canonical_path [''ws'']) = Inr [''ws'']"
    by (simp add: canonical_path_def sample_disk_def)
  then show "new_inner True sample_disk [] (canonical_path [''ws'']) [] = Inr sample_policy"
    by (simp add: new_inner_def canonicalize_def sample_policy_def canonical_path_def)
qed

theorem grant_widens_exactly_witness:
  "let lib = canonical_path [''lib''] in
   resolve_grant_target sample_disk [] (Some (canonical_path [''home''])) sample_policy lib = Inr lib \<and>
   \<not> is_granted sample_policy (canonical_path [''lib'', ''x'']) \<and>
   is_granted (fst (grant_resolved lib sample_policy)) (canonical_path [''lib'', ''x''])"
proof -
  have r: "resolve_grant_target sample_disk [] (Some (canonical_path [''home''])) sample_policy (canonical_path [''lib'']) =
      Inr (canonical_path [''lib''])"
    by code_simp
  from grant_widens_exactly [OF r] show ?thesis
    unfolding Let_def using r by (simp add: real_dir_def is_granted_iff granted_roots_def sample_policy_def)
qed

section \<open>Nothing is opened outside the boundary\<close>

definition inside :: "WorkspacePolicy \<Rightarrow> location \<Rightarrow> bool" where
  "inside policy l \<longleftrightarrow> (\<exists>root. canonical_path root \<in> set (granted_roots policy) \<and> strict_prefix root l)"

lemma covering_root_granted:
  "covering_root policy p = Some root \<Longrightarrow> root \<in> set (granted_roots policy) \<and> prefix root p"
proof -
  have fold: "foldl (\<lambda>best root. case best of None \<Rightarrow> Some root
      | Some b \<Rightarrow> if length b \<le> length root then Some root else Some b) best rs = Some r \<Longrightarrow>
      r \<in> set rs \<or> best = Some r" for best rs and r :: path
    by (induction rs arbitrary: best) (auto split: option.splits if_splits)
  assume "covering_root policy p = Some root"
  from fold [OF this [unfolded covering_root_def]] show ?thesis
    by (auto simp: path_starts_with_def)
qed

lemma root_relativeD:
  "root_relative policy p = Inr (root, rel) \<Longrightarrow> root \<in> set (granted_roots policy) \<and> p = root @ rel"
  by (auto simp: root_relative_def path_strip_prefix_def prefix_def dest: covering_root_granted
      split: option.splits if_splits)

lemma walk_dirs_Cons:
  "walk_dirs create fs l (n # ns) =
     (case fs (l @ [n]) of
        Some DirNode \<Rightarrow> walk_dirs create fs (l @ [n]) ns
      | Some (FileNode _) \<Rightarrow> (fs, Inl NotADirectoryError)
      | Some (LinkNode _) \<Rightarrow> (fs, Inl LinkLoop)
      | None \<Rightarrow> if create then walk_dirs create (fs(l @ [n] \<mapsto> DirNode)) (l @ [n]) ns else (fs, Inl NotFoundError))"
  by (simp add: open_dir_nofollow_def create_dir_def split: option.split Node.split)

lemma walk_dirs_location: "walk_dirs create fs l ns = (fs', Inr l') \<Longrightarrow> l' = l @ ns"
  by (induction ns arbitrary: fs l)
    (fastforce simp: walk_dirs_Cons simp del: walk_dirs.simps(2) split: option.splits Node.splits if_splits)+

lemma walk_dirs_creates:
  "walk_dirs create fs l ns = (fs', r) \<Longrightarrow> fs' k \<noteq> fs k \<Longrightarrow>
   create \<and> fs k = None \<and> fs' k = Some DirNode \<and> strict_prefix l k"
proof (induction ns arbitrary: fs l)
  case (Cons n ns)
  note walk = walk_dirs_Cons [of create fs l n ns]
  have deeper: "strict_prefix l k" if "strict_prefix (l @ [n]) k"
    using that by (auto simp: strict_prefix_def prefix_def)
  show ?case
  proof (cases "fs (l @ [n])")
    case None
    let ?fs = "fs(l @ [n] \<mapsto> DirNode)"
    from Cons.prems None have c: "create" "walk_dirs create ?fs (l @ [n]) ns = (fs', r)"
      by (auto simp: walk simp del: walk_dirs.simps(2) split: if_splits)
    show ?thesis
    proof (cases "fs' k = ?fs k")
      case True
      with Cons.prems(2) None c(1) show ?thesis by (auto simp: strict_prefix_def split: if_splits)
    next
      case False
      from Cons.IH [OF c(2) False] deeper show ?thesis by (auto split: if_splits)
    qed
  next
    case (Some node)
    with Cons deeper show ?thesis
      by (cases node) (auto simp: walk simp del: walk_dirs.simps(2))
  qed
qed simp

lemma open_parent_inside:
  assumes "open_parent create fs (canonical_path root) rel = (fs', out)"
  shows "(fs' k \<noteq> fs k \<longrightarrow> create \<and> fs k = None \<and> fs' k = Some DirNode \<and> strict_prefix root k) \<and>
    (\<forall>parent leaf. out = Inr (parent, leaf) \<longrightarrow> strict_prefix root (parent @ [leaf]))"
proof (cases "open_canonical fs (canonical_path root)")
  case (Inl e)
  with assms show ?thesis by (auto simp: open_parent_def)
next
  case (Inr root_dir)
  then have "root_dir = root" using open_canonical_location by fastforce
  with Inr assms show ?thesis
    by (auto simp: open_parent_def open_parent_from_def Let_def strict_prefix_def
        dest: walk_dirs_creates walk_dirs_location split: if_splits prod.splits sum.splits)
qed

lemma granted_canonical:
  "boundary_reach policy \<Longrightarrow> root \<in> set (granted_roots policy) \<Longrightarrow> \<exists>l. root = canonical_path l"
  using boundary_canonical by (simp add: canonical_roots_def)

lemma writes_inside:
  assumes "boundary_reach policy" and "prepare_write_target fs1 fs2 cwd policy raw = (fs', out)"
  shows "(\<forall>k. fs' k \<noteq> fs2 k \<longrightarrow> fs2 k = None \<and> fs' k = Some DirNode \<and> inside policy k) \<and>
    (\<forall>sp. out = Inr sp \<longrightarrow> inside policy (sp_parent sp @ [sp_leaf sp]) \<and>
      (\<forall>fs3 content k. fst (safe_replace fs3 sp content) k \<noteq> fs3 k \<longrightarrow>
         k = sp_parent sp @ [sp_leaf sp] \<and> fst (safe_replace fs3 sp content) k = Some (FileNode content) \<and>
         (fs3 k = None \<or> (\<exists>old. fs3 k = Some (FileNode old)))))"
proof -
  have replace: "k = sp_parent sp @ [sp_leaf sp] \<and> fst (safe_replace fs3 sp content) k = Some (FileNode content) \<and>
      (fs3 k = None \<or> (\<exists>old. fs3 k = Some (FileNode old)))"
    if "fst (safe_replace fs3 sp content) k \<noteq> fs3 k" for fs3 sp content k
    using that by (auto simp: safe_replace_def split: option.splits Node.splits if_splits)
  show ?thesis
  proof (cases "\<exists>root rel. (fs', out) = (case open_parent True fs2 root rel of
      (fs', Inl e) \<Rightarrow> (fs', Inl (DestinationFailed e))
    | (fs', Inr (parent, leaf)) \<Rightarrow> (fs', Inr \<lparr>sp_path = root @ rel, sp_parent = parent, sp_leaf = leaf\<rparr>)) \<and>
      root \<in> set (granted_roots policy)")
    case False
    then have "fs' = fs2 \<and> (\<exists>e. out = Inl e)"
      using assms(2) root_relativeD
      by (fastforce simp: prepare_write_target_def split: sum.splits prod.splits)
    then show ?thesis by auto
  next
    case True
    then obtain root rel where r: "root \<in> set (granted_roots policy)"
      "(fs', out) = (case open_parent True fs2 root rel of
        (fs', Inl e) \<Rightarrow> (fs', Inl (DestinationFailed e))
      | (fs', Inr (parent, leaf)) \<Rightarrow> (fs', Inr \<lparr>sp_path = root @ rel, sp_parent = parent, sp_leaf = leaf\<rparr>))" by blast
    obtain l where l: "root = canonical_path l" using granted_canonical [OF assms(1) r(1)] by blast
    obtain fs'' out' where o: "open_parent True fs2 root rel = (fs'', out')" by fastforce
    with r(2) have "fs' = fs''" by (auto split: sum.splits prod.splits)
    have "inside policy k" if "strict_prefix l k" for k using that r(1) l by (auto simp: inside_def)
    with open_parent_inside [OF o [unfolded l]] r(2) o \<open>fs' = fs''\<close> replace show ?thesis
      by (auto split: sum.splits prod.splits)
  qed
qed

text \<open>C7 (safety). No write leaves the boundary, whatever happens to the disk between the check and the
  write. Preparing a write target, with one disk seen by the check and any other by the opening,
  creates nothing but directories, all strictly under a granted root; and where it succeeds, the file
  that is then written on whatever disk there is by then is one location strictly under a granted
  root that held no directory and no link, and nothing else changes.\<close>

theorem writes_stay_inside:
  assumes "boundary_reach policy" and "prepare_write_target fs1 fs2 cwd policy raw = (fs', out)"
  shows "(\<forall>k. fs' k \<noteq> fs2 k \<longrightarrow> fs2 k = None \<and> fs' k = Some DirNode \<and> inside policy k) \<and>
    (\<forall>sp. out = Inr sp \<longrightarrow> inside policy (sp_parent sp @ [sp_leaf sp]) \<and>
      (\<forall>fs3 content k. fst (safe_replace fs3 sp content) k \<noteq> fs3 k \<longrightarrow>
         k = sp_parent sp @ [sp_leaf sp] \<and> fst (safe_replace fs3 sp content) k = Some (FileNode content) \<and>
         (fs3 k = None \<or> (\<exists>old. fs3 k = Some (FileNode old)))))"
  using writes_inside [OF assms] .

text \<open>The check sees a plain directory; the opening sees a link put in its place, and refuses it.\<close>

theorem writes_stay_inside_witness:
  "let (fs', out) = prepare_write_target sample_disk sample_disk [] sample_policy ''src/new/b.txt''
   in fs' [''ws'', ''src'', ''new''] = Some DirNode \<and> inside sample_policy [''ws'', ''src'', ''new''] \<and>
      snd (prepare_write_target sample_disk (sample_disk([''ws'', ''src''] \<mapsto> LinkNode [RootDir, Normal ''home''])) []
        sample_policy ''src/new/b.txt'') = Inl (DestinationFailed (IoFailed LinkLoop))"
proof -
  obtain fs' out where p: "prepare_write_target sample_disk sample_disk [] sample_policy ''src/new/b.txt'' = (fs', out)"
    by fastforce
  have e: "fst (prepare_write_target sample_disk sample_disk [] sample_policy ''src/new/b.txt'') [''ws'', ''src'', ''new''] =
      Some DirNode" "sample_disk [''ws'', ''src'', ''new''] = None"
    "snd (prepare_write_target sample_disk (sample_disk([''ws'', ''src''] \<mapsto> LinkNode [RootDir, Normal ''home''])) []
        sample_policy ''src/new/b.txt'') = Inl (DestinationFailed (IoFailed LinkLoop))"
    by code_simp+
  from writes_stay_inside [OF sample_policy_reach p] e p show ?thesis by simp
qed

section \<open>Skipping the roots\<close>

lemma symlink_metadata_real:
  assumes "real_dir fs (l @ [n])"
  shows "symlink_metadata fs cwd (canonical_path (l @ [n])) = Inr DirNode"
proof -
  have "canonical_path (l @ [n]) = canonical_path l @ [Normal n]" by (simp add: canonical_path_def)
  moreover have "resolve fs MAX_LINKS cwd (canonical_path l) = Inr l" using assms resolve_real by simp
  ultimately show ?thesis using assms by (simp add: symlink_metadata_def)
qed

lemma any_symlink_skip:
  "\<forall>(i, current) \<in> set segs. i < start \<longrightarrow> symlink_metadata fs cwd current = Inr DirNode \<Longrightarrow>
   any_symlink fs cwd start segs = any_symlink fs cwd 0 segs"
  by (induction fs cwd start segs rule: any_symlink.induct) (auto split: sum.splits Node.splits)

lemma foldr_max_in: "foldr max ns (0 :: nat) = 0 \<or> foldr max ns 0 \<in> set ns"
  by (induction ns) (auto simp: max_def)

lemma contains_symlink_skip_lemma:
  assumes "\<forall>root \<in> set roots. \<exists>l. root = canonical_path l \<and> real_dir fs l"
  shows "contains_symlink fs cwd p roots = any_symlink fs cwd 0 (stattable_segments p)"
proof -
  define start where "start = foldr max (map length (filter (path_starts_with p) roots)) 0"
  have "symlink_metadata fs cwd (take (i + 1) p) = Inr DirNode"
    if i: "i < length p" "is_normal (p ! i)" "i < start" for i
  proof -
    from i(3) obtain root where r: "root \<in> set roots" "prefix root p" "length root = start"
      using foldr_max_in [of "map length (filter (path_starts_with p) roots)"]
      by (auto simp: start_def path_starts_with_def)
    with assms obtain l where l: "root = canonical_path l" "real_dir fs l" by blast
    obtain rest where p: "p = root @ rest" using r(2) by (auto simp: prefix_def)
    have "i \<noteq> 0" using i(2) by (cases i) (simp_all add: p l canonical_path_def is_normal_def)
    then obtain j where j: "i = Suc j" by (cases i) auto
    have "j < length l" using i(3) r(3) by (simp add: j l canonical_path_def)
    then have "take (i + 1) p = canonical_path (take j l @ [l ! j])"
      by (simp add: p j l canonical_path_def take_map take_Suc_conv_app_nth)
    moreover have "real_dir fs (take j l @ [l ! j])"
      by (rule real_dir_prefix [OF l(2)]) (metis \<open>j < length l\<close> take_Suc_conv_app_nth take_is_prefix)
    ultimately show ?thesis by (simp only: symlink_metadata_real)
  qed
  then have "\<forall>(i, current) \<in> set (stattable_segments p). i < start \<longrightarrow> symlink_metadata fs cwd current = Inr DirNode"
    by (auto simp: stattable_segments_def)
  from any_symlink_skip [OF this] show ?thesis
    by (simp add: contains_symlink_def start_def Let_def)
qed

text \<open>The fast check for links is the full one. When the granted roots are real directories,
  all of whose parents are real too, looking for a link only below the deepest root that covers the
  path gives the answer of looking at every segment from the top, errors included.\<close>

theorem contains_symlink_skip:
  assumes "\<forall>root \<in> set roots. \<exists>l. root = canonical_path l \<and> real_dir fs l"
  shows "contains_symlink fs cwd p roots = contains_symlink fs cwd p []"
  using contains_symlink_skip_lemma [OF assms] by (simp add: contains_symlink_def)

theorem contains_symlink_skip_witness:
  "contains_symlink sample_disk [] (path_of ''/ws/out/key'') [canonical_path [''ws'']] =
   contains_symlink sample_disk [] (path_of ''/ws/out/key'') []"
  by (rule contains_symlink_skip) (simp add: real_dir_def sample_disk_def exI [of _ "[''ws'']"])

section \<open>Reading\<close>

lemma any_symlink_False:
  "any_symlink fs cwd 0 segs = Inr False \<Longrightarrow> (i, current) \<in> set segs \<Longrightarrow>
   \<exists>node. symlink_metadata fs cwd current = Inr node \<and> (\<forall>t. node \<noteq> LinkNode t)"
  by (induction fs cwd "0 :: nat" segs rule: any_symlink.induct) (auto split: sum.splits Node.splits)

lemma stattable_canonical:
  "j < length l \<Longrightarrow> (Suc j, canonical_path (take j l @ [l ! j])) \<in> set (stattable_segments (canonical_path l))"
proof -
  assume j: "j < length l"
  then have "canonical_path l ! Suc j = Normal (l ! j)" "Suc j < length (canonical_path l)"
    "take (Suc j + 1) (canonical_path l) = canonical_path (take j l @ [l ! j])"
    by (simp_all add: canonical_path_def take_map take_Suc_conv_app_nth)
  then show ?thesis
    unfolding stattable_segments_def set_map set_filter by (intro image_eqI [where x = "Suc j"]) (auto simp: is_normal_def)
qed

lemma resolve_linkless:
  "resolve fs links m (map Normal ns) = Inr l \<Longrightarrow> real_dir fs m \<Longrightarrow>
   (\<And>j t. j < length ns \<Longrightarrow> real_dir fs (m @ take j ns) \<Longrightarrow> fs (m @ take j ns @ [ns ! j]) \<noteq> Some (LinkNode t)) \<Longrightarrow>
   l = m @ ns"
proof (induction ns arbitrary: m)
  case (Cons n ns)
  have "fs (m @ [n]) \<noteq> Some (LinkNode t)" for t using Cons.prems(3) [of 0 t] Cons.prems(2) by simp
  then consider "fs (m @ [n]) = Some DirNode" "resolve fs links (m @ [n]) (map Normal ns) = Inr l" | "l = m @ [n]" "ns = []"
    using Cons.prems(1) by (auto split: option.splits Node.splits if_splits)
  then show ?case
  proof cases
    case 1
    have "l = (m @ [n]) @ ns"
      by (rule Cons.IH [OF 1(2)]) (use 1(1) Cons.prems(2) Cons.prems(3) [of "Suc j" for j] in auto)
    then show ?thesis by simp
  qed simp
qed simp

text \<open>A path of plain names without a link on it resolves to itself.\<close>

lemma no_symlink_literal:
  assumes "any_symlink fs cwd 0 (stattable_segments (canonical_path l)) = Inr False"
    and "resolve fs links cwd (canonical_path l) = Inr l'"
  shows "l' = l"
proof -
  have "fs (take j l @ [l ! j]) \<noteq> Some (LinkNode t)" if j: "j < length l" and rd: "real_dir fs (take j l)" for j t
  proof -
    obtain node where n: "symlink_metadata fs cwd (canonical_path (take j l @ [l ! j])) = Inr node" "node \<noteq> LinkNode t"
      using any_symlink_False [OF assms(1) stattable_canonical [OF j]] by blast
    have "canonical_path (take j l @ [l ! j]) = canonical_path (take j l) @ [Normal (l ! j)]" by (simp add: canonical_path_def)
    with n resolve_real [OF rd, of MAX_LINKS cwd] show ?thesis
      by (auto simp: symlink_metadata_def split: option.splits)
  qed
  with resolve_linkless [of fs links "[]" l l'] assms(2) show ?thesis
    by (simp add: canonical_path_def real_dir_def)
qed

lemma path_of_segments: "set (path_of raw) \<subseteq> {RootDir, CurDir, ParentDir} \<union> range Normal"
  by (auto simp: path_of_def segment_component_def split: list.splits if_splits)

lemma path_of_absolute:
  assumes "is_absolute (path_of raw)" "ParentDir \<notin> set (path_of raw)"
  shows "\<exists>l. path_of raw = canonical_path l"
proof -
  from assms(1) obtain c cs where raw: "raw = c # cs" by (cases raw) (auto simp: is_absolute_def path_of_def)
  have slash: "c = CHR ''/''"
  proof (rule ccontr)
    assume "c \<noteq> CHR ''/''"
    then have "path_of raw = (if path_segments raw \<noteq> [] \<and> hd (path_segments raw) = ''.'' then [CurDir] else []) @
        map segment_component (filter (\<lambda>s. s \<noteq> [] \<and> s \<noteq> ''.'') (path_segments raw))"
      by (simp add: path_of_def raw)
    then have "RootDir \<notin> set (path_of raw)" by (auto simp: segment_component_def)
    with assms(1) show False by (auto simp: is_absolute_def split: list.splits Component.splits)
  qed
  let ?segs = "filter (\<lambda>s. s \<noteq> [] \<and> s \<noteq> ''.'') (path_segments raw)"
  have p: "path_of raw = RootDir # map segment_component ?segs" by (simp add: path_of_def raw slash)
  with assms(2) have "map segment_component ?segs = map Normal ?segs"
    by (auto simp: segment_component_def)
  with p show ?thesis by (metis canonical_path_def)
qed

lemma prepare_candidate_canonical:
  assumes "prepare_candidate policy raw = Inr p" "\<exists>l. ws_primary policy = canonical_path l"
  shows "\<exists>l. p = canonical_path l"
proof (cases "is_absolute (path_of raw)")
  case True
  with assms(1) show ?thesis
    using path_of_absolute by (auto simp: prepare_candidate_def Let_def split: if_splits)
next
  case False
  obtain m where m: "ws_primary policy = canonical_path m" using assms(2) by blast
  from False assms(1) have q: "ParentDir \<notin> set (path_of raw)" "RootDir \<notin> set (path_of raw)"
    "p = canonical_path m @ filter (\<lambda>c. c \<noteq> CurDir) (path_of raw)"
    by (auto simp: prepare_candidate_def Let_def path_join_def m canonical_path_def split: if_splits)
  have "\<exists>ns. filter (\<lambda>c. c \<noteq> CurDir) (path_of raw) = map Normal ns"
  proof -
    have "\<forall>c \<in> set (filter (\<lambda>c. c \<noteq> CurDir) (path_of raw)). c \<in> range Normal"
      using q(1,2) path_of_segments [of raw] by auto
    then show ?thesis unfolding ex_map_conv by blast
  qed
  then obtain ns where "filter (\<lambda>c. c \<noteq> CurDir) (path_of raw) = map Normal ns" by blast
  with q(3) show ?thesis by (intro exI [of _ "m @ ns"]) (simp add: canonical_path_def)
qed

lemma reads_inside:
  assumes "boundary_reach policy" and "\<forall>root \<in> set (granted_roots policy). \<forall>l. root = canonical_path l \<longrightarrow> real_dir fs1 l"
    and "open_existing fs1 fs2 cwd policy raw = Inr sp"
  shows "prepare_candidate policy raw = Inr (sp_path sp) \<and>
    sp_path sp = canonical_path (sp_parent sp @ [sp_leaf sp]) \<and>
    inside policy (sp_parent sp @ [sp_leaf sp]) \<and>
    (\<forall>fs3 content. safe_read fs3 sp = Inr content \<longrightarrow> fs3 (sp_parent sp @ [sp_leaf sp]) = Some (FileNode content))"
proof -
  from assms(3) obtain p where p: "resolve_existing fs1 cwd policy raw = Inr p" "open_existing_path fs1 fs2 cwd policy p = Inr sp"
    by (auto simp: open_existing_def split: sum.splits)
  from p(1) obtain candidate where c: "prepare_candidate policy raw = Inr candidate"
    "contains_symlink fs1 cwd candidate (granted_roots policy) = Inr False" "canonicalize fs1 cwd candidate = Inr p"
    by (auto simp: resolve_existing_def split: sum.splits bool.splits if_splits)
  have canon: "\<forall>root \<in> set (granted_roots policy). \<exists>l. root = canonical_path l" using granted_canonical [OF assms(1)] by blast
  then have "\<exists>l. ws_primary policy = canonical_path l" by (simp add: granted_roots_def)
  then obtain l where l: "candidate = canonical_path l" using prepare_candidate_canonical [OF c(1)] by blast
  have skip: "contains_symlink fs1 cwd candidate (granted_roots policy) = any_symlink fs1 cwd 0 (stattable_segments candidate)"
    using contains_symlink_skip_lemma [of "granted_roots policy" fs1 cwd candidate] canon assms(2) by blast
  obtain l' where l': "p = canonical_path l'" "resolve fs1 MAX_LINKS cwd candidate = Inr l'" using canonicalizeD [OF c(3)] by blast
  have "l' = l" using no_symlink_literal [of fs1 cwd l MAX_LINKS l'] skip c(2) l'(2) l by simp
  with l l' have pc: "p = candidate" by simp
  from p(2) obtain q root rel parent leaf where q: "canonicalize fs1 cwd p = Inr q" "root_relative policy q = Inr (root, rel)"
    "snd (open_parent False fs2 root rel) = Inr (parent, leaf)" "sp = \<lparr>sp_path = q, sp_parent = parent, sp_leaf = leaf\<rparr>"
    by (auto simp: open_existing_path_def split: sum.splits if_splits prod.splits)
  have qp: "q = p" using q(1) c(3) pc by simp
  note rr = root_relativeD [OF q(2)]
  obtain r where r: "root = canonical_path r" using rr canon by blast
  from q(3) obtain fs' where o: "open_parent False fs2 (canonical_path r) rel = (fs', Inr (parent, leaf))"
    unfolding r by (cases "open_parent False fs2 (canonical_path r) rel") auto
  then obtain root_dir where od: "open_canonical fs2 (canonical_path r) = Inr root_dir" "normal_names rel \<noteq> []"
    "walk_dirs False fs2 root_dir (butlast (normal_names rel)) = (fs', Inr parent)" "leaf = last (normal_names rel)"
    by (auto simp: open_parent_def open_parent_from_def Let_def split: sum.splits if_splits prod.splits)
  have loc: "parent @ [leaf] = r @ normal_names rel"
    using walk_dirs_location [OF od(3)] open_canonical_location [OF od(1)] od(2,4) by simp
  have "normal_names (canonical_path l) = r @ normal_names rel"
    using rr qp pc l r by (metis normal_names_append normal_names_canonical)
  with loc have "parent @ [leaf] = l" by simp
  moreover have "inside policy (parent @ [leaf])"
    using open_parent_inside [OF o] rr r by (auto simp: inside_def)
  ultimately show ?thesis
    using c(1) qp pc l q(4) by (auto simp: safe_read_def split: option.splits Node.splits)
qed

text \<open>C14 (safety). What a read opens. With the granted roots real directories at the time of the check, an
  existing path that passes it is the very path that was spelled, with no link followed; and the file
  that is then opened, whatever happened to the disk in the meantime, lies strictly under a granted
  root at that location, and what is read there is the content of a regular file.\<close>

theorem reads_stay_inside:
  assumes "boundary_reach policy" and "\<forall>root \<in> set (granted_roots policy). \<forall>l. root = canonical_path l \<longrightarrow> real_dir fs1 l"
    and "open_existing fs1 fs2 cwd policy raw = Inr sp"
  shows "prepare_candidate policy raw = Inr (sp_path sp) \<and>
    sp_path sp = canonical_path (sp_parent sp @ [sp_leaf sp]) \<and>
    inside policy (sp_parent sp @ [sp_leaf sp]) \<and>
    (\<forall>fs3 content. safe_read fs3 sp = Inr content \<longrightarrow> fs3 (sp_parent sp @ [sp_leaf sp]) = Some (FileNode content))"
  using reads_inside [OF assms] .

theorem reads_stay_inside_witness:
  "open_existing sample_disk sample_disk [] sample_policy ''./a.txt'' =
     Inr \<lparr>sp_path = canonical_path [''ws'', ''a.txt''], sp_parent = [''ws''], sp_leaf = ''a.txt''\<rparr> \<and>
   inside sample_policy [''ws'', ''a.txt''] \<and>
   open_existing sample_disk sample_disk [] sample_policy ''out/key'' = Inl SymlinkRefused"
proof -
  have e: "open_existing sample_disk sample_disk [] sample_policy ''./a.txt'' =
     Inr \<lparr>sp_path = canonical_path [''ws'', ''a.txt''], sp_parent = [''ws''], sp_leaf = ''a.txt''\<rparr>"
    "open_existing sample_disk sample_disk [] sample_policy ''out/key'' = Inl SymlinkRefused"
    by code_simp+
  have "\<forall>root \<in> set (granted_roots sample_policy). \<forall>l. root = canonical_path l \<longrightarrow> real_dir sample_disk l"
    by (auto simp: granted_roots_def sample_policy_def real_dir_def sample_disk_def)
  from reads_stay_inside [OF sample_policy_reach this e(1)] e show ?thesis by simp
qed

end
