(* ===== verification/Tool_Registry.thy ===== *)
theory Tool_Registry
  imports Exec_Policy Workspace_Policy "HOL-Library.List_Lexorder" "HOL-Library.Multiset"
begin

text \<open>
  Tool calls and the registry that runs them, \<^verbatim>\<open>tool.rs\<close> and \<^verbatim>\<open>tool/registry.rs\<close>: the path of one
  call from its arguments through the policy and the approval gate to its execution.

  A tool is its specification and what preparing a call yields: an error, or the execution of the
  prepared call, a function of the context and of the world the tools act on. The world is the type
  parameter \<open>'w\<close>, so what a theorem says of it holds for every tool. The texts of results are plain
  where they are ASCII; the sentences that hold other characters, or render a policy reason, are
  constructors of \<open>ResultText\<close>.
\<close>

section \<open>Calls and results\<close>

record ToolSpec =
  spec_name :: rstr
  spec_description :: rstr
  spec_parameters :: Value
  spec_requires_approval :: bool

record ToolCall =
  tc_id :: rstr
  tc_name :: rstr
  tc_arguments :: Value

definition shell_command :: "ToolCall \<Rightarrow> rstr option" where
  "shell_command call = shell_command_of (tc_name call) (tc_arguments call)"

datatype ToolResultStatus = Success | DeniedStatus | ErrorStatus

datatype DenialNote =
    SubagentRootGrant | SubagentNetwork | SubagentShell | SubagentNeedsHuman | SubagentUnattended
  | UnattendedDenial | UnattendedNeedsHuman | UnattendedRootGrant

text \<open>What an answer to a request for a write root says.\<close>

datatype RootGrantText =
    GrantMalformed
  | GrantPathRequired
  | GrantNoBoundary
  | GrantNoTarget
  | GrantUnresolved PathRefusal
  | GrantMoved rstr path path
  | GrantDone path bool
  | GrantAlready path
  | GrantDeclined rstr

datatype ResultText =
    Said rstr
  | Clipped rstr nat rstr
  | PolicyDenied Reason
  | CancelledResult
  | Note DenialNote
  | RootGrantSays RootGrantText

record ToolResult =
  tr_call_id :: rstr
  tr_tool_name :: rstr
  tr_status :: ToolResultStatus
  tr_content :: ResultText
  tr_details :: "Value option"

definition success_result :: "rstr \<Rightarrow> rstr \<Rightarrow> rstr \<Rightarrow> ToolResult" where
  "success_result i name content =
     \<lparr>tr_call_id = i, tr_tool_name = name, tr_status = Success, tr_content = Said content, tr_details = None\<rparr>"

definition denied_result :: "ToolCall \<Rightarrow> ToolResult" where
  "denied_result call =
     \<lparr>tr_call_id = tc_id call, tr_tool_name = tc_name call, tr_status = DeniedStatus,
      tr_content = Said ''Tool call denied by user.'', tr_details = None\<rparr>"

definition error_result :: "ToolCall \<Rightarrow> ResultText \<Rightarrow> ToolResult" where
  "error_result call content =
     \<lparr>tr_call_id = tc_id call, tr_tool_name = tc_name call, tr_status = ErrorStatus,
      tr_content = content, tr_details = None\<rparr>"

datatype ToolError =
    UnknownTool rstr
  | InvalidArguments rstr rstr
  | ExecutionFailed rstr rstr

definition error_to_string :: "ToolError \<Rightarrow> rstr" where
  "error_to_string e =
     (case e of
        UnknownTool name \<Rightarrow> ''unknown tool: '' @ name
      | InvalidArguments name m \<Rightarrow> ''invalid tool arguments for '' @ name @ '': '' @ m
      | ExecutionFailed name m \<Rightarrow> ''tool execution failed for '' @ name @ '': '' @ m)"

definition error_message :: "ToolError \<Rightarrow> rstr" where
  "error_message e =
     (case e of UnknownTool _ \<Rightarrow> ''unknown tool'' | InvalidArguments _ m \<Rightarrow> m | ExecutionFailed _ m \<Rightarrow> m)"

section \<open>Context and approvals\<close>

datatype RunAuthority = ByApproval | ByParse

record ToolCx =
  cx_cancelled :: bool
  cx_plan :: "ToolExecutionPlan option"
  cx_authority :: RunAuthority

definition new_cx :: ToolCx where
  "new_cx = \<lparr>cx_cancelled = False, cx_plan = None, cx_authority = ByApproval\<rparr>"

definition with_cancel :: "bool \<Rightarrow> ToolCx \<Rightarrow> ToolCx" where
  "with_cancel c cx = cx\<lparr>cx_cancelled := c\<rparr>"

definition with_plan :: "ToolExecutionPlan \<Rightarrow> ToolCx \<Rightarrow> ToolCx" where
  "with_plan plan cx = cx\<lparr>cx_plan := Some plan\<rparr>"

definition with_authority :: "RunAuthority \<Rightarrow> ToolCx \<Rightarrow> ToolCx" where
  "with_authority a cx = cx\<lparr>cx_authority := a\<rparr>"

datatype SandboxPolicy = Unsandboxed | WorkspaceWrite bool

definition from_execution_plan :: "ToolExecutionPlan option \<Rightarrow> SandboxPolicy" where
  "from_execution_plan plan =
     (case plan of
        None \<Rightarrow> Unsandboxed
      | Some p \<Rightarrow> if requires_sandbox p then WorkspaceWrite (network p) else Unsandboxed)"

definition sandbox_policy :: "ToolCx \<Rightarrow> SandboxPolicy" where
  "sandbox_policy cx = from_execution_plan (cx_plan cx)"

type_synonym ApprovalId = nat

datatype ApprovalDecision = Approved | ApprovedForSession | Denied

record ApprovalRequest =
  rq_approval_id :: ApprovalId
  rq_authority :: ApprovalAuthority
  rq_call_id :: rstr
  rq_tool_name :: rstr
  rq_description :: Reason
  rq_arguments :: Value
  rq_risk_level :: RiskLevel
  rq_requires_sandbox :: bool
  rq_network :: bool
  rq_justification :: "rstr option"
  rq_resolved_target :: "rstr option"
  rq_read_only :: bool
  rq_matched_rule :: "RuleId option"
  rq_preview :: "rstr option"
  rq_safety_notes :: "SafetyNote list"

datatype ToolRunOutcome = ApprovalRequired ApprovalRequest | Result ToolResult

definition shell_safety_notes :: "bool \<Rightarrow> ToolCall \<Rightarrow> SafetyNote list" where
  "shell_safety_notes win call =
     (case shell_command call of None \<Rightarrow> [] | Some command \<Rightarrow> safety_notes win command)"

section \<open>The registry\<close>

type_synonym 'w prepared = "ToolCx \<Rightarrow> 'w \<Rightarrow> 'w \<times> (ToolError + ToolResult)"

record 'w RegisteredTool =
  reg_spec :: ToolSpec
  reg_prepare :: "ToolCall \<Rightarrow> ToolError + 'w prepared"

record 'w ToolRegistry =
  reg_tools :: "(rstr \<times> 'w RegisteredTool) list"
  reg_policy :: ExecPolicy

text \<open>Every tool of the program is registered through its typed form: its arguments are read into its
  parameters when the call is prepared, and its output becomes the result of that call.\<close>

record ToolOutput =
  out_status :: ToolResultStatus
  out_content :: rstr
  out_details :: "Value option"

definition text_output :: "rstr \<Rightarrow> ToolOutput" where
  "text_output c = \<lparr>out_status = Success, out_content = c, out_details = None\<rparr>"

definition soft_error :: "rstr \<Rightarrow> ToolOutput" where
  "soft_error c = \<lparr>out_status = ErrorStatus, out_content = c, out_details = None\<rparr>"

definition with_details :: "Value \<Rightarrow> ToolOutput \<Rightarrow> ToolOutput" where
  "with_details d output = output\<lparr>out_details := Some d\<rparr>"

definition into_result :: "ToolOutput \<Rightarrow> rstr \<Rightarrow> rstr \<Rightarrow> ToolResult" where
  "into_result output call_id tool_name =
     \<lparr>tr_call_id = call_id, tr_tool_name = tool_name, tr_status = out_status output,
      tr_content = Said (out_content output), tr_details = out_details output\<rparr>"

definition typed_tool ::
  "ToolSpec \<Rightarrow> (Value \<Rightarrow> rstr + 'p) \<Rightarrow> ('p \<Rightarrow> ToolCx \<Rightarrow> 'w \<Rightarrow> 'w \<times> (ToolError + ToolOutput)) \<Rightarrow> 'w RegisteredTool" where
  "typed_tool spec from_value run =
     \<lparr>reg_spec = spec,
      reg_prepare = (\<lambda>call.
        case from_value (tc_arguments call) of
          Inl m \<Rightarrow> Inl (InvalidArguments (tc_name call) m)
        | Inr params \<Rightarrow>
            Inr (\<lambda>cx w. case run params cx w of
                   (w', Inl e) \<Rightarrow> (w', Inl e)
                 | (w', Inr output) \<Rightarrow> (w', Inr (into_result output (tc_id call) (tc_name call)))))\<rparr>"

definition new_registry :: "bool \<Rightarrow> 'w ToolRegistry" where
  "new_registry win = \<lparr>reg_tools = [], reg_policy = default_policy win\<rparr>"

definition set_policy :: "ExecPolicy \<Rightarrow> 'w ToolRegistry \<Rightarrow> 'w ToolRegistry" where
  "set_policy policy reg = reg\<lparr>reg_policy := policy\<rparr>"

text \<open>Registering a name twice panics; \<^const>\<open>None\<close> is the panic.\<close>

definition register_erased :: "'w RegisteredTool \<Rightarrow> 'w ToolRegistry \<Rightarrow> 'w ToolRegistry option" where
  "register_erased tool reg =
     (let name = spec_name (reg_spec tool) in
      if map_of (reg_tools reg) name \<noteq> None then None
      else Some (reg\<lparr>reg_tools := (name, tool) # reg_tools reg\<rparr>))"

definition extend_registry :: "'w ToolRegistry \<Rightarrow> 'w ToolRegistry \<Rightarrow> 'w ToolRegistry option" where
  "extend_registry reg other =
     (if list_ex (\<lambda>(name, _). map_of (reg_tools reg) name \<noteq> None) (reg_tools other) then None
      else Some (reg\<lparr>reg_tools := reg_tools other @ reg_tools reg\<rparr>))"

definition filtered_from :: "'w ToolRegistry \<Rightarrow> (rstr \<Rightarrow> bool) \<Rightarrow> 'w ToolRegistry" where
  "filtered_from source keep =
     \<lparr>reg_tools = filter (\<lambda>(name, _). keep name) (reg_tools source), reg_policy = reg_policy source\<rparr>"

definition specs :: "'w ToolRegistry \<Rightarrow> ToolSpec list" where
  "specs reg = sort_key spec_name (map (\<lambda>(_, tool). reg_spec tool) (reg_tools reg))"

definition registry_evaluate_tool :: "bool \<Rightarrow> 'w ToolRegistry \<Rightarrow> ToolCall \<Rightarrow> ToolExecutionPlan" where
  "registry_evaluate_tool win reg call =
     (let plan = evaluate_tool win (reg_policy reg) (tc_name call) (tc_arguments call) in
      case (verdict plan, map_of (reg_tools reg) (tc_name call)) of
        (Allow, Some entry) \<Rightarrow>
          if spec_requires_approval (reg_spec entry)
          then plan\<lparr>verdict := NeedsApproval (SpecDescription (spec_description (reg_spec entry))) AutomaticAllowed\<rparr>
          else plan
      | _ \<Rightarrow> plan)"

text \<open>With the sandbox off the plan does not claim one; a tool that asks for approval by its
  specification asks even on a plan that allows.\<close>

definition effective_plan :: "ExecPolicy \<Rightarrow> ToolSpec \<Rightarrow> ToolExecutionPlan \<Rightarrow> ToolExecutionPlan" where
  "effective_plan policy spec plan =
     (let plan' = (if sandbox_off policy then plan\<lparr>requires_sandbox := False\<rparr> else plan) in
      if spec_requires_approval spec \<and> verdict plan' = Allow
      then plan'\<lparr>verdict := NeedsApproval (SpecDescription (spec_description spec)) AutomaticAllowed\<rparr>
      else plan')"

definition approval_request ::
  "bool \<Rightarrow> ApprovalId \<Rightarrow> ToolSpec \<Rightarrow> ToolCall \<Rightarrow> ToolExecutionPlan \<Rightarrow> Reason \<Rightarrow> ApprovalAuthority \<Rightarrow> ApprovalRequest"
  where
  "approval_request win fresh spec call plan description authority =
     \<lparr>rq_approval_id = fresh, rq_authority = authority, rq_call_id = tc_id call,
      rq_tool_name = spec_name spec, rq_description = description, rq_arguments = tc_arguments call,
      rq_risk_level = risk_level plan, rq_requires_sandbox = requires_sandbox plan,
      rq_network = network_requested (tc_arguments call),
      rq_justification = justification_claimed (tc_arguments call), rq_resolved_target = None,
      rq_read_only = read_only plan, rq_matched_rule = matched_rule plan, rq_preview = None,
      rq_safety_notes = shell_safety_notes win call\<rparr>"

definition run_tool_call_with_plan ::
  "bool \<Rightarrow> 'w ToolRegistry \<Rightarrow> ApprovalId \<Rightarrow> ToolCall \<Rightarrow> ApprovalDecision option \<Rightarrow> ToolExecutionPlan \<Rightarrow> ToolCx
    \<Rightarrow> 'w \<Rightarrow> 'w \<times> (ToolError + ToolRunOutcome)" where
  "run_tool_call_with_plan win reg fresh call decision plan cx w =
     (case map_of (reg_tools reg) (tc_name call) of
        None \<Rightarrow> (w, Inl (UnknownTool (tc_name call)))
      | Some entry \<Rightarrow>
          (case reg_prepare entry call of
             Inl e \<Rightarrow> (w, Inl e)
           | Inr execute \<Rightarrow>
               (case denied_reason plan of
                  Some reason \<Rightarrow> (w, Inr (Result (error_result call (PolicyDenied reason))))
                | None \<Rightarrow>
                    (let plan' = effective_plan (reg_policy reg) (reg_spec entry) plan;
                         run = (\<lambda>cx. case execute (with_plan plan' cx) w of
                                  (w', Inl e) \<Rightarrow> (w', Inl e)
                                | (w', Inr result) \<Rightarrow> (w', Inr (Result result)))
                     in case verdict plan' of
                          NeedsApproval reason authority \<Rightarrow>
                            (case decision of
                               None \<Rightarrow>
                                 (w, Inr (ApprovalRequired
                                   (approval_request win fresh (reg_spec entry) call plan' reason authority)))
                             | Some Denied \<Rightarrow> (w, Inr (Result (denied_result call)))
                             | Some Approved \<Rightarrow> run cx
                             | Some ApprovedForSession \<Rightarrow> run cx)
                        | _ \<Rightarrow> run (with_authority ByParse cx)))))"

definition run_tool_call ::
  "bool \<Rightarrow> 'w ToolRegistry \<Rightarrow> ApprovalId \<Rightarrow> ToolCall \<Rightarrow> ApprovalDecision option \<Rightarrow> 'w
    \<Rightarrow> 'w \<times> (ToolError + ToolRunOutcome)" where
  "run_tool_call win reg fresh call decision w =
     run_tool_call_with_plan win reg fresh call decision (registry_evaluate_tool win reg call) new_cx w"

section \<open>Names are unique\<close>

definition registry_ok :: "'w ToolRegistry \<Rightarrow> bool" where
  "registry_ok reg \<longleftrightarrow>
     distinct (map fst (reg_tools reg)) \<and> list_all (\<lambda>(name, tool). spec_name (reg_spec tool) = name) (reg_tools reg)"

lemma map_of_None_fst: "map_of xs k = None \<longleftrightarrow> k \<notin> set (map fst xs)"
  by (simp add: map_of_eq_None_iff)

lemma register_erased_Some:
  "register_erased tool reg = Some reg' \<longleftrightarrow>
   spec_name (reg_spec tool) \<notin> set (map fst (reg_tools reg)) \<and>
   reg' = reg\<lparr>reg_tools := (spec_name (reg_spec tool), tool) # reg_tools reg\<rparr>"
  by (auto simp: register_erased_def Let_def map_of_None_fst)

lemma extend_registry_Some:
  "extend_registry reg other = Some reg' \<longleftrightarrow>
   set (map fst (reg_tools other)) \<inter> set (map fst (reg_tools reg)) = {} \<and>
   reg' = reg\<lparr>reg_tools := reg_tools other @ reg_tools reg\<rparr>"
  by (auto simp: extend_registry_def list_ex_iff map_of_eq_None_iff split: if_splits) force+

lemma registry_ok_keeps:
  "registry_ok (new_registry win)"
  "registry_ok reg \<Longrightarrow> register_erased tool reg = Some reg' \<Longrightarrow> registry_ok reg'"
  "registry_ok reg \<Longrightarrow> registry_ok other \<Longrightarrow> extend_registry reg other = Some reg' \<Longrightarrow> registry_ok reg'"
  "registry_ok reg \<Longrightarrow> registry_ok (filtered_from reg keep)"
  by (auto simp: registry_ok_def new_registry_def register_erased_Some extend_registry_Some filtered_from_def
      list_all_iff distinct_map_filter)

lemma specs_names:
  assumes "registry_ok reg"
  shows "sorted_wrt (<) (map spec_name (specs reg)) \<and>
    set (specs reg) = (\<lambda>(_, tool). reg_spec tool) ` set (reg_tools reg)"
proof -
  have "map spec_name (map (\<lambda>(_, tool). reg_spec tool) (reg_tools reg)) = map fst (reg_tools reg)"
    using assms by (auto simp: registry_ok_def list_all_iff)
  then have "distinct (map spec_name (map (\<lambda>(_, tool). reg_spec tool) (reg_tools reg)))"
    using assms by (simp only: registry_ok_def)
  moreover have "mset (map spec_name (specs reg)) = mset (map spec_name (map (\<lambda>(_, tool). reg_spec tool) (reg_tools reg)))"
    by (simp only: specs_def mset_map mset_sort)
  ultimately have "distinct (map spec_name (specs reg))"
    using mset_eq_imp_distinct_iff by blast
  then show ?thesis by (auto simp: strict_sorted_iff specs_def)
qed

text \<open>The registries the program can build.\<close>

inductive registry_built :: "'w ToolRegistry \<Rightarrow> bool" where
  fresh: "registry_built (new_registry win)"
| repolicied: "registry_built reg \<Longrightarrow> registry_built (set_policy policy reg)"
| registered: "registry_built reg \<Longrightarrow> register_erased tool reg = Some reg' \<Longrightarrow> registry_built reg'"
| extended: "registry_built reg \<Longrightarrow> registry_built other \<Longrightarrow> extend_registry reg other = Some reg' \<Longrightarrow> registry_built reg'"
| filtered: "registry_built reg \<Longrightarrow> registry_built (filtered_from reg keep)"

lemma registry_built_ok: "registry_built reg \<Longrightarrow> registry_ok reg"
proof (induction rule: registry_built.induct)
  case (repolicied reg policy)
  then show ?case by (simp add: registry_ok_def set_policy_def)
qed (auto intro: registry_ok_keeps)

text \<open>C40 (type). Names are unique. In every registry the program can build, a tool is found under the name of
  its specification and under no other, and the specifications handed to the model are all of them,
  in strictly increasing order of their names, so the request is the same whatever order the tools
  were registered in.\<close>

theorem registry_wellformed:
  assumes "registry_built reg"
  shows "(\<forall>name tool. map_of (reg_tools reg) name = Some tool \<longleftrightarrow> (name, tool) \<in> set (reg_tools reg)) \<and>
    (\<forall>name tool. map_of (reg_tools reg) name = Some tool \<longrightarrow> spec_name (reg_spec tool) = name) \<and>
    sorted_wrt (<) (map spec_name (specs reg)) \<and>
    set (specs reg) = {reg_spec tool |tool name. map_of (reg_tools reg) name = Some tool}"
proof -
  from assms have ok: "registry_ok reg" by (rule registry_built_ok)
  then have found: "map_of (reg_tools reg) name = Some tool \<longleftrightarrow> (name, tool) \<in> set (reg_tools reg)" for name tool
    by (simp add: registry_ok_def)
  with ok have "map_of (reg_tools reg) name = Some tool \<Longrightarrow> spec_name (reg_spec tool) = name" for name tool
    by (auto simp: registry_ok_def list_all_iff)
  with found specs_names [OF ok] show ?thesis by force
qed

theorem registry_wellformed_witness:
  "let tool = (\<lambda>name. \<lparr>reg_spec = \<lparr>spec_name = name, spec_description = [], spec_parameters = Null,
         spec_requires_approval = False\<rparr>, reg_prepare = (\<lambda>call. Inl (UnknownTool name))\<rparr>);
       reg = \<lparr>reg_tools = [(''a'', tool ''a''), (''b'', tool ''b'')], reg_policy = default_policy False\<rparr> :: unit ToolRegistry
   in registry_built reg \<and> map spec_name (specs reg) = [''a'', ''b''] \<and> sorted_wrt (<) (map spec_name (specs reg))"
proof -
  define tool where "tool = (\<lambda>name. \<lparr>reg_spec = \<lparr>spec_name = name, spec_description = [], spec_parameters = Null,
    spec_requires_approval = False\<rparr>, reg_prepare = (\<lambda>call. Inl (UnknownTool name) :: ToolError + unit prepared)\<rparr>)"
  define reg where "reg = \<lparr>reg_tools = [(''a'', tool ''a''), (''b'', tool ''b'')], reg_policy = default_policy False\<rparr>"
  have b: "registry_built reg"
  proof (rule registry_built.registered)
    show "registry_built \<lparr>reg_tools = [(''b'', tool ''b'')], reg_policy = default_policy False\<rparr>"
      by (rule registry_built.registered [OF registry_built.fresh [of False], of "tool ''b''"])
        (simp add: register_erased_def new_registry_def tool_def Let_def)
    show "register_erased (tool ''a'') \<lparr>reg_tools = [(''b'', tool ''b'')], reg_policy = default_policy False\<rparr> = Some reg"
      by (simp add: register_erased_def reg_def tool_def Let_def)
  qed
  have "map spec_name (specs reg) = [''a'', ''b'']"
    by (simp add: specs_def reg_def tool_def less_eq_list_code)
  with b registry_wellformed [OF b] show ?thesis
    unfolding Let_def tool_def [symmetric] reg_def [symmetric] by simp
qed

section \<open>A result answers its call\<close>

definition answers_own_calls :: "'w ToolRegistry \<Rightarrow> bool" where
  "answers_own_calls reg \<longleftrightarrow>
     (\<forall>(name, tool) \<in> set (reg_tools reg). \<forall>call execute cx w w' result.
        reg_prepare tool call = Inr execute \<longrightarrow> execute cx w = (w', Inr result) \<longrightarrow> tr_call_id result = tc_id call)"

lemma typed_tool_answers:
  "reg_prepare (typed_tool spec from_value run) call = Inr execute \<Longrightarrow> execute cx w = (w', Inr result) \<Longrightarrow>
   tr_call_id result = tc_id call"
  by (auto simp: typed_tool_def into_result_def split: sum.splits prod.splits)

lemma answers_own_calls_keeps:
  "answers_own_calls (new_registry win)"
  "answers_own_calls reg \<Longrightarrow> register_erased (typed_tool spec from_value run) reg = Some reg' \<Longrightarrow> answers_own_calls reg'"
  "answers_own_calls reg \<Longrightarrow> answers_own_calls other \<Longrightarrow> extend_registry reg other = Some reg' \<Longrightarrow> answers_own_calls reg'"
  "answers_own_calls reg \<Longrightarrow> answers_own_calls (filtered_from reg keep)"
  by (fastforce simp: answers_own_calls_def new_registry_def register_erased_Some extend_registry_Some filtered_from_def
      dest: typed_tool_answers)+

section \<open>How a call runs\<close>

text \<open>The two ends of a call: it is turned back with the world untouched, or its prepared execution runs
  under a context that carries the effective plan.\<close>

definition executed ::
  "'w prepared \<Rightarrow> ToolCx \<Rightarrow> 'w \<Rightarrow> 'w \<times> (ToolError + ToolRunOutcome)" where
  "executed execute cx w =
     (case execute cx w of (w', Inl e) \<Rightarrow> (w', Inl e) | (w', Inr result) \<Rightarrow> (w', Inr (Result result)))"

lemma executed_under:
  "\<exists>cx'. executed execute (with_plan p cx) w = executed execute cx' w \<and> cx_authority cx' = cx_authority cx"
  by (rule exI [of _ "with_plan p cx"]) (simp add: with_plan_def)

definition approves :: "ApprovalDecision option \<Rightarrow> bool" where
  "approves decision \<longleftrightarrow> decision = Some Approved \<or> decision = Some ApprovedForSession"

lemma effective_plan_facts:
  "denied_reason plan = None \<Longrightarrow> denied_reason (effective_plan policy spec plan) = None"
  "network (effective_plan policy spec plan) = network plan"
  "requires_sandbox (effective_plan policy spec plan) \<longleftrightarrow> requires_sandbox plan \<and> \<not> sandbox_off policy"
  "verdict (effective_plan policy spec plan) = Allow \<longleftrightarrow> verdict plan = Allow \<and> \<not> spec_requires_approval spec"
  "requires_approval plan \<Longrightarrow> verdict (effective_plan policy spec plan) = verdict plan"
  by (auto simp: effective_plan_def Let_def plan_queries split: PolicyVerdict.splits)

lemma run_tool_call_with_plan_cases:
  fixes reg :: "'w ToolRegistry"
  obtains
    (unknown) "map_of (reg_tools reg) (tc_name call) = None"
      "run_tool_call_with_plan win reg fresh call decision plan cx w = (w, Inl (UnknownTool (tc_name call)))"
  | (unprepared) entry e where "map_of (reg_tools reg) (tc_name call) = Some entry" "reg_prepare entry call = Inl e"
      "run_tool_call_with_plan win reg fresh call decision plan cx w = (w, Inl e)"
  | (refused) entry execute reason where "map_of (reg_tools reg) (tc_name call) = Some entry"
      "reg_prepare entry call = Inr execute" "denied_reason plan = Some reason"
      "run_tool_call_with_plan win reg fresh call decision plan cx w =
         (w, Inr (Result (error_result call (PolicyDenied reason))))"
  | (asks) entry execute reason authority where "map_of (reg_tools reg) (tc_name call) = Some entry"
      "reg_prepare entry call = Inr execute" "denied_reason plan = None" "decision = None"
      "verdict (effective_plan (reg_policy reg) (reg_spec entry) plan) = NeedsApproval reason authority"
      "run_tool_call_with_plan win reg fresh call decision plan cx w =
         (w, Inr (ApprovalRequired (approval_request win fresh (reg_spec entry) call
           (effective_plan (reg_policy reg) (reg_spec entry) plan) reason authority)))"
  | (declined) entry execute reason authority where "map_of (reg_tools reg) (tc_name call) = Some entry"
      "reg_prepare entry call = Inr execute" "denied_reason plan = None" "decision = Some Denied"
      "verdict (effective_plan (reg_policy reg) (reg_spec entry) plan) = NeedsApproval reason authority"
      "run_tool_call_with_plan win reg fresh call decision plan cx w = (w, Inr (Result (denied_result call)))"
  | (approved) entry execute reason authority where "map_of (reg_tools reg) (tc_name call) = Some entry"
      "reg_prepare entry call = Inr execute" "denied_reason plan = None" "approves decision"
      "verdict (effective_plan (reg_policy reg) (reg_spec entry) plan) = NeedsApproval reason authority"
      "run_tool_call_with_plan win reg fresh call decision plan cx w =
         executed execute (with_plan (effective_plan (reg_policy reg) (reg_spec entry) plan) cx) w"
  | (allowed) entry execute where "map_of (reg_tools reg) (tc_name call) = Some entry"
      "reg_prepare entry call = Inr execute" "denied_reason plan = None"
      "verdict plan = Allow" "\<not> spec_requires_approval (reg_spec entry)"
      "run_tool_call_with_plan win reg fresh call decision plan cx w =
         executed execute (with_plan (effective_plan (reg_policy reg) (reg_spec entry) plan)
           (with_authority ByParse cx)) w"
proof (cases "map_of (reg_tools reg) (tc_name call)")
  case None
  then show thesis by (intro unknown) (simp_all add: run_tool_call_with_plan_def)
next
  case e: (Some entry)
  let ?plan = "effective_plan (reg_policy reg) (reg_spec entry) plan"
  show thesis
  proof (cases "reg_prepare entry call")
    case (Inl err)
    with e show thesis by (intro unprepared) (simp_all add: run_tool_call_with_plan_def)
  next
    case x: (Inr execute)
    show thesis
    proof (cases "denied_reason plan")
      case (Some reason)
      with e x show thesis by (intro refused) (simp_all add: run_tool_call_with_plan_def)
    next
      case d: None
      note run = run_tool_call_with_plan_def e x d Let_def executed_def [symmetric]
      show thesis
      proof (cases "verdict ?plan")
        case Allow
        then have "verdict plan = Allow \<and> \<not> spec_requires_approval (reg_spec entry)"
          using effective_plan_facts(4) [of "reg_policy reg" "reg_spec entry" plan] by simp
        with Allow e x d show thesis by (intro allowed [of entry execute]) (simp_all add: run)
      next
        case (Deny reason)
        with effective_plan_facts(1) [OF d, of "reg_policy reg" "reg_spec entry"] show thesis
          by (simp add: denied_reason_def)
      next
        case v: (NeedsApproval reason authority)
        consider "decision = None" | "decision = Some Denied" | "approves decision"
          unfolding approves_def by (cases decision; metis ApprovalDecision.exhaust)
        then show thesis
        proof cases
          case 1
          with e x d v show thesis by (intro asks [of entry execute reason authority]) (simp_all add: run)
        next
          case 2
          with e x d v show thesis by (intro declined [of entry execute reason authority]) (simp_all add: run)
        next
          case 3
          with e x d v show thesis
            by (intro approved [of entry execute reason authority]) (auto simp: run approves_def)
        qed
      qed
    qed
  qed
qed

text \<open>C9 (error). What keeps a call from running, and what it reports then. A tool the registry does not
  know, arguments it cannot read, a policy refusal, a missing approval and a denial each leave the
  world as it was, whatever the tools do; a refusal cannot be overridden by a decision, and the
  missing approval is asked for exactly when the plan or the tool's own specification wants it.\<close>

theorem stopped_call_has_no_effect:
  fixes reg :: "'w ToolRegistry"
  shows "case run_tool_call_with_plan win reg fresh call decision plan cx w of (w', out) \<Rightarrow>
    (case map_of (reg_tools reg) (tc_name call) of
       None \<Rightarrow> w' = w \<and> out = Inl (UnknownTool (tc_name call))
     | Some entry \<Rightarrow>
         (case reg_prepare entry call of
            Inl e \<Rightarrow> w' = w \<and> out = Inl e
          | Inr execute \<Rightarrow>
              (case denied_reason plan of
                 Some reason \<Rightarrow> w' = w \<and> out = Inr (Result (error_result call (PolicyDenied reason)))
               | None \<Rightarrow>
                   (if requires_approval plan \<or> spec_requires_approval (reg_spec entry)
                    then (if decision = None then w' = w \<and> (\<exists>request. out = Inr (ApprovalRequired request) \<and>
                            rq_call_id request = tc_id call \<and> rq_arguments request = tc_arguments call \<and>
                            rq_network request = network_requested (tc_arguments call) \<and>
                            rq_authority request =
                              (case approval_authority plan of None \<Rightarrow> AutomaticAllowed | Some a \<Rightarrow> a) \<and>
                            rq_requires_sandbox request = (requires_sandbox plan \<and> \<not> sandbox_off (reg_policy reg)))
                          else if decision = Some Denied then w' = w \<and> out = Inr (Result (denied_result call))
                          else \<exists>cx'. (w', out) = executed execute cx' w \<and> cx_authority cx' = cx_authority cx)
                    else \<exists>cx'. (w', out) = executed execute cx' w \<and> cx_authority cx' = ByParse))))"
proof -
  have n: "requires_approval plan \<or> verdict plan = Allow" if "denied_reason plan = None"
    using that by (auto simp: plan_queries split: PolicyVerdict.splits)
  show ?thesis
  proof (cases rule: run_tool_call_with_plan_cases [of reg call win fresh decision plan cx w])
    case (asks entry execute reason authority)
    then have a: "authority = (case approval_authority plan of None \<Rightarrow> AutomaticAllowed | Some a \<Rightarrow> a)"
        "requires_approval plan \<or> spec_requires_approval (reg_spec entry)"
      by (auto simp: effective_plan_def Let_def plan_queries split: if_splits PolicyVerdict.splits)
    from asks a show ?thesis
      by (simp add: approval_request_def effective_plan_facts)
  next
    case (declined entry execute reason authority)
    then have "requires_approval plan \<or> spec_requires_approval (reg_spec entry)"
      by (auto simp: effective_plan_def Let_def plan_queries split: if_splits PolicyVerdict.splits)
    with declined show ?thesis by simp
  next
    case (approved entry execute reason authority)
    then have "requires_approval plan \<or> spec_requires_approval (reg_spec entry)"
      by (auto simp: effective_plan_def Let_def plan_queries split: if_splits PolicyVerdict.splits)
    with approved show ?thesis
      using executed_under [of execute "effective_plan (reg_policy reg) (reg_spec entry) plan" cx w]
      by (auto simp: approves_def split: prod.splits)
  next
    case (allowed entry execute)
    then have "\<not> requires_approval plan" by (simp add: plan_queries)
    with allowed show ?thesis
      using executed_under [of execute "effective_plan (reg_policy reg) (reg_spec entry) plan" "with_authority ByParse cx" w]
      by (auto simp: with_authority_def split: prod.splits)
  qed auto
qed

lemma registry_evaluate_tool_cases:
  "registry_evaluate_tool win reg call = evaluate_tool win (reg_policy reg) (tc_name call) (tc_arguments call) \<or>
   verdict (evaluate_tool win (reg_policy reg) (tc_name call) (tc_arguments call)) = Allow \<and>
   requires_approval (registry_evaluate_tool win reg call) \<and>
   \<not> requires_human (registry_evaluate_tool win reg call)"
  by (auto simp: registry_evaluate_tool_def Let_def plan_queries split: PolicyVerdict.splits option.splits)

text \<open>A command nobody approved. When a call that carries a command is run without a decision,
  either the world stays as it was, or the policy's own parse let it through: the command is not
  refused, holds no unauthorized irreversible command, every segment of it is covered by a trust
  rule, and it is executed with the authority of the parse, so as words and not through a shell, in
  the sandbox unless the configuration turned it off, with network only where the configuration
  gives it to every command.\<close>

theorem unasked_command_runs_as_parsed:
  fixes reg :: "'w ToolRegistry"
  assumes "command_bearing (tc_name call) (tc_arguments call)"
  shows "case run_tool_call win reg fresh call None w of (w', out) \<Rightarrow>
    w' = w \<or>
    (\<exists>entry execute cx'.
       map_of (reg_tools reg) (tc_name call) = Some entry \<and> reg_prepare entry call = Inr execute \<and>
       (w', out) = executed execute cx' w \<and>
       cx_authority cx' = ByParse \<and>
       command_trusted win (reg_policy reg) (carried_command (tc_name call) (tc_arguments call)) \<and>
       builtin_deny win (carried_command (tc_name call) (tc_arguments call)) = None \<and>
       irreversible_outward win (reg_policy reg) (carried_command (tc_name call) (tc_arguments call)) = None \<and>
       sandbox_policy cx' =
         (if sandbox_off (reg_policy reg) then Unsandboxed
          else WorkspaceWrite (network_mode (reg_policy reg) = NetAlways)))"
proof -
  define command where "command = carried_command (tc_name call) (tc_arguments call)"
  define plan where "plan = evaluate_shell_command win (reg_policy reg) command (network_requested (tc_arguments call))"
  have plan: "evaluate_tool win (reg_policy reg) (tc_name call) (tc_arguments call) = plan"
    using assms by (simp add: evaluate_tool_command_bearing plan_def command_def)
  show ?thesis
  proof (cases rule: run_tool_call_with_plan_cases
      [of reg call win fresh None "registry_evaluate_tool win reg call" new_cx w])
    case (approved entry execute reason authority)
    then show ?thesis by (simp add: approves_def)
  next
    case (allowed entry execute)
    then have same: "registry_evaluate_tool win reg call = plan" and v: "verdict plan = Allow"
      using registry_evaluate_tool_cases [of win reg call] by (auto simp: plan plan_queries)
    show ?thesis
    proof (cases rule: shell_plan_cases [of win "reg_policy reg" command "network_requested (tc_arguments call)"])
      case trusted
      define cx' where "cx' = with_plan (effective_plan (reg_policy reg) (reg_spec entry) plan) (with_authority ByParse new_cx)"
      have "granted_network (reg_policy reg) (network_requested (tc_arguments call)) = (network_mode (reg_policy reg) = NetAlways)"
        using trusted(1,4) by (auto simp: granted_network_def shell_refused_def split: NetworkMode.splits)
      then have "sandbox_policy cx' = (if sandbox_off (reg_policy reg) then Unsandboxed
          else WorkspaceWrite (network_mode (reg_policy reg) = NetAlways))"
        using trusted by (simp add: cx'_def sandbox_policy_def from_execution_plan_def with_plan_def
            effective_plan_facts plan_def)
      moreover have "cx_authority cx' = ByParse" by (simp add: cx'_def with_plan_def with_authority_def)
      moreover have "run_tool_call win reg fresh call None w = executed execute cx' w"
        using allowed by (simp add: run_tool_call_def same cx'_def)
      ultimately show ?thesis
        using allowed(1,2) trusted(1-3)
        by (cases "executed execute cx' w") (auto simp: command_def [symmetric] shell_refused_def)
    qed (use v in \<open>simp_all add: plan_def\<close>)
  qed (simp_all add: run_tool_call_def)
qed

text \<open>A shell whose world is the list of the contexts it was run under.\<close>

theorem unasked_command_runs_as_parsed_witness:
  "let spec = \<lparr>spec_name = ''shell'', spec_description = [], spec_parameters = Null, spec_requires_approval = False\<rparr>;
       tool = \<lparr>reg_spec = spec, reg_prepare = (\<lambda>call. Inr (\<lambda>cx w. (cx # w, Inr (success_result (tc_id call) ''shell'' []))))\<rparr>;
       reg = \<lparr>reg_tools = [(''shell'', tool)], reg_policy = default_policy False\<rparr>;
       call = \<lparr>tc_id = ''c1'', tc_name = ''shell'', tc_arguments = Object [(''command'', String ''git status'')]\<rparr>
   in \<exists>cx'. run_tool_call False reg 0 call None [] = ([cx'], Inr (Result (success_result ''c1'' ''shell'' []))) \<and>
        cx_authority cx' = ByParse \<and> sandbox_policy cx' = WorkspaceWrite False"
proof -
  define spec where "spec = \<lparr>spec_name = ''shell'', spec_description = [], spec_parameters = Null, spec_requires_approval = False\<rparr>"
  define execute :: "ToolCx list prepared" where
    "execute = (\<lambda>cx w. (cx # w, Inr (success_result ''c1'' ''shell'' [])))"
  define tool where "tool = \<lparr>reg_spec = spec, reg_prepare = (\<lambda>call. Inr (\<lambda>cx w.
    (cx # w, Inr (success_result (tc_id call) ''shell'' [])) :: ToolCx list \<times> (ToolError + ToolResult)))\<rparr>"
  define reg where "reg = \<lparr>reg_tools = [(''shell'', tool)], reg_policy = default_policy False\<rparr>"
  define call where "call = \<lparr>tc_id = ''c1'', tc_name = ''shell'', tc_arguments = Object [(''command'', String ''git status'')]\<rparr>"
  have "command_bearing (tc_name call) (tc_arguments call)" unfolding call_def by code_simp
  note law = unasked_command_runs_as_parsed [OF this, where win = False and reg = reg and fresh = 0 and w = "[]"]
  have v: "verdict (evaluate_tool False (default_policy False) ''shell'' (Object [(''command'', String ''git status'')])) = Allow"
    by code_simp
  have "fst (run_tool_call False reg 0 call None []) \<noteq> []"
    using v by (simp add: run_tool_call_def run_tool_call_with_plan_def reg_def tool_def call_def spec_def
        registry_evaluate_tool_def effective_plan_def denied_reason_def default_policy_def)
  with law obtain cx' where "run_tool_call False reg 0 call None [] = executed execute cx' []"
    "cx_authority cx' = ByParse" "sandbox_policy cx' = WorkspaceWrite False"
    by (auto simp: reg_def tool_def call_def execute_def default_policy_def split: prod.splits)
  then show ?thesis
    unfolding Let_def spec_def [symmetric] tool_def [symmetric] reg_def [symmetric] call_def [symmetric]
    by (auto simp: executed_def execute_def)
qed

end
