(* ===== verification/Session.thy ===== *)
theory Session
  imports Tool_Registry
begin

text \<open>
  The conversation of a session, \<^verbatim>\<open>session_entry.rs\<close> and \<^verbatim>\<open>session.rs\<close>: entries with their tool
  exchanges, the operations that append to it and that record a tool result, and the derivation of
  the messages sent to the provider (\<^verbatim>\<open>message.rs\<close>).

  An entry is held behind a shared pointer in the source. The model keeps the pointer as a number
  beside the entry, because \<^verbatim>\<open>insert_partial_assistant_after\<close> finds its anchor by pointer, and
  \<^verbatim>\<open>Arc::make_mut\<close> moves an entry that the persistence record also holds to a new one: \<open>shared\<close>
  says whether it does. Two fixed texts lie outside the model's characters and are constructors of
  \<open>Content\<close>: the placeholder for an interrupted call and the heading of a summary.
\<close>

section \<open>Entries and messages\<close>

type_synonym TurnId = rstr

datatype Ask = Asked | Unasked

record ToolCallPayload =
  payload_id :: rstr
  payload_type :: rstr
  payload_name :: rstr
  payload_arguments :: rstr

record ExchangeResult =
  res_content :: ResultText
  res_status :: ToolResultStatus
  res_asked :: bool

record ToolExchange =
  ex_call :: ToolCallPayload
  ex_result :: "ExchangeResult option"

definition pending_exchange :: "ToolCallPayload \<Rightarrow> ToolExchange" where
  "pending_exchange call = \<lparr>ex_call = call, ex_result = None\<rparr>"

datatype EntryKind =
    SystemEntry rstr
  | UserEntry rstr "rstr list"
  | AssistantEntry rstr "rstr option" "ToolExchange list"
  | CompactionEntry rstr nat

record SessionEntry =
  entry_turn :: "TurnId option"
  entry_kind :: EntryKind

definition new_entry :: "EntryKind \<Rightarrow> SessionEntry" where
  "new_entry k = \<lparr>entry_turn = None, entry_kind = k\<rparr>"

definition with_turn_id :: "TurnId \<Rightarrow> SessionEntry \<Rightarrow> SessionEntry" where
  "with_turn_id turn entry = entry\<lparr>entry_turn := Some turn\<rparr>"

definition wire_message_count :: "SessionEntry \<Rightarrow> nat" where
  "wire_message_count entry =
     (case entry_kind entry of AssistantEntry _ _ exchanges \<Rightarrow> 1 + length exchanges | _ \<Rightarrow> 1)"

definition assistant_entry :: "rstr \<Rightarrow> rstr option \<Rightarrow> ToolExchange list \<Rightarrow> SessionEntry" where
  "assistant_entry text reasoning exchanges =
     new_entry (AssistantEntry text
       (case reasoning of None \<Rightarrow> None | Some r \<Rightarrow> if r = [] then None else Some r) exchanges)"

definition compaction_entry :: "rstr \<Rightarrow> nat \<Rightarrow> SessionEntry" where
  "compaction_entry summary archived = new_entry (CompactionEntry summary archived)"

datatype Role = SystemRole | UserRole | AssistantRole | ToolRole

datatype Content = Text rstr | ToolText ResultText | InterruptedToolResult | SessionSummary rstr

record Message =
  role :: Role
  content :: Content
  images :: "rstr list"
  reasoning_content :: "rstr option"
  tool_call_id :: "rstr option"
  tool_calls :: "ToolCallPayload list"

definition new_message :: "Role \<Rightarrow> Content \<Rightarrow> Message" where
  "new_message r c = \<lparr>role = r, content = c, images = [], reasoning_content = None,
     tool_call_id = None, tool_calls = []\<rparr>"

definition assistant_turn :: "rstr \<Rightarrow> rstr \<Rightarrow> ToolCallPayload list \<Rightarrow> Message" where
  "assistant_turn text reasoning calls =
     \<lparr>role = AssistantRole, content = Text text, images = [],
      reasoning_content = (if reasoning = [] then None else Some reasoning),
      tool_call_id = None, tool_calls = calls\<rparr>"

definition tool_message :: "rstr \<Rightarrow> Content \<Rightarrow> Message" where
  "tool_message call_id c =
     \<lparr>role = ToolRole, content = c, images = [], reasoning_content = None,
      tool_call_id = Some call_id, tool_calls = []\<rparr>"

section \<open>The session\<close>

type_synonym entry_ptr = nat

record Session =
  entries :: "(entry_ptr \<times> SessionEntry) list"
  next_ptr :: entry_ptr

definition new_session :: Session where
  "new_session = \<lparr>entries = [], next_ptr = 0\<rparr>"

definition push_entry :: "SessionEntry \<Rightarrow> Session \<Rightarrow> Session" where
  "push_entry entry s = s\<lparr>entries := entries s @ [(next_ptr s, entry)], next_ptr := next_ptr s + 1\<rparr>"

definition push_system :: "rstr \<Rightarrow> Session \<Rightarrow> Session" where
  "push_system text s = push_entry (new_entry (SystemEntry text)) s"

definition push_user_with_images :: "TurnId \<Rightarrow> rstr \<Rightarrow> rstr list \<Rightarrow> Session \<Rightarrow> Session" where
  "push_user_with_images turn text imgs s =
     push_entry (with_turn_id turn (new_entry (UserEntry text imgs))) s"

definition push_user :: "TurnId \<Rightarrow> rstr \<Rightarrow> Session \<Rightarrow> Session" where
  "push_user turn text s = push_user_with_images turn text [] s"

definition push_assistant ::
  "TurnId \<Rightarrow> rstr \<Rightarrow> rstr \<Rightarrow> ToolCallPayload list \<Rightarrow> Session \<Rightarrow> Session" where
  "push_assistant turn text reasoning calls s =
     push_entry
       (with_turn_id turn
         (assistant_entry text (if reasoning \<noteq> [] then Some reasoning else None)
           (map pending_exchange calls))) s"

definition insert_partial_assistant_after ::
  "entry_ptr \<Rightarrow> TurnId \<Rightarrow> rstr \<Rightarrow> rstr \<Rightarrow> Session \<Rightarrow> Session \<times> bool" where
  "insert_partial_assistant_after anchor turn text reasoning s =
     (case position (\<lambda>(ptr, entry). ptr = anchor) (entries s) of
        None \<Rightarrow> (s, False)
      | Some index \<Rightarrow>
          (s\<lparr>entries := take (index + 1) (entries s) @
               (next_ptr s, with_turn_id turn (assistant_entry text (Some reasoning) [])) #
               drop (index + 1) (entries s),
             next_ptr := next_ptr s + 1\<rparr>, True))"

definition is_assistant :: "entry_ptr \<times> SessionEntry \<Rightarrow> bool" where
  "is_assistant e = (case entry_kind (snd e) of AssistantEntry _ _ _ \<Rightarrow> True | _ \<Rightarrow> False)"

definition awaits :: "rstr \<Rightarrow> ToolExchange \<Rightarrow> bool" where
  "awaits call_id ex \<longleftrightarrow> payload_id (ex_call ex) = call_id \<and> ex_result ex = None"

text \<open>The write through \<^verbatim>\<open>iter_mut().find(..)\<close>: the first exchange that awaits the call.\<close>

fun fill_exchange :: "rstr \<Rightarrow> ExchangeResult \<Rightarrow> ToolExchange list \<Rightarrow> ToolExchange list" where
  "fill_exchange call_id result [] = []"
| "fill_exchange call_id result (ex # exs) =
     (if awaits call_id ex then ex\<lparr>ex_result := Some result\<rparr> # exs
      else ex # fill_exchange call_id result exs)"

text \<open>The newest assistant entry is looked for from the end.\<close>

definition latest_assistant :: "Session \<Rightarrow> nat option" where
  "latest_assistant s =
     map_option (\<lambda>k. length (entries s) - 1 - k) (position is_assistant (rev (entries s)))"

definition record_tool_result ::
  "bool \<Rightarrow> rstr \<Rightarrow> ResultText \<Rightarrow> ToolResultStatus \<Rightarrow> Ask \<Rightarrow> Session \<Rightarrow> Session \<times> bool" where
  "record_tool_result shared call_id text status ask s =
     (case latest_assistant s of
        None \<Rightarrow> (s, False)
      | Some at \<Rightarrow>
          (case entries s ! at of
             (ptr, entry) \<Rightarrow>
               (case entry_kind entry of
                  AssistantEntry t r exchanges \<Rightarrow>
                    if \<not> list_ex (awaits call_id) exchanges then (s, False)
                    else
                      (let result = \<lparr>res_content = text, res_status = status, res_asked = (ask = Asked)\<rparr>;
                           entry' = entry\<lparr>entry_kind := AssistantEntry t r (fill_exchange call_id result exchanges)\<rparr>;
                           ptr' = (if shared then next_ptr s else ptr)
                       in (s\<lparr>entries := (entries s)[at := (ptr', entry')],
                             next_ptr := (if shared then next_ptr s + 1 else next_ptr s)\<rparr>, True))
                | _ \<Rightarrow> (s, False))))"

text \<open>The entries a session is replaced with are pointers too: those it keeps, and new ones.\<close>

definition replace_entries :: "(entry_ptr \<times> SessionEntry) list \<Rightarrow> Session \<Rightarrow> Session" where
  "replace_entries es s = s\<lparr>entries := es\<rparr>"

section \<open>The messages on the wire\<close>

definition exchange_message :: "ToolExchange \<Rightarrow> Message" where
  "exchange_message ex =
     tool_message (payload_id (ex_call ex))
       (case ex_result ex of None \<Rightarrow> InterruptedToolResult | Some result \<Rightarrow> ToolText (res_content result))"

definition entry_wire_messages :: "SessionEntry \<Rightarrow> Message list" where
  "entry_wire_messages entry =
     (case entry_kind entry of
        SystemEntry text \<Rightarrow> [new_message SystemRole (Text text)]
      | UserEntry text imgs \<Rightarrow> [(new_message UserRole (Text text))\<lparr>images := imgs\<rparr>]
      | CompactionEntry summary _ \<Rightarrow> [new_message SystemRole (SessionSummary summary)]
      | AssistantEntry text reasoning exchanges \<Rightarrow>
          assistant_turn text (case reasoning of None \<Rightarrow> [] | Some r \<Rightarrow> r) (map ex_call exchanges)
          # map exchange_message exchanges)"

definition wire_messages :: "Session \<Rightarrow> Message list" where
  "wire_messages s = concat (map (\<lambda>e. entry_wire_messages (snd e)) (entries s))"

section \<open>The protocol of the provider\<close>

text \<open>Every message that carries tool calls is followed at once by one tool message per call, with
  the calls' ids in their order, and no tool message stands anywhere else.\<close>

function wire_ok :: "Message list \<Rightarrow> bool" where
  "wire_ok [] = True"
| "wire_ok (m # ms) =
     (role m \<noteq> ToolRole \<and>
      (let n = length (tool_calls m) in
       length (take n ms) = n \<and>
       list_all (\<lambda>t. role t = ToolRole) (take n ms) \<and>
       map tool_call_id (take n ms) = map (\<lambda>c. Some (payload_id c)) (tool_calls m) \<and>
       wire_ok (drop n ms)))"
  by pat_completeness auto
termination
  by (relation "measure length") auto

lemma wire_ok_entry: "wire_ok (entry_wire_messages entry @ ms) = wire_ok ms"
proof (cases "entry_kind entry")
  case (AssistantEntry txt_of reasoning exchanges)
  have "take (length exchanges) (map exchange_message exchanges @ ms) = map exchange_message exchanges"
    "drop (length exchanges) (map exchange_message exchanges @ ms) = ms" by simp_all
  moreover have "list_all (\<lambda>t. role t = ToolRole) (map exchange_message exchanges)"
    by (simp add: list_all_iff exchange_message_def tool_message_def)
  moreover have "map tool_call_id (map exchange_message exchanges) =
      map (\<lambda>c. Some (payload_id c)) (map ex_call exchanges)"
    by (simp add: exchange_message_def tool_message_def)
  ultimately show ?thesis
    by (simp add: AssistantEntry entry_wire_messages_def assistant_turn_def comp_def)
qed (simp_all add: entry_wire_messages_def new_message_def)

lemma entry_wire_messages_count: "length (entry_wire_messages entry) = wire_message_count entry"
  by (simp add: entry_wire_messages_def wire_message_count_def split: EntryKind.split)

text \<open>C35 (safety). The request is well formed by construction. Whatever happened to a session, whichever
  calls were interrupted, the messages derived from it satisfy the provider's protocol: each message
  with tool calls is followed by exactly one tool message per call, in order, and there is no other
  tool message; and their number is the sum of the counts the entries announce.\<close>

theorem wire_messages_protocol:
  "wire_ok (wire_messages s) \<and>
   length (wire_messages s) = sum_list (map (\<lambda>e. wire_message_count (snd e)) (entries s))"
proof -
  have "wire_ok (concat (map (\<lambda>e. entry_wire_messages (snd e)) es))" for es :: "(entry_ptr \<times> SessionEntry) list"
    by (induction es) (simp_all add: wire_ok_entry)
  then show ?thesis
    by (simp add: wire_messages_def length_concat entry_wire_messages_count comp_def)
qed

section \<open>Recording results\<close>

text \<open>The calls that await a result: those of the newest assistant entry.\<close>

definition pending_calls :: "Session \<Rightarrow> rstr list" where
  "pending_calls s =
     (case latest_assistant s of
        None \<Rightarrow> []
      | Some at \<Rightarrow>
          (case entry_kind (snd (entries s ! at)) of
             AssistantEntry _ _ exchanges \<Rightarrow>
               map (\<lambda>ex. payload_id (ex_call ex)) (filter (\<lambda>ex. ex_result ex = None) exchanges)
           | _ \<Rightarrow> []))"

lemma latest_assistantD:
  assumes "latest_assistant s = Some at"
  shows "at < length (entries s) \<and> is_assistant (entries s ! at) \<and>
    (\<forall>k. at < k \<and> k < length (entries s) \<longrightarrow> \<not> is_assistant (entries s ! k))"
proof -
  from assms obtain k where k: "position is_assistant (rev (entries s)) = Some k"
    and at: "at = length (entries s) - 1 - k" by (auto simp: latest_assistant_def)
  note p = position_SomeD [OF k]
  have "\<not> is_assistant (entries s ! j)" if "at < j" "j < length (entries s)" for j
  proof -
    have "length (entries s) - 1 - j < k" using that p at by simp
    with p have "\<not> is_assistant (rev (entries s) ! (length (entries s) - 1 - j))" by blast
    then show ?thesis using that by (simp add: rev_nth)
  qed
  moreover have "is_assistant (entries s ! at)"
    using p at rev_nth [of k "entries s"] by simp
  ultimately show ?thesis using p at by auto
qed

lemma fill_exchange_pending:
  "map (\<lambda>ex. payload_id (ex_call ex)) (filter (\<lambda>ex. ex_result ex = None) (fill_exchange call_id result exs)) =
   remove1 call_id (map (\<lambda>ex. payload_id (ex_call ex)) (filter (\<lambda>ex. ex_result ex = None) exs))"
  by (induction call_id result exs rule: fill_exchange.induct) (auto simp: awaits_def)

lemma fill_exchange_calls: "map ex_call (fill_exchange call_id result exs) = map ex_call exs"
  by (induction call_id result exs rule: fill_exchange.induct) auto

lemma fill_exchange_once:
  "list_ex (awaits call_id) exs \<Longrightarrow>
   \<exists>pre ex post. exs = pre @ ex # post \<and> awaits call_id ex \<and> \<not> list_ex (awaits call_id) pre \<and>
     fill_exchange call_id result exs = pre @ ex\<lparr>ex_result := Some result\<rparr> # post"
proof (induction exs)
  case (Cons e exs)
  show ?case
  proof (cases "awaits call_id e")
    case True
    then show ?thesis by (intro exI [of _ "[]"]) simp
  next
    case False
    with Cons obtain pre ex post where "exs = pre @ ex # post" "awaits call_id ex" "\<not> list_ex (awaits call_id) pre"
      "fill_exchange call_id result exs = pre @ ex\<lparr>ex_result := Some result\<rparr> # post" by auto
    with False show ?thesis by (intro exI [of _ "e # pre"]) simp
  qed
qed simp

text \<open>What a session keeps besides the results: the turns and kinds of its entries, their texts and the
  calls of each exchange.\<close>

definition entry_skeleton :: "SessionEntry \<Rightarrow> SessionEntry" where
  "entry_skeleton entry =
     (case entry_kind entry of
        AssistantEntry t r exchanges \<Rightarrow>
          entry\<lparr>entry_kind := AssistantEntry t r (map (\<lambda>ex. pending_exchange (ex_call ex)) exchanges)\<rparr>
      | _ \<Rightarrow> entry)"

definition session_skeleton :: "Session \<Rightarrow> SessionEntry list" where
  "session_skeleton s = map (\<lambda>e. entry_skeleton (snd e)) (entries s)"

definition recorded_results :: "SessionEntry \<Rightarrow> (rstr \<times> ExchangeResult option) list" where
  "recorded_results entry =
     (case entry_kind entry of
        AssistantEntry _ _ exchanges \<Rightarrow> map (\<lambda>ex. (payload_id (ex_call ex), ex_result ex)) exchanges
      | _ \<Rightarrow> [])"

lemma latest_assistantE:
  assumes "latest_assistant s = Some at"
  obtains ptr entry t r exchanges where "at < length (entries s)" "entries s ! at = (ptr, entry)"
    "entry_kind entry = AssistantEntry t r exchanges"
proof -
  obtain ptr entry where e: "entries s ! at = (ptr, entry)" by (cases "entries s ! at")
  with latest_assistantD [OF assms] have "is_assistant (ptr, entry)" by simp
  then show ?thesis
    using e that latest_assistantD [OF assms]
    by (auto simp: is_assistant_def split: EntryKind.splits)
qed

lemma awaits_pending:
  "list_ex (awaits call_id) exs \<longleftrightarrow>
   call_id \<in> set (map (\<lambda>ex. payload_id (ex_call ex)) (filter (\<lambda>ex. ex_result ex = None) exs))"
  by (auto simp: list_ex_iff awaits_def)

lemma latest_assistant_update:
  assumes "latest_assistant s = Some at" "is_assistant e"
  shows "latest_assistant (s\<lparr>entries := (entries s)[at := e], next_ptr := n\<rparr>) = Some at"
proof -
  note d = latest_assistantD [OF assms(1)]
  have "is_assistant ((entries s)[at := e] ! k) = is_assistant (entries s ! k)"
    if "k < length (entries s)" for k
    using d assms(2) that by (cases "k = at") auto
  then have "map is_assistant ((entries s)[at := e]) = map is_assistant (entries s)"
    by (intro nth_equalityI) auto
  then have "map is_assistant (rev ((entries s)[at := e])) = map is_assistant (rev (entries s))"
    by (simp add: rev_map [symmetric])
  then have "position is_assistant (rev ((entries s)[at := e])) = position is_assistant (rev (entries s))"
    by (rule position_cong_map)
  then show ?thesis using assms(1) by (simp add: latest_assistant_def)
qed

lemma record_tool_result_cases:
  fixes s :: Session
  obtains
    (missed) "call_id \<notin> set (pending_calls s)"
      "record_tool_result shared call_id c status ask s = (s, False)"
  | (filled) at ptr entry t r exchanges s' where "call_id \<in> set (pending_calls s)"
      "latest_assistant s = Some at" "at < length (entries s)" "entries s ! at = (ptr, entry)"
      "entry_kind entry = AssistantEntry t r exchanges" "list_ex (awaits call_id) exchanges"
      "record_tool_result shared call_id c status ask s = (s', True)"
      "s' = s\<lparr>entries := (entries s)[at := (if shared then next_ptr s else ptr,
           entry\<lparr>entry_kind := AssistantEntry t r (fill_exchange call_id
             \<lparr>res_content = c, res_status = status, res_asked = (ask = Asked)\<rparr> exchanges)\<rparr>)],
         next_ptr := (if shared then next_ptr s + 1 else next_ptr s)\<rparr>"
proof (cases "latest_assistant s")
  case None
  then show ?thesis using missed by (simp add: pending_calls_def record_tool_result_def)
next
  case (Some at)
  then obtain ptr entry t r exchanges where e: "at < length (entries s)" "entries s ! at = (ptr, entry)"
    "entry_kind entry = AssistantEntry t r exchanges" by (rule latest_assistantE)
  have p: "call_id \<in> set (pending_calls s) \<longleftrightarrow> list_ex (awaits call_id) exchanges"
    by (simp only: awaits_pending) (simp add: pending_calls_def Some e)
  show ?thesis
  proof (cases "list_ex (awaits call_id) exchanges")
    case True
    show ?thesis
      by (rule filled [OF _ Some e True _ refl]) (use p True in \<open>simp_all add: record_tool_result_def Some e Let_def\<close>)
  next
    case False
    show ?thesis
      by (rule missed) (use p False in \<open>simp_all add: record_tool_result_def Some e\<close>)
  qed
qed

lemma record_tool_result_pending:
  "snd (record_tool_result shared call_id c status ask s) = (call_id \<in> set (pending_calls s)) \<and>
   pending_calls (fst (record_tool_result shared call_id c status ask s)) = remove1 call_id (pending_calls s)"
proof (cases rule: record_tool_result_cases
    [where call_id = call_id and s = s and shared = shared and c = c and status = status and ask = ask])
  case missed
  then show ?thesis by (simp add: remove1_idem)
next
  case (filled at ptr entry t r exchanges s')
  have "is_assistant (p, entry\<lparr>entry_kind := AssistantEntry t r xs\<rparr>)" for p xs
    by (simp add: is_assistant_def)
  from latest_assistant_update [OF filled(2) this] have l: "latest_assistant s' = Some at"
    by (simp only: filled(8))
  have "pending_calls s' = remove1 call_id (pending_calls s)"
    unfolding pending_calls_def l filled(2) using filled(3,4,5)
    by (simp add: filled(8) fill_exchange_pending)
  then show ?thesis using filled(1,7) by simp
qed

definition session_results :: "Session \<Rightarrow> (rstr \<times> ExchangeResult option) list" where
  "session_results s = concat (map (\<lambda>e. recorded_results (snd e)) (entries s))"

lemma entry_skeleton_fill:
  "entry_kind entry = AssistantEntry t r exs \<Longrightarrow>
   entry_skeleton (entry\<lparr>entry_kind := AssistantEntry t r (fill_exchange call_id result exs)\<rparr>) = entry_skeleton entry"
  using arg_cong [OF fill_exchange_calls [of call_id result exs], of "map pending_exchange"]
  by (simp add: entry_skeleton_def comp_def)

lemma list_update_split: "at < length xs \<Longrightarrow> xs[at := e] = take at xs @ e # drop (Suc at) xs"
  by (rule upd_conv_take_nth_drop)

lemma record_tool_result_skeleton:
  "session_skeleton (fst (record_tool_result shared call_id c status ask s)) = session_skeleton s"
proof (cases rule: record_tool_result_cases
    [where call_id = call_id and s = s and shared = shared and c = c and status = status and ask = ask])
  case missed
  then show ?thesis by simp
next
  case (filled at ptr entry t r exchanges s')
  let ?before = "take at (entries s)" and ?after = "drop (Suc at) (entries s)"
  have old: "entries s = ?before @ (ptr, entry) # ?after"
    using filled(3,4) id_take_nth_drop by metis
  have "session_skeleton s' = session_skeleton s"
    unfolding session_skeleton_def filled(8)
    by (subst (2) old) (simp add: list_update_split filled(3) entry_skeleton_fill [OF filled(5)])
  with filled(7) show ?thesis by simp
qed

text \<open>Recording a result. It succeeds exactly when the newest assistant entry has a call of
  that id without a result; it then fills the first such call and nothing else: the entries, their
  texts and calls stay, exactly one result of the whole transcript changes, from absent to the one
  recorded, and the call is no longer pending. Otherwise the session is left as it was.\<close>

theorem record_tool_result_spec:
  "case record_tool_result shared call_id c status ask s of (s', ok) \<Rightarrow>
     (ok \<longleftrightarrow> call_id \<in> set (pending_calls s)) \<and>
     pending_calls s' = remove1 call_id (pending_calls s) \<and>
     session_skeleton s' = session_skeleton s \<and>
     (if ok
      then \<exists>pre post. session_results s = pre @ (call_id, None) # post \<and>
             session_results s' = pre @ (call_id, Some \<lparr>res_content = c, res_status = status, res_asked = (ask = Asked)\<rparr>) # post
      else s' = s)"
proof (cases rule: record_tool_result_cases
    [where call_id = call_id and s = s and shared = shared and c = c and status = status and ask = ask])
  case missed
  then show ?thesis by (simp add: remove1_idem)
next
  case (filled at ptr entry t r exchanges s')
  define result where "result = \<lparr>res_content = c, res_status = status, res_asked = (ask = Asked)\<rparr>"
  let ?e = "(if shared then next_ptr s else ptr, entry\<lparr>entry_kind := AssistantEntry t r (fill_exchange call_id result exchanges)\<rparr>)"
  let ?before = "take at (entries s)" and ?after = "drop (Suc at) (entries s)"
  let ?rec = "\<lambda>es. concat (map (\<lambda>e. recorded_results (snd e)) es)"
  have old: "entries s = ?before @ (ptr, entry) # ?after"
    using filled(3,4) id_take_nth_drop by metis
  have new: "entries s' = ?before @ ?e # ?after"
    using filled(3) by (simp add: filled(8) list_update_split result_def)
  have same: "session_skeleton s' = session_skeleton s"
    using record_tool_result_skeleton [of shared call_id c status ask s] filled(7) by simp
  obtain pre ex post where ex: "exchanges = pre @ ex # post" "awaits call_id ex"
    "fill_exchange call_id result exchanges = pre @ ex\<lparr>ex_result := Some result\<rparr> # post"
    using fill_exchange_once [OF filled(6)] by blast
  define f where "f = (\<lambda>ex :: ToolExchange. (payload_id (ex_call ex), ex_result ex))"
  have r: "session_results s = (?rec ?before @ map f pre) @ (call_id, None) # (map f post @ ?rec ?after)"
    unfolding session_results_def by (subst old) (use ex filled(5) in \<open>simp add: recorded_results_def f_def awaits_def\<close>)
  have r': "session_results s' = (?rec ?before @ map f pre) @ (call_id, Some result) # (map f post @ ?rec ?after)"
    unfolding session_results_def new using ex by (simp add: recorded_results_def f_def awaits_def)
  have "pending_calls s' = remove1 call_id (pending_calls s)"
    using record_tool_result_pending [of shared call_id c status ask s] filled(7) by simp
  moreover have "\<exists>pre post. session_results s = pre @ (call_id, None) # post \<and>
      session_results s' = pre @ (call_id, Some result) # post"
    using r r' by blast
  ultimately show ?thesis using filled(1,7) same by (simp add: result_def)
qed

section \<open>The transcript, as the tool loop uses it\<close>

text \<open>What the loop that runs a batch relies on: recording a result of a pending call succeeds and takes
  that call, and no other, off the pending ones.\<close>

locale transcript =
  fixes record_result :: "rstr \<Rightarrow> 'r \<Rightarrow> 's \<Rightarrow> 's \<times> bool"
    and pending :: "'s \<Rightarrow> rstr list"
  assumes records_pending: "snd (record_result i r s) \<longleftrightarrow> i \<in> set (pending s)"
    and pending_after: "pending (fst (record_result i r s)) = remove1 i (pending s)"
begin

definition record_all :: "(rstr \<times> 'r) list \<Rightarrow> 's \<Rightarrow> 's" where
  "record_all irs s = fold (\<lambda>(i, r) s. fst (record_result i r s)) irs s"

lemma record_all_simps [simp]:
  "record_all [] s = s"
  "record_all (ir # irs) s = record_all irs (fst (record_result (fst ir) (snd ir) s))"
  by (simp_all add: record_all_def split: prod.split)

lemma record_all_append: "record_all (as @ bs) s = record_all bs (record_all as s)"
  by (simp add: record_all_def)

lemma pending_record_all: "mset (pending (record_all irs s)) = mset (pending s) - mset (map fst irs)"
proof (induction irs arbitrary: s)
  case (Cons ir irs)
  then show ?case by (simp add: pending_after)
qed simp

text \<open>A batch whose calls are the pending ones leaves none of them pending, whatever order it works in.\<close>

lemma record_all_settles:
  "mset (map fst irs) = mset (pending s) \<Longrightarrow> pending (record_all irs s) = []"
  using pending_record_all [of irs s] by simp

lemma record_all_prefix:
  "pending s = map fst irs @ rest \<Longrightarrow> pending (record_all irs s) = rest"
proof (induction irs arbitrary: s)
  case (Cons ir irs)
  then show ?case by (simp add: pending_after)
qed simp

end

interpretation live: transcript
  "\<lambda>call_id (shared, c, status, ask). record_tool_result shared call_id c status ask" pending_calls
  by unfold_locales (simp_all add: record_tool_result_pending split: prod.split)

end
