(* ===== verification/Session_Integrity.thy ===== *)
theory Session_Integrity
  imports Prelude "HOL-Library.Word"
begin

text \<open>
  The authorship tags of session records, \<^verbatim>\<open>session_integrity.rs\<close>: the length-prefixed bytes a
  grant tag covers, the hexadecimal text of a tag, signing and verifying, and the signing key on
  disk, which several processes may create at the same time.

  Ids, paths and tags are byte sequences here, the bytes of their UTF-8 or OS encoding. The keyed
  hash is a parameter: \<open>sign\<close> for \<^verbatim>\<open>ring::hmac::sign\<close> and \<open>verify\<close> for \<^verbatim>\<open>ring::hmac::verify\<close>,
  related by \<open>verify_is_sign\<close>, which is what the library documents of them.
\<close>

unbundle bit_operations_syntax

section \<open>Bytes\<close>

type_synonym bytes = "8 word list"

definition to_le_bytes :: "64 word \<Rightarrow> bytes" where
  "to_le_bytes w = map (\<lambda>i. ucast (drop_bit (8 * i) w)) [0..<8]"

lemma length_to_le_bytes [simp]: "length (to_le_bytes w) = 8"
  by (simp add: to_le_bytes_def)

lemma to_le_bytes_bit:
  "n < 64 \<Longrightarrow> bit (to_le_bytes w ! (n div 8)) (n mod 8) \<longleftrightarrow> bit w n"
proof -
  assume n: "n < 64"
  then have "n div 8 < 8" by simp
  then have "[0..<8] ! (n div 8) = n div 8" by simp
  with n show ?thesis by (simp add: to_le_bytes_def bit_simps)
qed

lemma to_le_bytes_inject: "to_le_bytes v = to_le_bytes w \<longleftrightarrow> v = w"
proof
  assume "to_le_bytes v = to_le_bytes w"
  then show "v = w"
    using to_le_bytes_bit [of _ v] to_le_bytes_bit [of _ w] by (intro bit_word_eqI) simp
qed simp

text \<open>A byte sequence with its length before it.\<close>

definition push_bytes :: "bytes \<Rightarrow> bytes" where
  "push_bytes bs = to_le_bytes (word_of_nat (length bs)) @ bs"

definition message :: "bytes \<Rightarrow> bytes \<Rightarrow> bytes list \<Rightarrow> bytes" where
  "message i workspace roots =
     push_bytes i @ push_bytes workspace @ push_bytes (to_le_bytes (word_of_nat (length roots))) @
     concat (map push_bytes roots)"

section \<open>The text of a tag\<close>

definition hex_digit :: "8 word \<Rightarrow> 8 word" where
  "hex_digit d = (if d < 10 then 0x30 + d else 0x57 + d)"

definition byte_02x :: "8 word \<Rightarrow> bytes" where
  "byte_02x b = [hex_digit (drop_bit 4 b), hex_digit (b AND 15)]"

definition to_hex :: "bytes \<Rightarrow> bytes" where
  "to_hex bs = concat (map byte_02x bs)"

definition to_digit :: "8 word \<Rightarrow> 8 word option" where
  "to_digit c =
     (if 0x30 \<le> c \<and> c \<le> 0x39 then Some (c - 0x30)
      else if 0x41 \<le> c \<and> c \<le> 0x46 then Some (c - 0x37)
      else if 0x61 \<le> c \<and> c \<le> 0x66 then Some (c - 0x57)
      else None)"

text \<open>\<^verbatim>\<open>u8::from_str_radix(_, 16)\<close> on a text of two bytes: a leading plus sign is skipped. A text
  that is not ASCII has no digits in it, so it fails here as it does in the source.\<close>

definition from_str_radix16 :: "8 word \<Rightarrow> 8 word \<Rightarrow> 8 word option" where
  "from_str_radix16 a b =
     (if a = 0x2B then to_digit b
      else case (to_digit a, to_digit b) of (Some x, Some y) \<Rightarrow> Some (x * 16 + y) | _ \<Rightarrow> None)"

fun from_hex :: "bytes \<Rightarrow> bytes option" where
  "from_hex [] = Some []"
| "from_hex [a] = None"
| "from_hex (a # b # rest) =
     (case from_str_radix16 a b of
        None \<Rightarrow> None
      | Some x \<Rightarrow> (case from_hex rest of None \<Rightarrow> None | Some xs \<Rightarrow> Some (x # xs)))"

section \<open>Signing and verifying\<close>

datatype KeyUnavailable = NoHomeDirectory | NotCreatable | Unreadable

type_synonym key_result = "KeyUnavailable + bytes"

type_synonym hmac_sign = "bytes \<Rightarrow> bytes \<Rightarrow> bytes"
type_synonym hmac_verify = "bytes \<Rightarrow> bytes \<Rightarrow> bytes \<Rightarrow> bool"

definition verify_is_sign :: "hmac_sign \<Rightarrow> hmac_verify \<Rightarrow> bool" where
  "verify_is_sign sign verify \<longleftrightarrow> (\<forall>k m t. verify k m t \<longleftrightarrow> t = sign k m)"

definition sign_roots ::
  "hmac_sign \<Rightarrow> key_result \<Rightarrow> bytes \<Rightarrow> bytes \<Rightarrow> bytes list \<Rightarrow> bytes option" where
  "sign_roots sign key i workspace roots =
     (case key of Inl _ \<Rightarrow> None | Inr k \<Rightarrow> Some (to_hex (sign k (message i workspace roots))))"

definition verify_roots ::
  "hmac_verify \<Rightarrow> key_result \<Rightarrow> bytes \<Rightarrow> bytes \<Rightarrow> bytes list \<Rightarrow> bytes option \<Rightarrow> bool" where
  "verify_roots verify key i workspace roots tag =
     (if roots = [] then True
      else case (key, tag) of
        (Inr k, Some t) \<Rightarrow>
          (case from_hex t of None \<Rightarrow> False | Some t' \<Rightarrow> verify k (message i workspace roots) t')
      | _ \<Rightarrow> False)"

section \<open>The key on disk\<close>

definition KEY_BYTES :: nat where "KEY_BYTES = 32"

datatype KeyNode = NoKeyFile | KeyFile bytes | NotRegular | ReadFails

datatype ReadError = NotFound | OtherError

definition read_key :: "KeyNode \<Rightarrow> ReadError + bytes" where
  "read_key node =
     (case node of
        NoKeyFile \<Rightarrow> Inl NotFound
      | NotRegular \<Rightarrow> Inl OtherError
      | ReadFails \<Rightarrow> Inl OtherError
      | KeyFile contents \<Rightarrow>
          (let bs = take (KEY_BYTES + 1) contents
           in if length bs = KEY_BYTES then Inr bs else Inl OtherError))"

text \<open>Publishing: the temporary file may fail to be written; then the name is taken only when it is
  free, and finding it taken is success.\<close>

definition publish_key :: "bool \<Rightarrow> bytes \<Rightarrow> KeyNode \<Rightarrow> KeyNode \<times> bool" where
  "publish_key io_ok bs node =
     (if \<not> io_ok then (node, False)
      else case node of NoKeyFile \<Rightarrow> (KeyFile bs, True) | _ \<Rightarrow> (node, True))"

definition load_or_create_key_in ::
  "bool \<Rightarrow> bytes option \<Rightarrow> bool \<Rightarrow> KeyNode \<Rightarrow> KeyNode \<times> key_result" where
  "load_or_create_key_in dir_ok random io_ok node =
     (case read_key node of
        Inr k \<Rightarrow> (node, Inr k)
      | Inl OtherError \<Rightarrow> (node, Inl Unreadable)
      | Inl NotFound \<Rightarrow>
          if \<not> dir_ok then (node, Inl NotCreatable)
          else case random of
            None \<Rightarrow> (node, Inl NotCreatable)
          | Some fresh \<Rightarrow>
              (case publish_key io_ok fresh node of
                 (node', False) \<Rightarrow> (node', Inl NotCreatable)
               | (node', True) \<Rightarrow>
                   (node', case read_key node' of Inr k \<Rightarrow> Inr k | Inl _ \<Rightarrow> Inl Unreadable)))"

definition load_or_create_key ::
  "bool \<Rightarrow> bool \<Rightarrow> bytes option \<Rightarrow> bool \<Rightarrow> KeyNode \<Rightarrow> KeyNode \<times> key_result" where
  "load_or_create_key has_home dir_ok random io_ok node =
     (if has_home then load_or_create_key_in dir_ok random io_ok node else (node, Inl NoHomeDirectory))"

text \<open>Several processes at once: what each does between two accesses to the disk. The states are the
  points of \<^verbatim>\<open>load_or_create_key_in\<close> at which another process may run.\<close>

datatype Proc = Start | SeenAbsent | Publishing bytes | Published | Finished key_result

definition proc_step :: "bool \<Rightarrow> bytes option \<Rightarrow> bool \<Rightarrow> Proc \<Rightarrow> KeyNode \<Rightarrow> KeyNode \<times> Proc" where
  "proc_step dir_ok random io_ok p node =
     (case p of
        Start \<Rightarrow>
          (node, case read_key node of
             Inr k \<Rightarrow> Finished (Inr k)
           | Inl OtherError \<Rightarrow> Finished (Inl Unreadable)
           | Inl NotFound \<Rightarrow> SeenAbsent)
      | SeenAbsent \<Rightarrow>
          (node, if \<not> dir_ok then Finished (Inl NotCreatable)
                 else case random of
                   None \<Rightarrow> Finished (Inl NotCreatable)
                 | Some fresh \<Rightarrow> Publishing fresh)
      | Publishing fresh \<Rightarrow>
          (case publish_key io_ok fresh node of
             (node', ok) \<Rightarrow> (node', if ok then Published else Finished (Inl NotCreatable)))
      | Published \<Rightarrow>
          (node, Finished (case read_key node of Inr k \<Rightarrow> Inr k | Inl _ \<Rightarrow> Inl Unreadable))
      | Finished r \<Rightarrow> (node, Finished r))"

text \<open>A fresh key is an array of \<^const>\<open>KEY_BYTES\<close> bytes in the source.\<close>

inductive key_step :: "KeyNode \<times> Proc list \<Rightarrow> KeyNode \<times> Proc list \<Rightarrow> bool" where
  "i < length ps \<Longrightarrow> (\<And>fresh. random = Some fresh \<Longrightarrow> length fresh = KEY_BYTES) \<Longrightarrow>
   proc_step dir_ok random io_ok (ps ! i) node = (node', p') \<Longrightarrow>
   key_step (node, ps) (node', ps[i := p'])"

section \<open>The bytes a tag covers\<close>

lemma push_bytes_append:
  assumes "length a < 2 ^ 64" "length b < 2 ^ 64" "push_bytes a @ xs = push_bytes b @ ys"
  shows "a = b \<and> xs = ys"
proof -
  have l: "to_le_bytes (word_of_nat (length a)) = to_le_bytes (word_of_nat (length b))"
    and r: "a @ xs = b @ ys"
    using assms(3) by (simp_all add: push_bytes_def)
  from l have "(word_of_nat (length a) :: 64 word) = word_of_nat (length b)"
    by (simp only: to_le_bytes_inject)
  then have "length a = length b"
    using assms(1,2) by (simp add: word_of_nat_eq_iff take_bit_nat_eq_self)
  with r show ?thesis by simp
qed

lemma push_roots_inject:
  assumes "\<forall>r \<in> set rs. length r < 2 ^ 64" "\<forall>r \<in> set qs. length r < 2 ^ 64" "length rs = length qs"
    "concat (map push_bytes rs) = concat (map push_bytes qs)"
  shows "rs = qs"
  using assms(3,1,2,4)
proof (induction rs qs rule: list_induct2)
  case (Cons r rs q qs)
  then have "push_bytes r @ concat (map push_bytes rs) = push_bytes q @ concat (map push_bytes qs)" by simp
  from push_bytes_append [OF _ _ this] Cons show ?case by simp
qed simp

text \<open>The sizes the machine can hold: every slice is shorter than the address space.\<close>

definition fits :: "bytes \<Rightarrow> bytes \<Rightarrow> bytes list \<Rightarrow> bool" where
  "fits i workspace roots \<longleftrightarrow>
     length i < 2 ^ 64 \<and> length workspace < 2 ^ 64 \<and> length roots < 2 ^ 64 \<and>
     list_all (\<lambda>r. length r < 2 ^ 64) roots"

lemma message_inject:
  assumes "fits i ws roots" "fits j vs others" "message i ws roots = message j vs others"
  shows "i = j \<and> ws = vs \<and> roots = others"
proof -
  note f = assms(1,2) [unfolded fits_def]
  have one: "i = j \<and> push_bytes ws @ push_bytes (to_le_bytes (word_of_nat (length roots))) @ concat (map push_bytes roots) =
      push_bytes vs @ push_bytes (to_le_bytes (word_of_nat (length others))) @ concat (map push_bytes others)"
    by (rule push_bytes_append) (use f assms(3) in \<open>auto simp: message_def\<close>)
  have two: "ws = vs \<and> push_bytes (to_le_bytes (word_of_nat (length roots))) @ concat (map push_bytes roots) =
      push_bytes (to_le_bytes (word_of_nat (length others))) @ concat (map push_bytes others)"
    by (rule push_bytes_append) (use f one in auto)
  have three: "to_le_bytes (word_of_nat (length roots)) = to_le_bytes (word_of_nat (length others)) \<and>
      concat (map push_bytes roots) = concat (map push_bytes others)"
    by (rule push_bytes_append) (use two in auto)
  then have "length roots = length others"
    using f by (simp add: to_le_bytes_inject word_of_nat_eq_iff take_bit_nat_eq_self)
  then have "roots = others"
    by (rule push_roots_inject [rotated 2]) (use f three in \<open>auto simp: list_all_iff\<close>)
  with one two show ?thesis by simp
qed

lemma to_digit_hex_digit:
  assumes "d < 16"
  shows "to_digit (hex_digit d) = Some d \<and> hex_digit d \<noteq> 0x2B"
proof -
  have "list_all (\<lambda>n. let d = word_of_nat n in to_digit (hex_digit d) = Some d \<and> hex_digit d \<noteq> 0x2B) [0..<16]"
    by code_simp
  moreover have "unat d \<in> set [0..<16]" using assms by (simp add: word_less_nat_alt)
  ultimately have "let d = word_of_nat (unat d) in to_digit (hex_digit d) = Some d \<and> hex_digit d \<noteq> 0x2B"
    unfolding list_all_iff by blast
  then show ?thesis by simp
qed

lemma nibbles: "drop_bit 4 b < 16 \<and> b AND 15 < 16 \<and> drop_bit 4 b * 16 + (b AND 15) = b" for b :: "8 word"
proof -
  have m: "b AND 15 = take_bit 4 b" by (simp add: take_bit_eq_mask mask_eq_exp_minus_1)
  have "drop_bit 4 b < 16"
    using unsigned_less [of b, where 'a = nat]
    by (simp add: word_less_nat_alt unat_drop_bit_eq drop_bit_nat_def less_mult_imp_div_less)
  moreover have "b AND 15 < 16"
    unfolding m using take_bit_nat_less_exp [of 4 "unat b"] by (simp add: word_less_nat_alt unsigned_take_bit_eq)
  moreover have "drop_bit 4 b * 16 + (b AND 15) = b"
    unfolding m using bits_ident [of 4 b] by (simp add: push_bit_eq_mult)
  ultimately show ?thesis by blast
qed

lemma hex_byte: "from_str_radix16 (hex_digit (drop_bit 4 b)) (hex_digit (b AND 15)) = Some b"
  using nibbles [of b] to_digit_hex_digit [of "drop_bit 4 b"] to_digit_hex_digit [of "b AND 15"]
  by (simp add: from_str_radix16_def)

lemma from_hex_to_hex: "from_hex (to_hex bs) = Some bs"
  by (induction bs) (simp_all add: to_hex_def byte_02x_def hex_byte)

lemma length_to_hex: "length (to_hex bs) = 2 * length bs"
  by (induction bs) (simp_all add: to_hex_def byte_02x_def)

text \<open>The bytes a grant tag covers determine what is granted: with the lengths kept in 64
  bits, as every slice of the machine fits, two grants with the same bytes are the same session id,
  the same workspace and the same roots in the same order. No root can be split, joined or moved
  without changing the bytes.\<close>

theorem message_determines:
  assumes "fits i ws roots" and "fits j vs others"
  shows "message i ws roots = message j vs others \<longleftrightarrow> i = j \<and> ws = vs \<and> roots = others"
  using message_inject [OF assms] by auto

theorem message_determines_witness:
  "message [65] [47, 97] [[47, 97, 47, 98]] \<noteq> message [65] [47, 97] [[47, 97], [47, 98]]"
proof -
  have "fits [65] [47, 97] [[47, 97, 47, 98]]" "fits [65] [47, 97] [[47, 97], [47, 98]]"
    by (simp_all add: fits_def)
  from message_determines [OF this] show ?thesis by simp
qed

text \<open>A tag issued for one grant authorizes no other. What this host signs verifies; and when
  the tag signed for one session, workspace and list of roots verifies for a list that is not
  empty, that is the same session, workspace and list, unless the two are a collision of the keyed
  hash under this host's key. Without the key, or without a tag, only the empty list verifies.\<close>

theorem roots_tag_not_liftable:
  assumes "verify_is_sign sign verify" and "fits i ws roots" and "fits j vs others"
  shows "verify_roots verify (Inr k) i ws roots (sign_roots sign (Inr k) i ws roots) \<and>
    (others \<noteq> [] \<and> verify_roots verify (Inr k) j vs others (sign_roots sign (Inr k) i ws roots) \<longrightarrow>
       j = i \<and> vs = ws \<and> others = roots \<or>
       message j vs others \<noteq> message i ws roots \<and>
       sign k (message j vs others) = sign k (message i ws roots)) \<and>
    verify_roots verify (Inl why) j vs others tag = (others = []) \<and>
    verify_roots verify key j vs others None = (others = [])"
proof -
  have v: "verify k m t \<longleftrightarrow> t = sign k m" for k m t using assms(1) by (simp add: verify_is_sign_def)
  have "verify_roots verify (Inr k) i ws roots (sign_roots sign (Inr k) i ws roots)"
    by (simp add: verify_roots_def sign_roots_def from_hex_to_hex v)
  moreover have "j = i \<and> vs = ws \<and> others = roots \<or>
      message j vs others \<noteq> message i ws roots \<and> sign k (message j vs others) = sign k (message i ws roots)"
    if "others \<noteq> []" "verify_roots verify (Inr k) j vs others (sign_roots sign (Inr k) i ws roots)"
    using that message_inject [OF assms(3,2)]
    by (auto simp: verify_roots_def sign_roots_def from_hex_to_hex v)
  moreover have "verify_roots verify (Inl why) j vs others tag = (others = [])"
    "verify_roots verify key j vs others None = (others = [])"
    by (simp_all add: verify_roots_def split: sum.split)
  ultimately show ?thesis by blast
qed

theorem roots_tag_not_liftable_witness:
  "\<not> verify_roots (\<lambda>k m t. t = k @ m) (Inr [7]) [65] [47] [[47, 98]] (sign_roots (@) (Inr [7]) [65] [47] [[47, 97]])"
proof -
  have "verify_is_sign (@) (\<lambda>k m t. t = k @ m)" by (simp add: verify_is_sign_def)
  moreover have "fits [65] [47] [[47, 97]]" "fits [65] [47] [[47, 98]]" by (simp_all add: fits_def)
  ultimately show ?thesis
    using roots_tag_not_liftable [of "(@)" "\<lambda>k m t. t = k @ m" "[65]" "[47]" "[[47, 97]]" "[65]" "[47]" "[[47, 98]]" "[7]"]
    by auto
qed

section \<open>One key for all processes\<close>

text \<open>A process that runs alone does what the function says.\<close>

lemma load_or_create_key_in_steps:
  "load_or_create_key_in dir_ok random io_ok node = (node', r) \<Longrightarrow>
   ((\<lambda>(node, p). proc_step dir_ok random io_ok p node) ^^ 4) (node, Start) = (node', Finished r)"
  by (auto simp: load_or_create_key_in_def proc_step_def publish_key_def read_key_def Let_def numeral_eq_Suc
      split: KeyNode.splits if_splits option.splits)

definition agrees :: "KeyNode \<Rightarrow> Proc \<Rightarrow> bool" where
  "agrees node p =
     (case p of
        Start \<Rightarrow> True
      | SeenAbsent \<Rightarrow> True
      | Publishing fresh \<Rightarrow> length fresh = KEY_BYTES
      | Published \<Rightarrow> node \<noteq> NoKeyFile
      | Finished (Inr k) \<Rightarrow> read_key node = Inr k
      | Finished (Inl _) \<Rightarrow> True)"

lemma proc_step_node:
  "proc_step dir_ok random io_ok p node = (node', p') \<Longrightarrow> agrees node p \<Longrightarrow>
   node' = node \<or> node = NoKeyFile \<and> (\<exists>k. length k = KEY_BYTES \<and> node' = KeyFile k)"
  by (auto simp: proc_step_def publish_key_def agrees_def split: Proc.splits KeyNode.splits if_splits)

lemma agrees_mono:
  "agrees node q \<Longrightarrow> node' = node \<or> node = NoKeyFile \<and> (\<exists>k. length k = KEY_BYTES \<and> node' = KeyFile k) \<Longrightarrow>
   agrees node' q"
  by (auto simp: agrees_def read_key_def split: Proc.splits sum.splits)

lemma proc_step_agrees:
  "proc_step dir_ok random io_ok p node = (node', p') \<Longrightarrow> agrees node p \<Longrightarrow>
   (\<And>fresh. random = Some fresh \<Longrightarrow> length fresh = KEY_BYTES) \<Longrightarrow> agrees node' p'"
  by (auto simp: proc_step_def publish_key_def agrees_def read_key_def Let_def
      split: Proc.splits KeyNode.splits if_splits sum.splits option.splits)

lemma key_steps_invariant:
  assumes "key_step\<^sup>*\<^sup>* (node, ps) (node', ps')" "list_all (agrees node) ps"
  shows "list_all (agrees node') ps' \<and>
    (node' = node \<or> node = NoKeyFile \<and> (\<exists>k. length k = KEY_BYTES \<and> node' = KeyFile k))"
  using assms(1)
proof (induction rule: rtranclp_induct2)
  case refl
  then show ?case using assms(2) by simp
next
  case (step node1 ps1 node2 ps2)
  from step(2) obtain i dir_ok random io_ok p' where
    s: "i < length ps1" "\<And>fresh. random = Some fresh \<Longrightarrow> length fresh = KEY_BYTES"
      "proc_step dir_ok random io_ok (ps1 ! i) node1 = (node2, p')" "ps2 = ps1[i := p']"
    by cases blast
  have a: "agrees node1 (ps1 ! i)" using step(3) s(1) by (simp add: list_all_length)
  note n = proc_step_node [OF s(3) a]
  have "list_all (agrees node2) (ps1[i := p'])"
    using step(3) s(1) proc_step_agrees [OF s(3) a s(2)] agrees_mono [OF _ n]
    by (auto simp: list_all_length nth_list_update)
  with n step(3) s(4) show ?case by auto
qed

text \<open>However many processes look for the key at once and however their steps interleave,
  every process that obtains a key obtains the one on disk, so all obtain the same; a key file that
  exists is never replaced, whatever it holds; and when the file did not exist, what is there
  afterwards is a complete key.\<close>

theorem concurrent_key_agreement:
  assumes "key_step\<^sup>*\<^sup>* (node, replicate n Start) (node', ps)"
  shows "(\<forall>k. Finished (Inr k) \<in> set ps \<longrightarrow> read_key node' = Inr k) \<and>
    (node \<noteq> NoKeyFile \<longrightarrow> node' = node) \<and>
    (node = NoKeyFile \<longrightarrow> node' = NoKeyFile \<or> (\<exists>k. read_key node' = Inr k))"
proof -
  have "list_all (agrees node) (replicate n Start)" by (simp add: list_all_iff agrees_def)
  note inv = key_steps_invariant [OF assms this]
  then have "\<forall>k. Finished (Inr k) \<in> set ps \<longrightarrow> agrees node' (Finished (Inr k))" by (auto simp: list_all_iff)
  moreover have "read_key (KeyFile k) = Inr k" if "length k = KEY_BYTES" for k
    using that by (simp add: read_key_def)
  ultimately show ?thesis using inv by (auto simp: agrees_def)
qed

text \<open>Two processes see no key; the second to publish finds the first one's and reads it.\<close>

theorem concurrent_key_agreement_witness:
  "\<exists>ps. key_step\<^sup>*\<^sup>* (NoKeyFile, replicate 2 Start) (KeyFile (replicate 32 1), ps) \<and>
     Finished (Inr (replicate 32 1)) \<in> set ps \<and> read_key (KeyFile (replicate 32 1)) = Inr (replicate 32 1)"
proof -
  let ?a = "replicate 32 1 :: bytes" and ?b = "replicate 32 2 :: bytes"
  have st: "key_step (node, ps) (node', qs)"
    if "i < length ps" "length fresh = KEY_BYTES" "proc_step True (Some fresh) True (ps ! i) node = (node', p')"
      "qs = ps[i := p']" for node node' ps qs i fresh p'
    using that key_step.intros [of i ps "Some fresh" True True node node' p'] by simp
  have "key_step (NoKeyFile, replicate 2 Start) (NoKeyFile, [SeenAbsent, Start])"
    by (rule st [of 0 _ ?a]) (simp_all add: KEY_BYTES_def proc_step_def read_key_def numeral_2_eq_2)
  moreover have "key_step (NoKeyFile, [SeenAbsent, Start]) (NoKeyFile, [SeenAbsent, SeenAbsent])"
    by (rule st [of 1 _ ?b]) (simp_all add: KEY_BYTES_def proc_step_def read_key_def)
  moreover have "key_step (NoKeyFile, [SeenAbsent, SeenAbsent]) (NoKeyFile, [Publishing ?a, SeenAbsent])"
    by (rule st [of 0 _ ?a]) (simp_all add: KEY_BYTES_def proc_step_def)
  moreover have "key_step (NoKeyFile, [Publishing ?a, SeenAbsent]) (NoKeyFile, [Publishing ?a, Publishing ?b])"
    by (rule st [of 1 _ ?b]) (simp_all add: KEY_BYTES_def proc_step_def)
  moreover have "key_step (NoKeyFile, [Publishing ?a, Publishing ?b]) (KeyFile ?a, [Published, Publishing ?b])"
    by (rule st [of 0 _ ?a]) (simp_all add: KEY_BYTES_def proc_step_def publish_key_def)
  moreover have "key_step (KeyFile ?a, [Published, Publishing ?b]) (KeyFile ?a, [Published, Published])"
    by (rule st [of 1 _ ?b]) (simp_all add: KEY_BYTES_def proc_step_def publish_key_def)
  moreover have "key_step (KeyFile ?a, [Published, Published]) (KeyFile ?a, [Published, Finished (Inr ?a)])"
    by (rule st [of 1 _ ?b]) (simp_all add: KEY_BYTES_def proc_step_def read_key_def)
  ultimately have "key_step\<^sup>*\<^sup>* (NoKeyFile, replicate 2 Start) (KeyFile ?a, [Published, Finished (Inr ?a)])"
    by (meson converse_rtranclp_into_rtranclp rtranclp.rtrancl_refl)
  with concurrent_key_agreement [OF this] show ?thesis by fastforce
qed

end
