(* ===== verification/Session_Store.thy ===== *)
theory Session_Store
  imports Session Session_Integrity Workspace_Policy "HOL-Library.AList"
begin

text \<open>
  Session records on disk, \<^verbatim>\<open>session_store/mod.rs\<close>, \<^verbatim>\<open>session_store/json.rs\<close> and the record tags of
  \<^verbatim>\<open>session_integrity.rs\<close>: sealing and saving a record, loading and authenticating it, the bounded
  list of the newest sessions, and the grants a resumed session gets back (\<^verbatim>\<open>runtime_launch.rs\<close>).

  The JSON encoder is a parameter, \<open>codec\<close>: the compact bytes that are signed, the pretty text that is
  written, and the parser. The keyed hash and the key are those of \<^verbatim>\<open>session_integrity\<close>. The
  directory is a list of named nodes in the order the system lists them. The cost estimates are
  floating-point numbers that only travel through the record, so their type is a parameter \<open>'c\<close>.
\<close>

section \<open>Records\<close>

definition bytes_of :: "rstr \<Rightarrow> bytes" where
  "bytes_of s = map of_char s"

record CheckpointRecord =
  cp_id :: rstr
  cp_turn :: TurnId
  cp_label :: rstr
  cp_created_at_ms :: nat

record 'c SessionRecord =
  rec_id :: rstr
  rec_workspace :: rstr
  rec_extra_roots :: "rstr list"
  rec_extra_roots_mac :: "bytes option"
  rec_record_mac :: "bytes option"
  rec_created_at_ms :: nat
  rec_updated_at_ms :: nat
  rec_entries :: "SessionEntry list"
  rec_turns :: "(TurnId \<times> nat) list"
  rec_checkpoints :: "CheckpointRecord list"
  rec_summary :: "rstr option"
  rec_compaction :: "rstr option"
  rec_session_cost :: 'c
  rec_cache_hit_tokens :: nat
  rec_cache_miss_tokens :: nat
  rec_cache_savings :: 'c

definition new_record :: "'c \<Rightarrow> rstr \<Rightarrow> nat \<Rightarrow> rstr \<Rightarrow> rstr \<Rightarrow> 'c SessionRecord" where
  "new_record zero fresh_id now workspace system_prompt =
     \<lparr>rec_id = fresh_id, rec_workspace = workspace, rec_extra_roots = [], rec_extra_roots_mac = None,
      rec_record_mac = None, rec_created_at_ms = now, rec_updated_at_ms = now,
      rec_entries = [new_entry (SystemEntry system_prompt)], rec_turns = [], rec_checkpoints = [],
      rec_summary = None, rec_compaction = None, rec_session_cost = zero, rec_cache_hit_tokens = 0,
      rec_cache_miss_tokens = 0, rec_cache_savings = zero\<rparr>"

definition is_system_entry :: "SessionEntry \<Rightarrow> bool" where
  "is_system_entry e = (case entry_kind e of SystemEntry _ \<Rightarrow> True | _ \<Rightarrow> False)"

definition set_system_prompt :: "rstr \<Rightarrow> 'c SessionRecord \<Rightarrow> 'c SessionRecord" where
  "set_system_prompt prompt r =
     (let entry = new_entry (SystemEntry prompt) in
      r\<lparr>rec_entries :=
          (case position is_system_entry (rec_entries r) of
             Some i \<Rightarrow> (rec_entries r)[i := entry]
           | None \<Rightarrow> entry # rec_entries r)\<rparr>)"

definition is_user_entry :: "SessionEntry \<Rightarrow> bool" where
  "is_user_entry e = (case entry_kind e of UserEntry _ _ \<Rightarrow> True | _ \<Rightarrow> False)"

definition has_user_entry :: "'c SessionRecord \<Rightarrow> bool" where
  "has_user_entry r \<longleftrightarrow> list_ex is_user_entry (rec_entries r)"

definition message_count :: "'c SessionRecord \<Rightarrow> nat" where
  "message_count r = sum_list (map wire_message_count (rec_entries r))"

definition MAX_SESSION_FILE_BYTES :: nat where "MAX_SESSION_FILE_BYTES = 8 * 1024 * 1024"
definition MAX_SESSION_ENTRIES :: nat where "MAX_SESSION_ENTRIES = 4096"
definition MAX_SESSION_LIST :: nat where "MAX_SESSION_LIST = 32"
definition MAX_SESSION_DIAGNOSTICS :: nat where "MAX_SESSION_DIAGNOSTICS = 32"

datatype SessionStoreError =
    Cancelled
  | SessionNotFound rstr
  | StoreIo
  | Serialization
  | StoreKeyUnavailable KeyUnavailable
  | TooLarge nat nat
  | TooManyEntries nat nat
  | AuthenticationFailed
  | InvalidId rstr

definition validate_session_id :: "rstr \<Rightarrow> SessionStoreError option" where
  "validate_session_id i =
     (if i = [] \<or> 128 < utf8_len i then Some (InvalidId i)
      else if \<not> list_all (\<lambda>c. is_ascii_alphanumeric c \<or> c = CHR ''_'' \<or> c = CHR ''-'') i then Some (InvalidId i)
      else None)"

section \<open>Sealing\<close>

record 'c codec =
  to_vec :: "'c SessionRecord \<Rightarrow> bytes option"
  to_pretty :: "'c SessionRecord \<Rightarrow> bytes option"
  from_json :: "bytes \<Rightarrow> 'c SessionRecord option"

definition record_message :: "'c codec \<Rightarrow> 'c SessionRecord \<Rightarrow> bytes option" where
  "record_message cd r = to_vec cd (r\<lparr>rec_record_mac := None\<rparr>)"

definition sign_record :: "hmac_sign \<Rightarrow> key_result \<Rightarrow> 'c codec \<Rightarrow> 'c SessionRecord \<Rightarrow> bytes option" where
  "sign_record sign key cd r =
     (case key of
        Inl _ \<Rightarrow> None
      | Inr k \<Rightarrow> (case record_message cd r of None \<Rightarrow> None | Some m \<Rightarrow> Some (to_hex (sign k m))))"

definition verify_record :: "hmac_verify \<Rightarrow> key_result \<Rightarrow> 'c codec \<Rightarrow> 'c SessionRecord \<Rightarrow> bool" where
  "verify_record verify key cd r =
     (case (key, rec_record_mac r, record_message cd r) of
        (Inr k, Some tag, Some m) \<Rightarrow> (case from_hex tag of None \<Rightarrow> False | Some t \<Rightarrow> verify k m t)
      | _ \<Rightarrow> False)"

definition roots_tag :: "hmac_sign \<Rightarrow> key_result \<Rightarrow> 'c SessionRecord \<Rightarrow> bytes option" where
  "roots_tag sign key r =
     sign_roots sign key (bytes_of (rec_id r)) (bytes_of (rec_workspace r)) (map bytes_of (rec_extra_roots r))"

record PreparedSession =
  ps_id :: rstr
  ps_json :: bytes
  ps_entry_count :: nat

definition prepare_record ::
  "hmac_sign \<Rightarrow> key_result \<Rightarrow> 'c codec \<Rightarrow> 'c SessionRecord \<Rightarrow> 'c SessionRecord \<times> (SessionStoreError + PreparedSession)" where
  "prepare_record sign key cd r =
     (case key of
        Inl why \<Rightarrow> (r, Inl (StoreKeyUnavailable why))
      | Inr _ \<Rightarrow>
          (let r1 = r\<lparr>rec_extra_roots_mac := roots_tag sign key r\<rparr> in
           case sign_record sign key cd r1 of
             None \<Rightarrow> (r1, Inl Serialization)
           | Some tag \<Rightarrow>
               (let r2 = r1\<lparr>rec_record_mac := Some tag\<rparr> in
                case to_pretty cd r2 of
                  None \<Rightarrow> (r2, Inl Serialization)
                | Some json \<Rightarrow>
                    (r2, Inr \<lparr>ps_id = rec_id r2, ps_json = json, ps_entry_count = length (rec_entries r2)\<rparr>))))"

section \<open>The directory\<close>

datatype StoreNode = SessionFile bytes | NotAFile | FailingFile

type_synonym store_dir = "(rstr \<times> StoreNode) list"

definition file_of :: "rstr \<Rightarrow> rstr" where
  "file_of i = i @ ''.json''"

datatype WriteFault = NoFault | BeforeRename | AfterRename

definition write_atomic :: "WriteFault \<Rightarrow> rstr \<Rightarrow> bytes \<Rightarrow> store_dir \<Rightarrow> store_dir \<times> SessionStoreError option" where
  "write_atomic fault name contents dir =
     (case fault of
        BeforeRename \<Rightarrow> (dir, Some StoreIo)
      | AfterRename \<Rightarrow> (AList.update name (SessionFile contents) dir, Some StoreIo)
      | NoFault \<Rightarrow> (AList.update name (SessionFile contents) dir, None))"

definition save_prepared :: "WriteFault \<Rightarrow> PreparedSession \<Rightarrow> store_dir \<Rightarrow> store_dir \<times> SessionStoreError option" where
  "save_prepared fault ps dir =
     (case validate_session_id (ps_id ps) of
        Some e \<Rightarrow> (dir, Some e)
      | None \<Rightarrow>
          if MAX_SESSION_FILE_BYTES < length (ps_json ps)
          then (dir, Some (TooLarge (length (ps_json ps)) MAX_SESSION_FILE_BYTES))
          else if MAX_SESSION_ENTRIES < ps_entry_count ps
          then (dir, Some (TooManyEntries (ps_entry_count ps) MAX_SESSION_ENTRIES))
          else write_atomic fault (file_of (ps_id ps)) (ps_json ps) dir)"

definition save ::
  "hmac_sign \<Rightarrow> key_result \<Rightarrow> 'c codec \<Rightarrow> WriteFault \<Rightarrow> 'c SessionRecord \<Rightarrow> store_dir
    \<Rightarrow> 'c SessionRecord \<times> store_dir \<times> SessionStoreError option" where
  "save sign key cd fault r dir =
     (case prepare_record sign key cd r of
        (r', Inl e) \<Rightarrow> (r', dir, Some e)
      | (r', Inr ps) \<Rightarrow> (case save_prepared fault ps dir of (dir', e) \<Rightarrow> (r', dir', e)))"

text \<open>UTF-8, as \<^verbatim>\<open>read_to_string\<close> checks it.\<close>

definition continuation :: "8 word \<Rightarrow> bool" where
  "continuation b \<longleftrightarrow> 0x80 \<le> b \<and> b \<le> 0xBF"

fun valid_utf8 :: "bytes \<Rightarrow> bool" where
  "valid_utf8 [] = True"
| "valid_utf8 (a # bs) =
     (if a < 0x80 then valid_utf8 bs
      else case bs of
        [] \<Rightarrow> False
      | b # cs \<Rightarrow>
          if 0xC2 \<le> a \<and> a \<le> 0xDF then continuation b \<and> valid_utf8 cs
          else case cs of
            [] \<Rightarrow> False
          | c # ds \<Rightarrow>
              if 0xE0 \<le> a \<and> a \<le> 0xEF then
                continuation b \<and> (a = 0xE0 \<longrightarrow> 0xA0 \<le> b) \<and> (a = 0xED \<longrightarrow> b \<le> 0x9F) \<and> continuation c \<and> valid_utf8 ds
              else case ds of
                [] \<Rightarrow> False
              | d # es \<Rightarrow>
                  0xF0 \<le> a \<and> a \<le> 0xF4 \<and> continuation b \<and> (a = 0xF0 \<longrightarrow> 0x90 \<le> b) \<and> (a = 0xF4 \<longrightarrow> b \<le> 0x8F) \<and>
                  continuation c \<and> continuation d \<and> valid_utf8 es)"

definition read_file ::
  "hmac_verify \<Rightarrow> key_result \<Rightarrow> 'c codec \<Rightarrow> store_dir \<Rightarrow> rstr \<Rightarrow> SessionStoreError + 'c SessionRecord" where
  "read_file verify key cd dir i =
     (case map_of dir (file_of i) of
        None \<Rightarrow> Inl (SessionNotFound i)
      | Some NotAFile \<Rightarrow> Inl StoreIo
      | Some FailingFile \<Rightarrow> Inl StoreIo
      | Some (SessionFile contents) \<Rightarrow>
          (let raw = take (MAX_SESSION_FILE_BYTES + 1) contents in
           if \<not> valid_utf8 raw then Inl StoreIo
           else if MAX_SESSION_FILE_BYTES < length raw
           then Inl (TooLarge (MAX_SESSION_FILE_BYTES + 1) MAX_SESSION_FILE_BYTES)
           else case from_json cd raw of
                  None \<Rightarrow> Inl Serialization
                | Some r \<Rightarrow>
                    if MAX_SESSION_ENTRIES < length (rec_entries r)
                    then Inl (TooManyEntries (length (rec_entries r)) MAX_SESSION_ENTRIES)
                    else case key of
                           Inl why \<Rightarrow> Inl (StoreKeyUnavailable why)
                         | Inr _ \<Rightarrow> if verify_record verify key cd r then Inr r else Inl AuthenticationFailed))"

definition load ::
  "hmac_sign \<Rightarrow> hmac_verify \<Rightarrow> key_result \<Rightarrow> 'c codec \<Rightarrow> store_dir \<Rightarrow> rstr \<Rightarrow> SessionStoreError + 'c SessionRecord" where
  "load sign verify key cd dir i =
     (case validate_session_id i of
        Some e \<Rightarrow> Inl e
      | None \<Rightarrow>
          (case read_file verify key cd dir i of
             Inl e \<Rightarrow> Inl e
           | Inr r \<Rightarrow>
               if rec_id r \<noteq> i then
                 (let r1 = r\<lparr>rec_id := i\<rparr> in
                  case sign_record sign key cd r1 of
                    None \<Rightarrow> Inl Serialization
                  | Some tag \<Rightarrow> Inr (r1\<lparr>rec_record_mac := Some tag\<rparr>))
               else Inr r))"

definition delete_session :: "rstr \<Rightarrow> bool \<Rightarrow> store_dir \<Rightarrow> store_dir \<times> SessionStoreError option" where
  "delete_session i io_ok dir =
     (case validate_session_id i of
        Some e \<Rightarrow> (dir, Some e)
      | None \<Rightarrow>
          (case map_of dir (file_of i) of
             Some (SessionFile _) \<Rightarrow> if io_ok then (AList.delete (file_of i) dir, None) else (dir, Some StoreIo)
           | Some FailingFile \<Rightarrow> if io_ok then (AList.delete (file_of i) dir, None) else (dir, Some StoreIo)
           | _ \<Rightarrow> (dir, Some (SessionNotFound i))))"

section \<open>The list of sessions\<close>

definition file_stem :: "rstr \<Rightarrow> rstr option" where
  "file_stem name =
     (if suffix ''.json'' name \<and> length ''.json'' < length name
      then Some (take (length name - length ''.json'') name) else None)"

definition oldest_index :: "'c SessionRecord list \<Rightarrow> nat option" where
  "oldest_index rs =
     (if rs = [] then None
      else position (\<lambda>r. rec_updated_at_ms r = Min (rec_updated_at_ms ` set rs)) rs)"

definition keep_newest :: "'c SessionRecord \<Rightarrow> 'c SessionRecord list \<Rightarrow> 'c SessionRecord list" where
  "keep_newest r target =
     (if length target < MAX_SESSION_LIST then target @ [r]
      else case oldest_index target of
             None \<Rightarrow> target
           | Some i \<Rightarrow>
               if rec_updated_at_ms (target ! i) < rec_updated_at_ms r then target[i := r] else target)"

definition diagnose :: "rstr \<Rightarrow> rstr list \<Rightarrow> rstr list" where
  "diagnose line diagnostics =
     (if length diagnostics < MAX_SESSION_DIAGNOSTICS then diagnostics @ [line]
      else if length diagnostics = MAX_SESSION_DIAGNOSTICS
      then diagnostics @ [''additional session diagnostics omitted'']
      else diagnostics)"

text \<open>The scan. An entry the system failed to read is \<open>None\<close>; \<open>cancelled n\<close> is what the n-th look at the
  cancellation token says; a diagnostic is the name of the file it is about.\<close>

fun scan ::
  "(rstr \<Rightarrow> SessionStoreError + 'c SessionRecord) \<Rightarrow> (nat \<Rightarrow> bool) \<Rightarrow> nat \<Rightarrow> rstr option list
    \<Rightarrow> 'c SessionRecord list \<Rightarrow> 'c SessionRecord list \<Rightarrow> rstr list
    \<Rightarrow> (SessionStoreError + 'c SessionRecord list \<times> 'c SessionRecord list \<times> nat) \<times> rstr list" where
  "scan ld cancelled n [] resumable vacant diags = (Inr (resumable, vacant, n), diags)"
| "scan ld cancelled n (None # listing) resumable vacant diags =
     (if cancelled n then (Inl Cancelled, diags) else (Inl StoreIo, diags))"
| "scan ld cancelled n (Some name # listing) resumable vacant diags =
     (if cancelled n then (Inl Cancelled, diags)
      else case file_stem name of
        None \<Rightarrow> scan ld cancelled (n + 1) listing resumable vacant diags
      | Some stem \<Rightarrow>
          if validate_session_id stem \<noteq> None then scan ld cancelled (n + 1) listing resumable vacant diags
          else if cancelled (n + 1) then (Inl Cancelled, diags)
          else case ld stem of
                 Inr r \<Rightarrow>
                   if has_user_entry r
                   then scan ld cancelled (n + 2) listing (keep_newest r resumable) vacant diags
                   else scan ld cancelled (n + 2) listing resumable (keep_newest r vacant) diags
               | Inl _ \<Rightarrow> scan ld cancelled (n + 2) listing resumable vacant (diagnose name diags))"

definition newest_first :: "'c SessionRecord list \<Rightarrow> 'c SessionRecord list" where
  "newest_first rs = sort_key (\<lambda>r. - int (rec_updated_at_ms r)) rs"

definition list_cancellable ::
  "(rstr \<Rightarrow> SessionStoreError + 'c SessionRecord) \<Rightarrow> (nat \<Rightarrow> bool) \<Rightarrow> rstr option list option \<Rightarrow> rstr list
    \<Rightarrow> (SessionStoreError + 'c SessionRecord list) \<times> rstr list" where
  "list_cancellable ld cancelled listing diags =
     (if cancelled 0 then (Inl Cancelled, diags)
      else case listing of None \<Rightarrow> (Inl StoreIo, diags) | Some es \<Rightarrow>
      case scan ld cancelled 1 es [] [] diags of
        (Inl e, diags') \<Rightarrow> (Inl e, diags')
      | (Inr (resumable, vacant, n), diags') \<Rightarrow>
          if cancelled n then (Inl Cancelled, diags')
          else
            (let resumable' = take MAX_SESSION_LIST (newest_first resumable);
                 vacant' = take (MAX_SESSION_LIST - length resumable') (newest_first vacant)
             in (Inr (newest_first (resumable' @ vacant')), diags')))"

section \<open>Resuming\<close>

datatype ResumeWarning =
    RecordedElsewhere
  | GrantsUntagged nat
  | GrantGone rstr
  | GrantRefused path GrantFloor
  | GrantRedirected rstr path

definition same_workspace :: "file_system \<Rightarrow> location \<Rightarrow> rstr \<Rightarrow> rstr \<Rightarrow> bool" where
  "same_workspace fs cwd recorded caller =
     (case (canonicalize fs cwd (path_of recorded), canonicalize fs cwd (path_of caller)) of
        (Inr a, Inr b) \<Rightarrow> a = b
      | _ \<Rightarrow> False)"

definition keep_grant ::
  "file_system \<Rightarrow> location \<Rightarrow> path option \<Rightarrow> path option \<Rightarrow> rstr \<Rightarrow> rstr option \<times> ResumeWarning list" where
  "keep_grant fs cwd home primary root =
     (case canonicalize fs cwd (path_of root) of
        Inl _ \<Rightarrow> (None, [GrantGone root])
      | Inr canonical \<Rightarrow>
          if \<not> path_is_dir fs cwd canonical then (None, [GrantGone root])
          else case refuse_as_unattended_root fs cwd home canonical of
                 Some floor \<Rightarrow> (None, [GrantRefused canonical floor])
               | None \<Rightarrow>
                   if Some canonical = primary then (None, [])
                   else if canonical \<noteq> path_of root then (None, [GrantRedirected root canonical])
                   else (Some (path_text canonical), []))"

definition merge_extra :: "path option \<Rightarrow> rstr list \<Rightarrow> rstr \<Rightarrow> rstr list" where
  "merge_extra primary roots extra =
     (if primary = Some (path_of extra) then roots
      else if path_of extra \<in> path_of ` set roots then roots
      else roots @ [extra])"

definition restore_grants ::
  "hmac_verify \<Rightarrow> key_result \<Rightarrow> 'c codec \<Rightarrow> file_system \<Rightarrow> location \<Rightarrow> path option \<Rightarrow> 'c SessionRecord \<Rightarrow> rstr
    \<Rightarrow> rstr list \<Rightarrow> ('c SessionRecord \<times> ResumeWarning list) option" where
  "restore_grants verify key cd fs cwd home r caller cli_extras =
     (if \<not> verify_record verify key cd r then None
      else
        (let same = same_workspace fs cwd (rec_workspace r) caller;
             authentic = (same \<and> verify_roots verify key (bytes_of (rec_id r)) (bytes_of (rec_workspace r))
                            (map bytes_of (rec_extra_roots r)) (rec_extra_roots_mac r));
             recorded = (if \<not> authentic \<and> rec_extra_roots r \<noteq> [] then [] else rec_extra_roots r);
             primary = (case canonicalize fs cwd (path_of caller) of Inr p \<Rightarrow> Some p | Inl _ \<Rightarrow> None);
             kept = map (keep_grant fs cwd home primary) recorded;
             roots = foldl (merge_extra primary) (List.map_filter fst kept) cli_extras
         in Some (r\<lparr>rec_workspace := caller, rec_extra_roots := roots\<rparr>,
              (if same then [] else [RecordedElsewhere]) @
              (if \<not> authentic \<and> rec_extra_roots r \<noteq> [] then [GrantsUntagged (length (rec_extra_roots r))] else []) @
              concat (map snd kept))))"

section \<open>Saving and loading\<close>

lemma validate_ok_file_stem: "file_stem (file_of i) = (if i = [] then None else Some i)"
  by (cases i) (simp_all add: file_stem_def file_of_def suffixI)

definition codec_roundtrip :: "'c codec \<Rightarrow> bool" where
  "codec_roundtrip cd \<longleftrightarrow>
     (\<forall>r json. to_pretty cd r = Some json \<longrightarrow> from_json cd json = Some r \<and> valid_utf8 json)"

lemma prepare_recordD:
  assumes "prepare_record sign (Inr k) cd r = (r', Inr ps)"
  shows "\<exists>m. record_message cd r' = Some m \<and> rec_record_mac r' = Some (to_hex (sign k m)) \<and>
    to_pretty cd r' = Some (ps_json ps) \<and> ps_id ps = rec_id r \<and> rec_id r' = rec_id r \<and>
    ps_entry_count ps = length (rec_entries r) \<and> rec_entries r' = rec_entries r \<and>
    rec_extra_roots_mac r' = roots_tag sign (Inr k) r \<and>
    r' = r\<lparr>rec_extra_roots_mac := rec_extra_roots_mac r', rec_record_mac := rec_record_mac r'\<rparr>"
  using assms by (auto simp: prepare_record_def Let_def sign_record_def record_message_def split: option.splits)

text \<open>C26 (roundtrip). What is saved is what is loaded. When a save succeeds, loading that session from the
  directory it left gives back the record as it was sealed, with all its entries, grants and totals,
  and its tags verify; every other session's file is as it was.\<close>

theorem save_load_roundtrip:
  assumes "verify_is_sign sign verify" and "codec_roundtrip cd"
    and "save sign key cd fault r dir = (r', dir', None)"
  shows "load sign verify key cd dir' (rec_id r) = Inr r' \<and>
    r' = r\<lparr>rec_extra_roots_mac := rec_extra_roots_mac r', rec_record_mac := rec_record_mac r'\<rparr> \<and>
    verify_roots verify key (bytes_of (rec_id r)) (bytes_of (rec_workspace r)) (map bytes_of (rec_extra_roots r))
      (rec_extra_roots_mac r') \<and>
    (\<forall>name. name \<noteq> file_of (rec_id r) \<longrightarrow> map_of dir' name = map_of dir name)"
proof -
  from assms(3) obtain ps where p: "prepare_record sign key cd r = (r', Inr ps)" and w: "save_prepared fault ps dir = (dir', None)"
    by (auto simp: save_def split: prod.splits sum.splits)
  from p obtain k where k: "key = Inr k" by (cases key) (auto simp: prepare_record_def)
  from prepare_recordD [OF p [unfolded k]] obtain m where
    m: "record_message cd r' = Some m" "rec_record_mac r' = Some (to_hex (sign k m))" "to_pretty cd r' = Some (ps_json ps)"
      "ps_id ps = rec_id r" "rec_id r' = rec_id r" "ps_entry_count ps = length (rec_entries r)"
      "rec_entries r' = rec_entries r" "rec_extra_roots_mac r' = roots_tag sign (Inr k) r"
      "r' = r\<lparr>rec_extra_roots_mac := rec_extra_roots_mac r', rec_record_mac := rec_record_mac r'\<rparr>" by blast
  from w m(4,6) have v: "validate_session_id (rec_id r) = None" "length (ps_json ps) \<le> MAX_SESSION_FILE_BYTES"
    "length (rec_entries r) \<le> MAX_SESSION_ENTRIES" "dir' = AList.update (file_of (rec_id r)) (SessionFile (ps_json ps)) dir"
    by (auto simp: save_prepared_def write_atomic_def split: option.splits if_splits WriteFault.splits)
  have stored: "map_of dir' (file_of (rec_id r)) = Some (SessionFile (ps_json ps))"
    by (simp add: v(4) update_conv')
  have json: "from_json cd (ps_json ps) = Some r'" "valid_utf8 (ps_json ps)"
    using assms(2) m(3) by (auto simp: codec_roundtrip_def)
  have vs: "verify k x t \<longleftrightarrow> t = sign k x" for x t using assms(1) by (simp add: verify_is_sign_def)
  have "verify_record verify key cd r'"
    using m(1,2) by (simp add: verify_record_def k from_hex_to_hex vs)
  then have "load sign verify key cd dir' (rec_id r) = Inr r'"
    using v json stored m(5,7) by (simp add: load_def read_file_def k Let_def)
  moreover have "verify_roots verify key (bytes_of (rec_id r)) (bytes_of (rec_workspace r))
      (map bytes_of (rec_extra_roots r)) (rec_extra_roots_mac r')"
    using m(8) by (simp add: verify_roots_def roots_tag_def sign_roots_def k from_hex_to_hex vs)
  moreover have "map_of dir' name = map_of dir name" if "name \<noteq> file_of (rec_id r)" for name
    using that by (simp add: v(4) update_conv')
  ultimately show ?thesis using m(9) by simp
qed


text \<open>A host key, a keyed hash and an encoder for one saved session.\<close>

definition demo_sign :: hmac_sign where "demo_sign k m = k @ m"
definition demo_verify :: hmac_verify where "demo_verify k m t \<longleftrightarrow> t = k @ m"
definition demo_key :: bytes where "demo_key = replicate 32 7"

definition demo_record :: "unit SessionRecord" where
  "demo_record = (new_record () ''s1'' 5 ''/w'' ''prompt'')\<lparr>rec_extra_roots := [''/x'']\<rparr>"

definition demo_plain_codec :: "unit codec" where
  "demo_plain_codec = \<lparr>to_vec = \<lambda>r. Some (bytes_of (rec_id r)), to_pretty = \<lambda>_. None, from_json = \<lambda>_. None\<rparr>"

definition demo_sealed :: "unit SessionRecord" where
  "demo_sealed = fst (prepare_record demo_sign (Inr demo_key) demo_plain_codec demo_record)"

definition demo_codec :: "unit codec" where
  "demo_codec = demo_plain_codec\<lparr>
     to_pretty := \<lambda>r. if r = demo_sealed then Some (bytes_of ''{}'') else None,
     from_json := \<lambda>b. if b = bytes_of ''{}'' then Some demo_sealed else None\<rparr>"

lemma demo_hmac: "verify_is_sign demo_sign demo_verify"
  by (simp add: verify_is_sign_def demo_sign_def demo_verify_def)

lemma demo_codec_roundtrip: "codec_roundtrip demo_codec"
proof -
  have "valid_utf8 (bytes_of ''{}'')" by code_simp
  then show ?thesis by (auto simp: codec_roundtrip_def demo_codec_def split: if_splits)
qed

lemma demo_prepare: "prepare_record demo_sign (Inr demo_key) demo_codec demo_record =
    (demo_sealed, Inr \<lparr>ps_id = ''s1'', ps_json = bytes_of ''{}'', ps_entry_count = 1\<rparr>)"
proof -
  have "fst (prepare_record demo_sign (Inr demo_key) demo_codec demo_record) = demo_sealed"
    by (simp add: demo_sealed_def prepare_record_def sign_record_def record_message_def demo_codec_def
        demo_plain_codec_def Let_def)
  moreover have "rec_id demo_sealed = ''s1''" "length (rec_entries demo_sealed) = 1"
    by (simp_all add: demo_sealed_def prepare_record_def sign_record_def record_message_def demo_plain_codec_def
        demo_record_def new_record_def Let_def)
  ultimately show ?thesis
    by (simp add: prepare_record_def sign_record_def record_message_def demo_codec_def demo_plain_codec_def Let_def
        demo_record_def new_record_def split: option.splits if_splits)
qed

lemma demo_save: "save demo_sign (Inr demo_key) demo_codec NoFault demo_record [] =
    (demo_sealed, [(''s1.json'', SessionFile (bytes_of ''{}''))], None)"
proof -
  have "save_prepared NoFault \<lparr>ps_id = ''s1'', ps_json = bytes_of ''{}'', ps_entry_count = 1\<rparr> [] =
      ([(''s1.json'', SessionFile (bytes_of ''{}''))], None)"
  proof -
    have "validate_session_id ''s1'' = None" by code_simp
    then show ?thesis
      by (simp add: save_prepared_def write_atomic_def bytes_of_def file_of_def MAX_SESSION_FILE_BYTES_def MAX_SESSION_ENTRIES_def)
  qed
  then show ?thesis by (simp add: save_def demo_prepare)
qed

theorem save_load_roundtrip_witness:
  "load demo_sign demo_verify (Inr demo_key) demo_codec [(''s1.json'', SessionFile (bytes_of ''{}''))] ''s1'' = Inr demo_sealed \<and>
   rec_extra_roots demo_sealed = [''/x'']"
proof -
  note saved = save_load_roundtrip [OF demo_hmac demo_codec_roundtrip demo_save]
  moreover have "rec_id demo_record = ''s1''" "rec_extra_roots demo_record = [''/x'']"
    by (simp_all add: demo_record_def new_record_def)
  moreover from saved have "rec_extra_roots demo_sealed = rec_extra_roots demo_record"
    by (metis SessionRecord.select_convs(3) SessionRecord.surjective SessionRecord.update_convs(4,5))
  ultimately show ?thesis by simp
qed


section \<open>The newest sessions\<close>

definition newest_kept :: "'c SessionRecord set \<Rightarrow> 'c SessionRecord list \<Rightarrow> bool" where
  "newest_kept seen target \<longleftrightarrow>
     set target \<subseteq> seen \<and> length target \<le> MAX_SESSION_LIST \<and>
     (\<forall>r \<in> seen - set target. length target = MAX_SESSION_LIST \<and>
        (\<forall>x \<in> set target. rec_updated_at_ms r \<le> rec_updated_at_ms x))"

lemma newest_kept_empty: "newest_kept {} []"
  by (simp add: newest_kept_def)

lemma oldest_index_facts:
  assumes "rs \<noteq> []"
  shows "\<exists>i < length rs. oldest_index rs = Some i \<and> (\<forall>x \<in> set rs. rec_updated_at_ms (rs ! i) \<le> rec_updated_at_ms x)"
proof -
  let ?m = "Min (rec_updated_at_ms ` set rs)"
  have "?m \<in> rec_updated_at_ms ` set rs" using assms by (intro Min_in) auto
  then obtain r where "r \<in> set rs" "rec_updated_at_ms r = ?m" by auto
  then obtain i where i: "position (\<lambda>r. rec_updated_at_ms r = ?m) rs = Some i"
    using position_NoneD [of "\<lambda>r. rec_updated_at_ms r = ?m" rs] by (cases "position (\<lambda>r. rec_updated_at_ms r = ?m) rs") auto
  from position_SomeD [OF i] have "i < length rs" "rec_updated_at_ms (rs ! i) = ?m" by auto
  with i assms show ?thesis by (auto simp: oldest_index_def)
qed

lemma keep_newest_kept:
  assumes kept: "newest_kept seen target"
  shows "newest_kept (insert r seen) (keep_newest r target)"
proof (cases "length target < MAX_SESSION_LIST")
  case True
  with kept show ?thesis by (auto simp: newest_kept_def keep_newest_def)
next
  case False
  with kept have full: "length target = MAX_SESSION_LIST" by (simp add: newest_kept_def)
  then have "target \<noteq> []" by (auto simp: MAX_SESSION_LIST_def)
  from oldest_index_facts [OF this] obtain i where
    i: "i < length target" "oldest_index target = Some i" "\<forall>x \<in> set target. rec_updated_at_ms (target ! i) \<le> rec_updated_at_ms x"
    by blast
  show ?thesis
  proof (cases "rec_updated_at_ms (target ! i) < rec_updated_at_ms r")
    case newer: True
    have sub: "set (target[i := r]) \<subseteq> insert r (set target)" by (rule set_update_subset_insert)
    have old: "x \<in> insert (target ! i) (set (target[i := r]))" if "x \<in> set target" for x
      using that i(1) by (metis in_set_conv_nth insertI1 insertI2 length_list_update nth_list_update_neq)
    have "rec_updated_at_ms d \<le> rec_updated_at_ms x"
      if d: "d \<in> insert r seen" "d \<notin> set (target[i := r])" and x: "x \<in> set (target[i := r])" for d x
    proof -
      have "r \<in> set (target[i := r])" using i(1) by (simp add: set_update_memI)
      with d have "d \<in> seen" by auto
      have dx: "rec_updated_at_ms d \<le> rec_updated_at_ms y" if "y \<in> set target" for y
      proof (cases "d \<in> set target")
        case True
        with old d(2) have "d = target ! i" by auto
        with i(3) that show ?thesis by simp
      next
        case False
        with kept \<open>d \<in> seen\<close> that show ?thesis by (simp add: newest_kept_def)
      qed
      moreover have "rec_updated_at_ms d \<le> rec_updated_at_ms r"
        using dx [of "target ! i"] i(1) newer by simp
      ultimately show ?thesis using x sub by auto
    qed
    with kept full sub newer False i show ?thesis by (auto simp: newest_kept_def keep_newest_def)
  next
    case older: False
    with kept full i False show ?thesis
      by (force simp: newest_kept_def keep_newest_def dest: order_trans [OF leI])
  qed
qed

definition loaded :: "(rstr \<Rightarrow> SessionStoreError + 'c SessionRecord) \<Rightarrow> rstr option list \<Rightarrow> 'c SessionRecord set" where
  "loaded ld listing =
     {r. \<exists>name stem. Some name \<in> set listing \<and> file_stem name = Some stem \<and> validate_session_id stem = None \<and> ld stem = Inr r}"

lemma loaded_Nil [simp]: "loaded ld [] = {}"
  by (simp add: loaded_def)

lemma loaded_Cons [simp]:
  "loaded ld (Some name # listing) =
     (case file_stem name of
        None \<Rightarrow> loaded ld listing
      | Some stem \<Rightarrow>
          if validate_session_id stem \<noteq> None then loaded ld listing
          else case ld stem of Inl _ \<Rightarrow> loaded ld listing | Inr r \<Rightarrow> insert r (loaded ld listing))"
  by (auto simp: loaded_def split: option.splits sum.splits)

definition with_user :: "'c SessionRecord set \<Rightarrow> 'c SessionRecord set" where
  "with_user R = {r \<in> R. has_user_entry r}"

definition without_user :: "'c SessionRecord set \<Rightarrow> 'c SessionRecord set" where
  "without_user R = {r \<in> R. \<not> has_user_entry r}"

lemma with_user_insert [simp]:
  "with_user (insert r R) = (if has_user_entry r then insert r (with_user R) else with_user R)"
  "without_user (insert r R) = (if has_user_entry r then without_user R else insert r (without_user R))"
  by (auto simp: with_user_def without_user_def)

lemma with_user_empty [simp]: "with_user {} = {}" "without_user {} = {}"
  by (simp_all add: with_user_def without_user_def)

lemma scan_kept:
  assumes "scan ld cancelled n listing res vac ds = (Inr (res', vac', n'), ds')"
    and "newest_kept S res" and "newest_kept V vac"
  shows "newest_kept (with_user (loaded ld listing) \<union> S) res' \<and> newest_kept (without_user (loaded ld listing) \<union> V) vac'"
  using assms
proof (induction ld cancelled n listing res vac ds arbitrary: S V rule: scan.induct)
  case (3 ld cancelled n name listing resumable vacant diags)
  from "3.prems"(1) have going: "\<not> cancelled n" by (auto split: if_splits)
  show ?case
  proof (cases "file_stem name")
    case None
    with "3.IH"(1) [OF going None] "3.prems" going show ?thesis by simp
  next
    case (Some stem)
    show ?thesis
    proof (cases "validate_session_id stem = None")
      case bad: False
      with "3.IH"(2) [OF going Some bad] "3.prems" going Some show ?thesis by simp
    next
      case ok: True
      then have ok': "\<not> validate_session_id stem \<noteq> None" by simp
      from "3.prems"(1) Some going ok have going': "\<not> cancelled (n + 1)" by (auto split: if_splits)
      show ?thesis
      proof (cases "ld stem")
        case (Inl e)
        with "3.IH"(3) [OF going Some ok' going' Inl] "3.prems" going going' Some ok show ?thesis by simp
      next
        case (Inr r)
        show ?thesis
        proof (cases "has_user_entry r")
          case True
          from "3.IH"(4) [OF going Some ok' going' Inr True _ keep_newest_kept [OF "3.prems"(2)] "3.prems"(3)]
            "3.prems"(1) going going' Some ok Inr True show ?thesis by simp
        next
          case False
          from "3.IH"(5) [OF going Some ok' going' Inr False _ "3.prems"(2) keep_newest_kept [OF "3.prems"(3)]]
            "3.prems"(1) going going' Some ok Inr False show ?thesis by simp
        qed
      qed
    qed
  qed
qed (simp_all split: if_splits)

lemma scan_error:
  "scan ld cancelled n listing res vac ds = (Inl e, ds') \<Longrightarrow>
     (e = Cancelled \<and> (\<exists>m. cancelled m)) \<or> (e = StoreIo \<and> None \<in> set listing)"
  by (induction ld cancelled n listing res vac ds rule: scan.induct)
    (auto split: if_splits option.splits sum.splits)

lemma diagnose_bound: "length ds \<le> MAX_SESSION_DIAGNOSTICS + 1 \<Longrightarrow> length (diagnose name ds) \<le> MAX_SESSION_DIAGNOSTICS + 1"
  by (simp add: diagnose_def)

lemma scan_diagnostics:
  "length ds \<le> MAX_SESSION_DIAGNOSTICS + 1 \<Longrightarrow>
     length (snd (scan ld cancelled n listing res vac ds)) \<le> MAX_SESSION_DIAGNOSTICS + 1"
  by (induction ld cancelled n listing res vac ds rule: scan.induct)
    (auto simp: diagnose_bound [simplified] split: option.splits sum.splits)

lemma newest_first_facts [simp]:
  "set (newest_first rs) = set rs" "length (newest_first rs) = length rs"
  "sorted_wrt (\<lambda>a b. rec_updated_at_ms b \<le> rec_updated_at_ms a) (newest_first rs)"
proof -
  have "sorted (map (\<lambda>r. - int (rec_updated_at_ms r)) (newest_first rs))" by (simp add: newest_first_def)
  then show "sorted_wrt (\<lambda>a b. rec_updated_at_ms b \<le> rec_updated_at_ms a) (newest_first rs)"
    by (simp add: sorted_map)
qed (simp_all add: newest_first_def)

text \<open>The list of sessions is bounded, whole and newest first. A scan that finishes gives at most
  thirty-two sessions, every one a record that loaded from the directory, newest first; a session is
  left out only when the list is full, and one the user has written in only when the list is full of
  sessions the user has written in that are at least as new. A scan that does not finish gives no
  list, only because it was cancelled or the directory could not be read. At most thirty-three
  diagnostics are kept either way.\<close>

theorem list_cancellable_window:
  "case list_cancellable ld cancelled listing [] of (result, diags) \<Rightarrow>
     length diags \<le> MAX_SESSION_DIAGNOSTICS + 1 \<and>
     (case result of
        Inl e \<Rightarrow>
          if e = Cancelled then \<exists>n. cancelled n
          else e = StoreIo \<and> (case listing of None \<Rightarrow> True | Some es \<Rightarrow> None \<in> set es)
      | Inr rs \<Rightarrow>
          length rs \<le> MAX_SESSION_LIST \<and>
          sorted_wrt (\<lambda>a b. rec_updated_at_ms b \<le> rec_updated_at_ms a) rs \<and>
          set rs \<subseteq> loaded ld (the listing) \<and>
          (\<forall>r \<in> loaded ld (the listing) - set rs.
             length rs = MAX_SESSION_LIST \<and>
             (has_user_entry r \<longrightarrow> (\<forall>x \<in> set rs. has_user_entry x \<and> rec_updated_at_ms r \<le> rec_updated_at_ms x))))"
proof (cases "cancelled 0 \<or> listing = None")
  case True
  then show ?thesis by (auto simp: list_cancellable_def)
next
  case False
  then obtain es where es: "listing = Some es" "\<not> cancelled 0" by auto
  obtain outcome ds where sc: "scan ld cancelled 1 es [] [] [] = (outcome, ds)" by fastforce
  from scan_diagnostics [of "[]" ld cancelled 1 es "[]" "[]"] sc have dl: "length ds \<le> MAX_SESSION_DIAGNOSTICS + 1" by simp
  show ?thesis
  proof (cases outcome)
    case (Inl e)
    with scan_error [of ld cancelled 1 es "[]" "[]" "[]" e ds] sc es dl show ?thesis by (auto simp: list_cancellable_def)
  next
    case (Inr found)
    obtain res vac n where f: "found = (res, vac, n)" by (cases found)
    let ?L = "loaded ld es"
    from scan_kept [OF sc [unfolded Inr f] newest_kept_empty newest_kept_empty]
    have kept: "newest_kept (with_user ?L) res" "newest_kept (without_user ?L) vac" by simp_all
    let ?vac = "take (MAX_SESSION_LIST - length res) (newest_first vac)"
    have lr: "length res \<le> MAX_SESSION_LIST" using kept(1) by (simp add: newest_kept_def)
    have vset: "set ?vac \<subseteq> set vac" using set_take_subset [of _ "newest_first vac"] by simp
    let ?rs = "newest_first (newest_first res @ ?vac)"
    have rset: "set ?rs = set res \<union> set ?vac" by simp
    have "set ?rs \<subseteq> ?L"
      using kept vset by (auto simp: newest_kept_def with_user_def without_user_def)
    moreover have "length ?rs = MAX_SESSION_LIST \<and>
        (has_user_entry r \<longrightarrow> (\<forall>x \<in> set ?rs. has_user_entry x \<and> rec_updated_at_ms r \<le> rec_updated_at_ms x))"
      if r: "r \<in> ?L" "r \<notin> set ?rs" for r
    proof (cases "has_user_entry r")
      case True
      with r kept(1) have "length res = MAX_SESSION_LIST" "\<forall>x \<in> set res. has_user_entry x \<and> rec_updated_at_ms r \<le> rec_updated_at_ms x"
        by (auto simp: newest_kept_def with_user_def)
      then show ?thesis by simp
    next
      case False
      have "MAX_SESSION_LIST - length res \<le> length vac"
      proof (rule ccontr)
        assume "\<not> ?thesis"
        then have "?vac = newest_first vac" and short: "length vac < MAX_SESSION_LIST" by simp_all
        with rset have "set ?rs = set res \<union> set vac" by simp
        with r False kept(2) short show False by (auto simp: newest_kept_def without_user_def)
      qed
      with lr False show ?thesis by simp
    qed
    moreover have "list_cancellable ld cancelled listing [] = (if cancelled n then (Inl Cancelled, ds) else (Inr ?rs, ds))"
      using es sc Inr f lr by (simp add: list_cancellable_def Let_def)
    ultimately show ?thesis using dl lr es(1) by (auto simp del: set_append)
  qed
qed

theorem list_cancellable_window_witness:
  "list_cancellable (\<lambda>stem. if stem = ''s1'' then Inr demo_record else Inl AuthenticationFailed) (\<lambda>_. False)
     (Some [Some ''s1.json'', Some ''s2.json'']) [] = (Inr [demo_record], [''s2.json'']) \<and>
   length [demo_record] \<le> MAX_SESSION_LIST"
proof -
  let ?ld = "\<lambda>stem. if stem = ''s1'' then Inr demo_record else Inl AuthenticationFailed"
  have "list_cancellable ?ld (\<lambda>_. False) (Some [Some ''s1.json'', Some ''s2.json'']) [] =
      (Inr [demo_record], [''s2.json''])" by code_simp
  with list_cancellable_window [where ld = ?ld and cancelled = "\<lambda>_. False"
      and listing = "Some [Some ''s1.json'', Some ''s2.json'']"] show ?thesis by simp
qed

section \<open>The grants of a resumed session\<close>

lemma merge_extra_subset: "set (foldl (merge_extra primary) roots extras) \<subseteq> set roots \<union> set extras"
proof (induction extras arbitrary: roots)
  case (Cons e extras)
  have "set (merge_extra primary roots e) \<subseteq> insert e (set roots)" by (auto simp: merge_extra_def)
  with Cons [of "merge_extra primary roots e"] show ?case by auto
qed simp

lemma keep_grant_keptD:
  assumes "fst (keep_grant fs cwd home primary recorded) = Some root"
  shows "root = path_text (path_of recorded) \<and> canonicalize fs cwd (path_of recorded) = Inr (path_of recorded) \<and>
    path_is_dir fs cwd (path_of recorded) \<and> refuse_as_unattended_root fs cwd home (path_of recorded) = None \<and>
    primary \<noteq> Some (path_of recorded)"
  using assms by (auto simp: keep_grant_def split: sum.splits if_splits option.splits)

text \<open>C27 (safety). A resumed session gets back only the directories the user granted to it. Every extra root of
  the session that starts was named on the command line, or was recorded in the session, in this same
  workspace, under a tag of this host over exactly this session's id, workspace and roots, and now
  resolves to itself, is a directory, is not the workspace, and passes the floor that keeps the home
  directory, the file system root and credential stores out of an unattended boundary.\<close>

theorem resumed_grants_authentic:
  assumes launch: "restore_grants verify key cd fs cwd home r caller cli_extras = Some (r', warnings)"
    and root: "root \<in> set (rec_extra_roots r')"
  shows "root \<in> set cli_extras \<or>
    (\<exists>recorded \<in> set (rec_extra_roots r).
       root = path_text (path_of recorded) \<and> verify_record verify key cd r \<and>
       same_workspace fs cwd (rec_workspace r) caller \<and>
       verify_roots verify key (bytes_of (rec_id r)) (bytes_of (rec_workspace r)) (map bytes_of (rec_extra_roots r))
         (rec_extra_roots_mac r) \<and>
       canonicalize fs cwd (path_of recorded) = Inr (path_of recorded) \<and> path_is_dir fs cwd (path_of recorded) \<and>
       refuse_as_unattended_root fs cwd home (path_of recorded) = None \<and>
       canonicalize fs cwd (path_of caller) \<noteq> Inr (path_of recorded))"
proof -
  define same where "same = same_workspace fs cwd (rec_workspace r) caller"
  define authentic where "authentic = (same \<and> verify_roots verify key (bytes_of (rec_id r)) (bytes_of (rec_workspace r))
    (map bytes_of (rec_extra_roots r)) (rec_extra_roots_mac r))"
  define recorded where "recorded = (if \<not> authentic \<and> rec_extra_roots r \<noteq> [] then [] else rec_extra_roots r)"
  define primary where "primary = (case canonicalize fs cwd (path_of caller) of Inr p \<Rightarrow> Some p | Inl _ \<Rightarrow> None)"
  have v: "verify_record verify key cd r" using launch by (auto simp: restore_grants_def split: if_splits)
  have "rec_extra_roots r' =
      foldl (merge_extra primary) (List.map_filter fst (map (keep_grant fs cwd home primary) recorded)) cli_extras"
    using launch v by (auto simp: restore_grants_def Let_def recorded_def authentic_def same_def primary_def)
  with root merge_extra_subset [of primary _ cli_extras]
  have "root \<in> set cli_extras \<or> root \<in> set (List.map_filter fst (map (keep_grant fs cwd home primary) recorded))" by auto
  then show ?thesis
  proof
    assume "root \<in> set (List.map_filter fst (map (keep_grant fs cwd home primary) recorded))"
    then obtain d where d: "d \<in> set recorded" "fst (keep_grant fs cwd home primary d) = Some root"
      by (force simp: List.map_filter_def)
    then have "authentic" "d \<in> set (rec_extra_roots r)" by (auto simp: recorded_def split: if_splits)
    with keep_grant_keptD [OF d(2)] v show ?thesis
      by (auto simp: authentic_def same_def primary_def split: sum.splits)
  qed simp
qed

definition demo_granted :: "unit SessionRecord" where
  "demo_granted = fst (prepare_record demo_sign (Inr demo_key) demo_plain_codec
     ((new_record () ''s1'' 5 ''/ws'' ''prompt'')\<lparr>rec_extra_roots := [''/lib'']\<rparr>))"

text \<open>The grant comes back to the session it was signed for, and not to a record with another root written in.\<close>

theorem resumed_grants_authentic_witness:
  "let launch = (\<lambda>r. map_option (rec_extra_roots \<circ> fst)
        (restore_grants demo_verify (Inr demo_key) demo_plain_codec sample_disk [] (Some (canonical_path [''home''])) r ''/ws'' []))
   in launch demo_granted = Some [''/lib''] \<and>
      launch (demo_granted\<lparr>rec_extra_roots := [''/src'']\<rparr>) = Some [] \<and>
      canonicalize sample_disk [] (path_of ''/lib'') = Inr (path_of ''/lib'')"
proof -
  let ?l = "\<lambda>r. restore_grants demo_verify (Inr demo_key) demo_plain_codec sample_disk [] (Some (canonical_path [''home''])) r ''/ws'' []"
  have e: "map_option (rec_extra_roots \<circ> fst) (?l demo_granted) = Some [''/lib'']"
    "map_option (rec_extra_roots \<circ> fst) (?l (demo_granted\<lparr>rec_extra_roots := [''/src'']\<rparr>)) = Some []"
    "rec_extra_roots demo_granted = [''/lib'']"
    by code_simp+
  then obtain r' ws where "?l demo_granted = Some (r', ws)" "''/lib'' \<in> set (rec_extra_roots r')" by auto
  from resumed_grants_authentic [OF this] e show ?thesis by (simp add: Let_def)
qed

end
