(* ===== verification/Approval_Gate.thy ===== *)
theory Approval_Gate
  imports Approval_Classifier Permission_Mode
begin

text \<open>
  Who answers a gated call, \<^verbatim>\<open>runtime/approval_flow.rs\<close> and the deciders of \<^verbatim>\<open>runtime.rs\<close>: the
  standing consents of the configuration and of the session, the permission mode, the judge of the
  auto mode, the recording of a consent, the decider of an unattended sub-agent and the notes of a
  refusal nobody saw.

  Outside the program and so parameters: \<open>resolves\<close>, whether Windows finds an executable of a name;
  \<open>judge\<close>, the verdict of the model on a question (\<^verbatim>\<open>approval_classifier.rs\<close> builds the question
  and reads the answer); \<open>to_string\<close>, the JSON text of an argument object.
\<close>

section \<open>What a consent covers\<close>

definition session_allowable :: "rstr \<Rightarrow> bool" where
  "session_allowable tool_name \<longleftrightarrow> classify_tool tool_name \<notin> {Shell, Job, SubAgent, RootGrant, Network}"

definition shell_consent_identity :: "bool \<Rightarrow> rstr \<Rightarrow> Value \<Rightarrow> rstr option" where
  "shell_consent_identity win tool_name arguments =
     Option.bind (shell_command_of tool_name arguments) (session_identity win)"

definition session_consent_recordable :: "bool \<Rightarrow> rstr \<Rightarrow> Value \<Rightarrow> ApprovalAuthority option \<Rightarrow> bool" where
  "session_consent_recordable win tool_name arguments authority \<longleftrightarrow>
     authority \<noteq> Some HumanOnly \<and>
     (session_allowable tool_name \<or> shell_consent_identity win tool_name arguments \<noteq> None)"

definition program_runs_as_argv :: "bool \<Rightarrow> (rstr \<Rightarrow> bool) \<Rightarrow> rstr \<Rightarrow> bool" where
  "program_runs_as_argv win resolves prog \<longleftrightarrow> (if win then resolves prog else True)"

definition command_runnable_unattended :: "bool \<Rightarrow> (rstr \<Rightarrow> bool) \<Rightarrow> ToolCall \<Rightarrow> bool" where
  "command_runnable_unattended win resolves call =
     (case shell_command_of (tc_name call) (tc_arguments call) of
        None \<Rightarrow> True
      | Some command \<Rightarrow>
          (case parse_unattended win command of
             Some cmds \<Rightarrow>
               list_all (\<lambda>parsed. case argv parsed of
                   [] \<Rightarrow> False
                 | prog # _ \<Rightarrow> program_runs_as_argv win resolves prog) cmds
           | None \<Rightarrow> True))"

definition is_root_grant :: "rstr \<Rightarrow> bool" where
  "is_root_grant tool_name \<longleftrightarrow> classify_tool tool_name = RootGrant"

definition is_network_tool :: "rstr \<Rightarrow> bool" where
  "is_network_tool tool_name \<longleftrightarrow> classify_tool tool_name = Network"

definition session_shell_prefix :: "bool \<Rightarrow> ToolCall \<Rightarrow> rstr option" where
  "session_shell_prefix win call = shell_consent_identity win (tc_name call) (tc_arguments call)"

definition shell_consent_key :: "bool \<Rightarrow> ToolCall \<Rightarrow> (rstr \<times> bool) option" where
  "shell_consent_key win call =
     (case session_shell_prefix win call of
        None \<Rightarrow> None
      | Some key \<Rightarrow> Some (key, network_requested (tc_arguments call)))"

datatype AutoApproval = ConfigAllowList | SessionTool | SessionShell | AcceptEditsAllowance | Judge | YoloMode

definition authority_of :: "AutoApproval \<Rightarrow> RunAuthority" where
  "authority_of a =
     (case a of
        SessionShell \<Rightarrow> ByParse
      | AcceptEditsAllowance \<Rightarrow> ByParse
      | ConfigAllowList \<Rightarrow> ByApproval
      | SessionTool \<Rightarrow> ByApproval
      | Judge \<Rightarrow> ByApproval
      | YoloMode \<Rightarrow> ByApproval)"

section \<open>The automatic layers\<close>

text \<open>The parts of the runtime the gate reads: fixed ones, the live mode, and the memory of the session.\<close>

record Gate =
  g_is_subagent :: bool
  g_auto_allow :: "rstr list"
  g_provider_is_echo :: bool
  g_mode :: PermissionMode

record Consents =
  session_approved :: "rstr set"
  session_trusted_shell_prefixes :: "(rstr \<times> bool) set"

definition no_consents :: Consents where
  "no_consents = \<lparr>session_approved = {}, session_trusted_shell_prefixes = {}\<rparr>"

definition auto_mode_approves ::
  "bool \<Rightarrow> (rstr \<Rightarrow> bool) \<Rightarrow> (Value \<Rightarrow> rstr) \<Rightarrow> (ClassifierInput \<Rightarrow> bool) \<Rightarrow> Gate \<Rightarrow> ToolCall \<Rightarrow> ApprovalRequest \<Rightarrow> rstr \<Rightarrow> bool
    \<Rightarrow> AutoApproval option" where
  "auto_mode_approves win resolves to_string judge gate call request user_task cancelled =
     (if accept_edits_approvable win (tc_name call) (tc_arguments call) \<and> command_runnable_unattended win resolves call
      then Some AcceptEditsAllowance
      else if rq_risk_level request = High then None
      else if g_provider_is_echo gate then None
      else if cancelled then None
      else if judge \<lparr>ci_tool_name = tc_name call, ci_action = action_summary to_string (tc_name call) (tc_arguments call),
             ci_risk_level = rq_risk_level request, ci_safety_notes = rq_safety_notes request, ci_user_task = user_task\<rparr>
      then Some Judge
      else None)"

definition auto_approval_granted ::
  "bool \<Rightarrow> (rstr \<Rightarrow> bool) \<Rightarrow> (Value \<Rightarrow> rstr) \<Rightarrow> (ClassifierInput \<Rightarrow> bool) \<Rightarrow> Gate \<Rightarrow> Consents \<Rightarrow> ToolCall \<Rightarrow> ApprovalRequest
    \<Rightarrow> rstr \<Rightarrow> bool \<Rightarrow> AutoApproval option" where
  "auto_approval_granted win resolves to_string judge gate consents call request user_task cancelled =
     (if is_root_grant (tc_name call) then None
      else if rq_authority request = HumanOnly then None
      else if g_is_subagent gate then None
      else if tc_name call \<in> set (g_auto_allow gate) then Some ConfigAllowList
      else if tc_name call \<in> session_approved consents then Some SessionTool
      else if (case shell_consent_key win call of
                 None \<Rightarrow> False
               | Some key \<Rightarrow> key \<in> session_trusted_shell_prefixes consents \<and> command_runnable_unattended win resolves call)
      then Some SessionShell
      else case g_mode gate of
             Default \<Rightarrow> None
           | AcceptEdits \<Rightarrow>
               if accept_edits_approvable win (tc_name call) (tc_arguments call) \<and> command_runnable_unattended win resolves call
               then Some AcceptEditsAllowance else None
           | Auto \<Rightarrow>
               if rq_network request \<or> is_network_tool (tc_name call) then None
               else if dispatch_declares_allow_commands (tc_name call) (tc_arguments call) then None
               else auto_mode_approves win resolves to_string judge gate call request user_task cancelled
           | Yolo \<Rightarrow> Some YoloMode)"

section \<open>Recording a consent\<close>

text \<open>The part of \<^verbatim>\<open>handle_approval\<close> that remembers an answer for the session: what is remembered, and
  the decision the call goes on with.\<close>

definition record_session_consent ::
  "bool \<Rightarrow> 'w ToolRegistry \<Rightarrow> ToolCall \<Rightarrow> ApprovalDecision \<Rightarrow> Consents \<Rightarrow> Consents \<times> ApprovalDecision" where
  "record_session_consent win reg call decision consents =
     (if decision = ApprovedForSession then
        (if \<not> requires_human (registry_evaluate_tool win reg call) then
           if session_allowable (tc_name call) then
             consents\<lparr>session_approved := insert (tc_name call) (session_approved consents)\<rparr>
           else case shell_consent_key win call of
                  Some (key, net) \<Rightarrow>
                    consents\<lparr>session_trusted_shell_prefixes :=
                      insert (key, net)
                        (if net then insert (key, False) (session_trusted_shell_prefixes consents)
                         else session_trusted_shell_prefixes consents)\<rparr>
                | None \<Rightarrow> consents
         else consents, Approved)
      else (consents, decision))"

section \<open>Runs nobody attends\<close>

definition subagent_approval_decision ::
  "bool \<Rightarrow> 'w ToolRegistry \<Rightarrow> ApprovalRequest \<Rightarrow> SubAgentRole \<Rightarrow> bool \<Rightarrow> ApprovalDecision \<times> DenialNote option" where
  "subagent_approval_decision win reg request role network_granted =
     (let call = \<lparr>tc_id = rq_call_id request, tc_name = rq_tool_name request, tc_arguments = rq_arguments request\<rparr>;
          plan = registry_evaluate_tool win reg call
      in if denied_reason plan \<noteq> None then (Denied, None)
         else if \<not> requires_approval plan then (Approved, None)
         else
           (let kind = classify_tool (rq_tool_name request) in
            if kind = RootGrant then (Denied, Some SubagentRootGrant)
            else if allows_writes role \<and> kind = WriteFile then (Approved, None)
            else if kind = Network then
              if network_granted then (Approved, None) else (Denied, Some SubagentNetwork)
            else if requires_human plan then (Denied, Some SubagentNeedsHuman)
            else if rq_network request \<and> \<not> network_granted then (Denied, Some SubagentNetwork)
            else if kind \<in> {Shell, Job} then (Denied, Some SubagentShell)
            else (Denied, Some SubagentUnattended)))"

definition unattended_denial_note :: "ApprovalRequest \<Rightarrow> DenialNote" where
  "unattended_denial_note request =
     (if is_root_grant (rq_tool_name request) then UnattendedRootGrant
      else if rq_authority request = HumanOnly then UnattendedNeedsHuman
      else UnattendedDenial)"

definition yolo_ambient_network ::
  "ToolExecutionPlan \<Rightarrow> PermissionMode \<Rightarrow> NetworkMode \<Rightarrow> bool \<Rightarrow> ToolExecutionPlan" where
  "yolo_ambient_network plan mode net is_subagent =
     (let ambient_granted = (\<not> is_subagent \<or> net = NetAlways) in
      if mode = Yolo \<and> ambient_granted \<and> net \<noteq> Never \<and> requires_sandbox plan
      then plan\<lparr>network := True\<rparr> else plan)"

section \<open>The model that judges\<close>

record ModelInfo =
  model_id :: rstr
  model_aliases :: "rstr list"
  model_context_window :: "32 word"
  model_supports_vision :: bool

definition names_equal :: "rstr \<Rightarrow> rstr \<Rightarrow> bool" where
  "names_equal a b \<longleftrightarrow> to_ascii_lowercase (trim a) = to_ascii_lowercase (trim b)"

definition entry_matching :: "ModelInfo list \<Rightarrow> rstr \<Rightarrow> ModelInfo option" where
  "entry_matching catalog name =
     find (\<lambda>entry. names_equal (model_id entry) name \<or> list_ex (\<lambda>alias. names_equal alias name) (model_aliases entry)) catalog"

definition info_for :: "ModelInfo list \<Rightarrow> rstr \<Rightarrow> ModelInfo option" where
  "info_for catalog name = entry_matching catalog name"

definition classifier_model_for :: "rstr \<Rightarrow> ModelInfo list \<Rightarrow> rstr" where
  "classifier_model_for config_model catalog =
     (let configured = trim config_model in
      if configured = [] \<or> to_ascii_lowercase configured = ''auto'' \<or> info_for catalog configured \<noteq> None
      then DEEPSEEK_FLASH else configured)"

section \<open>What is never approved automatically\<close>

lemma classify_exclusive: "is_root_grant n \<Longrightarrow> \<not> is_network_tool n"
  by (simp add: is_root_grant_def is_network_tool_def)

lemma auto_approval_granted_barred:
  "is_root_grant (tc_name call) \<or> rq_authority request = HumanOnly \<or> g_is_subagent gate \<Longrightarrow>
   auto_approval_granted win resolves to_string judge gate consents call request user_task cancelled = None"
  by (auto simp: auto_approval_granted_def)

text \<open>C10 (safety). What only a human may answer. When the registry asks about a call, no configuration
  entry, no consent remembered for the session, no permission mode and no judge answers it if the
  call grants a write root, if its plan is for a human only, such as an irreversible command the
  configuration does not authorize, or if the runtime is a sub-agent's.\<close>

theorem human_decisions_stay_human:
  assumes "snd (run_tool_call_with_plan win reg fresh call None plan cx w) = Inr (ApprovalRequired request)"
    and "is_root_grant (tc_name call) \<or> requires_human plan \<or> g_is_subagent gate"
  shows "auto_approval_granted win resolves to_string judge gate consents call request user_task cancelled = None"
proof (rule auto_approval_granted_barred)
  have "requires_human plan \<Longrightarrow> rq_authority request = HumanOnly"
    using assms(1)
    by (cases rule: run_tool_call_with_plan_cases [of reg call win fresh None plan cx w])
      (auto simp: approves_def executed_def approval_request_def effective_plan_facts plan_queries
        effective_plan_def Let_def split: prod.splits sum.splits PolicyVerdict.splits if_splits)
  with assms(2) show "is_root_grant (tc_name call) \<or> rq_authority request = HumanOnly \<or> g_is_subagent gate"
    by blast
qed

text \<open>A forced push under the most permissive mode, with the shell on the configured list.\<close>

theorem human_decisions_stay_human_witness:
  "let spec = \<lparr>spec_name = ''shell'', spec_description = [], spec_parameters = Null, spec_requires_approval = False\<rparr>;
       reg = \<lparr>reg_tools = [(''shell'', \<lparr>reg_spec = spec, reg_prepare = (\<lambda>call. Inr (\<lambda>cx w. (Suc w, Inr (denied_result call))))\<rparr>)],
         reg_policy = default_policy False\<rparr>;
       call = \<lparr>tc_id = ''c1'', tc_name = ''shell'', tc_arguments = Object [(''command'', String ''git push --force'')]\<rparr>;
       plan = registry_evaluate_tool False reg call;
       gate = \<lparr>g_is_subagent = False, g_auto_allow = [''shell''], g_provider_is_echo = False, g_mode = Yolo\<rparr>
   in \<exists>request. run_tool_call_with_plan False reg 0 call None plan new_cx 0 = (0, Inr (ApprovalRequired request)) \<and>
        auto_approval_granted False (\<lambda>_. True) (\<lambda>_. []) (\<lambda>_. True) gate no_consents call request [] False = None"
proof -
  define spec where "spec = \<lparr>spec_name = ''shell'', spec_description = [], spec_parameters = Null, spec_requires_approval = False\<rparr>"
  define reg where "reg = \<lparr>reg_tools = [(''shell'', \<lparr>reg_spec = spec,
    reg_prepare = (\<lambda>call. Inr (\<lambda>cx w. (Suc w, Inr (denied_result call) :: ToolError + ToolResult)))\<rparr>)], reg_policy = default_policy False\<rparr>"
  define call where "call = \<lparr>tc_id = ''c1'', tc_name = ''shell'', tc_arguments = Object [(''command'', String ''git push --force'')]\<rparr>"
  define gate where "gate = \<lparr>g_is_subagent = False, g_auto_allow = [''shell''], g_provider_is_echo = False, g_mode = Yolo\<rparr>"
  define plan where "plan = registry_evaluate_tool False reg call"
  have "case verdict (evaluate_tool False (default_policy False) ''shell'' (Object [(''command'', String ''git push --force'')])) of
      NeedsApproval _ a \<Rightarrow> a = HumanOnly | _ \<Rightarrow> False"
    by code_simp
  then obtain reason where v: "verdict plan = NeedsApproval reason HumanOnly"
    by (auto simp: plan_def registry_evaluate_tool_def call_def reg_def split: PolicyVerdict.splits)
  then have h: "requires_human plan" by (simp add: plan_queries)
  from v obtain request where r: "run_tool_call_with_plan False reg 0 call None plan new_cx 0 = (0, Inr (ApprovalRequired request))"
    by (auto simp: run_tool_call_with_plan_def reg_def call_def spec_def effective_plan_def denied_reason_def Let_def default_policy_def)
  have "auto_approval_granted False (\<lambda>_. True) (\<lambda>_. []) (\<lambda>_. True) gate no_consents call request [] False = None"
    by (rule human_decisions_stay_human [where win = False and reg = reg and fresh = 0 and plan = plan and cx = new_cx and w = 0])
      (simp_all add: r h)
  with r show ?thesis
    unfolding Let_def spec_def [symmetric] reg_def [symmetric] call_def [symmetric] gate_def [symmetric] plan_def [symmetric]
    by blast
qed

section \<open>The ladder of modes\<close>

lemma mode_ladder: "m \<le> n \<longleftrightarrow> m = n \<or> m = Default \<or> n = Yolo \<or> (m = AcceptEdits \<and> n = Auto)"
  by (cases m; cases n) (simp_all add: less_eq_PermissionMode_def to_u8_def word_le_nat_alt)

lemma accept_edits_below_auto:
  "accept_edits_approvable win name as \<Longrightarrow>
   \<not> network_requested as \<and> \<not> is_network_tool name \<and> \<not> dispatch_declares_allow_commands name as"
  by (auto simp: accept_edits_approvable_def is_network_tool_def dispatch_declares_allow_commands_def
      split: if_splits ToolKind.splits)

lemma granted_by_consent:
  "auto_approval_granted win resolves to_string judge gate consents call request user_task cancelled = Some a \<Longrightarrow>
   a \<in> {ConfigAllowList, SessionTool, SessionShell} \<Longrightarrow>
   auto_approval_granted win resolves to_string judge (gate\<lparr>g_mode := m\<rparr>) consents call request user_task cancelled = Some a"
  by (auto simp: auto_approval_granted_def auto_mode_approves_def split: if_splits PermissionMode.splits option.splits)

text \<open>A more permissive mode never asks more. Whatever a mode resolves without asking, every
  mode above it resolves without asking too, whoever the judge is, for a request whose network
  declaration is the call's own; and a standing consent is the same in every mode.\<close>

theorem modes_are_a_ladder:
  assumes "rq_network request = network_requested (tc_arguments call)"
    and "auto_approval_granted win resolves to_string judge gate consents call request user_task cancelled = Some a"
    and "g_mode gate \<le> m"
  shows "auto_approval_granted win resolves to_string judge (gate\<lparr>g_mode := m\<rparr>) consents call request user_task cancelled \<noteq> None"
proof (cases "a \<in> {ConfigAllowList, SessionTool, SessionShell}")
  case True
  from granted_by_consent [OF assms(2) True, of m] show ?thesis by simp
next
  case False
  let ?granted = "\<lambda>gate. auto_approval_granted win resolves to_string judge gate consents call request user_task cancelled"
  from False assms(2) have open_gate: "\<not> is_root_grant (tc_name call)" "rq_authority request \<noteq> HumanOnly" "\<not> g_is_subagent gate"
    by (auto simp: auto_approval_granted_def split: if_splits)
  have yolo: "?granted (gate\<lparr>g_mode := Yolo\<rparr>) \<noteq> None"
    using open_gate by (simp add: auto_approval_granted_def)
  have default: "g_mode gate \<noteq> Default"
    using False assms(2) by (auto simp: auto_approval_granted_def split: if_splits)
  have edits: "?granted (gate\<lparr>g_mode := Auto\<rparr>) \<noteq> None" if "g_mode gate = AcceptEdits"
  proof -
    from that False assms(2) have ok: "accept_edits_approvable win (tc_name call) (tc_arguments call)"
      "command_runnable_unattended win resolves call"
      by (auto simp: auto_approval_granted_def split: if_splits)
    from accept_edits_below_auto [OF ok(1)] ok assms(1) open_gate show ?thesis
      by (simp add: auto_approval_granted_def auto_mode_approves_def)
  qed
  from assms(3) consider "g_mode gate = m" | "m = Yolo" | "g_mode gate = AcceptEdits" "m = Auto"
    using default mode_ladder by blast
  then show ?thesis
  proof cases
    case 1
    then have "gate\<lparr>g_mode := m\<rparr> = gate" by (cases gate) simp
    then show ?thesis using assms(2) by simp
  qed (use yolo edits in simp_all)
qed

theorem modes_are_a_ladder_witness:
  "let call = \<lparr>tc_id = ''c1'', tc_name = ''write_file'', tc_arguments = Object []\<rparr>;
       request = \<lparr>rq_approval_id = 0, rq_authority = AutomaticAllowed, rq_call_id = ''c1'', rq_tool_name = ''write_file'',
         rq_description = WritesFiles, rq_arguments = Object [], rq_risk_level = Medium, rq_requires_sandbox = False,
         rq_network = False, rq_justification = None, rq_resolved_target = None, rq_read_only = False,
         rq_matched_rule = None, rq_preview = None, rq_safety_notes = []\<rparr>;
       gate = \<lparr>g_is_subagent = False, g_auto_allow = [], g_provider_is_echo = False, g_mode = AcceptEdits\<rparr>
   in auto_approval_granted False (\<lambda>_. True) (\<lambda>_. []) (\<lambda>_. False) (gate\<lparr>g_mode := Auto\<rparr>) no_consents call request [] False \<noteq> None"
  unfolding Let_def
  by (rule modes_are_a_ladder [where a = AcceptEditsAllowance])
    (simp_all add: mode_ladder auto_approval_granted_def is_root_grant_def classify_tool_def no_consents_def
      shell_consent_key_def session_shell_prefix_def shell_consent_identity_def shell_command_of_def
      accept_edits_approvable_def network_requested_def json_get_def command_runnable_unattended_def)

section \<open>Consents come from answers\<close>

text \<open>The memory of a session after the answers it was given, in their order.\<close>

inductive consents_reach :: "bool \<Rightarrow> 'w ToolRegistry \<Rightarrow> (ToolCall \<times> ApprovalDecision) list \<Rightarrow> Consents \<Rightarrow> bool"
  for win reg where
  start: "consents_reach win reg [] no_consents"
| answer: "consents_reach win reg answers consents \<Longrightarrow>
    consents_reach win reg (answers @ [(call, decision)]) (fst (record_session_consent win reg call decision consents))"

definition consented :: "bool \<Rightarrow> 'w ToolRegistry \<Rightarrow> (ToolCall \<times> ApprovalDecision) list \<Rightarrow> ToolCall \<Rightarrow> bool" where
  "consented win reg answers call \<longleftrightarrow>
     (call, ApprovedForSession) \<in> set answers \<and> \<not> requires_human (registry_evaluate_tool win reg call)"

lemma consented_mono: "consented win reg answers call \<Longrightarrow> consented win reg (answers @ more_answers) call"
  by (simp add: consented_def)

lemma shell_consent_key_Some:
  "shell_consent_key win call = Some (key, net) \<longleftrightarrow>
   session_shell_prefix win call = Some key \<and> net = network_requested (tc_arguments call)"
  by (auto simp: shell_consent_key_def split: option.splits)

lemma consents_traced:
  "consents_reach win reg answers consents \<Longrightarrow>
   (\<forall>name \<in> session_approved consents. session_allowable name \<and>
      (\<exists>call. consented win reg answers call \<and> tc_name call = name)) \<and>
   (\<forall>(key, net) \<in> session_trusted_shell_prefixes consents.
      \<exists>call. consented win reg answers call \<and> session_shell_prefix win call = Some key \<and>
        (net \<longrightarrow> network_requested (tc_arguments call)))"
proof (induction rule: consents_reach.induct)
  case start
  then show ?case by (simp add: no_consents_def)
next
  case (answer answers consents call decision)
  let ?new = "fst (record_session_consent win reg call decision consents)"
  have new: "consented win reg (answers @ [(call, decision)]) call"
    if "decision = ApprovedForSession" "\<not> requires_human (registry_evaluate_tool win reg call)"
    using that by (simp add: consented_def)
  have old: "\<exists>c. consented win reg (answers @ [(call, decision)]) c \<and> P c"
    if "\<exists>c. consented win reg answers c \<and> P c" for P
    using that consented_mono by blast
  have names: "session_allowable name \<and> (\<exists>c. consented win reg (answers @ [(call, decision)]) c \<and> tc_name c = name)"
    if "name \<in> session_approved ?new" for name
  proof (cases "name \<in> session_approved consents")
    case True
    with answer.IH old [of "\<lambda>c. tc_name c = name"] show ?thesis by blast
  next
    case False
    with that new show ?thesis
      by (auto simp: record_session_consent_def split: if_splits option.splits)
  qed
  have keys: "\<exists>c. consented win reg (answers @ [(call, decision)]) c \<and> session_shell_prefix win c = Some key \<and>
      (net \<longrightarrow> network_requested (tc_arguments c))"
    if "(key, net) \<in> session_trusted_shell_prefixes ?new" for key net
  proof (cases "(key, net) \<in> session_trusted_shell_prefixes consents")
    case True
    with answer.IH old [of "\<lambda>c. session_shell_prefix win c = Some key \<and> (net \<longrightarrow> network_requested (tc_arguments c))"]
    show ?thesis by blast
  next
    case False
    with that new show ?thesis
      by (auto simp: record_session_consent_def shell_consent_key_Some split: if_splits option.splits)
  qed
  from names keys show ?case by blast
qed

text \<open>C34 (invariant). Where a remembered consent comes from. In every memory that answers can produce, a call
  that runs because of it runs because the user answered yes for the session to a call that was not
  for a human only: for a tool remembered by name, to that tool, which is none of those whose risk
  is in the arguments; for a command, to one with the same identity, that had declared network if
  this one does, and this command, without its surrounding blanks, parses to one plain command.\<close>

theorem session_consents_traced:
  assumes "consents_reach win reg answers consents"
    and "auto_approval_granted win resolves to_string judge gate consents call request user_task cancelled = Some a"
    and "a \<in> {SessionTool, SessionShell}"
  shows "\<exists>answered. (answered, ApprovedForSession) \<in> set answers \<and>
      \<not> requires_human (registry_evaluate_tool win reg answered) \<and>
      (if a = SessionTool then tc_name answered = tc_name call \<and> session_allowable (tc_name call)
       else session_shell_prefix win call \<noteq> None \<and>
            session_shell_prefix win answered = session_shell_prefix win call \<and>
            (network_requested (tc_arguments call) \<longrightarrow> network_requested (tc_arguments answered)) \<and>
            (\<exists>command av. shell_command call = Some command \<and>
               parse_unattended win (trim command) = Some [unattended_command av Always]))"
proof -
  note traced = consents_traced [OF assms(1)]
  show ?thesis
  proof (cases "a = SessionTool")
    case True
    with assms(2) have "tc_name call \<in> session_approved consents"
      by (auto simp: auto_approval_granted_def auto_mode_approves_def split: if_splits PermissionMode.splits option.splits)
    with traced True show ?thesis unfolding consented_def by auto
  next
    case False
    with assms(3) have a: "a = SessionShell" by simp
    from assms(2) obtain key net where k: "shell_consent_key win call = Some (key, net)"
      "(key, net) \<in> session_trusted_shell_prefixes consents"
      by (auto simp: a auto_approval_granted_def auto_mode_approves_def split: if_splits PermissionMode.splits option.splits)
    with traced obtain answered where an: "consented win reg answers answered" "session_shell_prefix win answered = Some key"
      "net \<longrightarrow> network_requested (tc_arguments answered)" by blast
    from k(1) have s: "session_shell_prefix win call = Some key" "net = network_requested (tc_arguments call)"
      by (simp_all add: shell_consent_key_Some)
    then obtain command words where "shell_command call = Some command" "executed_words win (trim command) = Some words"
      by (auto simp: session_shell_prefix_def shell_consent_identity_def shell_command_def session_identity_def Let_def
          bind_eq_Some_conv split: if_splits option.splits)
    then have "\<exists>command av. shell_command call = Some command \<and>
        parse_unattended win (trim command) = Some [unattended_command av Always]"
      using executed_words_parse by blast
    with an s a show ?thesis unfolding consented_def by auto
  qed
qed

section \<open>The decider of a sub-agent\<close>

text \<open>What an unattended sub-agent is allowed. Its decider approves a call exactly when the
  policy does not refuse it and asks for no approval, or the call writes a file and the role is one
  that writes, or the call is a network tool and the dispatch granted network; it never approves what
  only a human may, never for the session, and every denial that is not the policy's own says why.\<close>

theorem subagent_decider_table:
  "case subagent_approval_decision win reg request role network_granted of (decision, note) \<Rightarrow>
     (let plan = registry_evaluate_tool win reg
            \<lparr>tc_id = rq_call_id request, tc_name = rq_tool_name request, tc_arguments = rq_arguments request\<rparr>;
          kind = classify_tool (rq_tool_name request)
      in decision \<noteq> ApprovedForSession \<and>
         (decision = Approved \<longleftrightarrow> denied_reason plan = None \<and>
            (if requires_approval plan then kind = WriteFile \<and> allows_writes role \<or> kind = Network \<and> network_granted else True)) \<and>
         \<not> (decision = Approved \<and> requires_human plan) \<and>
         (note = None \<longleftrightarrow> (if denied_reason plan = None then decision = Approved else True)))"
proof -
  define call where "call = \<lparr>tc_id = rq_call_id request, tc_name = rq_tool_name request, tc_arguments = rq_arguments request\<rparr>"
  define plan where "plan = registry_evaluate_tool win reg call"
  have h: "\<not> requires_human plan" if "classify_tool (rq_tool_name request) \<in> {WriteFile, Network}"
    using that registry_evaluate_tool_cases [of win reg call]
    by (auto simp: plan_def call_def evaluate_tool_def plan_queries split: if_splits)
  have n: "\<not> requires_human plan" if "\<not> requires_approval plan"
    using that by (simp add: plan_queries split: PolicyVerdict.splits)
  show ?thesis
    unfolding subagent_approval_decision_def call_def [symmetric] plan_def [symmetric] Let_def
    using h n by (auto split: if_splits)
qed

text \<open>One yes for the session to \<^verbatim>\<open>cargo test\<close> lets \<^verbatim>\<open>cargo test --all\<close> run.\<close>

theorem session_consents_traced_witness:
  "let arguments = (\<lambda>c. Object [(''command'', String c)]);
       answered = \<lparr>tc_id = ''c1'', tc_name = ''shell'', tc_arguments = arguments ''cargo test''\<rparr>;
       call = \<lparr>tc_id = ''c2'', tc_name = ''shell'', tc_arguments = arguments ''cargo test --all''\<rparr>;
       reg = (new_registry False :: unit ToolRegistry);
       consents = fst (record_session_consent False reg answered ApprovedForSession no_consents);
       gate = \<lparr>g_is_subagent = False, g_auto_allow = [], g_provider_is_echo = False, g_mode = Default\<rparr>;
       request = approval_request False 0 \<lparr>spec_name = ''shell'', spec_description = [], spec_parameters = Null,
         spec_requires_approval = False\<rparr> call (unsandboxed_plan Allow False Low None) ShellDefault AutomaticAllowed
   in auto_approval_granted False (\<lambda>_. True) (\<lambda>_. []) (\<lambda>_. False) gate consents call request [] False = Some SessionShell \<and>
      (\<exists>av. parse_unattended False (trim ''cargo test --all'') = Some [unattended_command av Always])"
proof -
  define answered where "answered = \<lparr>tc_id = ''c1'', tc_name = ''shell'', tc_arguments = Object [(''command'', String ''cargo test'')]\<rparr>"
  define call where "call = \<lparr>tc_id = ''c2'', tc_name = ''shell'', tc_arguments = Object [(''command'', String ''cargo test --all'')]\<rparr>"
  define gate where "gate = \<lparr>g_is_subagent = False, g_auto_allow = [], g_provider_is_echo = False, g_mode = Default\<rparr>"
  define request where "request = approval_request False 0 \<lparr>spec_name = ''shell'', spec_description = [], spec_parameters = Null,
         spec_requires_approval = False\<rparr> call (unsandboxed_plan Allow False Low None) ShellDefault AutomaticAllowed"
  define reg :: "unit ToolRegistry" where "reg = new_registry False"
  define consents where "consents = fst (record_session_consent False reg answered ApprovedForSession no_consents)"
  have key: "shell_consent_key False answered = Some (''cargo test'', False)"
    "shell_consent_key False call = Some (''cargo test'', False)"
    unfolding answered_def call_def by code_simp+
  have free: "\<not> requires_human (registry_evaluate_tool False reg answered)"
    unfolding reg_def answered_def by code_simp
  have runs: "command_runnable_unattended False (\<lambda>_. True) call"
    unfolding call_def by code_simp
  have c: "(''cargo test'', False) \<in> session_trusted_shell_prefixes consents" "session_approved consents = {}"
    using key(1) free
    by (simp_all add: consents_def record_session_consent_def session_allowable_def answered_def classify_tool_def no_consents_def)
  have "\<not> is_root_grant (tc_name call)" by (simp add: call_def is_root_grant_def classify_tool_def)
  then have g: "auto_approval_granted False (\<lambda>_. True) (\<lambda>_. []) (\<lambda>_. False) gate consents call request [] False = Some SessionShell"
    using key(2) c runs by (simp add: auto_approval_granted_def gate_def request_def approval_request_def)
  have "consents_reach False reg ([] @ [(answered, ApprovedForSession)]) consents"
    unfolding consents_def by (rule consents_reach.answer [OF consents_reach.start])
  from session_consents_traced [OF this g] have "\<exists>av. parse_unattended False (trim ''cargo test --all'') = Some [unattended_command av Always]"
    by (auto simp: shell_command_def call_def shell_command_of_def classify_tool_def str_field_def json_get_def as_str_def)
  with g show ?thesis
    unfolding Let_def answered_def call_def gate_def request_def consents_def reg_def by blast
qed

end
