(* ===== verification/Tool_Batch.thy ===== *)
theory Tool_Batch
  imports Session Approval_Gate
begin

text \<open>
  The tool calls of one turn, \<^verbatim>\<open>runtime/tool_result.rs\<close>, \<^verbatim>\<open>runtime/approval_flow.rs\<close>,
  \<^verbatim>\<open>runtime/failure_class.rs\<close>, \<^verbatim>\<open>root_grant.rs\<close> and the approval entry points of \<^verbatim>\<open>runtime.rs\<close>:
  running a batch of calls in order, parking it on an approval, resuming it with the answer,
  granting a write root, and closing it when the turn is cancelled.

  The state is the part of the runtime these functions read and write. What can change between two
  of their steps, the current turn, the cancellation token, the permission mode, the disk, is a
  function of the number of looks taken so far (\<open>rt_clock\<close>), and every theorem holds for all such
  functions: a cancellation, a new turn or a change of mode may fall anywhere. The group of
  independent sub-agent calls that runs concurrently is run here in issue order. The spend counters
  are floating-point totals nothing here reads and are left out.
\<close>

section \<open>State\<close>

datatype BatchOutcome = Completed | AwaitingApproval | BatchCancelled

record PendingToolBatch =
  pb_approval_id :: ApprovalId
  pb_current :: ToolCall
  pb_remaining :: "ToolCall list"
  pb_root_grant_target :: "path option"

datatype RuntimeEvent =
    ToolCallFinished rstr ToolResult
  | LostResult rstr
  | ApprovalAsked ApprovalRequest
  | ApprovalResolved rstr ApprovalDecision
  | RootGranted path
  | SessionUpdated
  | TurnCancelled
  | BreakerError "rstr option"

record 'w Runtime =
  rt_session :: Session
  rt_world :: 'w
  rt_pending :: "PendingToolBatch option"
  rt_consents :: Consents
  rt_user_task :: rstr
  rt_turn_tool_errors :: "32 word"
  rt_cascade_escalated :: bool
  rt_cascade_triggered :: bool
  rt_turn_boundary_denials :: "32 word"
  rt_last_boundary_denial_path :: "rstr option"
  rt_boundary :: "WorkspacePolicy option"
  rt_recorded_roots :: "path list option"
  rt_clock :: nat
  rt_fresh :: ApprovalId
  rt_events :: "RuntimeEvent list"

record 'w Env =
  e_win :: bool
  e_tools :: "'w ToolRegistry"
  e_resolves :: "rstr \<Rightarrow> bool"
  e_to_string :: "Value \<Rightarrow> rstr"
  e_judge :: "ClassifierInput \<Rightarrow> bool"
  e_gate :: "nat \<Rightarrow> Gate"
  e_turn_is_current :: "nat \<Rightarrow> bool"
  e_token_cancelled :: "nat \<Rightarrow> bool"
  e_entry_shared :: "nat \<Rightarrow> bool"
  e_disk :: "nat \<Rightarrow> file_system"
  e_cwd :: location
  e_home :: "path option"
  e_diagnostics :: "ToolCall \<Rightarrow> rstr"
  e_preview :: "WorkspacePolicy \<Rightarrow> ToolCall \<Rightarrow> rstr option"
  e_write_denial_note :: rstr

definition tick :: "'w Runtime \<Rightarrow> 'w Runtime" where
  "tick st = st\<lparr>rt_clock := rt_clock st + 1\<rparr>"

definition emit :: "RuntimeEvent \<Rightarrow> 'w Runtime \<Rightarrow> 'w Runtime" where
  "emit event st = st\<lparr>rt_events := rt_events st @ [event]\<rparr>"

definition owns_turn :: "'w Env \<Rightarrow> 'w Runtime \<Rightarrow> bool" where
  "owns_turn env st \<longleftrightarrow> e_turn_is_current env (rt_clock st) \<and> \<not> e_token_cancelled env (rt_clock st)"

section \<open>Running and recording one call\<close>

definition run_tool ::
  "'w Env \<Rightarrow> ToolCall \<Rightarrow> ApprovalDecision option \<Rightarrow> RunAuthority \<Rightarrow> 'w Runtime
    \<Rightarrow> 'w Runtime \<times> (ToolError + ToolRunOutcome)" where
  "run_tool env call decision authority st =
     (if \<not> owns_turn env st then
        (tick st, Inr (Result ((denied_result call)\<lparr>tr_content := CancelledResult\<rparr>)))
      else
        (let gate = e_gate env (rt_clock st);
             cx = with_authority authority (with_cancel (e_token_cancelled env (rt_clock st)) new_cx);
             plan = yolo_ambient_network (registry_evaluate_tool (e_win env) (e_tools env) call) (g_mode gate)
               (network_mode (reg_policy (e_tools env))) (g_is_subagent gate)
         in case run_tool_call_with_plan (e_win env) (e_tools env) (rt_fresh st) call decision plan cx (rt_world st) of
              (w', outcome) \<Rightarrow> ((tick st)\<lparr>rt_world := w', rt_fresh := rt_fresh st + 1\<rparr>, outcome)))"

definition EDIT_TOOLS :: "rstr list" where "EDIT_TOOLS = [''write_file'', ''apply_patch'']"

definition is_edit_tool :: "rstr \<Rightarrow> bool" where
  "is_edit_tool tool_name \<longleftrightarrow> tool_name \<in> set EDIT_TOOLS"

definition append_diagnostics :: "rstr \<Rightarrow> rstr \<Rightarrow> rstr" where
  "append_diagnostics said rendered =
     (if rendered = [] then said
      else if said = [] then rendered
      else said @ [CHR 0x0A, CHR 0x0A] @ rendered)"

text \<open>The rendered diagnostics of the language server are a parameter, empty when there are none.\<close>

definition attach_edit_diagnostics :: "'w Env \<Rightarrow> ToolCall \<Rightarrow> ToolResult \<Rightarrow> ToolResult" where
  "attach_edit_diagnostics env call result =
     (if tr_status result = Success \<and> is_edit_tool (tc_name call) then
        (case tr_content result of
           Said said \<Rightarrow> result\<lparr>tr_content := Said (append_diagnostics said (e_diagnostics env call))\<rparr>
         | _ \<Rightarrow> result)
      else result)"


text \<open>The marker between the two ends is the number in the middle of \<open>Clipped\<close>. The texts that are not
  \<open>Said\<close> are the program's own sentences, under the budget.\<close>

definition clip_middle :: "rstr \<Rightarrow> nat \<Rightarrow> nat \<Rightarrow> nat \<Rightarrow> ResultText" where
  "clip_middle text max_chars head_chars tail_chars =
     (let total = length text in
      if total \<le> max_chars then Said text
      else Clipped (take head_chars text) (total - (head_chars + tail_chars)) (drop (total - tail_chars) text))"

definition truncate_tool_output :: "ResultText \<Rightarrow> ResultText" where
  "truncate_tool_output text =
     (case text of
        Said said \<Rightarrow> clip_middle said TOOL_OUTPUT_BUDGET TOOL_OUTPUT_HEAD TOOL_OUTPUT_TAIL
      | _ \<Rightarrow> text)"

section \<open>Failure signals\<close>

definition CASCADE_ESCALATE_TOOL_ERRORS :: "32 word" where "CASCADE_ESCALATE_TOOL_ERRORS = 2"

definition SUBAGENT_TOOL_NAMES :: "rstr list" where "SUBAGENT_TOOL_NAMES = [''agent'']"

definition is_subagent_tool :: "rstr \<Rightarrow> bool" where
  "is_subagent_tool name \<longleftrightarrow> name \<in> set SUBAGENT_TOOL_NAMES"

definition OUTSIDE_ROOTS :: rstr where
  "OUTSIDE_ROOTS = ''path is outside every granted root (the workspace and '' @
     ''--add-dir directories); if this directory is genuinely needed, request it with the '' @
     ''request_write_root tool (the user will be asked), or the user can grant it with /add-dir''"

definition mentions :: "ResultText \<Rightarrow> rstr \<Rightarrow> bool" where
  "mentions text marker = (case text of Said said \<Rightarrow> sublist marker said | _ \<Rightarrow> False)"

definition is_boundary_denial :: "'w Env \<Rightarrow> ToolCall \<Rightarrow> ToolResult \<Rightarrow> bool" where
  "is_boundary_denial env call result \<longleftrightarrow>
     (if is_subagent_tool (tc_name call) then False
      else if tr_status result = ErrorStatus \<and> mentions (tr_content result) OUTSIDE_ROOTS then True
      else tc_name call \<in> {''shell'', ''job''} \<and> mentions (tr_content result) (e_write_denial_note env))"

definition note_boundary_denial :: "ToolCall \<Rightarrow> 'w Runtime \<Rightarrow> 'w Runtime" where
  "note_boundary_denial call st =
     (let st1 = st\<lparr>rt_turn_boundary_denials := rt_turn_boundary_denials st + 1\<rparr> in
      case Option.bind (json_get ''path'' (tc_arguments call)) as_str of
        None \<Rightarrow> st1
      | Some p \<Rightarrow> st1\<lparr>rt_last_boundary_denial_path := Some p\<rparr>)"

definition note_tool_error :: "'w Runtime \<Rightarrow> 'w Runtime" where
  "note_tool_error st =
     (let st1 = st\<lparr>rt_turn_tool_errors := rt_turn_tool_errors st + 1\<rparr> in
      if CASCADE_ESCALATE_TOOL_ERRORS \<le> rt_turn_tool_errors st1 \<and> \<not> rt_cascade_escalated st1
      then st1\<lparr>rt_cascade_escalated := True, rt_cascade_triggered := True\<rparr> else st1)"

definition record_failure_signals :: "'w Env \<Rightarrow> ToolCall \<Rightarrow> ToolResult \<Rightarrow> 'w Runtime \<Rightarrow> 'w Runtime" where
  "record_failure_signals env call result st =
     (let denial = is_boundary_denial env call result;
          st1 = (if denial then note_boundary_denial call st else st)
      in if tr_status result = ErrorStatus \<and> \<not> denial \<and> tr_content result \<noteq> CancelledResult \<and>
            \<not> is_subagent_tool (tc_name call)
         then note_tool_error st1 else st1)"

definition record_result :: "'w Env \<Rightarrow> ToolCall \<Rightarrow> ToolResult \<Rightarrow> Ask \<Rightarrow> 'w Runtime \<Rightarrow> 'w Runtime" where
  "record_result env call result0 ask st =
     (let result = attach_edit_diagnostics env call result0 in
      case record_tool_result (e_entry_shared env (rt_clock st)) (tr_call_id result)
             (truncate_tool_output (tr_content result)) (tr_status result) ask (rt_session st) of
        (session', ok) \<Rightarrow>
          (let st1 = st\<lparr>rt_session := session'\<rparr>;
               st2 = (if ok then st1 else emit (LostResult (tr_call_id result)) st1);
               st3 = (if e_turn_is_current env (rt_clock st) then record_failure_signals env call result st2 else st2)
           in emit (ToolCallFinished (tc_id call) result) (tick st3)))"

section \<open>Requests for a write root\<close>

text \<open>The declared arguments, exactly: an object with these two string members, or, as the derived
  reader also takes it, the list of their values.\<close>

definition parse_arguments :: "Value \<Rightarrow> RootGrantText + rstr" where
  "parse_arguments arguments =
     (let checked = (\<lambda>p. if trim p = [] then Inl GrantPathRequired else Inr (trim p)) in
      case arguments of
        Object members \<Rightarrow>
          if list_all (\<lambda>(key, _). key \<in> {''path'', ''justification''}) members then
            (case (map_of members ''path'', map_of members ''justification'') of
               (Some (String p), Some (String _)) \<Rightarrow> checked p
             | _ \<Rightarrow> Inl GrantMalformed)
          else Inl GrantMalformed
      | Array [String p, String _] \<Rightarrow> checked p
      | _ \<Rightarrow> Inl GrantMalformed)"

definition root_grant_requested_path :: "ToolCall \<Rightarrow> rstr" where
  "root_grant_requested_path call =
     (case Option.bind (json_get ''path'' (tc_arguments call)) as_str of None \<Rightarrow> [] | Some p \<Rightarrow> trim p)"

datatype RootGrantPrompt = NotRootGrant | GrantResolved path | GrantRefused RootGrantText

definition root_grant_prompt_target :: "'w Env \<Rightarrow> ToolCall \<Rightarrow> 'w Runtime \<Rightarrow> RootGrantPrompt" where
  "root_grant_prompt_target env call st =
     (if \<not> is_root_grant (tc_name call) then NotRootGrant
      else case parse_arguments (tc_arguments call) of
        Inl why \<Rightarrow> GrantRefused why
      | Inr raw \<Rightarrow>
          (case rt_boundary st of
             None \<Rightarrow> GrantRefused GrantNoBoundary
           | Some boundary \<Rightarrow>
               (case resolve_grant_target (e_disk env (rt_clock st)) (e_cwd env) (e_home env) boundary (path_of raw) of
                  Inr canonical \<Rightarrow> GrantResolved canonical
                | Inl why \<Rightarrow> GrantRefused (GrantUnresolved why))))"

definition remember_root :: "path \<Rightarrow> 'w Runtime \<Rightarrow> 'w Runtime" where
  "remember_root canonical st =
     st\<lparr>rt_recorded_roots :=
         map_option (\<lambda>roots. if canonical \<in> set roots then roots else roots @ [canonical]) (rt_recorded_roots st)\<rparr>"

definition apply_root_grant :: "'w Env \<Rightarrow> ToolCall \<Rightarrow> path option \<Rightarrow> 'w Runtime \<Rightarrow> 'w Runtime \<times> ToolResult" where
  "apply_root_grant env call prompt_target st =
     (let refuse = (\<lambda>why. (tick st, error_result call (RootGrantSays why)));
          granted = (\<lambda>text. (success_result (tc_id call) (tc_name call) [])\<lparr>tr_content := RootGrantSays text\<rparr>)
      in case parse_arguments (tc_arguments call) of
        Inl why \<Rightarrow> refuse why
      | Inr raw \<Rightarrow>
          (case rt_boundary st of
             None \<Rightarrow> refuse GrantNoBoundary
           | Some boundary \<Rightarrow>
               (case prompt_target of
                  None \<Rightarrow> refuse GrantNoTarget
                | Some shown \<Rightarrow>
                    (case resolve_grant_target (e_disk env (rt_clock st)) (e_cwd env) (e_home env) boundary (path_of raw) of
                       Inl why \<Rightarrow> refuse (GrantUnresolved why)
                     | Inr fresh \<Rightarrow>
                         if fresh \<noteq> shown then refuse (GrantMoved raw shown fresh)
                         else if \<not> owns_turn env (tick st)
                         then (tick (tick st), (denied_result call)\<lparr>tr_content := CancelledResult\<rparr>)
                         else
                           (case grant_resolved fresh boundary of
                              (boundary', Granted canonical) \<Rightarrow>
                                (emit (RootGranted canonical)
                                   (remember_root canonical (tick (tick st)\<lparr>rt_boundary := Some boundary'\<rparr>)),
                                 granted (GrantDone canonical (rt_recorded_roots st \<noteq> None)))
                            | (boundary', AlreadyGranted canonical) \<Rightarrow>
                                (tick (tick st), granted (GrantAlready canonical)))))))"

section \<open>Ending, parking and running a batch\<close>

definition flush_session_update :: "'w Runtime \<Rightarrow> 'w Runtime" where
  "flush_session_update st = emit SessionUpdated st"

definition finish_cancelled_calls :: "'w Env \<Rightarrow> ToolCall list \<Rightarrow> 'w Runtime \<Rightarrow> 'w Runtime" where
  "finish_cancelled_calls env calls st =
     emit TurnCancelled (flush_session_update
       (fold (\<lambda>call. record_result env call (error_result call CancelledResult) Unasked) calls st))"

definition finalize_cancelled_batch :: "'w Env \<Rightarrow> PendingToolBatch \<Rightarrow> 'w Runtime \<Rightarrow> 'w Runtime" where
  "finalize_cancelled_batch env batch st = finish_cancelled_calls env (pb_current batch # pb_remaining batch) st"

definition approval_preview :: "'w Env \<Rightarrow> ToolCall \<Rightarrow> 'w Runtime \<Rightarrow> rstr option" where
  "approval_preview env call st = Option.bind (rt_boundary st) (\<lambda>boundary. e_preview env boundary call)"

definition is_parallel_safe :: "'w Env \<Rightarrow> ToolCall \<Rightarrow> bool" where
  "is_parallel_safe env call \<longleftrightarrow>
     classify_tool (tc_name call) = SubAgent \<and>
     verdict (registry_evaluate_tool (e_win env) (e_tools env) call) = Allow"

text \<open>The check and the parking happen under one lock.\<close>

definition park :: "'w Env \<Rightarrow> ApprovalRequest \<Rightarrow> ToolCall \<Rightarrow> ToolCall list \<Rightarrow> path option \<Rightarrow> 'w Runtime \<Rightarrow> BatchOutcome \<times> 'w Runtime"
  where
  "park env request call remaining target st =
     (if \<not> owns_turn env st
      then (BatchCancelled, finish_cancelled_calls env (call # remaining) (tick st))
      else
        (AwaitingApproval,
         (tick st)\<lparr>rt_pending := Some \<lparr>pb_approval_id = rq_approval_id request, pb_current = call,
            pb_remaining = remaining, pb_root_grant_target = target\<rparr>\<rparr>))"

definition outcome_result :: "ToolCall \<Rightarrow> rstr \<Rightarrow> ToolError + ToolRunOutcome \<Rightarrow> ToolResult" where
  "outcome_result call again outcome =
     (case outcome of
        Inr (Result result) \<Rightarrow> result
      | Inr (ApprovalRequired _) \<Rightarrow> error_result call (Said again)
      | Inl e \<Rightarrow> error_result call (Said (error_to_string e)))"

fun run_group :: "'w Env \<Rightarrow> ToolCall list \<Rightarrow> 'w Runtime \<Rightarrow> 'w Runtime \<times> (ToolError + ToolRunOutcome) list" where
  "run_group env [] st = (st, [])"
| "run_group env (call # calls) st =
     (case run_tool env call None ByApproval st of
        (st1, outcome) \<Rightarrow>
          (case run_group env calls st1 of (st2, outcomes) \<Rightarrow> (st2, outcome # outcomes)))"

definition record_group :: "'w Env \<Rightarrow> (ToolCall \<times> (ToolError + ToolRunOutcome)) list \<Rightarrow> 'w Runtime \<Rightarrow> 'w Runtime" where
  "record_group env finished st =
     fold (\<lambda>(call, outcome). record_result env call
        (outcome_result call ''parallel sub-agent unexpectedly requested approval'' outcome) Unasked) finished st"

text \<open>A call that asks: resolved by an automatic layer or refused as a grant that cannot be made, and
  recorded, or to be parked with its target.\<close>

definition ask_gate ::
  "'w Env \<Rightarrow> ToolCall \<Rightarrow> ApprovalRequest \<Rightarrow> 'w Runtime \<Rightarrow> 'w Runtime \<times> (ApprovalRequest \<times> path option) option" where
  "ask_gate env call request st =
     (case auto_approval_granted (e_win env) (e_resolves env) (e_to_string env) (e_judge env) (e_gate env (rt_clock st))
             (rt_consents st) call request (rt_user_task st) (e_token_cancelled env (rt_clock st)) of
        Some granted \<Rightarrow>
          (case run_tool env call (Some Approved) (authority_of granted)
                  (emit (ApprovalResolved (tc_id call) Approved) (tick st)) of
             (st1, outcome) \<Rightarrow>
               (record_result env call
                  (outcome_result call ''tool re-requested approval after auto-approve'' outcome) Unasked st1, None))
      | None \<Rightarrow>
          (case root_grant_prompt_target env call (tick st) of
             GrantRefused why \<Rightarrow>
               (record_result env call (error_result call (RootGrantSays why)) Unasked (tick st), None)
           | NotRootGrant \<Rightarrow>
               (tick st, Some (request\<lparr>rq_preview := approval_preview env call st\<rparr>, None))
           | GrantResolved canonical \<Rightarrow>
               (tick st, Some (request\<lparr>rq_resolved_target := Some (path_text canonical),
                  rq_preview := approval_preview env call st\<rparr>, Some canonical))))"

function process_tool_batch :: "'w Env \<Rightarrow> ToolCall list \<Rightarrow> 'w Runtime \<Rightarrow> BatchOutcome \<times> 'w Runtime" where
  "process_tool_batch env [] st = (Completed, flush_session_update st)"
| "process_tool_batch env (call # remaining) st =
     (if \<not> owns_turn env st
      then (BatchCancelled, finish_cancelled_calls env (call # remaining) (tick st))
      else if is_parallel_safe env call \<and> (case remaining of [] \<Rightarrow> False | following # _ \<Rightarrow> is_parallel_safe env following)
      then
        (let group = call # takeWhile (is_parallel_safe env) remaining in
         case run_group env group (tick st) of
           (st1, outcomes) \<Rightarrow>
             process_tool_batch env (dropWhile (is_parallel_safe env) remaining)
               (record_group env (zip group outcomes) st1))
      else
        (case run_tool env call None ByApproval (tick st) of
           (st1, Inr (Result result)) \<Rightarrow> process_tool_batch env remaining (record_result env call result Unasked st1)
         | (st1, Inl e) \<Rightarrow>
             process_tool_batch env remaining
               (record_result env call (error_result call (Said (error_to_string e))) Unasked st1)
         | (st1, Inr (ApprovalRequired request)) \<Rightarrow>
             (case ask_gate env call request st1 of
                (st2, None) \<Rightarrow> process_tool_batch env remaining st2
              | (st2, Some (request', target)) \<Rightarrow>
                  (case park env request' call remaining target st2 of
                     (AwaitingApproval, st3) \<Rightarrow>
                       (AwaitingApproval, emit (ApprovalAsked request') (flush_session_update st3))
                   | other \<Rightarrow> other))))"
  by pat_completeness auto
termination
  by (relation "measure (\<lambda>(env, calls, st). length calls)") (auto simp: less_Suc_eq_le intro: length_dropWhile_le)

section \<open>Answers\<close>

definition BOUNDARY_DENIAL_BREAKER :: "32 word" where "BOUNDARY_DENIAL_BREAKER = 3"

definition boundary_breaker_tripped :: "'w Runtime \<Rightarrow> bool \<times> 'w Runtime" where
  "boundary_breaker_tripped st =
     (if rt_turn_boundary_denials st < BOUNDARY_DENIAL_BREAKER then (False, st)
      else (True, emit (BreakerError (rt_last_boundary_denial_path st)) st))"

text \<open>How the turn goes on after an answer: it is over, it waits for another answer, or the model is
  asked again with the results.\<close>

datatype TurnStep = TurnOver | Parked | NextRound

definition resume_after_batch :: "'w Env \<Rightarrow> ToolCall list \<Rightarrow> 'w Runtime \<Rightarrow> TurnStep \<times> 'w Runtime" where
  "resume_after_batch env remaining st =
     (if \<not> owns_turn env st then (TurnOver, finish_cancelled_calls env remaining (tick st))
      else case process_tool_batch env remaining (tick st) of
             (Completed, st1) \<Rightarrow>
               (case boundary_breaker_tripped st1 of
                  (True, st2) \<Rightarrow> (TurnOver, st2)
                | (False, st2) \<Rightarrow> (NextRound, st2))
           | (AwaitingApproval, st1) \<Rightarrow> (Parked, st1)
           | (BatchCancelled, st1) \<Rightarrow> (TurnOver, st1))"

definition with_denial_note :: "DenialNote option \<Rightarrow> ToolResult \<Rightarrow> ToolResult" where
  "with_denial_note denial_note result =
     (case denial_note of
        Some why \<Rightarrow> if tr_status result = DeniedStatus then result\<lparr>tr_content := Note why\<rparr> else result
      | None \<Rightarrow> result)"

definition answer_root_grant ::
  "'w Env \<Rightarrow> PendingToolBatch \<Rightarrow> ApprovalDecision \<Rightarrow> DenialNote option \<Rightarrow> 'w Runtime \<Rightarrow> 'w Runtime \<times> ToolResult" where
  "answer_root_grant env batch decision denial_note st =
     (case decision of
        Denied \<Rightarrow>
          (st, (denied_result (pb_current batch))\<lparr>tr_content :=
             (case denial_note of
                Some why \<Rightarrow> Note why
              | None \<Rightarrow> RootGrantSays (GrantDeclined (root_grant_requested_path (pb_current batch))))\<rparr>)
      | _ \<Rightarrow> apply_root_grant env (pb_current batch) (pb_root_grant_target batch) st)"

definition handle_approval ::
  "'w Env \<Rightarrow> PendingToolBatch \<Rightarrow> ApprovalDecision \<Rightarrow> DenialNote option \<Rightarrow> 'w Runtime \<Rightarrow> TurnStep \<times> 'w Runtime" where
  "handle_approval env batch decision denial_note st =
     (let current = pb_current batch; remaining = pb_remaining batch in
      if \<not> owns_turn env st then (TurnOver, finish_cancelled_calls env (current # remaining) (tick st))
      else case record_session_consent (e_win env) (e_tools env) current decision (rt_consents st) of
        (consents', decision') \<Rightarrow>
          (let st0 = (tick st)\<lparr>rt_consents := consents'\<rparr> in
           if is_root_grant (tc_name current) then
             (case answer_root_grant env batch decision' denial_note st0 of
                (st1, result) \<Rightarrow> resume_after_batch env remaining (record_result env current result Asked st1))
           else
             (case run_tool env current (Some decision') ByApproval st0 of
                (st1, Inr (Result result)) \<Rightarrow>
                  resume_after_batch env remaining (record_result env current (with_denial_note denial_note result) Asked st1)
              | (st1, Inl e) \<Rightarrow>
                  resume_after_batch env remaining
                    (record_result env current (error_result current (Said (error_to_string e))) Asked st1)
              | (st1, Inr (ApprovalRequired request)) \<Rightarrow>
                  (let request' = request\<lparr>rq_preview := approval_preview env current st1\<rparr> in
                   case park env request' current remaining None st1 of
                     (AwaitingApproval, st2) \<Rightarrow> (Parked, emit (ApprovalAsked request') st2)
                   | (_, st2) \<Rightarrow> (TurnOver, st2)))))"

datatype ApprovalError = NoPendingApproval | StaleApproval

definition submit_approval_with_denial_note ::
  "'w Env \<Rightarrow> ApprovalId \<Rightarrow> ApprovalDecision \<Rightarrow> DenialNote option \<Rightarrow> 'w Runtime
    \<Rightarrow> ApprovalError + TurnStep \<times> 'w Runtime" where
  "submit_approval_with_denial_note env approval_id decision denial_note st =
     (case rt_pending st of
        None \<Rightarrow> Inl NoPendingApproval
      | Some batch \<Rightarrow>
          if pb_approval_id batch \<noteq> approval_id then Inl StaleApproval
          else Inr (handle_approval env batch decision denial_note
                 (emit (ApprovalResolved (tc_id (pb_current batch)) decision) (st\<lparr>rt_pending := None\<rparr>))))"

definition submit_approval ::
  "'w Env \<Rightarrow> ApprovalId \<Rightarrow> ApprovalDecision \<Rightarrow> 'w Runtime \<Rightarrow> ApprovalError + TurnStep \<times> 'w Runtime" where
  "submit_approval env approval_id decision st = submit_approval_with_denial_note env approval_id decision None st"

text \<open>Cancelling a turn, or only the turn named: a parked batch is closed here; a running one sees the
  token at its next look.\<close>

definition cancel_turn_inner :: "'w Env \<Rightarrow> TurnId option \<Rightarrow> TurnId option \<Rightarrow> 'w Runtime \<Rightarrow> 'w Runtime" where
  "cancel_turn_inner env only_if current_turn_id st =
     (if (case only_if of None \<Rightarrow> False | Some want \<Rightarrow> current_turn_id \<noteq> Some want) then st
      else case rt_pending st of
             None \<Rightarrow> st
           | Some batch \<Rightarrow> finalize_cancelled_batch env batch (st\<lparr>rt_pending := None\<rparr>))"

section \<open>Progress of a batch\<close>

definition finished_ids :: "RuntimeEvent list \<Rightarrow> rstr list" where
  "finished_ids events = List.map_filter (\<lambda>e. case e of ToolCallFinished i _ \<Rightarrow> Some i | _ \<Rightarrow> None) events"

definition lost_ids :: "RuntimeEvent list \<Rightarrow> rstr list" where
  "lost_ids events = List.map_filter (\<lambda>e. case e of LostResult i \<Rightarrow> Some i | _ \<Rightarrow> None) events"

lemma event_ids_append [simp]:
  "finished_ids (xs @ ys) = finished_ids xs @ finished_ids ys"
  "lost_ids (xs @ ys) = lost_ids xs @ lost_ids ys"
  by (simp_all add: finished_ids_def lost_ids_def List.map_filter_def)

lemma event_ids_Cons [simp]:
  "finished_ids [] = []" "lost_ids [] = []"
  "finished_ids (e # es) = (case e of ToolCallFinished i _ \<Rightarrow> i # finished_ids es | _ \<Rightarrow> finished_ids es)"
  "lost_ids (e # es) = (case e of LostResult i \<Rightarrow> i # lost_ids es | _ \<Rightarrow> lost_ids es)"
  by (simp_all add: finished_ids_def lost_ids_def List.map_filter_def split: RuntimeEvent.splits)

text \<open>From one state to another exactly these calls were finished: each announced once, in order; where
  they were the next pending ones, each is recorded and the pending ones after them are left, with no
  result lost; the entries of the transcript are the same, and so are the boundary and what is parked.\<close>

definition progress :: "ToolCall list \<Rightarrow> 'w Runtime \<Rightarrow> 'w Runtime \<Rightarrow> bool" where
  "progress calls st st' \<longleftrightarrow>
     finished_ids (rt_events st') = finished_ids (rt_events st) @ map tc_id calls \<and>
     (\<forall>rest. pending_calls (rt_session st) = map tc_id calls @ rest \<longrightarrow>
        pending_calls (rt_session st') = rest \<and> lost_ids (rt_events st') = lost_ids (rt_events st)) \<and>
     session_skeleton (rt_session st') = session_skeleton (rt_session st) \<and>
     rt_boundary st' = rt_boundary st \<and> rt_recorded_roots st' = rt_recorded_roots st \<and> rt_pending st' = rt_pending st"

lemma progress_refl [simp]: "progress [] st st"
  by (simp add: progress_def)

lemma progress_append: "progress xs st st1 \<Longrightarrow> progress ys st1 st2 \<Longrightarrow> progress (xs @ ys) st st2"
  by (simp add: progress_def)

lemma progress_Cons: "progress [x] st st1 \<Longrightarrow> progress ys st1 st2 \<Longrightarrow> progress (x # ys) st st2"
  using progress_append [of "[x]"] by simp

lemma progress_step: "progress [] st st1 \<Longrightarrow> progress ys st1 st2 \<Longrightarrow> progress ys st st2"
  using progress_append [of "[]"] by simp

lemma progress_silent [simp]:
  "progress calls (tick st) st' = progress calls st st'"
  "progress calls st (tick st') = progress calls st st'"
  "progress calls st (flush_session_update st') = progress calls st st'"
  "progress calls st (emit TurnCancelled st') = progress calls st st'"
  "progress calls st (emit (ApprovalResolved i d) st') = progress calls st st'"
  "progress calls st (emit (ApprovalAsked request) st') = progress calls st st'"
  "progress calls st (emit (BreakerError p) st') = progress calls st st'"
  "progress calls (emit (ApprovalResolved i d) st) st' = progress calls st st'"
  "progress calls (st\<lparr>rt_consents := c\<rparr>) st' = progress calls st st'"
  "progress calls st (st'\<lparr>rt_consents := c\<rparr>) = progress calls st st'"
  "progress calls st (st'\<lparr>rt_world := w, rt_fresh := n\<rparr>) = progress calls st st'"
  by (simp_all add: progress_def tick_def emit_def flush_session_update_def)

lemma run_tool_progress: "run_tool env call decision authority st = (st', outcome) \<Longrightarrow> progress [] st st'"
  by (auto simp: run_tool_def Let_def split: if_splits prod.splits)

lemma run_tool_answers:
  assumes "answers_own_calls (e_tools env)" "run_tool env call decision authority st = (st', Inr (Result result))"
  shows "tr_call_id result = tc_id call"
proof (cases "owns_turn env st")
  case False
  with assms(2) show ?thesis by (auto simp: run_tool_def denied_result_def)
next
  case True
  then obtain plan cx w' where run: "run_tool_call_with_plan (e_win env) (e_tools env) (rt_fresh st) call decision plan cx (rt_world st) =
      (w', Inr (Result result))"
    using assms(2) by (auto simp: run_tool_def Let_def split: prod.splits)
  have own: "tr_call_id result = tc_id call"
    if "map_of (reg_tools (e_tools env)) (tc_name call) = Some entry" "reg_prepare entry call = Inr execute"
      "executed execute cx' (rt_world st) = (w', Inr (Result result))" for entry execute cx'
    using assms(1) map_of_SomeD [OF that(1)] that(2,3)
    by (fastforce simp: answers_own_calls_def executed_def split: prod.splits sum.splits)
  show ?thesis
    by (cases rule: run_tool_call_with_plan_cases
        [where win = "e_win env" and reg = "e_tools env" and fresh = "rt_fresh st" and call = call and decision = decision
          and plan = plan and cx = cx and w = "rt_world st"])
      (use run own in \<open>auto simp: error_result_def denied_result_def\<close>)
qed

lemma run_tool_decided:
  assumes "run_tool env call (Some decision) authority st = (st', Inr (ApprovalRequired request))"
  shows False
proof -
  from assms obtain plan cx w' where run: "run_tool_call_with_plan (e_win env) (e_tools env) (rt_fresh st) call (Some decision)
      plan cx (rt_world st) = (w', Inr (ApprovalRequired request))"
    by (auto simp: run_tool_def Let_def split: prod.splits if_splits)
  show False
    by (cases rule: run_tool_call_with_plan_cases
        [where win = "e_win env" and reg = "e_tools env" and fresh = "rt_fresh st" and call = call and decision = "Some decision"
          and plan = plan and cx = cx and w = "rt_world st"])
      (use run in \<open>auto simp: executed_def split: prod.splits sum.splits\<close>)
qed

lemma attach_edit_diagnostics_id [simp]: "tr_call_id (attach_edit_diagnostics env call result) = tr_call_id result"
  by (simp add: attach_edit_diagnostics_def split: ResultText.split)

lemma failure_signals_frame [simp]:
  "rt_session (record_failure_signals env call result st) = rt_session st"
  "rt_events (record_failure_signals env call result st) = rt_events st"
  "rt_boundary (record_failure_signals env call result st) = rt_boundary st"
  "rt_recorded_roots (record_failure_signals env call result st) = rt_recorded_roots st"
  "rt_pending (record_failure_signals env call result st) = rt_pending st"
  by (simp_all add: record_failure_signals_def note_boundary_denial_def note_tool_error_def Let_def split: option.split)

lemma record_result_progress:
  assumes "tr_call_id result = tc_id call"
  shows "progress [call] st (record_result env call result ask st)"
proof -
  let ?r = "attach_edit_diagnostics env call result"
  obtain s' ok where rec: "record_tool_result (e_entry_shared env (rt_clock st)) (tc_id call)
      (truncate_tool_output (tr_content ?r)) (tr_status ?r) ask (rt_session st) = (s', ok)" by fastforce
  have facts: "ok = (tc_id call \<in> set (pending_calls (rt_session st)))" "pending_calls s' = remove1 (tc_id call) (pending_calls (rt_session st))"
    "session_skeleton s' = session_skeleton (rt_session st)"
    using rec record_tool_result_pending record_tool_result_skeleton by (metis fst_conv snd_conv)+
  show ?thesis
    using rec facts assms by (simp add: record_result_def progress_def Let_def emit_def tick_def)
qed

lemma finish_cancelled_progress: "progress calls st (finish_cancelled_calls env calls st)"
proof -
  have "progress calls st (fold (\<lambda>call. record_result env call (error_result call CancelledResult) Unasked) calls st)"
  proof (induction calls arbitrary: st)
    case (Cons call calls)
    have "progress [call] st (record_result env call (error_result call CancelledResult) Unasked st)"
      by (rule record_result_progress) (simp add: error_result_def)
    from progress_Cons [OF this Cons] show ?case by simp
  qed simp
  then show ?thesis by (simp add: finish_cancelled_calls_def)
qed

lemma outcome_result_id:
  "answers_own_calls (e_tools env) \<Longrightarrow> run_tool env call decision authority st = (st', outcome) \<Longrightarrow>
   tr_call_id (outcome_result call again outcome) = tc_id call"
  by (auto simp: outcome_result_def error_result_def run_tool_answers split: sum.splits ToolRunOutcome.splits)

lemma run_group_progress:
  assumes "answers_own_calls (e_tools env)" "run_group env calls st = (st', outcomes)"
  shows "progress [] st st' \<and> length outcomes = length calls \<and>
    list_all2 (\<lambda>call outcome. \<forall>again. tr_call_id (outcome_result call again outcome) = tc_id call) calls outcomes"
  using assms(2)
proof (induction calls arbitrary: st st' outcomes)
  case (Cons call calls)
  obtain st1 outcome where r: "run_tool env call None ByApproval st = (st1, outcome)" by fastforce
  with Cons.prems obtain os where os: "run_group env calls st1 = (st', os)" "outcomes = outcome # os"
    by (auto split: prod.splits)
  from Cons.IH [OF os(1)] os(2) r assms(1) outcome_result_id [OF assms(1) r] run_tool_progress [OF r]
  show ?case by (auto intro: progress_step)
qed simp

lemma record_group_progress:
  "list_all2 (\<lambda>call outcome. \<forall>again. tr_call_id (outcome_result call again outcome) = tc_id call) calls outcomes \<Longrightarrow>
   progress calls st (record_group env (zip calls outcomes) st)"
proof (induction calls arbitrary: st outcomes)
  case (Cons call calls)
  then obtain o1 os where os: "outcomes = o1 # os" "\<forall>again. tr_call_id (outcome_result call again o1) = tc_id call"
    "list_all2 (\<lambda>call outcome. \<forall>again. tr_call_id (outcome_result call again outcome) = tc_id call) calls os"
    by (auto simp: list_all2_Cons1)
  show ?case
    unfolding os(1) record_group_def
    using progress_Cons [OF record_result_progress Cons.IH [OF os(3)]] os(2) by (simp add: record_group_def)
qed (simp add: record_group_def)

lemma ask_gate_progress:
  assumes "answers_own_calls (e_tools env)"
  shows "case ask_gate env call request st of
      (st', None) \<Rightarrow> progress [call] st st'
    | (st', Some _) \<Rightarrow> progress [] st st'"
proof (cases "auto_approval_granted (e_win env) (e_resolves env) (e_to_string env) (e_judge env) (e_gate env (rt_clock st))
    (rt_consents st) call request (rt_user_task st) (e_token_cancelled env (rt_clock st))")
  case None
  have "progress [call] (tick st) (record_result env call (error_result call (RootGrantSays why)) Unasked (tick st))" for why
    by (rule record_result_progress) (simp add: error_result_def)
  with None show ?thesis by (simp add: ask_gate_def split: RootGrantPrompt.split)
next
  case (Some granted)
  let ?st = "emit (ApprovalResolved (tc_id call) Approved) (tick st)"
  let ?again = "''tool re-requested approval after auto-approve''"
  obtain st1 outcome where r: "run_tool env call (Some Approved) (authority_of granted) ?st = (st1, outcome)" by fastforce
  have "progress [call] st1 (record_result env call (outcome_result call ?again outcome) Unasked st1)"
    by (rule record_result_progress [OF outcome_result_id [OF assms r]])
  from progress_step [OF run_tool_progress [OF r] this] Some r show ?thesis by (simp add: ask_gate_def)
qed

section \<open>What a batch ends in\<close>

definition batch_result :: "ToolCall list \<Rightarrow> 'w Runtime \<Rightarrow> BatchOutcome \<times> 'w Runtime \<Rightarrow> bool" where
  "batch_result calls st result =
     (case result of
        (AwaitingApproval, st') \<Rightarrow>
          (\<exists>finished batch. calls = finished @ pb_current batch # pb_remaining batch \<and> rt_pending st' = Some batch \<and>
             progress finished st (st'\<lparr>rt_pending := rt_pending st\<rparr>))
      | (_, st') \<Rightarrow> progress calls st st')"

lemma batch_result_after:
  assumes "progress xs st st1" "batch_result ys st1 result"
  shows "batch_result (xs @ ys) st result"
proof (cases result)
  case (Pair outcome st')
  have same: "rt_pending st1 = rt_pending st" using assms(1) by (simp add: progress_def)
  show ?thesis
  proof (cases outcome)
    case AwaitingApproval
    with assms(2) Pair obtain finished batch where "ys = finished @ pb_current batch # pb_remaining batch"
      "rt_pending st' = Some batch" "progress finished st1 (st'\<lparr>rt_pending := rt_pending st1\<rparr>)"
      by (auto simp: batch_result_def)
    then have "xs @ ys = (xs @ finished) @ pb_current batch # pb_remaining batch \<and> rt_pending st' = Some batch \<and>
        progress (xs @ finished) st (st'\<lparr>rt_pending := rt_pending st\<rparr>)"
      using progress_append [OF assms(1)] same by simp
    then have "\<exists>finished batch. xs @ ys = finished @ pb_current batch # pb_remaining batch \<and> rt_pending st' = Some batch \<and>
        progress finished st (st'\<lparr>rt_pending := rt_pending st\<rparr>)" by blast
    with Pair AwaitingApproval show ?thesis by (simp only: batch_result_def prod.case BatchOutcome.case)
  qed (use assms progress_append Pair in \<open>auto simp: batch_result_def\<close>)
qed

lemma park_result:
  "batch_result (call # remaining) st (park env request call remaining target st)"
proof (cases "owns_turn env st")
  case True
  have "\<exists>finished batch. call # remaining = finished @ pb_current batch # pb_remaining batch \<and>
      rt_pending (snd (park env request call remaining target st)) = Some batch \<and>
      progress finished st ((snd (park env request call remaining target st))\<lparr>rt_pending := rt_pending st\<rparr>)"
    using True
    by (intro exI [of _ "[]"] exI [of _ "\<lparr>pb_approval_id = rq_approval_id request, pb_current = call,
        pb_remaining = remaining, pb_root_grant_target = target\<rparr>"]) (simp add: park_def progress_def tick_def)
  with True show ?thesis by (simp add: park_def batch_result_def)
next
  case False
  then show ?thesis
    using finish_cancelled_progress [of "call # remaining" "tick st" env] by (simp add: park_def batch_result_def)
qed

lemma batch_result_silent:
  "batch_result calls (tick st) result = batch_result calls st result"
  "batch_result calls st (AwaitingApproval, emit (ApprovalAsked request) (flush_session_update st')) =
   batch_result calls st (AwaitingApproval, st')"
  by (auto simp: batch_result_def progress_def tick_def emit_def flush_session_update_def split: prod.split BatchOutcome.split)

lemma process_tool_batch_result:
  assumes "answers_own_calls (e_tools env)"
  shows "batch_result calls st (process_tool_batch env calls st)"
  using assms
proof (induction env calls st rule: process_tool_batch.induct)
  case (1 env st)
  then show ?case by (simp add: batch_result_def)
next
  case (2 env call remaining st)
  show ?case
  proof (cases "owns_turn env st")
    case False
    then show ?thesis
      using finish_cancelled_progress [of "call # remaining" "tick st" env] by (simp add: batch_result_def)
  next
    case owned: True
    let ?group = "call # takeWhile (is_parallel_safe env) remaining"
    let ?later = "dropWhile (is_parallel_safe env) remaining"
    let ?par = "is_parallel_safe env call \<and> (case remaining of [] \<Rightarrow> False | following # _ \<Rightarrow> is_parallel_safe env following)"
    show ?thesis
    proof (cases ?par)
      case par: True
      obtain st1 outcomes where g: "run_group env ?group (tick st) = (st1, outcomes)" by fastforce
      note facts = run_group_progress [OF "2.prems" g]
      have "progress ?group st (record_group env (zip ?group outcomes) st1)"
        using progress_step [of "tick st" st1] record_group_progress [of ?group outcomes st1 env] facts by simp
      moreover have "batch_result ?later (record_group env (zip ?group outcomes) st1)
          (process_tool_batch env ?later (record_group env (zip ?group outcomes) st1))"
        by (rule "2.IH"(1)) (use owned par g "2.prems" in simp_all)
      ultimately have "batch_result (?group @ ?later) st (process_tool_batch env ?later (record_group env (zip ?group outcomes) st1))"
        by (rule batch_result_after)
      then show ?thesis using owned par g by (simp add: Let_def)
    next
      case solo: False
      obtain st1 outcome where r: "run_tool env call None ByApproval (tick st) = (st1, outcome)" by fastforce
      note silent = run_tool_progress [OF r]
      have go: "batch_result (call # remaining) st (process_tool_batch env remaining st2)"
        if "progress [call] st1 st2" "batch_result remaining st2 (process_tool_batch env remaining st2)" for st2
        using batch_result_after [OF progress_step [OF silent that(1)] that(2)] by (simp add: batch_result_silent)
      show ?thesis
      proof (cases outcome)
        case (Inl e)
        let ?st2 = "record_result env call (error_result call (Said (error_to_string e))) Unasked st1"
        have "progress [call] st1 ?st2" by (rule record_result_progress) (simp add: error_result_def)
        moreover have "batch_result remaining ?st2 (process_tool_batch env remaining ?st2)"
          by (rule "2.IH"(2)) (use owned solo r Inl "2.prems" in simp_all)
        ultimately show ?thesis using go owned solo r Inl by auto
      next
        case (Inr out)
        show ?thesis
        proof (cases out)
          case (Result result)
          let ?st2 = "record_result env call result Unasked st1"
          have "progress [call] st1 ?st2"
            by (rule record_result_progress) (rule run_tool_answers [OF "2.prems" r [unfolded Inr Result]])
          moreover have "batch_result remaining ?st2 (process_tool_batch env remaining ?st2)"
            by (rule "2.IH"(4)) (use owned solo r Inr Result "2.prems" in simp_all)
          ultimately show ?thesis using go owned solo r Inr Result by auto
        next
          case (ApprovalRequired request)
          obtain st2 parked where a: "ask_gate env call request st1 = (st2, parked)" by fastforce
          note gate = ask_gate_progress [OF "2.prems", where call = call and request = request and st = st1, unfolded a prod.case]
          show ?thesis
          proof (cases parked)
            case None
            have "batch_result remaining st2 (process_tool_batch env remaining st2)"
              by (rule "2.IH"(3)) (use owned solo r Inr ApprovalRequired None a [symmetric] "2.prems" in simp_all)
            with None gate show ?thesis using go owned solo r Inr ApprovalRequired a by auto
          next
            case (Some rt)
            obtain request' target where rt: "rt = (request', target)" by (cases rt)
            obtain outcome3 st3 where p: "park env request' call remaining target st2 = (outcome3, st3)" by fastforce
            have "progress [] st st2"
              using progress_step [OF silent, of "[]" st2] gate Some by simp
            from batch_result_after [OF this park_result [of call remaining st2 env request' target, unfolded p]]
            have "batch_result (call # remaining) st (outcome3, st3)" by simp
            then show ?thesis
              using owned Inr ApprovalRequired r solo a Some rt p
              by (cases outcome3) (auto simp: batch_result_silent)
          qed
        qed
      qed
    qed
  qed
qed

lemma resume_after_batch_progress:
  assumes "answers_own_calls (e_tools env)" "resume_after_batch env remaining st = (step, st')"
  shows "if step = Parked
    then \<exists>finished batch. remaining = finished @ pb_current batch # pb_remaining batch \<and> rt_pending st' = Some batch \<and>
           progress finished st (st'\<lparr>rt_pending := rt_pending st\<rparr>)
    else progress remaining st st'"
proof (cases "owns_turn env st")
  case False
  then show ?thesis
    using finish_cancelled_progress [of remaining "tick st" env] assms(2) by (auto simp: resume_after_batch_def)
next
  case True
  obtain outcome st1 where p: "process_tool_batch env remaining (tick st) = (outcome, st1)" by fastforce
  have b: "batch_result remaining st (outcome, st1)"
    using process_tool_batch_result [OF assms(1), of remaining "tick st"] p by (simp add: batch_result_silent)
  show ?thesis
  proof (cases outcome)
    case AwaitingApproval
    then have "step = Parked" "st' = st1" using True p assms(2) by (auto simp: resume_after_batch_def)
    with b AwaitingApproval show ?thesis by (simp add: batch_result_def)
  qed (use True p assms(2) b in
      \<open>auto simp: resume_after_batch_def batch_result_def boundary_breaker_tripped_def split: if_splits\<close>)
qed

text \<open>C8 (liveness). Every call of a turn gets its result. Run on the pending calls of the newest reply, a batch
  ends in one of two ways, whatever the tools, the modes and the answers of the judge, and wherever a
  cancellation falls. Either every call has exactly one recorded result, announced once in issue order,
  and no call of the reply is left pending; or the calls before one of them do, that one is parked with
  the calls after it, and exactly those are still pending. No recorded result is ever lost, and the
  entries of the transcript and the write boundary stay as they were.\<close>

theorem batch_settles:
  assumes "answers_own_calls (e_tools env)" and "pending_calls (rt_session st) = map tc_id calls"
    and "process_tool_batch env calls st = (outcome, st')"
  shows "\<exists>settled. prefix settled calls \<and>
    finished_ids (rt_events st') = finished_ids (rt_events st) @ map tc_id settled \<and>
    lost_ids (rt_events st') = lost_ids (rt_events st) \<and>
    session_skeleton (rt_session st') = session_skeleton (rt_session st) \<and>
    rt_boundary st' = rt_boundary st \<and>
    (if outcome = AwaitingApproval
     then \<exists>batch. rt_pending st' = Some batch \<and> calls = settled @ pb_current batch # pb_remaining batch \<and>
            pending_calls (rt_session st') = map tc_id (pb_current batch # pb_remaining batch)
     else settled = calls \<and> pending_calls (rt_session st') = [])"
proof -
  have b: "batch_result calls st (outcome, st')"
    using process_tool_batch_result [OF assms(1), of calls st] assms(3) by simp
  show ?thesis
  proof (cases "outcome = AwaitingApproval")
    case True
    with b obtain settled batch where s: "calls = settled @ pb_current batch # pb_remaining batch" "rt_pending st' = Some batch"
      "progress settled st (st'\<lparr>rt_pending := rt_pending st\<rparr>)" by (auto simp: batch_result_def)
    then show ?thesis using True assms(2) by (intro exI [of _ settled]) (auto simp: progress_def)
  next
    case False
    with b have "progress calls st st'" by (cases outcome) (simp_all add: batch_result_def)
    then show ?thesis using False assms(2) by (intro exI [of _ calls]) (auto simp: progress_def)
  qed
qed

text \<open>The states before the current call's result is recorded: nothing was finished yet.\<close>

definition same_batch :: "'w Runtime \<Rightarrow> 'w Runtime \<Rightarrow> bool" where
  "same_batch st st1 \<longleftrightarrow>
     rt_session st1 = rt_session st \<and> finished_ids (rt_events st1) = finished_ids (rt_events st) \<and>
     lost_ids (rt_events st1) = lost_ids (rt_events st) \<and> rt_pending st1 = rt_pending st"

lemma apply_root_grant_same:
  "apply_root_grant env call target st = (st1, result) \<Longrightarrow> same_batch st st1 \<and> tr_call_id result = tc_id call"
  by (auto simp: apply_root_grant_def Let_def same_batch_def tick_def emit_def remember_root_def error_result_def
      success_result_def denied_result_def split: sum.splits option.splits if_splits prod.splits RootGrantOutcome.splits)

lemma answer_root_grant_same:
  "answer_root_grant env batch decision denial_note st = (st1, result) \<Longrightarrow>
   same_batch st st1 \<and> tr_call_id result = tc_id (pb_current batch)"
  by (cases decision) (auto simp: answer_root_grant_def same_batch_def denied_result_def dest: apply_root_grant_same)

lemma run_tool_same: "run_tool env call decision authority st = (st1, outcome) \<Longrightarrow> same_batch st st1"
  by (auto simp: run_tool_def Let_def same_batch_def tick_def split: if_splits prod.splits)

text \<open>The boundary is as before, or an answer other than a refusal widened it by the directory that was
  resolved and shown when the call was parked, and that the request resolves to again.\<close>

definition widened_as_shown :: "'w Env \<Rightarrow> PendingToolBatch \<Rightarrow> ApprovalDecision \<Rightarrow> 'w Runtime \<Rightarrow> 'w Runtime \<Rightarrow> bool" where
  "widened_as_shown env batch decision st st1 \<longleftrightarrow>
     rt_boundary st1 = rt_boundary st \<or>
     is_root_grant (tc_name (pb_current batch)) \<and> decision \<noteq> Denied \<and>
     (\<exists>shown boundary raw n. pb_root_grant_target batch = Some shown \<and> rt_boundary st = Some boundary \<and>
        parse_arguments (tc_arguments (pb_current batch)) = Inr raw \<and> owns_turn env (st\<lparr>rt_clock := n + 1\<rparr>) \<and>
        resolve_grant_target (e_disk env n) (e_cwd env) (e_home env) boundary (path_of raw) = Inr shown \<and>
        rt_boundary st1 = Some (fst (grant_resolved shown boundary)))"

lemma owns_turn_clock: "owns_turn env (tick st) = owns_turn env (st0\<lparr>rt_clock := rt_clock st + 1\<rparr>)"
  by (simp add: owns_turn_def tick_def)

lemma answer_root_grant_widens:
  assumes "is_root_grant (tc_name (pb_current batch))"
    and "answer_root_grant env batch decision denial_note st = (st1, result)"
  shows "widened_as_shown env batch decision st st1"
proof (cases "decision = Denied")
  case True
  with assms(2) show ?thesis by (simp add: answer_root_grant_def widened_as_shown_def)
next
  case False
  then have "apply_root_grant env (pb_current batch) (pb_root_grant_target batch) st = (st1, result)"
    using assms(2) by (cases decision) (simp_all add: answer_root_grant_def)
  then show ?thesis
    using False assms(1) owns_turn_clock [of env st st]
    by (auto simp: apply_root_grant_def widened_as_shown_def Let_def tick_def emit_def remember_root_def
        split: sum.splits option.splits if_splits prod.splits RootGrantOutcome.splits)
qed

lemma run_tool_boundary: "run_tool env call decision authority st = (st1, outcome) \<Longrightarrow> rt_boundary st1 = rt_boundary st"
  by (drule run_tool_progress) (simp add: progress_def)

lemma widened_as_shown_from:
  "rt_boundary st0 = rt_boundary st \<Longrightarrow> widened_as_shown env batch decision st0 st1 \<Longrightarrow>
   (decision = Denied \<longleftrightarrow> decision' = Denied) \<Longrightarrow> widened_as_shown env batch decision' st st1"
  by (auto simp: widened_as_shown_def owns_turn_def)

definition settled_from :: "ToolCall list \<Rightarrow> 'w Runtime \<Rightarrow> TurnStep \<times> 'w Runtime \<Rightarrow> bool" where
  "settled_from calls st result =
     (case result of
        (Parked, st') \<Rightarrow>
          (\<exists>settled batch. settled \<noteq> [] \<and> calls = settled @ pb_current batch # pb_remaining batch \<and>
             rt_pending st' = Some batch \<and> progress settled st (st'\<lparr>rt_pending := rt_pending st\<rparr>))
      | (_, st') \<Rightarrow> progress calls st st')"

lemma recorded_then_resumed:
  assumes "answers_own_calls (e_tools env)" "tr_call_id result = tc_id call"
  shows "settled_from (call # remaining) st1 (resume_after_batch env remaining (record_result env call result Asked st1))"
proof -
  let ?st2 = "record_result env call result Asked st1"
  obtain step st' where r: "resume_after_batch env remaining ?st2 = (step, st')" by fastforce
  note p = record_result_progress [OF assms(2), of st1 env Asked]
  then have same: "rt_pending ?st2 = rt_pending st1" by (simp add: progress_def)
  note q = resume_after_batch_progress [OF assms(1) r]
  show ?thesis
  proof (cases "step = Parked")
    case True
    with q obtain settled batch where f: "remaining = settled @ pb_current batch # pb_remaining batch"
      "rt_pending st' = Some batch" "progress settled ?st2 (st'\<lparr>rt_pending := rt_pending st1\<rparr>)" by (auto simp: same)
    then have "call # remaining = (call # settled) @ pb_current batch # pb_remaining batch"
      "progress (call # settled) st1 (st'\<lparr>rt_pending := rt_pending st1\<rparr>)" using progress_Cons [OF p] by simp_all
    with f(2) True r show ?thesis unfolding settled_from_def by (auto intro!: exI [of _ "call # settled"] exI [of _ batch])
  next
    case False
    with q progress_Cons [OF p] r show ?thesis by (cases step) (simp_all add: settled_from_def)
  qed
qed

lemma handle_approval_settles:
  assumes "answers_own_calls (e_tools env)"
  shows "\<exists>st1. same_batch st st1 \<and> widened_as_shown env batch decision st st1 \<and>
    settled_from (pb_current batch # pb_remaining batch) st1 (handle_approval env batch decision denial_note st)"
proof (cases "owns_turn env st")
  case False
  then show ?thesis
    using finish_cancelled_progress [of "pb_current batch # pb_remaining batch" "tick st" env]
    by (intro exI [of _ st]) (simp add: handle_approval_def Let_def settled_from_def same_batch_def widened_as_shown_def)
next
  case True
  obtain consents' decision' where c: "record_session_consent (e_win env) (e_tools env) (pb_current batch) decision (rt_consents st) =
      (consents', decision')" by fastforce
  define st0 where "st0 = (tick st)\<lparr>rt_consents := consents'\<rparr>"
  have s0: "same_batch st st0" "rt_boundary st0 = rt_boundary st" by (simp_all add: st0_def same_batch_def tick_def)
  have same_answer: "decision' = Denied \<longleftrightarrow> decision = Denied"
    using c by (auto simp: record_session_consent_def split: if_splits)
  have via: "\<exists>st1. same_batch st st1 \<and> widened_as_shown env batch decision st st1 \<and> settled_from (pb_current batch # pb_remaining batch) st1
      (resume_after_batch env (pb_remaining batch) (record_result env (pb_current batch) result Asked st1'))"
    if "same_batch st0 st1'" "tr_call_id result = tc_id (pb_current batch)" "widened_as_shown env batch decision' st0 st1'"
    for st1' result
    using that s0 recorded_then_resumed [OF assms that(2), of "pb_remaining batch" st1']
      widened_as_shown_from [OF s0(2) that(3) same_answer]
    by (intro exI [of _ st1']) (simp add: same_batch_def)
  show ?thesis
  proof (cases "is_root_grant (tc_name (pb_current batch))")
    case grant: True
    obtain st1 result where a: "answer_root_grant env batch decision' denial_note st0 = (st1, result)" by fastforce
    from via [OF conjunct1 [OF answer_root_grant_same [OF a]] conjunct2 [OF answer_root_grant_same [OF a]] answer_root_grant_widens [OF grant a]]
    show ?thesis using True grant c a by (simp add: handle_approval_def Let_def st0_def)
  next
    case tool: False
    obtain st1 outcome where r: "run_tool env (pb_current batch) (Some decision') ByApproval st0 = (st1, outcome)" by fastforce
    note s1 = run_tool_same [OF r]
    have w1: "widened_as_shown env batch decision' st0 st1"
      using run_tool_boundary [OF r] by (simp add: widened_as_shown_def)
    show ?thesis
    proof (cases outcome)
      case (Inl e)
      have "tr_call_id (error_result (pb_current batch) (Said (error_to_string e))) = tc_id (pb_current batch)"
        by (simp add: error_result_def)
      from via [OF s1 this w1] show ?thesis using True tool c r Inl by (simp add: handle_approval_def Let_def st0_def)
    next
      case (Inr out)
      then obtain result where out: "out = Result result" using run_tool_decided r by (cases out) blast+
      from run_tool_answers [OF assms r [unfolded Inr out]]
      have "tr_call_id (with_denial_note denial_note result) = tc_id (pb_current batch)"
        by (simp add: with_denial_note_def split: option.split)
      from via [OF s1 this w1] show ?thesis using True tool c r Inr out by (simp add: handle_approval_def Let_def st0_def)
    qed
  qed
qed


lemma settled_from_boundary: "settled_from calls st (step, st') \<Longrightarrow> rt_boundary st' = rt_boundary st"
  by (cases step) (auto simp: settled_from_def progress_def)

text \<open>C11 (safety). The write boundary is widened by an answer alone, and only by what was shown. Running a batch
  never changes it, in any mode and with any consent. An answer changes it only where the parked call
  is a request for a write root, the answer is not a refusal, the turn is still this one, and the request
  resolves, at that moment, to the very directory recorded when the user was asked; and then it grows by
  that directory only.\<close>

theorem boundary_widens_as_shown:
  assumes "answers_own_calls (e_tools env)"
  shows "rt_boundary (snd (process_tool_batch env calls st)) = rt_boundary st \<and>
    (case rt_pending st of
       None \<Rightarrow> True
     | Some batch \<Rightarrow>
         (case submit_approval_with_denial_note env approval_id decision denial_note st of
            Inl _ \<Rightarrow> True
          | Inr (step, st') \<Rightarrow>
              rt_boundary st' = rt_boundary st \<or>
              is_root_grant (tc_name (pb_current batch)) \<and> decision \<noteq> Denied \<and>
              (\<exists>shown boundary raw n. pb_root_grant_target batch = Some shown \<and> rt_boundary st = Some boundary \<and>
                 parse_arguments (tc_arguments (pb_current batch)) = Inr raw \<and> owns_turn env (st\<lparr>rt_clock := n + 1\<rparr>) \<and>
                 resolve_grant_target (e_disk env n) (e_cwd env) (e_home env) boundary (path_of raw) = Inr shown \<and>
                 rt_boundary st' = Some (fst (grant_resolved shown boundary)))))"
proof -
  obtain outcome st1 where p: "process_tool_batch env calls st = (outcome, st1)" by fastforce
  from process_tool_batch_result [OF assms, of calls st] p have "rt_boundary st1 = rt_boundary st"
    by (cases outcome) (auto simp: batch_result_def progress_def)
  moreover have "widened_as_shown env batch decision st st'"
    if "rt_pending st = Some batch"
      "submit_approval_with_denial_note env approval_id decision denial_note st = Inr (step, st')" for batch step st'
  proof -
    let ?st = "emit (ApprovalResolved (tc_id (pb_current batch)) decision) (st\<lparr>rt_pending := None\<rparr>)"
    from that have "handle_approval env batch decision denial_note ?st = (step, st')"
      by (simp add: submit_approval_with_denial_note_def split: if_splits)
    with handle_approval_settles [OF assms, of ?st batch decision denial_note] obtain st2 where
      w: "widened_as_shown env batch decision ?st st2" and "settled_from (pb_current batch # pb_remaining batch) st2 (step, st')"
      by auto
    from settled_from_boundary [OF this(2)] w show ?thesis
      by (auto simp: widened_as_shown_def owns_turn_def emit_def)
  qed
  ultimately show ?thesis using p by (auto simp: widened_as_shown_def split: option.splits sum.splits prod.splits)
qed

text \<open>A batch of two calls: a read, and a write that asks.\<close>

definition demo_tool :: "rstr \<Rightarrow> nat RegisteredTool" where
  "demo_tool name = typed_tool
     \<lparr>spec_name = name, spec_description = [], spec_parameters = Null, spec_requires_approval = False\<rparr>
     (\<lambda>arguments. Inr arguments) (\<lambda>params cx w. (Suc w, Inr (text_output ''ok'')))"

definition demo_call :: "rstr \<Rightarrow> rstr \<Rightarrow> ToolCall" where
  "demo_call i name = \<lparr>tc_id = i, tc_name = name, tc_arguments = Object []\<rparr>"

definition demo_env :: "nat Env" where
  "demo_env = \<lparr>e_win = False,
     e_tools = \<lparr>reg_tools = [(''write_file'', demo_tool ''write_file''), (''read_file'', demo_tool ''read_file'')],
       reg_policy = default_policy False\<rparr>,
     e_resolves = (\<lambda>_. True), e_to_string = (\<lambda>_. []), e_judge = (\<lambda>_. False),
     e_gate = (\<lambda>_. \<lparr>g_is_subagent = False, g_auto_allow = [], g_provider_is_echo = False, g_mode = Default\<rparr>),
     e_turn_is_current = (\<lambda>_. True), e_token_cancelled = (\<lambda>_. False), e_entry_shared = (\<lambda>_. False),
     e_disk = (\<lambda>_. Map.empty), e_cwd = [], e_home = None, e_diagnostics = (\<lambda>_. []), e_preview = (\<lambda>_ _. None),
     e_write_denial_note = ''[note] outside''\<rparr>"

definition demo_calls :: "ToolCall list" where
  "demo_calls = [demo_call ''c1'' ''read_file'', demo_call ''c2'' ''write_file'']"

definition demo_runtime :: "nat Runtime" where
  "demo_runtime = \<lparr>rt_session = push_assistant ''t1'' [] []
       (map (\<lambda>c. \<lparr>payload_id = tc_id c, payload_type = ''function'', payload_name = tc_name c, payload_arguments = []\<rparr>) demo_calls) new_session,
     rt_world = 0, rt_pending = None, rt_consents = no_consents, rt_user_task = [], rt_turn_tool_errors = 0,
     rt_cascade_escalated = False, rt_cascade_triggered = False, rt_turn_boundary_denials = 0,
     rt_last_boundary_denial_path = None, rt_boundary = None, rt_recorded_roots = None, rt_clock = 0, rt_fresh = 0,
     rt_events = []\<rparr>"

lemma demo_tools_answer: "answers_own_calls (e_tools demo_env)"
  by (auto simp: answers_own_calls_def demo_env_def demo_tool_def dest: typed_tool_answers)

lemma truncate_tool_output_code [code]:
  "truncate_tool_output text =
     (case text of
        Said said \<Rightarrow>
          if length said \<le> 80 then Said said
          else clip_middle said TOOL_OUTPUT_BUDGET TOOL_OUTPUT_HEAD TOOL_OUTPUT_TAIL
      | _ \<Rightarrow> text)"
  by (simp add: truncate_tool_output_def clip_middle_def TOOL_OUTPUT_BUDGET_def split: ResultText.split)

lemma process_tool_batch_runs:
  assumes "owns_turn env st" "\<not> is_parallel_safe env call"
    and "snd (run_tool env call None ByApproval (tick st)) = Inr (Result result)"
  shows "process_tool_batch env (call # remaining) st =
    process_tool_batch env remaining (record_result env call result Unasked (fst (run_tool env call None ByApproval (tick st))))"
proof -
  obtain st1 where "run_tool env call None ByApproval (tick st) = (st1, Inr (Result result))"
    using assms(3) by (metis prod.collapse)
  then show ?thesis using assms(1,2) by simp
qed

definition demo_read :: "nat Runtime" where
  "demo_read = record_result demo_env (demo_call ''c1'' ''read_file'')
     (into_result (text_output ''ok'') ''c1'' ''read_file'') Unasked
     (fst (run_tool demo_env (demo_call ''c1'' ''read_file'') None ByApproval (tick demo_runtime)))"

lemma demo_batch:
  "process_tool_batch demo_env demo_calls demo_runtime = process_tool_batch demo_env [demo_call ''c2'' ''write_file''] demo_read"
proof -
  have "owns_turn demo_env demo_runtime" "\<not> is_parallel_safe demo_env (demo_call ''c1'' ''read_file'')"
    "snd (run_tool demo_env (demo_call ''c1'' ''read_file'') None ByApproval (tick demo_runtime)) =
      Inr (Result (into_result (text_output ''ok'') ''c1'' ''read_file''))"
    by code_simp+
  from process_tool_batch_runs [OF this] show ?thesis by (simp add: demo_calls_def demo_read_def)
qed

lemma demo_parks:
  "case process_tool_batch demo_env [demo_call ''c2'' ''write_file''] demo_read of (outcome, st) \<Rightarrow>
     outcome = AwaitingApproval \<and> rt_world st = 1 \<and> pending_calls (rt_session st) = [''c2''] \<and>
     (case rt_pending st of
        None \<Rightarrow> False
      | Some batch \<Rightarrow> pb_current batch = demo_call ''c2'' ''write_file'' \<and> pb_approval_id batch = 1 \<and> pb_remaining batch = [])"
  by code_simp

lemma demo_pending: "pending_calls (rt_session demo_runtime) = map tc_id demo_calls"
  by code_simp

theorem batch_settles_witness:
  "case process_tool_batch demo_env demo_calls demo_runtime of (outcome, st) \<Rightarrow>
     finished_ids (rt_events st) = [''c1''] \<and> pending_calls (rt_session st) = [''c2'']"
proof -
  obtain outcome st where p: "process_tool_batch demo_env demo_calls demo_runtime = (outcome, st)" by fastforce
  with demo_parks demo_batch obtain batch where d: "outcome = AwaitingApproval" "rt_pending st = Some batch"
    "pb_current batch = demo_call ''c2'' ''write_file''" "pb_remaining batch = []"
    by (auto split: option.splits)
  from batch_settles [OF demo_tools_answer demo_pending p] d obtain settled where
    s: "demo_calls = settled @ [demo_call ''c2'' ''write_file'']"
      "finished_ids (rt_events st) = finished_ids (rt_events demo_runtime) @ map tc_id settled"
      "pending_calls (rt_session st) = [''c2'']"
    by (auto simp: demo_call_def)
  from s(1) have "settled = [demo_call ''c1'' ''read_file'']" by (simp add: demo_calls_def)
  with s(2,3) p show ?thesis by (simp add: demo_runtime_def demo_call_def)
qed


theorem boundary_widens_as_shown_witness:
  "let env = demo_env\<lparr>e_disk := \<lambda>_. sample_disk, e_home := Some (canonical_path [''home'']),
         e_tools := \<lparr>reg_tools = [(''request_write_root'', demo_tool ''request_write_root'')], reg_policy = default_policy False\<rparr>\<rparr>;
       call = \<lparr>tc_id = ''c1'', tc_name = ''request_write_root'',
         tc_arguments = Object [(''path'', String ''/lib''), (''justification'', String ''build'')]\<rparr>;
       st = demo_runtime\<lparr>rt_boundary := Some sample_policy\<rparr>;
       parked = snd (process_tool_batch env [call] st)
   in rt_boundary parked = Some sample_policy \<and>
      (case submit_approval_with_denial_note env 0 Approved None parked of
         Inl _ \<Rightarrow> False
       | Inr (_, st') \<Rightarrow> rt_boundary st' = Some (fst (grant_resolved (canonical_path [''lib'']) sample_policy)))"
proof -
  define env where "env = demo_env\<lparr>e_disk := \<lambda>_. sample_disk, e_home := Some (canonical_path [''home'']),
    e_tools := \<lparr>reg_tools = [(''request_write_root'', demo_tool ''request_write_root'')], reg_policy = default_policy False\<rparr>\<rparr>"
  define call where "call = \<lparr>tc_id = ''c1'', tc_name = ''request_write_root'',
    tc_arguments = Object [(''path'', String ''/lib''), (''justification'', String ''build'')]\<rparr>"
  define st where "st = demo_runtime\<lparr>rt_boundary := Some sample_policy\<rparr>"
  have a: "answers_own_calls (e_tools env)"
    by (auto simp: answers_own_calls_def env_def demo_tool_def dest: typed_tool_answers)
  have "case submit_approval_with_denial_note env 0 Approved None (snd (process_tool_batch env [call] st)) of
      Inl _ \<Rightarrow> False
    | Inr (_, st') \<Rightarrow> rt_boundary st' = Some (fst (grant_resolved (canonical_path [''lib'']) sample_policy))"
    unfolding env_def call_def st_def by code_simp
  moreover from boundary_widens_as_shown [OF a, where calls = "[call]" and st = st]
  have "rt_boundary (snd (process_tool_batch env [call] st)) = Some sample_policy" by (simp add: st_def)
  ultimately show ?thesis
    unfolding Let_def env_def [symmetric] call_def [symmetric] st_def [symmetric] by simp
qed

end
