(* ===== verification/Compaction.thy ===== *)
theory Compaction
  imports Session Approval_Classifier
begin

text \<open>
  Folding the history of a long session, \<^verbatim>\<open>compaction.rs\<close> and \<^verbatim>\<open>runtime/compaction_flow.rs\<close>: where a
  fold cuts, what it keeps, the summary it writes without a model, the transcript it hands to the model
  that writes one, the reading of that model's reply, and the fold itself beside whatever else touches
  the session while the summary is being written.

  The sentences of the summaries hold characters outside the model's alphabet; they are the record
  \<open>Texts\<close>, a parameter. The reply of the summarizing model is a parameter too.
\<close>

section \<open>Where a fold cuts\<close>

definition RECENT_TAIL_ENTRIES :: nat where "RECENT_TAIL_ENTRIES = 5"
definition MAX_HANDOVER_SUMMARY_CHARS :: nat where "MAX_HANDOVER_SUMMARY_CHARS = 16000"
definition COMPACTION_CARRY_MAX_CHARS :: nat where "COMPACTION_CARRY_MAX_CHARS = MAX_HANDOVER_SUMMARY_CHARS"

type_synonym held_entry = "entry_ptr \<times> SessionEntry"

record CompactionPlan =
  cp_head :: nat
  cp_tail_start :: nat
  cp_carried :: "rstr option"

record CompactionResult =
  cr_entries :: "held_entry list"
  cr_summary :: rstr
  cr_archived_count :: nat

definition summary_of :: "held_entry \<Rightarrow> rstr option" where
  "summary_of e = (case entry_kind (snd e) of CompactionEntry summary _ \<Rightarrow> Some summary | _ \<Rightarrow> None)"

definition is_system :: "held_entry \<Rightarrow> bool" where
  "is_system e = (case entry_kind (snd e) of SystemEntry _ \<Rightarrow> True | _ \<Rightarrow> False)"

definition is_user :: "held_entry \<Rightarrow> bool" where
  "is_user e = (case entry_kind (snd e) of UserEntry _ _ \<Rightarrow> True | _ \<Rightarrow> False)"

definition rposition :: "('a \<Rightarrow> bool) \<Rightarrow> 'a list \<Rightarrow> nat option" where
  "rposition P xs = map_option (\<lambda>k. length xs - 1 - k) (position P (rev xs))"

definition archived :: "CompactionPlan \<Rightarrow> held_entry list \<Rightarrow> held_entry list" where
  "archived plan es = drop (cp_head plan) (take (cp_tail_start plan) es)"

definition fresh :: "CompactionPlan \<Rightarrow> held_entry list \<Rightarrow> held_entry list" where
  "fresh plan es =
     (case archived plan es of
        [] \<Rightarrow> []
      | first # rest \<Rightarrow> if summary_of first \<noteq> None then rest else first # rest)"

definition plan_compaction :: "held_entry list \<Rightarrow> CompactionPlan option" where
  "plan_compaction es =
     (if length es \<le> RECENT_TAIL_ENTRIES + 1 then None
      else
        (let head = (if is_system (hd es) then 1 else 0);
             tail_start = length es - RECENT_TAIL_ENTRIES;
             tail_start = (case rposition is_user es of None \<Rightarrow> tail_start | Some last_user \<Rightarrow> min tail_start last_user)
         in if tail_start \<le> head then None
            else case drop head (take tail_start es) of
                   [] \<Rightarrow> None
                 | first # rest \<Rightarrow>
                     if rest = [] \<and> summary_of first \<noteq> None then None
                     else Some \<lparr>cp_head = head, cp_tail_start = tail_start, cp_carried = summary_of first\<rparr>))"

definition apply_compaction :: "entry_ptr \<Rightarrow> held_entry list \<Rightarrow> CompactionPlan \<Rightarrow> rstr \<Rightarrow> CompactionResult" where
  "apply_compaction new_ptr es plan summary =
     (let folded = length (fresh plan es) in
      \<lparr>cr_entries = take (cp_head plan) es @ (new_ptr, compaction_entry summary folded) # drop (cp_tail_start plan) es,
       cr_summary = summary, cr_archived_count = folded\<rparr>)"

section \<open>The summary no model writes\<close>

record Texts =
  tx_ellipsis :: char
  tx_role_label :: "Role \<Rightarrow> rstr"
  tx_content :: "Content \<Rightarrow> rstr"
  tx_images_omitted :: "nat \<Rightarrow> rstr"
  tx_no_history :: rstr
  tx_result :: "ResultText \<Rightarrow> rstr"
  tx_heading :: "EntryKind \<Rightarrow> rstr"
  tx_attached :: "nat \<Rightarrow> rstr"
  tx_call :: rstr
  tx_result_label :: "ToolResultStatus option \<Rightarrow> rstr"
  tx_standing_label :: rstr
  tx_focus_label :: rstr
  tx_prior_label :: rstr
  tx_transcript_label :: rstr
  tx_elided :: rstr
  tx_ask :: rstr
  tx_cut_short_note :: rstr

definition truncated :: "Texts \<Rightarrow> rstr \<Rightarrow> nat \<Rightarrow> rstr" where
  "truncated tx s n = (case truncate_chars s n of (kept, shortened) \<Rightarrow> if shortened then kept @ [tx_ellipsis tx] else kept)"

definition summary_line :: "Texts \<Rightarrow> Message \<Rightarrow> rstr option" where
  "summary_line tx m =
     (let snippet = truncated tx (tx_content tx (content m)) 160;
          snippet = (if images m = [] then snippet
                     else snippet @ (if snippet = [] then [] else '' '') @ tx_images_omitted tx (length (images m)))
      in if snippet = [] then None else Some (''- '' @ tx_role_label tx (role m) @ '': '' @ snippet))"

definition summarize_archived :: "Texts \<Rightarrow> Message list \<Rightarrow> rstr" where
  "summarize_archived tx ms =
     (let ls = List.map_filter (summary_line tx) ms in
      if ls = [] then tx_no_history tx else join_with [NL] ls)"

definition summarize_archived_entries :: "Texts \<Rightarrow> held_entry list \<Rightarrow> rstr" where
  "summarize_archived_entries tx es = summarize_archived tx (concat (map (\<lambda>e. entry_wire_messages (snd e)) es))"

definition mechanical_summary :: "Texts \<Rightarrow> CompactionPlan \<Rightarrow> held_entry list \<Rightarrow> rstr" where
  "mechanical_summary tx plan es =
     (let new = fresh plan es in
      case cp_carried plan of
        Some prior \<Rightarrow>
          if new = [] then truncated tx prior COMPACTION_CARRY_MAX_CHARS
          else truncated tx prior COMPACTION_CARRY_MAX_CHARS @ [NL] @ summarize_archived_entries tx new
      | None \<Rightarrow> summarize_archived_entries tx new)"

section \<open>The transcript the summarizer reads\<close>

text \<open>The characters of the alphabet a reader may take for a line break.\<close>

definition breaks_line :: "char \<Rightarrow> bool" where
  "breaks_line c \<longleftrightarrow> c \<in> set [NL, CHR 0x0D, CHR 0x85, CHR 0x0B, CHR 0x0C]"

definition normalize_line_breaks :: "rstr \<Rightarrow> rstr" where
  "normalize_line_breaks text = map (\<lambda>c. if breaks_line c then NL else c) (replace_crlf text)"

text \<open>\<^verbatim>\<open>str::lines\<close> on a text that holds no carriage return.\<close>

definition text_lines :: "rstr \<Rightarrow> rstr list" where
  "text_lines s = (let ls = split_on (\<lambda>c. c = NL) s in if last ls = [] then butlast ls else ls)"

definition quoted :: "rstr \<Rightarrow> rstr" where
  "quoted s = join_with [NL] (map (\<lambda>line. if line = [] then ''>'' else ''> '' @ line) (text_lines (normalize_line_breaks s)))"

definition escape_heading :: "rstr \<Rightarrow> rstr" where
  "escape_heading line =
     (let rest = trim_start_matches is_whitespace line in
      if starts_with ''#'' rest then take (length line - length rest) line @ [BSL] @ rest else line)"

definition escape_headings :: "rstr \<Rightarrow> rstr" where
  "escape_headings s = join_with [NL] (map escape_heading (text_lines (normalize_line_breaks s)))"

definition HANDOVER_TEXT_CHARS :: nat where "HANDOVER_TEXT_CHARS = 20000"
definition HANDOVER_TOOL_ARGS_CHARS :: nat where "HANDOVER_TOOL_ARGS_CHARS = 2000"
definition HANDOVER_TOOL_RESULT_CHARS :: nat where "HANDOVER_TOOL_RESULT_CHARS = 3000"

definition exchange_text :: "Texts \<Rightarrow> ToolExchange \<Rightarrow> rstr" where
  "exchange_text tx ex =
     [NL] @ tx_call tx @
     map (\<lambda>c. if c = NL then SPC else c) (normalize_line_breaks (payload_name (ex_call ex))) @ [NL] @
     quoted (truncated tx (payload_arguments (ex_call ex)) HANDOVER_TOOL_ARGS_CHARS) @
     (case ex_result ex of
        Some result \<Rightarrow> [NL] @ tx_result_label tx (Some (res_status result)) @ [NL] @
          quoted (truncated tx (tx_result tx (res_content result)) HANDOVER_TOOL_RESULT_CHARS)
      | None \<Rightarrow> [NL] @ tx_result_label tx None)"

definition entry_body :: "Texts \<Rightarrow> EntryKind \<Rightarrow> rstr" where
  "entry_body tx kind =
     (case kind of
        UserEntry t imgs \<Rightarrow> escape_headings (truncated tx t HANDOVER_TEXT_CHARS) @
          (if imgs = [] then [] else [NL] @ tx_attached tx (length imgs))
      | AssistantEntry t _ exchanges \<Rightarrow> escape_headings (truncated tx t HANDOVER_TEXT_CHARS) @
          concat (map (exchange_text tx) exchanges)
      | SystemEntry t \<Rightarrow> escape_headings (truncated tx t HANDOVER_TEXT_CHARS)
      | CompactionEntry summary _ \<Rightarrow> escape_headings (truncated tx summary MAX_HANDOVER_SUMMARY_CHARS))"

definition flatten_entries :: "Texts \<Rightarrow> held_entry list \<Rightarrow> rstr" where
  "flatten_entries tx es =
     trim_end_matches is_whitespace
       (concat (map (\<lambda>e. tx_heading tx (entry_kind (snd e)) @ [NL] @ entry_body tx (entry_kind (snd e)) @ [NL, NL]) es))"

definition MAX_HANDOVER_CHARS :: nat where "MAX_HANDOVER_CHARS = 400000"
definition HANDOVER_HEAD_CHARS :: nat where "HANDOVER_HEAD_CHARS = 120000"

definition clip_text :: "rstr \<Rightarrow> nat \<Rightarrow> nat \<Rightarrow> nat \<Rightarrow> (nat \<Rightarrow> rstr) \<Rightarrow> rstr" where
  "clip_text s max_chars head tail marker =
     (let total = length s in
      if total \<le> max_chars then s
      else take head s @ marker (total - (head + tail)) @ drop (total - tail) s)"

definition handover_transcript :: "Texts \<Rightarrow> held_entry list \<Rightarrow> rstr" where
  "handover_transcript tx es =
     clip_text (flatten_entries tx es) MAX_HANDOVER_CHARS HANDOVER_HEAD_CHARS
       (MAX_HANDOVER_CHARS - HANDOVER_HEAD_CHARS) (\<lambda>_. tx_elided tx)"

definition optional_section :: "rstr \<Rightarrow> rstr option \<Rightarrow> rstr" where
  "optional_section label given =
     (case given of None \<Rightarrow> [] | Some t \<Rightarrow> if trim t = [] then [] else label @ trim t @ [NL, NL])"

definition handover_request :: "Texts \<Rightarrow> CompactionPlan \<Rightarrow> held_entry list \<Rightarrow> rstr option \<Rightarrow> rstr option \<Rightarrow> rstr" where
  "handover_request tx plan es focus compact_instructions =
     optional_section (tx_standing_label tx) compact_instructions @
     optional_section (tx_focus_label tx) focus @
     (case cp_carried plan of
        None \<Rightarrow> []
      | Some prior \<Rightarrow> tx_prior_label tx @ truncated tx prior MAX_HANDOVER_SUMMARY_CHARS @ [NL, NL]) @
     tx_transcript_label tx @ handover_transcript tx (fresh plan es) @ tx_ask tx"

section \<open>The reply of the summarizer\<close>

datatype HandoverEvent = SummaryDelta rstr | SummaryError | SummaryDone "nat option" | OtherHandoverEvent

definition HANDOVER_MAX_TOKENS :: nat where "HANDOVER_MAX_TOKENS = 12000"

text \<open>The text that arrived before the closing event, and whether the completion used its whole allowance.\<close>

fun collect_stream :: "rstr \<Rightarrow> HandoverEvent list \<Rightarrow> (rstr \<times> bool) option" where
  "collect_stream sofar [] = None"
| "collect_stream sofar (SummaryDelta d # es) = collect_stream (sofar @ d) es"
| "collect_stream sofar (SummaryError # es) = None"
| "collect_stream sofar (OtherHandoverEvent # es) = collect_stream sofar es"
| "collect_stream sofar (SummaryDone usage # es) =
     Some (sofar, (case usage of None \<Rightarrow> False | Some tokens \<Rightarrow> HANDOVER_MAX_TOKENS \<le> tokens))"

definition collect_handover :: "Texts \<Rightarrow> HandoverEvent list \<Rightarrow> (rstr \<times> bool) option" where
  "collect_handover tx es =
     (case collect_stream [] es of
        None \<Rightarrow> None
      | Some (reply, hit_token_cap) \<Rightarrow>
          (let text = trim reply in
           if text = [] then None
           else
             (let cut_short = (hit_token_cap \<or> MAX_HANDOVER_SUMMARY_CHARS < length text) in
              if \<not> cut_short then Some (text, False)
              else Some (truncated tx text (MAX_HANDOVER_SUMMARY_CHARS - length (tx_cut_short_note tx) - 3) @
                     [NL, NL] @ tx_cut_short_note tx, True))))"

section \<open>The fold\<close>

datatype Trigger = Manual | Threshold | StoragePressure | OverflowRescue

datatype HandoverError = HandoverOffline | HandoverCancelled | HandoverFailed

datatype FoldOutcome = Applied nat rstr bool | NothingToFold | FoldOffline | FoldFailed | FoldCancelled

definition must_fold :: "Trigger \<Rightarrow> bool" where
  "must_fold trigger \<longleftrightarrow> trigger \<in> {OverflowRescue, StoragePressure}"

definition fold_into :: "Session \<Rightarrow> CompactionPlan \<Rightarrow> rstr \<Rightarrow> bool \<Rightarrow> Session \<times> FoldOutcome" where
  "fold_into s plan summary cut_short =
     (let result = apply_compaction (next_ptr s) (entries s) plan summary in
      ((replace_entries (cr_entries result) s)\<lparr>next_ptr := next_ptr s + 1\<rparr>,
       Applied (cr_archived_count result) (cr_summary result) cut_short))"

definition prefix_intact :: "nat \<Rightarrow> held_entry list \<Rightarrow> held_entry list \<Rightarrow> bool" where
  "prefix_intact kept_from current snapshot \<longleftrightarrow>
     kept_from \<le> length current \<and> map fst (take kept_from current) = map fst (take kept_from snapshot)"

text \<open>\<open>s\<close> is the session when the fold starts, \<open>s1\<close> the one found when the summary is there.\<close>

definition compact_session ::
  "Texts \<Rightarrow> Trigger \<Rightarrow> (CompactionPlan \<Rightarrow> HandoverError + rstr \<times> bool) \<Rightarrow> bool \<Rightarrow> Session \<Rightarrow> Session \<Rightarrow> Session \<times> FoldOutcome" where
  "compact_session tx trigger handover cancelled s s1 =
     (case plan_compaction (entries s) of
        None \<Rightarrow> (s1, NothingToFold)
      | Some plan \<Rightarrow>
          (let finish = (\<lambda>summary cut_short.
             if cancelled then (s1, FoldCancelled)
             else if prefix_intact (cp_tail_start plan) (entries s1) (entries s) then fold_into s1 plan summary cut_short
             else if must_fold trigger then
               (case plan_compaction (entries s1) of
                  None \<Rightarrow> (s1, NothingToFold)
                | Some plan' \<Rightarrow> fold_into s1 plan' (mechanical_summary tx plan' (entries s1)) False)
             else (s1, FoldFailed))
           in case handover plan of
                Inr (summary, cut_short) \<Rightarrow> finish summary cut_short
              | Inl HandoverCancelled \<Rightarrow> (s1, FoldCancelled)
              | Inl e \<Rightarrow>
                  if must_fold trigger then finish (mechanical_summary tx plan (entries s)) False
                  else if e = HandoverOffline then (s1, FoldOffline)
                  else (s1, FoldFailed)))"

section \<open>What a fold keeps\<close>

lemma rpositionD:
  assumes "rposition P xs = Some n"
  shows "n < length xs \<and> P (xs ! n) \<and> (\<forall>m. n < m \<and> m < length xs \<longrightarrow> \<not> P (xs ! m))"
proof -
  from assms obtain k where k: "position P (rev xs) = Some k" and n: "n = length xs - 1 - k"
    by (auto simp: rposition_def)
  from position_SomeD [OF k] have d: "k < length xs" "P (rev xs ! k)" "\<forall>m < k. \<not> P (rev xs ! m)" by auto
  have "\<not> P (xs ! m)" if "n < m" "m < length xs" for m
  proof -
    have "length xs - 1 - m < k" using that d(1) n by linarith
    with d(3) have "\<not> P (rev xs ! (length xs - 1 - m))" by blast
    then show ?thesis using that by (simp add: rev_nth)
  qed
  with d n show ?thesis by (auto simp: rev_nth)
qed

lemma rposition_None: "rposition P xs = None \<Longrightarrow> \<forall>x \<in> set xs. \<not> P x"
  using position_NoneD [of P "rev xs"] by (simp add: rposition_def)

text \<open>The facts of a plan: the cut lies after the system prompt and before the recent tail and the newest
  message of the user, and the range it archives holds something new.\<close>

definition plan_ok :: "held_entry list \<Rightarrow> CompactionPlan \<Rightarrow> bool" where
  "plan_ok es plan \<longleftrightarrow>
     cp_head plan = (if is_system (hd es) then 1 else 0) \<and> cp_head plan < cp_tail_start plan \<and>
     cp_tail_start plan + RECENT_TAIL_ENTRIES \<le> length es \<and>
     (\<forall>n < length es. is_user (es ! n) \<longrightarrow> (\<exists>m \<ge> n. m < length es \<and> is_user (es ! m) \<and> cp_tail_start plan \<le> m)) \<and>
     (cp_tail_start plan + RECENT_TAIL_ENTRIES = length es \<or>
       cp_tail_start plan < length es \<and> is_user (es ! cp_tail_start plan) \<and>
       (\<forall>m. cp_tail_start plan < m \<and> m < length es \<longrightarrow> \<not> is_user (es ! m))) \<and>
     fresh plan es \<noteq> []"

lemma plan_compaction_ok:
  assumes "plan_compaction es = Some plan"
  shows "plan_ok es plan"
proof -
  define head where "head = (if is_system (hd es) then 1 else 0 :: nat)"
  define tail where "tail = (case rposition is_user es of None \<Rightarrow> length es - RECENT_TAIL_ENTRIES
    | Some last_user \<Rightarrow> min (length es - RECENT_TAIL_ENTRIES) last_user)"
  from assms have len: "RECENT_TAIL_ENTRIES + 1 < length es" by (simp add: plan_compaction_def split: if_splits)
  with assms obtain first rest where p: "head < tail" "drop head (take tail es) = first # rest"
    "\<not> (rest = [] \<and> summary_of first \<noteq> None)" "plan = \<lparr>cp_head = head, cp_tail_start = tail, cp_carried = summary_of first\<rparr>"
    unfolding plan_compaction_def head_def [symmetric] tail_def [symmetric] Let_def
    by (auto split: if_splits list.splits)
  have f: "fresh plan es \<noteq> []" using p by (auto simp: fresh_def archived_def)
  show ?thesis
  proof (cases "rposition is_user es")
    case None
    then have t: "tail = length es - RECENT_TAIL_ENTRIES" by (simp add: tail_def)
    with None rposition_None [OF None] len p f show ?thesis by (auto simp: plan_ok_def head_def)
  next
    case (Some u)
    note d = rpositionD [OF Some]
    have t: "tail = min (length es - RECENT_TAIL_ENTRIES) u" by (simp add: tail_def Some)
    have "\<exists>m \<ge> n. m < length es \<and> is_user (es ! m) \<and> tail \<le> m" if "n < length es" "is_user (es ! n)" for n
      using d that t by (intro exI [of _ u]) (auto simp: not_less [symmetric])
    moreover have "tail + RECENT_TAIL_ENTRIES = length es \<or>
        tail < length es \<and> is_user (es ! tail) \<and> (\<forall>m. tail < m \<and> m < length es \<longrightarrow> \<not> is_user (es ! m))"
      using t len d by (cases "length es - RECENT_TAIL_ENTRIES \<le> u") (auto simp: min_def)
    moreover have "tail + RECENT_TAIL_ENTRIES \<le> length es" using t len by simp
    ultimately show ?thesis using p f by (auto simp: plan_ok_def head_def)
  qed
qed

lemma archived_split:
  assumes "plan_ok es plan"
  shows "es = take (cp_head plan) es @ archived plan es @ drop (cp_tail_start plan) es"
proof -
  from assms have "cp_head plan < cp_tail_start plan" by (simp add: plan_ok_def)
  then have "take (cp_head plan) es @ archived plan es = take (cp_tail_start plan) es"
    by (metis archived_def append_take_drop_id less_imp_le min.absorb1 take_take)
  then show ?thesis by (metis append.assoc append_take_drop_id)
qed

lemma archived_fresh: "archived plan es = (if archived plan es \<noteq> [] \<and> summary_of (hd (archived plan es)) \<noteq> None
    then hd (archived plan es) # fresh plan es else fresh plan es)"
  by (auto simp: fresh_def split: list.splits)

lemma summary_not_user: "summary_of e \<noteq> None \<Longrightarrow> \<not> is_user e \<and> \<not> is_system e"
  by (auto simp: summary_of_def is_user_def is_system_def split: EntryKind.splits)

lemma compaction_entry_simps [simp]:
  "summary_of (ptr, compaction_entry summary n) = Some summary"
  "is_user (ptr, compaction_entry summary n) = False" "is_system (ptr, compaction_entry summary n) = False"
  by (simp_all add: compaction_entry_def new_entry_def summary_of_def is_user_def is_system_def)

lemma plan_head:
  assumes "plan_ok es plan"
  shows "take (cp_head plan) es = (if is_system (hd es) then [hd es] else [])" "es \<noteq> []"
proof -
  from assms have l: "RECENT_TAIL_ENTRIES < length es" by (auto simp: plan_ok_def)
  then show "es \<noteq> []" by auto
  with assms show "take (cp_head plan) es = (if is_system (hd es) then [hd es] else [])"
    by (cases es) (auto simp: plan_ok_def)
qed

lemma last_user_kept:
  assumes "plan_ok es plan" "filter is_user es \<noteq> []"
  shows "filter is_user (drop (cp_tail_start plan) es) \<noteq> []"
proof -
  from assms(2) obtain n where n: "n < length es" "is_user (es ! n)"
    by (metis filter_False in_set_conv_nth)
  with assms(1) obtain m where m: "m < length es" "is_user (es ! m)" "cp_tail_start plan \<le> m"
    unfolding plan_ok_def by blast
  then have "es ! m \<in> set (drop (cp_tail_start plan) es)"
    by (auto simp: in_set_conv_nth intro!: exI [of _ "m - cp_tail_start plan"])
  with m show ?thesis by (auto simp: filter_empty_conv)
qed

lemma fold_count:
  assumes "plan_compaction es = Some plan"
  shows "length es + (if cp_carried plan = None then 1 else 0) =
    length (take (cp_head plan) es) + 1 + length (drop (cp_tail_start plan) es) + length (fresh plan es)"
proof -
  note ok = plan_compaction_ok [OF assms]
  have ne: "archived plan es \<noteq> []" using ok by (auto simp: fresh_def plan_ok_def)
  then have "cp_carried plan = summary_of (hd (archived plan es))"
    using assms by (auto simp: plan_compaction_def Let_def archived_def split: if_splits list.splits)
  then have "length (archived plan es) = length (fresh plan es) + (if cp_carried plan = None then 0 else 1)"
    using arg_cong [OF archived_fresh, of length plan es] ne by (auto split: if_splits)
  moreover have "length es = length (take (cp_head plan) es) + length (archived plan es) + length (drop (cp_tail_start plan) es)"
    using arg_cong [OF archived_split [OF ok], of length] by (simp only: length_append)
  ultimately show ?thesis by (auto split: if_splits)
qed

text \<open>C28 (invariant). A fold archives at least one new entry, and the count it reports is exactly the entries it
  removes, the summary it replaces left out. It keeps the system prompt, the last five entries and
  everything from the newest message of the user on, word for word and in order: the last message of the
  user before and after is the same one.\<close>

theorem fold_keeps:
  assumes "plan_compaction es = Some plan"
  shows "case apply_compaction ptr es plan summary of result \<Rightarrow>
    0 < cr_archived_count result \<and>
    length es + (if cp_carried plan = None then 1 else 0) = length (cr_entries result) + cr_archived_count result \<and>
    (\<exists>folded kept. es = (if is_system (hd es) then [hd es] else []) @ folded @ kept \<and>
       cr_entries result = (if is_system (hd es) then [hd es] else []) @ (ptr, compaction_entry summary (cr_archived_count result)) # kept \<and>
       RECENT_TAIL_ENTRIES \<le> length kept \<and>
       (filter is_user es = [] \<longleftrightarrow> filter is_user kept = []) \<and>
       last (filter is_user (cr_entries result)) = last (filter is_user es))"
proof -
  note ok = plan_compaction_ok [OF assms]
  let ?kept = "drop (cp_tail_start plan) es" and ?folded = "archived plan es"
  let ?sys = "if is_system (hd es) then [hd es] else []"
  let ?r = "apply_compaction ptr es plan summary"
  have s: "es = ?sys @ ?folded @ ?kept" using archived_split [OF ok] plan_head [OF ok] by simp
  have r: "cr_entries ?r = ?sys @ (ptr, compaction_entry summary (cr_archived_count ?r)) # ?kept"
    "cr_archived_count ?r = length (fresh plan es)"
    using plan_head [OF ok] by (simp_all add: apply_compaction_def Let_def)
  have pos: "0 < cr_archived_count ?r" using ok by (simp add: r plan_ok_def)
  have kept5: "RECENT_TAIL_ENTRIES \<le> length ?kept" using ok by (auto simp: plan_ok_def)
  have count: "length es + (if cp_carried plan = None then 1 else 0) = length (cr_entries ?r) + cr_archived_count ?r"
    using fold_count [OF assms] by (simp add: apply_compaction_def Let_def)
  have u0: "filter is_user ?sys = []" by (auto simp: is_user_def is_system_def split: EntryKind.splits)
  have same: "filter is_user es = [] \<longleftrightarrow> filter is_user ?kept = []"
    using last_user_kept [OF ok] by (metis append_is_Nil_conv filter_append s)
  have "last (filter is_user (cr_entries ?r)) = last (filter is_user ?kept)"
    using u0 by (simp only: r filter_append) simp
  moreover have "last (filter is_user es) = last (filter is_user ?kept)"
  proof (cases "filter is_user ?kept = []")
    case True
    then show ?thesis using same by simp
  next
    case False
    have "filter is_user es = (filter is_user ?sys @ filter is_user ?folded) @ filter is_user ?kept"
      using arg_cong [OF s, of "filter is_user"] by simp
    then show ?thesis using False by (simp only: last_append if_False)
  qed
  ultimately have "last (filter is_user (cr_entries ?r)) = last (filter is_user es)" by simp
  with s r(1) pos kept5 count same show ?thesis by blast
qed

section \<open>A second fold finds nothing\<close>

lemma rposition_last:
  assumes "P x" "\<forall>y \<in> set ys. \<not> P y"
  shows "rposition P (xs @ x # ys) = Some (length xs)"
proof (cases "rposition P (xs @ x # ys)")
  case None
  then show ?thesis using assms(1) by (auto dest: rposition_None)
next
  case (Some n)
  note d = rpositionD [OF Some]
  have "\<not> length xs < n" using d assms(2) by (auto simp: nth_append nth_Cons' split: if_splits)
  moreover have "\<not> n < length xs" using d assms(1) by (auto dest: spec [of _ "length xs"])
  ultimately show ?thesis using Some by simp
qed

lemma plan_compaction_folded:
  assumes lead: "lead = [] \<or> (\<exists>sys. lead = [sys] \<and> is_system sys)" and c: "summary_of c \<noteq> None"
    and kept: "length kept \<le> RECENT_TAIL_ENTRIES \<or> is_user (hd kept) \<and> (\<forall>e \<in> set (tl kept). \<not> is_user e)"
  shows "plan_compaction (lead @ c # kept) = None"
proof -
  let ?es = "lead @ c # kept"
  have head: "(if is_system (hd ?es) then 1 else 0) = length lead"
    using lead summary_not_user [OF c] by auto
  define tail where "tail = (case rposition is_user ?es of None \<Rightarrow> length ?es - RECENT_TAIL_ENTRIES
    | Some last_user \<Rightarrow> min (length ?es - RECENT_TAIL_ENTRIES) last_user)"
  have "tail \<le> length lead + 1"
  proof (cases "length kept \<le> RECENT_TAIL_ENTRIES")
    case True
    then show ?thesis by (auto simp: tail_def split: option.splits)
  next
    case False
    then obtain u rest where k: "kept = u # rest" by (cases kept) auto
    then have "rposition is_user ((lead @ [c]) @ u # rest) = Some (length (lead @ [c]))"
      using kept False by (intro rposition_last) auto
    then show ?thesis by (simp add: tail_def k)
  qed
  then have "drop (length lead) (take tail ?es) = [] \<or> drop (length lead) (take tail ?es) = [c]"
    by (cases "tail \<le> length lead") (auto simp: le_Suc_eq)
  then show ?thesis
    using c unfolding plan_compaction_def Let_def head tail_def [symmetric] by auto
qed

lemma fold_settled:
  assumes "plan_compaction es = Some plan"
  shows "plan_compaction (cr_entries (apply_compaction ptr es plan summary)) = None"
proof -
  note ok = plan_compaction_ok [OF assms]
  let ?kept = "drop (cp_tail_start plan) es"
  have "length ?kept \<le> RECENT_TAIL_ENTRIES \<or> is_user (hd ?kept) \<and> (\<forall>e \<in> set (tl ?kept). \<not> is_user e)"
  proof (cases "cp_tail_start plan + RECENT_TAIL_ENTRIES = length es")
    case True
    then have "length ?kept = RECENT_TAIL_ENTRIES" by (simp add: diff_add_inverse2 diff_add_inverse flip: True)
    then show ?thesis by simp
  next
    case False
    then have t: "cp_tail_start plan < length es" "is_user (es ! cp_tail_start plan)"
      "\<forall>m. cp_tail_start plan < m \<and> m < length es \<longrightarrow> \<not> is_user (es ! m)" using ok by (auto simp: plan_ok_def)
    have "\<not> is_user e" if "e \<in> set (tl ?kept)" for e
    proof -
      from that obtain k where "k < length es - Suc (cp_tail_start plan)" "e = es ! (Suc (cp_tail_start plan + k))"
        by (auto simp: in_set_conv_nth tl_drop drop_Suc [symmetric])
      with t(3) show ?thesis by (auto simp: less_diff_conv)
    qed
    with t show ?thesis by (simp add: hd_drop_conv_nth)
  qed
  then show ?thesis
    unfolding apply_compaction_def Let_def CompactionResult.select_convs
    by (intro plan_compaction_folded) (simp_all add: plan_head [OF ok] del: split_paired_Ex)
qed

text \<open>A fold leaves nothing a second one would archive, so the runtime does not fold again at the next
  step of the same turn: what remains in range is the summary just written.\<close>

theorem fold_settles:
  "case plan_compaction es of
     None \<Rightarrow> True
   | Some plan \<Rightarrow> plan_compaction (cr_entries (apply_compaction ptr es plan summary)) = None"
  by (cases "plan_compaction es") (simp_all add: fold_settled)

section \<open>The summary describes what it replaces\<close>

text \<open>The pointers of a session name its entries.\<close>

definition pointers_ok :: "Session \<Rightarrow> bool" where
  "pointers_ok s \<longleftrightarrow> distinct (map fst (entries s)) \<and> (\<forall>ptr \<in> fst ` set (entries s). ptr < next_ptr s)"

text \<open>What may happen to the session while a summary is written. \<open>held\<close> is the first pointer the
  snapshot does not hold: an entry below it is shared with the snapshot, so a write to it copies it.\<close>

inductive session_step :: "entry_ptr \<Rightarrow> Session \<Rightarrow> Session \<Rightarrow> bool" for held where
  pushed: "session_step held s (push_entry entry s)"
| partial: "session_step held s (fst (insert_partial_assistant_after anchor turn body reasoning s))"
| recorded: "(\<And>at. latest_assistant s = Some at \<Longrightarrow> fst (entries s ! at) < held \<Longrightarrow> shared) \<Longrightarrow>
    session_step held s (fst (record_tool_result shared call_id body status ask s))"
| folded: "plan_compaction (entries s) = Some plan \<Longrightarrow> session_step held s (fst (fold_into s plan summary cut_short))"
| swapped: "\<forall>e \<in> set es. held \<le> fst e \<Longrightarrow> session_step held s \<lparr>entries = es, next_ptr = max n (next_ptr s)\<rparr>"

text \<open>An entry with a pointer of the snapshot is the snapshot's entry.\<close>

definition agrees_with :: "Session \<Rightarrow> Session \<Rightarrow> bool" where
  "agrees_with s s1 \<longleftrightarrow> next_ptr s \<le> next_ptr s1 \<and>
     (\<forall>e \<in> set (entries s1). fst e < next_ptr s \<longrightarrow> e \<in> set (entries s))"

lemma agrees_recorded:
  assumes agree: "agrees_with s s1"
    and shared: "\<And>at. latest_assistant s1 = Some at \<Longrightarrow> fst (entries s1 ! at) < next_ptr s \<Longrightarrow> shared"
  shows "agrees_with s (fst (record_tool_result shared call_id body status ask s1))"
proof (cases rule: record_tool_result_cases [of call_id s1 shared body status ask])
  case missed
  then show ?thesis using agree by simp
next
  case (filled at ptr entry t r exchanges s')
  have "e \<in> set (entries s)" if "e \<in> set (entries s')" "fst e < next_ptr s" for e
  proof -
    from that(1) filled(8) have "e \<in> set (entries s1) \<or> fst e = (if shared then next_ptr s1 else ptr)"
      by (auto dest: set_update_subset_insert [THEN subsetD])
    moreover have "fst e \<noteq> (if shared then next_ptr s1 else ptr)"
      using that(2) agree shared [OF filled(2)] filled(4) by (auto simp: agrees_with_def)
    ultimately show ?thesis using agree that(2) by (auto simp: agrees_with_def)
  qed
  with filled(7,8) agree show ?thesis by (auto simp: agrees_with_def)
qed

lemma set_folded: "set (cr_entries (apply_compaction ptr es plan summary)) \<subseteq> insert (ptr, compaction_entry summary (length (fresh plan es))) (set es)"
  by (auto simp: apply_compaction_def Let_def dest: in_set_takeD in_set_dropD)

lemma agrees_step:
  assumes "session_step (next_ptr s) s1 s2" "agrees_with s s1"
  shows "agrees_with s s2"
  using assms
proof cases
  case (pushed entry)
  then show ?thesis using assms(2) by (auto simp: push_entry_def agrees_with_def)
next
  case (partial anchor turn body reasoning)
  then show ?thesis using assms(2)
    by (auto simp: insert_partial_assistant_after_def agrees_with_def split: option.splits dest: in_set_takeD in_set_dropD)
next
  case (recorded shared call_id body status ask)
  then show ?thesis using agrees_recorded [OF assms(2), of shared] by simp
next
  case (folded plan summary cut_short)
  then show ?thesis using assms(2) set_folded [of "next_ptr s1" "entries s1" plan summary]
    by (auto simp: fold_into_def Let_def replace_entries_def agrees_with_def)
next
  case (swapped es n)
  then show ?thesis using assms(2) by (auto simp: agrees_with_def)
qed

lemma agrees_steps:
  assumes "(session_step (next_ptr s))\<^sup>*\<^sup>* s s1"
  shows "agrees_with s s1"
  using assms by (induction rule: rtranclp_induct) (auto simp: agrees_with_def [of s s] intro: agrees_step)

lemma prefix_intact_same:
  assumes ok: "pointers_ok s" and agree: "agrees_with s s1" and intact: "prefix_intact k (entries s1) (entries s)"
  shows "take k (entries s1) = take k (entries s)"
proof (rule nth_equalityI)
  have l: "map fst (take k (entries s1)) = map fst (take k (entries s))" using intact by (simp add: prefix_intact_def)
  from arg_cong [OF this, of length] show len: "length (take k (entries s1)) = length (take k (entries s))" by simp
  fix i assume i: "i < length (take k (entries s1))"
  with len have bounds: "i < k" "i < length (entries s1)" "i < length (entries s)" by auto
  from arg_cong [OF l, of "\<lambda>xs. xs ! i"] bounds have same: "fst (entries s1 ! i) = fst (entries s ! i)" by simp
  have "fst (entries s ! i) < next_ptr s" using ok bounds by (auto simp: pointers_ok_def)
  with agree same bounds have "entries s1 ! i \<in> set (entries s)" by (auto simp: agrees_with_def)
  then obtain j where j: "j < length (entries s)" "entries s ! j = entries s1 ! i" by (auto simp: in_set_conv_nth)
  have "map fst (entries s) ! j = map fst (entries s) ! i" using j bounds same by simp
  with ok j bounds have "i = j" by (metis distinct_conv_nth length_map pointers_ok_def)
  with j bounds show "take k (entries s1) ! i = take k (entries s) ! i" by simp
qed

lemma fresh_cong: "archived plan es = archived plan es' \<Longrightarrow> fresh plan es = fresh plan es'"
  by (simp add: fresh_def)

lemma mechanical_summary_cong: "archived plan es = archived plan es' \<Longrightarrow> mechanical_summary tx plan es = mechanical_summary tx plan es'"
  using fresh_cong [of plan es es'] by (simp add: mechanical_summary_def)

text \<open>What was written, by whom: the model, or the fallback the trigger allows.\<close>

definition written_by :: "Texts \<Rightarrow> Trigger \<Rightarrow> (CompactionPlan \<Rightarrow> HandoverError + rstr \<times> bool) \<Rightarrow> CompactionPlan \<Rightarrow>
    held_entry list \<Rightarrow> rstr \<Rightarrow> bool \<Rightarrow> bool" where
  "written_by tx trigger handover plan es summary cut_short \<longleftrightarrow>
     handover plan = Inr (summary, cut_short) \<or>
     must_fold trigger \<and> \<not> cut_short \<and> summary = mechanical_summary tx plan es"

definition fold_result :: "Session \<Rightarrow> CompactionPlan \<Rightarrow> nat \<Rightarrow> rstr \<Rightarrow> Session" where
  "fold_result s plan n summary =
     s\<lparr>entries := take (cp_head plan) (entries s) @ (next_ptr s, compaction_entry summary n) # drop (cp_tail_start plan) (entries s),
       next_ptr := next_ptr s + 1\<rparr>"

lemma fold_into_result:
  "fold_into s plan summary cut_short =
     (fold_result s plan (length (fresh plan (entries s))) summary, Applied (length (fresh plan (entries s))) summary cut_short)"
  by (simp add: fold_into_def fold_result_def apply_compaction_def Let_def replace_entries_def)


lemma compact_session_now:
  assumes "plan_compaction (entries s) = Some plan" "must_fold trigger" "handover plan \<noteq> Inl HandoverCancelled"
  shows "\<exists>summary cut_short. compact_session tx trigger handover False s s = fold_into s plan summary cut_short"
proof (cases "handover plan")
  case (Inl e)
  with assms show ?thesis by (cases e) (auto simp: compact_session_def prefix_intact_def plan_ok_def dest: plan_compaction_ok)
next
  case (Inr p)
  with assms plan_compaction_ok [OF assms(1)] show ?thesis
    by (cases p) (auto simp: compact_session_def prefix_intact_def plan_ok_def)
qed

text \<open>C29 (liveness). A turn whose request the provider refused as too long is never stuck for lack of a summary: when
  anything can be archived and nobody cancels, the rescue folds it, whatever the summarizer does, and the
  history left behind has nothing more to fold.\<close>

theorem rescue_always_folds:
  assumes "plan_compaction (entries s) = Some plan" "must_fold trigger" "handover plan \<noteq> Inl HandoverCancelled"
  shows "case compact_session tx trigger handover False s s of (s', outcome) \<Rightarrow>
    (\<exists>n summary cut_short. outcome = Applied n summary cut_short \<and> 0 < n \<and>
       length (entries s') + n \<le> length (entries s) + 1) \<and>
    plan_compaction (entries s') = None"
proof -
  from compact_session_now [of s plan trigger handover tx] assms obtain summary cut_short where
    r: "compact_session tx trigger handover False s s = fold_into s plan summary cut_short" by blast
  have "plan_compaction (entries (fst (fold_into s plan summary cut_short))) = None"
    using fold_settled [OF assms(1)] by (simp add: fold_into_def Let_def replace_entries_def)
  moreover have "0 < length (fresh plan (entries s))" using plan_compaction_ok [OF assms(1)] by (simp add: plan_ok_def)
  moreover have "length (entries (fold_result s plan n summary)) + length (fresh plan (entries s)) \<le> length (entries s) + 1" for n
    using fold_count [OF assms(1)] by (auto simp: fold_result_def split: if_splits)
  ultimately show ?thesis unfolding r by (simp add: fold_into_result)
qed

section \<open>One attempt per trigger and turn\<close>

record Attempts =
  storage_tried :: "TurnId option"
  threshold_tried :: "TurnId option"

definition pick_trigger :: "bool \<Rightarrow> bool \<Rightarrow> TurnId \<Rightarrow> Attempts \<Rightarrow> Trigger option" where
  "pick_trigger storage_pressure over_threshold turn a =
     (if storage_pressure \<and> storage_tried a \<noteq> Some turn then Some StoragePressure
      else if threshold_tried a \<noteq> Some turn \<and> over_threshold then Some Threshold
      else None)"

definition maybe_compact ::
  "Texts \<Rightarrow> TurnId \<Rightarrow> bool \<Rightarrow> (Session \<Rightarrow> bool) \<Rightarrow> (CompactionPlan \<Rightarrow> HandoverError + rstr \<times> bool) \<Rightarrow> bool \<Rightarrow>
   (Session \<Rightarrow> Session) \<Rightarrow> Attempts \<Rightarrow> Session \<Rightarrow> Attempts \<times> Session \<times> FoldOutcome option" where
  "maybe_compact tx turn storage_pressure over_threshold handover cancelled meanwhile a s =
     (case pick_trigger storage_pressure (over_threshold s) turn a of
        None \<Rightarrow> (a, s, None)
      | Some trigger \<Rightarrow>
          (case compact_session tx trigger handover cancelled s (meanwhile s) of
             (s', outcome) \<Rightarrow>
               (let a = (if trigger = StoragePressure then a\<lparr>storage_tried := Some turn\<rparr> else a);
                    a = (if outcome \<noteq> NothingToFold then a\<lparr>threshold_tried := Some turn\<rparr> else a)
                in (a, s', Some outcome))))"

text \<open>The steps of a turn: at each, the pressure, the threshold, the summarizer, the cancellation and
  what touched the session meanwhile may be anything.\<close>

fun turn_attempts ::
  "Texts \<Rightarrow> TurnId \<Rightarrow> (bool \<times> (Session \<Rightarrow> bool) \<times> (CompactionPlan \<Rightarrow> HandoverError + rstr \<times> bool) \<times> bool \<times>
   (Session \<Rightarrow> Session)) list \<Rightarrow> Attempts \<Rightarrow> Session \<Rightarrow> FoldOutcome list" where
  "turn_attempts tx turn [] a s = []"
| "turn_attempts tx turn ((pressure, over, handover, cancelled, meanwhile) # steps) a s =
     (case maybe_compact tx turn pressure over handover cancelled meanwhile a s of
        (a', s', None) \<Rightarrow> turn_attempts tx turn steps a' s'
      | (a', s', Some outcome) \<Rightarrow> outcome # turn_attempts tx turn steps a' s')"

definition real_attempts :: "FoldOutcome list \<Rightarrow> nat" where
  "real_attempts outcomes = length (filter (\<lambda>outcome. outcome \<noteq> NothingToFold) outcomes)"

definition attempts_left :: "TurnId \<Rightarrow> Attempts \<Rightarrow> nat" where
  "attempts_left turn a =
     (if storage_tried a \<noteq> Some turn then 1 else 0) + (if threshold_tried a \<noteq> Some turn then 1 else 0)"

lemma turn_attempts_left: "real_attempts (turn_attempts tx turn steps a s) \<le> attempts_left turn a"
proof (induction steps arbitrary: a s)
  case Nil
  then show ?case by (simp add: real_attempts_def)
next
  case (Cons step steps)
  obtain pressure over handover cancelled meanwhile where step: "step = (pressure, over, handover, cancelled, meanwhile)"
    by (cases step)
  obtain a' s' outcome where m: "maybe_compact tx turn pressure over handover cancelled meanwhile a s = (a', s', outcome)"
    by (cases "maybe_compact tx turn pressure over handover cancelled meanwhile a s")
  have "attempts_left turn a' + real_attempts (case outcome of None \<Rightarrow> [] | Some r \<Rightarrow> [r]) \<le> attempts_left turn a"
    using m by (auto simp: maybe_compact_def pick_trigger_def attempts_left_def real_attempts_def Let_def
      split: option.splits prod.splits if_splits)
  then show ?case using Cons.IH [of a' s'] by (auto simp: step m real_attempts_def split: option.splits)
qed

text \<open>However many steps a turn takes, the summarizer is asked for a fold at most twice in it.\<close>

theorem folds_per_turn:
  "real_attempts (turn_attempts tx turn steps a s) \<le> 2"
  using turn_attempts_left [of tx turn steps a s] by (simp add: attempts_left_def split: if_splits)

section \<open>The summary stays in its allowance\<close>

text \<open>A summary the model writes fits the cap, and so does the note that says it was cut short: the next
  fold carries it over whole.\<close>

theorem handover_within_cap:
  assumes "length (tx_cut_short_note tx) + 3 \<le> MAX_HANDOVER_SUMMARY_CHARS"
  shows "case collect_handover tx events of
     None \<Rightarrow> True
   | Some (summary, cut_short) \<Rightarrow>
       summary \<noteq> [] \<and> length summary \<le> MAX_HANDOVER_SUMMARY_CHARS \<and>
       truncated tx summary COMPACTION_CARRY_MAX_CHARS = summary \<and>
       (if cut_short then suffix (NL # NL # tx_cut_short_note tx) summary else True)"
proof -
  have cap: "length (truncated tx s n) \<le> n + 1" for s n
    by (auto simp: truncated_def truncate_chars_def)
  have whole: "truncated tx s n = s" if "length s \<le> n" for s n
    using that by (simp add: truncated_def truncate_chars_def)
  show ?thesis
  proof (cases "collect_handover tx events")
    case None
    then show ?thesis by simp
  next
    case (Some p)
    obtain summary cut_short where p: "p = (summary, cut_short)" by (cases p)
    let ?room = "MAX_HANDOVER_SUMMARY_CHARS - length (tx_cut_short_note tx) - 3"
    from Some p consider "cut_short = False" "summary \<noteq> []" "length summary \<le> MAX_HANDOVER_SUMMARY_CHARS"
      | reply where "cut_short" "summary = truncated tx (trim reply) ?room @ [NL, NL] @ tx_cut_short_note tx"
      by (auto simp: collect_handover_def Let_def split: option.splits if_splits)
    then have "summary \<noteq> [] \<and> length summary \<le> MAX_HANDOVER_SUMMARY_CHARS \<and>
      (if cut_short then suffix (NL # NL # tx_cut_short_note tx) summary else True)"
    proof cases
      case 2
      have "length summary = length (truncated tx (trim reply) ?room) + 2 + length (tx_cut_short_note tx)"
        using 2 by simp
      also have "\<dots> \<le> MAX_HANDOVER_SUMMARY_CHARS" using cap [of "trim reply" ?room] assms by linarith
      finally show ?thesis using 2 by (auto simp: suffix_def)
    qed auto
    then show ?thesis using Some p whole by (simp add: COMPACTION_CARRY_MAX_CHARS_def)
  qed
qed

section \<open>No entry opens a section of the transcript\<close>

definition is_heading :: "rstr \<Rightarrow> bool" where
  "is_heading line \<longleftrightarrow> starts_with ''#'' (trim_start_matches is_whitespace line)"

abbreviation headings :: "rstr \<Rightarrow> rstr list" where
  "headings s \<equiv> filter is_heading (split_on breaks_line s)"

lemma breaks_whitespace: "breaks_line c \<Longrightarrow> is_whitespace c"
  by (auto simp: breaks_line_def is_whitespace_def)

lemma breaks_NL [simp]: "breaks_line NL"
  by (simp add: breaks_line_def)

lemma is_heading_Nil [simp]: "\<not> is_heading []"
  by (simp add: is_heading_def trim_start_matches_def starts_with_def)

lemma headings_NL [simp]: "headings (a @ NL # b) = headings a @ headings b"
  by (simp add: split_on_sep)

lemma headings_NL_Cons [simp]: "headings (NL # b) = headings b"
  using headings_NL [of "[]" b] by simp

lemma headings_line: "\<forall>c \<in> set line. \<not> breaks_line c \<Longrightarrow> headings line = (if is_heading line then [line] else [])"
  by (simp add: split_on_free)

lemma headings_join:
  assumes "\<forall>line \<in> set ls. (\<forall>c \<in> set line. \<not> breaks_line c) \<and> \<not> is_heading line"
  shows "headings (join_with [NL] ls) = []"
  using assms by (induction ls rule: induct_list012) (auto simp: headings_line)

lemma normalized_breaks: "c \<in> set (normalize_line_breaks s) \<Longrightarrow> breaks_line c \<Longrightarrow> c = NL"
  by (auto simp: normalize_line_breaks_def)

lemma text_lines_unbroken:
  assumes "line \<in> set (text_lines (normalize_line_breaks s))" "c \<in> set line"
  shows "\<not> breaks_line c"
proof -
  have "line \<in> set (split_on (\<lambda>c. c = NL) (normalize_line_breaks s))"
    using assms(1) by (auto simp: text_lines_def Let_def split: if_splits dest: in_set_butlastD)
  from split_on_chars [OF this assms(2)] show ?thesis using normalized_breaks by blast
qed

lemma headings_quoted: "headings (quoted s) = []"
  unfolding quoted_def
  by (rule headings_join)
    (auto dest: text_lines_unbroken simp: is_heading_def trim_start_matches_def starts_with_def is_whitespace_def breaks_line_def)

lemma escape_heading_ok:
  assumes "\<forall>c \<in> set line. \<not> breaks_line c"
  shows "(\<forall>c \<in> set (escape_heading line). \<not> breaks_line c) \<and> \<not> is_heading (escape_heading line)"
proof (cases "is_heading line")
  case False
  then show ?thesis using assms by (simp add: escape_heading_def is_heading_def Let_def)
next
  case True
  have l: "length line - length (dropWhile is_whitespace line) = length (takeWhile is_whitespace line)"
    by (metis add_diff_cancel_right' length_append takeWhile_dropWhile_id)
  have e: "escape_heading line = takeWhile is_whitespace line @ BSL # dropWhile is_whitespace line"
    using True by (simp add: escape_heading_def is_heading_def Let_def trim_start_matches_def l)
      (metis takeWhile_eq_take)
  have "dropWhile is_whitespace (escape_heading line) = BSL # dropWhile is_whitespace line"
    unfolding e by (subst dropWhile_append2) (auto dest: set_takeWhileD simp: is_whitespace_def)
  then show ?thesis using assms
    by (auto simp: e is_heading_def trim_start_matches_def starts_with_def breaks_line_def
      dest: set_takeWhileD set_dropWhileD)
qed

lemma headings_escaped: "headings (escape_headings s) = []"
  unfolding escape_headings_def
  by (rule headings_join) (use escape_heading_ok text_lines_unbroken in auto)

lemma split_on_snoc:
  "\<not> P c \<Longrightarrow> split_on P (s @ [c]) = butlast (split_on P s) @ [last (split_on P s) @ [c]]"
  by (induction s) (auto split: list.splits)

lemma is_heading_append: "is_heading line \<Longrightarrow> is_heading (line @ rest)"
proof -
  assume h: "is_heading line"
  then obtain r where "dropWhile is_whitespace line = CHR ''#'' # r"
    by (auto simp: is_heading_def trim_start_matches_def starts_with_iff prefix_def)
  then have "dropWhile is_whitespace (line @ rest) = CHR ''#'' # r @ rest"
    by (metis append_Cons dropWhile_append list.distinct(1) dropWhile_eq_Nil_conv)
  then show ?thesis by (simp add: is_heading_def trim_start_matches_def starts_with_iff)
qed

lemma headings_trim:
  assumes "\<forall>line \<in> set (headings s). \<not> is_whitespace (last line)"
  shows "headings (trim_end_matches is_whitespace s) = headings s"
  using assms
proof (induction s rule: rev_induct)
  case Nil
  then show ?case by (simp add: trim_end_matches_def)
next
  case (snoc c s)
  have t: "trim_end_matches is_whitespace (s @ [c]) =
      (if is_whitespace c then trim_end_matches is_whitespace s else s @ [c])"
    by (simp add: trim_end_matches_def)
  show ?case
  proof (cases "is_whitespace c")
    case True
    have "headings (s @ [c]) = headings s"
    proof (cases "breaks_line c")
      case True
      then show ?thesis by (simp add: split_on_sep)
    next
      case False
      let ?ls = "split_on breaks_line s"
      have ls: "split_on breaks_line (s @ [c]) = butlast ?ls @ [last ?ls @ [c]]" using False by (rule split_on_snoc)
      then have "\<not> is_heading (last ?ls @ [c])" using snoc.prems \<open>is_whitespace c\<close> by auto
      moreover from this have "\<not> is_heading (last ?ls)" using is_heading_append by blast
      moreover have "headings s = filter is_heading (butlast ?ls @ [last ?ls])" by simp
      ultimately show ?thesis by (simp only: ls filter_append) simp
    qed
    with snoc t True show ?thesis by simp
  qed (simp add: t)
qed

text \<open>What the texts of the transcript have to be: a heading is one line that opens with \<open>#\<close> and ends in
  text, every other one is a line that opens with a bracket.\<close>

definition texts_ok :: "Texts \<Rightarrow> bool" where
  "texts_ok tx \<longleftrightarrow>
     (\<forall>kind. is_heading (tx_heading tx kind) \<and> \<not> is_whitespace (last (tx_heading tx kind)) \<and>
        (\<forall>c \<in> set (tx_heading tx kind). \<not> breaks_line c)) \<and>
     (\<forall>line \<in> {tx_call tx} \<union> range (tx_attached tx) \<union> range (tx_result_label tx).
        starts_with ''['' line \<and> (\<forall>c \<in> set line. \<not> breaks_line c))"

lemma bracket_line:
  assumes "starts_with ''['' line" "\<forall>c \<in> set line. \<not> breaks_line c" "\<forall>c \<in> set rest. \<not> breaks_line c"
  shows "headings (line @ rest) = []"
proof -
  have "\<not> is_heading (line @ rest)"
    using assms(1) by (auto simp: is_heading_def trim_start_matches_def starts_with_iff prefix_def is_whitespace_def)
  then show ?thesis using assms by (subst headings_line) auto
qed

lemma bracket_texts:
  assumes "texts_ok tx" "\<forall>c \<in> set rest. \<not> breaks_line c"
  shows "headings (tx_call tx @ rest) = []" "headings (tx_attached tx n) = []" "headings (tx_result_label tx r) = []"
proof -
  have t: "starts_with ''['' line \<and> (\<forall>c \<in> set line. \<not> breaks_line c)"
    if "line \<in> {tx_call tx, tx_attached tx n, tx_result_label tx r}" for line
    using that assms(1) unfolding texts_ok_def by blast
  show "headings (tx_call tx @ rest) = []" using t assms(2) by (intro bracket_line) auto
  show "headings (tx_attached tx n) = []" using bracket_line [of "tx_attached tx n" "[]"] t [of "tx_attached tx n"] by simp
  show "headings (tx_result_label tx r) = []" using bracket_line [of "tx_result_label tx r" "[]"] t [of "tx_result_label tx r"] by simp
qed

lemma headings_before:
  assumes "headings b = []" "s = [] \<or> (\<exists>r. s = NL # r)" "headings s = []"
  shows "headings (b @ s) = []"
  using assms by auto

lemma headings_exchange:
  assumes "texts_ok tx"
  shows "headings (exchange_text tx ex) = []" "\<exists>r. exchange_text tx ex = NL # r"
proof -
  let ?called = "map (\<lambda>c. if c = NL then SPC else c) (normalize_line_breaks (payload_name (ex_call ex)))"
  let ?rest = "case ex_result ex of
      Some result \<Rightarrow> [NL] @ tx_result_label tx (Some (res_status result)) @ [NL] @
        quoted (truncated tx (tx_result tx (res_content result)) HANDOVER_TOOL_RESULT_CHARS)
    | None \<Rightarrow> [NL] @ tx_result_label tx None"
  have "\<forall>c \<in> set ?called. \<not> breaks_line c"
    using normalized_breaks by (auto simp: breaks_line_def)
  note call = bracket_texts(1) [OF assms this]
  have "headings ?rest = []" by (cases "ex_result ex") (simp_all add: bracket_texts(3) [OF assms, of "[]"] headings_quoted)
  then have "headings (quoted q @ ?rest) = []" for q
    by (intro headings_before headings_quoted) (auto split: option.splits)
  then have "headings ((tx_call tx @ ?called) @ NL # (quoted q @ ?rest)) = []" for q
    using call by (simp only: headings_NL append_Nil)
  then show "headings (exchange_text tx ex) = []"
    by (simp add: exchange_text_def)
  show "\<exists>r. exchange_text tx ex = NL # r" by (simp add: exchange_text_def)
qed

lemma headings_exchanges:
  assumes "texts_ok tx"
  shows "headings (concat (map (exchange_text tx) exs)) = [] \<and>
    (concat (map (exchange_text tx) exs) = [] \<or> (\<exists>r. concat (map (exchange_text tx) exs) = NL # r))"
proof (induction exs)
  case (Cons ex exs)
  then show ?case
    using headings_exchange [OF assms, of ex] headings_before [of "exchange_text tx ex" "concat (map (exchange_text tx) exs)"]
    by auto
qed simp

lemma headings_body:
  assumes "texts_ok tx"
  shows "headings (entry_body tx kind) = []"
proof (cases kind)
  case (AssistantEntry t r exs)
  then show ?thesis using headings_before [OF headings_escaped] headings_exchanges [OF assms, of exs]
    by (simp add: entry_body_def)
qed (simp_all add: entry_body_def headings_escaped bracket_texts(2) [OF assms, of "[]"])

lemma headings_blocks:
  assumes "texts_ok tx"
  shows "headings (concat (map (\<lambda>e. tx_heading tx (entry_kind (snd e)) @ [NL] @ entry_body tx (entry_kind (snd e)) @ [NL, NL]) es)) =
    map (\<lambda>e. tx_heading tx (entry_kind (snd e))) es"
proof (induction es)
  case (Cons e es)
  let ?h = "tx_heading tx (entry_kind (snd e))"
  have "headings ?h = [?h]" using assms by (subst headings_line) (auto simp: texts_ok_def)
  with Cons headings_body [OF assms] show ?case by simp
qed simp

lemma transcript_headings_eq:
  assumes "texts_ok tx"
  shows "headings (flatten_entries tx es) = map (\<lambda>e. tx_heading tx (entry_kind (snd e))) es"
proof -
  note blocks = headings_blocks [OF assms, of es]
  have "\<forall>kind. \<not> is_whitespace (last (tx_heading tx kind))" using assms by (simp add: texts_ok_def)
  then have "headings (flatten_entries tx es) = headings (concat (map (\<lambda>e. tx_heading tx (entry_kind (snd e)) @ [NL] @
      entry_body tx (entry_kind (snd e)) @ [NL, NL]) es))"
    unfolding flatten_entries_def by (intro headings_trim) (simp only: blocks, simp)
  then show ?thesis by (simp only: blocks)
qed

text \<open>The sections of the transcript the summarizer reads are the entries' own, one each and in order:
  nothing in a message, a file a tool returned or the name of a tool opens another.\<close>

theorem transcript_headings:
  assumes "texts_ok tx"
  shows "headings (flatten_entries tx es) = map (\<lambda>e. tx_heading tx (entry_kind (snd e))) es"
  using transcript_headings_eq [OF assms] .

section \<open>What the elision of a long transcript undoes\<close>

lemma clip_text_tail:
  assumes "MAX_HANDOVER_CHARS < length (flatten_entries tx es)" "tx_elided tx = label @ [NL]"
  shows "headings (handover_transcript tx es) =
    headings (take HANDOVER_HEAD_CHARS (flatten_entries tx es) @ label) @
    headings (drop (length (flatten_entries tx es) - (MAX_HANDOVER_CHARS - HANDOVER_HEAD_CHARS)) (flatten_entries tx es))"
  using assms headings_NL [of "take HANDOVER_HEAD_CHARS (flatten_entries tx es) @ label"]
  by (simp add: handover_transcript_def clip_text_def Let_def)

lemma normalize_plain: "\<forall>c \<in> set s. \<not> breaks_line c \<Longrightarrow> normalize_line_breaks s = s"
proof -
  assume s: "\<forall>c \<in> set s. \<not> breaks_line c"
  then have "replace_crlf s = s" by (induction s rule: replace_crlf.induct) auto
  with s show ?thesis by (simp add: normalize_line_breaks_def map_idI)
qed

lemma escape_hashes: "escape_headings (replicate (Suc n) CHR ''#'') = BSL # replicate (Suc n) CHR ''#''"
proof -
  have "normalize_line_breaks (replicate (Suc n) CHR ''#'') = replicate (Suc n) CHR ''#''"
    by (intro normalize_plain) (auto simp: breaks_line_def)
  moreover have "text_lines (replicate (Suc n) CHR ''#'') = [replicate (Suc n) CHR ''#'']"
    unfolding text_lines_def by (subst split_on_free) auto
  ultimately show ?thesis
    by (simp add: escape_headings_def escape_heading_def trim_start_matches_def is_whitespace_def starts_with_def Let_def)
qed

text \<open>A message of the user that is one long line of hashes.\<close>

definition hashes :: held_entry where
  "hashes = (0, new_entry (UserEntry (replicate HANDOVER_TEXT_CHARS CHR ''#'') []))"

definition hash_block :: rstr where
  "hash_block = ''#u'' @ [NL, BSL] @ replicate HANDOVER_TEXT_CHARS CHR ''#''"

lemma trim_end_append: "b \<noteq> [] \<Longrightarrow> \<not> is_whitespace (last b) \<Longrightarrow> \<forall>c \<in> set ws. is_whitespace c \<Longrightarrow>
    trim_end_matches is_whitespace (a @ b @ ws) = a @ b"
  unfolding trim_end_matches_def by (cases b rule: rev_cases) (auto simp: dropWhile_append)

lemma concat_replicate_snoc: "concat (replicate (Suc n) x) = concat (replicate n x) @ x"
  by (induction n) simp_all

lemma flatten_hashes:
  assumes "tx_heading tx (entry_kind (snd hashes)) = ''#u''"
  shows "flatten_entries tx (replicate (Suc n) hashes) = concat (replicate n (hash_block @ [NL, NL])) @ hash_block"
proof -
  have "entry_body tx (entry_kind (snd hashes)) = BSL # replicate HANDOVER_TEXT_CHARS CHR ''#''"
    using escape_hashes [of 19999]
    by (simp add: hashes_def new_entry_def entry_body_def truncated_def truncate_chars_def HANDOVER_TEXT_CHARS_def)
  then have block: "tx_heading tx (entry_kind (snd hashes)) @ [NL] @ entry_body tx (entry_kind (snd hashes)) @ [NL, NL] = hash_block @ [NL, NL]"
    using assms by (simp add: hash_block_def)
  have "flatten_entries tx (replicate (Suc n) hashes) =
      trim_end_matches is_whitespace (concat (replicate n (hash_block @ [NL, NL])) @ hash_block @ [NL, NL])"
    unfolding flatten_entries_def map_replicate concat_replicate_snoc block ..
  also have "\<dots> = concat (replicate n (hash_block @ [NL, NL])) @ hash_block"
    by (intro trim_end_append) (auto simp: hash_block_def HANDOVER_TEXT_CHARS_def is_whitespace_def breaks_line_def)
  finally show ?thesis .
qed

definition plain_texts :: Texts where
  "plain_texts = \<lparr>tx_ellipsis = CHR ''~'', tx_role_label = (\<lambda>_. ''r''), tx_content = (\<lambda>_. ''c''),
     tx_images_omitted = (\<lambda>_. ''i''), tx_no_history = ''n'', tx_result = (\<lambda>_. ''t''), tx_heading = (\<lambda>_. ''#u''),
     tx_attached = (\<lambda>_. ''[a]''), tx_call = ''[c]'', tx_result_label = (\<lambda>_. ''[r]''), tx_standing_label = ''s'',
     tx_focus_label = ''f'', tx_prior_label = ''p'', tx_transcript_label = ''t'', tx_elided = ''.'' @ [NL], tx_ask = ''a'',
     tx_cut_short_note = ''cut''\<rparr>"

lemma texts_ok_plain: "texts_ok plain_texts"
  by (auto simp: texts_ok_def plain_texts_def is_heading_def trim_start_matches_def starts_with_def is_whitespace_def breaks_line_def)

lemma length_hash_block: "length hash_block = 20004"
  by (simp add: hash_block_def HANDOVER_TEXT_CHARS_def)

lemma length_replicated: "length (concat (replicate n b)) = n * length b"
  by (induction n) simp_all

lemma drop_replicated: "drop (k * length b + j) (concat (replicate (k + Suc m) b) @ s) = drop j (b @ concat (replicate m b) @ s)"
  by (induction k) (simp_all add: add.assoc)

lemma drop_hashes: "drop 82 hash_block = replicate 19922 CHR ''#''"
  by (simp add: hash_block_def HANDOVER_TEXT_CHARS_def drop_Cons')

lemma headings_hashes: "0 < n \<Longrightarrow> headings (replicate n CHR ''#'') = [replicate n CHR ''#'']"
  by (cases n)
    (simp_all add: split_on_free breaks_line_def is_heading_def trim_start_matches_def starts_with_def is_whitespace_def)

text \<open>The escapes hold for the transcript, not for what is left of a long one: the elision cuts in the
  middle of a line, and the rest of an escaped or quoted line is then a line of its own. Twenty-one
  messages of hashes make a heading that belongs to no entry.\<close>

theorem elided_transcript_forges:
  "texts_ok plain_texts \<and>
   headings (flatten_entries plain_texts (replicate 21 hashes)) = replicate 21 ''#u'' \<and>
   replicate 19922 CHR ''#'' \<in> set (headings (handover_transcript plain_texts (replicate 21 hashes)))"
proof -
  let ?b = "hash_block @ [NL, NL]"
  let ?t = "concat (replicate 20 ?b) @ hash_block"
  have h: "tx_heading plain_texts kind = ''#u''" for kind by (simp add: plain_texts_def)
  have f: "flatten_entries plain_texts (replicate 21 hashes) = ?t"
    using flatten_hashes [of plain_texts 20] h by simp
  have len: "length ?t = 420124" by (simp only: length_append length_replicated length_hash_block) simp
  have "drop 140124 ?t = drop (7 * length ?b + 82) (concat (replicate (7 + Suc 12) ?b) @ hash_block)"
    by (simp add: length_hash_block)
  also have "\<dots> = drop 82 (?b @ concat (replicate 12 ?b) @ hash_block)" by (rule drop_replicated)
  also have "\<dots> = replicate 19922 CHR ''#'' @ NL # NL # concat (replicate 12 ?b) @ hash_block"
    by (simp only: append.assoc drop_append drop_hashes length_hash_block) simp
  finally have tail: "drop 140124 ?t = replicate 19922 CHR ''#'' @ NL # NL # concat (replicate 12 ?b) @ hash_block" .
  have hd: "headings (replicate 19922 CHR ''#'') = [replicate 19922 CHR ''#'']"
    by (rule headings_hashes) simp
  have "headings (handover_transcript plain_texts (replicate 21 hashes)) =
      headings (take HANDOVER_HEAD_CHARS ?t @ ''.'') @ headings (drop 140124 ?t)"
    using clip_text_tail [of plain_texts "replicate 21 hashes" "''.''"] len
    by (simp only: f) (simp add: MAX_HANDOVER_CHARS_def HANDOVER_HEAD_CHARS_def plain_texts_def)
  then have "replicate 19922 CHR ''#'' \<in> set (headings (handover_transcript plain_texts (replicate 21 hashes)))"
    by (simp only: tail headings_NL hd) simp
  moreover have "headings (flatten_entries plain_texts (replicate 21 hashes)) = replicate 21 ''#u''"
    using transcript_headings_eq [OF texts_ok_plain] by (simp only: h map_replicate_const length_replicate)
  ultimately show ?thesis using texts_ok_plain by blast
qed

section \<open>Runs of the fold\<close>

definition long_session :: Session where
  "long_session = foldr (\<lambda>task s. push_user ''t'' task s) [''8'', ''7'', ''6'', ''5'', ''4'', ''3'', ''2'', ''1'']
     (push_system ''s'' new_session)"

definition long_plan :: CompactionPlan where
  "long_plan = \<lparr>cp_head = 1, cp_tail_start = 4, cp_carried = None\<rparr>"

lemma plan_long: "plan_compaction (entries long_session) = Some long_plan"
  by code_simp

lemma pointers_long: "pointers_ok long_session"
  by code_simp

theorem fold_keeps_witness:
  "plan_compaction (entries long_session) = Some long_plan \<and>
   (case apply_compaction 9 (entries long_session) long_plan ''sum'' of result \<Rightarrow>
      0 < cr_archived_count result \<and>
      last (filter is_user (cr_entries result)) = last (filter is_user (entries long_session)))"
  using plan_long fold_keeps [OF plan_long, of 9 "''sum''"] by (auto simp: Let_def)


theorem rescue_always_folds_witness:
  "\<exists>s' n summary cut_short. compact_session plain_texts OverflowRescue (\<lambda>_. Inl HandoverFailed) False long_session long_session =
     (s', Applied n summary cut_short) \<and> 0 < n \<and> plan_compaction (entries s') = None"
proof -
  have "must_fold OverflowRescue" by (simp add: must_fold_def)
  from rescue_always_folds [of long_session long_plan OverflowRescue "\<lambda>_. Inl HandoverFailed" plain_texts, OF plan_long this]
  show ?thesis by (auto split: prod.splits)
qed

theorem handover_within_cap_witness:
  "length (tx_cut_short_note plain_texts) + 3 \<le> MAX_HANDOVER_SUMMARY_CHARS \<and>
   collect_handover plain_texts [SummaryDelta '' task '', OtherHandoverEvent, SummaryDone (Some 12000)] =
     Some (''task'' @ [NL, NL] @ ''cut'', True) \<and>
   length (''task'' @ [NL, NL] @ ''cut'') \<le> MAX_HANDOVER_SUMMARY_CHARS"
proof -
  have cap: "length (tx_cut_short_note plain_texts) + 3 \<le> MAX_HANDOVER_SUMMARY_CHARS"
    by (simp add: plain_texts_def MAX_HANDOVER_SUMMARY_CHARS_def)
  have t: "trim '' task '' = ''task''" by (simp add: trim_def trim_end_matches_def trim_start_matches_def is_whitespace_def)
  have c: "collect_handover plain_texts [SummaryDelta '' task '', OtherHandoverEvent, SummaryDone (Some 12000)] =
     Some (''task'' @ [NL, NL] @ ''cut'', True)"
    by (simp add: collect_handover_def t HANDOVER_MAX_TOKENS_def truncated_def truncate_chars_def plain_texts_def
      MAX_HANDOVER_SUMMARY_CHARS_def)
  show ?thesis
    using cap c handover_within_cap [OF cap, of "[SummaryDelta '' task '', OtherHandoverEvent, SummaryDone (Some 12000)]"] by simp
qed

theorem transcript_headings_witness:
  "texts_ok plain_texts \<and>
   headings (flatten_entries plain_texts [(0, new_entry (UserEntry (''fix'' @ [NL] @ ''# User'') []))]) = [''#u'']"
proof -
  have "tx_heading plain_texts kind = ''#u''" for kind by (simp add: plain_texts_def)
  then show ?thesis
    using texts_ok_plain transcript_headings [OF texts_ok_plain, of "[(0, new_entry (UserEntry (''fix'' @ [NL] @ ''# User'') []))]"]
    by simp
qed

end
