(* ===== verification/Text_Match.thy ===== *)
theory Text_Match
  imports Prelude
begin

text \<open>
  Where a patch lands, the matching half of \<^verbatim>\<open>workspace_tools.rs\<close>: the search that counts overlapping
  occurrences, the normalizations with their maps back to the file, the cascade of \<^verbatim>\<open>locate_match\<close>
  (exact, then regardless of indentation, then regardless of punctuation, each accepted only when it
  matches in one place), and the re-indentation of the replacement.

  The code's offsets are bytes and are only ever used to slice the text they came from, always at the
  boundary of a character; here they count characters.
\<close>

section \<open>Counting occurrences\<close>

fun find_sub :: "rstr \<Rightarrow> rstr \<Rightarrow> nat option" where
  "find_sub needle [] = (if needle = [] then Some 0 else None)"
| "find_sub needle (c # cs) =
     (if starts_with needle (c # cs) then Some 0 else map_option Suc (find_sub needle cs))"

function overlap_from :: "rstr \<Rightarrow> rstr \<Rightarrow> nat \<Rightarrow> nat \<Rightarrow> nat option \<Rightarrow> nat \<times> nat option" where
  "overlap_from haystack needle from count first =
     (case find_sub needle (drop from haystack) of
        None \<Rightarrow> (count, first)
      | Some offset \<Rightarrow>
          (let at = from + offset; first' = (if first = None then Some at else first) in
           if length haystack \<le> at + 1 then (count + 1, first')
           else overlap_from haystack needle (at + 1) (count + 1) first'))"
  by pat_completeness auto
termination
  by (relation "measure (\<lambda>(haystack, needle, from, count, first). length haystack - from)") auto

declare overlap_from.simps [simp del]

definition overlapping_matches :: "rstr \<Rightarrow> rstr \<Rightarrow> nat \<times> nat option" where
  "overlapping_matches haystack needle =
     (if needle = [] then (0, None) else overlap_from haystack needle 0 0 None)"

section \<open>Line endings and indentation\<close>

abbreviation CR :: char where "CR \<equiv> CHR 0x0D"

definition to_crlf :: "rstr \<Rightarrow> rstr" where
  "to_crlf s = concat (map (\<lambda>c. if c = NL then [CR, NL] else [c]) (replace_crlf s))"

definition is_indent :: "char \<Rightarrow> bool" where
  "is_indent c \<longleftrightarrow> c = SPC \<or> c = TAB"

definition leading_indent :: "rstr \<Rightarrow> rstr" where
  "leading_indent s =
     (let first = hd (split_on (\<lambda>c. c = NL) s) in
      take (length first - length (trim_start_matches is_indent first)) first)"

definition expand_to_line_start :: "rstr \<Rightarrow> nat \<Rightarrow> nat" where
  "expand_to_line_start contents start =
     (let line_begin = (case position (\<lambda>c. c = NL) (rev (take start contents)) of None \<Rightarrow> 0 | Some k \<Rightarrow> start - k) in
      if list_all is_indent (drop line_begin (take start contents)) then line_begin else start)"

definition realign_partial_indent :: "rstr \<Rightarrow> nat \<Rightarrow> rstr \<Rightarrow> rstr \<Rightarrow> nat" where
  "realign_partial_indent contents start old new =
     (let old_indent = leading_indent old in
      if old_indent = [] \<or> old_indent = leading_indent new then start
      else expand_to_line_start contents start)"

definition reindent_to_file :: "rstr \<Rightarrow> rstr \<Rightarrow> rstr" where
  "reindent_to_file new file_base =
     (let new_base = leading_indent new in
      if new_base = file_base then new
      else
        join_with [NL]
          (map (\<lambda>line. if trim line = [] then line
              else case strip_prefix new_base line of Some rest \<Rightarrow> file_base @ rest | None \<Rightarrow> line)
            (split_on (\<lambda>c. c = NL) new)))"

section \<open>The normalizations\<close>

fun split_inclusive :: "rstr \<Rightarrow> rstr list" where
  "split_inclusive [] = []"
| "split_inclusive (c # cs) =
     (if c = NL then [c] # split_inclusive cs
      else case split_inclusive cs of [] \<Rightarrow> [[c]] | line # ls \<Rightarrow> (c # line) # ls)"

fun strip_lines :: "rstr list \<Rightarrow> nat \<Rightarrow> rstr \<times> nat list" where
  "strip_lines [] offset = ([], [])"
| "strip_lines (line # ls) offset =
     (let rest = trim_start_matches is_indent line;
          base = offset + (length line - length rest)
      in case strip_lines ls (offset + length line) of
           (out, m) \<Rightarrow> (rest @ out, map (\<lambda>index. base + index) [0..<length rest] @ m))"

definition strip_leading_ws_with_map :: "rstr \<Rightarrow> rstr \<times> nat list" where
  "strip_leading_ws_with_map s =
     (case strip_lines (split_inclusive s) 0 of (out, m) \<Rightarrow> (out, m @ [length s]))"

definition normalize_punct_char :: "char \<Rightarrow> char" where
  "normalize_punct_char ch = (if ch = CHR 0xA0 then SPC else ch)"

definition normalize_punct_with_map :: "rstr \<Rightarrow> rstr \<times> nat list" where
  "normalize_punct_with_map s = (map normalize_punct_char s, [0..<length s] @ [length s])"

section \<open>The cascade\<close>

datatype MatchKind = Exact | Indent | Punct

record Located =
  loc_start :: nat
  loc_end :: nat
  loc_kind :: MatchKind
  loc_override :: "rstr option"

datatype MatchError = NotFound | NonUnique nat MatchKind

definition original_char_end :: "rstr \<Rightarrow> nat \<Rightarrow> nat" where
  "original_char_end original start = start + (case drop start original of [] \<Rightarrow> 0 | _ # _ \<Rightarrow> 1)"

definition unique_range :: "rstr \<Rightarrow> rstr \<Rightarrow> nat list \<Rightarrow> rstr \<Rightarrow> nat option + nat \<times> nat" where
  "unique_range original hay m needle =
     (if needle = [] then Inl None
      else case overlapping_matches hay needle of
        (count, first) \<Rightarrow>
          if count = 1 then
            (case first of
               Some ns \<Rightarrow> Inr (m ! ns, original_char_end original (m ! (ns + length needle - 1)))
             | None \<Rightarrow> Inl (Some count))
          else if count = 0 then Inl None
          else Inl (Some count))"

text \<open>One layer that compares the text as it is: the answer, or \<open>None\<close> to go on.\<close>

definition exact_layer :: "rstr \<Rightarrow> rstr \<Rightarrow> rstr \<Rightarrow> (MatchError + Located) option" where
  "exact_layer contents old new =
     (case overlapping_matches contents old of
        (count, first) \<Rightarrow>
          if count = 1 \<and> first \<noteq> None then
            Some (Inr \<lparr>loc_start = realign_partial_indent contents (the first) old new,
              loc_end = the first + length old, loc_kind = Exact, loc_override = None\<rparr>)
          else if 1 < count then Some (Inl (NonUnique count Exact))
          else None)"

definition indent_layer :: "rstr \<Rightarrow> rstr \<Rightarrow> rstr \<Rightarrow> (MatchError + Located) option" where
  "indent_layer contents old new =
     (case strip_leading_ws_with_map contents of
        (hay, m) \<Rightarrow>
          (case unique_range contents hay m (fst (strip_leading_ws_with_map old)) of
             Inr (start, finish) \<Rightarrow>
               (let region_start = expand_to_line_start contents start in
                Some (Inr \<lparr>loc_start = region_start, loc_end = finish, loc_kind = Indent,
                  loc_override = Some (reindent_to_file new
                    (leading_indent (drop region_start (take finish contents))))\<rparr>))
           | Inl (Some count) \<Rightarrow> Some (Inl (NonUnique count Indent))
           | Inl None \<Rightarrow> None))"

definition punct_layer :: "rstr \<Rightarrow> rstr \<Rightarrow> MatchError + Located" where
  "punct_layer contents old =
     (case normalize_punct_with_map contents of
        (hay, m) \<Rightarrow>
          (case unique_range contents hay m (fst (normalize_punct_with_map old)) of
             Inr (start, finish) \<Rightarrow>
               Inr \<lparr>loc_start = start, loc_end = finish, loc_kind = Punct, loc_override = None\<rparr>
           | Inl (Some count) \<Rightarrow> Inl (NonUnique count Punct)
           | Inl None \<Rightarrow> Inl NotFound))"

definition crlf_needle :: "rstr \<Rightarrow> rstr \<Rightarrow> bool" where
  "crlf_needle contents old \<longleftrightarrow> contains_str [CR, NL] contents \<and> CR \<notin> set old \<and> NL \<in> set old"

definition locate_match :: "rstr \<Rightarrow> rstr \<Rightarrow> rstr \<Rightarrow> MatchError + Located" where
  "locate_match contents old new =
     (case exact_layer contents old new of
        Some answer \<Rightarrow> answer
      | None \<Rightarrow>
          (case (if crlf_needle contents old then exact_layer contents (to_crlf old) new else None) of
             Some answer \<Rightarrow> answer
           | None \<Rightarrow>
               (case indent_layer contents old new of
                  Some answer \<Rightarrow> answer
                | None \<Rightarrow> punct_layer contents old)))"

definition spliced :: "rstr \<Rightarrow> rstr \<Rightarrow> Located \<Rightarrow> rstr" where
  "spliced contents new located =
     (let new_text = (case loc_override located of Some t \<Rightarrow> t | None \<Rightarrow> new);
          replacement = (if contains_str [CR, NL] contents \<and> CR \<notin> set new_text then to_crlf new_text else new_text)
      in take (loc_start located) contents @ replacement @ drop (loc_end located) contents)"

section \<open>The search counts every occurrence\<close>

definition occurs_at :: "rstr \<Rightarrow> rstr \<Rightarrow> nat \<Rightarrow> bool" where
  "occurs_at haystack needle i \<longleftrightarrow> starts_with needle (drop i haystack)"

definition occurrences :: "rstr \<Rightarrow> rstr \<Rightarrow> nat list" where
  "occurrences haystack needle = filter (occurs_at haystack needle) [0..<length haystack]"

lemma find_sub_None:
  assumes "find_sub needle s = None" shows "\<forall>i. \<not> starts_with needle (drop i s)"
  using assms
proof (induction s)
  case Nil
  then show ?case by (auto simp: starts_with_iff split: if_splits)
next
  case (Cons c s)
  then have "\<not> starts_with needle (drop i (c # s))" for i
    by (cases i) (auto split: if_splits)
  then show ?case by blast
qed

lemma find_sub_Some:
  assumes "find_sub needle s = Some k"
  shows "starts_with needle (drop k s) \<and> k \<le> length s \<and> (\<forall>i < k. \<not> starts_with needle (drop i s))"
  using assms
proof (induction s arbitrary: k)
  case Nil
  then show ?case by (auto simp: starts_with_iff split: if_splits)
next
  case (Cons c s)
  show ?case
  proof (cases "starts_with needle (c # s)")
    case True
    then show ?thesis using Cons.prems by simp
  next
    case False
    then obtain j where j: "find_sub needle s = Some j" "k = Suc j" using Cons.prems by auto
    have "\<not> starts_with needle (drop i (c # s))" if "i < k" for i
      using that False Cons.IH [OF j(1)] j(2) by (cases i) auto
    with Cons.IH [OF j(1)] j(2) show ?thesis by simp
  qed
qed

lemma overlap_from_spec:
  assumes "needle \<noteq> []" "from \<le> length haystack"
  shows "overlap_from haystack needle from count first =
    (let hits = filter (occurs_at haystack needle) [from..<length haystack] in
     (count + length hits, if first = None then (case hits of [] \<Rightarrow> None | h # _ \<Rightarrow> Some h) else first))"
  using assms
proof (induction haystack needle "from" count first rule: overlap_from.induct)
  case (1 haystack needle "from" count first)
  show ?case
  proof (cases "find_sub needle (drop from haystack)")
    case None
    have "\<not> occurs_at haystack needle i" if "from \<le> i" for i
      using find_sub_None [OF None, rule_format, of "i - from"] that by (simp add: occurs_at_def add.commute)
    then have "filter (occurs_at haystack needle) [from..<length haystack] = []" by (auto simp: filter_empty_conv)
    then show ?thesis using None by (subst overlap_from.simps) (simp add: Let_def)
  next
    case (Some offset)
    let ?at = "from + offset"
    note d = find_sub_Some [OF Some]
    have at: "occurs_at haystack needle ?at" using d by (simp add: occurs_at_def add.commute)
    have "drop ?at haystack \<noteq> []" using at 1(2) by (auto simp: occurs_at_def starts_with_iff)
    then have len: "?at < length haystack" by simp
    have "\<not> occurs_at haystack needle i" if "from \<le> i" "i < ?at" for i
      using d that by (auto simp: occurs_at_def le_iff_add add.commute dest!: spec [of _ "i - from"])
    then have "filter (occurs_at haystack needle) [from..<?at] = []" by (auto simp: filter_empty_conv)
    moreover have "[from..<length haystack] = [from..<?at] @ ?at # [Suc ?at..<length haystack]"
      using len by (metis le_add1 less_imp_le upt_add_eq_append upt_conv_Cons le_iff_add)
    ultimately have hits: "filter (occurs_at haystack needle) [from..<length haystack] =
        ?at # filter (occurs_at haystack needle) [Suc ?at..<length haystack]" using at by simp
    show ?thesis
    proof (cases "length haystack \<le> ?at + 1")
      case True
      then show ?thesis using Some hits by (subst overlap_from.simps) (simp add: Let_def)
    next
      case False
      have "overlap_from haystack needle from count first =
          overlap_from haystack needle (?at + 1) (count + 1) (if first = None then Some ?at else first)"
        using Some False by (subst overlap_from.simps) (simp add: Let_def)
      also note 1(1) [OF Some refl refl False 1(2)]
      finally show ?thesis using False hits by (auto simp: Let_def)
    qed
  qed
qed

lemma overlapping_matches_eq:
  "overlapping_matches haystack needle =
     (if needle = [] then (0, None)
      else (length (occurrences haystack needle), case occurrences haystack needle of [] \<Rightarrow> None | h # _ \<Rightarrow> Some h))"
  by (simp add: overlapping_matches_def overlap_from_spec occurrences_def Let_def)

lemma occurs_atD: "occurs_at s needle i \<Longrightarrow> i \<le> length s \<Longrightarrow> i + length needle \<le> length s \<and> take (length needle) (drop i s) = needle"
proof -
  assume "occurs_at s needle i" and i: "i \<le> length s"
  then obtain zs where z: "drop i s = needle @ zs" by (auto simp: occurs_at_def starts_with_iff prefix_def)
  from arg_cong [OF this, of length] have "length s - i = length needle + length zs" by simp
  with i z show ?thesis by simp
qed

lemma occurrences_D:
  "occurrences s needle = i # rest \<Longrightarrow> i + length needle \<le> length s \<and> take (length needle) (drop i s) = needle"
proof -
  assume "occurrences s needle = i # rest"
  then have "i \<in> set (occurrences s needle)" by simp
  then show ?thesis using occurs_atD [of s needle i] by (simp add: occurrences_def)
qed

section \<open>What the indentation layer compares\<close>

text \<open>Stripping a text, with what was read before it: whether it stands in the indentation of a line.\<close>

fun strip_from :: "bool \<Rightarrow> rstr \<Rightarrow> rstr" where
  "strip_from b [] = []"
| "strip_from b (c # cs) = (if b \<and> is_indent c then strip_from b cs else c # strip_from (c = NL) cs)"

fun kept_from :: "bool \<Rightarrow> nat \<Rightarrow> rstr \<Rightarrow> nat list" where
  "kept_from b off [] = []"
| "kept_from b off (c # cs) = (if b \<and> is_indent c then kept_from b (Suc off) cs else off # kept_from (c = NL) (Suc off) cs)"

fun indent_state :: "bool \<Rightarrow> rstr \<Rightarrow> bool" where
  "indent_state b [] = b"
| "indent_state b (c # cs) = indent_state (if b \<and> is_indent c then b else c = NL) cs"

lemma strip_from_append: "strip_from b (x @ y) = strip_from b x @ strip_from (indent_state b x) y"
  by (induction b x rule: strip_from.induct) auto

lemma kept_from_append: "kept_from b off (x @ y) = kept_from b off x @ kept_from (indent_state b x) (off + length x) y"
  by (induction b off x rule: kept_from.induct) auto

lemma length_kept_from: "length (kept_from b off s) = length (strip_from b s)"
  by (induction b off s rule: kept_from.induct) auto

lemma kept_from_bounds: "i \<in> set (kept_from b off s) \<Longrightarrow> off \<le> i \<and> i < off + length s"
  by (induction b off s rule: kept_from.induct) (auto split: if_splits)

lemma NL_not_indent [simp]: "\<not> is_indent NL"
  by (simp add: is_indent_def)

lemma upt_off: "[off..<off + Suc n] = off # [Suc off..<Suc off + n]"
  by (simp add: upt_conv_Cons del: upt_Suc)

lemma strip_from_plain: "\<forall>c \<in> set line. c \<noteq> NL \<Longrightarrow> strip_from False line = line \<and> kept_from False off line = [off..<off + length line]
    \<and> indent_state False line = False"
proof (induction line arbitrary: off)
  case (Cons c line)
  then show ?case using Cons.IH [of "Suc off"] upt_off [of off "length line"] by (simp del: upt_Suc)
qed simp

lemma strip_from_line:
  assumes "\<forall>c \<in> set line. c \<noteq> NL"
  shows "strip_from True line = dropWhile is_indent line \<and>
    kept_from True off line = [off + (length line - length (dropWhile is_indent line))..<off + length line]"
  using assms
proof (induction line arbitrary: off)
  case (Cons c line)
  show ?case
  proof (cases "is_indent c")
    case True
    have "length (dropWhile is_indent line) \<le> length line" by (rule length_dropWhile_le)
    with Cons True show ?thesis by (simp add: Suc_diff_le)
  next
    case False
    with Cons.prems show ?thesis
      using strip_from_plain [of line "Suc off"] upt_off [of off "length line"] by (simp del: upt_Suc)
  qed
qed simp

lemma split_inclusive_append:
  "\<forall>c \<in> set line. c \<noteq> NL \<Longrightarrow> split_inclusive (line @ NL # rest) = (line @ [NL]) # split_inclusive rest"
  by (induction line) auto

lemma split_inclusive_last: "\<forall>c \<in> set line. c \<noteq> NL \<Longrightarrow> split_inclusive line = (if line = [] then [] else [line])"
  by (induction line) auto

lemma dropWhile_indent_NL: "dropWhile is_indent (line @ [NL]) = dropWhile is_indent line @ [NL]"
  by (simp add: dropWhile_append)

lemma map_plus_upt: "map (\<lambda>index. b + index) [0..<n] = [b..<b + n]"
  by (induction n) auto

lemma strip_lines_eq: "strip_lines (split_inclusive s) off = (strip_from True s, kept_from True off s)"
proof (induction s arbitrary: off rule: length_induct)
  case (1 s)
  show ?case
  proof (cases "NL \<in> set s")
    case False
    then have "\<forall>c \<in> set s. c \<noteq> NL" by auto
    then show ?thesis
      using strip_from_line [of s off] length_dropWhile_le [of is_indent s]
      by (simp add: split_inclusive_last trim_start_matches_def Let_def map_plus_upt)
  next
    case True
    then obtain line rest where s: "s = line @ NL # rest" and l: "NL \<notin> set line" by (auto dest: split_list_first)
    from l have line: "\<forall>c \<in> set line. c \<noteq> NL" by auto
    have len: "length (dropWhile is_indent line) \<le> length line" by (rule length_dropWhile_le)
    have IH: "strip_lines (split_inclusive rest) (off + (length line + 1)) =
        (strip_from True rest, kept_from True (off + (length line + 1)) rest)"
      using 1 s by simp
    show ?thesis
      using strip_from_line [OF line, of off] IH len
      by (simp add: s split_inclusive_append [OF line] strip_from_append kept_from_append trim_start_matches_def
        dropWhile_indent_NL Let_def map_plus_upt upt_Suc_append del: upt_Suc)
  qed
qed

lemma strip_leading_ws_with_map_eq: "strip_leading_ws_with_map s = (strip_from True s, kept_from True 0 s @ [length s])"
  by (simp add: strip_leading_ws_with_map_def strip_lines_eq)

lemma strip_from_hd: "strip_from True s = c # cs \<Longrightarrow> \<not> is_indent c"
  by (induction s) (auto split: if_splits)

lemma strip_from_indent: "list_all is_indent ws \<Longrightarrow> strip_from True (ws @ s) = strip_from True s"
  by (induction ws) auto

lemma kept_from_split:
  assumes "n < length (kept_from b off s)"
  shows "\<exists>x c y. s = x @ c # y \<and> kept_from b off s ! n = off + length x \<and> length (strip_from b x) = n \<and>
    \<not> (indent_state b x \<and> is_indent c)"
  using assms
proof (induction b off s arbitrary: n rule: kept_from.induct)
  case (2 b off c cs)
  show ?case
  proof (cases "b \<and> is_indent c")
    case True
    with 2 have "n < length (kept_from b (Suc off) cs)" by simp
    from 2(1) [OF True this] obtain x d y where "cs = x @ d # y" "kept_from b (Suc off) cs ! n = Suc off + length x"
      "length (strip_from b x) = n" "\<not> (indent_state b x \<and> is_indent d)" by blast
    with True show ?thesis by (intro exI [of _ "c # x"] exI [of _ d] exI [of _ y]) auto
  next
    case False
    show ?thesis
    proof (cases n)
      case 0
      with False show ?thesis by (intro exI [of _ "[]"] exI [of _ c] exI [of _ cs]) auto
    next
      case (Suc m)
      with 2(3) False have "m < length (kept_from (c = NL) (Suc off) cs)" by auto
      from 2(2) [OF False this] obtain x d y where "cs = x @ d # y" "kept_from (c = NL) (Suc off) cs ! m = Suc off + length x"
        "length (strip_from (c = NL) x) = m" "\<not> (indent_state (c = NL) x \<and> is_indent d)" by blast
      with False Suc show ?thesis by (intro exI [of _ "c # x"] exI [of _ d] exI [of _ y]) auto
    qed
  qed
qed simp

lemma unique_range_Inr:
  assumes "unique_range original hay m needle = Inr (start, finish)"
  shows "needle \<noteq> [] \<and> (\<exists>ns. occurrences hay needle = [ns] \<and> start = m ! ns \<and>
    finish = original_char_end original (m ! (ns + length needle - 1)))"
  using assms
  by (auto simp: unique_range_def overlapping_matches_eq split: if_splits list.splits)

lemma expand_to_line_start_indent:
  "expand_to_line_start contents start \<le> start \<and>
   list_all is_indent (drop (expand_to_line_start contents start) (take start contents))"
  by (auto simp: expand_to_line_start_def Let_def split: option.splits)

lemma strip_region:
  assumes "unique_range contents (strip_from True contents) (kept_from True 0 contents @ rest) (strip_from True old) = Inr (start, finish)"
  shows "\<exists>x region y. contents = x @ region @ y \<and> start = length x \<and> finish = length x + length region \<and>
    strip_from True region = strip_from True old"
proof -
  let ?hay = "strip_from True contents" and ?needle = "strip_from True old"
  from unique_range_Inr [OF assms] obtain ns where ne: "?needle \<noteq> []" and occ: "occurrences ?hay ?needle = [ns]"
    and st: "start = (kept_from True 0 contents @ rest) ! ns"
    and fin: "finish = original_char_end contents ((kept_from True 0 contents @ rest) ! (ns + length ?needle - 1))" by blast
  note hit = occurrences_D [OF occ]
  define k where "k = ns + length ?needle - 1"
  have k: "k < length ?hay" "ns \<le> k" "Suc k = ns + length ?needle" using hit ne by (auto simp: k_def neq_Nil_conv)
  from k have "ns < length (kept_from True 0 contents)" "k < length (kept_from True 0 contents)"
    by (simp_all add: length_kept_from)
  note inside = this
  from kept_from_split [OF inside(1), unfolded add_0] obtain x c y where
    x: "contents = x @ c # y" "kept_from True 0 contents ! ns = length x" "length (strip_from True x) = ns"
      "\<not> (indent_state True x \<and> is_indent c)" by blast
  from kept_from_split [OF inside(2), unfolded add_0] obtain x2 d y2 where
    x2: "contents = x2 @ d # y2" "kept_from True 0 contents ! k = length x2" "length (strip_from True x2) = k"
      "\<not> (indent_state True x2 \<and> is_indent d)" by blast
  have start: "start = length x" using st x(2) \<open>ns < length (kept_from True 0 contents)\<close> by (simp add: nth_append)
  have finish: "finish = Suc (length x2)"
  proof -
    have "(kept_from True 0 contents @ rest) ! k = length x2" using x2(2) inside(2) by (simp add: nth_append)
    then show ?thesis using fin x2(1) by (simp only: k_def [symmetric]) (simp add: original_char_end_def)
  qed
  have through: "length (strip_from True (x2 @ [d])) = Suc k" using x2 by (simp add: strip_from_append)
  have "length x < Suc (length x2)"
  proof (rule ccontr)
    assume "\<not> ?thesis"
    then have "prefix (x2 @ [d]) x" using x(1) x2(1) by (metis append.assoc append_Cons append_Nil leI length_append_singleton prefixI prefix_length_prefix not_less)
    then obtain z where "x = (x2 @ [d]) @ z" by (auto simp: prefix_def)
    then have "Suc k \<le> length (strip_from True x)" using through by (simp only: strip_from_append length_append)
    with k x(3) show False by simp
  qed
  then have "prefix x (x2 @ [d])" using x(1) x2(1)
    by (metis append.assoc append_Cons append_Nil less_Suc_eq_le length_append_singleton less_imp_le prefixI prefix_length_prefix)
  then obtain region where region: "x2 @ [d] = x @ region" by (auto simp: prefix_def)
  have contents: "contents = x @ region @ y2" using x2(1) region by (metis append.assoc append_Cons append_Nil)
  have "length (x2 @ [d]) = length x + length region" by (simp only: region length_append)
  then have len: "finish = length x + length region" using finish by simp
  let ?part = "strip_from (indent_state True x) region"
  have "length (strip_from True x @ ?part) = Suc k" using through by (simp only: region strip_from_append)
  then have plen: "length ?part = length ?needle" using x(3) k by simp
  have "?hay = strip_from True x @ ?part @ strip_from (indent_state (indent_state True x) region) y2"
    by (simp only: contents strip_from_append)
  then have part: "?part = ?needle" using hit x(3) plen by simp
  have "region \<noteq> []" using part ne by auto
  then obtain r where r: "region = c # r" using contents x(1) by (cases region) auto
  then have "?part = c # strip_from (c = NL) r" using x(4) by (cases "indent_state True x \<and> is_indent c") auto
  then have "\<not> is_indent c" using part strip_from_hd [of old] by metis
  then have "strip_from True region = ?needle" using r part \<open>?part = c # strip_from (c = NL) r\<close> by simp
  with contents start len show ?thesis by blast
qed

section \<open>What a patch replaces\<close>

text \<open>A layer compares the texts up to what it ignores.\<close>

definition layer_text :: "MatchKind \<Rightarrow> rstr \<Rightarrow> rstr" where
  "layer_text kind s =
     (case kind of Exact \<Rightarrow> s
      | Indent \<Rightarrow> fst (strip_leading_ws_with_map s)
      | Punct \<Rightarrow> fst (normalize_punct_with_map s))"

text \<open>The region is the only place of the file that reads as the text asked for, under the layer's
  reading, but for indentation in front of it on its line.\<close>

definition unique_region :: "rstr \<Rightarrow> rstr \<Rightarrow> Located \<Rightarrow> bool" where
  "unique_region contents needle located \<longleftrightarrow>
     length (occurrences (layer_text (loc_kind located) contents) (layer_text (loc_kind located) needle)) = 1 \<and>
     (\<exists>before ws core after. contents = before @ ws @ core @ after \<and>
        loc_start located = length before \<and> loc_end located = length before + length ws + length core \<and>
        list_all is_indent ws \<and> layer_text (loc_kind located) core = layer_text (loc_kind located) needle)"

lemma extended_region:
  assumes "contents = x @ region @ y" "start = length x" "before \<le> start" "list_all is_indent (drop before (take start contents))"
  shows "\<exists>b ws. contents = b @ ws @ region @ y \<and> before = length b \<and> length b + length ws = start \<and> list_all is_indent ws"
  using assms by (intro exI [of _ "take before x"] exI [of _ "drop before x"]) auto

lemma realign_indent:
  "realign_partial_indent contents start old new \<le> start \<and>
   list_all is_indent (drop (realign_partial_indent contents start old new) (take start contents))"
  using expand_to_line_start_indent [of contents start] by (simp add: realign_partial_indent_def Let_def)

lemma exact_layer_region:
  assumes "exact_layer contents needle new = Some (Inr located)"
  shows "loc_kind located = Exact \<and> unique_region contents needle located"
proof -
  from assms obtain i where occ: "occurrences contents needle = [i]" and located: "located =
      \<lparr>loc_start = realign_partial_indent contents i needle new, loc_end = i + length needle, loc_kind = Exact, loc_override = None\<rparr>"
    by (auto simp: exact_layer_def overlapping_matches_eq split: if_splits list.splits)
  note hit = occurrences_D [OF occ]
  have "contents = take i contents @ needle @ drop (i + length needle) contents"
    using hit by (metis add.commute append_take_drop_id drop_drop)
  from extended_region [OF this _ conjunct1 [OF realign_indent] conjunct2 [OF realign_indent], of i needle new] hit
  obtain b ws where "contents = b @ ws @ needle @ drop (i + length needle) contents"
    "realign_partial_indent contents i needle new = length b" "length b + length ws = i" "list_all is_indent ws" by auto
  then show ?thesis using occ unfolding located unique_region_def
    by (auto simp: layer_text_def)
qed

lemma indent_layer_region:
  assumes "indent_layer contents old new = Some (Inr located)"
  shows "loc_kind located = Indent \<and> unique_region contents old located"
proof -
  from assms obtain start finish where
    u: "unique_range contents (strip_from True contents) (kept_from True 0 contents @ [length contents]) (strip_from True old) =
      Inr (start, finish)" and
    located: "loc_start located = expand_to_line_start contents start" "loc_end located = finish" "loc_kind located = Indent"
    by (auto simp: indent_layer_def strip_leading_ws_with_map_eq Let_def split: sum.splits option.splits)
  from unique_range_Inr [OF u] have occ: "length (occurrences (strip_from True contents) (strip_from True old)) = 1" by auto
  from strip_region [OF u] obtain x region y where r: "contents = x @ region @ y" "start = length x"
    "finish = length x + length region" "strip_from True region = strip_from True old" by blast
  from extended_region [OF r(1) r(2)] expand_to_line_start_indent [of contents start] obtain b ws where
    "contents = b @ ws @ region @ y" "expand_to_line_start contents start = length b" "length b + length ws = start"
    "list_all is_indent ws" by blast
  note parts = this
  have texts: "layer_text Indent s = strip_from True s" for s by (simp add: layer_text_def strip_leading_ws_with_map_eq)
  have "loc_end located = length b + length ws + length region" using parts(3) r(2,3) located(2) by simp
  then show ?thesis unfolding unique_region_def located(1,3) texts using occ r(4) parts(1,2,4) by blast
qed

lemma punct_layer_region:
  assumes "punct_layer contents old = Inr located"
  shows "loc_kind located = Punct \<and> unique_region contents old located"
proof -
  let ?hay = "map normalize_punct_char contents" and ?needle = "map normalize_punct_char old"
  from assms obtain start finish where
    u: "unique_range contents ?hay ([0..<length contents] @ [length contents]) ?needle = Inr (start, finish)" and
    located: "loc_start located = start" "loc_end located = finish" "loc_kind located = Punct"
    by (auto simp: punct_layer_def normalize_punct_with_map_def split: sum.splits option.splits)
  from unique_range_Inr [OF u] obtain ns where ne: "old \<noteq> []" and occ: "occurrences ?hay ?needle = [ns]" and
    st: "start = ([0..<length contents] @ [length contents]) ! ns" and
    fin: "finish = original_char_end contents (([0..<length contents] @ [length contents]) ! (ns + length ?needle - 1))" by auto
  note hit = occurrences_D [OF occ]
  have "start = ns" using st hit ne by (simp add: nth_append)
  moreover have "finish = ns + length old"
    using fin hit ne by (cases old) (auto simp: nth_append original_char_end_def split: list.splits)
  moreover obtain b core after where parts: "contents = b @ core @ after" "length b = ns" "length core = length old"
  proof
    show "contents = take ns contents @ take (length old) (drop ns contents) @ drop (length old) (drop ns contents)"
      by (simp only: append_take_drop_id)
  qed (use hit in \<open>auto simp: min_def\<close>)
  moreover have "map normalize_punct_char core = ?needle" using hit parts by auto
  ultimately have "\<exists>before ws core after. contents = before @ ws @ core @ after \<and> start = length before \<and>
      finish = length before + length ws + length core \<and> list_all is_indent ws \<and> map normalize_punct_char core = ?needle"
    by (intro exI [of _ b] exI [of _ "[]"] exI [of _ core] exI [of _ after]) simp
  then show ?thesis using occ located unfolding unique_region_def
    by (simp add: layer_text_def normalize_punct_with_map_def)
qed

lemma exact_layer_None: "exact_layer contents old new = None \<Longrightarrow> old \<noteq> [] \<Longrightarrow> occurrences contents old = []"
  by (auto simp: exact_layer_def overlapping_matches_eq split: if_splits list.splits)

text \<open>A patch lands in the one place of the file that reads as the text to replace: word for word, or, only
  when that occurs nowhere, with the file's own line endings, its own indentation or its own punctuation.
  What the patch takes out is that place, with at most indentation in front of it.\<close>

theorem locate_match_sound:
  assumes "old \<noteq> []" "locate_match contents old new = Inr located"
  shows "(unique_region contents old located \<or>
      crlf_needle contents old \<and> loc_kind located = Exact \<and> unique_region contents (to_crlf old) located) \<and>
    (loc_kind located = Exact \<and> unique_region contents old located \<or> occurrences contents old = [])"
proof -
  consider "exact_layer contents old new = Some (Inr located)"
    | "exact_layer contents old new = None" "crlf_needle contents old"
      "exact_layer contents (to_crlf old) new = Some (Inr located)"
    | "exact_layer contents old new = None" "indent_layer contents old new = Some (Inr located)"
    | "exact_layer contents old new = None" "punct_layer contents old = Inr located"
    using assms(2) by (auto simp: locate_match_def split: option.splits if_splits)
  then show ?thesis
    by cases (auto dest: exact_layer_region indent_layer_region punct_layer_region exact_layer_None [OF _ assms(1)])
qed

end
