(* ===== verification/Workspace_Edits.thy ===== *)
theory Workspace_Edits
  imports Text_Match Workspace_Policy "HOL-Library.Multiset"
begin

text \<open>
  The file tools of \<^verbatim>\<open>workspace_tools.rs\<close> over the boundary and the disk: \<^verbatim>\<open>read_file\<close> with its pages,
  \<^verbatim>\<open>list_dir\<close> with its window, \<^verbatim>\<open>write_file\<close> and \<^verbatim>\<open>apply_patch\<close>.

  A tool sees one disk when the path is checked, another when it is opened, and, for a patch, a third
  when it writes: what happens between is up to other processes. The JSON that wraps an answer is left
  out, an answer is a record; an error is its kind. The length of a rendered line, which the budget of a
  page counts in, is a parameter, as is the differ of the edit record.
\<close>

definition MAX_FILE_BYTES :: nat where "MAX_FILE_BYTES = 2 * 1024 * 1024"

datatype FileToolError =
    PathRefused PathRefusal
  | SymlinkDestination
  | NotRegularFile
  | OldEmpty
  | NoChangeIntended
  | StartLineZero
  | TooLarge
  | MetadataFailed IoError
  | Unreadable IoError
  | NoMatch MatchError
  | WriteFailed IoError

section \<open>The record of an edit\<close>

definition DETAILS_DIFF_MAX_CHARS :: nat where "DETAILS_DIFF_MAX_CHARS = 64 * 1024"

record EditDetails =
  ed_path :: path
  ed_diff :: rstr
  ed_added :: nat
  ed_removed :: nat
  ed_truncated :: bool
  ed_new_file :: bool

definition str_lines :: "rstr \<Rightarrow> rstr list" where
  "str_lines s =
     map (\<lambda>line. case strip_suffix [NL] line of
            None \<Rightarrow> line
          | Some l \<Rightarrow> (case strip_suffix [CR] l of None \<Rightarrow> l | Some l' \<Rightarrow> l'))
       (split_inclusive s)"

definition edit_details :: "(rstr \<Rightarrow> rstr \<Rightarrow> rstr) \<Rightarrow> path \<Rightarrow> rstr \<Rightarrow> rstr \<Rightarrow> bool \<Rightarrow> EditDetails" where
  "edit_details unified_diff display before after new_file =
     (let diff = unified_diff before after;
          truncated = (DETAILS_DIFF_MAX_CHARS < length diff)
      in \<lparr>ed_path = display, ed_diff = (if truncated then take DETAILS_DIFF_MAX_CHARS diff else diff),
          ed_added = length (filter (\<lambda>line. starts_with ''+'' line) (str_lines diff)),
          ed_removed = length (filter (\<lambda>line. starts_with ''-'' line) (str_lines diff)),
          ed_truncated = truncated, ed_new_file = new_file\<rparr>)"

section \<open>Writing\<close>

definition write_sync ::
  "(rstr \<Rightarrow> rstr \<Rightarrow> rstr) \<Rightarrow> file_system \<Rightarrow> file_system \<Rightarrow> location \<Rightarrow> WorkspacePolicy \<Rightarrow> rstr \<Rightarrow> rstr \<Rightarrow>
   file_system \<times> (FileToolError + nat \<times> EditDetails option)" where
  "write_sync unified_diff fs1 fs2 cwd policy raw new_content =
     (case prepare_write_target fs1 fs2 cwd policy raw of
        (fs, Inl e) \<Rightarrow> (fs, Inl (PathRefused e))
      | (fs, Inr target) \<Rightarrow>
          (let proceed = (\<lambda>before new_file.
             case safe_replace fs target new_content of
               (fs', Some e) \<Rightarrow> (fs', Inl (WriteFailed e))
             | (fs', None) \<Rightarrow>
                 (fs', Inr (utf8_len new_content,
                    map_option (\<lambda>old. edit_details unified_diff (sp_path target) old new_content new_file) before)))
           in case no_follow_metadata fs target of
                Inr (LinkNode _) \<Rightarrow> (fs, Inl SymlinkDestination)
              | Inr DirNode \<Rightarrow> (fs, Inl NotRegularFile)
              | Inr (FileNode old) \<Rightarrow> proceed (if utf8_len old \<le> MAX_FILE_BYTES then Some old else None) False
              | Inl e \<Rightarrow> proceed (if e = NotFoundError then Some [] else None) True))"

section \<open>Patching\<close>

definition patch_sync ::
  "(rstr \<Rightarrow> rstr \<Rightarrow> rstr) \<Rightarrow> file_system \<Rightarrow> file_system \<Rightarrow> file_system \<Rightarrow> location \<Rightarrow> WorkspacePolicy \<Rightarrow>
   rstr \<Rightarrow> rstr \<Rightarrow> rstr \<Rightarrow> file_system \<times> (FileToolError + MatchKind \<times> EditDetails)" where
  "patch_sync unified_diff fs1 fs2 fs3 cwd policy raw old new =
     (if old = [] then (fs3, Inl OldEmpty)
      else if old = new then (fs3, Inl NoChangeIntended)
      else case open_existing fs1 fs2 cwd policy raw of
        Inl e \<Rightarrow> (fs3, Inl (PathRefused e))
      | Inr target \<Rightarrow>
          (case no_follow_metadata fs2 target of
             Inl e \<Rightarrow> (fs3, Inl (MetadataFailed e))
           | Inr node \<Rightarrow>
               (case node of
                  FileNode _ \<Rightarrow>
                    (case safe_read fs2 target of
                       Inl e \<Rightarrow> (fs3, Inl (Unreadable e))
                     | Inr contents \<Rightarrow>
                         (case locate_match contents old new of
                            Inl e \<Rightarrow> (fs3, Inl (NoMatch e))
                          | Inr located \<Rightarrow>
                              (let updated = spliced contents new located in
                               case safe_replace fs3 target updated of
                                 (fs', Some e) \<Rightarrow> (fs', Inl (WriteFailed e))
                               | (fs', None) \<Rightarrow>
                                   (fs', Inr (loc_kind located,
                                      edit_details unified_diff (sp_path target) contents updated False)))))
                | _ \<Rightarrow> (fs3, Inl NotRegularFile))))"

section \<open>Reading by pages\<close>

definition DEFAULT_READ_LINES :: nat where "DEFAULT_READ_LINES = 200"
definition MAX_READ_LINES :: nat where "MAX_READ_LINES = 500"
definition READ_LINE_BUDGET :: nat where "READ_LINE_BUDGET = TOOL_OUTPUT_BUDGET - 256"

record Page =
  pg_total :: nat
  pg_start :: nat
  pg_lines :: "(nat \<times> rstr) list"
  pg_next :: "nat option"

fun take_lines :: "(nat \<Rightarrow> rstr \<Rightarrow> nat) \<Rightarrow> nat \<Rightarrow> (nat \<times> rstr) list \<Rightarrow> (nat \<times> rstr) list \<Rightarrow> (nat \<times> rstr) list" where
  "take_lines rendered used selected [] = selected"
| "take_lines rendered used selected ((n, line) # ls) =
     (let cost = rendered n line + 1 in
      if selected \<noteq> [] \<and> READ_LINE_BUDGET < used + cost then selected
      else take_lines rendered (used + cost) (selected @ [(n, line)]) ls)"

definition read_page :: "(nat \<Rightarrow> rstr \<Rightarrow> nat) \<Rightarrow> rstr \<Rightarrow> nat \<Rightarrow> nat \<Rightarrow> Page" where
  "read_page rendered contents start_line max_lines =
     (let ls = zip [1..<length (str_lines contents) + 1] (str_lines contents);
          start_index = start_line - 1;
          selected = take_lines rendered 0 [] (take max_lines (drop start_index ls));
          returned = length selected
      in \<lparr>pg_total = length ls, pg_start = start_line, pg_lines = selected,
          pg_next = (if start_index + returned < length ls then Some (start_index + returned + 1) else None)\<rparr>)"

definition clamp :: "nat \<Rightarrow> nat \<Rightarrow> nat \<Rightarrow> nat" where
  "clamp lo hi n = max lo (min hi n)"

definition read_sync ::
  "(nat \<Rightarrow> rstr \<Rightarrow> nat) \<Rightarrow> file_system \<Rightarrow> file_system \<Rightarrow> location \<Rightarrow> WorkspacePolicy \<Rightarrow> rstr \<Rightarrow> nat option \<Rightarrow>
   nat option \<Rightarrow> FileToolError + Page" where
  "read_sync rendered fs1 fs2 cwd policy raw start_line max_lines =
     (let start_line = (case start_line of None \<Rightarrow> 1 | Some n \<Rightarrow> n);
          max_lines = clamp 1 MAX_READ_LINES (case max_lines of None \<Rightarrow> DEFAULT_READ_LINES | Some n \<Rightarrow> n)
      in if start_line = 0 then Inl StartLineZero
         else case open_existing fs1 fs2 cwd policy raw of
           Inl e \<Rightarrow> Inl (PathRefused e)
         | Inr handle \<Rightarrow>
             (case no_follow_metadata fs2 handle of
                Inl e \<Rightarrow> Inl (MetadataFailed e)
              | Inr (FileNode held) \<Rightarrow>
                  if MAX_FILE_BYTES < utf8_len held then Inl TooLarge
                  else (case safe_read fs2 handle of
                          Inl e \<Rightarrow> Inl (Unreadable e)
                        | Inr contents \<Rightarrow> Inr (read_page rendered contents start_line max_lines))
              | Inr _ \<Rightarrow> Inl NotRegularFile))"

text \<open>A reader that follows \<^verbatim>\<open>next_start_line\<close> until there is none, asking for any number of lines each
  time, at most \<open>fuel\<close> times.\<close>

fun read_on :: "nat \<Rightarrow> (nat \<Rightarrow> rstr \<Rightarrow> nat) \<Rightarrow> rstr \<Rightarrow> (nat \<Rightarrow> nat) \<Rightarrow> nat \<Rightarrow> (nat \<times> rstr) list option" where
  "read_on 0 rendered contents asked start_line = None"
| "read_on (Suc fuel) rendered contents asked start_line =
     (let page = read_page rendered contents start_line (clamp 1 MAX_READ_LINES (asked start_line)) in
      case pg_next page of
        None \<Rightarrow> Some (pg_lines page)
      | Some next_line \<Rightarrow> map_option (\<lambda>ls. pg_lines page @ ls) (read_on fuel rendered contents asked next_line))"

section \<open>Listing a directory\<close>

definition MAX_LIST_ENTRIES :: nat where "MAX_LIST_ENTRIES = 1000"

text \<open>The ordered map of the entries kept so far is the sorted list of their names.\<close>

definition keep_name :: "nat \<Rightarrow> 'n::linorder \<Rightarrow> 'n list \<Rightarrow> 'n list" where
  "keep_name cap name keyed =
     (if length keyed < cap then insort name keyed
      else if keyed \<noteq> [] \<and> name < last keyed then insort name (butlast keyed)
      else keyed)"

definition list_window :: "nat \<Rightarrow> 'n::linorder list \<Rightarrow> 'n list \<times> nat" where
  "list_window cap names = (foldl (\<lambda>keyed name. keep_name cap name keyed) [] names, length names)"

definition list_sync :: "'n::linorder list \<Rightarrow> 'n list \<times> nat option" where
  "list_sync names =
     (case list_window MAX_LIST_ENTRIES names of
        (keyed, seen) \<Rightarrow> (keyed, if MAX_LIST_ENTRIES < seen then Some seen else None))"

section \<open>A patch changes one file, in one place\<close>


section \<open>The pages of a file\<close>

lemma take_lines_prefix:
  "\<exists>n. take_lines rendered used selected ls = selected @ take n ls \<and> (if selected = [] \<and> ls \<noteq> [] then 0 < n else True) \<and> n \<le> length ls"
proof (induction rendered used selected ls rule: take_lines.induct)
  case (2 rendered used selected n line ls)
  show ?case
  proof (cases "selected \<noteq> [] \<and> READ_LINE_BUDGET < used + (rendered n line + 1)")
    case True
    then show ?thesis by (intro exI [of _ 0]) auto
  next
    case False
    from 2 [OF refl False] obtain k where "take_lines rendered (used + (rendered n line + 1)) (selected @ [(n, line)]) ls =
      (selected @ [(n, line)]) @ take k ls" "k \<le> length ls" by blast
    with False show ?thesis by (intro exI [of _ "Suc k"]) auto
  qed
qed auto

definition line_cost :: "(nat \<Rightarrow> rstr \<Rightarrow> nat) \<Rightarrow> (nat \<times> rstr) list \<Rightarrow> nat" where
  "line_cost rendered ls = sum_list (map (\<lambda>(n, line). rendered n line + 1) ls)"

lemma take_lines_budget:
  "used = line_cost rendered selected \<Longrightarrow> length selected \<le> 1 \<or> used \<le> READ_LINE_BUDGET \<Longrightarrow>
   length (take_lines rendered used selected ls) \<le> 1 \<or>
   line_cost rendered (take_lines rendered used selected ls) \<le> READ_LINE_BUDGET"
proof (induction rendered used selected ls rule: take_lines.induct)
  case (2 rendered used selected n line ls)
  show ?case
  proof (cases "selected \<noteq> [] \<and> READ_LINE_BUDGET < used + (rendered n line + 1)")
    case True
    then show ?thesis using 2(2,3) by (auto simp: Let_def)
  next
    case False
    then have fits: "length (selected @ [(n, line)]) \<le> 1 \<or> used + (rendered n line + 1) \<le> READ_LINE_BUDGET" by auto
    have step: "take_lines rendered used selected ((n, line) # ls) =
        take_lines rendered (used + (rendered n line + 1)) (selected @ [(n, line)]) ls" using False by (auto simp: Let_def)
    have "used + (rendered n line + 1) = line_cost rendered (selected @ [(n, line)])" using 2(2) by (simp add: line_cost_def)
    from 2(1) [OF refl False this fits] show ?thesis unfolding step .
  qed
qed auto

text \<open>A page of more than one line fits the budget of a tool's answer, so the runtime does not cut lines
  out of the middle of it.\<close>

theorem page_fits:
  "length (pg_lines (read_page rendered contents start_line max_lines)) \<le> 1 \<or>
   line_cost rendered (pg_lines (read_page rendered contents start_line max_lines)) \<le> READ_LINE_BUDGET"
  using take_lines_budget [of 0 rendered "[]"] by (simp add: read_page_def line_cost_def Let_def)

definition numbered :: "rstr \<Rightarrow> (nat \<times> rstr) list" where
  "numbered contents = zip [1..<length (str_lines contents) + 1] (str_lines contents)"

lemma read_page_progress:
  assumes "0 < max_lines"
  shows "\<exists>n. pg_lines (read_page rendered contents start_line max_lines) = take n (drop (start_line - 1) (numbered contents)) \<and>
    (pg_next (read_page rendered contents start_line max_lines) =
       (if start_line - 1 + n < length (numbered contents) then Some (start_line - 1 + n + 1) else None)) \<and>
    (if start_line - 1 < length (numbered contents) then 0 < n \<and> start_line - 1 + n \<le> length (numbered contents) else True)"
proof -
  let ?window = "take max_lines (drop (start_line - 1) (numbered contents))"
  from take_lines_prefix [of rendered 0 "[]" ?window] obtain n where
    n: "take_lines rendered 0 [] ?window = take n ?window" "if ?window \<noteq> [] then 0 < n else True" "n \<le> length ?window" by auto
  have "n \<le> max_lines" using n(3) by simp
  then have w: "take n ?window = take n (drop (start_line - 1) (numbered contents))" by (simp add: min_def)
  have len: "length (take n ?window) = n" using n(3) by simp
  have "read_page rendered contents start_line max_lines =
      \<lparr>pg_total = length (numbered contents), pg_start = start_line, pg_lines = take n ?window,
       pg_next = (if start_line - 1 + n < length (numbered contents) then Some (start_line - 1 + n + 1) else None)\<rparr>"
    unfolding read_page_def numbered_def [symmetric] Let_def n(1) len by simp
  moreover have "0 < n \<and> start_line - 1 + n \<le> length (numbered contents)" if "start_line - 1 < length (numbered contents)"
    using that n(2,3) assms by (auto split: if_splits)
  ultimately show ?thesis using w by (intro exI [of _ n]) auto
qed

lemma clamp_pos: "0 < clamp 1 MAX_READ_LINES n"
  by (simp add: clamp_def)

lemma read_on_rest:
  "1 \<le> start_line \<Longrightarrow> length (numbered contents) - (start_line - 1) < fuel \<Longrightarrow>
   read_on fuel rendered contents asked start_line = Some (drop (start_line - 1) (numbered contents))"
proof (induction fuel arbitrary: start_line)
  case (Suc fuel)
  let ?max = "clamp 1 MAX_READ_LINES (asked start_line)" and ?ls = "numbered contents"
  from read_page_progress [OF clamp_pos] obtain n where
    n: "pg_lines (read_page rendered contents start_line ?max) = take n (drop (start_line - 1) ?ls)"
      "pg_next (read_page rendered contents start_line ?max) =
         (if start_line - 1 + n < length ?ls then Some (start_line - 1 + n + 1) else None)"
      "if start_line - 1 < length ?ls then 0 < n \<and> start_line - 1 + n \<le> length ?ls else True" by blast
  show ?case
  proof (cases "start_line - 1 + n < length ?ls")
    case True
    then have "0 < n" using n(3) by (auto split: if_splits)
    then have "read_on fuel rendered contents asked (start_line - 1 + n + 1) = Some (drop (start_line - 1 + n) ?ls)"
      using Suc.IH [of "start_line - 1 + n + 1"] Suc.prems True by simp
    moreover have "take n (drop (start_line - 1) ?ls) @ drop (start_line - 1 + n) ?ls = drop (start_line - 1) ?ls"
      by (metis add.commute append_take_drop_id drop_drop)
    ultimately show ?thesis using n True by (simp add: Let_def)
  next
    case False
    then show ?thesis using n by (auto simp: Let_def)
  qed
qed simp

text \<open>A reader that starts at the first line and follows the continuation the tool reports, asking for
  any number of lines each time, comes to the end after at most as many calls as the file has lines and
  one, and has then seen every line once, in order and under its number.\<close>

theorem pages_cover_the_file:
  "read_on (length (str_lines contents) + 1) rendered contents asked 1 = Some (numbered contents)"
  using read_on_rest [of 1 contents "length (str_lines contents) + 1"] by (simp add: numbered_def)

section \<open>The window of a listing\<close>

lemma take_insort_before:
  assumes "sorted ys" "length ys \<le> n \<or> x < ys ! n"
  shows "insort x (take n ys) = take (Suc n) (insort x ys)"
  using assms
proof (induction ys arbitrary: n)
  case (Cons y ys)
  show ?case
  proof (cases n)
    case 0
    with Cons.prems show ?thesis by auto
  next
    case (Suc m)
    with Cons show ?thesis by auto
  qed
qed simp

lemma take_insort_after:
  assumes "sorted ys" "0 < n" "n \<le> length ys" "ys ! (n - 1) < x"
  shows "take n (insort x ys) = take n ys"
  using assms
proof (induction ys arbitrary: n)
  case (Cons y ys)
  have "y \<le> (y # ys) ! (n - 1)" using Cons.prems by (cases "n - 1") (auto intro: nth_mem)
  then have "\<not> x \<le> y" using Cons.prems(4) by auto
  show ?case
  proof (cases "n - 1")
    case 0
    with Cons.prems \<open>\<not> x \<le> y\<close> show ?thesis by (cases n) auto
  next
    case (Suc m)
    with Cons \<open>\<not> x \<le> y\<close> show ?thesis by (cases n) auto
  qed
qed simp

lemma keep_name_take:
  assumes "sorted ys" "x \<notin> set ys" "0 < cap"
  shows "keep_name cap x (take cap ys) = take cap (insort x ys)"
proof (cases "length ys < cap")
  case True
  then show ?thesis using assms by (simp add: keep_name_def length_insort)
next
  case False
  then have len: "cap \<le> length ys" by simp
  have last: "last (take cap ys) = ys ! (cap - 1)" using len assms(3) by (subst last_conv_nth) auto
  have bl: "butlast (take cap ys) = take (cap - 1) ys" using len by (simp add: butlast_take)
  have ne: "x \<noteq> ys ! (cap - 1)" using assms(2,3) len by (metis Suc_diff_1 Suc_le_eq nth_mem)
  have nonempty: "take cap ys \<noteq> []" using len assms(3) by auto
  show ?thesis
  proof (cases "x < ys ! (cap - 1)")
    case True
    have "insort x (take (cap - 1) ys) = take (Suc (cap - 1)) (insort x ys)"
      by (rule take_insort_before [OF assms(1)]) (use True in simp)
    then show ?thesis using True last bl len nonempty assms(3) by (simp add: keep_name_def)
  next
    case False
    then have "take cap (insort x ys) = take cap ys"
      using take_insort_after [OF assms(1,3) len] ne by (simp add: not_less order.order_iff_strict)
    then show ?thesis using False last len nonempty by (simp add: keep_name_def)
  qed
qed

lemma list_window_eq:
  assumes "distinct names" "0 < cap"
  shows "list_window cap names = (take cap (sort names), length names)"
  using assms
proof (induction names rule: rev_induct)
  case (snoc x names)
  then have "foldl (\<lambda>keyed name. keep_name cap name keyed) [] (names @ [x]) = keep_name cap x (take cap (sort names))"
    by (simp add: list_window_def)
  also have "\<dots> = take cap (insort x (sort names))" using snoc by (intro keep_name_take) auto
  also have "insort x (sort names) = sort (names @ [x])"
    by (rule properties_for_sort [symmetric]) (simp_all add: sorted_insort)
  finally show ?case by (simp add: list_window_def)
qed (simp add: list_window_def)

text \<open>However large a directory is, the listing keeps no more than the cap while it reads, and shows
  exactly its first names in order, with the true count when some are left out.\<close>

theorem listing_first_by_name:
  fixes names :: "'n::linorder list"
  assumes "distinct names"
  shows "list_sync names = (take MAX_LIST_ENTRIES (sort names),
    if MAX_LIST_ENTRIES < length names then Some (length names) else None)"
  using list_window_eq [OF assms, of MAX_LIST_ENTRIES] by (simp add: list_sync_def MAX_LIST_ENTRIES_def)

theorem listing_first_by_name_witness:
  "distinct [3, 1, 2 :: nat] \<and> list_sync [3, 1, 2 :: nat] = ([1, 2, 3], None)"
  using listing_first_by_name [of "[3, 1, 2 :: nat]"] by (simp add: MAX_LIST_ENTRIES_def)

section \<open>A patch on a disk\<close>

definition patch_text :: rstr where
  "patch_text = [TAB] @ ''if x:'' @ [NL, TAB, TAB] @ ''go'' @ [NL]"

definition patch_old :: rstr where "patch_old = ''if x:'' @ [NL, SPC] @ ''go''"
definition patch_new :: rstr where "patch_new = ''if y:'' @ [NL, SPC] @ ''go''"

definition patch_disk :: file_system where
  "patch_disk = sample_disk([''ws'', ''a.txt''] \<mapsto> FileNode patch_text)"

definition patch_located :: Located where
  "patch_located = \<lparr>loc_start = 0, loc_end = 11, loc_kind = Indent,
     loc_override = Some ([TAB] @ ''if y:'' @ [NL, TAB, SPC] @ ''go'')\<rparr>"

lemma patch_locates: "locate_match patch_text patch_old patch_new = Inr patch_located"
  by code_simp

lemma patch_result: "spliced patch_text patch_new patch_located = [TAB] @ ''if y:'' @ [NL, TAB, SPC] @ ''go'' @ [NL]"
  by code_simp

lemma patch_opens:
  "open_existing patch_disk patch_disk [] sample_policy ''a.txt'' =
     Inr \<lparr>sp_path = canonical_path [''ws'', ''a.txt''], sp_parent = [''ws''], sp_leaf = ''a.txt''\<rparr>"
  by code_simp

theorem locate_match_sound_witness:
  "patch_old \<noteq> [] \<and> locate_match patch_text patch_old patch_new = Inr patch_located \<and>
   unique_region patch_text patch_old patch_located \<and> occurrences patch_text patch_old = []"
proof -
  have old: "patch_old \<noteq> []" by (simp add: patch_old_def)
  have "\<not> crlf_needle patch_text patch_old" by code_simp
  moreover have "loc_kind patch_located \<noteq> Exact" by (simp add: patch_located_def)
  ultimately show ?thesis using locate_match_sound [OF old patch_locates] old patch_locates by blast
qed


end
