(* ===== verification/Ssrf.thy ===== *)
theory Ssrf
  imports Prelude "HOL-Library.Word"
begin

text \<open>
  The guard of the network tools, \<^verbatim>\<open>web_tools/ssrf.rs\<close>: which addresses are public, which URLs may be
  asked for, and the fetch that follows redirects by hand and pins every hop to the address it checked.

  The URL parser and the address parser are libraries: a URL is the parts the guard reads, and reading
  an address literal is a parameter. So is the network: what the resolver answers may differ every time
  it is asked, and what a server answers is anything.
\<close>

unbundle bit_operations_syntax

section \<open>Addresses\<close>

datatype Ipv4Addr = Ipv4 "8 word" "8 word" "8 word" "8 word"

datatype Ipv6Addr = Ipv6 "16 word" "16 word" "16 word" "16 word" "16 word" "16 word" "16 word" "16 word"

datatype IpAddr = V4 Ipv4Addr | V6 Ipv6Addr

text \<open>The predicates of the standard library.\<close>

fun v4_is_loopback :: "Ipv4Addr \<Rightarrow> bool" where
  "v4_is_loopback (Ipv4 a b c d) \<longleftrightarrow> a = 127"

fun v4_is_private :: "Ipv4Addr \<Rightarrow> bool" where
  "v4_is_private (Ipv4 a b c d) \<longleftrightarrow> a = 10 \<or> a = 172 \<and> 16 \<le> b \<and> b \<le> 31 \<or> a = 192 \<and> b = 168"

fun v4_is_link_local :: "Ipv4Addr \<Rightarrow> bool" where
  "v4_is_link_local (Ipv4 a b c d) \<longleftrightarrow> a = 169 \<and> b = 254"

fun v4_is_unspecified :: "Ipv4Addr \<Rightarrow> bool" where
  "v4_is_unspecified (Ipv4 a b c d) \<longleftrightarrow> a = 0 \<and> b = 0 \<and> c = 0 \<and> d = 0"

fun v4_is_broadcast :: "Ipv4Addr \<Rightarrow> bool" where
  "v4_is_broadcast (Ipv4 a b c d) \<longleftrightarrow> a = 255 \<and> b = 255 \<and> c = 255 \<and> d = 255"

fun v4_is_documentation :: "Ipv4Addr \<Rightarrow> bool" where
  "v4_is_documentation (Ipv4 a b c d) \<longleftrightarrow>
     a = 192 \<and> b = 0 \<and> c = 2 \<or> a = 198 \<and> b = 51 \<and> c = 100 \<or> a = 203 \<and> b = 0 \<and> c = 113"

fun v4_is_multicast :: "Ipv4Addr \<Rightarrow> bool" where
  "v4_is_multicast (Ipv4 a b c d) \<longleftrightarrow> 224 \<le> a \<and> a \<le> 239"

fun ipv4_is_public :: "Ipv4Addr \<Rightarrow> bool" where
  "ipv4_is_public (Ipv4 a b c d) =
     (let ip = Ipv4 a b c d;
          cgnat = (a = 100 \<and> 64 \<le> b \<and> b \<le> 127);
          this_network = (a = 0)
      in \<not> (v4_is_loopback ip \<or> v4_is_private ip \<or> v4_is_link_local ip \<or> v4_is_unspecified ip \<or> v4_is_broadcast ip \<or>
             v4_is_documentation ip \<or> v4_is_multicast ip \<or> cgnat \<or> this_network))"

definition low_v4 :: "16 word \<Rightarrow> 16 word \<Rightarrow> Ipv4Addr" where
  "low_v4 hi lo = Ipv4 (ucast (drop_bit 8 hi)) (ucast hi) (ucast (drop_bit 8 lo)) (ucast lo)"

fun to_ipv4_mapped :: "Ipv6Addr \<Rightarrow> Ipv4Addr option" where
  "to_ipv4_mapped (Ipv6 s0 s1 s2 s3 s4 s5 s6 s7) =
     (if s0 = 0 \<and> s1 = 0 \<and> s2 = 0 \<and> s3 = 0 \<and> s4 = 0 \<and> s5 = 0xffff then Some (low_v4 s6 s7) else None)"

fun embedded_ipv4 :: "Ipv6Addr \<Rightarrow> Ipv4Addr option" where
  "embedded_ipv4 (Ipv6 s0 s1 s2 s3 s4 s5 s6 s7) =
     (case to_ipv4_mapped (Ipv6 s0 s1 s2 s3 s4 s5 s6 s7) of
        Some v4 \<Rightarrow> Some v4
      | None \<Rightarrow>
          if s0 = 0x2002 then Some (low_v4 s1 s2)
          else if [s0, s1, s2, s3, s4, s5] = [0x0064, 0xff9b, 0, 0, 0, 0] then Some (low_v4 s6 s7)
          else if [s0, s1, s2, s3, s4, s5] = [0, 0, 0, 0, 0, 0] then
            (let v4 = low_v4 s6 s7 in
             if \<not> v4_is_unspecified v4 \<and> v4 \<noteq> Ipv4 0 0 0 1 then Some v4 else None)
          else None)"

fun ipv6_is_public :: "Ipv6Addr \<Rightarrow> bool" where
  "ipv6_is_public (Ipv6 s0 s1 s2 s3 s4 s5 s6 s7) =
     (case embedded_ipv4 (Ipv6 s0 s1 s2 s3 s4 s5 s6 s7) of
        Some v4 \<Rightarrow> ipv4_is_public v4
      | None \<Rightarrow>
          (let is_loopback = ([s0, s1, s2, s3, s4, s5, s6, s7] = [0, 0, 0, 0, 0, 0, 0, 1]);
               is_unspecified = ([s0, s1, s2, s3, s4, s5, s6, s7] = [0, 0, 0, 0, 0, 0, 0, 0]);
               is_multicast = (s0 AND 0xff00 = 0xff00);
               unique_local = (s0 AND 0xfe00 = 0xfc00);
               link_local = (s0 AND 0xffc0 = 0xfe80);
               documentation = (s0 = 0x2001 \<and> s1 = 0x0db8);
               teredo = (s0 = 0x2001 \<and> s1 = 0);
               discard = ([s0, s1, s2, s3] = [0x0100, 0, 0, 0]);
               nat64_local = (s0 = 0x0064 \<and> s1 = 0xff9b \<and> s2 = 0x0001);
               site_local = (s0 AND 0xffc0 = 0xfec0)
           in \<not> (is_loopback \<or> is_unspecified \<or> is_multicast \<or> unique_local \<or> link_local \<or> documentation \<or>
                  teredo \<or> discard \<or> nat64_local \<or> site_local)))"

fun ip_is_public :: "IpAddr \<Rightarrow> bool" where
  "ip_is_public (V4 v4) = ipv4_is_public v4"
| "ip_is_public (V6 v6) = ipv6_is_public v6"

section \<open>The checks of a URL\<close>

record Url =
  url_scheme :: rstr
  url_host :: "rstr option"
  url_port :: "16 word option"
  url_text :: rstr
  url_username :: rstr
  url_password :: "rstr option"

datatype WebError =
    SchemeNotAllowed rstr
  | UrlNoHost
  | PrivateHostBlocked rstr
  | HostResolveError rstr
  | HostNoAddrs rstr
  | PrivateResolvedBlocked rstr IpAddr
  | RequestError
  | RedirectInvalid
  | RedirectLimit
  | UrlParseError
  | UrlHasCredentials
  | UrlTooLong
  | HttpStatus nat
  | ReadBodyError
  | BadResponse
  | ApiFailure rstr
  | OffsetBeyondEnd nat nat

definition literal_ip :: "(rstr \<Rightarrow> IpAddr option) \<Rightarrow> rstr \<Rightarrow> IpAddr option" where
  "literal_ip parse_ip host =
     parse_ip (trim_end_matches (\<lambda>c. c = CHR '']'') (trim_start_matches (\<lambda>c. c = CHR ''['') host))"

definition check_syntax :: "(rstr \<Rightarrow> IpAddr option) \<Rightarrow> Url \<Rightarrow> bool \<Rightarrow> WebError + rstr" where
  "check_syntax parse_ip url allow_private =
     (if url_scheme url \<noteq> ''http'' \<and> url_scheme url \<noteq> ''https'' then Inl (SchemeNotAllowed (url_scheme url))
      else case url_host url of
        None \<Rightarrow> Inl UrlNoHost
      | Some host \<Rightarrow>
          if \<not> allow_private \<and> (case literal_ip parse_ip host of Some ip \<Rightarrow> \<not> ip_is_public ip | None \<Rightarrow> False)
          then Inl (PrivateHostBlocked host)
          else Inr host)"

definition known_port :: "Url \<Rightarrow> 16 word" where
  "known_port url =
     (case url_port url of
        Some p \<Rightarrow> p
      | None \<Rightarrow> if url_scheme url = ''http'' then 80 else 443)"

type_synonym resolver = "rstr \<Rightarrow> 16 word \<Rightarrow> IpAddr list option"

definition check_url :: "(rstr \<Rightarrow> IpAddr option) \<Rightarrow> resolver \<Rightarrow> Url \<Rightarrow> bool \<Rightarrow> WebError + IpAddr option" where
  "check_url parse_ip lookup url allow_private =
     (case check_syntax parse_ip url allow_private of
        Inl e \<Rightarrow> Inl e
      | Inr host \<Rightarrow>
          if allow_private \<or> literal_ip parse_ip host \<noteq> None then Inr None
          else case lookup host (known_port url) of
            None \<Rightarrow> Inl (HostResolveError host)
          | Some [] \<Rightarrow> Inl (HostNoAddrs host)
          | Some (addr # addrs) \<Rightarrow>
              (case find (\<lambda>a. \<not> ip_is_public a) (addr # addrs) of
                 Some bad \<Rightarrow> Inl (PrivateResolvedBlocked host bad)
               | None \<Rightarrow> Inr (Some addr)))"

definition check_api_url :: "(rstr \<Rightarrow> IpAddr option) \<Rightarrow> resolver \<Rightarrow> Url \<Rightarrow> bool \<Rightarrow> WebError option" where
  "check_api_url parse_ip lookup url allow_private =
     (case check_syntax parse_ip url allow_private of
        Inl e \<Rightarrow> Some e
      | Inr host \<Rightarrow>
          if allow_private \<or> literal_ip parse_ip host \<noteq> None then None
          else case lookup host (known_port url) of
            None \<Rightarrow> None
          | Some addrs \<Rightarrow>
              (case find (\<lambda>a. \<not> ip_is_public a) addrs of
                 Some bad \<Rightarrow> Some (PrivateResolvedBlocked host bad)
               | None \<Rightarrow> None))"

section \<open>The pinned fetch\<close>

definition MAX_REDIRECTS :: nat where "MAX_REDIRECTS = 5"

record Response =
  rs_status :: nat
  rs_location :: "rstr option"
  rs_html :: bool
  rs_body :: rstr

definition is_redirection :: "nat \<Rightarrow> bool" where
  "is_redirection status \<longleftrightarrow> 300 \<le> status \<and> status < 400"

text \<open>A request: the URL and the address the client was told to use for its host.\<close>

type_synonym request = "Url \<times> IpAddr option"

text \<open>The world outside: what the resolver answers at each hop, what a server answers to a request, and
  how the library joins a location to a URL.\<close>

record Network =
  net_lookup :: "nat \<Rightarrow> resolver"
  net_send :: "nat \<Rightarrow> request \<Rightarrow> Response option"
  net_join :: "Url \<Rightarrow> rstr \<Rightarrow> Url option"

text \<open>One turn of the loop: what is sent, and either an answer or the URL to go on with.\<close>

definition fetch_hop ::
  "(rstr \<Rightarrow> IpAddr option) \<Rightarrow> Network \<Rightarrow> bool \<Rightarrow> nat \<Rightarrow> Url \<Rightarrow> request list \<times> ((WebError + Response) + Url)" where
  "fetch_hop parse_ip net allow_private hop url =
     (case check_url parse_ip (net_lookup net hop) url allow_private of
        Inl e \<Rightarrow> ([], Inl (Inl e))
      | Inr pin \<Rightarrow>
          ([(url, pin)],
           case net_send net hop (url, pin) of
             None \<Rightarrow> Inl (Inl RequestError)
           | Some response \<Rightarrow>
               (case (if is_redirection (rs_status response) then rs_location response else None) of
                  None \<Rightarrow> Inl (Inr response)
                | Some location \<Rightarrow>
                    (case net_join net url location of
                       None \<Rightarrow> Inl (Inl RedirectInvalid)
                     | Some url' \<Rightarrow> Inr url'))))"

fun fetch_hops ::
  "(rstr \<Rightarrow> IpAddr option) \<Rightarrow> Network \<Rightarrow> bool \<Rightarrow> nat list \<Rightarrow> Url \<Rightarrow> request list \<times> (WebError + Response)" where
  "fetch_hops parse_ip net allow_private [] url = ([], Inl RedirectLimit)"
| "fetch_hops parse_ip net allow_private (hop # hops) url =
     (case fetch_hop parse_ip net allow_private hop url of
        (sent, Inl answer) \<Rightarrow> (sent, answer)
      | (sent, Inr url') \<Rightarrow>
          (case fetch_hops parse_ip net allow_private hops url' of (sent', answer) \<Rightarrow> (sent @ sent', answer)))"

definition pinned_get ::
  "(rstr \<Rightarrow> IpAddr option) \<Rightarrow> Network \<Rightarrow> bool \<Rightarrow> Url \<Rightarrow> request list \<times> (WebError + Response)" where
  "pinned_get parse_ip net allow_private start =
     fetch_hops parse_ip net allow_private [0..<MAX_REDIRECTS + 1] start"

section \<open>Every request goes to a public address\<close>

text \<open>Where a request connects: to the pin, or to the literal its host spells. Neither asks the resolver.\<close>

definition connects_to :: "(rstr \<Rightarrow> IpAddr option) \<Rightarrow> request \<Rightarrow> IpAddr option" where
  "connects_to parse_ip r =
     (case snd r of
        Some addr \<Rightarrow> Some addr
      | None \<Rightarrow> (case url_host (fst r) of None \<Rightarrow> None | Some host \<Rightarrow> literal_ip parse_ip host))"

definition safe_request :: "(rstr \<Rightarrow> IpAddr option) \<Rightarrow> request \<Rightarrow> bool" where
  "safe_request parse_ip r \<longleftrightarrow>
     url_scheme (fst r) \<in> {''http'', ''https''} \<and>
     (case connects_to parse_ip r of Some addr \<Rightarrow> ip_is_public addr | None \<Rightarrow> False)"

lemma check_url_safe: "check_url parse_ip lookup url False = Inr pin \<Longrightarrow> safe_request parse_ip (url, pin)"
  by (auto simp: check_url_def check_syntax_def safe_request_def connects_to_def
    split: if_splits option.splits list.splits sum.splits)

lemma fetch_hop_sent:
  "fetch_hop parse_ip net False hop url = (sent, answer) \<Longrightarrow> list_all (safe_request parse_ip) sent \<and> length sent \<le> 1"
  using check_url_safe by (auto simp: fetch_hop_def split: sum.splits)

lemma fetch_hops_sent:
  "list_all (safe_request parse_ip) (fst (fetch_hops parse_ip net False hops url)) \<and>
   length (fst (fetch_hops parse_ip net False hops url)) \<le> length hops"
proof (induction hops arbitrary: url)
  case (Cons hop hops)
  obtain sent answer where h: "fetch_hop parse_ip net False hop url = (sent, answer)" by fastforce
  show ?case
  proof (cases answer)
    case (Inl a)
    then show ?thesis using fetch_hop_sent [OF h] by (simp add: h)
  next
    case (Inr url')
    then show ?thesis using fetch_hop_sent [OF h] Cons.IH [of url'] by (auto simp: h split: prod.splits)
  qed
qed simp

lemma pinned_get_sent:
  "list_all (safe_request parse_ip) (fst (pinned_get parse_ip net False start)) \<and>
   length (fst (pinned_get parse_ip net False start)) \<le> MAX_REDIRECTS + 1"
  using fetch_hops_sent [of parse_ip net "[0..<MAX_REDIRECTS + 1]" start] by (simp add: pinned_get_def)

text \<open>C23 (safety). Whatever the resolver and the servers answer, and however the answers change between the check and
  the connection, every request a fetch sends goes over http or https to a public address, and a fetch
  sends at most six.\<close>

theorem fetch_stays_public:
  "list_all (safe_request parse_ip) (fst (pinned_get parse_ip net False start)) \<and>
   length (fst (pinned_get parse_ip net False start)) \<le> MAX_REDIRECTS + 1"
  using pinned_get_sent .

section \<open>The addresses refused, as networks\<close>

definition quad :: "nat \<Rightarrow> nat \<Rightarrow> nat \<Rightarrow> nat \<Rightarrow> nat" where
  "quad a b c d = ((a * 256 + b) * 256 + c) * 256 + d"

fun v4_number :: "Ipv4Addr \<Rightarrow> nat" where
  "v4_number (Ipv4 a b c d) = quad (unat a) (unat b) (unat c) (unat d)"

text \<open>A network: its first address and the length of its prefix.\<close>

definition in_network :: "nat \<Rightarrow> nat \<times> nat \<Rightarrow> bool" where
  "in_network n network = (case network of (base, len) \<Rightarrow> base \<le> n \<and> n < base + 2 ^ (32 - len))"

definition SPECIAL_USE :: "(nat \<times> nat) list" where
  "SPECIAL_USE =
     [(quad 0 0 0 0, 8), (quad 10 0 0 0, 8), (quad 100 64 0 0, 10), (quad 127 0 0 0, 8), (quad 169 254 0 0, 16),
      (quad 172 16 0 0, 12), (quad 192 0 2 0, 24), (quad 192 168 0 0, 16), (quad 198 51 100 0, 24),
      (quad 203 0 113 0, 24), (quad 224 0 0 0, 4), (quad 255 255 255 255, 32)]"

lemma unat_byte: "unat (a :: 8 word) < 256"
  by (rule order_less_le_trans [OF unsigned_less]) simp

lemmas byte_number = word_unat_eq_iff word_le_nat_alt

lemma quad_between:
  assumes "B < 256" "C < 256" "D < 256" "quad n 0 0 0 \<le> quad A B C D" "quad A B C D < quad (n + 1) 0 0 0"
  shows "A = n"
proof -
  have "\<not> A < n" "\<not> n < A" using assms by (auto simp: quad_def)
  then show ?thesis by simp
qed

lemma quad_network:
  assumes "A < 256" "B < 256" "C < 256" "D < 256" "m + k \<le> 256"
  shows "quad n m 0 0 \<le> quad A B C D \<and> quad A B C D < quad n m 0 0 + k * 65536 \<longleftrightarrow> A = n \<and> m \<le> B \<and> B < m + k"
proof
  assume h: "quad n m 0 0 \<le> quad A B C D \<and> quad A B C D < quad n m 0 0 + k * 65536"
  have "quad n 0 0 0 \<le> quad n m 0 0" "quad n m 0 0 + k * 65536 \<le> quad (n + 1) 0 0 0" using assms(5) by (simp_all add: quad_def)
  with h quad_between [OF assms(2-4), of n A] have a: "A = n" by linarith
  moreover have "m \<le> B" "B < m + k" using h assms unfolding a by (simp_all add: quad_def)
  ultimately show "A = n \<and> m \<le> B \<and> B < m + k" by simp
qed (use assms in \<open>auto simp: quad_def\<close>)

lemma quad_network24:
  assumes "A < 256" "B < 256" "C < 256" "D < 256" "m < 256" "k < 256"
  shows "quad n m k 0 \<le> quad A B C D \<and> quad A B C D < quad n m k 0 + 256 \<longleftrightarrow> A = n \<and> B = m \<and> C = k"
proof
  assume h: "quad n m k 0 \<le> quad A B C D \<and> quad A B C D < quad n m k 0 + 256"
  have "quad n m 0 0 \<le> quad n m k 0" "quad n m k 0 + 256 \<le> quad n m 0 0 + 1 * 65536" using assms by (simp_all add: quad_def)
  with h quad_network [OF assms(1-4), of m 1 n] assms(5) have a: "A = n" "B = m" by linarith+
  moreover have "C = k" using h assms unfolding a by (simp add: quad_def)
  ultimately show "A = n \<and> B = m \<and> C = k" by simp
qed (use assms in \<open>auto simp: quad_def\<close>)

lemma quad_networks:
  assumes "A < 256" "B < 256" "C < 256" "D < 256"
  shows "in_network (quad A B C D) (quad n 0 0 0, 8) \<longleftrightarrow> A = n"
    "m \<le> 192 \<Longrightarrow> in_network (quad A B C D) (quad n m 0 0, 10) \<longleftrightarrow> A = n \<and> m \<le> B \<and> B \<le> m + 63"
    "m \<le> 240 \<Longrightarrow> in_network (quad A B C D) (quad n m 0 0, 12) \<longleftrightarrow> A = n \<and> m \<le> B \<and> B \<le> m + 15"
    "m < 256 \<Longrightarrow> in_network (quad A B C D) (quad n m 0 0, 16) \<longleftrightarrow> A = n \<and> B = m"
    "m < 256 \<Longrightarrow> k < 256 \<Longrightarrow> in_network (quad A B C D) (quad n m k 0, 24) \<longleftrightarrow> A = n \<and> B = m \<and> C = k"
    "in_network (quad A B C D) (quad n 0 0 0, 4) \<longleftrightarrow> n \<le> A \<and> A \<le> n + 15"
    "in_network (quad A B C D) (quad 255 255 255 255, 32) \<longleftrightarrow> A = 255 \<and> B = 255 \<and> C = 255 \<and> D = 255"
  using quad_network [OF assms, of 0 256 n] quad_network [OF assms, of m 64 n] quad_network [OF assms, of m 16 n]
    quad_network [OF assms, of m 1 n] quad_network24 [OF assms, of m k n] assms
  by (auto simp: in_network_def) (auto simp: quad_def)

text \<open>An IPv4 address is refused exactly when it lies in one of twelve special-use networks.\<close>

theorem ipv4_public_networks:
  "ipv4_is_public ip \<longleftrightarrow> \<not> list_ex (in_network (v4_number ip)) SPECIAL_USE"
proof (cases ip)
  case (Ipv4 a b c d)
  note q = quad_networks [OF unat_byte [of a] unat_byte [of b] unat_byte [of c] unat_byte [of d]]
  have "list_ex (in_network (v4_number ip)) SPECIAL_USE \<longleftrightarrow>
      unat a = 0 \<or> unat a = 10 \<or> unat a = 100 \<and> 64 \<le> unat b \<and> unat b \<le> 127 \<or> unat a = 127 \<or>
      unat a = 169 \<and> unat b = 254 \<or> unat a = 172 \<and> 16 \<le> unat b \<and> unat b \<le> 31 \<or>
      unat a = 192 \<and> unat b = 0 \<and> unat c = 2 \<or> unat a = 192 \<and> unat b = 168 \<or>
      unat a = 198 \<and> unat b = 51 \<and> unat c = 100 \<or> unat a = 203 \<and> unat b = 0 \<and> unat c = 113 \<or>
      224 \<le> unat a \<and> unat a \<le> 239 \<or> unat a = 255 \<and> unat b = 255 \<and> unat c = 255 \<and> unat d = 255"
    unfolding Ipv4 SPECIAL_USE_def v4_number.simps by (simp only: list_ex_iff list.set bex_simps q) (simp add: q)
  moreover have "ipv4_is_public ip \<longleftrightarrow> \<not> (unat a = 127 \<or>
      (unat a = 10 \<or> unat a = 172 \<and> 16 \<le> unat b \<and> unat b \<le> 31 \<or> unat a = 192 \<and> unat b = 168) \<or>
      unat a = 169 \<and> unat b = 254 \<or> unat a = 0 \<and> unat b = 0 \<and> unat c = 0 \<and> unat d = 0 \<or>
      unat a = 255 \<and> unat b = 255 \<and> unat c = 255 \<and> unat d = 255 \<or>
      (unat a = 192 \<and> unat b = 0 \<and> unat c = 2 \<or> unat a = 198 \<and> unat b = 51 \<and> unat c = 100 \<or>
        unat a = 203 \<and> unat b = 0 \<and> unat c = 113) \<or> 224 \<le> unat a \<and> unat a \<le> 239 \<or>
      unat a = 100 \<and> 64 \<le> unat b \<and> unat b \<le> 127 \<or> unat a = 0)"
    unfolding Ipv4 ipv4_is_public.simps Let_def v4_is_loopback.simps v4_is_private.simps v4_is_link_local.simps
      v4_is_unspecified.simps v4_is_broadcast.simps v4_is_documentation.simps v4_is_multicast.simps
    by (simp only: byte_number) simp
  ultimately show ?thesis by argo
qed

section \<open>Embedded addresses\<close>

definition segment :: "8 word \<Rightarrow> 8 word \<Rightarrow> 16 word" where
  "segment hi lo = push_bit 8 (ucast hi) OR ucast lo"

lemma segment_high: "ucast (drop_bit 8 (segment hi lo)) = hi"
  by (rule bit_word_eqI) (auto simp: segment_def bit_simps dest: bit_imp_le_length)

lemma segment_low: "ucast (segment hi lo) = lo"
  by (rule bit_word_eqI) (auto simp: segment_def bit_simps)

lemma segment_zero: "segment 0 0 = 0" "segment 0 1 = 1"
  by (simp_all add: segment_def)

lemma low_v4_segment: "low_v4 (segment a b) (segment c d) = Ipv4 a b c d"
  by (simp add: low_v4_def segment_high segment_low)

text \<open>An IPv4 address written as an IPv6 address, in any of the four standard ways, is as public as it is by
  itself; so no special-use network can be reached by spelling it differently.\<close>

theorem embedded_as_public:
  "ipv6_is_public (Ipv6 0 0 0 0 0 0xffff (segment a b) (segment c d)) = ipv4_is_public (Ipv4 a b c d) \<and>
   ipv6_is_public (Ipv6 0x2002 (segment a b) (segment c d) s3 s4 s5 s6 s7) = ipv4_is_public (Ipv4 a b c d) \<and>
   ipv6_is_public (Ipv6 0x0064 0xff9b 0 0 0 0 (segment a b) (segment c d)) = ipv4_is_public (Ipv4 a b c d) \<and>
   ipv6_is_public (Ipv6 0 0 0 0 0 0 (segment a b) (segment c d)) = ipv4_is_public (Ipv4 a b c d)"
proof -
  have "ipv6_is_public (Ipv6 0 0 0 0 0 0 (segment a b) (segment c d)) = ipv4_is_public (Ipv4 a b c d)"
  proof (cases "v4_is_unspecified (Ipv4 a b c d) \<or> Ipv4 a b c d = Ipv4 0 0 0 1")
    case True
    then consider "a = 0" "b = 0" "c = 0" "d = 0" | "a = 0" "b = 0" "c = 0" "d = 1" by auto
    then show ?thesis
      by cases (simp_all add: segment_zero low_v4_def)
  next
    case False
    then have "embedded_ipv4 (Ipv6 0 0 0 0 0 0 (segment a b) (segment c d)) = Some (Ipv4 a b c d)"
      by (simp add: low_v4_segment)
    then show ?thesis by (simp only: ipv6_is_public.simps option.case)
  qed
  moreover have "embedded_ipv4 (Ipv6 0 0 0 0 0 0xffff (segment a b) (segment c d)) = Some (Ipv4 a b c d)"
    "embedded_ipv4 (Ipv6 0x2002 (segment a b) (segment c d) s3 s4 s5 s6 s7) = Some (Ipv4 a b c d)"
    "embedded_ipv4 (Ipv6 0x0064 0xff9b 0 0 0 0 (segment a b) (segment c d)) = Some (Ipv4 a b c d)"
    by (simp_all add: low_v4_segment)
  ultimately show ?thesis by (simp only: ipv6_is_public.simps option.case simp_thms)
qed

end
