(* ===== verification/Web_Fetch.thy ===== *)
theory Web_Fetch
  imports Ssrf Approval_Classifier
begin

text \<open>
  The two network tools of \<^verbatim>\<open>web_tools.rs\<close>: \<^verbatim>\<open>fetch_url\<close> with its guards, its pages and the cache its
  continuations read, \<^verbatim>\<open>web_search\<close> with its arguments and hits, and the call of the service both may use
  instead of a request of their own.

  The sentences of the tools hold characters outside the model's alphabet or a language of the user's:
  those whose length matters are the record \<open>WebTexts\<close>. The parsers of URLs, addresses and JSON, the
  decoding of a body and the reduction of HTML are parameters, and so are the answers of the network.
\<close>

section \<open>The service\<close>

datatype ApiReply =
    SendFailed
  | BodyFailed nat
  | Replied nat "nat option" rstr

datatype ApiError =
    ApiRequestError
  | ApiReadBodyError
  | ApiBadResponse
  | ApiRateLimited rstr
  | ApiHttpStatus nat rstr

definition RETRY_DELAY :: nat where "RETRY_DELAY = 500"
definition MAX_RETRY_WAIT :: nat where "MAX_RETRY_WAIT = 2000"

definition clipped :: "char \<Rightarrow> rstr \<Rightarrow> nat \<Rightarrow> rstr" where
  "clipped ellipsis s n = (case truncate_chars s n of (kept, shortened) \<Rightarrow> if shortened then kept @ [ellipsis] else kept)"

definition api_error_message :: "(rstr \<Rightarrow> Value option) \<Rightarrow> char \<Rightarrow> rstr \<Rightarrow> rstr" where
  "api_error_message parse_json ellipsis body =
     (let said = (case parse_json body of
            None \<Rightarrow> None
          | Some v \<Rightarrow>
              (case json_get ''error'' v of
                 None \<Rightarrow> None
               | Some e \<Rightarrow> (case json_get ''message'' e of Some (String m) \<Rightarrow> Some m | _ \<Rightarrow> None)))
      in clipped ellipsis (collapse_whitespace (case said of Some m \<Rightarrow> m | None \<Rightarrow> body)) 200)"

definition api_failure :: "(rstr \<Rightarrow> Value option) \<Rightarrow> char \<Rightarrow> nat \<Rightarrow> rstr \<Rightarrow> ApiError" where
  "api_failure parse_json ellipsis status body =
     (if status = 429 then ApiRateLimited (api_error_message parse_json ellipsis body)
      else ApiHttpStatus status (api_error_message parse_json ellipsis body))"

definition is_success :: "nat \<Rightarrow> bool" where
  "is_success status \<longleftrightarrow> 200 \<le> status \<and> status < 300"

definition is_transient :: "nat \<Rightarrow> bool" where
  "is_transient status \<longleftrightarrow> status = 408 \<or> status = 429 \<or> (500 \<le> status \<and> status < 600)"

definition retry_wait :: "nat option \<Rightarrow> nat" where
  "retry_wait retry_after = min (case retry_after of None \<Rightarrow> RETRY_DELAY | Some secs \<Rightarrow> secs * 1000) MAX_RETRY_WAIT"

text \<open>The loop over the service's replies, in the order it gives them: the answer, the replies that are
  left, and the milliseconds waited.\<close>

fun api_loop ::
  "(rstr \<Rightarrow> Value option) \<Rightarrow> char \<Rightarrow> ApiError option \<Rightarrow> nat \<Rightarrow> ApiReply list \<Rightarrow> (ApiError + Value) \<times> ApiReply list \<times> nat" where
  "api_loop parse_json ellipsis first waited [] =
     (Inl (case first of Some e \<Rightarrow> e | None \<Rightarrow> ApiRequestError), [], waited)"
| "api_loop parse_json ellipsis first waited (SendFailed # replies) =
     (Inl (case first of Some e \<Rightarrow> e | None \<Rightarrow> ApiRequestError), replies, waited)"
| "api_loop parse_json ellipsis first waited (BodyFailed status # replies) =
     (Inl (case first of Some e \<Rightarrow> e | None \<Rightarrow> ApiReadBodyError), replies, waited)"
| "api_loop parse_json ellipsis first waited (Replied status retry_after body # replies) =
     (if is_success status then
        ((case parse_json body of Some v \<Rightarrow> Inr v | None \<Rightarrow> Inl ApiBadResponse), replies, waited)
      else if is_transient status \<and> first = None then
        api_loop parse_json ellipsis (Some (api_failure parse_json ellipsis status body)) (waited + retry_wait retry_after) replies
      else (Inl (api_failure parse_json ellipsis status body), replies, waited))"

definition api_post ::
  "(rstr \<Rightarrow> Value option) \<Rightarrow> char \<Rightarrow> ApiReply list \<Rightarrow> (ApiError + Value) \<times> ApiReply list \<times> nat" where
  "api_post parse_json ellipsis replies = api_loop parse_json ellipsis None 0 replies"

section \<open>Pages and their cache\<close>

definition DEFAULT_MAX_FETCH_BYTES :: nat where "DEFAULT_MAX_FETCH_BYTES = 512 * 1024"
definition CACHED_PAGES :: nat where "CACHED_PAGES = 8"
definition MAX_URL_CHARS :: nat where "MAX_URL_CHARS = 8192"
definition TITLE_CHARS :: nat where "TITLE_CHARS = 200"
definition SUMMARY_CHARS :: nat where "SUMMARY_CHARS = 400"
definition URL_CHARS :: nat where "URL_CHARS = 300"
definition FETCH_WRAPPER_RESERVE :: nat where "FETCH_WRAPPER_RESERVE = 600"
definition MIN_FETCH_CHUNK_CHARS :: nat where "MIN_FETCH_CHUNK_CHARS = 1000"

record CachedPage =
  ca_url :: rstr
  ca_title :: rstr
  ca_content :: rstr
  ca_note :: "rstr option"

type_synonym fetch_cache = "CachedPage list"

definition cache_get :: "rstr \<Rightarrow> fetch_cache \<Rightarrow> fetch_cache \<times> CachedPage option" where
  "cache_get url pages =
     (case position (\<lambda>page. ca_url page = url) pages of
        None \<Rightarrow> (pages, None)
      | Some index \<Rightarrow> (take index pages @ drop (index + 1) pages @ [pages ! index], Some (pages ! index)))"

fun pop_front_to :: "nat \<Rightarrow> 'a list \<Rightarrow> 'a list" where
  "pop_front_to cap [] = []"
| "pop_front_to cap (x # xs) = (if cap < length (x # xs) then pop_front_to cap xs else x # xs)"

definition cache_put :: "CachedPage \<Rightarrow> fetch_cache \<Rightarrow> fetch_cache" where
  "cache_put page pages = pop_front_to CACHED_PAGES (filter (\<lambda>old. ca_url old \<noteq> ca_url page) pages @ [page])"

record WebTexts =
  wt_ellipsis :: char
  wt_truncated :: "nat \<Rightarrow> rstr"
  wt_continue :: "nat \<Rightarrow> nat \<Rightarrow> nat \<Rightarrow> rstr"
  wt_fetch_end :: rstr
  wt_meta_join :: rstr

record Chunk =
  ch_text :: rstr
  ch_shown :: rstr
  ch_next :: "nat option"

definition page_header :: "WebTexts \<Rightarrow> rstr \<Rightarrow> rstr \<Rightarrow> rstr option \<Rightarrow> rstr" where
  "page_header wt url title source_note =
     (let title = clipped (wt_ellipsis wt) (collapse_whitespace title) TITLE_CHARS in
      (if title = [] then [] else title @ [NL]) @ url @ [NL] @
      (case source_note of None \<Rightarrow> [] | Some said \<Rightarrow> said @ [NL]) @ [NL])"

definition chunk_budget :: "rstr \<Rightarrow> nat" where
  "chunk_budget header = max (TOOL_OUTPUT_BUDGET - FETCH_WRAPPER_RESERVE - length header) MIN_FETCH_CHUNK_CHARS"

definition render_fetched :: "WebTexts \<Rightarrow> rstr \<Rightarrow> rstr \<Rightarrow> rstr \<Rightarrow> rstr option \<Rightarrow> nat \<Rightarrow> WebError + Chunk" where
  "render_fetched wt url title page_text source_note offset =
     (let total_chars = length page_text in
      if total_chars < offset then Inl (OffsetBeyondEnd offset total_chars)
      else
        (let header = page_header wt url title source_note;
             finish = min (offset + chunk_budget header) total_chars;
             chunk = take (finish - offset) (drop offset page_text)
         in Inr \<lparr>ch_text = header @ chunk @
                  (if finish < total_chars then [NL, NL] @ wt_continue wt offset finish total_chars
                   else if 0 < offset then [NL, NL] @ wt_fetch_end wt
                   else []),
                ch_shown = chunk,
                ch_next = (if finish < total_chars then Some finish else None)\<rparr>))"

section \<open>Fetching\<close>

record WebEnv =
  we_parse_url :: "rstr \<Rightarrow> Url option"
  we_parse_ip :: "rstr \<Rightarrow> IpAddr option"
  we_parse_json :: "rstr \<Rightarrow> Value option"
  we_lookup :: resolver
  we_net :: Network
  we_api :: "(Url \<Rightarrow> ApiReply list) option"
  we_decode :: "rstr \<Rightarrow> rstr"
  we_html_text :: "rstr \<Rightarrow> rstr"

text \<open>What leaves the machine: requests of its own, or URLs handed to the service.\<close>

datatype Outgoing = Direct request | ViaService Url

definition fetch_page :: "WebEnv \<Rightarrow> WebTexts \<Rightarrow> nat \<Rightarrow> Url \<Rightarrow> Outgoing list \<times> ((WebError + ApiError) + CachedPage)" where
  "fetch_page env wt max_bytes url =
     (case we_api env of
        Some service \<Rightarrow>
          (case api_post (we_parse_json env) (wt_ellipsis wt) (service url) of
             (answer, _, _) \<Rightarrow>
               ([ViaService url],
                (case answer of
                   Inl e \<Rightarrow> Inl (Inr e)
                 | Inr response \<Rightarrow>
                     (case json_get ''content'' response of
                        Some (String text) \<Rightarrow>
                          Inr \<lparr>ca_url = url_text url,
                            ca_title = (case json_get ''title'' response of Some (String t) \<Rightarrow> t | _ \<Rightarrow> []),
                            ca_content = text, ca_note = None\<rparr>
                      | _ \<Rightarrow> Inl (Inr ApiBadResponse)))))
      | None \<Rightarrow>
          (case pinned_get (we_parse_ip env) (we_net env) False url of
             (sent, answer) \<Rightarrow>
               (map Direct sent,
                (case answer of
                   Inl e \<Rightarrow> Inl (Inl e)
                 | Inr response \<Rightarrow>
                     if \<not> is_success (rs_status response) then Inl (Inl (HttpStatus (rs_status response)))
                     else
                       (let body = rs_body response;
                            capped = (max_bytes < length body);
                            raw = we_decode env (take max_bytes body)
                        in Inr \<lparr>ca_url = url_text url, ca_title = [],
                             ca_content = (if rs_html response then we_html_text env raw else raw),
                             ca_note = (if capped then Some (wt_truncated wt max_bytes) else None)\<rparr>)))))"

definition fetch_guard :: "WebEnv \<Rightarrow> Url \<Rightarrow> WebError option" where
  "fetch_guard env url =
     (if we_api env \<noteq> None then check_api_url (we_parse_ip env) (we_lookup env) url False
      else (case check_url (we_parse_ip env) (we_lookup env) url False of Inl e \<Rightarrow> Some e | Inr _ \<Rightarrow> None))"

definition fetch_sync ::
  "WebEnv \<Rightarrow> WebTexts \<Rightarrow> fetch_cache \<Rightarrow> rstr \<Rightarrow> nat option \<Rightarrow>
   fetch_cache \<times> Outgoing list \<times> ((WebError + ApiError) + Chunk)" where
  "fetch_sync env wt cache raw offset =
     (case we_parse_url env raw of
        None \<Rightarrow> (cache, [], Inl (Inl UrlParseError))
      | Some url \<Rightarrow>
          if url_username url \<noteq> [] \<or> url_password url \<noteq> None then (cache, [], Inl (Inl UrlHasCredentials))
          else case fetch_guard env url of
            Some e \<Rightarrow> (cache, [], Inl (Inl e))
          | None \<Rightarrow>
              if MAX_URL_CHARS < length raw then (cache, [], Inl (Inl UrlTooLong))
              else
                (let offset = (case offset of None \<Rightarrow> 0 | Some n \<Rightarrow> n);
                     rendered = (\<lambda>page. case render_fetched wt (url_text url) (ca_title page) (ca_content page) (ca_note page) offset of
                        Inl e \<Rightarrow> Inl (Inl e) | Inr chunk \<Rightarrow> Inr chunk)
                 in case (if 0 < offset then cache_get (url_text url) cache else (cache, None)) of
                      (cache', Some page) \<Rightarrow> (cache', [], rendered page)
                    | (cache', None) \<Rightarrow>
                        (case fetch_page env wt DEFAULT_MAX_FETCH_BYTES url of
                           (sent, Inl e) \<Rightarrow> (cache', sent, Inl e)
                         | (sent, Inr page) \<Rightarrow> (cache_put page cache', sent, rendered page))))"

section \<open>Searching\<close>

definition MAX_QUERY_CHARS :: nat where "MAX_QUERY_CHARS = 128"
definition DEFAULT_SEARCH_RESULTS :: nat where "DEFAULT_SEARCH_RESULTS = 5"
definition MAX_SEARCH_RESULTS :: nat where "MAX_SEARCH_RESULTS = 10"

record SearchHit =
  hit_title :: rstr
  hit_url :: rstr
  hit_snippet :: rstr
  hit_summary :: rstr
  hit_date :: rstr
  hit_site_name :: rstr

datatype SearchError = MissingQuery | QueryTooLong nat | SearchUnavailable | SearchFailed ApiError | NoResults

definition hit_field :: "Value \<Rightarrow> rstr \<Rightarrow> rstr" where
  "hit_field item key = (case json_get key item of Some (String t) \<Rightarrow> collapse_whitespace t | _ \<Rightarrow> [])"

definition parse_search_hits :: "Value \<Rightarrow> SearchHit list option" where
  "parse_search_hits response =
     (case json_get ''results'' response of
        Some (Array results) \<Rightarrow>
          Some (map (\<lambda>item. \<lparr>hit_title = hit_field item ''title'', hit_url = hit_field item ''url'',
              hit_snippet = hit_field item ''snippet'', hit_summary = hit_field item ''summary'',
              hit_date = hit_field item ''date'', hit_site_name = hit_field item ''site_name''\<rparr>) results)
      | _ \<Rightarrow> None)"

definition render_hit :: "WebTexts \<Rightarrow> (nat \<Rightarrow> rstr) \<Rightarrow> nat \<Rightarrow> SearchHit \<Rightarrow> rstr" where
  "render_hit wt show_nat index hit =
     (let title = (if hit_title hit = [] then hit_url hit else hit_title hit);
          meta = filter (\<lambda>part. part \<noteq> []) [hit_date hit, hit_site_name hit];
          blurb = (if hit_summary hit = [] then hit_snippet hit else hit_summary hit)
      in show_nat (index + 1) @ ''. '' @ clipped (wt_ellipsis wt) title TITLE_CHARS @ [NL] @
         ''   '' @ clipped (wt_ellipsis wt) (hit_url hit) URL_CHARS @ [NL] @
         (if meta = [] then [] else ''   '' @ join_with (wt_meta_join wt) meta @ [NL]) @
         (if blurb = [] then [] else ''   '' @ clipped (wt_ellipsis wt) blurb SUMMARY_CHARS @ [NL]))"

definition render_search_hits :: "WebTexts \<Rightarrow> (nat \<Rightarrow> rstr) \<Rightarrow> SearchHit list \<Rightarrow> rstr" where
  "render_search_hits wt show_nat hits =
     concat (map (\<lambda>(index, hit). render_hit wt show_nat index hit) (zip [0..<length hits] hits))"

definition search_sync ::
  "WebTexts \<Rightarrow> (nat \<Rightarrow> rstr) \<Rightarrow> (rstr \<Rightarrow> Value option) \<Rightarrow> (rstr \<Rightarrow> nat \<Rightarrow> ApiReply list) option \<Rightarrow> rstr \<Rightarrow> nat option \<Rightarrow>
   SearchError + rstr" where
  "search_sync wt show_nat parse_json service raw_query max_results =
     (let query = trim raw_query in
      if query = [] then Inl MissingQuery
      else if MAX_QUERY_CHARS < length query then Inl (QueryTooLong (length query))
      else
        (let max_results = (case max_results of None \<Rightarrow> DEFAULT_SEARCH_RESULTS | Some n \<Rightarrow> max 1 (min MAX_SEARCH_RESULTS n)) in
         case service of
           None \<Rightarrow> Inl SearchUnavailable
         | Some replies \<Rightarrow>
             (case api_post parse_json (wt_ellipsis wt) (replies query max_results) of
                (Inl e, _) \<Rightarrow> Inl (SearchFailed e)
              | (Inr response, _) \<Rightarrow>
                  (case parse_search_hits response of
                     None \<Rightarrow> Inl (SearchFailed ApiBadResponse)
                   | Some hits \<Rightarrow>
                       if hits = [] then Inl NoResults
                       else Inr (render_search_hits wt show_nat (take max_results hits))))))"

section \<open>The service is asked at most twice\<close>

definition transient_reply :: "ApiReply \<Rightarrow> bool" where
  "transient_reply r \<longleftrightarrow> (case r of Replied status _ _ \<Rightarrow> is_transient status | _ \<Rightarrow> False)"

lemma retry_wait_cap: "retry_wait retry_after \<le> MAX_RETRY_WAIT"
  by (simp add: retry_wait_def)

lemma api_loop_second:
  "api_loop parse_json ellipsis (Some e) waited replies = (answer, rest, waited') \<Longrightarrow>
   waited' = waited \<and> (\<exists>asked. replies = asked @ rest \<and> length asked \<le> 1)"
  by (cases replies; cases "hd replies") (auto split: if_splits)

lemma api_loop_first:
  assumes "api_loop parse_json ellipsis None 0 replies = (answer, rest, waited)"
  shows "waited \<le> MAX_RETRY_WAIT \<and> (\<exists>asked. replies = asked @ rest \<and> length asked \<le> 2 \<and>
    list_all transient_reply (butlast asked) \<and> (waited = 0 \<or> length asked = 2 \<or> rest = []))"
proof (cases "\<exists>status retry_after body more_replies. replies = Replied status retry_after body # more_replies \<and>
    \<not> is_success status \<and> is_transient status")
  case True
  then obtain status retry_after body more_replies where r: "replies = Replied status retry_after body # more_replies"
    "\<not> is_success status" "is_transient status" by blast
  then have "api_loop parse_json ellipsis (Some (api_failure parse_json ellipsis status body)) (0 + retry_wait retry_after) more_replies =
      (answer, rest, waited)" using assms by simp
  from api_loop_second [OF this] obtain asked where a: "waited = retry_wait retry_after" "more_replies = asked @ rest"
    "length asked \<le> 1" by auto
  have "list_all transient_reply (butlast (hd replies # asked))" using r a(3) by (cases asked) (auto simp: transient_reply_def)
  moreover have "length (hd replies # asked) = 2 \<or> asked = []" using a(3) by (cases asked) auto
  moreover have "asked = [] \<Longrightarrow> rest = []"
    using \<open>api_loop _ _ _ _ more_replies = _\<close> a(2) by (cases more_replies; cases "hd more_replies") (auto split: if_splits)
  ultimately show ?thesis using r a retry_wait_cap by (intro conjI exI [of _ "hd replies # asked"]) auto
next
  case False
  then show ?thesis using assms
    by (cases replies; cases "hd replies") (auto simp: Cons_eq_append_conv split: if_splits)
qed

text \<open>A call of the service sends at most two requests, the second only after an answer the service
  documents as transient, and waits at most two seconds between them whatever the service asks for.\<close>

theorem service_asked_at_most_twice:
  "case api_post parse_json ellipsis replies of (answer, rest, waited) \<Rightarrow>
     waited \<le> MAX_RETRY_WAIT \<and>
     (\<exists>asked. replies = asked @ rest \<and> length asked \<le> 2 \<and> list_all transient_reply (butlast asked))"
  using api_loop_first [of parse_json ellipsis replies]
  by (cases "api_loop parse_json ellipsis None 0 replies") (fastforce simp: api_post_def)

section \<open>The chunks of a page\<close>

lemma clipped_length: "length (clipped ellipsis s n) \<le> n + 1"
  by (auto simp: clipped_def truncate_chars_def)

lemma page_header_length:
  "length (page_header wt url title source_note) \<le>
     TITLE_CHARS + length url + (case source_note of None \<Rightarrow> 0 | Some said \<Rightarrow> length said + 1) + 4"
  using clipped_length [of "wt_ellipsis wt" "collapse_whitespace title" TITLE_CHARS]
  by (auto simp: page_header_def Let_def split: option.split)

lemma render_fetchedD:
  assumes "render_fetched wt url title page_text source_note offset = Inr chunk"
  shows "\<exists>n. 0 < n \<and> n = chunk_budget (page_header wt url title source_note) \<and> offset \<le> length page_text \<and>
    ch_shown chunk = take n (drop offset page_text) \<and>
    ch_next chunk = (if offset + n < length page_text then Some (offset + n) else None) \<and>
    ch_text chunk = page_header wt url title source_note @ ch_shown chunk @
      (if offset + n < length page_text then [NL, NL] @ wt_continue wt offset (offset + n) (length page_text)
       else if 0 < offset then [NL, NL] @ wt_fetch_end wt else [])"
  using assms
  by (auto simp: render_fetched_def Let_def chunk_budget_def MIN_FETCH_CHUNK_CHARS_def min_def split: if_splits)

text \<open>Reading a page to its end, at most \<open>fuel\<close> chunks.\<close>

fun read_chunks :: "nat \<Rightarrow> WebTexts \<Rightarrow> rstr \<Rightarrow> rstr \<Rightarrow> rstr \<Rightarrow> rstr option \<Rightarrow> nat \<Rightarrow> rstr option" where
  "read_chunks 0 wt url title page_text source_note offset = None"
| "read_chunks (Suc fuel) wt url title page_text source_note offset =
     (case render_fetched wt url title page_text source_note offset of
        Inl e \<Rightarrow> None
      | Inr chunk \<Rightarrow>
          (case ch_next chunk of
             None \<Rightarrow> Some (ch_shown chunk)
           | Some next_offset \<Rightarrow>
               map_option (\<lambda>rest. ch_shown chunk @ rest) (read_chunks fuel wt url title page_text source_note next_offset)))"

lemma read_chunks_rest:
  "offset \<le> length page_text \<Longrightarrow> length page_text - offset < fuel * MIN_FETCH_CHUNK_CHARS \<Longrightarrow>
   read_chunks fuel wt url title page_text source_note offset = Some (drop offset page_text)"
proof (induction fuel arbitrary: offset)
  case (Suc fuel)
  define n where "n = chunk_budget (page_header wt url title source_note)"
  have n: "MIN_FETCH_CHUNK_CHARS \<le> n" by (simp add: n_def chunk_budget_def)
  have "\<exists>chunk. render_fetched wt url title page_text source_note offset = Inr chunk"
    using Suc.prems by (simp add: render_fetched_def Let_def)
  then obtain chunk where c: "render_fetched wt url title page_text source_note offset = Inr chunk" by blast
  note d = render_fetchedD [OF c, folded n_def]
  show ?case
  proof (cases "offset + n < length page_text")
    case True
    then have "read_chunks fuel wt url title page_text source_note (offset + n) = Some (drop (offset + n) page_text)"
      using Suc n by (intro Suc.IH) auto
    moreover have "take n (drop offset page_text) @ drop (offset + n) page_text = drop offset page_text"
      by (metis add.commute append_take_drop_id drop_drop)
    ultimately show ?thesis using c d True by (auto simp: n_def)
  next
    case False
    then show ?thesis using c d by (auto simp: n_def)
  qed
qed simp

text \<open>Following the offsets the notes name, a page is read from its start to its end with nothing skipped
  and nothing shown twice, in at most one chunk per thousand characters and one more.\<close>

theorem chunks_tile_the_page:
  "read_chunks (length page_text div MIN_FETCH_CHUNK_CHARS + 1) wt url title page_text source_note 0 = Some page_text"
  using read_chunks_rest [of 0 page_text "length page_text div MIN_FETCH_CHUNK_CHARS + 1" wt url title source_note]
  by (simp add: MIN_FETCH_CHUNK_CHARS_def)

text \<open>A chunk fits the budget of a tool's answer, so the runtime does not cut out its middle, as long as the
  URL it prints is no longer than the limit on the argument and the notes stay in the reserve.\<close>

theorem chunk_fits_the_budget:
  assumes "length url \<le> MAX_URL_CHARS" "\<forall>said. source_note = Some said \<longrightarrow> length said \<le> 1000"
    and "\<forall>a b c. length (wt_continue wt a b c) \<le> 598" "length (wt_fetch_end wt) \<le> 598"
    and "render_fetched wt url title page_text source_note offset = Inr chunk"
  shows "length (ch_text chunk) \<le> TOOL_OUTPUT_BUDGET"
proof -
  let ?h = "page_header wt url title source_note"
  have h: "length ?h \<le> 9397"
    using page_header_length [of wt url title source_note] assms(1,2)
    by (cases source_note) (auto simp: TITLE_CHARS_def MAX_URL_CHARS_def)
  from render_fetchedD [OF assms(5)] have "length (ch_text chunk) \<le> length ?h + chunk_budget ?h + 600"
    using assms(3,4) by (auto intro: order_trans)
  also have "length ?h + chunk_budget ?h = 11400"
    using h by (simp add: chunk_budget_def TOOL_OUTPUT_BUDGET_def FETCH_WRAPPER_RESERVE_def MIN_FETCH_CHUNK_CHARS_def)
  finally show ?thesis by (simp add: TOOL_OUTPUT_BUDGET_def)
qed

text \<open>The limit is on the argument, and the URL printed is the parsed one: a parser that escapes the
  characters of a long URL makes a header that is over the budget by itself.\<close>

lemma long_header_overflows:
  "TOOL_OUTPUT_BUDGET < length url \<Longrightarrow> render_fetched wt url title page_text source_note offset = Inr chunk \<Longrightarrow>
   TOOL_OUTPUT_BUDGET < length (ch_text chunk)"
  using render_fetchedD [of wt url title page_text source_note offset chunk]
  by (auto simp: page_header_def Let_def)

definition sample_texts :: WebTexts where
  "sample_texts = \<lparr>wt_ellipsis = CHR ''~'', wt_truncated = (\<lambda>_. ''cut''), wt_continue = (\<lambda>_ _ _. ''more''),
     wt_fetch_end = ''end'', wt_meta_join = '' | ''\<rparr>"

theorem chunk_fits_the_budget_witness:
  "\<exists>chunk. render_fetched sample_texts ''http://a/'' ''A'' (replicate 20000 CHR ''x'') None 0 = Inr chunk \<and>
     length (ch_text chunk) \<le> TOOL_OUTPUT_BUDGET"
proof -
  obtain chunk where "render_fetched sample_texts ''http://a/'' ''A'' (replicate 20000 CHR ''x'') None 0 = Inr chunk"
    by (auto simp: render_fetched_def Let_def)
  with chunk_fits_the_budget [OF _ _ _ _ this] show ?thesis by (auto simp: sample_texts_def MAX_URL_CHARS_def)
qed

section \<open>The cache of a session\<close>

definition cache_ok :: "fetch_cache \<Rightarrow> bool" where
  "cache_ok pages \<longleftrightarrow> distinct (map ca_url pages) \<and> length pages \<le> CACHED_PAGES"

lemma pop_front_to_drop: "pop_front_to cap xs = drop (length xs - cap) xs"
  by (induction cap xs rule: pop_front_to.induct) (auto simp: Suc_diff_le not_less)

lemma cache_put_ok: "cache_ok pages \<Longrightarrow> cache_ok (cache_put page pages)"
proof -
  assume ok: "cache_ok pages"
  define ps where "ps = filter (\<lambda>old. ca_url old \<noteq> ca_url page) pages @ [page]"
  have "distinct (map ca_url ps)" using ok by (auto simp: cache_ok_def distinct_map_filter ps_def)
  then have "distinct (map ca_url (drop k ps))" for k by (simp add: drop_map [symmetric] distinct_drop)
  moreover have "cache_put page pages = drop (length ps - CACHED_PAGES) ps"
    by (simp add: cache_put_def pop_front_to_drop ps_def)
  ultimately show ?thesis by (simp add: cache_ok_def)
qed

lemma position_Some: "position P xs = Some i \<Longrightarrow> i < length xs \<and> P (xs ! i)"
  using position_SomeD [of P xs i] by blast

lemma cache_get_perm: "cache_get url pages = (pages', found) \<Longrightarrow> mset pages' = mset pages"
proof -
  assume g: "cache_get url pages = (pages', found)"
  have "mset (take i pages @ drop (i + 1) pages @ [pages ! i]) = mset pages" if "i < length pages" for i
  proof -
    have "mset pages = mset (take i pages @ pages ! i # drop (i + 1) pages)" using that by (metis Suc_eq_plus1 id_take_nth_drop)
    then show ?thesis by simp
  qed
  then show ?thesis using g position_Some [of "\<lambda>page. ca_url page = url" pages]
    by (cases "position (\<lambda>page. ca_url page = url) pages") (auto simp: cache_get_def)
qed

lemma cache_get_ok: "cache_get url pages = (pages', found) \<Longrightarrow> cache_ok pages \<Longrightarrow> cache_ok pages'"
proof -
  assume g: "cache_get url pages = (pages', found)" and ok: "cache_ok pages"
  have "mset (map ca_url pages') = mset (map ca_url pages)" using cache_get_perm [OF g] by simp
  then have "distinct (map ca_url pages') = distinct (map ca_url pages)" by (rule mset_eq_imp_distinct_iff)
  moreover have "length pages' = length pages" using cache_get_perm [OF g] by (rule mset_eq_length)
  ultimately show ?thesis using ok by (simp add: cache_ok_def)
qed

lemma cache_get_found: "cache_get url pages = (pages', Some page) \<Longrightarrow> ca_url page = url \<and> page \<in> set pages"
  using position_Some by (fastforce simp: cache_get_def split: option.splits)

lemma cache_get_missed: "cache_get url pages = (pages', None) \<Longrightarrow> pages' = pages"
  by (auto simp: cache_get_def split: option.splits)

text \<open>The pages a session keeps are at most eight, of different URLs, after every fetch.\<close>

lemma fetch_sync_cache:
  assumes "cache_ok cache"
  shows "cache_ok (fst (fetch_sync env wt cache raw offset))"
  using assms cache_put_ok cache_get_ok
  by (auto simp: fetch_sync_def Let_def split: option.splits sum.splits prod.splits if_splits)

fun fetch_session :: "WebTexts \<Rightarrow> (WebEnv \<times> rstr \<times> nat option) list \<Rightarrow> fetch_cache \<Rightarrow> fetch_cache" where
  "fetch_session wt [] cache = cache"
| "fetch_session wt ((env, raw, offset) # calls) cache = fetch_session wt calls (fst (fetch_sync env wt cache raw offset))"

theorem cache_stays_bounded:
  "cache_ok (fetch_session wt calls [])"
proof -
  have "cache_ok (fetch_session wt calls cache)" if "cache_ok cache" for cache
    using that by (induction wt calls cache rule: fetch_session.induct) (simp_all add: fetch_sync_cache)
  then show ?thesis by (simp add: cache_ok_def)
qed

section \<open>What leaves the machine\<close>

text \<open>Where a URL handed to the service may point: not to an address this machine knows to be private.\<close>

definition safe_for_service :: "WebEnv \<Rightarrow> Url \<Rightarrow> bool" where
  "safe_for_service env url \<longleftrightarrow>
     url_scheme url \<in> {''http'', ''https''} \<and>
     (case url_host url of
        None \<Rightarrow> False
      | Some host \<Rightarrow>
          (case literal_ip (we_parse_ip env) host of
             Some ip \<Rightarrow> ip_is_public ip
           | None \<Rightarrow> (case we_lookup env host (known_port url) of None \<Rightarrow> True | Some addrs \<Rightarrow> list_all ip_is_public addrs)))"

definition safe_outgoing :: "WebEnv \<Rightarrow> Outgoing \<Rightarrow> bool" where
  "safe_outgoing env out =
     (case out of
        Direct r \<Rightarrow> safe_request (we_parse_ip env) r
      | ViaService url \<Rightarrow> safe_for_service env url \<and> url_username url = [] \<and> url_password url = None)"

lemma check_api_url_safe:
  "check_api_url (we_parse_ip env) (we_lookup env) url False = None \<Longrightarrow> safe_for_service env url"
  by (auto simp: check_api_url_def check_syntax_def safe_for_service_def find_None_iff list_all_iff
    split: if_splits option.splits sum.splits)

lemma fetch_page_sent:
  assumes "fetch_guard env url = None" "url_username url = []" "url_password url = None"
  shows "list_all (safe_outgoing env) (fst (fetch_page env wt max_bytes url))"
proof (cases "we_api env")
  case None
  have "list_all (safe_request (we_parse_ip env)) (fst (pinned_get (we_parse_ip env) (we_net env) False url))"
    using pinned_get_sent by blast
  then show ?thesis
    by (auto simp: fetch_page_def None safe_outgoing_def list_all_iff split: prod.splits)
next
  case (Some service)
  then have "safe_for_service env url" using assms(1) check_api_url_safe by (simp add: fetch_guard_def)
  then show ?thesis using assms(2,3) by (simp add: fetch_page_def Some safe_outgoing_def split: prod.splits)
qed

text \<open>Whatever URL a model asks for, what leaves the machine is a request to a public address, or a URL
  without credentials that this machine does not see pointing at a private one. A continuation of a page
  the session holds sends nothing at all.\<close>

theorem fetch_url_guarded:
  "list_all (safe_outgoing env) (fst (snd (fetch_sync env wt cache raw offset))) \<and>
   (case we_parse_url env raw of
      None \<Rightarrow> True
    | Some url \<Rightarrow>
        (if url_text url \<in> ca_url ` set cache \<and> (case offset of Some n \<Rightarrow> 0 < n | None \<Rightarrow> False)
         then fst (snd (fetch_sync env wt cache raw offset)) = [] else True))"
proof (cases "\<exists>url. we_parse_url env raw = Some url \<and> url_username url = [] \<and> url_password url = None \<and>
    fetch_guard env url = None \<and> length raw \<le> MAX_URL_CHARS")
  case False
  then have "fst (snd (fetch_sync env wt cache raw offset)) = []"
    by (auto simp: fetch_sync_def Let_def split: option.splits if_splits)
  then show ?thesis by (auto split: option.splits)
next
  case True
  then obtain url where u: "we_parse_url env raw = Some url" "url_username url = []" "url_password url = None"
    "fetch_guard env url = None" "length raw \<le> MAX_URL_CHARS" by blast
  define off where "off = (case offset of None \<Rightarrow> 0 | Some n \<Rightarrow> n)"
  obtain cache' held where g: "(if 0 < off then cache_get (url_text url) cache else (cache, None)) = (cache', held)" by fastforce
  have sent: "fst (snd (fetch_sync env wt cache raw offset)) =
      (case held of Some _ \<Rightarrow> [] | None \<Rightarrow> fst (fetch_page env wt DEFAULT_MAX_FETCH_BYTES url))"
    using u g by (auto simp: fetch_sync_def Let_def off_def [symmetric] split: option.splits prod.splits sum.splits)
  have "held \<noteq> None" if "url_text url \<in> ca_url ` set cache" "0 < off"
  proof
    assume "held = None"
    with g that(2) have "position (\<lambda>page. ca_url page = url_text url) cache = None"
      by (auto simp: cache_get_def split: option.splits)
    from position_NoneD [OF this] that(1) show False by auto
  qed
  then show ?thesis using u fetch_page_sent [OF u(4,2,3)] unfolding sent
    by (auto simp: off_def split: option.splits)
qed

end
