(* ===== verification/Job_Output.thy ===== *)
theory Job_Output
  imports Compaction
begin

text \<open>
  What a command prints, from its pipe to the model: \<^verbatim>\<open>shell_tools/jobs.rs\<close> (the ring that keeps the end
  of a stream, the file that keeps its beginning), \<^verbatim>\<open>shell_tools/jobs/render.rs\<close> (the text of a result and
  the notes that say where the rest is), and the notes of a refused write, connection or login of
  \<^verbatim>\<open>sandbox/mod.rs\<close>.

  A byte is a character of the alphabet. Decoding bytes as UTF-8 with replacements is a parameter; so is
  what goes wrong when the file is written.
\<close>

section \<open>The file of an overflowing stream\<close>

definition JOB_BUFFER_BYTES :: nat where "JOB_BUFFER_BYTES = 128 * 1024"
definition SPILL_FRAMING_RESERVE :: nat where "SPILL_FRAMING_RESERVE = 256"
definition SPILL_THRESHOLD_BYTES :: nat where
  "SPILL_THRESHOLD_BYTES = (TOOL_OUTPUT_BUDGET - SPILL_FRAMING_RESERVE) div 2"
definition SPILL_MAX_BYTES :: nat where "SPILL_MAX_BYTES = 64 * 1024 * 1024"

text \<open>\<open>sl_disk\<close> is what the path holds, \<open>sl_file\<close> whether the handle is open.\<close>

record Spill =
  sl_path :: rstr
  sl_disk :: "rstr option"
  sl_file :: bool
  sl_written :: nat
  sl_failed :: bool
  sl_reported :: bool
  sl_finished :: bool

definition new_spill :: "rstr \<Rightarrow> Spill" where
  "new_spill path =
     \<lparr>sl_path = path, sl_disk = None, sl_file = False, sl_written = 0, sl_failed = False, sl_reported = False,
      sl_finished = False\<rparr>"

text \<open>What the disk does to one chunk: whether the file can be created, where the queue wraps around, and for
  each of the three writes the number of bytes that land before it fails, if it does.\<close>

record SpillIo =
  io_create :: bool
  io_wrap :: nat
  io_front :: "nat option"
  io_back :: "nat option"
  io_chunk :: "nat option"

definition spill_write :: "nat option \<Rightarrow> rstr \<Rightarrow> Spill \<Rightarrow> Spill" where
  "spill_write fault bytes sp =
     (if sl_failed sp \<or> bytes = [] then sp
      else
        (let room = SPILL_MAX_BYTES - sl_written sp;
             n = min (length bytes) room
         in if n = 0 then sp
            else if \<not> sl_file sp then sp
            else case fault of
              Some k \<Rightarrow> sp\<lparr>sl_disk := map_option (\<lambda>d. d @ take (min k n) bytes) (sl_disk sp), sl_failed := True,
                          sl_file := False\<rparr>
            | None \<Rightarrow> sp\<lparr>sl_disk := map_option (\<lambda>d. d @ take n bytes) (sl_disk sp),
                         sl_written := sl_written sp + n\<rparr>))"

definition offer :: "SpillIo \<Rightarrow> nat \<Rightarrow> rstr \<Rightarrow> rstr \<Rightarrow> Spill \<Rightarrow> Spill" where
  "offer io prior_total backlog chunk sp =
     (if sl_failed sp \<or> SPILL_MAX_BYTES \<le> sl_written sp then sp
      else if sl_finished sp then sp
      else if sl_file sp then spill_write (io_chunk io) chunk sp
      else if prior_total + length chunk \<le> SPILL_THRESHOLD_BYTES then sp
      else if \<not> io_create io then sp\<lparr>sl_failed := True\<rparr>
      else spill_write (io_chunk io) chunk
             (spill_write (io_back io) (drop (io_wrap io) backlog)
               (spill_write (io_front io) (take (io_wrap io) backlog)
                 (sp\<lparr>sl_disk := Some [], sl_file := True\<rparr>))))"

record SpillInfo =
  si_path :: rstr
  si_bytes :: nat
  si_capped :: bool

definition info :: "Spill \<Rightarrow> SpillInfo option" where
  "info sp =
     (if \<not> sl_failed sp \<and> 0 < sl_written sp
      then Some \<lparr>si_path = sl_path sp, si_bytes = sl_written sp, si_capped = (SPILL_MAX_BYTES \<le> sl_written sp)\<rparr>
      else None)"

definition finish :: "Spill \<Rightarrow> Spill" where
  "finish sp = sp\<lparr>sl_file := False, sl_finished := True\<rparr>"

definition discard_if_unreported :: "Spill \<Rightarrow> Spill" where
  "discard_if_unreported sp =
     (if \<not> sl_reported sp \<and> \<not> sl_failed sp \<and> 0 < sl_written sp then sp\<lparr>sl_disk := None, sl_written := 0\<rparr> else sp)"

section \<open>The ring\<close>

record RingBuffer =
  rb_bytes :: rstr
  rb_capacity :: nat
  rb_total :: nat
  rb_spill :: "Spill option"

definition with_spill :: "rstr \<Rightarrow> RingBuffer" where
  "with_spill path = \<lparr>rb_bytes = [], rb_capacity = JOB_BUFFER_BYTES, rb_total = 0, rb_spill = Some (new_spill path)\<rparr>"

definition push_byte :: "nat \<Rightarrow> char \<Rightarrow> rstr \<Rightarrow> rstr" where
  "push_byte capacity byte kept = (if length kept = capacity then tl kept else kept) @ [byte]"

definition ring_push :: "SpillIo \<Rightarrow> rstr \<Rightarrow> RingBuffer \<Rightarrow> RingBuffer" where
  "ring_push io chunk rb =
     rb\<lparr>rb_spill := map_option (offer io (rb_total rb) (rb_bytes rb) chunk) (rb_spill rb),
        rb_total := rb_total rb + length chunk,
        rb_bytes := fold (push_byte (rb_capacity rb)) chunk (rb_bytes rb)\<rparr>"

definition omitted_len :: "RingBuffer \<Rightarrow> nat" where
  "omitted_len rb = rb_total rb - length (rb_bytes rb)"

definition spill_info :: "RingBuffer \<Rightarrow> SpillInfo option" where
  "spill_info rb = (case rb_spill rb of None \<Rightarrow> None | Some sp \<Rightarrow> info sp)"

definition spill_info_reported :: "RingBuffer \<Rightarrow> RingBuffer \<times> SpillInfo option" where
  "spill_info_reported rb =
     (case rb_spill rb of
        None \<Rightarrow> (rb, None)
      | Some sp \<Rightarrow>
          (case info sp of
             None \<Rightarrow> (rb, None)
           | Some given \<Rightarrow> (rb\<lparr>rb_spill := Some (sp\<lparr>sl_reported := True\<rparr>)\<rparr>, Some given)))"

definition finish_spill :: "RingBuffer \<Rightarrow> RingBuffer" where
  "finish_spill rb = rb\<lparr>rb_spill := map_option finish (rb_spill rb)\<rparr>"

definition discard_unreported_spill :: "RingBuffer \<Rightarrow> RingBuffer" where
  "discard_unreported_spill rb = rb\<lparr>rb_spill := map_option discard_if_unreported (rb_spill rb)\<rparr>"

definition spill_disk :: "RingBuffer \<Rightarrow> rstr option" where
  "spill_disk rb = (case rb_spill rb of None \<Rightarrow> None | Some sp \<Rightarrow> sl_disk sp)"

section \<open>Which note a failure gets\<close>

definition write_denial_signature :: "int option \<Rightarrow> rstr \<Rightarrow> bool" where
  "write_denial_signature exit_code stderr =
     (if exit_code = Some 0 then False
      else if exit_code \<in> {Some 126, Some 127} then False
      else
        (let lower = to_ascii_lowercase stderr in
         if contains_str ''permission denied (publickey'' lower then False
         else list_ex (\<lambda>signature. contains_str signature lower)
                [''operation not permitted'', ''permission denied'', ''read-only file system'']))"

definition DIRECT :: "rstr list" where
  "DIRECT = [''Could not resolve host'', ''Could not resolve hostname'', ''Failed to connect to'',
     ''Couldn'' @ [SQ] @ ''t connect to server'', ''getaddrinfo'', ''nodename nor servname provided'',
     ''Temporary failure in name resolution'', ''Name or service not known'', ''Network is unreachable'',
     ''No route to host'']"

definition PERMISSION :: "rstr list" where
  "PERMISSION = [''Operation not permitted'', ''operation not permitted'', ''Permission denied'']"

definition NETWORK_WORDS :: "rstr list" where
  "NETWORK_WORDS = [''bind'', ''listen'', ''socket'', ''connect'', ''port'']"

definition network_denial_signature :: "int option \<Rightarrow> rstr \<Rightarrow> bool" where
  "network_denial_signature exit_code stderr =
     (if exit_code = Some 0 then False
      else if list_ex (\<lambda>signature. contains_str signature stderr) DIRECT then True
      else list_ex (\<lambda>signature. contains_str signature stderr) PERMISSION \<and>
        list_ex (\<lambda>token. list_ex (\<lambda>w. to_ascii_lowercase token = w) NETWORK_WORDS)
          (split_on (\<lambda>c. \<not> is_ascii_alphanumeric c) stderr))"

definition SIGNATURES :: "rstr list" where
  "SIGNATURES = [''permission denied (publickey'', ''sign_and_send_pubkey'',
     ''authentication failed for '' @ [SQ], ''could not read username for '' @ [SQ],
     ''could not read password for '' @ [SQ], ''terminal prompts disabled'', ''host key verification failed'']"

definition credential_denial_signature :: "int option \<Rightarrow> rstr \<Rightarrow> bool" where
  "credential_denial_signature exit_code stderr =
     (if exit_code = Some 0 then False
      else list_ex (\<lambda>signature. contains_str signature (to_ascii_lowercase stderr)) SIGNATURES)"

datatype JobKind = Foreground | Background
datatype JobStatus = Running | Completed | Failed | TimedOut | JobCancelled
datatype SandboxNote = WriteDenial | NetworkDenial | CredentialDenial

record JobState =
  js_kind :: JobKind
  js_command :: rstr
  js_status :: JobStatus
  js_exit_code :: "int option"
  js_sandboxed :: bool
  js_network :: bool
  js_stdout :: RingBuffer
  js_stderr :: RingBuffer

definition denial_note :: "(rstr \<Rightarrow> rstr) \<Rightarrow> JobState \<Rightarrow> SandboxNote option" where
  "denial_note decode job =
     (if js_status job \<noteq> Failed then None
      else
        (let stderr = decode (rb_bytes (js_stderr job)); code = js_exit_code job in
         if \<not> js_sandboxed job then (if credential_denial_signature code stderr then Some CredentialDenial else None)
         else if \<not> js_network job \<and> network_denial_signature code stderr then Some NetworkDenial
         else if credential_denial_signature code stderr then Some CredentialDenial
         else if write_denial_signature code stderr then Some WriteDenial
         else None))"

section \<open>The text of a result\<close>

datatype NoteLine = HeadSaved rstr SpillInfo | CompleteSaved rstr SpillInfo | TailHint rstr

text \<open>The sentences of a result; the closing line and the first line of a snapshot hold the elapsed time.\<close>

record JobTexts =
  jt_end :: "JobStatus \<Rightarrow> int option \<Rightarrow> rstr"
  jt_head :: "rstr \<Rightarrow> JobKind \<Rightarrow> JobStatus \<Rightarrow> int option \<Rightarrow> rstr \<Rightarrow> rstr"
  jt_line :: "NoteLine \<Rightarrow> rstr"
  jt_denial :: "SandboxNote \<Rightarrow> rstr"
  jt_marker :: "nat \<Rightarrow> rstr"

definition tail_chars :: "rstr \<Rightarrow> nat \<Rightarrow> rstr" where
  "tail_chars s max_chars = (if length s \<le> max_chars then s else drop (length s - max_chars) s)"

definition newline_ended :: "rstr \<Rightarrow> rstr" where
  "newline_ended s = (if ends_with [NL] s then s else s @ [NL])"

definition rendered_with_pending_denial :: "(rstr \<Rightarrow> rstr) \<Rightarrow> JobTexts \<Rightarrow> rstr \<Rightarrow> JobState \<Rightarrow> nat \<times> SandboxNote option" where
  "rendered_with_pending_denial decode jt body job =
     (let denial = denial_note decode job;
          pending = (case denial of None \<Rightarrow> 0 | Some d \<Rightarrow> length (jt_denial jt d) + 1)
      in (length body + pending, denial))"

definition stream_note ::
  "(rstr \<Rightarrow> rstr) \<Rightarrow> nat \<Rightarrow> bool \<Rightarrow> rstr \<Rightarrow> RingBuffer \<Rightarrow> RingBuffer \<times> NoteLine list \<times> bool" where
  "stream_note decode retained result_elided label rb =
     (let full = decode (rb_bytes rb);
          lost = (0 < omitted_len rb \<or> retained < length full \<or> result_elided \<and> full \<noteq> [])
      in if \<not> lost then (rb, [], False)
         else case spill_info_reported rb of
           (rb', Some given) \<Rightarrow> (rb', [if si_capped given then HeadSaved label given else CompleteSaved label given], False)
         | (rb', None) \<Rightarrow> (rb', [], True))"

definition truncation_note ::
  "(rstr \<Rightarrow> rstr) \<Rightarrow> rstr \<Rightarrow> JobState \<Rightarrow> nat \<Rightarrow> nat \<Rightarrow> JobState \<times> NoteLine list" where
  "truncation_note decode job_id job max_chars rendered_chars =
     (let retained = min max_chars TOOL_OUTPUT_BUDGET;
          result_elided = (TOOL_OUTPUT_BUDGET < rendered_chars)
      in case stream_note decode retained result_elided ''stdout'' (js_stdout job) of
           (out, ls1, lost1) \<Rightarrow>
             (case stream_note decode retained result_elided ''stderr'' (js_stderr job) of
                (err, ls2, lost2) \<Rightarrow>
                  (job\<lparr>js_stdout := out, js_stderr := err\<rparr>,
                   ls1 @ ls2 @ (if lost1 \<or> lost2 then [TailHint job_id] else []))))"

record ShellText =
  sx_body :: rstr
  sx_notes :: "NoteLine list"
  sx_denial :: "SandboxNote option"

definition shell_body :: "(rstr \<Rightarrow> rstr) \<Rightarrow> JobTexts \<Rightarrow> JobState \<Rightarrow> nat \<Rightarrow> rstr" where
  "shell_body decode jt job max_chars =
     (let stdout = tail_chars (decode (rb_bytes (js_stdout job))) max_chars;
          stderr = tail_chars (decode (rb_bytes (js_stderr job))) max_chars
      in (if stdout = [] \<and> stderr = [] then ''(no output)'' @ [NL]
          else (if stdout \<noteq> [] then newline_ended stdout else []) @
               (if stderr \<noteq> [] then newline_ended (''[stderr]'' @ [NL] @ stderr) else [])) @
         jt_end jt (js_status job) (js_exit_code job))"

definition shell_text_output ::
  "(rstr \<Rightarrow> rstr) \<Rightarrow> JobTexts \<Rightarrow> rstr \<Rightarrow> JobState \<Rightarrow> nat \<Rightarrow> JobState \<times> ShellText" where
  "shell_text_output decode jt job_id job max_chars =
     (let body = shell_body decode jt job max_chars in
      case rendered_with_pending_denial decode jt body job of (rendered_chars, denial) \<Rightarrow>
      case truncation_note decode job_id job max_chars rendered_chars of (job, ls) \<Rightarrow>
        (if rendered_chars \<le> TOOL_OUTPUT_BUDGET \<and> omitted_len (js_stdout job) = 0 \<and> omitted_len (js_stderr job) = 0
         then job\<lparr>js_stdout := discard_unreported_spill (js_stdout job),
                  js_stderr := discard_unreported_spill (js_stderr job)\<rparr>
         else job,
         \<lparr>sx_body = body, sx_notes = ls, sx_denial = denial\<rparr>))"

text \<open>The text handed on: the body, the notes and the denial note, each on lines of their own.\<close>

definition shell_text :: "JobTexts \<Rightarrow> ShellText \<Rightarrow> rstr" where
  "shell_text jt r =
     sx_body r @ (if sx_notes r = [] then [] else [NL] @ join_with [NL] (map (jt_line jt) (sx_notes r))) @
     (case sx_denial r of None \<Rightarrow> [] | Some d \<Rightarrow> [NL] @ jt_denial jt d)"

definition snapshot_body :: "(rstr \<Rightarrow> rstr) \<Rightarrow> JobTexts \<Rightarrow> rstr \<Rightarrow> JobState \<Rightarrow> nat \<Rightarrow> rstr" where
  "snapshot_body decode jt job_id job max_chars =
     (let stdout = tail_chars (decode (rb_bytes (js_stdout job))) max_chars;
          stderr = tail_chars (decode (rb_bytes (js_stderr job))) max_chars
      in jt_head jt job_id (js_kind job) (js_status job) (js_exit_code job) (js_command job) @ [NL] @
         (if stdout \<noteq> [] then newline_ended (''[stdout]'' @ [NL] @ stdout) else []) @
         (if stderr \<noteq> [] then newline_ended (''[stderr]'' @ [NL] @ stderr) else []) @
         (if stdout = [] \<and> stderr = [] then ''(no output)'' @ [NL] else []))"

definition job_text_snapshot ::
  "(rstr \<Rightarrow> rstr) \<Rightarrow> JobTexts \<Rightarrow> rstr \<Rightarrow> JobState \<Rightarrow> nat \<Rightarrow> JobState \<times> ShellText" where
  "job_text_snapshot decode jt job_id job max_chars =
     (let body = snapshot_body decode jt job_id job max_chars in
      case rendered_with_pending_denial decode jt body job of (rendered_chars, denial) \<Rightarrow>
      case truncation_note decode job_id job max_chars rendered_chars of (job, ls) \<Rightarrow>
        (job, \<lparr>sx_body = body, sx_notes = ls, sx_denial = denial\<rparr>))"

definition snapshot_text :: "JobTexts \<Rightarrow> ShellText \<Rightarrow> rstr" where
  "snapshot_text jt r =
     sx_body r @ (if sx_notes r = [] then [] else join_with [NL] (map (jt_line jt) (sx_notes r)) @ [NL]) @
     (case sx_denial r of None \<Rightarrow> [] | Some d \<Rightarrow> jt_denial jt d @ [NL])"

text \<open>What the runtime keeps of a result.\<close>

definition bounded_output :: "JobTexts \<Rightarrow> rstr \<Rightarrow> rstr" where
  "bounded_output jt text = clip_text text TOOL_OUTPUT_BUDGET TOOL_OUTPUT_HEAD TOOL_OUTPUT_TAIL (jt_marker jt)"

definition MAX_OUTPUT_CHARS :: nat where "MAX_OUTPUT_CHARS = 20000"

section \<open>What a stream leaves behind\<close>

text \<open>A stream while it runs: chunks, and the moments its file is named. After its end, chunks of a reader
  that was still on its way, more naming, and the decision that the file is not needed.\<close>

datatype LiveEvent = Chunk SpillIo rstr | Named
datatype LateEvent = LateChunk SpillIo rstr | LateNamed | Redundant

definition live_step :: "LiveEvent \<Rightarrow> RingBuffer \<Rightarrow> RingBuffer" where
  "live_step e rb = (case e of Chunk io chunk \<Rightarrow> ring_push io chunk rb | Named \<Rightarrow> fst (spill_info_reported rb))"

definition late_step :: "LateEvent \<Rightarrow> RingBuffer \<Rightarrow> RingBuffer" where
  "late_step e rb =
     (case e of
        LateChunk io chunk \<Rightarrow> ring_push io chunk rb
      | LateNamed \<Rightarrow> fst (spill_info_reported rb)
      | Redundant \<Rightarrow> discard_unreported_spill rb)"

definition running_buffer :: "rstr \<Rightarrow> LiveEvent list \<Rightarrow> RingBuffer" where
  "running_buffer path live = fold live_step live (with_spill path)"

definition ended_buffer :: "rstr \<Rightarrow> LiveEvent list \<Rightarrow> LateEvent list \<Rightarrow> RingBuffer" where
  "ended_buffer path live late = fold late_step late (finish_spill (running_buffer path live))"

definition live_bytes :: "LiveEvent list \<Rightarrow> rstr" where
  "live_bytes live = concat (map (\<lambda>e. case e of Chunk _ chunk \<Rightarrow> chunk | Named \<Rightarrow> []) live)"

definition late_bytes :: "LateEvent list \<Rightarrow> rstr" where
  "late_bytes late = concat (map (\<lambda>e. case e of LateChunk _ chunk \<Rightarrow> chunk | _ \<Rightarrow> []) late)"

text \<open>The ring holds the end of all that was pushed.\<close>

definition ring_holds :: "rstr \<Rightarrow> RingBuffer \<Rightarrow> bool" where
  "ring_holds s rb \<longleftrightarrow>
     rb_total rb = length s \<and> rb_capacity rb = JOB_BUFFER_BYTES \<and>
     rb_bytes rb = drop (length s - JOB_BUFFER_BYTES) s"

text \<open>The file holds the beginning of the stream \<open>s\<close>, whole unless it is at its cap or a write failed. While the
  stream is short there is none.\<close>

definition spill_holds :: "rstr \<Rightarrow> Spill \<Rightarrow> bool" where
  "spill_holds s sp \<longleftrightarrow>
     (if sl_failed sp then \<not> sl_file sp
      else if sl_written sp = 0 then \<not> sl_file sp \<and> \<not> sl_reported sp \<and> (sl_finished sp \<or> length s \<le> SPILL_THRESHOLD_BYTES)
      else sl_written sp = min (length s) SPILL_MAX_BYTES \<and> sl_disk sp = Some (take SPILL_MAX_BYTES s) \<and>
        sl_file sp = (\<not> sl_finished sp)) \<and>
     (sl_reported sp \<longrightarrow> (\<exists>n \<le> length s. sl_disk sp = Some (take n s)))"

lemma push_bytes_fold:
  assumes "0 < capacity" "length kept \<le> capacity"
  shows "fold (push_byte capacity) chunk kept = drop (length kept + length chunk - capacity) (kept @ chunk)"
  using assms(2)
proof (induction chunk arbitrary: kept)
  case (Cons byte chunk)
  show ?case
  proof (cases "length kept = capacity")
    case True
    with assms(1) obtain k rest where k: "kept = k # rest" by (cases kept) auto
    show ?thesis using True Cons.IH [of "rest @ [byte]"] by (simp add: push_byte_def k)
  next
    case False
    with Cons.prems show ?thesis using Cons.IH [of "kept @ [byte]"] by (simp add: push_byte_def)
  qed
qed simp

lemma ring_holds_push:
  assumes "ring_holds s rb"
  shows "ring_holds (s @ chunk) (ring_push io chunk rb)"
proof -
  have "drop (length (drop (length s - c) s) + length chunk - c) (drop (length s - c) s @ chunk) =
    drop (length (s @ chunk) - c) (s @ chunk)" for c :: nat
    by (cases "length s \<le> c") (auto simp: add.commute)
  with assms show ?thesis by (simp add: ring_holds_def ring_push_def push_bytes_fold JOB_BUFFER_BYTES_def)
qed

text \<open>An open file: it holds what was written, or a write has failed and it holds a beginning of it.\<close>

definition file_holds :: "rstr \<Rightarrow> Spill \<Rightarrow> bool" where
  "file_holds t sp \<longleftrightarrow>
     (if sl_failed sp then \<not> sl_file sp \<and> (\<exists>n \<le> length t. sl_disk sp = Some (take n t))
      else sl_file sp \<and> sl_written sp = min (length t) SPILL_MAX_BYTES \<and> sl_disk sp = Some (take SPILL_MAX_BYTES t))"

lemma spill_write_keeps [simp]:
  "sl_finished (spill_write fault bytes sp) = sl_finished sp"
  "sl_reported (spill_write fault bytes sp) = sl_reported sp"
  "sl_path (spill_write fault bytes sp) = sl_path sp"
  by (simp_all add: spill_write_def Let_def split: option.split)

lemma spill_write_file_holds:
  assumes "file_holds t sp"
  shows "file_holds (t @ bytes) (spill_write fault bytes sp)"
proof (cases "sl_failed sp \<or> bytes = []")
  case True
  then show ?thesis
  proof (cases "sl_failed sp")
    case True
    with assms obtain n where n: "n \<le> length t" "sl_disk sp = Some (take n t)" "\<not> sl_file sp"
      by (auto simp: file_holds_def)
    then have "sl_disk sp = Some (take n (t @ bytes))" "n \<le> length (t @ bytes)" by simp_all
    with True n(3) show ?thesis unfolding file_holds_def spill_write_def by auto
  next
    case False
    with True assms show ?thesis by (simp add: spill_write_def)
  qed
next
  case False
  with assms have t: "sl_file sp" "sl_written sp = min (length t) SPILL_MAX_BYTES" "sl_disk sp = Some (take SPILL_MAX_BYTES t)"
    by (auto simp: file_holds_def)
  show ?thesis
  proof (cases "SPILL_MAX_BYTES \<le> length t")
    case True
    with False t show ?thesis by (simp add: spill_write_def file_holds_def)
  next
    case short: False
    define n where "n = min (length bytes) (SPILL_MAX_BYTES - length t)"
    have "0 < n" using short False by (auto simp: n_def)
    have whole: "take (SPILL_MAX_BYTES - length t) bytes = take n bytes" by (simp add: n_def min_def)
    show ?thesis
    proof (cases fault)
      case None
      with False t short \<open>0 < n\<close> show ?thesis
        by (auto simp: spill_write_def file_holds_def Let_def n_def min_def)
    next
      case (Some k)
      have "t @ take (min k n) bytes = take (length t + min k n) (t @ bytes)" by simp
      moreover have "length t + min k n \<le> length (t @ bytes)" by (simp add: n_def)
      ultimately show ?thesis using False t short \<open>0 < n\<close> Some
        by (auto simp: spill_write_def file_holds_def Let_def n_def intro!: exI [of _ "length t + min k n"])
    qed
  qed
qed

lemma take_bounded: "\<exists>n \<le> length s. take k s = take n s"
  by (rule exI [of _ "min k (length s)"]) (simp add: min_def)

lemma max_positive [simp]: "0 < SPILL_MAX_BYTES" "SPILL_MAX_BYTES \<noteq> 0"
  by (simp_all add: SPILL_MAX_BYTES_def)

lemma file_holds_spill:
  assumes "file_holds s sp" "\<not> sl_finished sp" "0 < length s"
  shows "spill_holds s sp"
proof (cases "sl_failed sp")
  case True
  with assms(1) show ?thesis by (auto simp: file_holds_def spill_holds_def)
next
  case False
  with assms have d: "sl_file sp" "sl_written sp = min (length s) SPILL_MAX_BYTES" "sl_disk sp = Some (take SPILL_MAX_BYTES s)"
    by (auto simp: file_holds_def)
  moreover have "min (length s) SPILL_MAX_BYTES \<noteq> 0" using assms(3) max_positive(1) by (simp add: min_def)
  ultimately show ?thesis using False assms(2) take_bounded [of s SPILL_MAX_BYTES] by (simp add: spill_holds_def)
qed

lemma spill_holds_offer:
  assumes "spill_holds s sp" "\<not> sl_finished sp" and backlog: "length s \<le> SPILL_THRESHOLD_BYTES \<longrightarrow> backlog = s"
  shows "spill_holds (s @ chunk) (offer io (length s) backlog chunk sp)"
proof (cases "sl_failed sp")
  case True
  with assms(1) show ?thesis
    by (auto simp: spill_holds_def offer_def) (metis le_add1 le_trans length_append take_append diff_is_0_eq take_0 append_Nil2)
next
  case sound: False
  show ?thesis
  proof (cases "sl_written sp = 0")
    case True
    with assms sound have z: "\<not> sl_file sp" "\<not> sl_reported sp" "length s \<le> SPILL_THRESHOLD_BYTES" "backlog = s"
      by (auto simp: spill_holds_def)
    consider "length s + length chunk \<le> SPILL_THRESHOLD_BYTES" | "SPILL_THRESHOLD_BYTES < length s + length chunk" "\<not> io_create io"
      | "SPILL_THRESHOLD_BYTES < length s + length chunk" "io_create io" by linarith
    then show ?thesis
    proof cases
      case 1
      with True sound z assms(2) show ?thesis by (simp add: offer_def spill_holds_def)
    next
      case 2
      with True sound z assms(2) show ?thesis by (auto simp: offer_def spill_holds_def)
    next
      case 3
      let ?sp0 = "sp\<lparr>sl_disk := Some [], sl_file := True\<rparr>"
      have "file_holds [] ?sp0" using sound True by (simp add: file_holds_def)
      from spill_write_file_holds [OF spill_write_file_holds [OF spill_write_file_holds [OF this,
          of "take (io_wrap io) s" "io_front io"], of "drop (io_wrap io) s" "io_back io"], of chunk "io_chunk io"]
      have "file_holds (s @ chunk) (offer io (length s) backlog chunk sp)"
        using 3 True sound z assms(2) by (simp add: offer_def)
      moreover have "\<not> sl_finished (offer io (length s) backlog chunk sp)"
        using 3 True sound z assms(2) by (simp add: offer_def)
      moreover have "0 < length (s @ chunk)" using 3 by (cases s; cases chunk) simp_all
      ultimately show ?thesis by (rule file_holds_spill)
    qed
  next
    case False
    with assms sound have w: "sl_file sp" "sl_written sp = min (length s) SPILL_MAX_BYTES" "sl_disk sp = Some (take SPILL_MAX_BYTES s)"
      by (auto simp: spill_holds_def)
    have s: "0 < length s" using False w by auto
    show ?thesis
    proof (cases "SPILL_MAX_BYTES \<le> sl_written sp")
      case True
      then have "SPILL_MAX_BYTES \<le> length s" using w by simp
      with w True sound assms(2) False take_bounded [of "s @ chunk" SPILL_MAX_BYTES]
      show ?thesis by (simp add: offer_def spill_holds_def)
    next
      case open_file: False
      have "file_holds s sp" using w sound by (simp add: file_holds_def)
      from spill_write_file_holds [OF this, of chunk "io_chunk io"]
      have "file_holds (s @ chunk) (offer io (length s) backlog chunk sp)"
        using w sound open_file assms(2) by (simp add: offer_def)
      moreover have "\<not> sl_finished (offer io (length s) backlog chunk sp)"
        using w sound open_file assms(2) by (simp add: offer_def)
      moreover have "0 < length (s @ chunk)" using s by simp
      ultimately show ?thesis by (rule file_holds_spill)
    qed
  qed
qed

lemma spill_holds_named:
  "spill_holds s sp \<Longrightarrow> info sp \<noteq> None \<Longrightarrow> spill_holds s (sp\<lparr>sl_reported := True\<rparr>)"
  using take_bounded [of s SPILL_MAX_BYTES] by (auto simp: spill_holds_def info_def split: if_splits)

lemma spill_holds_finish: "spill_holds s sp \<Longrightarrow> spill_holds s (finish sp)"
  by (auto simp: spill_holds_def finish_def split: if_splits)

lemma spill_holds_discard: "spill_holds s sp \<Longrightarrow> sl_finished sp \<Longrightarrow> spill_holds s (discard_if_unreported sp)"
  by (auto simp: spill_holds_def discard_if_unreported_def split: if_splits)

text \<open>The stream is running, or has ended after \<open>s\<close>; \<open>pushed\<close> is all that reached the ring.\<close>

definition buffer_holds :: "bool \<Rightarrow> rstr \<Rightarrow> rstr \<Rightarrow> RingBuffer \<Rightarrow> bool" where
  "buffer_holds over s pushed rb \<longleftrightarrow>
     ring_holds pushed rb \<and> (over \<or> pushed = s) \<and>
     (\<exists>sp. rb_spill rb = Some sp \<and> spill_holds s sp \<and> sl_finished sp = over)"

lemma buffer_holds_named:
  "buffer_holds over s pushed rb \<Longrightarrow> buffer_holds over s pushed (fst (spill_info_reported rb))"
  using spill_holds_named
  by (fastforce simp: buffer_holds_def ring_holds_def spill_info_reported_def split: option.split)

lemma buffer_holds_live: "buffer_holds False s s rb \<Longrightarrow>
    buffer_holds False (s @ live_bytes [e]) (s @ live_bytes [e]) (live_step e rb)"
proof (induction e)
  case (Chunk io chunk)
  then obtain sp where sp: "rb_spill rb = Some sp" "spill_holds s sp" "\<not> sl_finished sp" "ring_holds s rb"
    by (auto simp: buffer_holds_def)
  from sp(4) have "length s \<le> SPILL_THRESHOLD_BYTES \<longrightarrow> rb_bytes rb = s"
    by (simp add: ring_holds_def JOB_BUFFER_BYTES_def SPILL_THRESHOLD_BYTES_def TOOL_OUTPUT_BUDGET_def SPILL_FRAMING_RESERVE_def)
  from spill_holds_offer [OF sp(2,3) this, of chunk io]
  have "spill_holds (s @ chunk) (offer io (length s) (rb_bytes rb) chunk sp)" .
  moreover have "sl_finished (offer io (length s) (rb_bytes rb) chunk sp) = False"
    using sp(3) by (simp add: offer_def)
  moreover have "rb_total rb = length s" using sp(4) by (simp add: ring_holds_def)
  ultimately show ?case using ring_holds_push [OF sp(4), of chunk io] sp(1)
    by (simp add: buffer_holds_def live_step_def live_bytes_def ring_push_def)
next
  case Named
  then show ?case using buffer_holds_named by (simp add: live_step_def live_bytes_def)
qed

lemma running_buffer_holds: "buffer_holds False (live_bytes live) (live_bytes live) (running_buffer path live)"
proof (induction live rule: rev_induct)
  case Nil
  then show ?case
    by (simp add: running_buffer_def live_bytes_def buffer_holds_def ring_holds_def with_spill_def new_spill_def
      spill_holds_def)
next
  case (snoc e live)
  then show ?case using buffer_holds_live [of "live_bytes live" "running_buffer path live" e]
    by (simp add: running_buffer_def live_bytes_def)
qed

lemma buffer_holds_late: "buffer_holds True s pushed rb \<Longrightarrow>
    buffer_holds True s (pushed @ late_bytes [e]) (late_step e rb)"
proof (induction e)
  case (LateChunk io chunk)
  then obtain sp where sp: "rb_spill rb = Some sp" "spill_holds s sp" "sl_finished sp" "ring_holds pushed rb"
    by (auto simp: buffer_holds_def)
  then have "offer io (rb_total rb) (rb_bytes rb) chunk sp = sp" by (simp add: offer_def)
  with sp ring_holds_push [OF sp(4), of chunk io] show ?case
    by (simp add: buffer_holds_def late_step_def late_bytes_def ring_push_def)
next
  case LateNamed
  then show ?case using buffer_holds_named by (simp add: late_step_def late_bytes_def)
next
  case Redundant
  then obtain sp where sp: "rb_spill rb = Some sp" "spill_holds s sp" "sl_finished sp" "ring_holds pushed rb"
    by (auto simp: buffer_holds_def)
  moreover have "sl_finished (discard_if_unreported sp)" using sp(3) by (simp add: discard_if_unreported_def)
  ultimately show ?case using spill_holds_discard [of s sp]
    by (simp add: buffer_holds_def late_step_def late_bytes_def discard_unreported_spill_def ring_holds_def)
qed

lemma ended_buffer_holds:
  "buffer_holds True (live_bytes live) (live_bytes live @ late_bytes late) (ended_buffer path live late)"
proof (induction late rule: rev_induct)
  case Nil
  from running_buffer_holds [of live path] obtain sp where
    "rb_spill (running_buffer path live) = Some sp" "spill_holds (live_bytes live) sp"
    "ring_holds (live_bytes live) (running_buffer path live)"
    by (auto simp: buffer_holds_def)
  then show ?case using spill_holds_finish
    by (simp add: ended_buffer_def late_bytes_def buffer_holds_def finish_spill_def ring_holds_def) (simp add: finish_def)
next
  case (snoc e late)
  then show ?case
    using buffer_holds_late [of "live_bytes live" "live_bytes live @ late_bytes late" "ended_buffer path live late" e]
    by (simp add: ended_buffer_def late_bytes_def)
qed

text \<open>What a buffer that holds its stream says of it.\<close>

lemma buffer_named:
  assumes "buffer_holds over s pushed rb"
  shows "rb_bytes rb = drop (length pushed - JOB_BUFFER_BYTES) pushed \<and> rb_total rb = length pushed \<and>
    (case spill_info rb of
       None \<Rightarrow> True
     | Some given \<Rightarrow>
         spill_disk rb = Some (if si_capped given then take SPILL_MAX_BYTES s else s) \<and>
         si_bytes given = min (length s) SPILL_MAX_BYTES)"
proof -
  from assms obtain sp where sp: "ring_holds pushed rb" "rb_spill rb = Some sp" "spill_holds s sp"
    by (auto simp: buffer_holds_def)
  have "spill_disk rb = Some (if si_capped given then take SPILL_MAX_BYTES s else s) \<and>
      si_bytes given = min (length s) SPILL_MAX_BYTES" if "spill_info rb = Some given" for given
  proof -
    from that sp have i: "\<not> sl_failed sp" "0 < sl_written sp" "si_bytes given = sl_written sp"
      "si_capped given = (SPILL_MAX_BYTES \<le> sl_written sp)"
      by (auto simp: spill_info_def info_def split: if_splits)
    with sp(3) have w: "sl_written sp = min (length s) SPILL_MAX_BYTES" "sl_disk sp = Some (take SPILL_MAX_BYTES s)"
      by (auto simp: spill_holds_def)
    then show ?thesis using i sp(2) by (simp add: spill_disk_def)
  qed
  then show ?thesis using sp(1) by (simp add: ring_holds_def split: option.split)
qed

text \<open>C39 (invariant). However a stream is cut into chunks and whatever goes wrong on the disk, the ring holds the last
  128 KiB of it, and a file that is named holds its beginning byte for byte: all of it, or the first 64 MiB.
  What is pushed after the stream was declared over never changes the file, and a file that was named is
  not removed.\<close>

theorem capture_keeps_both_ends:
  "case ended_buffer path live late of rb \<Rightarrow>
     rb_bytes rb = drop (length (live_bytes live @ late_bytes late) - JOB_BUFFER_BYTES) (live_bytes live @ late_bytes late) \<and>
     (case spill_info rb of
        None \<Rightarrow> True
      | Some given \<Rightarrow>
          spill_disk rb = Some (if si_capped given then take SPILL_MAX_BYTES (live_bytes live) else live_bytes live) \<and>
          si_bytes given = min (length (live_bytes live)) SPILL_MAX_BYTES)"
  using buffer_named [OF ended_buffer_holds] by simp

section \<open>A result hides nothing without saying so\<close>

text \<open>The sentences stay in the room the runtime keeps at the end of a long result.\<close>

definition texts_short :: "JobTexts \<Rightarrow> bool" where
  "texts_short jt \<longleftrightarrow>
     (\<forall>status code. length (jt_end jt status code) \<le> 1000) \<and> (\<forall>l. length (jt_line jt l) \<le> 1000) \<and>
     (\<forall>d. length (jt_denial jt d) \<le> 900)"

text \<open>What a result says about a stream that may not be shown whole: where the file is and what it holds, or
  how to ask for more of its end.\<close>

definition accounted :: "rstr \<Rightarrow> rstr \<Rightarrow> RingBuffer \<Rightarrow> RingBuffer \<Rightarrow> NoteLine list \<Rightarrow> bool" where
  "accounted job_id label rb rb' ls \<longleftrightarrow>
     (case spill_info rb of
        None \<Rightarrow> TailHint job_id \<in> set ls
      | Some given \<Rightarrow>
          (if si_capped given then HeadSaved label given else CompleteSaved label given) \<in> set ls \<and>
          spill_disk rb' = spill_disk rb)"

lemma stream_note_lost:
  assumes "0 < omitted_len rb \<or> retained < length (decode (rb_bytes rb)) \<or> result_elided \<and> decode (rb_bytes rb) \<noteq> []"
  shows "case stream_note decode retained result_elided label rb of (rb', ls, hint) \<Rightarrow>
    accounted job_id label rb rb' (ls @ (if hint then [TailHint job_id] else [])) \<and> length ls \<le> 1"
  using assms
  by (auto simp: stream_note_def Let_def accounted_def spill_info_reported_def spill_info_def spill_disk_def
    split: option.splits)

lemma stream_note_none:
  "stream_note decode retained result_elided label rb =
     (if 0 < omitted_len rb \<or> retained < length (decode (rb_bytes rb)) \<or> result_elided \<and> decode (rb_bytes rb) \<noteq> []
      then stream_note decode retained result_elided label rb else (rb, [], False))"
  by (simp add: stream_note_def Let_def)

lemma accounted_mono: "accounted job_id label rb rb' ls \<Longrightarrow> set ls \<subseteq> set ls' \<Longrightarrow> accounted job_id label rb rb' ls'"
  by (auto simp: accounted_def split: option.splits)

lemma truncation_note_lost:
  assumes elided: "TOOL_OUTPUT_BUDGET < rendered_chars"
    and n: "truncation_note decode job_id job max_chars rendered_chars = (job', ls)"
  shows "decode (rb_bytes (js_stdout job)) \<noteq> [] \<Longrightarrow> accounted job_id ''stdout'' (js_stdout job) (js_stdout job') ls"
    and "decode (rb_bytes (js_stderr job)) \<noteq> [] \<Longrightarrow> accounted job_id ''stderr'' (js_stderr job) (js_stderr job') ls"
    and "length ls \<le> 3"
proof -
  let ?m = "min max_chars TOOL_OUTPUT_BUDGET"
  obtain out ls1 lost1 where o: "stream_note decode ?m True ''stdout'' (js_stdout job) = (out, ls1, lost1)"
    by (cases "stream_note decode ?m True ''stdout'' (js_stdout job)")
  obtain err ls2 lost2 where e: "stream_note decode ?m True ''stderr'' (js_stderr job) = (err, ls2, lost2)"
    by (cases "stream_note decode ?m True ''stderr'' (js_stderr job)")
  have r: "job' = job\<lparr>js_stdout := out, js_stderr := err\<rparr>"
    "ls = ls1 @ ls2 @ (if lost1 \<or> lost2 then [TailHint job_id] else [])"
    using n elided o e by (simp_all add: truncation_note_def Let_def)
  have len: "length (fst (snd (stream_note decode m b label rb))) \<le> 1" for m b label rb
    by (simp add: stream_note_def Let_def split: option.split prod.split)
  show "length ls \<le> 3" using len [of ?m True "''stdout''" "js_stdout job"] len [of ?m True "''stderr''" "js_stderr job"]
    by (simp add: r o e)
  show "accounted job_id ''stdout'' (js_stdout job) (js_stdout job') ls" if "decode (rb_bytes (js_stdout job)) \<noteq> []"
  proof -
    have "accounted job_id ''stdout'' (js_stdout job) out (ls1 @ (if lost1 then [TailHint job_id] else []))"
      using stream_note_lost [where rb = "js_stdout job" and retained = ?m and decode = decode and result_elided = True and label = "''stdout''" and job_id = job_id] that o by simp
    then have "accounted job_id ''stdout'' (js_stdout job) out ls" by (rule accounted_mono) (auto simp: r)
    then show ?thesis by (simp add: r)
  qed
  show "accounted job_id ''stderr'' (js_stderr job) (js_stderr job') ls" if "decode (rb_bytes (js_stderr job)) \<noteq> []"
  proof -
    have "accounted job_id ''stderr'' (js_stderr job) err (ls2 @ (if lost2 then [TailHint job_id] else []))"
      using stream_note_lost [where rb = "js_stderr job" and retained = ?m and decode = decode and result_elided = True and label = "''stderr''" and job_id = job_id] that e by simp
    then have "accounted job_id ''stderr'' (js_stderr job) err ls" by (rule accounted_mono) (auto simp: r)
    then show ?thesis by (simp add: r)
  qed
qed

lemma newline_ended_length: "length s \<le> length (newline_ended s)" "length (newline_ended s) \<le> length s + 1"
  by (simp_all add: newline_ended_def)

lemma tail_chars_length: "length (tail_chars s n) = min (length s) n"
  by (simp add: tail_chars_def)

lemma tail_chars_whole: "length s \<le> n \<Longrightarrow> tail_chars s n = s"
  by (simp add: tail_chars_def)

lemma shell_body_length:
  "length (tail_chars (decode (rb_bytes (js_stdout job))) n) + length (tail_chars (decode (rb_bytes (js_stderr job))) n)
    \<le> length (shell_body decode jt job n)"
  using newline_ended_length(1) [of "tail_chars (decode (rb_bytes (js_stdout job))) n"]
    newline_ended_length(1) [of "''[stderr]'' @ [NL] @ tail_chars (decode (rb_bytes (js_stderr job))) n"]
  by (auto simp: shell_body_def Let_def)

text \<open>A body that fits shows both streams whole.\<close>

lemma shell_body_shows:
  assumes fits: "length (shell_body decode jt job MAX_OUTPUT_CHARS) \<le> TOOL_OUTPUT_BUDGET"
  shows "length (decode (rb_bytes (js_stdout job))) \<le> TOOL_OUTPUT_BUDGET"
    and "length (decode (rb_bytes (js_stderr job))) \<le> TOOL_OUTPUT_BUDGET"
    and "\<exists>a b c. shell_body decode jt job MAX_OUTPUT_CHARS =
      a @ decode (rb_bytes (js_stdout job)) @ b @ decode (rb_bytes (js_stderr job)) @ c"
proof -
  let ?out = "decode (rb_bytes (js_stdout job))" and ?err = "decode (rb_bytes (js_stderr job))"
  show l: "length ?out \<le> TOOL_OUTPUT_BUDGET" "length ?err \<le> TOOL_OUTPUT_BUDGET"
    using shell_body_length [of decode job MAX_OUTPUT_CHARS jt] fits
    by (auto simp: tail_chars_length MAX_OUTPUT_CHARS_def TOOL_OUTPUT_BUDGET_def)
  then have w: "tail_chars ?out MAX_OUTPUT_CHARS = ?out" "tail_chars ?err MAX_OUTPUT_CHARS = ?err"
    by (simp_all add: tail_chars_def MAX_OUTPUT_CHARS_def TOOL_OUTPUT_BUDGET_def)
  have nl: "\<exists>t. newline_ended s = s @ t" for s by (simp add: newline_ended_def)
  obtain t1 where t1: "newline_ended ?out = ?out @ t1" using nl by blast
  obtain t2 where t2: "newline_ended (''[stderr]'' @ [NL] @ ?err) = ''[stderr]'' @ [NL] @ ?err @ t2"
    using nl [of "''[stderr]'' @ [NL] @ ?err"] by auto
  show "\<exists>a b c. shell_body decode jt job MAX_OUTPUT_CHARS = a @ ?out @ b @ ?err @ c"
  proof (cases "?out = []"; cases "?err = []")
    assume "?out = []" "?err = []"
    then show ?thesis by (intro exI [of _ "[]"] exI [of _ "[]"] exI [of _ "shell_body decode jt job MAX_OUTPUT_CHARS"]) simp
  next
    assume "?out = []" "?err \<noteq> []"
    then show ?thesis unfolding shell_body_def Let_def w t2
      by (intro exI [of _ "''[stderr]'' @ [NL]"] exI [of _ "[]"] exI [of _ "t2 @ jt_end jt (js_status job) (js_exit_code job)"]) simp
  next
    assume "?out \<noteq> []" "?err = []"
    then show ?thesis unfolding shell_body_def Let_def w t1
      by (intro exI [of _ "[]"] exI [of _ "[]"] exI [of _ "t1 @ jt_end jt (js_status job) (js_exit_code job)"]) simp
  next
    assume "?out \<noteq> []" "?err \<noteq> []"
    then show ?thesis unfolding shell_body_def Let_def w t1 t2
      by (intro exI [of _ "[]"] exI [of _ "t1 @ ''[stderr]'' @ [NL]"]
        exI [of _ "t2 @ jt_end jt (js_status job) (js_exit_code job)"]) simp
  qed
qed

text \<open>The end of a result, its notes, is kept whatever is cut out of its middle.\<close>

lemma clip_text_end:
  assumes "length e \<le> tail" "head + tail \<le> max_chars"
  shows "\<exists>pre. clip_text (s @ e) max_chars head tail marker = pre @ e"
proof (cases "length (s @ e) \<le> max_chars")
  case True
  then show ?thesis by (simp add: clip_text_def)
next
  case False
  with assms have "length s + length e - tail \<le> length s" by simp
  then have "drop (length s + length e - tail) (s @ e) = drop (length s + length e - tail) s @ e" by simp
  with False show ?thesis by (simp add: clip_text_def Let_def)
qed

lemma join_with_length:
  "(\<forall>l \<in> set ls. length l \<le> n) \<Longrightarrow> length (join_with [c] ls) \<le> length ls * (n + 1)"
proof (induction "[c]" ls rule: join_with.induct)
  case (3 x y ls)
  then show ?case by (simp add: algebra_simps)
qed auto

definition notes_text :: "JobTexts \<Rightarrow> ShellText \<Rightarrow> rstr" where
  "notes_text jt r =
     (if sx_notes r = [] then [] else [NL] @ join_with [NL] (map (jt_line jt) (sx_notes r))) @
     (case sx_denial r of None \<Rightarrow> [] | Some d \<Rightarrow> [NL] @ jt_denial jt d)"

lemma notes_text_length:
  assumes "texts_short jt" "length (sx_notes r) \<le> 3"
  shows "length (notes_text jt r) \<le> TOOL_OUTPUT_TAIL"
proof -
  have "\<forall>l \<in> set (map (jt_line jt) (sx_notes r)). length l \<le> 1000" using assms(1) by (simp add: texts_short_def)
  from join_with_length [OF this, of NL] assms(2)
  have j: "length (join_with [NL] (map (jt_line jt) (sx_notes r))) \<le> 3003"
    by (simp add: order_trans [OF _ mult_le_mono1 [OF assms(2), of 1001]])
  have "length (case sx_denial r of None \<Rightarrow> [] | Some d \<Rightarrow> [NL] @ jt_denial jt d) \<le> 901"
    using assms(1) by (auto simp: texts_short_def split: option.split)
  then show ?thesis using j unfolding notes_text_def by (auto simp: TOOL_OUTPUT_TAIL_def)
qed

text \<open>The result of a foreground command either shows both streams whole and is handed on as it is, or it
  accounts for every stream that printed anything, in lines the runtime keeps when it cuts the middle out.\<close>

lemma shell_result:
  assumes texts: "texts_short jt" and dec: "\<forall>bs. length bs \<le> 4 * length (decode bs)"
    and rings: "ring_holds s1 (js_stdout job)" "ring_holds s2 (js_stderr job)"
    and r: "shell_text_output decode jt job_id job MAX_OUTPUT_CHARS = (job', r)"
  shows "if sx_notes r = []
    then bounded_output jt (shell_text jt r) = shell_text jt r \<and> rb_bytes (js_stdout job) = s1 \<and>
      rb_bytes (js_stderr job) = s2 \<and> (\<exists>a b c. shell_text jt r = a @ decode s1 @ b @ decode s2 @ c)
    else (decode (rb_bytes (js_stdout job)) = [] \<or> accounted job_id ''stdout'' (js_stdout job) (js_stdout job') (sx_notes r)) \<and>
      (decode (rb_bytes (js_stderr job)) = [] \<or> accounted job_id ''stderr'' (js_stderr job) (js_stderr job') (sx_notes r)) \<and>
      (\<exists>pre. bounded_output jt (shell_text jt r) = pre @ notes_text jt r)"
proof -
  let ?body = "shell_body decode jt job MAX_OUTPUT_CHARS"
  let ?pending = "case denial_note decode job of None \<Rightarrow> 0 | Some d \<Rightarrow> length (jt_denial jt d) + 1"
  obtain job1 ls where n: "truncation_note decode job_id job MAX_OUTPUT_CHARS (length ?body + ?pending) = (job1, ls)"
    by (cases "truncation_note decode job_id job MAX_OUTPUT_CHARS (length ?body + ?pending)")
  have fields: "sx_body r = ?body" "sx_notes r = ls" "sx_denial r = denial_note decode job"
    and job': "job' = (if length ?body + ?pending \<le> TOOL_OUTPUT_BUDGET \<and> omitted_len (js_stdout job1) = 0 \<and>
      omitted_len (js_stderr job1) = 0 then job1\<lparr>js_stdout := discard_unreported_spill (js_stdout job1),
                  js_stderr := discard_unreported_spill (js_stderr job1)\<rparr> else job1)"
    using r n by (auto simp: shell_text_output_def rendered_with_pending_denial_def Let_def)
  have whole: "shell_text jt r = ?body @ notes_text jt r" by (simp add: shell_text_def notes_text_def fields)
  show ?thesis
  proof (cases "length ?body + ?pending \<le> TOOL_OUTPUT_BUDGET")
    case True
    then have "length ?body \<le> TOOL_OUTPUT_BUDGET" by simp
    note shown = shell_body_shows [OF this]
    have small: "rb_bytes rb = s \<and> omitted_len rb = 0"
      if "ring_holds s rb" "length (decode (rb_bytes rb)) \<le> TOOL_OUTPUT_BUDGET" for s rb
    proof -
      have "length (rb_bytes rb) \<le> 4 * TOOL_OUTPUT_BUDGET" using dec that(2) by (meson le_trans mult_le_mono2)
      then have "length s \<le> JOB_BUFFER_BYTES" using that(1)
        by (auto simp: ring_holds_def JOB_BUFFER_BYTES_def TOOL_OUTPUT_BUDGET_def)
      with that(1) show ?thesis by (simp add: ring_holds_def omitted_len_def)
    qed
    note s1 = small [OF rings(1) shown(1)] and s2 = small [OF rings(2) shown(2)]
    have "min MAX_OUTPUT_CHARS TOOL_OUTPUT_BUDGET = TOOL_OUTPUT_BUDGET"
      by (simp add: MAX_OUTPUT_CHARS_def TOOL_OUTPUT_BUDGET_def)
    then have "ls = []" using n s1 s2 shown(1,2) True
      by (simp add: truncation_note_def stream_note_def Let_def not_less)
    moreover have "length (notes_text jt r) = ?pending" by (simp add: notes_text_def fields \<open>ls = []\<close> split: option.split)
    moreover obtain a b c where abc: "?body = a @ decode s1 @ b @ decode s2 @ c" using shown(3) s1 s2 by auto
    then have "shell_text jt r = a @ decode s1 @ b @ decode s2 @ (c @ notes_text jt r)" by (simp add: whole)
    ultimately show ?thesis using s1 s2 True whole
      by (simp add: fields bounded_output_def clip_text_def Let_def) blast
  next
    case False
    then have elided: "TOOL_OUTPUT_BUDGET < length ?body + ?pending" by simp
    note lost = truncation_note_lost [OF elided n]
    have "job' = job1" using job' False by simp
    have "\<exists>pre. bounded_output jt (shell_text jt r) = pre @ notes_text jt r"
      unfolding whole bounded_output_def
      using notes_text_length [OF texts, of r] lost(3)
      by (intro clip_text_end) (simp_all add: fields TOOL_OUTPUT_BUDGET_def TOOL_OUTPUT_HEAD_def TOOL_OUTPUT_TAIL_def)
    moreover have "ls \<noteq> []"
    proof
      assume "ls = []"
      have "\<not> accounted job_id label rb rb' []" for label rb rb' by (simp add: accounted_def split: option.split)
      with lost(1,2) \<open>ls = []\<close> have e: "decode (rb_bytes (js_stdout job)) = []" "decode (rb_bytes (js_stderr job)) = []"
        by blast+
      then have "length ?body = 12 + length (jt_end jt (js_status job) (js_exit_code job))"
        by (simp add: shell_body_def Let_def tail_chars_def)
      moreover have "length (jt_end jt (js_status job) (js_exit_code job)) \<le> 1000" using texts by (simp add: texts_short_def)
      moreover have "?pending \<le> 901" using texts by (auto simp: texts_short_def split: option.split)
      ultimately show False using False by (simp add: TOOL_OUTPUT_BUDGET_def)
    qed
    ultimately show ?thesis using lost(1,2) \<open>job' = job1\<close> by (auto simp: fields)
  qed
qed

text \<open>What a result says of a stream that ran to its end: the file it names holds the stream, or its first
  64 MiB.\<close>

definition stream_told :: "rstr \<Rightarrow> rstr \<Rightarrow> rstr \<Rightarrow> RingBuffer \<Rightarrow> NoteLine list \<Rightarrow> bool" where
  "stream_told job_id label s rb' ls \<longleftrightarrow>
     TailHint job_id \<in> set ls \<or>
     list_ex (\<lambda>l. case l of
         CompleteSaved label' given \<Rightarrow> label' = label \<and> spill_disk rb' = Some s
       | HeadSaved label' given \<Rightarrow> label' = label \<and> spill_disk rb' = Some (take SPILL_MAX_BYTES s)
       | TailHint _ \<Rightarrow> False) ls"

lemma accounted_told:
  assumes "buffer_holds True s pushed rb" "accounted job_id label rb rb' ls"
  shows "stream_told job_id label s rb' ls"
proof (cases "spill_info rb")
  case None
  with assms(2) show ?thesis by (simp add: accounted_def stream_told_def)
next
  case (Some given)
  with buffer_named [OF assms(1)] have
    d: "spill_disk rb = Some (if si_capped given then take SPILL_MAX_BYTES s else s)" by simp
  from Some assms(2) have a: "(if si_capped given then HeadSaved label given else CompleteSaved label given) \<in> set ls"
    "spill_disk rb' = spill_disk rb"
    by (simp_all add: accounted_def)
  then show ?thesis using d by (auto simp: stream_told_def list_ex_iff split: if_splits intro!: bexI)
qed


section \<open>The tail of a job\<close>

text \<open>The same cannot be said of \<^verbatim>\<open>job action=tail\<close>, which takes a smaller window. The note for one stream is
  written after the size of the result was measured, and can itself ring_push it over the bound: the middle that
  is cut out then holds text of the other stream, which no line mentions and no file keeps.\<close>

definition tail_texts :: JobTexts where
  "tail_texts =
     \<lparr>jt_end = (\<lambda>_ _. ''[exit 0 / 12ms]''), jt_head = (\<lambda>job_id _ _ _ command. job_id @ '' (background) completed: '' @ command),
      jt_line = (\<lambda>_. replicate 200 (CHR ''n'')), jt_denial = (\<lambda>_. ''[note]''), jt_marker = (\<lambda>_. ''[cut]'')\<rparr>"

definition quiet_io :: SpillIo where
  "quiet_io = \<lparr>io_create = True, io_wrap = 0, io_front = None, io_back = None, io_chunk = None\<rparr>"

definition printed :: "rstr \<Rightarrow> nat \<Rightarrow> char \<Rightarrow> RingBuffer" where
  "printed path n c = ended_buffer path [Chunk quiet_io (replicate n c)] []"

definition tail_job :: JobState where
  "tail_job =
     \<lparr>js_kind = Background, js_command = ''make'', js_status = Completed, js_exit_code = Some 0, js_sandboxed = True,
      js_network = False, js_stdout = printed ''out.log'' 5850 CHR ''o'', js_stderr = printed ''err.log'' 6050 CHR ''e''\<rparr>"

lemma printed_small:
  "n \<le> JOB_BUFFER_BYTES \<Longrightarrow> rb_bytes (printed path n c) = replicate n c \<and> omitted_len (printed path n c) = 0"
  using buffer_named [OF ended_buffer_holds [of "[Chunk quiet_io (replicate n c)]" "[]" path]]
  by (simp add: printed_def live_bytes_def late_bytes_def omitted_len_def)

lemma printed_inline: "n \<le> SPILL_THRESHOLD_BYTES \<Longrightarrow> rb_spill (printed path n c) = Some (finish (new_spill path))"
  by (simp add: printed_def ended_buffer_def running_buffer_def live_step_def with_spill_def ring_push_def finish_spill_def
    offer_def new_spill_def)

lemma printed_spilled:
  assumes "SPILL_THRESHOLD_BYTES < n" "n \<le> SPILL_MAX_BYTES"
  shows "spill_info (printed path n c) = Some \<lparr>si_path = path, si_bytes = n, si_capped = (n = SPILL_MAX_BYTES)\<rparr>"
  using assms
  by (auto simp: printed_def ended_buffer_def running_buffer_def live_step_def with_spill_def ring_push_def finish_spill_def
    offer_def new_spill_def spill_info_def info_def finish_def quiet_io_def spill_write_def Let_def)

lemma newline_ended_replicate: "0 < n \<Longrightarrow> c \<noteq> NL \<Longrightarrow> newline_ended (s @ replicate n c) = s @ replicate n c @ [NL]"
proof -
  assume n: "0 < n" and c: "c \<noteq> NL"
  from n obtain m where m: "replicate n c = replicate m c @ [c]"
    by (cases n) (simp_all add: replicate_append_same)
  have "\<not> suffix [NL] ((s @ replicate m c) @ [c])" using c by (auto simp: suffix_def)
  then show ?thesis by (simp add: newline_ended_def ends_with_iff m)
qed

lemma tail_chars_replicate: "tail_chars (replicate n c) m = replicate (min n m) c"
  by (simp add: tail_chars_def min_def)

lemma tail_job_notes:
  "case job_text_snapshot (\<lambda>bs. bs) tail_texts ''job_1'' tail_job 5900 of (job', r) \<Rightarrow>
     sx_notes r = [CompleteSaved ''stderr'' \<lparr>si_path = ''err.log'', si_bytes = 6050, si_capped = False\<rparr>] \<and>
     snapshot_text tail_texts r =
       ''job_1 (background) completed: make'' @ [NL] @ ''[stdout]'' @ [NL] @ replicate 5850 CHR ''o'' @ [NL] @
       ''[stderr]'' @ [NL] @ replicate 5900 CHR ''e'' @ [NL] @ replicate 200 CHR ''n'' @ [NL] \<and>
     spill_info (js_stdout job') = None"
proof -
  have o: "rb_bytes (js_stdout tail_job) = replicate 5850 CHR ''o''" "omitted_len (js_stdout tail_job) = 0"
    "spill_info (js_stdout tail_job) = None"
    using printed_small [of 5850 "''out.log''" "CHR ''o''"] printed_inline [of 5850 "''out.log''" "CHR ''o''"]
    by (simp_all add: tail_job_def JOB_BUFFER_BYTES_def SPILL_THRESHOLD_BYTES_def TOOL_OUTPUT_BUDGET_def
      SPILL_FRAMING_RESERVE_def spill_info_def info_def finish_def new_spill_def)
  have e: "rb_bytes (js_stderr tail_job) = replicate 6050 CHR ''e''"
    "spill_info (js_stderr tail_job) = Some \<lparr>si_path = ''err.log'', si_bytes = 6050, si_capped = False\<rparr>"
    using printed_small [of 6050 "''err.log''" "CHR ''e''"] printed_spilled [of 6050 "''err.log''" "CHR ''e''"]
    by (simp_all add: tail_job_def JOB_BUFFER_BYTES_def SPILL_THRESHOLD_BYTES_def TOOL_OUTPUT_BUDGET_def
      SPILL_FRAMING_RESERVE_def SPILL_MAX_BYTES_def)
  have b: "snapshot_body (\<lambda>bs. bs) tail_texts ''job_1'' tail_job 5900 =
    ''job_1 (background) completed: make'' @ [NL] @ ''[stdout]'' @ [NL] @ replicate 5850 CHR ''o'' @ [NL] @
    ''[stderr]'' @ [NL] @ replicate 5900 CHR ''e'' @ [NL]"
    using newline_ended_replicate [of 5850 "CHR ''o''" "''[stdout]'' @ [NL]"]
      newline_ended_replicate [of 5900 "CHR ''e''" "''[stderr]'' @ [NL]"]
    by (simp add: snapshot_body_def Let_def o e tail_chars_replicate) (simp add: tail_texts_def tail_job_def)
  have d: "denial_note (\<lambda>bs. bs) tail_job = None" by (simp add: denial_note_def tail_job_def)
  have n1: "stream_note (\<lambda>bs. bs) 5900 False ''stdout'' (js_stdout tail_job) = (js_stdout tail_job, [], False)"
    by (simp add: stream_note_def o)
  obtain rb' where n2: "stream_note (\<lambda>bs. bs) 5900 False ''stderr'' (js_stderr tail_job) =
      (rb', [CompleteSaved ''stderr'' \<lparr>si_path = ''err.log'', si_bytes = 6050, si_capped = False\<rparr>], False)"
    using e by (auto simp: stream_note_def Let_def spill_info_reported_def spill_info_def split: option.splits)
  show ?thesis
    by (simp add: job_text_snapshot_def rendered_with_pending_denial_def d truncation_note_def n1 n2 b TOOL_OUTPUT_BUDGET_def
      snapshot_text_def o) (simp add: tail_texts_def)
qed

lemma tail_drops_unnamed:
  "case job_text_snapshot (\<lambda>bs. bs) tail_texts ''job_1'' tail_job 5900 of (job', r) \<Rightarrow>
     list_all (\<lambda>l. case l of CompleteSaved label _ \<Rightarrow> label = ''stderr'' | _ \<Rightarrow> False) (sx_notes r) \<and>
     spill_info (js_stdout job') = None \<and>
     length (filter (\<lambda>c. c = CHR ''o'') (bounded_output tail_texts (snapshot_text tail_texts r))) < 5850"
proof -
  obtain job' r where jr: "job_text_snapshot (\<lambda>bs. bs) tail_texts ''job_1'' tail_job 5900 = (job', r)"
    by (cases "job_text_snapshot (\<lambda>bs. bs) tail_texts ''job_1'' tail_job 5900")
  define a :: rstr where "a = ''job_1 (background) completed: make'' @ [NL] @ ''[stdout]'' @ [NL]"
  define b :: rstr where "b = [NL] @ ''[stderr]'' @ [NL]"
  define c :: rstr where "c = [NL] @ replicate 200 CHR ''n'' @ [NL]"
  have t: "snapshot_text tail_texts r = (a @ replicate 5850 CHR ''o'' @ b) @ replicate 5900 CHR ''e'' @ c"
    using tail_job_notes by (simp add: jr a_def b_def c_def)
  have len: "length (a @ replicate 5850 CHR ''o'' @ b) = 5904" "length c = 202"
    by (simp_all add: a_def b_def c_def)
  have total_len: "length (snapshot_text tail_texts r) = 12006" using len by (simp add: t)
  have "drop 8006 (snapshot_text tail_texts r) = drop 2102 (replicate 5900 CHR ''e'' @ c)"
    using len(1) by (simp only: t drop_append) simp
  also have "\<dots> = replicate 3798 CHR ''e'' @ c" by simp
  finally have tl: "drop 8006 (snapshot_text tail_texts r) = replicate 3798 CHR ''e'' @ c" .
  have "bounded_output tail_texts (snapshot_text tail_texts r) =
      take 4000 (snapshot_text tail_texts r) @ ''[cut]'' @ replicate 3798 CHR ''e'' @ c"
    using total_len tl
    by (simp add: bounded_output_def clip_text_def TOOL_OUTPUT_BUDGET_def TOOL_OUTPUT_HEAD_def TOOL_OUTPUT_TAIL_def
      tail_texts_def)
  moreover have "length (filter (\<lambda>c. c = CHR ''o'') (take 4000 (snapshot_text tail_texts r))) \<le> 4000"
    by (rule order_trans [OF length_filter_le]) simp
  ultimately have "length (filter (\<lambda>c. c = CHR ''o'') (bounded_output tail_texts (snapshot_text tail_texts r))) < 5850"
    by (simp add: c_def)
  then show ?thesis using tail_job_notes by (simp add: jr)
qed

section \<open>A small run\<close>

definition small_job :: JobState where
  "small_job =
     \<lparr>js_kind = Foreground, js_command = ''make'', js_status = Completed, js_exit_code = Some 0, js_sandboxed = True,
      js_network = False, js_stdout = printed ''out.log'' 3 CHR ''o'', js_stderr = printed ''err.log'' 2 CHR ''e''\<rparr>"


end
