(* ===== verification/Shell_Run.thy ===== *)
theory Shell_Run
  imports Job_Output Tool_Registry
begin

text \<open>
  Running a command line, \<^verbatim>\<open>shell_tools.rs\<close> and the manager of \<^verbatim>\<open>sandbox/mod.rs\<close>: the steps a line becomes under
  the authority it runs by, the spawning of one process inside the sandbox or not at all, the sequence with
  the shell's rules for \<^verbatim>\<open>&&\<close> and \<^verbatim>\<open>;\<close>, and the two callers, the foreground tool and the start of a job.

  The host is a parameter: whether a backend is there, whether a command can be wrapped and started, how each
  step ends and what it prints.
\<close>

section \<open>From a line to steps\<close>

datatype StepForm = Text rstr | Argv "rstr list"

record Step =
  st_form :: StepForm
  st_run_if :: RunIf

definition steps_for :: "bool \<Rightarrow> rstr \<Rightarrow> RunAuthority \<Rightarrow> Step list option" where
  "steps_for win command authority =
     (case authority of
        ByApproval \<Rightarrow> Some [\<lparr>st_form = Text command, st_run_if = Always\<rparr>]
      | ByParse \<Rightarrow> map_option (map (\<lambda>parsed. \<lparr>st_form = Argv (argv parsed), st_run_if = run_if parsed\<rparr>))
                   (parse_unattended win command))"

section \<open>Spawning one process\<close>

text \<open>The manager: confinement forced on or off, or left to what the host has.\<close>

type_synonym SandboxManager = "bool option"

definition policy_should_sandbox :: "SandboxPolicy \<Rightarrow> bool" where
  "policy_should_sandbox policy = (policy \<noteq> Unsandboxed)"

definition has_network_access :: "SandboxPolicy \<Rightarrow> bool" where
  "has_network_access policy = (policy = WorkspaceWrite True)"

definition without_confinement :: SandboxManager where
  "without_confinement = Some False"

definition should_sandbox :: "SandboxManager \<Rightarrow> SandboxPolicy \<Rightarrow> bool \<Rightarrow> bool" where
  "should_sandbox forced policy available =
     (if \<not> policy_should_sandbox policy then False
      else case forced of Some b \<Rightarrow> b | None \<Rightarrow> available)"

definition refuse_bare_execution :: "bool \<Rightarrow> bool option \<Rightarrow> bool \<Rightarrow> bool" where
  "refuse_bare_execution policy_wants_sandbox forced available = (policy_wants_sandbox \<and> forced = None \<and> \<not> available)"

definition sandbox_unavailable_for :: "SandboxManager \<Rightarrow> SandboxPolicy \<Rightarrow> bool \<Rightarrow> bool" where
  "sandbox_unavailable_for forced policy available = refuse_bare_execution (policy_should_sandbox policy) forced available"

definition SUBPROCESS_SECRET_ENV :: "rstr list" where
  "SUBPROCESS_SECRET_ENV = [''DEEPSEEK_API_KEY'', ''DEEP_CODE_RUNTIME_TOKEN'']"

definition SUBPROCESS_INJECTION_ENV :: "rstr list" where
  "SUBPROCESS_INJECTION_ENV = [''LD_PRELOAD'', ''LD_AUDIT'', ''DYLD_INSERT_LIBRARIES'', ''BASH_ENV'', ''ENV'']"

definition scrub_secret_env :: "(rstr \<times> rstr) list \<Rightarrow> (rstr \<times> rstr) list" where
  "scrub_secret_env vars = filter (\<lambda>(name, _). name \<notin> set (SUBPROCESS_SECRET_ENV @ SUBPROCESS_INJECTION_ENV)) vars"

definition sandbox_roots :: "WorkspacePolicy \<Rightarrow> path list \<Rightarrow> SandboxPolicy \<Rightarrow> path list" where
  "sandbox_roots root caches policy =
     (if has_network_access policy
      then fold (\<lambda>cache roots. if cache \<in> set roots then roots else roots @ [cache]) caches (granted_roots root)
      else granted_roots root)"

text \<open>What a started process is: its form, its directory, whether it is confined, the roots it may write and
  whether it has the network when it is, its environment.\<close>

record Process =
  pr_form :: StepForm
  pr_cwd :: path
  pr_confined :: bool
  pr_roots :: "path list"
  pr_network :: bool
  pr_env :: "(rstr \<times> rstr) list"

datatype SpawnError = RefusedBare | ConfineFailed | StartFailed

datatype StepEnd = Exited "int option" | WaitFailed | CancelSeen | DeadlineReached

record Host =
  h_available :: bool
  h_wraps :: "StepForm \<Rightarrow> bool"
  h_starts :: "nat \<Rightarrow> bool"
  h_end :: "nat \<Rightarrow> StepEnd"
  h_env :: "(rstr \<times> rstr) list"

definition spawn_confined ::
  "Host \<Rightarrow> SandboxManager \<Rightarrow> path list \<Rightarrow> path \<Rightarrow> SandboxPolicy \<Rightarrow> nat \<Rightarrow> StepForm \<Rightarrow> SpawnError + Process" where
  "spawn_confined host forced roots cwd policy i form =
     (if sandbox_unavailable_for forced policy (h_available host) then Inl RefusedBare
      else if should_sandbox forced policy (h_available host) \<and> \<not> h_wraps host form then Inl ConfineFailed
      else if \<not> h_starts host i then Inl StartFailed
      else Inr \<lparr>pr_form = form, pr_cwd = cwd, pr_confined = should_sandbox forced policy (h_available host), pr_roots = roots,
              pr_network = has_network_access policy, pr_env = scrub_secret_env (h_env host)\<rparr>)"

section \<open>The sequence\<close>

datatype RunError = SpawnFailed SpawnError | WaitForFailed

text \<open>\<open>sq_tried\<close> are the steps whose process was asked for, with what came of it, in order, \<open>sq_said\<close> the errors
  written to the run's stderr. A step is known by its place in the line.\<close>

record Sequence =
  sq_outcome :: "JobStatus \<times> int option"
  sq_previous :: bool
  sq_tried :: "((nat \<times> Step) \<times> (SpawnError + Process)) list"
  sq_said :: "SpawnError list"

definition start_sequence :: Sequence where
  "start_sequence = \<lparr>sq_outcome = (Completed, Some 0), sq_previous = True, sq_tried = [], sq_said = []\<rparr>"

definition exit_status :: "int option \<Rightarrow> JobStatus \<times> int option" where
  "exit_status code = (if code = Some 0 then Completed else Failed, code)"

fun run_sequence ::
  "(nat \<Rightarrow> StepForm \<Rightarrow> SpawnError + Process) \<Rightarrow> (nat \<Rightarrow> StepEnd) \<Rightarrow> bool \<Rightarrow> (nat \<times> Step) list \<Rightarrow> Sequence \<Rightarrow>
   Sequence \<times> RunError option" where
  "run_sequence spawn ends alone [] sq = (sq, None)"
| "run_sequence spawn ends alone ((i, step) # steps) sq =
     (if st_run_if step = PreviousSucceeded \<and> \<not> sq_previous sq then run_sequence spawn ends alone steps sq
      else
        (let spawned = spawn i (st_form step);
             sq = sq\<lparr>sq_tried := sq_tried sq @ [((i, step), spawned)]\<rparr>
         in case spawned of
              Inl e \<Rightarrow>
                if alone then (sq, Some (SpawnFailed e))
                else run_sequence spawn ends alone steps
                       (sq\<lparr>sq_outcome := (Failed, Some 127), sq_previous := False, sq_said := sq_said sq @ [e]\<rparr>)
            | Inr _ \<Rightarrow>
                (case ends i of
                   WaitFailed \<Rightarrow> (sq, Some WaitForFailed)
                 | Exited code \<Rightarrow>
                     run_sequence spawn ends alone steps
                       (sq\<lparr>sq_outcome := exit_status code, sq_previous := (code = Some 0)\<rparr>)
                 | CancelSeen \<Rightarrow> (sq\<lparr>sq_outcome := (JobCancelled, None), sq_previous := False\<rparr>, None)
                 | DeadlineReached \<Rightarrow> (sq\<lparr>sq_outcome := (TimedOut, None), sq_previous := False\<rparr>, None))))"

section \<open>The two tools\<close>

datatype ShellRefusal = CommandEmpty | CwdRefused PathRefusal | UnattendedUnparsable | StoreClosed | UnattendedChain
  | JobSpawnFailed SpawnError

text \<open>The foreground tool: what it refuses, or the sequence it ran.\<close>

definition shell_run ::
  "bool \<Rightarrow> Host \<Rightarrow> SandboxManager \<Rightarrow> file_system \<Rightarrow> location \<Rightarrow> WorkspacePolicy \<Rightarrow> path list \<Rightarrow> bool \<Rightarrow> ToolCx \<Rightarrow>
   rstr \<Rightarrow> rstr option \<Rightarrow> ShellRefusal + Sequence \<times> RunError option" where
  "shell_run win host forced fs at_dir root caches closed cx raw_command raw_cwd =
     (let command = trim raw_command in
      if command = [] then Inl CommandEmpty
      else case resolve_cwd fs at_dir root raw_cwd of
        Inl e \<Rightarrow> Inl (CwdRefused e)
      | Inr cwd \<Rightarrow>
          (case steps_for win command (cx_authority cx) of
             None \<Rightarrow> Inl UnattendedUnparsable
           | Some steps \<Rightarrow>
               if closed then Inl StoreClosed
               else Inr (run_sequence
                      (spawn_confined host forced (sandbox_roots root caches (sandbox_policy cx)) cwd (sandbox_policy cx))
                      (h_end host) (length steps = 1) (enumerate 0 steps) start_sequence)))"

definition job_start ::
  "bool \<Rightarrow> Host \<Rightarrow> SandboxManager \<Rightarrow> file_system \<Rightarrow> location \<Rightarrow> WorkspacePolicy \<Rightarrow> path list \<Rightarrow> bool \<Rightarrow> ToolCx \<Rightarrow>
   rstr \<Rightarrow> rstr option \<Rightarrow> ShellRefusal + Process" where
  "job_start win host forced fs at_dir root caches closed cx raw_command raw_cwd =
     (let command = trim raw_command in
      if command = [] then Inl CommandEmpty
      else case resolve_cwd fs at_dir root raw_cwd of
        Inl e \<Rightarrow> Inl (CwdRefused e)
      | Inr cwd \<Rightarrow>
          (case steps_for win command (cx_authority cx) of
             None \<Rightarrow> Inl UnattendedUnparsable
           | Some steps \<Rightarrow>
               (case steps of
                  [step] \<Rightarrow>
                    if closed then Inl StoreClosed
                    else (case spawn_confined host forced (sandbox_roots root caches (sandbox_policy cx)) cwd
                                 (sandbox_policy cx) 0 (st_form step) of
                            Inl e \<Rightarrow> Inl (JobSpawnFailed e)
                          | Inr p \<Rightarrow> Inr p)
                | _ \<Rightarrow> Inl UnattendedChain)))"

section \<open>A sequence runs as the shell would run the line\<close>

text \<open>The reference: a line is a list of chains joined by \<^verbatim>\<open>;\<close>, and of a chain joined by \<^verbatim>\<open>&&\<close> runs every command up to
  the first that fails.\<close>

fun until_failure :: "('a \<Rightarrow> bool) \<Rightarrow> 'a list \<Rightarrow> 'a list" where
  "until_failure ok [] = []"
| "until_failure ok (x # xs) = x # (if ok x then until_failure ok xs else [])"

function chains :: "(nat \<times> Step) list \<Rightarrow> (nat \<times> Step) list list" where
  "chains [] = []"
| "chains (x # xs) =
     (x # takeWhile (\<lambda>y. st_run_if (snd y) = PreviousSucceeded) xs) #
     chains (dropWhile (\<lambda>y. st_run_if (snd y) = PreviousSucceeded) xs)"
  by pat_completeness auto
termination by (relation "measure length") (auto simp: le_imp_less_Suc length_dropWhile_le)

declare chains.simps(2) [simp del]

definition step_ok :: "(nat \<Rightarrow> StepForm \<Rightarrow> SpawnError + Process) \<Rightarrow> (nat \<Rightarrow> StepEnd) \<Rightarrow> nat \<times> Step \<Rightarrow> bool" where
  "step_ok spawn ends x =
     (case spawn (fst x) (st_form (snd x)) of Inl _ \<Rightarrow> False | Inr _ \<Rightarrow> ends (fst x) = Exited (Some 0))"

text \<open>A step that ends the whole run: a lone command that cannot start, a wait that fails, a cancel, the deadline.\<close>

definition goes_on :: "(nat \<Rightarrow> StepForm \<Rightarrow> SpawnError + Process) \<Rightarrow> (nat \<Rightarrow> StepEnd) \<Rightarrow> bool \<Rightarrow> nat \<times> Step \<Rightarrow> bool" where
  "goes_on spawn ends alone x =
     (case spawn (fst x) (st_form (snd x)) of
        Inl _ \<Rightarrow> \<not> alone
      | Inr _ \<Rightarrow> (case ends (fst x) of Exited _ \<Rightarrow> True | _ \<Rightarrow> False))"

definition shell_order :: "(nat \<times> Step \<Rightarrow> bool) \<Rightarrow> (nat \<times> Step) list \<Rightarrow> (nat \<times> Step) list" where
  "shell_order ok steps = concat (map (until_failure ok) (chains steps))"

text \<open>The order of a line whose beginning was already run: what is left of its first chain is skipped after a
  failure.\<close>

definition order_after :: "bool \<Rightarrow> (nat \<times> Step \<Rightarrow> bool) \<Rightarrow> (nat \<times> Step) list \<Rightarrow> (nat \<times> Step) list" where
  "order_after previous ok steps =
     (if previous then until_failure ok (takeWhile (\<lambda>y. st_run_if (snd y) = PreviousSucceeded) steps) else []) @
     shell_order ok (dropWhile (\<lambda>y. st_run_if (snd y) = PreviousSucceeded) steps)"

lemma shell_order_Cons: "shell_order ok (x # xs) = x # order_after (ok x) ok xs"
  by (simp add: shell_order_def order_after_def chains.simps(2))

lemma order_after_Cons:
  "order_after previous ok (x # xs) =
     (if st_run_if (snd x) = PreviousSucceeded \<and> \<not> previous then order_after previous ok xs
      else x # order_after (ok x) ok xs)"
  by (cases "st_run_if (snd x)") (auto simp: order_after_def shell_order_Cons)

lemma order_after_start: "order_after True ok xs = shell_order ok xs"
  by (cases xs) (simp_all add: order_after_Cons shell_order_Cons, simp add: order_after_def shell_order_def)

definition end_of :: "(nat \<Rightarrow> StepForm \<Rightarrow> SpawnError + Process) \<Rightarrow> (nat \<Rightarrow> StepEnd) \<Rightarrow> nat \<times> Step \<Rightarrow> JobStatus \<times> int option" where
  "end_of spawn ends x =
     (case spawn (fst x) (st_form (snd x)) of
        Inl _ \<Rightarrow> (Failed, Some 127)
      | Inr _ \<Rightarrow>
          (case ends (fst x) of
             Exited code \<Rightarrow> exit_status code
           | CancelSeen \<Rightarrow> (JobCancelled, None)
           | DeadlineReached \<Rightarrow> (TimedOut, None)
           | WaitFailed \<Rightarrow> (Failed, None)))"

lemma run_sequence_order:
  "case run_sequence spawn ends alone steps sq of (sq', err) \<Rightarrow>
     (let tried = until_failure (goes_on spawn ends alone) (order_after (sq_previous sq) (step_ok spawn ends) steps) in
      sq_tried sq' = sq_tried sq @ map (\<lambda>x. (x, spawn (fst x) (st_form (snd x)))) tried \<and>
      (if err = None then sq_outcome sq' = (if tried = [] then sq_outcome sq else end_of spawn ends (last tried)) else True))"
proof (induction steps arbitrary: sq)
  case Nil
  then show ?case by (simp add: order_after_def shell_order_def)
next
  case (Cons x steps)
  obtain i step where x: "x = (i, step)" by (cases x)
  show ?case
  proof (cases "st_run_if step = PreviousSucceeded \<and> \<not> sq_previous sq")
    case True
    with Cons.IH [of sq] show ?thesis by (simp add: x order_after_Cons)
  next
    case runs: False
    let ?ok = "step_ok spawn ends" and ?go = "goes_on spawn ends alone"
    let ?sq = "sq\<lparr>sq_tried := sq_tried sq @ [((i, step), spawn i (st_form step))]\<rparr>"
    have ord: "order_after (sq_previous sq) ?ok (x # steps) = (i, step) # order_after (?ok (i, step)) ?ok steps"
      unfolding x by (subst order_after_Cons) (simp only: snd_conv runs if_False)
    have run: "run_sequence spawn ends alone (x # steps) sq =
      (case spawn i (st_form step) of
         Inl e \<Rightarrow> if alone then (?sq, Some (SpawnFailed e))
           else run_sequence spawn ends alone steps
             (?sq\<lparr>sq_outcome := (Failed, Some 127), sq_previous := False, sq_said := sq_said ?sq @ [e]\<rparr>)
       | Inr _ \<Rightarrow> (case ends i of
           WaitFailed \<Rightarrow> (?sq, Some WaitForFailed)
         | Exited code \<Rightarrow> run_sequence spawn ends alone steps (?sq\<lparr>sq_outcome := exit_status code, sq_previous := (code = Some 0)\<rparr>)
         | CancelSeen \<Rightarrow> (?sq\<lparr>sq_outcome := (JobCancelled, None), sq_previous := False\<rparr>, None)
         | DeadlineReached \<Rightarrow> (?sq\<lparr>sq_outcome := (TimedOut, None), sq_previous := False\<rparr>, None)))"
      unfolding x by (subst run_sequence.simps) (simp only: snd_conv runs if_False Let_def)
    show ?thesis
    proof (cases "spawn i (st_form step)")
      case (Inl e)
      have ok: "?ok (i, step) = False" "end_of spawn ends (i, step) = (Failed, Some 127)"
        by (simp_all add: step_ok_def end_of_def Inl)
      have go: "goes_on spawn ends al (i, step) = (\<not> al)" for al by (simp add: goes_on_def Inl)
      show ?thesis unfolding run ord
        using Cons.IH [of "?sq\<lparr>sq_outcome := (Failed, Some 127), sq_previous := False, sq_said := sq_said ?sq @ [e]\<rparr>"]
        by (cases alone) (simp_all add: ok go Inl Let_def split: prod.splits)
    next
      case (Inr p)
      show ?thesis
      proof (cases "\<exists>code. ends i = Exited code")
        case True
        then obtain code where Exited: "ends i = Exited code" by blast
        have ok: "?ok (i, step) = (code = Some 0)" "?go (i, step)" "end_of spawn ends (i, step) = exit_status code"
          by (simp_all add: step_ok_def goes_on_def end_of_def Inr Exited)
        show ?thesis
          using Cons.IH [of "?sq\<lparr>sq_outcome := exit_status code, sq_previous := (code = Some 0)\<rparr>"]
          by (simp add: run ord ok Inr Exited Let_def split: prod.splits)
      next
        case False
        have "\<not> ?go (i, step)" using False by (auto simp: goes_on_def Inr split: StepEnd.split)
        moreover have "end_of spawn ends (i, step) = (case ends i of Exited code \<Rightarrow> exit_status code
           | CancelSeen \<Rightarrow> (JobCancelled, None) | DeadlineReached \<Rightarrow> (TimedOut, None) | WaitFailed \<Rightarrow> (Failed, None))"
          by (simp add: end_of_def Inr)
        ultimately show ?thesis using False by (cases "ends i") (simp_all add: run ord Let_def Inr)
      qed
    qed
  qed
qed

lemma run_sequence_tried:
  assumes "run_sequence spawn ends alone steps start_sequence = (sq, err)"
  shows "sq_tried sq = map (\<lambda>x. (x, spawn (fst x) (st_form (snd x))))
    (until_failure (goes_on spawn ends alone) (shell_order (step_ok spawn ends) steps))"
  using run_sequence_order [where spawn = spawn and ends = ends and alone = alone and steps = steps and sq = start_sequence]
  unfolding assms by (simp add: start_sequence_def order_after_start Let_def)

text \<open>C38 (equivalence). A line runs command by command as a shell would run it, with no shell there: of every \<^verbatim>\<open>&&\<close> chain the
  commands up to the first that fails, chain after chain, cut short only by a cancel, the deadline, a failed
  wait or a lone command that cannot start; and the line ends as its last command did.\<close>

theorem run_follows_the_line:
  "case run_sequence spawn ends alone steps start_sequence of (sq, err) \<Rightarrow>
     (let tried = until_failure (goes_on spawn ends alone) (shell_order (step_ok spawn ends) steps) in
      map fst (sq_tried sq) = tried \<and>
      (if err = None then sq_outcome sq = (if tried = [] then (Completed, Some 0) else end_of spawn ends (last tried)) else True))"
  using run_sequence_order [where spawn = spawn and ends = ends and alone = alone and steps = steps and sq = start_sequence]
  by (auto simp: start_sequence_def order_after_start Let_def o_def split: prod.splits)

section \<open>What is started is what was judged, inside the sandbox\<close>

text \<open>A started process has the form the authority allows, runs confined wherever the plan wants it and
  confinement is not switched off, may write no more than the granted roots unless it has the network, and
  sees neither the secrets nor the variables that inject code.\<close>

definition process_ok :: "SandboxManager \<Rightarrow> SandboxPolicy \<Rightarrow> WorkspacePolicy \<Rightarrow> StepForm set \<Rightarrow> Process \<Rightarrow> bool" where
  "process_ok forced policy root forms p \<longleftrightarrow>
     pr_form p \<in> forms \<and>
     (if policy_should_sandbox policy \<and> forced \<noteq> Some False then pr_confined p else True) \<and>
     (if pr_network p then policy = WorkspaceWrite True else pr_roots p = granted_roots root) \<and>
     map_of (pr_env p) ''DEEPSEEK_API_KEY'' = None \<and> map_of (pr_env p) ''DEEP_CODE_RUNTIME_TOKEN'' = None \<and>
     map_of (pr_env p) ''LD_PRELOAD'' = None \<and> map_of (pr_env p) ''BASH_ENV'' = None"

text \<open>The forms a command may take: the text a person approved, or one command of the parse.\<close>

definition judged_forms :: "bool \<Rightarrow> ToolCx \<Rightarrow> rstr \<Rightarrow> StepForm set" where
  "judged_forms win cx raw_command =
     (case cx_authority cx of
        ByApproval \<Rightarrow> {Text (trim raw_command)}
      | ByParse \<Rightarrow> (case parse_unattended win (trim raw_command) of
          None \<Rightarrow> {}
        | Some parsed \<Rightarrow> Argv ` argv ` set parsed))"

lemma scrubbed: "name \<in> set (SUBPROCESS_SECRET_ENV @ SUBPROCESS_INJECTION_ENV) \<Longrightarrow> map_of (scrub_secret_env vars) name = None"
  by (auto simp: scrub_secret_env_def map_of_eq_None_iff)

lemma spawn_confined_ok:
  assumes "spawn_confined host forced (sandbox_roots root caches policy) cwd policy i form = Inr p" "form \<in> forms"
  shows "process_ok forced policy root forms p"
proof -
  have env: "map_of (pr_env p) name = None" if "name \<in> set (SUBPROCESS_SECRET_ENV @ SUBPROCESS_INJECTION_ENV)" for name
    using assms(1) scrubbed [OF that] by (auto simp: spawn_confined_def split: if_splits)
  have "pr_confined p" if "policy_should_sandbox policy" "forced \<noteq> Some False"
    using assms(1) that
    by (cases forced) (auto simp: spawn_confined_def sandbox_unavailable_for_def refuse_bare_execution_def should_sandbox_def
      split: if_splits)
  moreover have "pr_form p = form" "pr_network p = has_network_access policy" "pr_roots p = sandbox_roots root caches policy"
    using assms(1) by (auto simp: spawn_confined_def split: if_splits)
  ultimately show ?thesis using assms(2) env
    by (simp add: process_ok_def has_network_access_def sandbox_roots_def SUBPROCESS_SECRET_ENV_def SUBPROCESS_INJECTION_ENV_def)
qed

lemma steps_for_forms:
  "steps_for win (trim raw) (cx_authority cx) = Some steps \<Longrightarrow> st_form ` set steps \<subseteq> judged_forms win cx raw"
  by (auto simp: steps_for_def judged_forms_def split: RunAuthority.splits)

lemma shell_order_set: "set (shell_order ok steps) \<subseteq> set steps"
proof (induction steps rule: chains.induct)
  case (2 x xs)
  have u: "set (until_failure ok ys) \<subseteq> set ys" for ys by (induction ys) auto
  from 2 u [of "x # takeWhile (\<lambda>y. st_run_if (snd y) = PreviousSucceeded) xs"]
    set_takeWhileD [of _ "\<lambda>y. st_run_if (snd y) = PreviousSucceeded" xs]
    set_dropWhileD [of _ "\<lambda>y. st_run_if (snd y) = PreviousSucceeded" xs]
  show ?case by (fastforce simp: shell_order_def chains.simps(2))
qed (simp add: shell_order_def)

lemma until_failure_set: "set (until_failure ok xs) \<subseteq> set xs"
  by (induction xs) auto

text \<open>C31 (safety). What a call of the shell tool starts, however the host behaves: only forms the authority allows, each
  confined. Under the parse authority no shell text is ever started. A background job is one such process.\<close>

theorem started_as_judged:
  "(case shell_run win host forced fs at_dir root caches closed cx raw_command raw_cwd of
      Inl _ \<Rightarrow> True
    | Inr (sq, _) \<Rightarrow>
        list_all (\<lambda>(_, spawned). case spawned of
            Inl _ \<Rightarrow> True
          | Inr p \<Rightarrow> process_ok forced (sandbox_policy cx) root (judged_forms win cx raw_command) p) (sq_tried sq)) \<and>
   (case job_start win host forced fs at_dir root caches closed cx raw_command raw_cwd of
      Inl _ \<Rightarrow> True
    | Inr p \<Rightarrow> process_ok forced (sandbox_policy cx) root (judged_forms win cx raw_command) p)"
proof
  let ?roots = "sandbox_roots root caches (sandbox_policy cx)"
  let ?ok = "process_ok forced (sandbox_policy cx) root (judged_forms win cx raw_command)"
  show "case shell_run win host forced fs at_dir root caches closed cx raw_command raw_cwd of
      Inl _ \<Rightarrow> True
    | Inr (sq, _) \<Rightarrow> list_all (\<lambda>(_, spawned). case spawned of Inl _ \<Rightarrow> True | Inr p \<Rightarrow> ?ok p) (sq_tried sq)"
  proof (cases "shell_run win host forced fs at_dir root caches closed cx raw_command raw_cwd")
    case (Inr out)
    then obtain cwd steps where steps: "steps_for win (trim raw_command) (cx_authority cx) = Some steps"
      and out: "out = run_sequence (spawn_confined host forced ?roots cwd (sandbox_policy cx)) (h_end host)
        (length steps = 1) (enumerate 0 steps) start_sequence"
      by (auto simp: shell_run_def Let_def split: if_splits sum.splits option.splits)
    let ?spawn = "spawn_confined host forced ?roots cwd (sandbox_policy cx)"
    obtain sq err where sq: "out = (sq, err)" by (cases out)
    let ?tried = "until_failure (goes_on ?spawn (h_end host) (length steps = 1))
      (shell_order (step_ok ?spawn (h_end host)) (enumerate 0 steps))"
    have t: "sq_tried sq = map (\<lambda>x. (x, ?spawn (fst x) (st_form (snd x)))) ?tried"
      by (rule run_sequence_tried [OF out [unfolded sq, symmetric]])
    have form: "st_form (snd x) \<in> judged_forms win cx raw_command" if "x \<in> set ?tried" for x
    proof -
      have "x \<in> set (enumerate 0 steps)" by (rule subsetD [OF shell_order_set subsetD [OF until_failure_set that]])
      then have "snd x \<in> set steps" by (auto simp: in_set_enumerate_eq dest: nth_mem)
      with steps_for_forms [OF steps] show ?thesis by blast
    qed
    have "case ?spawn (fst x) (st_form (snd x)) of Inl _ \<Rightarrow> True | Inr p \<Rightarrow> ?ok p" if "x \<in> set ?tried" for x
      using spawn_confined_ok [OF _ form [OF that]] by (auto split: sum.split)
    then show ?thesis by (simp add: Inr sq t list_all_iff del: until_failure.simps)
  qed simp
  show "case job_start win host forced fs at_dir root caches closed cx raw_command raw_cwd of Inl _ \<Rightarrow> True | Inr p \<Rightarrow> ?ok p"
  proof (cases "job_start win host forced fs at_dir root caches closed cx raw_command raw_cwd")
    case (Inr p)
    then obtain cwd step where "steps_for win (trim raw_command) (cx_authority cx) = Some [step]"
      "spawn_confined host forced ?roots cwd (sandbox_policy cx) 0 (st_form step) = Inr p"
      by (auto simp: job_start_def Let_def split: if_splits sum.splits option.splits list.splits)
    with steps_for_forms [of win raw_command cx "[step]"] spawn_confined_ok show ?thesis by (simp add: Inr)
  qed simp
qed

end
