(* ===== verification/Job_Store.thy ===== *)
theory Job_Store
  imports Job_Output
begin

text \<open>
  The store of shell jobs, \<^verbatim>\<open>shell_tools/jobs.rs\<close>: which records it keeps, what it kills and when, and the
  gate that keeps a restore of the workspace and the start of a process apart. Operations are functions on
  the store; what may happen in which order is a step relation.

  The number of a job stands for its id \<^verbatim>\<open>job_<n>\<close>. A process and its group are one flag, \<open>je_alive\<close>: a
  descendant that leaves the group is outside the model, as it is outside the code's reach.
\<close>

section \<open>The store and its operations\<close>

definition MAX_RETAINED_JOBS :: nat where "MAX_RETAINED_JOBS = 32"

record JobEntry =
  je_kind :: JobKind
  je_status :: JobStatus
  je_child :: bool
  je_alive :: bool
  je_exit :: "int option"

datatype SpawnGate = GateFree | GateSpawning | GateRestoring

record JobStore =
  jb_next :: nat
  jb_jobs :: "(nat \<times> JobEntry) list"
  jb_closed :: bool
  jb_gate :: SpawnGate

definition new_job_store :: JobStore where
  "new_job_store = \<lparr>jb_next = 0, jb_jobs = [], jb_closed = False, jb_gate = GateFree\<rparr>"

definition kill_process_tree :: "JobEntry \<Rightarrow> JobEntry" where
  "kill_process_tree e = e\<lparr>je_alive := False\<rparr>"

definition kill_if_running :: "JobEntry \<Rightarrow> JobEntry" where
  "kill_if_running e =
     (if je_status e = Running \<and> je_child e then (kill_process_tree e)\<lparr>je_status := JobCancelled\<rparr> else e)"

definition reserve_id :: "JobStore \<Rightarrow> nat \<times> JobStore" where
  "reserve_id st = (jb_next st + 1, st\<lparr>jb_next := jb_next st + 1\<rparr>)"

definition evict_finished_jobs :: "(nat \<times> JobEntry) list \<Rightarrow> (nat \<times> JobEntry) list" where
  "evict_finished_jobs jobs =
     (if length jobs \<le> MAX_RETAINED_JOBS then jobs
      else
        (let excess = length jobs - MAX_RETAINED_JOBS;
             finished = sort (map fst (filter (\<lambda>(_, e). je_status e \<noteq> Running) jobs));
             gone = take excess finished
         in filter (\<lambda>(n, _). n \<notin> set gone) jobs))"

definition insert_with_id :: "nat \<Rightarrow> JobEntry \<Rightarrow> JobStore \<Rightarrow> JobStore" where
  "insert_with_id n e st =
     (let e = (if jb_closed st then kill_if_running e else e)
      in st\<lparr>jb_jobs := evict_finished_jobs (filter (\<lambda>(m, _). m \<noteq> n) (jb_jobs st) @ [(n, e)])\<rparr>)"

definition get_job :: "nat \<Rightarrow> JobStore \<Rightarrow> JobEntry option" where
  "get_job n st = map_of (jb_jobs st) n"

definition update_job :: "nat \<Rightarrow> (JobEntry \<Rightarrow> JobEntry) \<Rightarrow> JobStore \<Rightarrow> JobStore" where
  "update_job n f st = st\<lparr>jb_jobs := map (\<lambda>(m, e). (m, if m = n then f e else e)) (jb_jobs st)\<rparr>"

definition shutdown :: "JobStore \<Rightarrow> JobStore" where
  "shutdown st = st\<lparr>jb_closed := True, jb_jobs := map (\<lambda>(m, e). (m, kill_if_running e)) (jb_jobs st)\<rparr>"

text \<open>What \<^verbatim>\<open>try_wait\<close> says of the child: nothing yet, or its exit code.\<close>

definition refresh_job :: "int option option \<Rightarrow> JobEntry \<Rightarrow> JobEntry" where
  "refresh_job waited e =
     (if je_status e \<noteq> Running then e
      else if \<not> je_child e then e
      else case waited of
        None \<Rightarrow> e
      | Some code \<Rightarrow> (kill_process_tree e)\<lparr>je_exit := code, je_status := (if code = Some 0 then Completed else Failed),
                     je_child := False\<rparr>)"

text \<open>Cancelling: the kill under the lock, and after the child was waited for the status.\<close>

definition cancel_begin :: "JobEntry \<Rightarrow> JobEntry" where
  "cancel_begin e = (if je_status e \<noteq> Running then e else (kill_process_tree e)\<lparr>je_child := False\<rparr>)"

definition cancel_end :: "int option \<Rightarrow> JobEntry \<Rightarrow> JobEntry" where
  "cancel_end code e = e\<lparr>je_exit := code, je_status := JobCancelled\<rparr>"

definition abandon_job :: "JobEntry \<Rightarrow> JobEntry" where
  "abandon_job e = e\<lparr>je_status := Failed, je_exit := None, je_alive := False\<rparr>"

definition begin_spawn :: "JobStore \<Rightarrow> JobStore option" where
  "begin_spawn st = (if jb_gate st \<noteq> GateFree \<or> jb_closed st then None else Some (st\<lparr>jb_gate := GateSpawning\<rparr>))"

definition refresh_all :: "(nat \<Rightarrow> int option option) \<Rightarrow> JobStore \<Rightarrow> JobStore" where
  "refresh_all waited st = st\<lparr>jb_jobs := map (\<lambda>(m, e). (m, refresh_job (waited m) e)) (jb_jobs st)\<rparr>"

definition idle_workspace :: "(nat \<Rightarrow> int option option) \<Rightarrow> JobStore \<Rightarrow> JobStore \<times> bool" where
  "idle_workspace waited st =
     (let st = refresh_all waited st in
      if list_ex (\<lambda>(_, e). je_status e = Running \<or> je_child e \<and> je_alive e) (jb_jobs st)
      then (st, False) else (st\<lparr>jb_gate := GateRestoring\<rparr>, True))"

definition background_entry :: JobEntry where
  "background_entry = \<lparr>je_kind = Background, je_status = Running, je_child = True, je_alive = True, je_exit = None\<rparr>"

definition foreground_entry :: JobEntry where
  "foreground_entry = \<lparr>je_kind = Foreground, je_status = Running, je_child = False, je_alive = True, je_exit = None\<rparr>"

section \<open>What the store keeps\<close>

lemma evict_sublist: "set (evict_finished_jobs jobs) \<subseteq> set jobs"
  by (auto simp: evict_finished_jobs_def Let_def)

lemma evict_keeps_running: "(n, e) \<in> set jobs \<Longrightarrow> distinct (map fst jobs) \<Longrightarrow> je_status e = Running \<Longrightarrow>
    (n, e) \<in> set (evict_finished_jobs jobs)"
  by (fastforce simp: evict_finished_jobs_def Let_def dest: in_set_takeD eq_key_imp_eq_value)

lemma evict_distinct: "distinct (map fst jobs) \<Longrightarrow> distinct (map fst (evict_finished_jobs jobs))"
  by (simp add: evict_finished_jobs_def Let_def distinct_map_filter)

text \<open>The records that go are finished and older than every finished one that stays.\<close>

lemma evict_oldest:
  assumes "distinct (map fst jobs)" "(n, e) \<in> set jobs" "(n, e) \<notin> set (evict_finished_jobs jobs)"
  shows "je_status e \<noteq> Running \<and>
    (\<forall>(m, e') \<in> set (evict_finished_jobs jobs). je_status e' \<noteq> Running \<longrightarrow> n < m)"
proof -
  let ?finished = "sort (map fst (filter (\<lambda>(_, e). je_status e \<noteq> Running) jobs))"
  let ?x = "length jobs - MAX_RETAINED_JOBS"
  have long: "\<not> length jobs \<le> MAX_RETAINED_JOBS" using assms(2,3) by (auto simp: evict_finished_jobs_def)
  then have ev: "evict_finished_jobs jobs = filter (\<lambda>(n, _). n \<notin> set (take ?x ?finished)) jobs"
    by (simp add: evict_finished_jobs_def Let_def)
  have gone: "n \<in> set (take ?x ?finished)" using assms(2,3) by (auto simp: ev)
  have "distinct ?finished" using assms(1) by (simp add: distinct_map_filter)
  have "n < m" if m: "(m, e') \<in> set (evict_finished_jobs jobs)" "je_status e' \<noteq> Running" for m e'
  proof -
    from m have "m \<in> set ?finished" "m \<notin> set (take ?x ?finished)" by (auto simp: ev image_iff)
    then have "m \<in> set (drop ?x ?finished)" by (metis UnE append_take_drop_id set_append)
    moreover have "sorted (take ?x ?finished @ drop ?x ?finished)" by simp
    ultimately have "n \<le> m" using gone unfolding sorted_append by blast
    then show ?thesis using gone \<open>m \<notin> set (take ?x ?finished)\<close> by (cases "n = m") auto
  qed
  moreover have "je_status e \<noteq> Running" using gone assms(2) eq_key_imp_eq_value [OF assms(1)] by (fastforce dest: in_set_takeD)
  ultimately show ?thesis by auto
qed

lemma evict_length:
  assumes "distinct (map fst jobs)"
  shows "length (evict_finished_jobs jobs) \<le>
    max MAX_RETAINED_JOBS (length (filter (\<lambda>(_, e). je_status e = Running) (evict_finished_jobs jobs)))"
proof (cases "length jobs \<le> MAX_RETAINED_JOBS")
  case True
  then show ?thesis by (simp add: evict_finished_jobs_def)
next
  case False
  let ?fin = "\<lambda>(_, e). je_status e \<noteq> Running"
  let ?finished = "sort (map fst (filter ?fin jobs))" and ?x = "length jobs - MAX_RETAINED_JOBS"
  have ev: "evict_finished_jobs jobs = filter (\<lambda>(n, _). n \<notin> set (take ?x ?finished)) jobs"
    using False by (simp add: evict_finished_jobs_def Let_def)
  show ?thesis
  proof (cases "length ?finished \<le> ?x")
    case True
    have "list_all (\<lambda>(_, e). je_status e = Running) (evict_finished_jobs jobs)"
      using True by (auto simp: ev list_all_iff image_iff)
    then have "filter (\<lambda>(_, e). je_status e = Running) (evict_finished_jobs jobs) = evict_finished_jobs jobs"
      by (auto simp: list_all_iff filter_id_conv)
    then show ?thesis by simp
  next
    case short: False
    have d: "distinct (take ?x ?finished)" using assms by (simp add: distinct_map_filter)
    have sub: "set (take ?x ?finished) \<subseteq> set (map fst jobs)" by (auto dest!: in_set_takeD)
    have "length (evict_finished_jobs jobs) = length (filter (\<lambda>n. n \<notin> set (take ?x ?finished)) (map fst jobs))"
      by (simp add: ev filter_map o_def case_prod_unfold)
    also have "\<dots> = card (set (map fst jobs) - set (take ?x ?finished))"
      using assms by (subst distinct_card [symmetric]) (auto intro: arg_cong [where f = card])
    also have "\<dots> = length jobs - ?x"
      using card_Diff_subset [OF _ sub] distinct_card [OF d] distinct_card [OF assms] short by simp
    finally show ?thesis using False by simp
  qed
qed

text \<open>Registering a job never loses one that still runs, keeps the records down to the limit as far as running
  jobs allow, and lets go of the oldest finished ones only.\<close>

theorem store_keeps_running_jobs:
  assumes "distinct (map fst (jb_jobs st))" "n \<notin> fst ` set (jb_jobs st)"
  shows "case insert_with_id n e st of st' \<Rightarrow>
    (\<forall>(m, e') \<in> set (jb_jobs st). je_status e' = Running \<longrightarrow> (m, e') \<in> set (jb_jobs st')) \<and>
    length (jb_jobs st') \<le> max MAX_RETAINED_JOBS (length (filter (\<lambda>(_, e'). je_status e' = Running) (jb_jobs st'))) \<and>
    (\<forall>(m, e') \<in> set (jb_jobs st) - set (jb_jobs st'). je_status e' \<noteq> Running \<and>
       (\<forall>(k, f) \<in> set (jb_jobs st'). je_status f \<noteq> Running \<longrightarrow> m < k))"
proof -
  define jobs where "jobs = jb_jobs st @ [(n, if jb_closed st then kill_if_running e else e)]"
  have d: "distinct (map fst jobs)" using assms by (auto simp: jobs_def)
  have "filter (\<lambda>(m, _). m \<noteq> n) (jb_jobs st) = jb_jobs st"
    using assms(2) by (auto simp: filter_id_conv image_iff)
  then have j: "jb_jobs (insert_with_id n e st) = evict_finished_jobs jobs" by (simp add: insert_with_id_def Let_def jobs_def)
  have "(m, e') \<in> set (evict_finished_jobs jobs)" if "(m, e') \<in> set (jb_jobs st)" "je_status e' = Running" for m e'
    using evict_keeps_running [OF _ d that(2)] that(1) by (simp add: jobs_def)
  moreover have "je_status e' \<noteq> Running \<and> (\<forall>(k, f) \<in> set (evict_finished_jobs jobs). je_status f \<noteq> Running \<longrightarrow> m < k)"
    if "(m, e') \<in> set (jb_jobs st) - set (evict_finished_jobs jobs)" for m e'
    using evict_oldest [OF d, of m e'] that by (simp add: jobs_def)
  ultimately show ?thesis using evict_length [OF d] by (simp add: j) blast
qed

theorem store_keeps_running_jobs_witness:
  "(7, foreground_entry) \<in> set (jb_jobs (insert_with_id 8 background_entry (new_job_store\<lparr>jb_jobs := [(7, foreground_entry)]\<rparr>)))"
  using store_keeps_running_jobs [of "new_job_store\<lparr>jb_jobs := [(7, foreground_entry)]\<rparr>" 8 background_entry]
  by (simp add: new_job_store_def foreground_entry_def)

section \<open>What may happen, in any order\<close>

text \<open>One step of anything that touches the store. Calls of the shell and job tools of a session do not
  overlap, so a job is cancelled only when it runs in the background; a shutdown comes at any time, also
  between the start of a process and its registration.\<close>

inductive job_step :: "JobStore \<Rightarrow> JobStore \<Rightarrow> bool" where
  spawn_begins: "begin_spawn st = Some st' \<Longrightarrow> job_step st st'"
| spawn_fails: "jb_gate st = GateSpawning \<Longrightarrow> job_step st (st\<lparr>jb_gate := GateFree\<rparr>)"
| background_registers: "jb_gate st = GateSpawning \<Longrightarrow> reserve_id st = (n, st1) \<Longrightarrow>
    job_step st ((insert_with_id n background_entry st1)\<lparr>jb_gate := GateFree\<rparr>)"
| foreground_registers: "jb_gate st = GateSpawning \<Longrightarrow> reserve_id st = (n, st1) \<Longrightarrow>
    job_step st ((insert_with_id n foreground_entry st1)\<lparr>jb_gate := GateFree\<rparr>)"
| foreground_ends: "get_job n st = Some e \<Longrightarrow> je_kind e = Foreground \<Longrightarrow> je_status e = Running \<Longrightarrow> status \<noteq> Running \<Longrightarrow>
    job_step st (update_job n (\<lambda>e. e\<lparr>je_status := status, je_exit := code, je_alive := False\<rparr>) st)"
| foreground_abandoned: "get_job n st = Some e \<Longrightarrow> je_kind e = Foreground \<Longrightarrow> job_step st (update_job n abandon_job st)"
| refreshes: "job_step st (update_job n (refresh_job waited) st)"
| cancel_begins: "get_job n st = Some e \<Longrightarrow> je_kind e = Background \<Longrightarrow> job_step st (update_job n cancel_begin st)"
| cancel_ends: "get_job n st = Some e \<Longrightarrow> je_kind e = Background \<Longrightarrow> \<not> je_child e \<Longrightarrow>
    job_step st (update_job n (cancel_end code) st)"
| shuts_down: "job_step st (shutdown st)"
| restore_asks: "jb_gate st = GateFree \<Longrightarrow> job_step st (fst (idle_workspace waited st))"
| restore_ends: "jb_gate st = GateRestoring \<Longrightarrow> job_step st (st\<lparr>jb_gate := GateFree\<rparr>)"

text \<open>A process that lives belongs to a running job, and one in the background to a handle the store can kill
  it by. A closed store has no living background process; while the workspace is restored nothing runs.\<close>

definition entry_ok :: "JobEntry \<Rightarrow> bool" where
  "entry_ok e \<longleftrightarrow> (if je_alive e then je_status e = Running \<and> (je_kind e = Background \<longrightarrow> je_child e) else True)"

definition store_ok :: "JobStore \<Rightarrow> bool" where
  "store_ok st \<longleftrightarrow>
     (\<forall>(n, e) \<in> set (jb_jobs st). entry_ok e \<and> n \<le> jb_next st \<and>
        (jb_closed st \<and> je_kind e = Background \<longrightarrow> \<not> je_alive e) \<and>
        (jb_gate st = GateRestoring \<longrightarrow> je_status e \<noteq> Running)) \<and>
     distinct (map fst (jb_jobs st))"

lemma store_okI:
  assumes "\<And>n e. (n, e) \<in> set (jb_jobs st) \<Longrightarrow> entry_ok e \<and> n \<le> jb_next st \<and>
        (jb_closed st \<and> je_kind e = Background \<longrightarrow> \<not> je_alive e) \<and>
        (jb_gate st = GateRestoring \<longrightarrow> je_status e \<noteq> Running)"
    and "distinct (map fst (jb_jobs st))"
  shows "store_ok st"
  using assms by (auto simp: store_ok_def)

lemma store_okD:
  assumes "store_ok st" "(n, e) \<in> set (jb_jobs st)"
  shows "entry_ok e" "n \<le> jb_next st" "jb_closed st \<Longrightarrow> je_kind e = Background \<Longrightarrow> \<not> je_alive e"
    "jb_gate st = GateRestoring \<Longrightarrow> je_status e \<noteq> Running"
  using assms by (auto simp: store_ok_def)

text \<open>An operation on records that neither starts nor revives anything keeps the store well formed.\<close>

lemma store_ok_map:
  assumes ok: "store_ok st"
    and f: "\<And>n e. (n, e) \<in> set (jb_jobs st) \<Longrightarrow> entry_ok e \<Longrightarrow>
      entry_ok (f n e) \<and> je_kind (f n e) = je_kind e \<and> (je_alive (f n e) \<longrightarrow> je_alive e) \<and>
      (je_status (f n e) = Running \<longrightarrow> je_status e = Running)"
  shows "store_ok (st\<lparr>jb_jobs := map (\<lambda>(n, e). (n, f n e)) (jb_jobs st)\<rparr>)"
proof (rule store_okI)
  show "distinct (map fst (jb_jobs (st\<lparr>jb_jobs := map (\<lambda>(n, e). (n, f n e)) (jb_jobs st)\<rparr>)))"
    using ok by (simp add: store_ok_def o_def case_prod_unfold)
next
  fix n e'
  assume "(n, e') \<in> set (jb_jobs (st\<lparr>jb_jobs := map (\<lambda>(n, e). (n, f n e)) (jb_jobs st)\<rparr>))"
  then obtain e where e: "(n, e) \<in> set (jb_jobs st)" "e' = f n e" by auto
  with store_okD [OF ok e(1)] f [OF e(1)]
  show "entry_ok e' \<and> n \<le> jb_next (st\<lparr>jb_jobs := map (\<lambda>(n, e). (n, f n e)) (jb_jobs st)\<rparr>) \<and>
      (jb_closed (st\<lparr>jb_jobs := map (\<lambda>(n, e). (n, f n e)) (jb_jobs st)\<rparr>) \<and> je_kind e' = Background \<longrightarrow> \<not> je_alive e') \<and>
      (jb_gate (st\<lparr>jb_jobs := map (\<lambda>(n, e). (n, f n e)) (jb_jobs st)\<rparr>) = GateRestoring \<longrightarrow> je_status e' \<noteq> Running)"
    by auto
qed

lemma update_job_map: "update_job n f st = st\<lparr>jb_jobs := map (\<lambda>(m, e). (m, (if m = n then f e else e))) (jb_jobs st)\<rparr>"
  by (simp add: update_job_def)

lemma store_ok_update:
  assumes "store_ok st"
    and "\<And>e. get_job n st = Some e \<Longrightarrow> entry_ok e \<Longrightarrow>
      entry_ok (f e) \<and> je_kind (f e) = je_kind e \<and> (je_alive (f e) \<longrightarrow> je_alive e) \<and>
      (je_status (f e) = Running \<longrightarrow> je_status e = Running)"
  shows "store_ok (update_job n f st)"
  unfolding update_job_map
proof (rule store_ok_map [OF assms(1)])
  fix m e
  assume "(m, e) \<in> set (jb_jobs st)" "entry_ok e"
  with assms have "get_job m st = Some e" by (simp add: store_ok_def get_job_def)
  with assms(2) \<open>entry_ok e\<close> show "entry_ok (if m = n then f e else e) \<and> je_kind (if m = n then f e else e) = je_kind e \<and>
      (je_alive (if m = n then f e else e) \<longrightarrow> je_alive e) \<and>
      (je_status (if m = n then f e else e) = Running \<longrightarrow> je_status e = Running)" by auto
qed

lemma store_ok_insert:
  assumes ok: "store_ok st" and "jb_gate st \<noteq> GateRestoring" and e: "entry_ok e"
  shows "store_ok ((insert_with_id (jb_next st + 1) e (st\<lparr>jb_next := jb_next st + 1\<rparr>))\<lparr>jb_gate := GateFree\<rparr>)"
proof (rule store_okI)
  let ?e = "if jb_closed st then kill_if_running e else e"
  let ?jobs = "jb_jobs st @ [(jb_next st + 1, ?e)]"
  have f: "filter (\<lambda>(m, _). m \<noteq> jb_next st + 1) (jb_jobs st) = jb_jobs st"
    using store_okD(2) [OF ok] by (fastforce simp: filter_id_conv)
  have j: "jb_jobs ((insert_with_id (jb_next st + 1) e (st\<lparr>jb_next := jb_next st + 1\<rparr>))\<lparr>jb_gate := GateFree\<rparr>) =
      evict_finished_jobs ?jobs"
    unfolding insert_with_id_def using f by (simp add: Let_def)
  have c: "jb_closed ((insert_with_id (jb_next st + 1) e (st\<lparr>jb_next := jb_next st + 1\<rparr>))\<lparr>jb_gate := GateFree\<rparr>) = jb_closed st"
    "jb_next ((insert_with_id (jb_next st + 1) e (st\<lparr>jb_next := jb_next st + 1\<rparr>))\<lparr>jb_gate := GateFree\<rparr>) = jb_next st + 1"
    by (simp_all add: insert_with_id_def)
  have "jb_next st + 1 \<notin> fst ` set (jb_jobs st)" using store_okD(2) [OF ok] by fastforce
  then have "distinct (map fst ?jobs)" using ok by (auto simp: store_ok_def)
  then show "distinct (map fst (jb_jobs ((insert_with_id (jb_next st + 1) e (st\<lparr>jb_next := jb_next st + 1\<rparr>))\<lparr>jb_gate := GateFree\<rparr>)))"
    unfolding j by (rule evict_distinct)
  fix n e'
  assume "(n, e') \<in> set (jb_jobs ((insert_with_id (jb_next st + 1) e (st\<lparr>jb_next := jb_next st + 1\<rparr>))\<lparr>jb_gate := GateFree\<rparr>))"
  then consider "(n, e') \<in> set (jb_jobs st)" | "n = jb_next st + 1" "e' = ?e"
    unfolding j using evict_sublist by fastforce
  then have "entry_ok e' \<and> n \<le> jb_next st + 1 \<and> (jb_closed st \<and> je_kind e' = Background \<longrightarrow> \<not> je_alive e')"
  proof cases
    case 1
    with store_okD [OF ok 1] show ?thesis by auto
  next
    case 2
    with e show ?thesis by (auto simp: entry_ok_def kill_if_running_def kill_process_tree_def split: if_splits)
  qed
  then show "entry_ok e' \<and>
      n \<le> jb_next ((insert_with_id (jb_next st + 1) e (st\<lparr>jb_next := jb_next st + 1\<rparr>))\<lparr>jb_gate := GateFree\<rparr>) \<and>
      (jb_closed ((insert_with_id (jb_next st + 1) e (st\<lparr>jb_next := jb_next st + 1\<rparr>))\<lparr>jb_gate := GateFree\<rparr>) \<and>
        je_kind e' = Background \<longrightarrow> \<not> je_alive e') \<and>
      (jb_gate ((insert_with_id (jb_next st + 1) e (st\<lparr>jb_next := jb_next st + 1\<rparr>))\<lparr>jb_gate := GateFree\<rparr>) = GateRestoring \<longrightarrow>
        je_status e' \<noteq> Running)"
    unfolding c by simp
qed

lemma store_ok_gate: "store_ok st \<Longrightarrow> g \<noteq> GateRestoring \<Longrightarrow> store_ok (st\<lparr>jb_gate := g\<rparr>)"
  by (auto simp: store_ok_def)

lemma refresh_job_ok: "entry_ok e \<Longrightarrow>
    entry_ok (refresh_job waited e) \<and> je_kind (refresh_job waited e) = je_kind e \<and>
    (je_alive (refresh_job waited e) \<longrightarrow> je_alive e) \<and> (je_status (refresh_job waited e) = Running \<longrightarrow> je_status e = Running)"
  by (auto simp: entry_ok_def refresh_job_def kill_process_tree_def split: option.split)

lemma store_ok_shutdown:
  assumes "store_ok st"
  shows "store_ok (shutdown st)"
proof (rule store_okI)
  show "distinct (map fst (jb_jobs (shutdown st)))"
    using assms by (simp add: store_ok_def shutdown_def o_def case_prod_unfold)
next
  fix n e'
  assume "(n, e') \<in> set (jb_jobs (shutdown st))"
  then obtain e where e: "(n, e) \<in> set (jb_jobs st)" "e' = kill_if_running e" by (auto simp: shutdown_def)
  with store_okD [OF assms e(1)]
  show "entry_ok e' \<and> n \<le> jb_next (shutdown st) \<and>
      (jb_closed (shutdown st) \<and> je_kind e' = Background \<longrightarrow> \<not> je_alive e') \<and>
      (jb_gate (shutdown st) = GateRestoring \<longrightarrow> je_status e' \<noteq> Running)"
    by (auto simp: shutdown_def entry_ok_def kill_if_running_def kill_process_tree_def split: if_splits)
qed

lemma store_ok_idle:
  assumes "store_ok st" "jb_gate st = GateFree"
  shows "store_ok (fst (idle_workspace waited st))"
proof -
  have r: "store_ok (refresh_all waited st)"
    unfolding refresh_all_def by (rule store_ok_map [OF assms(1)]) (rule refresh_job_ok)
  have g: "jb_gate (refresh_all waited st) = GateFree" using assms(2) by (simp add: refresh_all_def)
  show ?thesis
  proof (cases "list_ex (\<lambda>(_, e). je_status e = Running \<or> je_child e \<and> je_alive e) (jb_jobs (refresh_all waited st))")
    case True
    with r show ?thesis by (simp add: idle_workspace_def Let_def)
  next
    case False
    with r show ?thesis by (auto simp: idle_workspace_def Let_def store_ok_def list_ex_iff)
  qed
qed

lemma job_step_ok: "job_step st st' \<Longrightarrow> store_ok st \<Longrightarrow> store_ok st'"
proof (induction rule: job_step.induct)
  case (spawn_begins st st')
  then show ?case by (auto simp: begin_spawn_def intro: store_ok_gate split: if_splits)
next
  case (spawn_fails st)
  then show ?case by (simp add: store_ok_gate)
next
  case (background_registers st n st1)
  then show ?case using store_ok_insert [of st background_entry]
    by (simp add: reserve_id_def entry_ok_def background_entry_def) auto
next
  case (foreground_registers st n st1)
  then show ?case using store_ok_insert [of st foreground_entry]
    by (simp add: reserve_id_def entry_ok_def foreground_entry_def) auto
next
  case (foreground_ends n st e status code)
  then show ?case by (intro store_ok_update) (auto simp: entry_ok_def)
next
  case (foreground_abandoned n st e)
  then show ?case by (intro store_ok_update) (auto simp: entry_ok_def abandon_job_def)
next
  case (refreshes n waited st)
  then show ?case by (intro store_ok_update) (auto dest: refresh_job_ok)
next
  case (cancel_begins n st e)
  then show ?case by (intro store_ok_update) (auto simp: entry_ok_def cancel_begin_def kill_process_tree_def)
next
  case (cancel_ends n st e code)
  then show ?case by (intro store_ok_update) (auto simp: entry_ok_def cancel_end_def split: if_splits)
next
  case (shuts_down st)
  then show ?case by (rule store_ok_shutdown)
next
  case (restore_asks st waited)
  then show ?case by (intro store_ok_idle)
next
  case (restore_ends st)
  then show ?case by (simp add: store_ok_gate)
qed

lemma jobs_reachable_ok: "job_step\<^sup>*\<^sup>* new_job_store st \<Longrightarrow> store_ok st"
proof (induction rule: rtranclp_induct)
  case base
  show ?case by (simp add: new_job_store_def store_ok_def)
qed (rule job_step_ok)

text \<open>C33 (invariant). In whatever order jobs are started, end, are refreshed and cancelled, and wherever a shutdown or a restore
  of the workspace falls between: a closed store has no background process left alive, one that was being
  spawned when it closed included, and while the workspace is restored no command of the session runs.\<close>

theorem jobs_never_outlive_the_store:
  assumes "job_step\<^sup>*\<^sup>* new_job_store st"
  shows "list_all (\<lambda>(_, e).
      (if jb_closed st \<and> je_kind e = Background then \<not> je_alive e else True) \<and>
      (if jb_gate st = GateRestoring then \<not> je_alive e \<and> je_status e \<noteq> Running else True)) (jb_jobs st)"
  using jobs_reachable_ok [OF assms] by (auto simp: store_ok_def entry_ok_def list_all_iff split: if_splits)

text \<open>A process is being spawned when the store closes; it is registered, and killed on the way in.\<close>

theorem jobs_never_outlive_the_store_witness:
  "\<exists>st. job_step\<^sup>*\<^sup>* new_job_store st \<and> map fst (jb_jobs st) = [1] \<and> jb_closed st \<and>
     list_all (\<lambda>(_, e). if je_kind e = Background then \<not> je_alive e else True) (jb_jobs st)"
proof -
  let ?a = "new_job_store\<lparr>jb_gate := GateSpawning\<rparr>"
  define c where "c = (insert_with_id 1 background_entry (shutdown ?a\<lparr>jb_next := 1\<rparr>))\<lparr>jb_gate := GateFree\<rparr>"
  have "job_step new_job_store ?a" by (rule spawn_begins) (simp add: begin_spawn_def new_job_store_def)
  moreover have "job_step ?a (shutdown ?a)" by (rule shuts_down)
  moreover have "job_step (shutdown ?a) c"
    unfolding c_def by (rule background_registers) (simp_all add: shutdown_def reserve_id_def new_job_store_def)
  ultimately have r: "job_step\<^sup>*\<^sup>* new_job_store c" by (meson converse_rtranclp_into_rtranclp r_into_rtranclp)
  have closed: "map fst (jb_jobs c) = [1]" "jb_closed c"
    by (simp_all add: c_def insert_with_id_def shutdown_def new_job_store_def evict_finished_jobs_def MAX_RETAINED_JOBS_def Let_def)
  have "list_all (\<lambda>(_, e). if je_kind e = Background then \<not> je_alive e else True) (jb_jobs c)"
    using jobs_never_outlive_the_store [OF r]
    by (rule list.pred_mono_strong) (use closed(2) in \<open>simp split: prod.splits if_splits\<close>)
  with r closed show ?thesis by (intro exI [of _ c] conjI)
qed

end
