(* ===== verification/Config_Layers.thy ===== *)
theory Config_Layers
  imports Exec_Policy "HOL-Library.List_Lexorder"
begin

unbundle bit_operations_syntax

text \<open>
  The layered configuration, \<^verbatim>\<open>config/layers.rs\<close> and
      \<^verbatim>\<open>config/mod.rs\<close>: built-in values, the file in the
  home directory, the file of the workspace, the environment, applied in that order over one
  configuration, with the warnings collected on the way and the layer that set each reported field.
  TOML is read by a library: what it gives for a file, or its error, is the value of a parameter, and so
  are the environment and the mode bits of the file that holds a key. The sentences of the warnings are
  the constructors of a datatype.
\<close>

section \<open>The settings with a grammar\<close>

definition eq_ignore_ascii_case :: "rstr \<Rightarrow> rstr \<Rightarrow> bool" where
  "eq_ignore_ascii_case s t \<longleftrightarrow> to_ascii_lowercase s = to_ascii_lowercase t"

datatype ReasoningEffortSetting = EffortOff | EffortLow | EffortMedium | EffortHigh | EffortMax | EffortAuto

definition effort_is_auto :: "ReasoningEffortSetting \<Rightarrow> bool" where
  "effort_is_auto e \<longleftrightarrow> e = EffortAuto"

definition effort_as_setting :: "ReasoningEffortSetting \<Rightarrow> rstr" where
  "effort_as_setting e =
     (case e of EffortOff \<Rightarrow> ''off'' | EffortLow \<Rightarrow> ''low'' | EffortMedium \<Rightarrow>
         ''medium'' | EffortHigh \<Rightarrow> ''high''
      | EffortMax \<Rightarrow> ''max'' | EffortAuto \<Rightarrow> ''auto'')"

definition effort_parse :: "rstr \<Rightarrow> ReasoningEffortSetting option" where
  "effort_parse val =
     (let word = to_ascii_lowercase (trim val) in
      if word \<in> set [''off'', ''none'', ''false'', ''0''] then Some EffortOff
      else if word = ''low'' then Some EffortLow
      else if word = ''medium'' \<or> word = ''med'' then Some EffortMedium
      else if word = ''high'' then Some EffortHigh
      else if word = ''max'' then Some EffortMax
      else if word = ''auto'' then Some EffortAuto
      else None)"

datatype CostCurrency = Cny | Usd

definition currency_parse :: "rstr \<Rightarrow> CostCurrency option" where
  "currency_parse val =
     (let word = to_ascii_lowercase (trim val) in
      if word \<in> set [''usd'', ''dollar'', ''dollars'', ''$''] then Some Usd
      else if word \<in> set [''cny'', ''rmb'', ''yuan'', [CHR 0xA5]] then Some Cny
      else None)"

definition currency_as_setting :: "CostCurrency \<Rightarrow> rstr" where
  "currency_as_setting c = (case c of Cny \<Rightarrow> ''cny'' | Usd \<Rightarrow> ''usd'')"

datatype ImageDetail = DetailLow | DetailOriginal | DetailAuto

definition detail_as_str :: "ImageDetail \<Rightarrow> rstr" where
  "detail_as_str d = (case d of DetailLow \<Rightarrow> ''low'' | DetailOriginal \<Rightarrow> ''original'' |
      DetailAuto \<Rightarrow> ''auto'')"

definition detail_parse :: "rstr \<Rightarrow> ImageDetail option" where
  "detail_parse val =
     (let word = to_ascii_lowercase (trim val) in
      if word = ''low'' then Some DetailLow
      else if word = ''original'' then Some DetailOriginal
      else if word = ''auto'' then Some DetailAuto
      else None)"

datatype Lang = Zh | En

definition lang_as_setting :: "Lang \<Rightarrow> rstr" where
  "lang_as_setting l = (case l of Zh \<Rightarrow> ''zh'' | En \<Rightarrow> ''en'')"

definition from_tag :: "rstr \<Rightarrow> Lang option" where
  "from_tag tag =
     (let lower = to_ascii_lowercase (trim tag) in
      if starts_with ''zh'' lower then Some Zh else if starts_with ''en'' lower then Some En else None)"

definition lang_resolve :: "rstr \<Rightarrow> (rstr \<Rightarrow> rstr option) \<Rightarrow> Lang" where
  "lang_resolve setting env =
     (let normalized = trim setting;
          spoken = (if normalized \<noteq> [] \<and> \<not> eq_ignore_ascii_case normalized ''auto'' then from_tag
              normalized else None)
      in case spoken of
           Some l \<Rightarrow> l
         | None \<Rightarrow> (case find_map (\<lambda>key. Option.bind (env key) from_tag) [''LC_ALL'',
             ''LC_MESSAGES'', ''LANG''] of
                    Some l \<Rightarrow> l | None \<Rightarrow> En))"

definition parse_bool_setting :: "rstr \<Rightarrow> bool option" where
  "parse_bool_setting val =
     (let word = to_ascii_lowercase (trim val) in
      if word \<in> set [''1'', ''true'', ''yes'', ''on''] then Some True
      else if word \<in> set [''0'', ''false'', ''no'', ''off''] then Some False
      else None)"

text \<open>\<^verbatim>\<open>str::parse\<close> of an unsigned type: an optional plus, at least one digit, within
    the range.\<close>

definition parse_unsigned :: "nat \<Rightarrow> rstr \<Rightarrow> nat option" where
  "parse_unsigned bits s =
     (let digits = (case s of [] \<Rightarrow> [] | c # cs \<Rightarrow> if c = CHR ''+'' then cs else s);
          v = decimal_value digits
      in if digits = [] \<or> \<not> list_all is_ascii_digit digits then None
         else if v < 2 ^ bits then Some (nat v) else None)"

definition parse_u32 :: "rstr \<Rightarrow> 32 word option" where
  "parse_u32 s = map_option of_nat (parse_unsigned 32 s)"

definition parse_u64 :: "rstr \<Rightarrow> 64 word option" where
  "parse_u64 s = map_option of_nat (parse_unsigned 64 s)"

definition language_setting :: "rstr \<Rightarrow> rstr option" where
  "language_setting val = (if eq_ignore_ascii_case val ''auto'' \<or> from_tag val \<noteq> None then Some val else
      None)"

section \<open>The configuration and its layers\<close>

text \<open>Durations are whole seconds.\<close>

record AgentConfig =
  ac_api_key :: "rstr option"
  ac_base_url :: rstr
  ac_model :: rstr
  ac_reasoning_effort :: ReasoningEffortSetting
  ac_auto_cost_saving :: bool
  ac_cost_currency :: CostCurrency
  ac_compaction_threshold :: "32 word option"
  ac_timeout :: "64 word option"
  ac_stream_max_retries :: "32 word"
  ac_stream_chunk_timeout :: "64 word"
  ac_stream_total_timeout :: "64 word"
  ac_stream_max_bytes :: "64 word"
  ac_approval_auto_allow :: "rstr list"
  ac_checkpoint_max_snapshots :: "64 word"
  ac_language :: rstr
  ac_notifications :: bool
  ac_default_permission_mode :: PermissionMode
  ac_lsp_enabled :: bool
  ac_vision_detail :: ImageDetail
  ac_sandbox_network :: NetworkMode
  ac_sandbox_mode :: SandboxMode
  ac_sandbox_allow_irreversible :: "rstr list"
  ac_turn_steps :: "32 word"

definition DEFAULT_DEEPSEEK_BASE_URL :: rstr where
  "DEFAULT_DEEPSEEK_BASE_URL = ''https://api.deepseek.com/beta''"

definition DEEPSEEK_V4_PRO :: rstr where "DEEPSEEK_V4_PRO = ''deepseek-v4-pro''"
definition MAX_TURN_STEPS :: "32 word" where "MAX_TURN_STEPS = 500"
definition DEFAULT_MAX_SNAPSHOTS :: "64 word" where "DEFAULT_MAX_SNAPSHOTS = 20"
definition DEFAULT_STREAM_MAX_RETRIES :: "32 word" where "DEFAULT_STREAM_MAX_RETRIES = 3"
definition DEFAULT_STREAM_CHUNK_TIMEOUT_SECS :: "64 word" where "DEFAULT_STREAM_CHUNK_TIMEOUT_SECS = 300"
definition DEFAULT_STREAM_TOTAL_TIMEOUT_SECS :: "64 word" where "DEFAULT_STREAM_TOTAL_TIMEOUT_SECS = 900"
definition DEFAULT_STREAM_MAX_BYTES :: "64 word" where "DEFAULT_STREAM_MAX_BYTES = 50 * 1024 * 1024"

definition builtin :: AgentConfig where
  "builtin = \<lparr>ac_api_key = None, ac_base_url = DEFAULT_DEEPSEEK_BASE_URL, ac_model = DEEPSEEK_V4_PRO,
     ac_reasoning_effort = EffortHigh, ac_auto_cost_saving = False, ac_cost_currency = Cny,
     ac_compaction_threshold = None, ac_timeout = Some 60, ac_stream_max_retries = DEFAULT_STREAM_MAX_RETRIES,
     ac_stream_chunk_timeout = DEFAULT_STREAM_CHUNK_TIMEOUT_SECS,
     ac_stream_total_timeout = DEFAULT_STREAM_TOTAL_TIMEOUT_SECS, ac_stream_max_bytes = DEFAULT_STREAM_MAX_BYTES,
     ac_approval_auto_allow = [], ac_checkpoint_max_snapshots = DEFAULT_MAX_SNAPSHOTS, ac_language = ''auto'',
     ac_notifications = True, ac_default_permission_mode = Default, ac_lsp_enabled = True,
     ac_vision_detail = DetailAuto, ac_sandbox_network = Prompt, ac_sandbox_mode = Os,
     ac_sandbox_allow_irreversible = [], ac_turn_steps = MAX_TURN_STEPS\<rparr>"

datatype ConfigLayer = Builtin | Global | Project | Env

definition layer_label :: "ConfigLayer \<Rightarrow> rstr" where
  "layer_label l =
     (case l of Builtin \<Rightarrow> ''default'' | Global \<Rightarrow> ''global'' | Project \<Rightarrow>
         ''project'' | Env \<Rightarrow> ''env'')"

record ConfigSources =
  src_api_key :: ConfigLayer
  src_base_url :: ConfigLayer
  src_model :: ConfigLayer
  src_reasoning_effort :: ConfigLayer
  src_cost_currency :: ConfigLayer

definition default_sources :: ConfigSources where
  "default_sources = \<lparr>src_api_key = Builtin, src_base_url = Builtin, src_model = Builtin,
     src_reasoning_effort = Builtin, src_cost_currency = Builtin\<rparr>"

datatype PendingWarning =
    CfgUnknownValue rstr rstr rstr \<comment> \<open>layer, field, value\<close>
  | CfgFileUnusable rstr rstr \<comment> \<open>path, detail\<close>
  | CfgUnknownKey rstr rstr \<comment> \<open>layer, field\<close>
  | CfgProjectApiKeyIgnored
  | CfgProjectBaseUrlIgnored rstr
  | CfgProjectFieldIgnored rstr
  | CfgProjectAutoAllowIgnored
  | CfgGlobalKeyPerms rstr

record ConfigLayerStatus =
  cl_name :: rstr
  cl_path :: rstr
  cl_present :: bool
  cl_error :: "rstr option"

text \<open>What loading builds up: the configuration, and of the report its layers, sources and warnings.\<close>

record LoadState =
  ls_config :: AgentConfig
  ls_layers :: "ConfigLayerStatus list"
  ls_sources :: ConfigSources
  ls_pending :: "PendingWarning list"

text \<open>\<^verbatim>\<open>if let Some(v) = parse_setting(..)\<close>: the parsed value, the warning pushed on
    the way.\<close>

definition parse_setting ::
  "rstr option \<Rightarrow> rstr \<Rightarrow> ConfigLayer \<Rightarrow> (rstr \<Rightarrow> 'a option)
      \<Rightarrow> PendingWarning list \<Rightarrow> PendingWarning list \<times> 'a option" where
  "parse_setting raw field layer parse warned =
     (case raw of
        None \<Rightarrow> (warned, None)
      | Some s \<Rightarrow>
          (let val = trim s in
           if val = [] then (warned, None)
           else case parse val of
               None \<Rightarrow> (warned @ [CfgUnknownValue (layer_label layer) field val], None)
             | Some v \<Rightarrow> (warned, Some v)))"

definition with_setting ::
  "rstr option \<Rightarrow> rstr \<Rightarrow> ConfigLayer \<Rightarrow> (rstr \<Rightarrow> 'a option)
      \<Rightarrow> ('a \<Rightarrow> LoadState \<Rightarrow> LoadState) \<Rightarrow> LoadState \<Rightarrow>
      LoadState" where
  "with_setting raw field layer parse use st =
     (case parse_setting raw field layer parse (ls_pending st) of
        (warned, None) \<Rightarrow> st\<lparr>ls_pending := warned\<rparr>
      | (warned, Some v) \<Rightarrow> use v (st\<lparr>ls_pending := warned\<rparr>))"

definition warn :: "PendingWarning \<Rightarrow> LoadState \<Rightarrow> LoadState" where
  "warn w st = st\<lparr>ls_pending := ls_pending st @ [w]\<rparr>"

definition reject_project :: "rstr \<Rightarrow> LoadState \<Rightarrow> LoadState" where
  "reject_project field st = warn (CfgProjectFieldIgnored field) st"

definition not_blank :: "rstr option \<Rightarrow> rstr option" where
  "not_blank raw = (case raw of None \<Rightarrow> None | Some s \<Rightarrow> if trim s = [] then None else Some
      s)"

definition rule_list :: "rstr list \<Rightarrow> rstr list" where
  "rule_list rules = filter (\<lambda>r. r \<noteq> []) (map trim rules)"

section \<open>A file\<close>

record ProviderSection =
  pv_api_key :: "rstr option"
  pv_base_url :: "rstr option"
  pv_model :: "rstr option"
  pv_reasoning_effort :: "rstr option"
  pv_timeout_secs :: "64 word option"
  pv_unknown :: "rstr list"

record CostSection =
  co_currency :: "rstr option"
  co_auto_cost_saving :: "bool option"
  co_unknown :: "rstr list"

record ContextSection =
  cx_compaction_threshold :: "32 word option"
  cx_unknown :: "rstr list"

record StreamSection =
  sm_max_retries :: "32 word option"
  sm_chunk_timeout_secs :: "64 word option"
  sm_total_timeout_secs :: "64 word option"
  sm_max_bytes :: "64 word option"
  sm_unknown :: "rstr list"

record ApprovalSection =
  ap_auto_allow :: "rstr list option"
  ap_default_mode :: "rstr option"
  ap_unknown :: "rstr list"

record CheckpointsSection =
  cp_max_snapshots :: "64 word option"
  cp_unknown :: "rstr list"

record UiSection =
  ui_language :: "rstr option"
  ui_notifications :: "bool option"
  ui_unknown :: "rstr list"

record LspSection =
  lsp_enabled :: "bool option"
  lsp_unknown :: "rstr list"

record SandboxSection =
  sb_network :: "rstr option"
  sb_mode :: "rstr option"
  sb_allow_irreversible :: "rstr list option"
  sb_unknown :: "rstr list"

record BudgetSection =
  bg_turn_steps :: "32 word option"
  bg_unknown :: "rstr list"

record VisionSection =
  vi_detail :: "rstr option"
  vi_unknown :: "rstr list"

text \<open>The keys of the map of leftovers, of the file and of each section.\<close>

record ConfigFile =
  cf_provider :: ProviderSection
  cf_cost :: CostSection
  cf_context :: ContextSection
  cf_stream :: StreamSection
  cf_approval :: ApprovalSection
  cf_checkpoints :: CheckpointsSection
  cf_ui :: UiSection
  cf_lsp :: LspSection
  cf_sandbox :: SandboxSection
  cf_budget :: BudgetSection
  cf_vision :: VisionSection
  cf_unknown :: "rstr list"

definition sections :: "ConfigFile \<Rightarrow> (rstr \<times> rstr list) list" where
  "sections f =
     [(''provider'', pv_unknown (cf_provider f)), (''cost'', co_unknown (cf_cost f)),
      (''context'', cx_unknown (cf_context f)), (''stream'', sm_unknown (cf_stream f)),
      (''approval'', ap_unknown (cf_approval f)), (''checkpoints'', cp_unknown (cf_checkpoints f)),
      (''ui'', ui_unknown (cf_ui f)), (''lsp'', lsp_unknown (cf_lsp f)), (''sandbox'', sb_unknown (cf_sandbox f)),
      (''budget'', bg_unknown (cf_budget f)), (''vision'', vi_unknown (cf_vision f))]"

definition unknown_keys :: "ConfigFile \<Rightarrow> rstr list" where
  "unknown_keys f =
     sort (cf_unknown f @ concat (map (\<lambda>(section, unknown). map (\<lambda>key. section @ ''.'' @ key)
         unknown) (sections f)))"

datatype FileRead = Missing | FileError rstr | Parsed ConfigFile


section \<open>Laying a file over the configuration\<close>

text \<open>One definition per setting, in the order of the code.\<close>

definition overlay_api_key :: "ConfigFile \<Rightarrow> ConfigLayer \<Rightarrow> LoadState \<Rightarrow> LoadState"
    where
  "overlay_api_key f layer st =
     (case not_blank (pv_api_key (cf_provider f)) of
        None \<Rightarrow> st
      | Some v \<Rightarrow>
          if layer = Project then warn CfgProjectApiKeyIgnored st
          else st\<lparr>ls_config := (ls_config st)\<lparr>ac_api_key := Some v\<rparr>,
                  ls_sources := (ls_sources st)\<lparr>src_api_key := layer\<rparr>\<rparr>)"

definition overlay_base_url :: "ConfigFile \<Rightarrow> ConfigLayer \<Rightarrow> LoadState \<Rightarrow>
    LoadState" where
  "overlay_base_url f layer st =
     (case not_blank (pv_base_url (cf_provider f)) of
        None \<Rightarrow> st
      | Some v \<Rightarrow>
          if layer = Project then warn (CfgProjectBaseUrlIgnored v) st
          else st\<lparr>ls_config := (ls_config st)\<lparr>ac_base_url := v\<rparr>,
                  ls_sources := (ls_sources st)\<lparr>src_base_url := layer\<rparr>\<rparr>)"

definition overlay_model :: "ConfigFile \<Rightarrow> ConfigLayer \<Rightarrow> LoadState \<Rightarrow> LoadState"
    where
  "overlay_model f layer st =
     (case not_blank (pv_model (cf_provider f)) of
        None \<Rightarrow> st
      | Some v \<Rightarrow> st\<lparr>ls_config := (ls_config st)\<lparr>ac_model := v\<rparr>,
                     ls_sources := (ls_sources st)\<lparr>src_model := layer\<rparr>\<rparr>)"

definition overlay_reasoning_effort :: "ConfigFile \<Rightarrow> ConfigLayer \<Rightarrow> LoadState \<Rightarrow>
    LoadState" where
  "overlay_reasoning_effort f layer =
     with_setting (pv_reasoning_effort (cf_provider f)) ''provider.reasoning_effort'' layer effort_parse
       (\<lambda>v st. st\<lparr>ls_config := (ls_config st)\<lparr>ac_reasoning_effort := v\<rparr>,
                 ls_sources := (ls_sources st)\<lparr>src_reasoning_effort := layer\<rparr>\<rparr>)"

definition overlay_timeout :: "ConfigFile \<Rightarrow> ConfigLayer \<Rightarrow> LoadState \<Rightarrow> LoadState"
    where
  "overlay_timeout f layer st =
     (case pv_timeout_secs (cf_provider f) of
        None \<Rightarrow> st
      | Some v \<Rightarrow>
          if layer = Project then reject_project ''provider.timeout_secs'' st
          else st\<lparr>ls_config := (ls_config st)\<lparr>ac_timeout := Some v\<rparr>\<rparr>)"

definition overlay_cost_currency :: "ConfigFile \<Rightarrow> ConfigLayer \<Rightarrow> LoadState \<Rightarrow>
    LoadState" where
  "overlay_cost_currency f layer =
     with_setting (co_currency (cf_cost f)) ''cost.currency'' layer currency_parse
       (\<lambda>v st. st\<lparr>ls_config := (ls_config st)\<lparr>ac_cost_currency := v\<rparr>,
                 ls_sources := (ls_sources st)\<lparr>src_cost_currency := layer\<rparr>\<rparr>)"

definition overlay_auto_cost_saving :: "ConfigFile \<Rightarrow> ConfigLayer \<Rightarrow> LoadState \<Rightarrow>
    LoadState" where
  "overlay_auto_cost_saving f layer st =
     (case co_auto_cost_saving (cf_cost f) of
        None \<Rightarrow> st
      | Some v \<Rightarrow>
          if layer = Project then reject_project ''cost.auto_cost_saving'' st
          else st\<lparr>ls_config := (ls_config st)\<lparr>ac_auto_cost_saving := v\<rparr>\<rparr>)"

definition overlay_compaction_threshold :: "ConfigFile \<Rightarrow> ConfigLayer \<Rightarrow> LoadState
    \<Rightarrow> LoadState" where
  "overlay_compaction_threshold f layer st =
     (case cx_compaction_threshold (cf_context f) of
        None \<Rightarrow> st
      | Some v \<Rightarrow>
          if layer = Project then reject_project ''context.compaction_threshold'' st
          else st\<lparr>ls_config := (ls_config st)\<lparr>ac_compaction_threshold := Some v\<rparr>\<rparr>)"

definition overlay_stream_max_retries :: "ConfigFile \<Rightarrow> ConfigLayer \<Rightarrow> LoadState \<Rightarrow>
    LoadState" where
  "overlay_stream_max_retries f layer st =
     (case sm_max_retries (cf_stream f) of
        None \<Rightarrow> st
      | Some v \<Rightarrow>
          if layer = Project then reject_project ''stream.max_retries'' st
          else st\<lparr>ls_config := (ls_config st)\<lparr>ac_stream_max_retries := v\<rparr>\<rparr>)"

definition overlay_stream_chunk_timeout :: "ConfigFile \<Rightarrow> ConfigLayer \<Rightarrow> LoadState
    \<Rightarrow> LoadState" where
  "overlay_stream_chunk_timeout f layer st =
     (case sm_chunk_timeout_secs (cf_stream f) of
        None \<Rightarrow> st
      | Some v \<Rightarrow>
          if layer = Project then reject_project ''stream.chunk_timeout_secs'' st
          else st\<lparr>ls_config := (ls_config st)\<lparr>ac_stream_chunk_timeout := v\<rparr>\<rparr>)"

definition overlay_stream_total_timeout :: "ConfigFile \<Rightarrow> ConfigLayer \<Rightarrow> LoadState
    \<Rightarrow> LoadState" where
  "overlay_stream_total_timeout f layer st =
     (case sm_total_timeout_secs (cf_stream f) of
        None \<Rightarrow> st
      | Some v \<Rightarrow>
          if layer = Project then reject_project ''stream.total_timeout_secs'' st
          else st\<lparr>ls_config := (ls_config st)\<lparr>ac_stream_total_timeout := v\<rparr>\<rparr>)"

definition overlay_stream_max_bytes :: "ConfigFile \<Rightarrow> ConfigLayer \<Rightarrow> LoadState \<Rightarrow>
    LoadState" where
  "overlay_stream_max_bytes f layer st =
     (case sm_max_bytes (cf_stream f) of
        None \<Rightarrow> st
      | Some v \<Rightarrow>
          if layer = Project then reject_project ''stream.max_bytes'' st
          else st\<lparr>ls_config := (ls_config st)\<lparr>ac_stream_max_bytes := v\<rparr>\<rparr>)"

definition overlay_max_snapshots :: "ConfigFile \<Rightarrow> ConfigLayer \<Rightarrow> LoadState \<Rightarrow>
    LoadState" where
  "overlay_max_snapshots f layer st =
     (case cp_max_snapshots (cf_checkpoints f) of
        None \<Rightarrow> st
      | Some v \<Rightarrow>
          if layer = Project then reject_project ''checkpoints.max_snapshots'' st
          else st\<lparr>ls_config := (ls_config st)\<lparr>ac_checkpoint_max_snapshots := v\<rparr>\<rparr>)"

definition overlay_language :: "ConfigFile \<Rightarrow> ConfigLayer \<Rightarrow> LoadState \<Rightarrow>
    LoadState" where
  "overlay_language f layer =
     with_setting (ui_language (cf_ui f)) ''ui.language'' layer language_setting
       (\<lambda>v st. st\<lparr>ls_config := (ls_config st)\<lparr>ac_language := v\<rparr>\<rparr>)"

definition overlay_notifications :: "ConfigFile \<Rightarrow> ConfigLayer \<Rightarrow> LoadState \<Rightarrow>
    LoadState" where
  "overlay_notifications f layer st =
     (case ui_notifications (cf_ui f) of
        None \<Rightarrow> st
      | Some v \<Rightarrow> st\<lparr>ls_config := (ls_config st)\<lparr>ac_notifications := v\<rparr>\<rparr>)"

definition overlay_lsp :: "ConfigFile \<Rightarrow> ConfigLayer \<Rightarrow> LoadState \<Rightarrow> LoadState"
    where
  "overlay_lsp f layer st =
     (case lsp_enabled (cf_lsp f) of
        None \<Rightarrow> st
      | Some v \<Rightarrow>
          if layer = Project \<and> v \<and> \<not> ac_lsp_enabled (ls_config st) then reject_project
              ''lsp.enabled=true'' st
          else st\<lparr>ls_config := (ls_config st)\<lparr>ac_lsp_enabled := v\<rparr>\<rparr>)"

definition overlay_network :: "ConfigFile \<Rightarrow> ConfigLayer \<Rightarrow> LoadState \<Rightarrow> LoadState"
    where
  "overlay_network f layer =
     with_setting (sb_network (cf_sandbox f)) ''sandbox.network'' layer network_parse
       (\<lambda>v st.
          if layer = Project \<and> network_rank v > network_rank (ac_sandbox_network (ls_config st))
          then reject_project (''sandbox.network='' @ network_as_setting v) st
          else st\<lparr>ls_config := (ls_config st)\<lparr>ac_sandbox_network := v\<rparr>\<rparr>)"

definition overlay_sandbox_mode :: "ConfigFile \<Rightarrow> ConfigLayer \<Rightarrow> LoadState \<Rightarrow>
    LoadState" where
  "overlay_sandbox_mode f layer =
     with_setting (sb_mode (cf_sandbox f)) ''sandbox.mode'' layer sandbox_parse
       (\<lambda>v st.
          if layer = Project \<and> sandbox_rank v < sandbox_rank (ac_sandbox_mode (ls_config st))
          then reject_project (''sandbox.mode='' @ sandbox_as_setting v) st
          else st\<lparr>ls_config := (ls_config st)\<lparr>ac_sandbox_mode := v\<rparr>\<rparr>)"

definition overlay_turn_steps :: "ConfigFile \<Rightarrow> ConfigLayer \<Rightarrow> LoadState \<Rightarrow>
    LoadState" where
  "overlay_turn_steps f layer st =
     (case bg_turn_steps (cf_budget f) of
        None \<Rightarrow> st
      | Some steps \<Rightarrow>
          (let global_unlimited = (ac_turn_steps (ls_config st) = 0);
               widening = (if global_unlimited then False else steps = 0 \<or> steps > ac_turn_steps (ls_config st))
           in if layer = Project \<and> widening then reject_project (''budget.turn_steps='' @ nat_digits (unat
               steps)) st
              else st\<lparr>ls_config := (ls_config st)\<lparr>ac_turn_steps := steps\<rparr>\<rparr>))"

definition overlay_allow_irreversible :: "ConfigFile \<Rightarrow> ConfigLayer \<Rightarrow> LoadState \<Rightarrow>
    LoadState" where
  "overlay_allow_irreversible f layer st =
     (case sb_allow_irreversible (cf_sandbox f) of
        None \<Rightarrow> st
      | Some rules \<Rightarrow>
          if layer = Project then reject_project ''sandbox.allow_irreversible'' st
          else st\<lparr>ls_config := (ls_config st)\<lparr>ac_sandbox_allow_irreversible := rule_list
              rules\<rparr>\<rparr>)"

definition overlay_auto_allow :: "ConfigFile \<Rightarrow> ConfigLayer \<Rightarrow> LoadState \<Rightarrow>
    LoadState" where
  "overlay_auto_allow f layer st =
     (case ap_auto_allow (cf_approval f) of
        None \<Rightarrow> st
      | Some rules \<Rightarrow>
          if layer = Project then warn CfgProjectAutoAllowIgnored st
          else st\<lparr>ls_config := (ls_config st)\<lparr>ac_approval_auto_allow := rule_list
              rules\<rparr>\<rparr>)"

definition overlay_default_mode :: "ConfigFile \<Rightarrow> ConfigLayer \<Rightarrow> LoadState \<Rightarrow>
    LoadState" where
  "overlay_default_mode f layer =
     with_setting (ap_default_mode (cf_approval f)) ''approval.default_mode'' layer mode_parse
       (\<lambda>v st.
          if layer = Project \<and> to_u8 v > to_u8 (ac_default_permission_mode (ls_config st))
          then reject_project (''approval.default_mode='' @ mode_as_setting v) st
          else st\<lparr>ls_config := (ls_config st)\<lparr>ac_default_permission_mode := v\<rparr>\<rparr>)"

definition overlay_detail :: "ConfigFile \<Rightarrow> ConfigLayer \<Rightarrow> LoadState \<Rightarrow> LoadState"
    where
  "overlay_detail f layer =
     with_setting (vi_detail (cf_vision f)) ''vision.detail'' layer detail_parse
       (\<lambda>v st. st\<lparr>ls_config := (ls_config st)\<lparr>ac_vision_detail := v\<rparr>\<rparr>)"

definition apply_file_overlay :: "ConfigFile \<Rightarrow> ConfigLayer \<Rightarrow> LoadState \<Rightarrow>
    LoadState" where
  "apply_file_overlay f layer st =
     (let st = overlay_api_key f layer st;
          st = overlay_base_url f layer st;
          st = overlay_model f layer st;
          st = overlay_reasoning_effort f layer st;
          st = overlay_timeout f layer st;
          st = overlay_cost_currency f layer st;
          st = overlay_auto_cost_saving f layer st;
          st = overlay_compaction_threshold f layer st;
          st = overlay_stream_max_retries f layer st;
          st = overlay_stream_chunk_timeout f layer st;
          st = overlay_stream_total_timeout f layer st;
          st = overlay_stream_max_bytes f layer st;
          st = overlay_max_snapshots f layer st;
          st = overlay_language f layer st;
          st = overlay_notifications f layer st;
          st = overlay_lsp f layer st;
          st = overlay_network f layer st;
          st = overlay_sandbox_mode f layer st;
          st = overlay_turn_steps f layer st;
          st = overlay_allow_irreversible f layer st;
          st = overlay_auto_allow f layer st;
          st = overlay_default_mode f layer st;
          st = overlay_detail f layer st
      in st)"

section \<open>The environment\<close>

definition env_api_key :: "(rstr \<Rightarrow> rstr option) \<Rightarrow> LoadState \<Rightarrow> LoadState" where
  "env_api_key env st =
     (case not_blank (env ''DEEPSEEK_API_KEY'') of
        None \<Rightarrow> st
      | Some v \<Rightarrow> st\<lparr>ls_config := (ls_config st)\<lparr>ac_api_key := Some v\<rparr>,
                     ls_sources := (ls_sources st)\<lparr>src_api_key := Env\<rparr>\<rparr>)"

definition env_model :: "(rstr \<Rightarrow> rstr option) \<Rightarrow> LoadState \<Rightarrow> LoadState" where
  "env_model env st =
     (case not_blank (env ''DEEP_CODE_MODEL'') of
        None \<Rightarrow> st
      | Some v \<Rightarrow> st\<lparr>ls_config := (ls_config st)\<lparr>ac_model := v\<rparr>,
                     ls_sources := (ls_sources st)\<lparr>src_model := Env\<rparr>\<rparr>)"

definition env_setting ::
  "(rstr \<Rightarrow> rstr option) \<Rightarrow> rstr \<Rightarrow> (rstr \<Rightarrow> 'a option) \<Rightarrow>
      ('a \<Rightarrow> LoadState \<Rightarrow> LoadState) \<Rightarrow> LoadState \<Rightarrow> LoadState" where
  "env_setting env name parse use st = with_setting (env name) name Env parse use st"

definition env_auto_allow :: "(rstr \<Rightarrow> rstr option) \<Rightarrow> LoadState \<Rightarrow> LoadState"
    where
  "env_auto_allow env st =
     (case env ''DEEP_CODE_APPROVAL_AUTO_ALLOW'' of
        None \<Rightarrow> st
      | Some v \<Rightarrow> st\<lparr>ls_config := (ls_config st)\<lparr>ac_approval_auto_allow := rule_list
          (split_on (\<lambda>c. c = CHR '','') v)\<rparr>\<rparr>)"

definition env_reasoning_effort :: "(rstr \<Rightarrow> rstr option) \<Rightarrow> LoadState \<Rightarrow>
    LoadState" where
  "env_reasoning_effort env =
     env_setting env ''DEEP_CODE_REASONING_EFFORT'' effort_parse
       (\<lambda>v st. st\<lparr>ls_config := (ls_config st)\<lparr>ac_reasoning_effort := v\<rparr>,
                 ls_sources := (ls_sources st)\<lparr>src_reasoning_effort := Env\<rparr>\<rparr>)"

definition env_language :: "(rstr \<Rightarrow> rstr option) \<Rightarrow> LoadState \<Rightarrow> LoadState" where
  "env_language env =
     env_setting env ''DEEP_CODE_LANG'' language_setting
       (\<lambda>v st. st\<lparr>ls_config := (ls_config st)\<lparr>ac_language := v\<rparr>\<rparr>)"

definition env_auto_cost_saving :: "(rstr \<Rightarrow> rstr option) \<Rightarrow> LoadState \<Rightarrow>
    LoadState" where
  "env_auto_cost_saving env =
     env_setting env ''DEEP_CODE_AUTO_COST_SAVING'' parse_bool_setting
       (\<lambda>v st. st\<lparr>ls_config := (ls_config st)\<lparr>ac_auto_cost_saving := v\<rparr>\<rparr>)"

definition env_cost_currency :: "(rstr \<Rightarrow> rstr option) \<Rightarrow> LoadState \<Rightarrow> LoadState"
    where
  "env_cost_currency env =
     env_setting env ''DEEP_CODE_COST_CURRENCY'' currency_parse
       (\<lambda>v st. st\<lparr>ls_config := (ls_config st)\<lparr>ac_cost_currency := v\<rparr>,
                 ls_sources := (ls_sources st)\<lparr>src_cost_currency := Env\<rparr>\<rparr>)"

definition env_compaction_threshold :: "(rstr \<Rightarrow> rstr option) \<Rightarrow> LoadState \<Rightarrow>
    LoadState" where
  "env_compaction_threshold env =
     env_setting env ''DEEP_CODE_COMPACTION_THRESHOLD'' parse_u32
       (\<lambda>v st. st\<lparr>ls_config := (ls_config st)\<lparr>ac_compaction_threshold := Some
           v\<rparr>\<rparr>)"

definition env_stream_max_retries :: "(rstr \<Rightarrow> rstr option) \<Rightarrow> LoadState \<Rightarrow>
    LoadState" where
  "env_stream_max_retries env =
     env_setting env ''DEEP_CODE_STREAM_MAX_RETRIES'' parse_u32
       (\<lambda>v st. st\<lparr>ls_config := (ls_config st)\<lparr>ac_stream_max_retries := v\<rparr>\<rparr>)"

definition env_stream_chunk_timeout :: "(rstr \<Rightarrow> rstr option) \<Rightarrow> LoadState \<Rightarrow>
    LoadState" where
  "env_stream_chunk_timeout env =
     env_setting env ''DEEP_CODE_STREAM_CHUNK_TIMEOUT_SECS'' parse_u64
       (\<lambda>v st. st\<lparr>ls_config := (ls_config st)\<lparr>ac_stream_chunk_timeout := v\<rparr>\<rparr>)"

definition env_stream_total_timeout :: "(rstr \<Rightarrow> rstr option) \<Rightarrow> LoadState \<Rightarrow>
    LoadState" where
  "env_stream_total_timeout env =
     env_setting env ''DEEP_CODE_STREAM_TOTAL_TIMEOUT_SECS'' parse_u64
       (\<lambda>v st. st\<lparr>ls_config := (ls_config st)\<lparr>ac_stream_total_timeout := v\<rparr>\<rparr>)"

definition env_stream_max_bytes :: "(rstr \<Rightarrow> rstr option) \<Rightarrow> LoadState \<Rightarrow>
    LoadState" where
  "env_stream_max_bytes env =
     env_setting env ''DEEP_CODE_STREAM_MAX_BYTES'' parse_u64
       (\<lambda>v st. st\<lparr>ls_config := (ls_config st)\<lparr>ac_stream_max_bytes := v\<rparr>\<rparr>)"

definition env_max_snapshots :: "(rstr \<Rightarrow> rstr option) \<Rightarrow> LoadState \<Rightarrow> LoadState"
    where
  "env_max_snapshots env =
     env_setting env ''DEEP_CODE_CHECKPOINT_MAX_SNAPSHOTS'' parse_u64
       (\<lambda>v st. st\<lparr>ls_config := (ls_config st)\<lparr>ac_checkpoint_max_snapshots :=
           v\<rparr>\<rparr>)"

definition apply_env_overlay :: "(rstr \<Rightarrow> rstr option) \<Rightarrow> LoadState \<Rightarrow> LoadState"
    where
  "apply_env_overlay env st =
     (let st = env_api_key env st;
          st = env_model env st;
          st = env_reasoning_effort env st;
          st = env_language env st;
          st = env_auto_cost_saving env st;
          st = env_cost_currency env st;
          st = env_compaction_threshold env st;
          st = env_stream_max_retries env st;
          st = env_stream_chunk_timeout env st;
          st = env_stream_total_timeout env st;
          st = env_stream_max_bytes env st;
          st = env_max_snapshots env st;
          st = env_auto_allow env st
      in st)"

section \<open>Loading\<close>

text \<open>\<open>read_config\<close> is what a file reads and parses as, \<open>mode_of\<close> its mode
    bits.\<close>

definition check_global_key_permissions :: "bool \<Rightarrow> (rstr \<Rightarrow> 32 word option) \<Rightarrow>
    rstr \<Rightarrow> LoadState \<Rightarrow> LoadState" where
  "check_global_key_permissions win mode_of p st =
     (if win then st
      else case mode_of p of
          None \<Rightarrow> st
        | Some mode \<Rightarrow> if mode AND 63 \<noteq> 0 then warn (CfgGlobalKeyPerms p) st else st)"

definition push_layer :: "ConfigLayer \<Rightarrow> rstr \<Rightarrow> bool \<Rightarrow> rstr option \<Rightarrow>
    LoadState \<Rightarrow> LoadState" where
  "push_layer layer p present error st =
     st\<lparr>ls_layers := ls_layers st @ [\<lparr>cl_name = layer_label layer, cl_path = p, cl_present = present,
         cl_error = error\<rparr>]\<rparr>"

definition load_file_layer ::
  "bool \<Rightarrow> (rstr \<Rightarrow> FileRead) \<Rightarrow> (rstr \<Rightarrow> 32 word option) \<Rightarrow>
      ConfigLayer \<times> rstr option \<Rightarrow> LoadState \<Rightarrow> LoadState" where
  "load_file_layer win read_config mode_of lp st =
     (case lp of (layer, at_path) \<Rightarrow>
       (case at_path of
          None \<Rightarrow> st
        | Some p \<Rightarrow>
            (case read_config p of
               Missing \<Rightarrow> push_layer layer p False None st
             | FileError msg \<Rightarrow> push_layer layer p True (Some msg) (warn (CfgFileUnusable p msg) st)
             | Parsed f \<Rightarrow>
                 (let st = push_layer layer p True None st;
                      st = fold (\<lambda>key. warn (CfgUnknownKey (layer_label layer) key)) (unknown_keys f) st;
                      st = apply_file_overlay f layer st
                  in if layer = Global \<and> not_blank (pv_api_key (cf_provider f)) \<noteq> None
                     then check_global_key_permissions win mode_of p st else st))))"

record LoadedAgentConfig =
  lc_config :: AgentConfig
  lc_layers :: "ConfigLayerStatus list"
  lc_sources :: ConfigSources
  lc_lang :: Lang
  lc_pending :: "PendingWarning list"

definition load_with ::
  "bool \<Rightarrow> (rstr \<Rightarrow> FileRead) \<Rightarrow> (rstr \<Rightarrow> 32 word option) \<Rightarrow>
      rstr option \<Rightarrow> rstr option \<Rightarrow> (rstr \<Rightarrow> rstr option) \<Rightarrow>
   LoadedAgentConfig" where
  "load_with win read_config mode_of global project env =
     (let st = \<lparr>ls_config = builtin, ls_layers = [], ls_sources = default_sources, ls_pending = []\<rparr>;
          st = fold (load_file_layer win read_config mode_of) [(Global, global), (Project, project)] st;
          st = apply_env_overlay env st
      in \<lparr>lc_config = ls_config st, lc_layers = ls_layers st, lc_sources = ls_sources st,
          lc_lang = lang_resolve (ac_language (ls_config st)) env, lc_pending = ls_pending st\<rparr>)"

definition warnings_in :: "(Lang \<Rightarrow> PendingWarning \<Rightarrow> rstr) \<Rightarrow> LoadedAgentConfig
    \<Rightarrow> Lang \<Rightarrow> rstr list" where
  "warnings_in render loaded l = map (render l) (lc_pending loaded)"

section \<open>What is read off a configuration\<close>

definition AUTO_MODEL :: rstr where "AUTO_MODEL = ''auto''"

definition auto_model_enabled :: "AgentConfig \<Rightarrow> bool" where
  "auto_model_enabled c \<longleftrightarrow> eq_ignore_ascii_case (trim (ac_model c)) AUTO_MODEL"

definition require_api_key :: "AgentConfig \<Rightarrow> rstr option" where
  "require_api_key c = not_blank (ac_api_key c)"

definition chat_completions_url :: "AgentConfig \<Rightarrow> rstr" where
  "chat_completions_url c = trim_end_matches (\<lambda>ch. ch = CHR ''/'') (ac_base_url c) @ ''/chat/completions''"

definition uses_beta_endpoint :: "AgentConfig \<Rightarrow> bool" where
  "uses_beta_endpoint c \<longleftrightarrow> contains_str ''/beta'' (ac_base_url c)"

text \<open>\<^verbatim>\<open>validate_api_key\<close> of \<^verbatim>\<open>config/write.rs\<close>, with the
    sentence it rejects a key with.\<close>

datatype KeyRejection = CfgApiKeyEmpty | CfgApiKeyWhitespace | CfgApiKeyTooShort

definition validate_api_key :: "rstr \<Rightarrow> KeyRejection option" where
  "validate_api_key s =
     (let trimmed = trim s in
      if trimmed = [] then Some CfgApiKeyEmpty
      else if list_ex is_whitespace trimmed then Some CfgApiKeyWhitespace
      else if utf8_len trimmed < 16 then Some CfgApiKeyTooShort
      else None)"

section \<open>Three rules\<close>

text \<open>How a layer's value meets the value below it: any layer may set it; a file of the workspace may not;
  a file of the workspace may only go the strict way. \<open>read_setting\<close> is the value of a setting that has
      a
  grammar, \<open>misspelled\<close> the warning when it has none.\<close>

definition any_layer :: "'a option \<Rightarrow> 'a \<Rightarrow> 'a" where
  "any_layer given old = (case given of None \<Rightarrow> old | Some v \<Rightarrow> v)"

definition not_project :: "ConfigLayer \<Rightarrow> 'a option \<Rightarrow> 'a \<Rightarrow> 'a" where
  "not_project layer given old = (if layer = Project then old else any_layer given old)"

definition tighten_only :: "('a \<Rightarrow> 'a \<Rightarrow> bool) \<Rightarrow> ConfigLayer \<Rightarrow> 'a
    option \<Rightarrow> 'a \<Rightarrow> 'a" where
  "tighten_only wider layer given old =
     (case given of None \<Rightarrow> old | Some v \<Rightarrow> if layer = Project \<and> wider v old then old
         else v)"

definition read_setting :: "(rstr \<Rightarrow> 'a option) \<Rightarrow> rstr option \<Rightarrow> 'a option" where
  "read_setting parse raw = (case not_blank raw of None \<Rightarrow> None | Some s \<Rightarrow> parse (trim s))"

definition misspelled :: "rstr option \<Rightarrow> rstr \<Rightarrow> ConfigLayer \<Rightarrow> (rstr \<Rightarrow>
    'a option) \<Rightarrow> PendingWarning list" where
  "misspelled raw field layer parse =
     (case not_blank raw of
        None \<Rightarrow> []
      | Some s \<Rightarrow> (case parse (trim s) of None \<Rightarrow> [CfgUnknownValue (layer_label layer) field
          (trim s)] | Some _ \<Rightarrow> []))"

definition refused :: "PendingWarning \<Rightarrow> ConfigLayer \<Rightarrow> 'a option \<Rightarrow> PendingWarning
    list" where
  "refused w layer given = (if layer = Project \<and> given \<noteq> None then [w] else [])"

definition refused_wider ::
  "('a \<Rightarrow> 'a \<Rightarrow> bool) \<Rightarrow> ('a \<Rightarrow> rstr) \<Rightarrow> ConfigLayer
      \<Rightarrow> 'a option \<Rightarrow> 'a \<Rightarrow> PendingWarning list" where
  "refused_wider wider named layer given old =
     (case given of None \<Rightarrow> [] | Some v \<Rightarrow> if layer = Project \<and> wider v old then
         [CfgProjectFieldIgnored (named v)] else [])"

definition wider_lsp :: "bool \<Rightarrow> bool \<Rightarrow> bool" where "wider_lsp v old \<longleftrightarrow> v
    \<and> \<not> old"

definition wider_network :: "NetworkMode \<Rightarrow> NetworkMode \<Rightarrow> bool" where
  "wider_network v old \<longleftrightarrow> network_rank v > network_rank old"

definition wider_sandbox :: "SandboxMode \<Rightarrow> SandboxMode \<Rightarrow> bool" where
  "wider_sandbox v old \<longleftrightarrow> sandbox_rank v < sandbox_rank old"

definition wider_budget :: "32 word \<Rightarrow> 32 word \<Rightarrow> bool" where
  "wider_budget v old \<longleftrightarrow> old \<noteq> 0 \<and> (v = 0 \<or> v > old)"

definition wider_mode :: "PermissionMode \<Rightarrow> PermissionMode \<Rightarrow> bool" where
  "wider_mode v old \<longleftrightarrow> to_u8 v > to_u8 old"

named_theorems rule_defs \<open>the definitions of the three rules\<close>

declare any_layer_def [rule_defs] not_project_def [rule_defs] tighten_only_def [rule_defs]
  refused_def [rule_defs] refused_wider_def [rule_defs]

lemma with_setting_eq:
  "with_setting raw field layer parse use st =
     (case read_setting parse raw of
        Some v \<Rightarrow> use v st
      | None \<Rightarrow> st\<lparr>ls_pending := ls_pending st @ misspelled raw field layer parse\<rparr>)"
  by (auto simp: with_setting_def parse_setting_def read_setting_def misspelled_def not_blank_def Let_def
      split: option.splits)

lemma misspelled_read: "read_setting parse raw = Some v \<Longrightarrow> misspelled raw field layer parse = []"
  by (auto simp: read_setting_def misspelled_def split: option.splits)

lemma keep_field:
  "st\<lparr>ls_config := ls_config st\<rparr> = st" "st\<lparr>ls_pending := ls_pending st\<rparr> = st"
  by simp_all

lemmas step_rules = with_setting_eq reject_project_def warn_def rule_defs wider_lsp_def wider_network_def
  wider_sandbox_def wider_budget_def wider_mode_def not_blank_def misspelled_read Let_def

text \<open>Each step of the overlay is one of the three rules on one field.\<close>

named_theorems overlay_steps \<open>what a step of a layer does to configuration, sources and warnings\<close>

lemma overlay_api_key_step [overlay_steps]:
  "ls_config (overlay_api_key f layer st) = ac_api_key_update (not_project layer (map_option Some (not_blank
      (pv_api_key (cf_provider f))))) (ls_config st)"
  "ls_sources (overlay_api_key f layer st) = src_api_key_update (\<lambda>old. if layer = Project then old else case
      map_option Some (not_blank (pv_api_key (cf_provider f))) of None \<Rightarrow> old | Some _ \<Rightarrow>
      layer) (ls_sources st)"
  "ls_pending (overlay_api_key f layer st) = ls_pending st @ refused CfgProjectApiKeyIgnored layer (not_blank
      (pv_api_key (cf_provider f)))"
  by (auto simp: overlay_api_key_def step_rules split: option.splits)

lemma overlay_base_url_step [overlay_steps]:
  "ls_config (overlay_base_url f layer st) = ac_base_url_update (not_project layer (not_blank (pv_base_url
      (cf_provider f)))) (ls_config st)"
  "ls_sources (overlay_base_url f layer st) = src_base_url_update (\<lambda>old. if layer = Project then old else
      case not_blank (pv_base_url (cf_provider f)) of None \<Rightarrow> old | Some _ \<Rightarrow> layer)
      (ls_sources st)"
  "ls_pending (overlay_base_url f layer st) = ls_pending st @ refused (CfgProjectBaseUrlIgnored (the (pv_base_url
      (cf_provider f)))) layer (not_blank (pv_base_url (cf_provider f)))"
  by (auto simp: overlay_base_url_def step_rules split: option.splits)

lemma overlay_model_step [overlay_steps]:
  "ls_config (overlay_model f layer st) = ac_model_update (any_layer (not_blank (pv_model (cf_provider f))))
      (ls_config st)"
  "ls_sources (overlay_model f layer st) = src_model_update (\<lambda>old. case not_blank (pv_model (cf_provider f))
      of None \<Rightarrow> old | Some _ \<Rightarrow> layer) (ls_sources st)"
  "ls_pending (overlay_model f layer st) = ls_pending st @ []"
  by (auto simp: overlay_model_def step_rules split: option.splits)

lemma overlay_reasoning_effort_step [overlay_steps]:
  "ls_config (overlay_reasoning_effort f layer st) = ac_reasoning_effort_update (any_layer (read_setting
      effort_parse (pv_reasoning_effort (cf_provider f)))) (ls_config st)"
  "ls_sources (overlay_reasoning_effort f layer st) = src_reasoning_effort_update (\<lambda>old. case read_setting
      effort_parse (pv_reasoning_effort (cf_provider f)) of None \<Rightarrow> old | Some _ \<Rightarrow> layer)
      (ls_sources st)"
  "ls_pending (overlay_reasoning_effort f layer st) = ls_pending st @ misspelled (pv_reasoning_effort (cf_provider
      f)) ''provider.reasoning_effort'' layer effort_parse"
  by (auto simp: overlay_reasoning_effort_def step_rules split: option.splits)

lemma overlay_timeout_step [overlay_steps]:
  "ls_config (overlay_timeout f layer st) = ac_timeout_update (not_project layer (map_option Some (pv_timeout_secs
      (cf_provider f)))) (ls_config st)"
  "ls_sources (overlay_timeout f layer st) = ls_sources st"
  "ls_pending (overlay_timeout f layer st) = ls_pending st @ refused (CfgProjectFieldIgnored
      ''provider.timeout_secs'') layer (pv_timeout_secs (cf_provider f))"
  by (auto simp: overlay_timeout_def step_rules split: option.splits)

lemma overlay_cost_currency_step [overlay_steps]:
  "ls_config (overlay_cost_currency f layer st) = ac_cost_currency_update (any_layer (read_setting currency_parse
      (co_currency (cf_cost f)))) (ls_config st)"
  "ls_sources (overlay_cost_currency f layer st) = src_cost_currency_update (\<lambda>old. case read_setting
      currency_parse (co_currency (cf_cost f)) of None \<Rightarrow> old | Some _ \<Rightarrow> layer) (ls_sources
      st)"
  "ls_pending (overlay_cost_currency f layer st) = ls_pending st @ misspelled (co_currency (cf_cost f))
      ''cost.currency'' layer currency_parse"
  by (auto simp: overlay_cost_currency_def step_rules split: option.splits)

lemma overlay_auto_cost_saving_step [overlay_steps]:
  "ls_config (overlay_auto_cost_saving f layer st) = ac_auto_cost_saving_update (not_project layer
      (co_auto_cost_saving (cf_cost f))) (ls_config st)"
  "ls_sources (overlay_auto_cost_saving f layer st) = ls_sources st"
  "ls_pending (overlay_auto_cost_saving f layer st) = ls_pending st @ refused (CfgProjectFieldIgnored
      ''cost.auto_cost_saving'') layer (co_auto_cost_saving (cf_cost f))"
  by (auto simp: overlay_auto_cost_saving_def step_rules split: option.splits)

lemma overlay_compaction_threshold_step [overlay_steps]:
  "ls_config (overlay_compaction_threshold f layer st) = ac_compaction_threshold_update (not_project layer
      (map_option Some (cx_compaction_threshold (cf_context f)))) (ls_config st)"
  "ls_sources (overlay_compaction_threshold f layer st) = ls_sources st"
  "ls_pending (overlay_compaction_threshold f layer st) = ls_pending st @ refused (CfgProjectFieldIgnored
      ''context.compaction_threshold'') layer (cx_compaction_threshold (cf_context f))"
  by (auto simp: overlay_compaction_threshold_def step_rules split: option.splits)

lemma overlay_stream_max_retries_step [overlay_steps]:
  "ls_config (overlay_stream_max_retries f layer st) = ac_stream_max_retries_update (not_project layer
      (sm_max_retries (cf_stream f))) (ls_config st)"
  "ls_sources (overlay_stream_max_retries f layer st) = ls_sources st"
  "ls_pending (overlay_stream_max_retries f layer st) = ls_pending st @ refused (CfgProjectFieldIgnored
      ''stream.max_retries'') layer (sm_max_retries (cf_stream f))"
  by (auto simp: overlay_stream_max_retries_def step_rules split: option.splits)

lemma overlay_stream_chunk_timeout_step [overlay_steps]:
  "ls_config (overlay_stream_chunk_timeout f layer st) = ac_stream_chunk_timeout_update (not_project layer
      (sm_chunk_timeout_secs (cf_stream f))) (ls_config st)"
  "ls_sources (overlay_stream_chunk_timeout f layer st) = ls_sources st"
  "ls_pending (overlay_stream_chunk_timeout f layer st) = ls_pending st @ refused (CfgProjectFieldIgnored
      ''stream.chunk_timeout_secs'') layer (sm_chunk_timeout_secs (cf_stream f))"
  by (auto simp: overlay_stream_chunk_timeout_def step_rules split: option.splits)

lemma overlay_stream_total_timeout_step [overlay_steps]:
  "ls_config (overlay_stream_total_timeout f layer st) = ac_stream_total_timeout_update (not_project layer
      (sm_total_timeout_secs (cf_stream f))) (ls_config st)"
  "ls_sources (overlay_stream_total_timeout f layer st) = ls_sources st"
  "ls_pending (overlay_stream_total_timeout f layer st) = ls_pending st @ refused (CfgProjectFieldIgnored
      ''stream.total_timeout_secs'') layer (sm_total_timeout_secs (cf_stream f))"
  by (auto simp: overlay_stream_total_timeout_def step_rules split: option.splits)

lemma overlay_stream_max_bytes_step [overlay_steps]:
  "ls_config (overlay_stream_max_bytes f layer st) = ac_stream_max_bytes_update (not_project layer (sm_max_bytes
      (cf_stream f))) (ls_config st)"
  "ls_sources (overlay_stream_max_bytes f layer st) = ls_sources st"
  "ls_pending (overlay_stream_max_bytes f layer st) = ls_pending st @ refused (CfgProjectFieldIgnored
      ''stream.max_bytes'') layer (sm_max_bytes (cf_stream f))"
  by (auto simp: overlay_stream_max_bytes_def step_rules split: option.splits)

lemma overlay_max_snapshots_step [overlay_steps]:
  "ls_config (overlay_max_snapshots f layer st) = ac_checkpoint_max_snapshots_update (not_project layer
      (cp_max_snapshots (cf_checkpoints f))) (ls_config st)"
  "ls_sources (overlay_max_snapshots f layer st) = ls_sources st"
  "ls_pending (overlay_max_snapshots f layer st) = ls_pending st @ refused (CfgProjectFieldIgnored
      ''checkpoints.max_snapshots'') layer (cp_max_snapshots (cf_checkpoints f))"
  by (auto simp: overlay_max_snapshots_def step_rules split: option.splits)

lemma overlay_language_step [overlay_steps]:
  "ls_config (overlay_language f layer st) = ac_language_update (any_layer (read_setting language_setting
      (ui_language (cf_ui f)))) (ls_config st)"
  "ls_sources (overlay_language f layer st) = ls_sources st"
  "ls_pending (overlay_language f layer st) = ls_pending st @ misspelled (ui_language (cf_ui f)) ''ui.language''
      layer language_setting"
  by (auto simp: overlay_language_def step_rules split: option.splits)

lemma overlay_notifications_step [overlay_steps]:
  "ls_config (overlay_notifications f layer st) = ac_notifications_update (any_layer (ui_notifications (cf_ui f)))
      (ls_config st)"
  "ls_sources (overlay_notifications f layer st) = ls_sources st"
  "ls_pending (overlay_notifications f layer st) = ls_pending st @ []"
  by (auto simp: overlay_notifications_def step_rules split: option.splits)

lemma overlay_lsp_step [overlay_steps]:
  "ls_config (overlay_lsp f layer st) = ac_lsp_enabled_update (tighten_only wider_lsp layer (lsp_enabled (cf_lsp
      f))) (ls_config st)"
  "ls_sources (overlay_lsp f layer st) = ls_sources st"
  "ls_pending (overlay_lsp f layer st) = ls_pending st @ refused_wider wider_lsp (\<lambda>_. ''lsp.enabled=true'')
      layer (lsp_enabled (cf_lsp f)) (ac_lsp_enabled (ls_config st))"
  by (auto simp: overlay_lsp_def step_rules split: option.splits)

lemma overlay_network_step [overlay_steps]:
  "ls_config (overlay_network f layer st) = ac_sandbox_network_update (tighten_only wider_network layer
      (read_setting network_parse (sb_network (cf_sandbox f)))) (ls_config st)"
  "ls_sources (overlay_network f layer st) = ls_sources st"
  "ls_pending (overlay_network f layer st) = ls_pending st @ misspelled (sb_network (cf_sandbox f))
      ''sandbox.network'' layer network_parse @ refused_wider wider_network (\<lambda>v. ''sandbox.network='' @
      network_as_setting v) layer (read_setting network_parse (sb_network (cf_sandbox f))) (ac_sandbox_network
      (ls_config st))"
  by (auto simp: overlay_network_def step_rules split: option.splits)

lemma overlay_sandbox_mode_step [overlay_steps]:
  "ls_config (overlay_sandbox_mode f layer st) = ac_sandbox_mode_update (tighten_only wider_sandbox layer
      (read_setting sandbox_parse (sb_mode (cf_sandbox f)))) (ls_config st)"
  "ls_sources (overlay_sandbox_mode f layer st) = ls_sources st"
  "ls_pending (overlay_sandbox_mode f layer st) = ls_pending st @ misspelled (sb_mode (cf_sandbox f))
      ''sandbox.mode'' layer sandbox_parse @ refused_wider wider_sandbox (\<lambda>v. ''sandbox.mode='' @
      sandbox_as_setting v) layer (read_setting sandbox_parse (sb_mode (cf_sandbox f))) (ac_sandbox_mode (ls_config
      st))"
  by (auto simp: overlay_sandbox_mode_def step_rules split: option.splits)

lemma overlay_turn_steps_step [overlay_steps]:
  "ls_config (overlay_turn_steps f layer st) = ac_turn_steps_update (tighten_only wider_budget layer (bg_turn_steps
      (cf_budget f))) (ls_config st)"
  "ls_sources (overlay_turn_steps f layer st) = ls_sources st"
  "ls_pending (overlay_turn_steps f layer st) = ls_pending st @ refused_wider wider_budget (\<lambda>v.
      ''budget.turn_steps='' @ nat_digits (unat v)) layer (bg_turn_steps (cf_budget f)) (ac_turn_steps (ls_config
      st))"
  by (auto simp: overlay_turn_steps_def step_rules split: option.splits)

lemma overlay_allow_irreversible_step [overlay_steps]:
  "ls_config (overlay_allow_irreversible f layer st) = ac_sandbox_allow_irreversible_update (not_project layer
      (map_option rule_list (sb_allow_irreversible (cf_sandbox f)))) (ls_config st)"
  "ls_sources (overlay_allow_irreversible f layer st) = ls_sources st"
  "ls_pending (overlay_allow_irreversible f layer st) = ls_pending st @ refused (CfgProjectFieldIgnored
      ''sandbox.allow_irreversible'') layer (sb_allow_irreversible (cf_sandbox f))"
  by (auto simp: overlay_allow_irreversible_def step_rules split: option.splits)

lemma overlay_auto_allow_step [overlay_steps]:
  "ls_config (overlay_auto_allow f layer st) = ac_approval_auto_allow_update (not_project layer (map_option
      rule_list (ap_auto_allow (cf_approval f)))) (ls_config st)"
  "ls_sources (overlay_auto_allow f layer st) = ls_sources st"
  "ls_pending (overlay_auto_allow f layer st) = ls_pending st @ refused CfgProjectAutoAllowIgnored layer
      (ap_auto_allow (cf_approval f))"
  by (auto simp: overlay_auto_allow_def step_rules split: option.splits)

lemma overlay_default_mode_step [overlay_steps]:
  "ls_config (overlay_default_mode f layer st) = ac_default_permission_mode_update (tighten_only wider_mode layer
      (read_setting mode_parse (ap_default_mode (cf_approval f)))) (ls_config st)"
  "ls_sources (overlay_default_mode f layer st) = ls_sources st"
  "ls_pending (overlay_default_mode f layer st) = ls_pending st @ misspelled (ap_default_mode (cf_approval f))
      ''approval.default_mode'' layer mode_parse @ refused_wider wider_mode (\<lambda>v. ''approval.default_mode=''
      @ mode_as_setting v) layer (read_setting mode_parse (ap_default_mode (cf_approval f)))
      (ac_default_permission_mode (ls_config st))"
  by (auto simp: overlay_default_mode_def step_rules split: option.splits)

lemma overlay_detail_step [overlay_steps]:
  "ls_config (overlay_detail f layer st) = ac_vision_detail_update (any_layer (read_setting detail_parse (vi_detail
      (cf_vision f)))) (ls_config st)"
  "ls_sources (overlay_detail f layer st) = ls_sources st"
  "ls_pending (overlay_detail f layer st) = ls_pending st @ misspelled (vi_detail (cf_vision f)) ''vision.detail''
      layer detail_parse"
  by (auto simp: overlay_detail_def step_rules split: option.splits)

text \<open>A file as a whole, field by field.\<close>

lemma overlay_fields:
  "ac_api_key (ls_config (apply_file_overlay f layer st)) =
     not_project layer (map_option Some (not_blank (pv_api_key (cf_provider f)))) (ac_api_key (ls_config st))"
  "ac_base_url (ls_config (apply_file_overlay f layer st)) =
     not_project layer (not_blank (pv_base_url (cf_provider f))) (ac_base_url (ls_config st))"
  "ac_model (ls_config (apply_file_overlay f layer st)) =
     any_layer (not_blank (pv_model (cf_provider f))) (ac_model (ls_config st))"
  "ac_reasoning_effort (ls_config (apply_file_overlay f layer st)) =
     any_layer (read_setting effort_parse (pv_reasoning_effort (cf_provider f))) (ac_reasoning_effort (ls_config
         st))"
  "ac_timeout (ls_config (apply_file_overlay f layer st)) =
     not_project layer (map_option Some (pv_timeout_secs (cf_provider f))) (ac_timeout (ls_config st))"
  "ac_cost_currency (ls_config (apply_file_overlay f layer st)) =
     any_layer (read_setting currency_parse (co_currency (cf_cost f))) (ac_cost_currency (ls_config st))"
  "ac_auto_cost_saving (ls_config (apply_file_overlay f layer st)) =
     not_project layer (co_auto_cost_saving (cf_cost f)) (ac_auto_cost_saving (ls_config st))"
  "ac_compaction_threshold (ls_config (apply_file_overlay f layer st)) =
     not_project layer (map_option Some (cx_compaction_threshold (cf_context f))) (ac_compaction_threshold
         (ls_config st))"
  "ac_stream_max_retries (ls_config (apply_file_overlay f layer st)) =
     not_project layer (sm_max_retries (cf_stream f)) (ac_stream_max_retries (ls_config st))"
  "ac_stream_chunk_timeout (ls_config (apply_file_overlay f layer st)) =
     not_project layer (sm_chunk_timeout_secs (cf_stream f)) (ac_stream_chunk_timeout (ls_config st))"
  "ac_stream_total_timeout (ls_config (apply_file_overlay f layer st)) =
     not_project layer (sm_total_timeout_secs (cf_stream f)) (ac_stream_total_timeout (ls_config st))"
  "ac_stream_max_bytes (ls_config (apply_file_overlay f layer st)) =
     not_project layer (sm_max_bytes (cf_stream f)) (ac_stream_max_bytes (ls_config st))"
  "ac_checkpoint_max_snapshots (ls_config (apply_file_overlay f layer st)) =
     not_project layer (cp_max_snapshots (cf_checkpoints f)) (ac_checkpoint_max_snapshots (ls_config st))"
  "ac_language (ls_config (apply_file_overlay f layer st)) =
     any_layer (read_setting language_setting (ui_language (cf_ui f))) (ac_language (ls_config st))"
  "ac_notifications (ls_config (apply_file_overlay f layer st)) =
     any_layer (ui_notifications (cf_ui f)) (ac_notifications (ls_config st))"
  "ac_lsp_enabled (ls_config (apply_file_overlay f layer st)) =
     tighten_only wider_lsp layer (lsp_enabled (cf_lsp f)) (ac_lsp_enabled (ls_config st))"
  "ac_sandbox_network (ls_config (apply_file_overlay f layer st)) =
     tighten_only wider_network layer (read_setting network_parse (sb_network (cf_sandbox f))) (ac_sandbox_network
         (ls_config st))"
  "ac_sandbox_mode (ls_config (apply_file_overlay f layer st)) =
     tighten_only wider_sandbox layer (read_setting sandbox_parse (sb_mode (cf_sandbox f))) (ac_sandbox_mode
         (ls_config st))"
  "ac_turn_steps (ls_config (apply_file_overlay f layer st)) =
     tighten_only wider_budget layer (bg_turn_steps (cf_budget f)) (ac_turn_steps (ls_config st))"
  "ac_sandbox_allow_irreversible (ls_config (apply_file_overlay f layer st)) =
     not_project layer (map_option rule_list (sb_allow_irreversible (cf_sandbox f))) (ac_sandbox_allow_irreversible
         (ls_config st))"
  "ac_approval_auto_allow (ls_config (apply_file_overlay f layer st)) =
     not_project layer (map_option rule_list (ap_auto_allow (cf_approval f))) (ac_approval_auto_allow (ls_config
         st))"
  "ac_default_permission_mode (ls_config (apply_file_overlay f layer st)) =
     tighten_only wider_mode layer (read_setting mode_parse (ap_default_mode (cf_approval f)))
         (ac_default_permission_mode (ls_config st))"
  "ac_vision_detail (ls_config (apply_file_overlay f layer st)) =
     any_layer (read_setting detail_parse (vi_detail (cf_vision f))) (ac_vision_detail (ls_config st))"
  by (simp_all add: apply_file_overlay_def overlay_steps Let_def)

lemma overlay_sources:
  "src_api_key (ls_sources (apply_file_overlay f layer st)) =
     (if layer = Project then src_api_key (ls_sources st) else case map_option Some (not_blank (pv_api_key
         (cf_provider f))) of None \<Rightarrow> src_api_key (ls_sources st) | Some _ \<Rightarrow> layer)"
  "src_base_url (ls_sources (apply_file_overlay f layer st)) =
     (if layer = Project then src_base_url (ls_sources st) else case not_blank (pv_base_url (cf_provider f)) of None
         \<Rightarrow> src_base_url (ls_sources st) | Some _ \<Rightarrow> layer)"
  "src_model (ls_sources (apply_file_overlay f layer st)) =
     (case not_blank (pv_model (cf_provider f)) of None \<Rightarrow> src_model (ls_sources st) | Some _
         \<Rightarrow> layer)"
  "src_reasoning_effort (ls_sources (apply_file_overlay f layer st)) =
     (case read_setting effort_parse (pv_reasoning_effort (cf_provider f)) of None \<Rightarrow>
         src_reasoning_effort (ls_sources st) | Some _ \<Rightarrow> layer)"
  "src_cost_currency (ls_sources (apply_file_overlay f layer st)) =
     (case read_setting currency_parse (co_currency (cf_cost f)) of None \<Rightarrow> src_cost_currency (ls_sources
         st) | Some _ \<Rightarrow> layer)"
  by (simp_all add: apply_file_overlay_def overlay_steps Let_def)

lemma overlay_warnings:
  "ls_pending (apply_file_overlay f layer st) = ls_pending st @
     refused CfgProjectApiKeyIgnored layer (not_blank (pv_api_key (cf_provider f))) @
     refused (CfgProjectBaseUrlIgnored (the (pv_base_url (cf_provider f)))) layer (not_blank (pv_base_url
         (cf_provider f))) @
     misspelled (pv_reasoning_effort (cf_provider f)) ''provider.reasoning_effort'' layer effort_parse @
     refused (CfgProjectFieldIgnored ''provider.timeout_secs'') layer (pv_timeout_secs (cf_provider f)) @
     misspelled (co_currency (cf_cost f)) ''cost.currency'' layer currency_parse @
     refused (CfgProjectFieldIgnored ''cost.auto_cost_saving'') layer (co_auto_cost_saving (cf_cost f)) @
     refused (CfgProjectFieldIgnored ''context.compaction_threshold'') layer (cx_compaction_threshold (cf_context
         f)) @
     refused (CfgProjectFieldIgnored ''stream.max_retries'') layer (sm_max_retries (cf_stream f)) @
     refused (CfgProjectFieldIgnored ''stream.chunk_timeout_secs'') layer (sm_chunk_timeout_secs (cf_stream f)) @
     refused (CfgProjectFieldIgnored ''stream.total_timeout_secs'') layer (sm_total_timeout_secs (cf_stream f)) @
     refused (CfgProjectFieldIgnored ''stream.max_bytes'') layer (sm_max_bytes (cf_stream f)) @
     refused (CfgProjectFieldIgnored ''checkpoints.max_snapshots'') layer (cp_max_snapshots (cf_checkpoints f)) @
     misspelled (ui_language (cf_ui f)) ''ui.language'' layer language_setting @
     refused_wider wider_lsp (\<lambda>_. ''lsp.enabled=true'') layer (lsp_enabled (cf_lsp f)) (ac_lsp_enabled
         (ls_config st)) @
     misspelled (sb_network (cf_sandbox f)) ''sandbox.network'' layer network_parse @ refused_wider wider_network
         (\<lambda>v. ''sandbox.network='' @ network_as_setting v) layer (read_setting network_parse (sb_network
         (cf_sandbox f))) (ac_sandbox_network (ls_config st)) @
     misspelled (sb_mode (cf_sandbox f)) ''sandbox.mode'' layer sandbox_parse @ refused_wider wider_sandbox
         (\<lambda>v. ''sandbox.mode='' @ sandbox_as_setting v) layer (read_setting sandbox_parse (sb_mode
         (cf_sandbox f))) (ac_sandbox_mode (ls_config st)) @
     refused_wider wider_budget (\<lambda>v. ''budget.turn_steps='' @ nat_digits (unat v)) layer (bg_turn_steps
         (cf_budget f)) (ac_turn_steps (ls_config st)) @
     refused (CfgProjectFieldIgnored ''sandbox.allow_irreversible'') layer (sb_allow_irreversible (cf_sandbox f)) @
     refused CfgProjectAutoAllowIgnored layer (ap_auto_allow (cf_approval f)) @
     misspelled (ap_default_mode (cf_approval f)) ''approval.default_mode'' layer mode_parse @ refused_wider
         wider_mode (\<lambda>v. ''approval.default_mode='' @ mode_as_setting v) layer (read_setting mode_parse
         (ap_default_mode (cf_approval f))) (ac_default_permission_mode (ls_config st)) @
     misspelled (vi_detail (cf_vision f)) ''vision.detail'' layer detail_parse"
  by (simp add: apply_file_overlay_def overlay_steps Let_def)

lemma env_api_key_step [overlay_steps]:
  "ls_config (env_api_key env st) = ac_api_key_update (any_layer (map_option Some (not_blank (env
      ''DEEPSEEK_API_KEY'')))) (ls_config st)"
  "ls_sources (env_api_key env st) = src_api_key_update (\<lambda>old. case map_option Some (not_blank (env
      ''DEEPSEEK_API_KEY'')) of None \<Rightarrow> old | Some _ \<Rightarrow> Env) (ls_sources st)"
  "ls_pending (env_api_key env st) = ls_pending st"
  by (auto simp: env_api_key_def env_setting_def step_rules split: option.splits)

lemma env_model_step [overlay_steps]:
  "ls_config (env_model env st) = ac_model_update (any_layer (not_blank (env ''DEEP_CODE_MODEL''))) (ls_config st)"
  "ls_sources (env_model env st) = src_model_update (\<lambda>old. case not_blank (env ''DEEP_CODE_MODEL'') of None
      \<Rightarrow> old | Some _ \<Rightarrow> Env) (ls_sources st)"
  "ls_pending (env_model env st) = ls_pending st"
  by (auto simp: env_model_def env_setting_def step_rules split: option.splits)

lemma env_reasoning_effort_step [overlay_steps]:
  "ls_config (env_reasoning_effort env st) = ac_reasoning_effort_update (any_layer (read_setting effort_parse (env
      ''DEEP_CODE_REASONING_EFFORT''))) (ls_config st)"
  "ls_sources (env_reasoning_effort env st) = src_reasoning_effort_update (\<lambda>old. case read_setting
      effort_parse (env ''DEEP_CODE_REASONING_EFFORT'') of None \<Rightarrow> old | Some _ \<Rightarrow> Env)
      (ls_sources st)"
  "ls_pending (env_reasoning_effort env st) = ls_pending st @ misspelled (env ''DEEP_CODE_REASONING_EFFORT'')
      ''DEEP_CODE_REASONING_EFFORT'' Env effort_parse"
  by (auto simp: env_reasoning_effort_def env_setting_def step_rules split: option.splits)

lemma env_language_step [overlay_steps]:
  "ls_config (env_language env st) = ac_language_update (any_layer (read_setting language_setting (env
      ''DEEP_CODE_LANG''))) (ls_config st)"
  "ls_sources (env_language env st) = ls_sources st"
  "ls_pending (env_language env st) = ls_pending st @ misspelled (env ''DEEP_CODE_LANG'') ''DEEP_CODE_LANG'' Env
      language_setting"
  by (auto simp: env_language_def env_setting_def step_rules split: option.splits)

lemma env_auto_cost_saving_step [overlay_steps]:
  "ls_config (env_auto_cost_saving env st) = ac_auto_cost_saving_update (any_layer (read_setting parse_bool_setting
      (env ''DEEP_CODE_AUTO_COST_SAVING''))) (ls_config st)"
  "ls_sources (env_auto_cost_saving env st) = ls_sources st"
  "ls_pending (env_auto_cost_saving env st) = ls_pending st @ misspelled (env ''DEEP_CODE_AUTO_COST_SAVING'')
      ''DEEP_CODE_AUTO_COST_SAVING'' Env parse_bool_setting"
  by (auto simp: env_auto_cost_saving_def env_setting_def step_rules split: option.splits)

lemma env_cost_currency_step [overlay_steps]:
  "ls_config (env_cost_currency env st) = ac_cost_currency_update (any_layer (read_setting currency_parse (env
      ''DEEP_CODE_COST_CURRENCY''))) (ls_config st)"
  "ls_sources (env_cost_currency env st) = src_cost_currency_update (\<lambda>old. case read_setting currency_parse
      (env ''DEEP_CODE_COST_CURRENCY'') of None \<Rightarrow> old | Some _ \<Rightarrow> Env) (ls_sources st)"
  "ls_pending (env_cost_currency env st) = ls_pending st @ misspelled (env ''DEEP_CODE_COST_CURRENCY'')
      ''DEEP_CODE_COST_CURRENCY'' Env currency_parse"
  by (auto simp: env_cost_currency_def env_setting_def step_rules split: option.splits)

lemma env_compaction_threshold_step [overlay_steps]:
  "ls_config (env_compaction_threshold env st) = ac_compaction_threshold_update (any_layer (map_option Some
      (read_setting parse_u32 (env ''DEEP_CODE_COMPACTION_THRESHOLD'')))) (ls_config st)"
  "ls_sources (env_compaction_threshold env st) = ls_sources st"
  "ls_pending (env_compaction_threshold env st) = ls_pending st @ misspelled (env
      ''DEEP_CODE_COMPACTION_THRESHOLD'') ''DEEP_CODE_COMPACTION_THRESHOLD'' Env parse_u32"
  by (auto simp: env_compaction_threshold_def env_setting_def step_rules split: option.splits)

lemma env_stream_max_retries_step [overlay_steps]:
  "ls_config (env_stream_max_retries env st) = ac_stream_max_retries_update (any_layer (read_setting parse_u32 (env
      ''DEEP_CODE_STREAM_MAX_RETRIES''))) (ls_config st)"
  "ls_sources (env_stream_max_retries env st) = ls_sources st"
  "ls_pending (env_stream_max_retries env st) = ls_pending st @ misspelled (env ''DEEP_CODE_STREAM_MAX_RETRIES'')
      ''DEEP_CODE_STREAM_MAX_RETRIES'' Env parse_u32"
  by (auto simp: env_stream_max_retries_def env_setting_def step_rules split: option.splits)

lemma env_stream_chunk_timeout_step [overlay_steps]:
  "ls_config (env_stream_chunk_timeout env st) = ac_stream_chunk_timeout_update (any_layer (read_setting parse_u64
      (env ''DEEP_CODE_STREAM_CHUNK_TIMEOUT_SECS''))) (ls_config st)"
  "ls_sources (env_stream_chunk_timeout env st) = ls_sources st"
  "ls_pending (env_stream_chunk_timeout env st) = ls_pending st @ misspelled (env
      ''DEEP_CODE_STREAM_CHUNK_TIMEOUT_SECS'') ''DEEP_CODE_STREAM_CHUNK_TIMEOUT_SECS'' Env parse_u64"
  by (auto simp: env_stream_chunk_timeout_def env_setting_def step_rules split: option.splits)

lemma env_stream_total_timeout_step [overlay_steps]:
  "ls_config (env_stream_total_timeout env st) = ac_stream_total_timeout_update (any_layer (read_setting parse_u64
      (env ''DEEP_CODE_STREAM_TOTAL_TIMEOUT_SECS''))) (ls_config st)"
  "ls_sources (env_stream_total_timeout env st) = ls_sources st"
  "ls_pending (env_stream_total_timeout env st) = ls_pending st @ misspelled (env
      ''DEEP_CODE_STREAM_TOTAL_TIMEOUT_SECS'') ''DEEP_CODE_STREAM_TOTAL_TIMEOUT_SECS'' Env parse_u64"
  by (auto simp: env_stream_total_timeout_def env_setting_def step_rules split: option.splits)

lemma env_stream_max_bytes_step [overlay_steps]:
  "ls_config (env_stream_max_bytes env st) = ac_stream_max_bytes_update (any_layer (read_setting parse_u64 (env
      ''DEEP_CODE_STREAM_MAX_BYTES''))) (ls_config st)"
  "ls_sources (env_stream_max_bytes env st) = ls_sources st"
  "ls_pending (env_stream_max_bytes env st) = ls_pending st @ misspelled (env ''DEEP_CODE_STREAM_MAX_BYTES'')
      ''DEEP_CODE_STREAM_MAX_BYTES'' Env parse_u64"
  by (auto simp: env_stream_max_bytes_def env_setting_def step_rules split: option.splits)

lemma env_max_snapshots_step [overlay_steps]:
  "ls_config (env_max_snapshots env st) = ac_checkpoint_max_snapshots_update (any_layer (read_setting parse_u64 (env
      ''DEEP_CODE_CHECKPOINT_MAX_SNAPSHOTS''))) (ls_config st)"
  "ls_sources (env_max_snapshots env st) = ls_sources st"
  "ls_pending (env_max_snapshots env st) = ls_pending st @ misspelled (env ''DEEP_CODE_CHECKPOINT_MAX_SNAPSHOTS'')
      ''DEEP_CODE_CHECKPOINT_MAX_SNAPSHOTS'' Env parse_u64"
  by (auto simp: env_max_snapshots_def env_setting_def step_rules split: option.splits)

lemma env_auto_allow_step [overlay_steps]:
  "ls_config (env_auto_allow env st) = ac_approval_auto_allow_update (any_layer (map_option (\<lambda>v. rule_list
      (split_on (\<lambda>c. c = CHR '','') v)) (env ''DEEP_CODE_APPROVAL_AUTO_ALLOW''))) (ls_config st)"
  "ls_sources (env_auto_allow env st) = ls_sources st"
  "ls_pending (env_auto_allow env st) = ls_pending st"
  by (auto simp: env_auto_allow_def env_setting_def step_rules split: option.splits)

lemma env_fields:
  "ac_api_key (ls_config (apply_env_overlay env st)) = 
     any_layer (map_option Some (not_blank (env ''DEEPSEEK_API_KEY''))) (ac_api_key (ls_config st))"
  "ac_base_url (ls_config (apply_env_overlay env st)) = ac_base_url (ls_config st)"
  "ac_model (ls_config (apply_env_overlay env st)) = 
     any_layer (not_blank (env ''DEEP_CODE_MODEL'')) (ac_model (ls_config st))"
  "ac_reasoning_effort (ls_config (apply_env_overlay env st)) = 
     any_layer (read_setting effort_parse (env ''DEEP_CODE_REASONING_EFFORT'')) (ac_reasoning_effort (ls_config
         st))"
  "ac_timeout (ls_config (apply_env_overlay env st)) = ac_timeout (ls_config st)"
  "ac_cost_currency (ls_config (apply_env_overlay env st)) = 
     any_layer (read_setting currency_parse (env ''DEEP_CODE_COST_CURRENCY'')) (ac_cost_currency (ls_config st))"
  "ac_auto_cost_saving (ls_config (apply_env_overlay env st)) = 
     any_layer (read_setting parse_bool_setting (env ''DEEP_CODE_AUTO_COST_SAVING'')) (ac_auto_cost_saving
         (ls_config st))"
  "ac_compaction_threshold (ls_config (apply_env_overlay env st)) = 
     any_layer (map_option Some (read_setting parse_u32 (env ''DEEP_CODE_COMPACTION_THRESHOLD'')))
         (ac_compaction_threshold (ls_config st))"
  "ac_stream_max_retries (ls_config (apply_env_overlay env st)) = 
     any_layer (read_setting parse_u32 (env ''DEEP_CODE_STREAM_MAX_RETRIES'')) (ac_stream_max_retries (ls_config
         st))"
  "ac_stream_chunk_timeout (ls_config (apply_env_overlay env st)) = 
     any_layer (read_setting parse_u64 (env ''DEEP_CODE_STREAM_CHUNK_TIMEOUT_SECS'')) (ac_stream_chunk_timeout
         (ls_config st))"
  "ac_stream_total_timeout (ls_config (apply_env_overlay env st)) = 
     any_layer (read_setting parse_u64 (env ''DEEP_CODE_STREAM_TOTAL_TIMEOUT_SECS'')) (ac_stream_total_timeout
         (ls_config st))"
  "ac_stream_max_bytes (ls_config (apply_env_overlay env st)) = 
     any_layer (read_setting parse_u64 (env ''DEEP_CODE_STREAM_MAX_BYTES'')) (ac_stream_max_bytes (ls_config st))"
  "ac_checkpoint_max_snapshots (ls_config (apply_env_overlay env st)) = 
     any_layer (read_setting parse_u64 (env ''DEEP_CODE_CHECKPOINT_MAX_SNAPSHOTS'')) (ac_checkpoint_max_snapshots
         (ls_config st))"
  "ac_language (ls_config (apply_env_overlay env st)) = 
     any_layer (read_setting language_setting (env ''DEEP_CODE_LANG'')) (ac_language (ls_config st))"
  "ac_notifications (ls_config (apply_env_overlay env st)) = ac_notifications (ls_config st)"
  "ac_lsp_enabled (ls_config (apply_env_overlay env st)) = ac_lsp_enabled (ls_config st)"
  "ac_sandbox_network (ls_config (apply_env_overlay env st)) = ac_sandbox_network (ls_config st)"
  "ac_sandbox_mode (ls_config (apply_env_overlay env st)) = ac_sandbox_mode (ls_config st)"
  "ac_turn_steps (ls_config (apply_env_overlay env st)) = ac_turn_steps (ls_config st)"
  "ac_sandbox_allow_irreversible (ls_config (apply_env_overlay env st)) = ac_sandbox_allow_irreversible (ls_config
      st)"
  "ac_approval_auto_allow (ls_config (apply_env_overlay env st)) = 
     any_layer (map_option (\<lambda>v. rule_list (split_on (\<lambda>c. c = CHR '','') v)) (env
         ''DEEP_CODE_APPROVAL_AUTO_ALLOW'')) (ac_approval_auto_allow (ls_config st))"
  "ac_default_permission_mode (ls_config (apply_env_overlay env st)) = ac_default_permission_mode (ls_config st)"
  "ac_vision_detail (ls_config (apply_env_overlay env st)) = ac_vision_detail (ls_config st)"
  by (simp_all add: apply_env_overlay_def overlay_steps Let_def)

lemma env_sources:
  "src_api_key (ls_sources (apply_env_overlay env st)) =
     (case map_option Some (not_blank (env ''DEEPSEEK_API_KEY'')) of None \<Rightarrow> src_api_key (ls_sources st)
         | Some _ \<Rightarrow> Env)"
  "src_model (ls_sources (apply_env_overlay env st)) =
     (case not_blank (env ''DEEP_CODE_MODEL'') of None \<Rightarrow> src_model (ls_sources st) | Some _
         \<Rightarrow> Env)"
  "src_reasoning_effort (ls_sources (apply_env_overlay env st)) =
     (case read_setting effort_parse (env ''DEEP_CODE_REASONING_EFFORT'') of None \<Rightarrow> src_reasoning_effort
         (ls_sources st) | Some _ \<Rightarrow> Env)"
  "src_cost_currency (ls_sources (apply_env_overlay env st)) =
     (case read_setting currency_parse (env ''DEEP_CODE_COST_CURRENCY'') of None \<Rightarrow> src_cost_currency
         (ls_sources st) | Some _ \<Rightarrow> Env)"
  "src_base_url (ls_sources (apply_env_overlay env st)) = src_base_url (ls_sources st)"
  by (simp_all add: apply_env_overlay_def overlay_steps Let_def)

section \<open>A file of the workspace never widens\<close>

text \<open>\<open>c'\<close> gives away nothing that \<open>c\<close> does not: the key and where it is sent, the
    standing consents and
  exemptions, the limits of streams, snapshots, compaction and cost are those of \<open>c\<close>; the language
      server, the
  network, the sandbox, the budget of a turn and the permission mode are at least as strict.\<close>

definition no_looser :: "AgentConfig \<Rightarrow> AgentConfig \<Rightarrow> bool" where
  "no_looser c' c \<longleftrightarrow>
     ac_api_key c' = ac_api_key c \<and>
     ac_base_url c' = ac_base_url c \<and>
     ac_timeout c' = ac_timeout c \<and>
     ac_auto_cost_saving c' = ac_auto_cost_saving c \<and>
     ac_compaction_threshold c' = ac_compaction_threshold c \<and>
     ac_stream_max_retries c' = ac_stream_max_retries c \<and>
     ac_stream_chunk_timeout c' = ac_stream_chunk_timeout c \<and>
     ac_stream_total_timeout c' = ac_stream_total_timeout c \<and>
     ac_stream_max_bytes c' = ac_stream_max_bytes c \<and>
     ac_checkpoint_max_snapshots c' = ac_checkpoint_max_snapshots c \<and>
     ac_sandbox_allow_irreversible c' = ac_sandbox_allow_irreversible c \<and>
     ac_approval_auto_allow c' = ac_approval_auto_allow c \<and>
     \<not> wider_lsp (ac_lsp_enabled c') (ac_lsp_enabled c) \<and>
     \<not> wider_network (ac_sandbox_network c') (ac_sandbox_network c) \<and>
     \<not> wider_sandbox (ac_sandbox_mode c') (ac_sandbox_mode c) \<and>
     \<not> wider_budget (ac_turn_steps c') (ac_turn_steps c) \<and>
     \<not> wider_mode (ac_default_permission_mode c') (ac_default_permission_mode c)"

lemma wider_irrefl [simp]:
  "\<not> wider_lsp a a" "\<not> wider_network n n" "\<not> wider_sandbox s s" "\<not> wider_budget b b" "\<not>
      wider_mode m m"
  by (simp_all add: wider_lsp_def wider_network_def wider_sandbox_def wider_budget_def wider_mode_def)

lemma tighten_stays: "\<not> wider old old \<Longrightarrow> \<not> wider (tighten_only wider Project given old)
    old"
  by (simp add: tighten_only_def split: option.split)

lemma not_project_stays: "not_project Project given old = old"
  by (simp add: not_project_def)

lemma no_looser_refl: "no_looser c c"
  by (simp add: no_looser_def)

lemma project_overlay_no_looser: "no_looser (ls_config (apply_file_overlay f Project st)) (ls_config st)"
  by (simp add: no_looser_def overlay_fields tighten_stays not_project_stays)

lemma env_no_looser:
  assumes "no_looser (ls_config a) (ls_config b)"
  shows "no_looser (ls_config (apply_env_overlay env a)) (ls_config (apply_env_overlay env b))"
  using assms by (simp add: no_looser_def env_fields)

lemma overlay_same:
  assumes "ls_config a = ls_config b" "ls_sources a = ls_sources b"
  shows "ls_config (apply_file_overlay f layer a) = ls_config (apply_file_overlay f layer b)"
    "ls_sources (apply_file_overlay f layer a) = ls_sources (apply_file_overlay f layer b)"
  using assms by (simp_all add: apply_file_overlay_def overlay_steps Let_def)

lemma env_same:
  assumes "ls_config a = ls_config b" "ls_sources a = ls_sources b"
  shows "ls_config (apply_env_overlay env a) = ls_config (apply_env_overlay env b)"
    "ls_sources (apply_env_overlay env a) = ls_sources (apply_env_overlay env b)"
  using assms by (simp_all add: apply_env_overlay_def overlay_steps Let_def)

lemma warn_fold:
  "ls_config (fold (\<lambda>key. warn (w key)) keys st) = ls_config st"
  "ls_sources (fold (\<lambda>key. warn (w key)) keys st) = ls_sources st"
  "ls_pending (fold (\<lambda>key. warn (w key)) keys st) = ls_pending st @ map w keys"
  by (induction keys arbitrary: st) (simp_all add: warn_def)

text \<open>The file a layer has, when it reads and parses.\<close>

definition file_at :: "(rstr \<Rightarrow> FileRead) \<Rightarrow> rstr option \<Rightarrow> ConfigFile option"
    where
  "file_at read_config at_path =
     Option.bind at_path (\<lambda>p. case read_config p of Parsed f \<Rightarrow> Some f | _ \<Rightarrow> None)"

lemma check_key_same [simp]:
  "ls_config (check_global_key_permissions win mode_of p st) = ls_config st"
  "ls_sources (check_global_key_permissions win mode_of p st) = ls_sources st"
  by (simp_all add: check_global_key_permissions_def warn_def split: option.split)

lemma check_key_pending: "\<exists>perms. ls_pending (check_global_key_permissions win mode_of p st) = ls_pending st
    @ perms"
  by (simp add: check_global_key_permissions_def warn_def split: option.split)

lemma file_layer_same:
  "ls_config (load_file_layer win read_config mode_of (layer, at_path) st) =
     (case file_at read_config at_path of None \<Rightarrow> ls_config st | Some f \<Rightarrow> ls_config
         (apply_file_overlay f layer st))"
  "ls_sources (load_file_layer win read_config mode_of (layer, at_path) st) =
     (case file_at read_config at_path of None \<Rightarrow> ls_sources st | Some f \<Rightarrow> ls_sources
         (apply_file_overlay f layer st))"
  by (auto simp: load_file_layer_def file_at_def push_layer_def warn_def [of "CfgFileUnusable a b" for a b] Let_def
      warn_fold
      intro!: overlay_same split: option.split FileRead.split)

text \<open>C36 (safety). Whatever the file of the workspace holds, and whatever the global file and the environment say, the
  configuration loaded with it is in nothing that matters looser than the one loaded without it.\<close>

theorem project_never_widens:
  "no_looser (lc_config (load_with win read_config mode_of global project env))
     (lc_config (load_with win read_config mode_of global None env))"
proof -
  have "no_looser (ls_config (load_file_layer win read_config mode_of (Project, project) st))
      (ls_config (load_file_layer win read_config mode_of (Project, None) st))" for st
    by (simp add: file_layer_same file_at_def [of _ None] no_looser_refl project_overlay_no_looser split:
        option.split)
  then show ?thesis by (simp add: load_with_def Let_def env_no_looser)
qed

section \<open>The strongest layer that sets a value has it, and the report says which\<close>

text \<open>The last of the layers that give a value, over a built-in one.\<close>

definition strongest :: "'a \<Rightarrow> ('a option \<times> ConfigLayer) list \<Rightarrow> 'a \<times>
    ConfigLayer" where
  "strongest fallback rows = fold (\<lambda>(given, l) old. case given of None \<Rightarrow> old | Some v
      \<Rightarrow> (v, l)) rows (fallback, Builtin)"

text \<open>C37 (equivalence). The key, the address, the model, the effort and the currency of a loaded configuration are what the
  strongest layer gives that gives one, and the report names that layer. The workspace is no layer of the key
  and of the address.\<close>

theorem layers_resolve:
  "case load_with win read_config mode_of global project env of loaded \<Rightarrow>
   case file_at read_config global of g \<Rightarrow> case file_at read_config project of p \<Rightarrow>
     (ac_api_key (lc_config loaded), src_api_key (lc_sources loaded)) =
       strongest None [(map_option Some (Option.bind g (\<lambda>f. not_blank (pv_api_key (cf_provider f)))),
           Global),
         (map_option Some (not_blank (env ''DEEPSEEK_API_KEY'')), Env)] \<and>
     (ac_base_url (lc_config loaded), src_base_url (lc_sources loaded)) =
       strongest DEFAULT_DEEPSEEK_BASE_URL [(Option.bind g (\<lambda>f. not_blank (pv_base_url (cf_provider f))),
           Global)] \<and>
     (ac_model (lc_config loaded), src_model (lc_sources loaded)) =
       strongest DEEPSEEK_V4_PRO [(Option.bind g (\<lambda>f. not_blank (pv_model (cf_provider f))), Global),
         (Option.bind p (\<lambda>f. not_blank (pv_model (cf_provider f))), Project), (not_blank (env
             ''DEEP_CODE_MODEL''), Env)] \<and>
     (ac_reasoning_effort (lc_config loaded), src_reasoning_effort (lc_sources loaded)) =
       strongest EffortHigh
         [(Option.bind g (\<lambda>f. read_setting effort_parse (pv_reasoning_effort (cf_provider f))), Global),
          (Option.bind p (\<lambda>f. read_setting effort_parse (pv_reasoning_effort (cf_provider f))), Project),
          (read_setting effort_parse (env ''DEEP_CODE_REASONING_EFFORT''), Env)] \<and>
     (ac_cost_currency (lc_config loaded), src_cost_currency (lc_sources loaded)) =
       strongest Cny
         [(Option.bind g (\<lambda>f. read_setting currency_parse (co_currency (cf_cost f))), Global),
          (Option.bind p (\<lambda>f. read_setting currency_parse (co_currency (cf_cost f))), Project),
          (read_setting currency_parse (env ''DEEP_CODE_COST_CURRENCY''), Env)]"
  by (cases "file_at read_config global"; cases "file_at read_config project")
    (simp_all add: load_with_def Let_def file_layer_same overlay_fields overlay_sources env_fields env_sources
      strongest_def any_layer_def not_project_def builtin_def default_sources_def split: option.split)

section \<open>No setting of a file is dropped without a word\<close>

text \<open>The setting a warning names.\<close>

definition warned_field :: "PendingWarning \<Rightarrow> rstr" where
  "warned_field w =
     (case w of
        CfgUnknownValue _ field _ \<Rightarrow> field
      | CfgFileUnusable p _ \<Rightarrow> p
      | CfgUnknownKey _ field \<Rightarrow> field
      | CfgProjectApiKeyIgnored \<Rightarrow> ''provider.api_key''
      | CfgProjectBaseUrlIgnored _ \<Rightarrow> ''provider.base_url''
      | CfgProjectFieldIgnored field \<Rightarrow> takeWhile (\<lambda>ch. ch \<noteq> CHR ''='') field
      | CfgProjectAutoAllowIgnored \<Rightarrow> ''approval.auto_allow''
      | CfgGlobalKeyPerms _ \<Rightarrow> ''provider.api_key'')"

text \<open>Every setting of a file: its name, whether the file gives it, whether the configuration holds what it
  gives.\<close>

definition file_settings :: "ConfigFile \<Rightarrow> AgentConfig \<Rightarrow> (rstr \<times> bool \<times> bool)
    list" where
  "file_settings f c =
     [(''provider.api_key'', map_option Some (not_blank (pv_api_key (cf_provider f))) \<noteq> None, map_option Some
         (not_blank (pv_api_key (cf_provider f))) = Some (ac_api_key c)),
      (''provider.base_url'', not_blank (pv_base_url (cf_provider f)) \<noteq> None, not_blank (pv_base_url
          (cf_provider f)) = Some (ac_base_url c)),
      (''provider.model'', not_blank (pv_model (cf_provider f)) \<noteq> None, not_blank (pv_model (cf_provider f))
          = Some (ac_model c)),
      (''provider.reasoning_effort'', not_blank (pv_reasoning_effort (cf_provider f)) \<noteq> None, read_setting
          effort_parse (pv_reasoning_effort (cf_provider f)) = Some (ac_reasoning_effort c)),
      (''provider.timeout_secs'', map_option Some (pv_timeout_secs (cf_provider f)) \<noteq> None, map_option Some
          (pv_timeout_secs (cf_provider f)) = Some (ac_timeout c)),
      (''cost.currency'', not_blank (co_currency (cf_cost f)) \<noteq> None, read_setting currency_parse
          (co_currency (cf_cost f)) = Some (ac_cost_currency c)),
      (''cost.auto_cost_saving'', co_auto_cost_saving (cf_cost f) \<noteq> None, co_auto_cost_saving (cf_cost f) =
          Some (ac_auto_cost_saving c)),
      (''context.compaction_threshold'', map_option Some (cx_compaction_threshold (cf_context f)) \<noteq> None,
          map_option Some (cx_compaction_threshold (cf_context f)) = Some (ac_compaction_threshold c)),
      (''stream.max_retries'', sm_max_retries (cf_stream f) \<noteq> None, sm_max_retries (cf_stream f) = Some
          (ac_stream_max_retries c)),
      (''stream.chunk_timeout_secs'', sm_chunk_timeout_secs (cf_stream f) \<noteq> None, sm_chunk_timeout_secs
          (cf_stream f) = Some (ac_stream_chunk_timeout c)),
      (''stream.total_timeout_secs'', sm_total_timeout_secs (cf_stream f) \<noteq> None, sm_total_timeout_secs
          (cf_stream f) = Some (ac_stream_total_timeout c)),
      (''stream.max_bytes'', sm_max_bytes (cf_stream f) \<noteq> None, sm_max_bytes (cf_stream f) = Some
          (ac_stream_max_bytes c)),
      (''checkpoints.max_snapshots'', cp_max_snapshots (cf_checkpoints f) \<noteq> None, cp_max_snapshots
          (cf_checkpoints f) = Some (ac_checkpoint_max_snapshots c)),
      (''ui.language'', not_blank (ui_language (cf_ui f)) \<noteq> None, read_setting language_setting (ui_language
          (cf_ui f)) = Some (ac_language c)),
      (''ui.notifications'', ui_notifications (cf_ui f) \<noteq> None, ui_notifications (cf_ui f) = Some
          (ac_notifications c)),
      (''lsp.enabled'', lsp_enabled (cf_lsp f) \<noteq> None, lsp_enabled (cf_lsp f) = Some (ac_lsp_enabled c)),
      (''sandbox.network'', not_blank (sb_network (cf_sandbox f)) \<noteq> None, read_setting network_parse
          (sb_network (cf_sandbox f)) = Some (ac_sandbox_network c)),
      (''sandbox.mode'', not_blank (sb_mode (cf_sandbox f)) \<noteq> None, read_setting sandbox_parse (sb_mode
          (cf_sandbox f)) = Some (ac_sandbox_mode c)),
      (''budget.turn_steps'', bg_turn_steps (cf_budget f) \<noteq> None, bg_turn_steps (cf_budget f) = Some
          (ac_turn_steps c)),
      (''sandbox.allow_irreversible'', map_option rule_list (sb_allow_irreversible (cf_sandbox f)) \<noteq> None,
          map_option rule_list (sb_allow_irreversible (cf_sandbox f)) = Some (ac_sandbox_allow_irreversible c)),
      (''approval.auto_allow'', map_option rule_list (ap_auto_allow (cf_approval f)) \<noteq> None, map_option
          rule_list (ap_auto_allow (cf_approval f)) = Some (ac_approval_auto_allow c)),
      (''approval.default_mode'', not_blank (ap_default_mode (cf_approval f)) \<noteq> None, read_setting mode_parse
          (ap_default_mode (cf_approval f)) = Some (ac_default_permission_mode c)),
      (''vision.detail'', not_blank (vi_detail (cf_vision f)) \<noteq> None, read_setting detail_parse (vi_detail
          (cf_vision f)) = Some (ac_vision_detail c))]"

definition names_field :: "rstr \<Rightarrow> PendingWarning list \<Rightarrow> bool" where
  "names_field field ws \<longleftrightarrow> field \<in> set (map warned_field ws)"

lemma names_append: "names_field field (a @ b) \<longleftrightarrow> names_field field a \<or> names_field field b"
  by (auto simp: names_field_def)

lemma names_misspelled:
  "names_field field (misspelled raw name layer parse) \<longleftrightarrow>
     field = name \<and> not_blank raw \<noteq> None \<and> read_setting parse raw = None"
  by (auto simp: names_field_def misspelled_def read_setting_def warned_field_def split: option.split)

lemma names_refused:
  "names_field field (refused w layer given) \<longleftrightarrow> field = warned_field w \<and> layer = Project
      \<and> given \<noteq> None"
  by (auto simp: names_field_def refused_def)

lemma names_wider:
  assumes "\<And>v. takeWhile (\<lambda>ch. ch \<noteq> CHR ''='') (named v) = name"
  shows "names_field field (refused_wider wider named layer given old) \<longleftrightarrow>
     field = name \<and> layer = Project \<and> (\<exists>v. given = Some v \<and> wider v old)"
  using assms by (auto simp: names_field_def refused_wider_def warned_field_def split: option.split)

lemmas names_tightened =
  names_wider [where named = "\<lambda>_. ''lsp.enabled=true''" and name = "''lsp.enabled''", simplified]
  names_wider [where named = "\<lambda>v. ''sandbox.network='' @ network_as_setting v" and name =
      "''sandbox.network''", simplified]
  names_wider [where named = "\<lambda>v. ''sandbox.mode='' @ sandbox_as_setting v" and name = "''sandbox.mode''",
      simplified]
  names_wider [where named = "\<lambda>v. ''budget.turn_steps='' @ nat_digits (unat v)" and name =
      "''budget.turn_steps''", simplified]
  names_wider [where named = "\<lambda>v. ''approval.default_mode='' @ mode_as_setting v" and name =
      "''approval.default_mode''",
    simplified]

lemma overlay_heard:
  "list_all (\<lambda>(field, given, taken). given \<longrightarrow> taken \<or>
      names_field field (drop (length (ls_pending st)) (ls_pending (apply_file_overlay f layer st))))
     (file_settings f (ls_config (apply_file_overlay f layer st)))"
  unfolding file_settings_def overlay_warnings append_eq_conv_conj [THEN iffD1, OF refl, THEN conjunct2]
      list.pred_inject prod.case
  apply (intro conjI)
  apply (simp_all add: names_append names_misspelled names_refused names_tightened warned_field_def)
  apply (simp_all add: overlay_fields rule_defs split: option.split)
  apply blast
  done

lemma list_all_mono: "list_all P xs \<Longrightarrow> (\<And>x. P x \<Longrightarrow> Q x) \<Longrightarrow>
    list_all Q xs"
  by (simp add: list_all_iff)

text \<open>Reading a layer's file: an absent file changes nothing, an unusable one is named with its error, and of
  one that parses every key the schema does not know is named, and every setting it gives is either the
  configuration's value afterwards or named by a warning, in the file of the workspace too.\<close>

theorem file_never_silent:
  "case load_file_layer win read_config mode_of (layer, Some p) st of st' \<Rightarrow>
   case drop (length (ls_pending st)) (ls_pending st') of new \<Rightarrow>
     (case read_config p of
        Missing \<Rightarrow> new = [] \<and> ls_config st' = ls_config st
      | FileError msg \<Rightarrow> new = [CfgFileUnusable p msg] \<and> ls_config st' = ls_config st
      | Parsed f \<Rightarrow>
          list_all (\<lambda>key. CfgUnknownKey (layer_label layer) key \<in> set new) (unknown_keys f) \<and>
          list_all (\<lambda>(field, given, taken). if given then taken \<or> names_field field new else True)
            (file_settings f (ls_config st')))"
proof (cases "read_config p")
  case (Parsed f)
  define s1 where "s1 = fold (\<lambda>key. warn (CfgUnknownKey (layer_label layer) key)) (unknown_keys f)
      (push_layer layer p True None st)"
  define st' where "st' = load_file_layer win read_config mode_of (layer, Some p) st"
  have p1: "ls_pending s1 = ls_pending st @ map (CfgUnknownKey (layer_label layer)) (unknown_keys f)"
    by (simp add: s1_def warn_fold push_layer_def)
  obtain over where o: "ls_pending (apply_file_overlay f layer s1) = ls_pending s1 @ over"
    by (simp add: overlay_warnings)
  have st': "st' = (if layer = Global \<and> not_blank (pv_api_key (cf_provider f)) \<noteq> None
      then check_global_key_permissions win mode_of p (apply_file_overlay f layer s1) else apply_file_overlay f
          layer s1)"
    by (auto simp: st'_def load_file_layer_def Parsed s1_def Let_def)
  obtain perms where p2: "ls_pending st' = ls_pending (apply_file_overlay f layer s1) @ perms"
    using check_key_pending [of win mode_of p] unfolding st' by (cases "layer = Global \<and> not_blank (pv_api_key
        (cf_provider f)) \<noteq> None") auto
  have c: "ls_config st' = ls_config (apply_file_overlay f layer s1)" by (simp add: st')
  have "list_all (\<lambda>(field, given, taken). if given then taken \<or> names_field field
      (drop (length (ls_pending st)) (ls_pending st')) else True) (file_settings f (ls_config st'))"
    unfolding c by (rule list_all_mono [OF overlay_heard [of s1 f layer]]) (auto simp: o p1 p2 names_append)
  moreover have "list_all (\<lambda>key. CfgUnknownKey (layer_label layer) key \<in> set (drop (length (ls_pending
      st)) (ls_pending st')))
      (unknown_keys f)" by (simp add: o p1 p2 list_all_iff)
  ultimately show ?thesis unfolding Parsed st'_def FileRead.case by blast
qed (simp_all add: load_file_layer_def push_layer_def warn_def)

section \<open>Two readings of a comment\<close>

text \<open>The comment at the startup mode says that an unknown value degrades to the default; the code leaves what
  the layers below set, and warns. A global \<^verbatim>\<open>yolo\<close> survives a mistyped
      \<^verbatim>\<open>default\<close> in the workspace. And a file
  of the workspace may start a session in \<^verbatim>\<open>auto\<close>, though the documentation of the field and
      the example
  configuration say it may not: when the global mode is \<^verbatim>\<open>yolo\<close> that is the stricter of the
      two.\<close>

lemma default_mode_comment_readings:
  assumes "ac_default_permission_mode (ls_config st) = Yolo"
  shows "ap_default_mode (cf_approval f) = Some ''defualt'' \<Longrightarrow>
      ac_default_permission_mode (ls_config (apply_file_overlay f Project st)) = Yolo"
    and "ap_default_mode (cf_approval f) = Some ''auto'' \<Longrightarrow>
      ac_default_permission_mode (ls_config (apply_file_overlay f Project st)) = Auto"
proof -
  have "read_setting mode_parse (Some ''defualt'') = None" "read_setting mode_parse (Some ''auto'') = Some Auto"
    by code_simp+
  then show "ap_default_mode (cf_approval f) = Some ''defualt'' \<Longrightarrow>
      ac_default_permission_mode (ls_config (apply_file_overlay f Project st)) = Yolo"
    and "ap_default_mode (cf_approval f) = Some ''auto'' \<Longrightarrow>
      ac_default_permission_mode (ls_config (apply_file_overlay f Project st)) = Auto"
    using assms by (simp_all add: overlay_fields tighten_only_def wider_mode_def to_u8_def)
qed

section \<open>Settings are written as they are read\<close>

lemma settings_roundtrip:
  "effort_parse (effort_as_setting e) = Some e" "currency_parse (currency_as_setting c) = Some c"
  "detail_parse (detail_as_str d) = Some d" "from_tag (lang_as_setting l) = Some l"
  "network_parse (network_as_setting n) = Some n" "sandbox_parse (sandbox_as_setting s) = Some s"
proof -
  have "list_all (\<lambda>e. effort_parse (effort_as_setting e) = Some e)
      [EffortOff, EffortLow, EffortMedium, EffortHigh, EffortMax, EffortAuto]" by code_simp
  then show "effort_parse (effort_as_setting e) = Some e" by (cases e) simp_all
  have "list_all (\<lambda>c. currency_parse (currency_as_setting c) = Some c) [Cny, Usd]" by code_simp
  then show "currency_parse (currency_as_setting c) = Some c" by (cases c) simp_all
  have "list_all (\<lambda>d. detail_parse (detail_as_str d) = Some d) [DetailLow, DetailOriginal, DetailAuto]" by
      code_simp
  then show "detail_parse (detail_as_str d) = Some d" by (cases d) simp_all
  have "list_all (\<lambda>l. from_tag (lang_as_setting l) = Some l) [Zh, En]" by code_simp
  then show "from_tag (lang_as_setting l) = Some l" by (cases l) simp_all
  have "list_all (\<lambda>n. network_parse (network_as_setting n) = Some n) [Prompt, NetAlways, Never]" by
      code_simp
  then show "network_parse (network_as_setting n) = Some n" by (cases n) simp_all
  have "list_all (\<lambda>s. sandbox_parse (sandbox_as_setting s) = Some s) [Os, Off]" by code_simp
  then show "sandbox_parse (sandbox_as_setting s) = Some s" by (cases s) simp_all
qed

end
