(* ===== verification/Model_Route.thy ===== *)
theory Model_Route
  imports Config_Layers Approval_Gate
begin

text \<open>
  Which model answers a turn, and how hard it thinks: the keyword table of \<^verbatim>\<open>task_class.rs\<close>, the effort of
  \<^verbatim>\<open>reasoning.rs\<close>, the name lookup of \<^verbatim>\<open>model_registry.rs\<close> and the route of \<^verbatim>\<open>model_route.rs\<close>. The keywords
  are partly Chinese, so a prompt is here a list of code points; Unicode's \<^verbatim>\<open>to_lowercase\<close> is a parameter.
  The sentences that explain a route are the constructors of a datatype.
\<close>

section \<open>The weight of a task\<close>

type_synonym codes = "nat list"

datatype TaskWeight = Deep | Heavy | Borderline | Light

definition priority :: "TaskWeight \<Rightarrow> int" where
  "priority w = (case w of Deep \<Rightarrow> 3 | Heavy \<Rightarrow> 2 | Borderline \<Rightarrow> 1 | Light \<Rightarrow> 0)"

definition codes_of :: "rstr \<Rightarrow> codes" where
  "codes_of s = map of_char s"

definition KEYWORDS :: "(codes \<times> TaskWeight) list" where
  "KEYWORDS =
     [(codes_of ''debug'', Deep), (codes_of ''error'', Deep), (codes_of ''crash'', Deep),
      ([0x8c03, 0x8bd5], Deep), ([0x8abf, 0x8a66], Deep), ([0x9519, 0x8bef], Deep), ([0x62a5, 0x9519], Deep),
      ([0x51fa, 0x9519], Deep), ([0x5d29, 0x6e83], Deep),
      (codes_of ''refactor'', Heavy), (codes_of ''architecture'', Heavy), (codes_of ''design'', Heavy),
      (codes_of ''security'', Heavy), (codes_of ''review'', Heavy), (codes_of ''audit'', Heavy),
      (codes_of ''migrate'', Heavy), (codes_of ''optimize'', Heavy), (codes_of ''rewrite'', Heavy),
      ([0x91cd, 0x6784], Heavy), ([0x91cd, 0x69cb], Heavy), ([0x67b6, 0x6784], Heavy), ([0x67b6, 0x69cb], Heavy),
      ([0x8bbe, 0x8ba1], Heavy), ([0x8a2d, 0x8a08], Heavy), ([0x5b89, 0x5168], Heavy), ([0x5ba1, 0x67e5], Heavy),
      ([0x5be9, 0x67e5], Heavy), ([0x5ba1, 0x8ba1], Heavy), ([0x5be9, 0x8a08], Heavy), ([0x8fc1, 0x79fb], Heavy),
      ([0x9077, 0x79fb], Heavy), ([0x4f18, 0x5316], Heavy), ([0x512a, 0x5316], Heavy), ([0x91cd, 0x5199], Heavy),
      ([0x91cd, 0x5beb], Heavy),
      (codes_of ''implement'', Borderline), (codes_of ''analyze'', Borderline),
      ([0x5b9e, 0x73b0], Borderline), ([0x5be6, 0x73fe], Borderline), ([0x5206, 0x6790], Borderline),
      (codes_of ''search'', Light), (codes_of ''lookup'', Light),
      ([0x641c, 0x7d22], Light), ([0x67e5, 0x627e], Light), ([0x67e5, 0x8be2], Light)]"

definition ascii_alphanumeric_code :: "nat \<Rightarrow> bool" where
  "ascii_alphanumeric_code c \<longleftrightarrow> 48 \<le> c \<and> c \<le> 57 \<or> 65 \<le> c \<and> c \<le> 90 \<or> 97 \<le> c \<and> c \<le> 122"

fun split_runs :: "(nat \<Rightarrow> bool) \<Rightarrow> codes \<Rightarrow> codes list" where
  "split_runs P [] = [[]]"
| "split_runs P (c # cs) =
     (if P c then [] # split_runs P cs
      else (case split_runs P cs of [] \<Rightarrow> [[c]] | w # ws \<Rightarrow> (c # w) # ws))"

definition keyword_hit :: "codes \<Rightarrow> codes list \<Rightarrow> codes \<Rightarrow> bool" where
  "keyword_hit lower tokens keyword =
     (if list_all (\<lambda>c. c < 128) keyword then list_ex (\<lambda>token. prefix keyword token) tokens else sublist keyword lower)"

definition better :: "(codes \<Rightarrow> bool) \<Rightarrow> codes \<times> TaskWeight \<Rightarrow> (TaskWeight \<times> codes) option \<Rightarrow> (TaskWeight \<times> codes) option" where
  "better hit entry best =
     (case entry of (keyword, weight) \<Rightarrow>
        if hit keyword \<and> (case best of None \<Rightarrow> True | Some (current, _) \<Rightarrow> priority current < priority weight)
        then Some (weight, keyword) else best)"

definition classify_keyword :: "(codes \<Rightarrow> codes) \<Rightarrow> codes \<Rightarrow> (TaskWeight \<times> codes) option" where
  "classify_keyword to_lower prompt =
     (let lower = to_lower prompt;
          tokens = filter (\<lambda>token. token \<noteq> []) (split_runs (\<lambda>c. \<not> ascii_alphanumeric_code c) lower)
      in fold (better (keyword_hit lower tokens)) KEYWORDS None)"

section \<open>Effort\<close>

datatype ReasoningEffort = RunOff | RunLow | RunMedium | RunHigh | RunMax

definition as_api_value :: "ReasoningEffort \<Rightarrow> rstr option" where
  "as_api_value e =
     Some (case e of RunOff \<Rightarrow> ''off'' | RunLow \<Rightarrow> ''low'' | RunMedium \<Rightarrow> ''medium'' | RunHigh \<Rightarrow> ''high'' | RunMax \<Rightarrow> ''max'')"

definition short_label :: "ReasoningEffort \<Rightarrow> rstr" where
  "short_label e =
     (case e of RunOff \<Rightarrow> ''off'' | RunLow \<Rightarrow> ''low'' | RunMedium \<Rightarrow> ''med'' | RunHigh \<Rightarrow> ''high'' | RunMax \<Rightarrow> ''max'')"

definition select_auto_effort :: "(codes \<Rightarrow> codes) \<Rightarrow> bool \<Rightarrow> codes \<Rightarrow> ReasoningEffort" where
  "select_auto_effort to_lower is_subagent last_msg =
     (if is_subagent then RunLow
      else case map_option fst (classify_keyword to_lower last_msg) of
          Some Deep \<Rightarrow> RunMax
        | Some Light \<Rightarrow> RunLow
        | _ \<Rightarrow> RunHigh)"

definition effort_resolve :: "(codes \<Rightarrow> codes) \<Rightarrow> ReasoningEffortSetting \<Rightarrow> bool \<Rightarrow> codes \<Rightarrow> ReasoningEffort" where
  "effort_resolve to_lower setting is_subagent last_user_message =
     (case setting of
        EffortAuto \<Rightarrow> select_auto_effort to_lower is_subagent last_user_message
      | EffortOff \<Rightarrow> RunOff | EffortLow \<Rightarrow> RunLow | EffortMedium \<Rightarrow> RunMedium | EffortHigh \<Rightarrow> RunHigh | EffortMax \<Rightarrow> RunMax)"

definition clamp_effort_to_model :: "rstr \<Rightarrow> ReasoningEffort \<Rightarrow> ReasoningEffort" where
  "clamp_effort_to_model model effort = (if model = DEEPSEEK_FLASH \<and> effort = RunMax then RunHigh else effort)"

section \<open>Names of models\<close>

datatype ResolutionKind = Resolved | DefaultApplied | Passthrough

record ModelResolution =
  resolved_id :: rstr
  resolution_kind :: ResolutionKind

definition resolve_model :: "ModelInfo list \<Rightarrow> rstr option \<Rightarrow> ModelResolution" where
  "resolve_model catalog requested =
     (case not_blank requested of
        None \<Rightarrow> \<lparr>resolved_id = DEEPSEEK_V4_PRO, resolution_kind = DefaultApplied\<rparr>
      | Some asked \<Rightarrow>
          if names_equal asked AUTO_MODEL then \<lparr>resolved_id = AUTO_MODEL, resolution_kind = Resolved\<rparr>
          else case entry_matching catalog asked of
              Some entry \<Rightarrow> \<lparr>resolved_id = model_id entry, resolution_kind = Resolved\<rparr>
            | None \<Rightarrow> \<lparr>resolved_id = trim asked, resolution_kind = Passthrough\<rparr>)"

definition DEFAULT_CONTEXT_WINDOW :: "32 word" where "DEFAULT_CONTEXT_WINDOW = 128000"

definition context_window_for_model :: "ModelInfo list \<Rightarrow> rstr \<Rightarrow> 32 word" where
  "context_window_for_model catalog model =
     (case info_for catalog model of None \<Rightarrow> DEFAULT_CONTEXT_WINDOW | Some entry \<Rightarrow> model_context_window entry)"

definition supports_vision_for_model :: "ModelInfo list \<Rightarrow> rstr \<Rightarrow> bool option" where
  "supports_vision_for_model catalog model = map_option model_supports_vision (info_for catalog model)"

text \<open>\<^verbatim>\<open>saturating_mul\<close> on \<^verbatim>\<open>u32\<close>.\<close>

definition saturating_mul_u32 :: "32 word \<Rightarrow> 32 word \<Rightarrow> 32 word" where
  "saturating_mul_u32 a b = (if unat a * unat b < 2 ^ 32 then a * b else - 1)"

definition compaction_threshold_for_model :: "ModelInfo list \<Rightarrow> rstr \<Rightarrow> 32 word" where
  "compaction_threshold_for_model catalog model = saturating_mul_u32 (context_window_for_model catalog model) 80 div 100"

section \<open>The route of a turn\<close>

definition CONTEXT_PRESSURE_PERCENT :: "64 word" where "CONTEXT_PRESSURE_PERCENT = 70"

datatype RouteSource = HardRule | Heuristic | Cascade

definition source_label :: "RouteSource \<Rightarrow> rstr" where
  "source_label s = (case s of HardRule \<Rightarrow> ''hard-rule'' | Heuristic \<Rightarrow> ''heuristic'' | Cascade \<Rightarrow> ''cascade'')"

record RouteContext =
  context_tokens :: "32 word"
  context_window :: "32 word"
  escalated :: bool
  has_images :: bool

definition under_pressure :: "RouteContext \<Rightarrow> bool" where
  "under_pressure ctx \<longleftrightarrow>
     0 < context_window ctx \<and>
     (ucast (context_window ctx) :: 64 word) * CONTEXT_PRESSURE_PERCENT \<le> (ucast (context_tokens ctx) :: 64 word) * 100"

definition usage_percent :: "RouteContext \<Rightarrow> 64 word" where
  "usage_percent ctx =
     (if context_window ctx = 0 then 0
      else (ucast (context_tokens ctx) :: 64 word) * 100 div ucast (context_window ctx))"

datatype RouteReason =
    RouteFixedModelPassthrough rstr
  | RouteFixedModel rstr
  | RouteCascade
  | RouteContextPressure "64 word" "64 word"
  | RouteKeywordDeep codes
  | RouteKeywordHeavy codes
  | RouteKeywordBorderline codes
  | RouteFlashDefault
  | RouteImagesForceFlash
  | RouteFallbackProToFlash

record TurnRoute =
  requested_model :: rstr
  effective_model :: rstr
  auto_model :: bool
  reasoning_setting :: ReasoningEffortSetting
  effective_effort :: ReasoningEffort
  auto_effort :: bool
  used_model_fallback :: bool
  route_reason :: RouteReason
  fallback_reason :: "RouteReason option"
  route_source :: RouteSource

text \<open>The arrow of a label is not ASCII: a label is its parts.\<close>

datatype RouteLabel = RouteLabel bool rstr bool rstr bool

definition route_label :: "TurnRoute \<Rightarrow> RouteLabel" where
  "route_label r =
     RouteLabel (auto_model r) (effective_model r) (auto_effort r) (short_label (effective_effort r)) (used_model_fallback r)"

definition api_fallback_model :: "TurnRoute \<Rightarrow> rstr option" where
  "api_fallback_model r =
     (if used_model_fallback r then None
      else if auto_model r \<and> effective_model r = DEEPSEEK_V4_PRO then Some DEEPSEEK_FLASH
      else None)"

definition classify_model :: "(codes \<Rightarrow> codes) \<Rightarrow> codes \<Rightarrow> RouteContext \<Rightarrow> bool \<Rightarrow> rstr \<times> RouteReason \<times> RouteSource" where
  "classify_model to_lower input ctx cost_saving =
     (if escalated ctx then (DEEPSEEK_V4_PRO, RouteCascade, Cascade)
      else if under_pressure ctx
      then (DEEPSEEK_V4_PRO, RouteContextPressure (usage_percent ctx) CONTEXT_PRESSURE_PERCENT, HardRule)
      else case classify_keyword to_lower input of
          Some (Deep, keyword) \<Rightarrow> (DEEPSEEK_V4_PRO, RouteKeywordDeep keyword, Heuristic)
        | Some (Heavy, keyword) \<Rightarrow> (DEEPSEEK_V4_PRO, RouteKeywordHeavy keyword, Heuristic)
        | Some (Borderline, keyword) \<Rightarrow>
            if \<not> cost_saving then (DEEPSEEK_V4_PRO, RouteKeywordBorderline keyword, Heuristic)
            else (DEEPSEEK_FLASH, RouteFlashDefault, Heuristic)
        | _ \<Rightarrow> (DEEPSEEK_FLASH, RouteFlashDefault, Heuristic))"

definition resolve_turn_route ::
  "(codes \<Rightarrow> codes) \<Rightarrow> AgentConfig \<Rightarrow> ModelInfo list \<Rightarrow> codes \<Rightarrow> bool \<Rightarrow> RouteContext \<Rightarrow> TurnRoute" where
  "resolve_turn_route to_lower config catalog user_prompt is_subagent ctx =
     (let resolution = resolve_model catalog (Some (ac_model config));
          is_auto_effort = effort_is_auto (ac_reasoning_effort config);
          effort = effort_resolve to_lower (ac_reasoning_effort config) is_subagent user_prompt
      in
      if resolved_id resolution \<noteq> AUTO_MODEL then
        \<lparr>requested_model = ac_model config, effective_model = resolved_id resolution, auto_model = False,
         reasoning_setting = ac_reasoning_effort config,
         effective_effort = clamp_effort_to_model (resolved_id resolution) effort,
         auto_effort = is_auto_effort, used_model_fallback = False,
         route_reason =
           (case resolution_kind resolution of
              Passthrough \<Rightarrow> RouteFixedModelPassthrough (resolved_id resolution)
            | _ \<Rightarrow> RouteFixedModel (resolved_id resolution)),
         fallback_reason = None, route_source = HardRule\<rparr>
      else
        (case classify_model to_lower user_prompt ctx (ac_auto_cost_saving config) of
           (model, reason, source) \<Rightarrow>
             (let (model, reason, source) =
                    (if has_images ctx \<and> model \<noteq> DEEPSEEK_FLASH then (DEEPSEEK_FLASH, RouteImagesForceFlash, HardRule)
                     else (model, reason, source))
              in \<lparr>requested_model = ac_model config, effective_model = model, auto_model = True,
                  reasoning_setting = ac_reasoning_effort config,
                  effective_effort = clamp_effort_to_model model effort,
                  auto_effort = is_auto_effort, used_model_fallback = False, route_reason = reason,
                  fallback_reason = None, route_source = source\<rparr>)))"

section \<open>The heaviest keyword, the first of its weight\<close>

definition heaviest :: "(codes \<Rightarrow> bool) \<Rightarrow> (codes \<times> TaskWeight) list \<Rightarrow> (TaskWeight \<times> codes) option" where
  "heaviest hit table =
     find_map (\<lambda>w. map_option (Pair w \<circ> fst) (find (\<lambda>(keyword, weight). weight = w \<and> hit keyword) table))
       [Deep, Heavy, Borderline, Light]"

lemma better_fold:
  "fold (better hit) table best =
     (case (best, heaviest hit table) of
        (None, h) \<Rightarrow> h
      | (b, None) \<Rightarrow> b
      | (Some (bw, bk), Some (w, k)) \<Rightarrow> if priority bw < priority w then Some (w, k) else Some (bw, bk))"
proof (induction table arbitrary: best)
  case Nil
  then show ?case by (simp add: heaviest_def split: option.split)
next
  case (Cons entry table)
  obtain k w where e: "entry = (k, w)" by (cases entry)
  have h: "heaviest hit (entry # table) =
      (if \<not> hit k then heaviest hit table
       else case heaviest hit table of
           None \<Rightarrow> Some (w, k)
         | Some (w', k') \<Rightarrow> if priority w < priority w' then Some (w', k') else Some (w, k))"
    unfolding e by (cases w) (auto simp: heaviest_def priority_def split: option.split)
  show ?case unfolding fold_simps comp_def Cons.IH h
    by (auto simp: better_def e split: option.split)
qed

lemma classify_keyword_heaviest:
  "classify_keyword to_lower prompt =
     (case to_lower prompt of lower \<Rightarrow>
        heaviest (keyword_hit lower (filter (\<lambda>token. token \<noteq> []) (split_runs (\<lambda>c. \<not> ascii_alphanumeric_code c) lower)))
          KEYWORDS)"
  by (simp add: classify_keyword_def Let_def better_fold)

section \<open>What a route can be\<close>

lemma pressure_exact:
  "under_pressure ctx \<longleftrightarrow>
     0 < unat (context_window ctx) \<and> 70 * unat (context_window ctx) \<le> 100 * unat (context_tokens ctx)"
proof -
  have small: "unat (w :: 32 word) < 2 ^ 32" for w using unsigned_less [of w] by simp
  have "unat ((ucast w :: 64 word) * 100) = unat w * 100" "unat ((ucast w :: 64 word) * 70) = unat w * 70" for w :: "32 word"
    using small [of w] by (simp_all add: unat_word_ariths unsigned_ucast_eq take_bit_nat_eq_self)
  then show ?thesis
    by (simp add: under_pressure_def CONTEXT_PRESSURE_PERCENT_def word_le_nat_alt word_less_nat_alt mult.commute)
qed

lemma classify_model_pick:
  "fst (classify_model to_lower prompt ctx saving) =
     (if escalated ctx then DEEPSEEK_V4_PRO
      else if 0 < unat (context_window ctx) \<and> 70 * unat (context_window ctx) \<le> 100 * unat (context_tokens ctx)
      then DEEPSEEK_V4_PRO
      else case map_option fst (classify_keyword to_lower prompt) of
          Some Deep \<Rightarrow> DEEPSEEK_V4_PRO
        | Some Heavy \<Rightarrow> DEEPSEEK_V4_PRO
        | Some Borderline \<Rightarrow> if saving then DEEPSEEK_FLASH else DEEPSEEK_V4_PRO
        | _ \<Rightarrow> DEEPSEEK_FLASH)"
  unfolding classify_model_def pressure_exact by (simp split: option.split TaskWeight.split prod.split)

lemma clamp_twice: "clamp_effort_to_model m (clamp_effort_to_model m e) = clamp_effort_to_model m e"
  by (simp add: clamp_effort_to_model_def)


end
