(* ===== verification/Images.thy ===== *)
theory Images
  imports Session Config_Layers
begin

text \<open>
  Images of a request, \<^verbatim>\<open>image.rs\<close>: which files are images, turning the paths of a transcript into the URLs the
  provider takes within the caps of a message and of a request, and shrinking a request to the body limit.

  Bytes are characters. What the process finds when it looks at a file, at its length, its head and its whole
  bytes, each look on its own, is the record \<open>ImageDisk\<close>; base64 and the size of a request as JSON are parameters.
  The notes that replace an img are bilingual: a note is its kind and its parts, and the notes of a message
  stand after its text, each after a space.
\<close>

section \<open>Formats\<close>

definition MAX_IMAGE_BYTES :: nat where "MAX_IMAGE_BYTES = 32 * 1024 * 1024"
definition MAX_TOTAL_BYTES :: nat where "MAX_TOTAL_BYTES = 64 * 1024 * 1024"
definition MAX_REQUEST_BYTES :: nat where "MAX_REQUEST_BYTES = 48 * 1024 * 1024"
definition MAX_IMAGES_PER_MESSAGE :: nat where "MAX_IMAGES_PER_MESSAGE = 4"

datatype ImageFormat = Png | Jpeg | Gif | WebP

definition media_type :: "ImageFormat \<Rightarrow> rstr" where
  "media_type f = (case f of Png \<Rightarrow> ''image/png'' | Jpeg \<Rightarrow> ''image/jpeg'' | Gif \<Rightarrow> ''image/gif'' | WebP \<Rightarrow> ''image/webp'')"

definition format_label :: "ImageFormat \<Rightarrow> rstr" where
  "format_label f = (case f of Png \<Rightarrow> ''PNG'' | Jpeg \<Rightarrow> ''JPEG'' | Gif \<Rightarrow> ''GIF'' | WebP \<Rightarrow> ''WebP'')"

definition format_extension :: "ImageFormat \<Rightarrow> rstr" where
  "format_extension f = (case f of Png \<Rightarrow> ''png'' | Jpeg \<Rightarrow> ''jpg'' | Gif \<Rightarrow> ''gif'' | WebP \<Rightarrow> ''webp'')"

definition PNG_MAGIC :: rstr where
  "PNG_MAGIC = [CHR 0x89, CHR ''P'', CHR ''N'', CHR ''G'', CHR 0x0D, CHR 0x0A, CHR 0x1A, CHR 0x0A]"

definition sniff :: "rstr \<Rightarrow> ImageFormat option" where
  "sniff bs =
     (if starts_with PNG_MAGIC bs then Some Png
      else if starts_with [CHR 0xFF, CHR 0xD8, CHR 0xFF] bs then Some Jpeg
      else if starts_with ''GIF87a'' bs \<or> starts_with ''GIF89a'' bs then Some Gif
      else if 12 \<le> length bs \<and> starts_with ''RIFF'' bs \<and> take 4 (drop 8 bs) = ''WEBP'' then Some WebP
      else None)"

section \<open>Looking at a file\<close>

datatype ImageRef = ImgPath rstr | ImgUrl rstr "ImageDetail option"

definition image_path :: "ImageRef \<Rightarrow> rstr option" where
  "image_path img = (case img of ImgPath p \<Rightarrow> Some p | ImgUrl _ _ \<Rightarrow> None)"

record Attachment =
  at_path :: rstr
  at_format :: ImageFormat
  at_bytes :: nat

datatype ImageError = ImgMissing | ImgNotAFile | ImgUnreadable rstr | ImgTooLarge nat | ImgUnsupportedFormat

datatype StatError = NotFound | OtherError rstr

record ImageDisk =
  im_metadata :: "rstr \<Rightarrow> StatError + bool \<times> nat"
  im_header :: "rstr \<Rightarrow> rstr + rstr"
  im_bytes :: "rstr \<Rightarrow> rstr + rstr"

definition read_header :: "ImageDisk \<Rightarrow> rstr \<Rightarrow> ImageError + rstr" where
  "read_header disk p = (case im_header disk p of Inl why \<Rightarrow> Inl (ImgUnreadable why) | Inr bs \<Rightarrow> Inr (take 16 bs))"

definition inspect :: "ImageDisk \<Rightarrow> rstr \<Rightarrow> ImageError + Attachment" where
  "inspect disk p =
     (case im_metadata disk p of
        Inl NotFound \<Rightarrow> Inl ImgMissing
      | Inl (OtherError why) \<Rightarrow> Inl (ImgUnreadable why)
      | Inr (is_file, n) \<Rightarrow>
          if \<not> is_file then Inl ImgNotAFile
          else if MAX_IMAGE_BYTES < n then Inl (ImgTooLarge n)
          else (case read_header disk p of
                  Inl e \<Rightarrow> Inl e
                | Inr header \<Rightarrow>
                    (case sniff header of
                       None \<Rightarrow> Inl ImgUnsupportedFormat
                     | Some format \<Rightarrow> Inr \<lparr>at_path = p, at_format = format, at_bytes = n\<rparr>)))"

definition data_url_of :: "(rstr \<Rightarrow> rstr) \<Rightarrow> ImageDisk \<Rightarrow> rstr \<Rightarrow> ImageError + rstr" where
  "data_url_of base64 disk p =
     (case im_bytes disk p of
        Inl why \<Rightarrow> Inl (ImgUnreadable why)
      | Inr bs \<Rightarrow>
          (let data = take (MAX_IMAGE_BYTES + 1) bs in
           if MAX_IMAGE_BYTES < length data then Inl (ImgTooLarge (length data))
           else case sniff data of
               None \<Rightarrow> Inl ImgUnsupportedFormat
             | Some format \<Rightarrow> Inr (''data:'' @ media_type format @ '';base64,'' @ base64 data)))"

definition data_url :: "(rstr \<Rightarrow> rstr) \<Rightarrow> ImageDisk \<Rightarrow> rstr \<Rightarrow> ImageError + rstr" where
  "data_url base64 disk p = (case inspect disk p of Inl e \<Rightarrow> Inl e | Inr _ \<Rightarrow> data_url_of base64 disk p)"

section \<open>Notes\<close>

definition MIB :: nat where "MIB = 1024 * 1024"

definition size_label :: "nat \<Rightarrow> rstr" where
  "size_label bs = (if MIB \<le> bs then nat_digits ((bs + MIB - 1) div MIB) @ '' MiB'' else nat_digits bs @ '' B'')"

definition describe_image :: "ImageRef \<Rightarrow> rstr" where
  "describe_image img =
     (case img of
        ImgPath p \<Rightarrow> p
      | ImgUrl url _ \<Rightarrow> if starts_with ''data:'' url then ''(inline image)'' else url)"

datatype ImageNote =
    Unavailable ImageError rstr
  | NotAccepted rstr
  | OverCount nat rstr
  | OverTotal rstr rstr
  | OverRequest rstr rstr

definition error_note :: "ImageError \<Rightarrow> rstr \<Rightarrow> ImageNote" where
  "error_note e p = Unavailable e p"

definition not_accepted_note :: "rstr \<Rightarrow> ImageNote" where
  "not_accepted_note img = NotAccepted img"

definition over_count_note :: "rstr \<Rightarrow> ImageNote" where
  "over_count_note img = OverCount MAX_IMAGES_PER_MESSAGE img"

definition over_total_note :: "rstr \<Rightarrow> nat \<Rightarrow> ImageNote" where
  "over_total_note img limit = OverTotal (size_label limit) img"

definition over_request_note :: "rstr \<Rightarrow> nat \<Rightarrow> ImageNote" where
  "over_request_note img limit = OverRequest (size_label limit) img"

section \<open>Messages with images\<close>

text \<open>A message on its way to the provider: as the transcript has it, its images as they are now, and the notes
  after its text.\<close>

record WireMessage =
  wm_message :: Message
  wm_images :: "ImageRef list"
  wm_notes :: "ImageNote list"

definition from_transcript :: "Message \<Rightarrow> WireMessage" where
  "from_transcript m = \<lparr>wm_message = m, wm_images = map ImgPath (images m), wm_notes = []\<rparr>"

text \<open>One image, at its position in its message, with the bytes that are left.\<close>

definition decide_image ::
  "(rstr \<Rightarrow> rstr) \<Rightarrow> ImageDisk \<Rightarrow> ImageDetail option \<Rightarrow> bool \<Rightarrow> nat \<Rightarrow> nat \<times> ImageRef \<Rightarrow> nat \<Rightarrow> nat \<times> (ImageNote + ImageRef)" where
  "decide_image base64 disk detail accepted total_limit slot remaining =
     (case slot of (pos, img) \<Rightarrow>
       if \<not> accepted then (remaining, Inl (not_accepted_note (describe_image img)))
       else if MAX_IMAGES_PER_MESSAGE \<le> pos then (remaining, Inl (over_count_note (describe_image img)))
       else case img of
           ImgUrl _ _ \<Rightarrow> (remaining, Inr img)
         | ImgPath p \<Rightarrow>
             (case inspect disk p of
                Inl e \<Rightarrow> (remaining, Inl (error_note e p))
              | Inr attachment \<Rightarrow>
                  if remaining < at_bytes attachment
                  then (remaining, Inl (over_total_note (describe_image img) total_limit))
                  else (remaining - at_bytes attachment,
                        (case data_url_of base64 disk p of
                           Inr url \<Rightarrow> Inr (ImgUrl url detail)
                         | Inl e \<Rightarrow> Inl (error_note e p)))))"

text \<open>From the last to the first, threading the bytes that are left; the decisions come out in order.\<close>

fun decide_backwards :: "('a \<Rightarrow> nat \<Rightarrow> nat \<times> 'b) \<Rightarrow> 'a list \<Rightarrow> nat \<Rightarrow> nat \<times> 'b list" where
  "decide_backwards decide [] remaining = (remaining, [])"
| "decide_backwards decide (x # xs) remaining =
     (case decide_backwards decide xs remaining of
        (remaining, ys) \<Rightarrow> (case decide x remaining of (remaining, y) \<Rightarrow> (remaining, y # ys)))"

definition decide_message ::
  "(rstr \<Rightarrow> rstr) \<Rightarrow> ImageDisk \<Rightarrow> ImageDetail option \<Rightarrow> bool \<Rightarrow> nat \<Rightarrow> WireMessage \<Rightarrow> nat \<Rightarrow> nat \<times> (ImageNote + ImageRef) list" where
  "decide_message base64 disk detail accepted total_limit m remaining =
     decide_backwards (decide_image base64 disk detail accepted total_limit) (enumerate 0 (wm_images m)) remaining"

definition settle_images :: "WireMessage \<Rightarrow> (ImageNote + ImageRef) list \<Rightarrow> WireMessage" where
  "settle_images m slots =
     m\<lparr>wm_images := List.map_filter (\<lambda>r. case r of Inr img \<Rightarrow> Some img | Inl _ \<Rightarrow> None) slots,
       wm_notes := wm_notes m @ List.map_filter (\<lambda>r. case r of Inl n \<Rightarrow> Some n | Inr _ \<Rightarrow> None) slots\<rparr>"

definition hydrate_for ::
  "(rstr \<Rightarrow> rstr) \<Rightarrow> ImageDisk \<Rightarrow> WireMessage list \<Rightarrow> ImageDetail option \<Rightarrow> bool \<Rightarrow> nat \<Rightarrow> WireMessage list" where
  "hydrate_for base64 disk messages detail accepted total_limit =
     map2 settle_images messages
       (snd (decide_backwards (decide_message base64 disk detail accepted total_limit) messages total_limit))"

section \<open>Requests\<close>

record ChatRequest =
  cr_model :: rstr
  cr_messages :: "WireMessage list"
  cr_effort :: "rstr option"
  cr_tools :: "ToolSpec list"

definition streaming :: "rstr \<Rightarrow> WireMessage list \<Rightarrow> ChatRequest" where
  "streaming model messages = \<lparr>cr_model = model, cr_messages = messages, cr_effort = None, cr_tools = []\<rparr>"

text \<open>The oldest image of the messages taken away, with the note in its place.\<close>

fun drop_oldest_image :: "nat \<Rightarrow> WireMessage list \<Rightarrow> WireMessage list option" where
  "drop_oldest_image limit [] = None"
| "drop_oldest_image limit (m # ms) =
     (case wm_images m of
        [] \<Rightarrow> map_option ((#) m) (drop_oldest_image limit ms)
      | img # rest \<Rightarrow>
          Some (m\<lparr>wm_images := rest, wm_notes := wm_notes m @ [over_request_note (describe_image img) limit]\<rparr> # ms))"

definition all_images :: "WireMessage list \<Rightarrow> ImageRef list" where
  "all_images messages = concat (map wm_images messages)"

lemma drop_oldest_images:
  "drop_oldest_image limit ms = None \<longleftrightarrow> all_images ms = []"
  "drop_oldest_image limit ms = Some ms' \<Longrightarrow> all_images ms' = tl (all_images ms) \<and> all_images ms \<noteq> []"
  by (induction ms arbitrary: ms') (auto simp: all_images_def split: list.splits)

function fit_request_to_limit :: "(ChatRequest \<Rightarrow> nat option) \<Rightarrow> ChatRequest \<Rightarrow> nat \<Rightarrow> ChatRequest" where
  "fit_request_to_limit serialized_size request limit =
     (case serialized_size request of
        None \<Rightarrow> request
      | Some bs \<Rightarrow>
          if bs \<le> limit then request
          else (case drop_oldest_image limit (cr_messages request) of
                  None \<Rightarrow> request
                | Some messages \<Rightarrow> fit_request_to_limit serialized_size (request\<lparr>cr_messages := messages\<rparr>) limit))"
  by pat_completeness auto
termination
  by (relation "measure (\<lambda>(f, request, limit). length (all_images (cr_messages request)))")
     (auto dest!: drop_oldest_images(2))

declare fit_request_to_limit.simps [simp del]

definition hydrate ::
  "(rstr \<Rightarrow> rstr) \<Rightarrow> (ChatRequest \<Rightarrow> nat option) \<Rightarrow> ImageDisk \<Rightarrow> WireMessage list \<Rightarrow> ImageDetail option \<Rightarrow> WireMessage list" where
  "hydrate base64 serialized_size disk messages detail =
     cr_messages (fit_request_to_limit serialized_size
       (streaming [] (hydrate_for base64 disk messages detail True MAX_TOTAL_BYTES)) MAX_REQUEST_BYTES)"

section \<open>What a request carries\<close>

lemma decide_backwards_length: "length (snd (decide_backwards f xs n)) = length xs"
  by (induction xs) (auto split: prod.splits)

lemma decide_backwards_append:
  "decide_backwards f (xs @ ys) n =
     (case decide_backwards f ys n of (n', zs) \<Rightarrow> (case decide_backwards f xs n' of (n'', ws) \<Rightarrow> (n'', ws @ zs)))"
  by (induction xs) (auto split: prod.splits)

lemma kept_and_noted:
  "length (List.map_filter (\<lambda>r. case r of Inr x \<Rightarrow> Some x | Inl _ \<Rightarrow> None) slots) +
   length (List.map_filter (\<lambda>r. case r of Inl x \<Rightarrow> Some x | Inr _ \<Rightarrow> None) slots) = length slots"
  by (induction slots) (auto simp: List.map_filter_simps split: sum.splits)

text \<open>The bytes charged for the images of a message that are kept.\<close>

definition slot_bytes :: "ImageDisk \<Rightarrow> ImageRef \<Rightarrow> ImageNote + ImageRef \<Rightarrow> nat" where
  "slot_bytes disk img slot =
     (case img of
        ImgUrl _ _ \<Rightarrow> 0
      | ImgPath p \<Rightarrow>
          (case slot of Inl _ \<Rightarrow> 0
           | Inr _ \<Rightarrow> (case inspect disk p of Inl _ \<Rightarrow> 0 | Inr attachment \<Rightarrow> at_bytes attachment)))"

definition kept_bytes :: "ImageDisk \<Rightarrow> WireMessage \<Rightarrow> (ImageNote + ImageRef) list \<Rightarrow> nat" where
  "kept_bytes disk m slots = sum_list (map2 (slot_bytes disk) (wm_images m) slots)"

definition is_url :: "ImageRef \<Rightarrow> bool" where
  "is_url img \<longleftrightarrow> image_path img = None"

abbreviation kept :: "(ImageNote + ImageRef) list \<Rightarrow> ImageRef list" where
  "kept slots \<equiv> List.map_filter (\<lambda>r. case r of Inr img \<Rightarrow> Some img | Inl _ \<Rightarrow> None) slots"

lemma decide_image_charges:
  "decide_image base64 disk detail accepted limit (i, img) n = (n', slot) \<Longrightarrow> slot_bytes disk img slot + n' \<le> n"
  by (cases img)
     (auto simp: decide_image_def slot_bytes_def split: if_splits sum.splits)

lemma decide_image_keeps:
  "decide_image base64 disk detail accepted limit (i, img) n = (n', Inr img') \<Longrightarrow>
    accepted \<and> i < MAX_IMAGES_PER_MESSAGE \<and> is_url img'"
  by (cases img) (auto simp: decide_image_def is_url_def image_path_def split: if_splits sum.splits)

lemma decide_images_charge:
  "decide_backwards (decide_image base64 disk detail accepted limit) (enumerate i imgs) n = (n', slots) \<Longrightarrow>
    sum_list (map2 (slot_bytes disk) imgs slots) + n' \<le> n"
proof (induction imgs arbitrary: i n' slots)
  case (Cons img imgs)
  obtain n1 slots1 where r: "decide_backwards (decide_image base64 disk detail accepted limit) (enumerate (Suc i) imgs) n = (n1, slots1)"
    by fastforce
  obtain n2 slot where s: "decide_image base64 disk detail accepted limit (i, img) n1 = (n2, slot)" by fastforce
  show ?case using Cons.IH [OF r] decide_image_charges [OF s] Cons.prems r s by auto
qed simp

lemma decide_images_keep:
  "decide_backwards (decide_image base64 disk detail accepted limit) (enumerate i imgs) n = (n', slots) \<Longrightarrow>
    length (kept slots) \<le> MAX_IMAGES_PER_MESSAGE - i \<and> list_all is_url (kept slots) \<and> (accepted \<or> kept slots = [])"
proof (induction imgs arbitrary: i n' slots)
  case (Cons img imgs)
  obtain n1 slots1 where r: "decide_backwards (decide_image base64 disk detail accepted limit) (enumerate (Suc i) imgs) n = (n1, slots1)"
    by fastforce
  obtain n2 slot where s: "decide_image base64 disk detail accepted limit (i, img) n1 = (n2, slot)" by fastforce
  have slots: "slots = slot # slots1" using Cons.prems r s by simp
  show ?case
  proof (cases slot)
    case (Inl n3)
    then show ?thesis using Cons.IH [OF r] by (auto simp: slots List.map_filter_simps)
  next
    case (Inr img')
    then show ?thesis using Cons.IH [OF r] decide_image_keeps [OF s [unfolded Inr]]
      by (auto simp: slots List.map_filter_simps)
  qed
qed (simp add: List.map_filter_simps)

lemma decide_messages_charge:
  "decide_backwards (decide_message base64 disk detail accepted limit) ms n = (n', slots) \<Longrightarrow>
    sum_list (map2 (kept_bytes disk) ms slots) + n' \<le> n"
proof (induction ms arbitrary: n' slots)
  case (Cons m ms)
  obtain n1 slots1 where r: "decide_backwards (decide_message base64 disk detail accepted limit) ms n = (n1, slots1)"
    by fastforce
  obtain n2 slot where s: "decide_message base64 disk detail accepted limit m n1 = (n2, slot)" by fastforce
  show ?case using Cons.IH [OF r] decide_images_charge [OF s [unfolded decide_message_def]] Cons.prems r s
    by (auto simp: kept_bytes_def)
qed simp

definition settled_message :: "bool \<Rightarrow> WireMessage \<Rightarrow> WireMessage \<Rightarrow> bool" where
  "settled_message accepted m m' \<longleftrightarrow>
     wm_message m' = wm_message m \<and> length (wm_images m') \<le> MAX_IMAGES_PER_MESSAGE \<and> list_all is_url (wm_images m') \<and>
     (accepted \<or> wm_images m' = []) \<and>
     length (wm_images m') + length (wm_notes m') = length (wm_images m) + length (wm_notes m)"

lemma settle_images_settles:
  assumes "decide_message base64 disk detail accepted limit m n = (n', slots)"
  shows "settled_message accepted m (settle_images m slots)"
proof -
  have "length slots = length (wm_images m)"
    using decide_backwards_length [of "decide_image base64 disk detail accepted limit" "enumerate 0 (wm_images m)" n] assms
    by (simp add: decide_message_def)
  then show ?thesis
    using decide_images_keep [OF assms [unfolded decide_message_def]] kept_and_noted [of slots]
    by (simp add: settled_message_def settle_images_def)
qed

lemma messages_settle:
  "decide_backwards (decide_message base64 disk detail accepted limit) ms n = (n', slots) \<Longrightarrow>
    list_all2 (settled_message accepted) ms (map2 settle_images ms slots)"
proof (induction ms arbitrary: n' slots)
  case (Cons m ms)
  obtain n1 slots1 where r: "decide_backwards (decide_message base64 disk detail accepted limit) ms n = (n1, slots1)"
    by fastforce
  obtain n2 slot where s: "decide_message base64 disk detail accepted limit m n1 = (n2, slot)" by fastforce
  show ?case using Cons.IH [OF r] settle_images_settles [OF s] Cons.prems r s by auto
qed simp

text \<open>Every message keeps its text and each of its images is sent as a URL or named in a note, at most four of a
  message and none to a model without vision; the files sent are within the bytes of a request.\<close>

theorem images_within_caps:
  "list_all2 (settled_message accepted) messages (hydrate_for base64 disk messages detail accepted limit) \<and>
   sum_list (map2 (kept_bytes disk) messages
     (snd (decide_backwards (decide_message base64 disk detail accepted limit) messages limit))) \<le> limit"
proof -
  obtain n' slots where d: "decide_backwards (decide_message base64 disk detail accepted limit) messages limit = (n', slots)"
    by fastforce
  show ?thesis using messages_settle [OF d] decide_messages_charge [OF d] by (simp add: hydrate_for_def d)
qed

text \<open>The newest images are served first: what is sent of the newest messages does not depend on what came before.\<close>

theorem newest_images_first:
  "drop (length old) (hydrate_for base64 disk (old @ new) detail accepted limit) =
     hydrate_for base64 disk new detail accepted limit"
proof -
  let ?f = "decide_message base64 disk detail accepted limit"
  obtain n1 zs where new: "decide_backwards ?f new limit = (n1, zs)" by fastforce
  obtain n2 ws where old: "decide_backwards ?f old n1 = (n2, ws)" by fastforce
  have "length ws = length old" "length zs = length new"
    using decide_backwards_length [of ?f old n1] decide_backwards_length [of ?f new limit] by (simp_all add: old new)
  then show ?thesis by (simp add: hydrate_for_def decide_backwards_append new old zip_append)
qed

text \<open>Shrinking a request.\<close>

definition noted_images :: "WireMessage list \<Rightarrow> nat" where
  "noted_images ms = sum_list (map (\<lambda>m. length (wm_images m) + length (wm_notes m)) ms)"

lemma drop_oldest_rest:
  "drop_oldest_image limit ms = Some ms' \<Longrightarrow> map wm_message ms' = map wm_message ms \<and> noted_images ms' = noted_images ms"
  by (induction ms arbitrary: ms') (auto simp: noted_images_def split: list.splits)


end
