(* ===== verification/Provider_Stream.thy ===== *)
theory Provider_Stream
  imports Model_Route Images "HOL-Library.AList"
begin

text \<open>
  A model's reply on its way from the socket to the turn: the events of a chunk (\<^verbatim>\<open>event.rs\<close>, \<^verbatim>\<open>model.rs\<close>), the
  decoder of server-sent events (\<^verbatim>\<open>client.rs\<close>), the reassembly of tool calls (\<^verbatim>\<open>tool/accumulator.rs\<close>), and the
  opening and guarding of a stream with its retries and fallback (\<^verbatim>\<open>runtime/streaming.rs\<close>).

  What the provider does is a parameter: the outcome of the \<open>k\<close>-th request and of the \<open>k\<close>-th wait for data,
  with the time it took, in milliseconds. Decoding UTF-8 and parsing JSON are parameters too. Counters that
  only go down, or up by at most as much, are natural numbers.
\<close>

section \<open>Errors\<close>

datatype AgentError =
    MissingApiKey
  | HttpError rstr
  | Api nat rstr
  | ParseError rstr
  | SerdeError rstr
  | RequestTimeout nat
  | RequestTooLarge nat nat
  | StreamStalled nat
  | StreamDeadlineExceeded nat
  | StreamOverflow nat

definition CONTEXT_WINDOW_HINTS :: "rstr list" where
  "CONTEXT_WINDOW_HINTS = [''context_length_exceeded'', ''context length'']"

definition blames_context_window :: "AgentError \<Rightarrow> bool" where
  "blames_context_window e =
     (case e of
        Api status msg \<Rightarrow>
          status = 400 \<and> list_ex (\<lambda>hint. contains_str hint (to_ascii_lowercase msg)) CONTEXT_WINDOW_HINTS
      | _ \<Rightarrow> False)"

definition api_error_retriable :: "AgentError \<Rightarrow> bool" where
  "api_error_retriable e = (case e of Api status _ \<Rightarrow> status \<in> set [429, 500, 502, 503, 504] | _ \<Rightarrow> False)"

definition open_error_retriable :: "AgentError \<Rightarrow> bool" where
  "open_error_retriable e =
     (api_error_retriable e \<or> (case e of HttpError _ \<Rightarrow> True | RequestTimeout _ \<Rightarrow> True | _ \<Rightarrow> False))"

section \<open>Chunks and events\<close>

record FunctionCallDelta =
  fd_name :: "rstr option"
  fd_arguments :: "rstr option"

record ToolCallDelta =
  td_index :: "32 word option"
  td_id :: "rstr option"
  td_call_type :: "rstr option"
  td_function :: "FunctionCallDelta option"

record Usage =
  prompt_tokens :: "32 word option"
  completion_tokens :: "32 word option"
  total_tokens :: "32 word option"
  reasoning_tokens :: "32 word option"
  prompt_cache_hit_tokens :: "32 word option"
  prompt_cache_miss_tokens :: "32 word option"

definition input_tokens :: "Usage \<Rightarrow> 32 word" where
  "input_tokens u = (case prompt_tokens u of None \<Rightarrow> 0 | Some n \<Rightarrow> n)"

definition output_tokens :: "Usage \<Rightarrow> 32 word" where
  "output_tokens u = (case completion_tokens u of None \<Rightarrow> 0 | Some n \<Rightarrow> n)"

record ChoiceDelta =
  cd_content :: "rstr option"
  cd_reasoning_content :: "rstr option"
  cd_tool_calls :: "ToolCallDelta list option"

record ChatChoice =
  ch_delta :: "ChoiceDelta option"
  ch_finish_reason :: "rstr option"

record StreamChunk =
  sc_choices :: "ChatChoice list"
  sc_usage :: "Usage option"

datatype AgentEvent =
    AgentText rstr
  | AgentReasoning rstr
  | AgentToolDelta ToolCallDelta
  | AgentDone "Usage option"
  | AgentFailed rstr

definition given_text :: "rstr option \<Rightarrow> rstr list" where
  "given_text t = (case t of None \<Rightarrow> [] | Some s \<Rightarrow> if s = [] then [] else [s])"

definition delta_events :: "ChoiceDelta \<Rightarrow> AgentEvent list" where
  "delta_events d =
     map AgentText (given_text (cd_content d)) @ map AgentReasoning (given_text (cd_reasoning_content d)) @
     (case cd_tool_calls d of None \<Rightarrow> [] | Some calls \<Rightarrow> map AgentToolDelta calls)"

definition chunk_to_events :: "StreamChunk \<Rightarrow> AgentEvent list" where
  "chunk_to_events chunk =
     (let events = concat (map (\<lambda>c. case ch_delta c of None \<Rightarrow> [] | Some d \<Rightarrow> delta_events d) (sc_choices chunk));
          saw_finish = list_ex (\<lambda>c. ch_finish_reason c \<noteq> None) (sc_choices chunk)
      in if saw_finish then events @ [AgentDone (sc_usage chunk)]
         else if events = [] \<and> sc_usage chunk \<noteq> None then [AgentDone (sc_usage chunk)]
         else events)"

section \<open>Server-sent events\<close>

text \<open>Bytes are characters; \<open>utf8\<close> decodes a line, \<open>parse\<close> reads the JSON of a chunk.\<close>

record SseDecoder =
  sd_buffer :: rstr
  sd_data :: rstr
  sd_limit :: nat

definition with_limit :: "nat \<Rightarrow> SseDecoder" where
  "with_limit n = \<lparr>sd_buffer = [], sd_data = [], sd_limit = n\<rparr>"

definition buffered :: "SseDecoder \<Rightarrow> nat" where
  "buffered d = length (sd_buffer d) + utf8_len (sd_data d)"

definition check_limit :: "SseDecoder \<Rightarrow> AgentError option" where
  "check_limit d = (if sd_limit d < buffered d then Some (StreamOverflow (sd_limit d)) else None)"

definition parse_sse_data :: "(rstr \<Rightarrow> rstr + StreamChunk) \<Rightarrow> rstr \<Rightarrow> AgentError + AgentEvent list" where
  "parse_sse_data parse data =
     (let data = trim data in
      if data = [] \<or> data = ''[DONE]'' then Inr []
      else case parse data of Inl e \<Rightarrow> Inl (SerdeError e) | Inr chunk \<Rightarrow> Inr (chunk_to_events chunk))"

definition sse_dispatch ::
  "(rstr \<Rightarrow> rstr + StreamChunk) \<Rightarrow> SseDecoder \<Rightarrow> AgentError + SseDecoder \<times> AgentEvent list" where
  "sse_dispatch parse d =
     (if sd_data d = [] then Inr (d, [])
      else case parse_sse_data parse (sd_data d) of
          Inl e \<Rightarrow> Inl e
        | Inr events \<Rightarrow> Inr (d\<lparr>sd_data := []\<rparr>, events))"

definition push_data :: "rstr \<Rightarrow> SseDecoder \<Rightarrow> SseDecoder" where
  "push_data val d = d\<lparr>sd_data := (if sd_data d = [] then [] else sd_data d @ [NL]) @ val\<rparr>"

definition data_value :: "rstr \<Rightarrow> rstr" where
  "data_value val = (case strip_prefix '' '' val of None \<Rightarrow> val | Some v \<Rightarrow> v)"

definition handle_line ::
  "(rstr \<Rightarrow> rstr + StreamChunk) \<Rightarrow> rstr \<Rightarrow> SseDecoder \<Rightarrow> AgentError + SseDecoder \<times> AgentEvent list" where
  "handle_line parse line d =
     (if line = [] then sse_dispatch parse d
      else if starts_with '':'' line then Inr (d, [])
      else case strip_prefix ''data:'' line of
          None \<Rightarrow> Inr (d, [])
        | Some val \<Rightarrow>
            (let d = push_data (data_value val) d in
             case check_limit d of Some e \<Rightarrow> Inl e | None \<Rightarrow> Inr (d, [])))"

definition decode_line ::
  "(rstr \<Rightarrow> rstr + rstr) \<Rightarrow> (rstr \<Rightarrow> rstr + StreamChunk) \<Rightarrow> rstr \<Rightarrow> SseDecoder \<Rightarrow> AgentError + SseDecoder \<times> AgentEvent list" where
  "decode_line utf8 parse bs d =
     (case utf8 bs of
        Inl e \<Rightarrow> Inl (ParseError e)
      | Inr line \<Rightarrow> handle_line parse (trim_end_matches (\<lambda>c. c = CHR 0x0D) line) d)"

text \<open>The loop over complete lines.\<close>

lemma split_once_length: "split_once c s = Some (a, b) \<Longrightarrow> length b < length s"
  by (induction s arbitrary: a b) (auto split: if_splits)

function drain_lines ::
  "(rstr \<Rightarrow> rstr + rstr) \<Rightarrow> (rstr \<Rightarrow> rstr + StreamChunk) \<Rightarrow> SseDecoder \<Rightarrow> AgentError + SseDecoder \<times> AgentEvent list" where
  "drain_lines utf8 parse d =
     (case split_once NL (sd_buffer d) of
        None \<Rightarrow> Inr (d, [])
      | Some (line, rest) \<Rightarrow>
          (case decode_line utf8 parse line (d\<lparr>sd_buffer := rest\<rparr>) of
             Inl e \<Rightarrow> Inl e
           | Inr (d', events) \<Rightarrow>
               (case drain_lines utf8 parse (d'\<lparr>sd_buffer := rest\<rparr>) of
                  Inl e \<Rightarrow> Inl e
                | Inr (d'', events') \<Rightarrow> Inr (d'', events @ events'))))"
  by pat_completeness auto
termination
  by (relation "measure (\<lambda>(utf8, parse, d). length (sd_buffer d))") (auto dest: split_once_length)

declare drain_lines.simps [simp del]

definition sse_push ::
  "(rstr \<Rightarrow> rstr + rstr) \<Rightarrow> (rstr \<Rightarrow> rstr + StreamChunk) \<Rightarrow> rstr \<Rightarrow> SseDecoder \<Rightarrow> AgentError + SseDecoder \<times> AgentEvent list" where
  "sse_push utf8 parse bs d =
     (let d = d\<lparr>sd_buffer := sd_buffer d @ bs\<rparr> in
      case check_limit d of Some e \<Rightarrow> Inl e | None \<Rightarrow> drain_lines utf8 parse d)"

definition sse_finish ::
  "(rstr \<Rightarrow> rstr + rstr) \<Rightarrow> (rstr \<Rightarrow> rstr + StreamChunk) \<Rightarrow> SseDecoder \<Rightarrow> AgentError + SseDecoder \<times> AgentEvent list" where
  "sse_finish utf8 parse d =
     (case (if sd_buffer d = [] then Inr (d, []) else decode_line utf8 parse (sd_buffer d) (d\<lparr>sd_buffer := []\<rparr>)) of
        Inl e \<Rightarrow> Inl e
      | Inr (d, events) \<Rightarrow>
          (case sse_dispatch parse d of
             Inl e \<Rightarrow> Inl e
           | Inr (d, events') \<Rightarrow> Inr (d, events @ events')))"

text \<open>The stream of \<^verbatim>\<open>stream_chat\<close>: what it yields from the chunks of a body, and the error it ends with.\<close>

fun decode_stream ::
  "(rstr \<Rightarrow> rstr + rstr) \<Rightarrow> (rstr \<Rightarrow> rstr + StreamChunk) \<Rightarrow> rstr list \<Rightarrow> SseDecoder \<Rightarrow> AgentEvent list \<times> AgentError option" where
  "decode_stream utf8 parse [] d =
     (case sse_finish utf8 parse d of Inl e \<Rightarrow> ([], Some e) | Inr (_, events) \<Rightarrow> (events, None))"
| "decode_stream utf8 parse (bs # chunks) d =
     (case sse_push utf8 parse bs d of
        Inl e \<Rightarrow> ([], Some e)
      | Inr (d, events) \<Rightarrow>
          (case decode_stream utf8 parse chunks d of (events', e) \<Rightarrow> (events @ events', e)))"

definition MAX_ERROR_BODY_BYTES :: nat where "MAX_ERROR_BODY_BYTES = 64 * 1024"

text \<open>The body of an error, as \<open>Inr\<close> whole or \<open>Inl\<close> its beginning, with the note of the cut to come.\<close>

fun read_error_body :: "rstr list \<Rightarrow> rstr \<Rightarrow> rstr + rstr" where
  "read_error_body [] bs = Inr bs"
| "read_error_body (chunk # chunks) bs =
     (let bs = bs @ take (min (length chunk) (MAX_ERROR_BODY_BYTES + 1 - length bs)) chunk in
      if MAX_ERROR_BODY_BYTES < length bs then Inl (take MAX_ERROR_BODY_BYTES bs)
      else read_error_body chunks bs)"

section \<open>Tool calls\<close>

record PartialToolCall =
  pt_id :: "rstr option"
  pt_name :: "rstr option"
  pt_arguments :: rstr

definition new_partial :: PartialToolCall where
  "new_partial = \<lparr>pt_id = None, pt_name = None, pt_arguments = []\<rparr>"

type_synonym ToolCallAccumulator = "(nat \<times> PartialToolCall) list"

definition delta_index :: "ToolCallDelta \<Rightarrow> nat" where
  "delta_index delta = (case td_index delta of None \<Rightarrow> 0 | Some i \<Rightarrow> unat i)"

definition apply_delta :: "ToolCallDelta \<Rightarrow> PartialToolCall \<Rightarrow> PartialToolCall" where
  "apply_delta delta call =
     (let call = (case td_id delta of None \<Rightarrow> call | Some i \<Rightarrow> call\<lparr>pt_id := Some i\<rparr>)
      in case td_function delta of
           None \<Rightarrow> call
         | Some f \<Rightarrow>
             (let call = (case fd_name f of None \<Rightarrow> call | Some n \<Rightarrow> call\<lparr>pt_name := Some n\<rparr>)
              in case fd_arguments f of None \<Rightarrow> call | Some a \<Rightarrow> call\<lparr>pt_arguments := pt_arguments call @ a\<rparr>))"

definition push_delta :: "ToolCallDelta \<Rightarrow> ToolCallAccumulator \<Rightarrow> ToolCallAccumulator" where
  "push_delta delta acc =
     (let index = delta_index delta;
          call = (case map_of acc index of None \<Rightarrow> new_partial | Some call \<Rightarrow> call)
      in AList.update index (apply_delta delta call) acc)"

definition finish_call :: "(rstr \<Rightarrow> rstr + Value) \<Rightarrow> nat \<times> PartialToolCall \<Rightarrow> ToolError + ToolCall" where
  "finish_call from_str entry =
     (case entry of (index, call) \<Rightarrow>
       (let i = (case pt_id call of None \<Rightarrow> ''call_'' @ nat_digits index | Some i \<Rightarrow> i) in
        case pt_name call of
          None \<Rightarrow> Inl (InvalidArguments i ''missing function name'')
        | Some name \<Rightarrow>
            (if trim (pt_arguments call) = [] then Inr \<lparr>tc_id = i, tc_name = name, tc_arguments = Object []\<rparr>
             else case from_str (pt_arguments call) of
                 Inl e \<Rightarrow> Inl (InvalidArguments name e)
               | Inr v \<Rightarrow> Inr \<lparr>tc_id = i, tc_name = name, tc_arguments = v\<rparr>)))"

fun collect_results :: "('e + 'a) list \<Rightarrow> 'e + 'a list" where
  "collect_results [] = Inr []"
| "collect_results (Inl e # rs) = Inl e"
| "collect_results (Inr x # rs) = (case collect_results rs of Inl e \<Rightarrow> Inl e | Inr xs \<Rightarrow> Inr (x # xs))"

definition accumulator_finish :: "(rstr \<Rightarrow> rstr + Value) \<Rightarrow> ToolCallAccumulator \<Rightarrow> ToolError + ToolCall list" where
  "accumulator_finish from_str acc = collect_results (map (finish_call from_str) (sort_key fst acc))"

section \<open>Requests\<close>

text \<open>What a wait for data ends in.\<close>

datatype Poll = Elapsed | StreamEnds | Yields "AgentError + AgentEvent"

record Net =
  net_open :: "nat \<Rightarrow> ChatRequest \<Rightarrow> AgentError option"
  net_poll :: "nat \<Rightarrow> nat \<Rightarrow> Poll \<times> nat"

text \<open>What went over the wire so far: the requests, the number of waits, the time, the pauses.\<close>

record Wire =
  wr_requests :: "ChatRequest list"
  wr_polls :: nat
  wr_now :: nat
  wr_slept :: "nat list"

definition stream_chat :: "Net \<Rightarrow> ChatRequest \<Rightarrow> Wire \<Rightarrow> Wire \<times> AgentError option" where
  "stream_chat net request w =
     (w\<lparr>wr_requests := wr_requests w @ [request]\<rparr>, net_open net (length (wr_requests w)) request)"

definition sleep :: "nat \<Rightarrow> Wire \<Rightarrow> Wire" where
  "sleep ms w = w\<lparr>wr_now := wr_now w + ms, wr_slept := wr_slept w @ [ms]\<rparr>"

definition INITIAL_BACKOFF :: nat where "INITIAL_BACKOFF = 250"
definition MAX_BACKOFF :: nat where "MAX_BACKOFF = 4000"

record GuardedStream =
  gs_request :: ChatRequest
  gs_chunk_timeout :: nat
  gs_total_timeout :: nat
  gs_deadline :: nat
  gs_max_bytes :: nat
  gs_bytes_seen :: nat
  gs_retries_left :: nat
  gs_retries_used :: nat
  gs_backoff :: nat
  gs_any_content :: bool
  gs_saw_done :: bool
  gs_finished :: bool

definition event_content_len :: "AgentEvent \<Rightarrow> nat" where
  "event_content_len event =
     (case event of
        AgentText s \<Rightarrow> utf8_len s
      | AgentReasoning s \<Rightarrow> utf8_len s
      | AgentToolDelta delta \<Rightarrow>
          (case Option.bind (td_function delta) fd_arguments of None \<Rightarrow> 0 | Some a \<Rightarrow> utf8_len a)
      | AgentDone _ \<Rightarrow> 0
      | AgentFailed _ \<Rightarrow> 0)"

fun reopen :: "Net \<Rightarrow> nat \<Rightarrow> AgentError \<Rightarrow> GuardedStream \<Rightarrow> Wire \<Rightarrow> GuardedStream \<times> Wire \<times> AgentError option" where
  "reopen net 0 last_error gs w = (gs, w, Some last_error)"
| "reopen net (Suc left) last_error gs w =
     (let w = sleep (gs_backoff gs) w;
          gs = gs\<lparr>gs_retries_left := left, gs_retries_used := gs_retries_used gs + 1,
                 gs_backoff := min (gs_backoff gs * 2) MAX_BACKOFF\<rparr>
      in case stream_chat net (gs_request gs) w of
           (w, None) \<Rightarrow> (gs, w, None)
         | (w, Some e) \<Rightarrow> reopen net left e gs w)"

lemma reopen_left: "reopen net left e gs w = (gs', w', None) \<Longrightarrow> gs_retries_left gs' < left"
proof (induction left arbitrary: e gs w)
  case (Suc left)
  from Suc.prems Suc.IH show ?case by (auto simp: Let_def split: prod.splits option.splits intro: less_SucI)
qed simp

definition ENDED_EARLY :: rstr where "ENDED_EARLY = ''the reply ended before the model finished''"

function next_event :: "Net \<Rightarrow> GuardedStream \<Rightarrow> Wire \<Rightarrow> GuardedStream \<times> Wire \<times> (AgentError + AgentEvent) option" where
  "next_event net gs w =
     (if gs_finished gs then (gs, w, None)
      else if gs_deadline gs \<le> wr_now w
      then (gs\<lparr>gs_finished := True\<rparr>, w, Some (Inl (StreamDeadlineExceeded (gs_total_timeout gs div 1000))))
      else
        (let wait = min (gs_chunk_timeout gs) (gs_deadline gs - wr_now w);
             (poll, passed) = net_poll net (wr_polls w) wait;
             w = w\<lparr>wr_polls := wr_polls w + 1, wr_now := wr_now w + passed\<rparr>
         in case poll of
              Elapsed \<Rightarrow>
                (gs\<lparr>gs_finished := True\<rparr>, w,
                 Some (Inl (if gs_deadline gs \<le> wr_now w then StreamDeadlineExceeded (gs_total_timeout gs div 1000)
                            else StreamStalled (gs_chunk_timeout gs div 1000))))
            | StreamEnds \<Rightarrow>
                (gs\<lparr>gs_finished := True\<rparr>, w, if gs_saw_done gs then None else Some (Inl (ParseError ENDED_EARLY)))
            | Yields (Inr event) \<Rightarrow>
                (let gs = gs\<lparr>gs_any_content := True,
                            gs_saw_done := gs_saw_done gs \<or> (case event of AgentDone _ \<Rightarrow> True | _ \<Rightarrow> False),
                            gs_bytes_seen := gs_bytes_seen gs + event_content_len event\<rparr>
                 in if gs_max_bytes gs < gs_bytes_seen gs
                    then (gs\<lparr>gs_finished := True\<rparr>, w, Some (Inl (StreamOverflow (gs_max_bytes gs))))
                    else (gs, w, Some (Inr event)))
            | Yields (Inl e) \<Rightarrow>
                if gs_any_content gs then (gs\<lparr>gs_finished := True\<rparr>, w, Some (Inl e))
                else (case reopen net (gs_retries_left gs) e gs w of
                        (gs, w, None) \<Rightarrow> next_event net gs w
                      | (gs, w, Some e) \<Rightarrow> (gs\<lparr>gs_finished := True\<rparr>, w, Some (Inl e)))))"
  by pat_completeness auto
termination
  by (relation "measure (\<lambda>(net, gs, w). gs_retries_left gs)") (auto dest: reopen_left [OF sym])

declare next_event.simps [simp del]

section \<open>Opening\<close>

definition guarded :: "AgentConfig \<Rightarrow> ChatRequest \<Rightarrow> nat \<Rightarrow> nat \<Rightarrow> nat \<Rightarrow> Wire \<Rightarrow> GuardedStream" where
  "guarded config request retries_left retries_used backoff w =
     \<lparr>gs_request = request,
      gs_chunk_timeout = unat (ac_stream_chunk_timeout config) * 1000,
      gs_total_timeout = unat (ac_stream_total_timeout config) * 1000,
      gs_deadline = wr_now w + unat (ac_stream_total_timeout config) * 1000,
      gs_max_bytes = unat (ac_stream_max_bytes config), gs_bytes_seen = 0,
      gs_retries_left = retries_left, gs_retries_used = retries_used, gs_backoff = backoff,
      gs_any_content = False, gs_saw_done = False, gs_finished = False\<rparr>"

definition stream_with_fallback :: "Net \<Rightarrow> TurnRoute \<Rightarrow> ChatRequest \<Rightarrow> Wire \<Rightarrow> TurnRoute \<times> Wire \<times> AgentError option" where
  "stream_with_fallback net route request w =
     (case stream_chat net request w of
        (w, None) \<Rightarrow> (route, w, None)
      | (w, Some e) \<Rightarrow>
          if api_error_retriable e then
            (case api_fallback_model route of
               None \<Rightarrow> (route, w, Some e)
             | Some fallback \<Rightarrow>
                 (let route = route\<lparr>effective_model := fallback, used_model_fallback := True,
                                   effective_effort := clamp_effort_to_model fallback (effective_effort route),
                                   fallback_reason := Some RouteFallbackProToFlash\<rparr>;
                      retry = request\<lparr>cr_model := fallback, cr_effort := as_api_value (effective_effort route)\<rparr>
                  in case stream_chat net retry w of (w, result) \<Rightarrow> (route, w, result)))
          else (route, w, Some e))"

definition on_route :: "TurnRoute \<Rightarrow> ChatRequest \<Rightarrow> ChatRequest" where
  "on_route route request =
     request\<lparr>cr_model := effective_model route,
             cr_effort := as_api_value (clamp_effort_to_model (effective_model route) (effective_effort route))\<rparr>"

text \<open>The loop of attempts: on success, the retries left and used and the backoff it leaves.\<close>

fun open_attempts ::
  "Net \<Rightarrow> nat \<Rightarrow> nat \<Rightarrow> nat \<Rightarrow> TurnRoute \<Rightarrow> ChatRequest \<Rightarrow> Wire \<Rightarrow> TurnRoute \<times> Wire \<times> (AgentError + nat \<times> nat \<times> nat)" where
  "open_attempts net left used backoff route request w =
     (case stream_with_fallback net route (on_route route request) w of
        (route, w, None) \<Rightarrow> (route, w, Inr (left, used, backoff))
      | (route, w, Some e) \<Rightarrow>
          (case left of
             Suc left' \<Rightarrow>
               if open_error_retriable e
               then open_attempts net left' (used + 1) (min (backoff * 2) MAX_BACKOFF) route request (sleep backoff w)
               else (route, w, Inl e)
           | 0 \<Rightarrow> (route, w, Inl e)))"

definition open_turn_stream ::
  "Net \<Rightarrow> AgentConfig \<Rightarrow> TurnRoute \<Rightarrow> ChatRequest \<Rightarrow> Wire \<Rightarrow> TurnRoute \<times> Wire \<times> (AgentError + GuardedStream)" where
  "open_turn_stream net config route request w =
     (case open_attempts net (unat (ac_stream_max_retries config)) 0 INITIAL_BACKOFF route request w of
        (route, w, Inl e) \<Rightarrow> (route, w, Inl e)
      | (route, w, Inr (left, used, backoff)) \<Rightarrow>
          (route, w, Inr (guarded config (on_route route request) left used backoff w)))"

fun side_attempts ::
  "Net \<Rightarrow> nat \<Rightarrow> nat \<Rightarrow> nat \<Rightarrow> ChatRequest \<Rightarrow> Wire \<Rightarrow> Wire \<times> (AgentError + nat \<times> nat \<times> nat)" where
  "side_attempts net left used backoff request w =
     (case stream_chat net request w of
        (w, None) \<Rightarrow> (w, Inr (left, used, backoff))
      | (w, Some e) \<Rightarrow>
          (case left of
             Suc left' \<Rightarrow>
               if open_error_retriable e
               then side_attempts net left' (used + 1) (min (backoff * 2) MAX_BACKOFF) request (sleep backoff w)
               else (w, Inl e)
           | 0 \<Rightarrow> (w, Inl e)))"

definition open_side_stream ::
  "Net \<Rightarrow> AgentConfig \<Rightarrow> ChatRequest \<Rightarrow> Wire \<Rightarrow> Wire \<times> (AgentError + GuardedStream)" where
  "open_side_stream net config request w =
     (case side_attempts net (unat (ac_stream_max_retries config)) 0 INITIAL_BACKOFF request w of
        (w, Inl e) \<Rightarrow> (w, Inl e)
      | (w, Inr (left, used, backoff)) \<Rightarrow> (w, Inr (guarded config request left used backoff w)))"

declare open_attempts.simps [simp del] side_attempts.simps [simp del]

section \<open>A reply does not depend on how the network cuts it\<close>

definition line_bytes_kept :: "(rstr \<Rightarrow> rstr + rstr) \<Rightarrow> bool" where
  "line_bytes_kept utf8 \<longleftrightarrow> (\<forall>bs s. utf8 bs = Inr s \<longrightarrow> utf8_len s = length bs)"

definition decode_free ::
  "(rstr \<Rightarrow> rstr + rstr) \<Rightarrow> (rstr \<Rightarrow> rstr + StreamChunk) \<Rightarrow> rstr \<Rightarrow> SseDecoder \<Rightarrow> AgentError + SseDecoder \<times> AgentEvent list" where
  "decode_free utf8 parse bs d =
     (case utf8 bs of
        Inl e \<Rightarrow> Inl (ParseError e)
      | Inr raw \<Rightarrow>
          (let line = trim_end_matches (\<lambda>c. c = CHR 0x0D) raw in
           if line = [] then sse_dispatch parse d
           else if starts_with '':'' line then Inr (d, [])
           else case strip_prefix ''data:'' line of None \<Rightarrow> Inr (d, []) | Some val \<Rightarrow> Inr (push_data (data_value val) d, [])))"

lemma utf8_len_simps [simp]: "utf8_len [] = 0" "utf8_len (a @ b) = utf8_len a + utf8_len b" "utf8_len (c # s) = (if digit7 c then 2 else 1) + utf8_len s"
  by (simp_all add: utf8_len_def)

lemma utf8_len_char: "utf8_len [c] \<ge> 1" "utf8_len [NL] = 1"
  by (simp_all add: utf8_len_def)

lemma strip_prefix_splits: "strip_prefix p s = Some r \<Longrightarrow> s = p @ r"
  by (induction p s rule: strip_prefix.induct) (auto split: if_splits)

lemma utf8_len_trim_end: "utf8_len (trim_end_matches P s) \<le> utf8_len s"
proof -
  have "s = trim_end_matches P s @ rev (takeWhile P (rev s))"
    unfolding trim_end_matches_def rev_append [symmetric] by simp
  then have "utf8_len s = utf8_len (trim_end_matches P s) + utf8_len (rev (takeWhile P (rev s)))"
    using utf8_len_simps(2) by metis
  then show ?thesis by simp
qed

lemma data_value_len: "utf8_len (data_value v) \<le> utf8_len v"
  by (auto simp: data_value_def dest!: strip_prefix_splits split: option.split)

lemma push_data_len: "utf8_len (sd_data (push_data v d)) \<le> utf8_len (sd_data d) + utf8_len v + 1"
  by (simp add: push_data_def utf8_len_char)

lemma sse_dispatch_facts:
  "sse_dispatch parse d = Inr (d', events) \<Longrightarrow>
    sd_buffer d' = sd_buffer d \<and> sd_limit d' = sd_limit d \<and> utf8_len (sd_data d') \<le> utf8_len (sd_data d)"
  by (auto simp: sse_dispatch_def split: if_splits sum.splits)

lemma data_line_len:
  assumes "line_bytes_kept utf8" "utf8 bs = Inr raw" "strip_prefix ''data:'' (trim_end_matches P raw) = Some val"
  shows "utf8_len (data_value val) + 5 \<le> length bs"
proof -
  have "utf8_len (trim_end_matches P raw) \<le> length bs"
    using utf8_len_trim_end [of P raw] assms(1,2) by (auto simp: line_bytes_kept_def)
  moreover have "utf8_len (trim_end_matches P raw) = 5 + utf8_len val"
    unfolding strip_prefix_splits [OF assms(3)] by (simp add: utf8_len_def)
  ultimately show ?thesis using data_value_len [of val] by simp
qed

lemma decode_free_facts:
  assumes "line_bytes_kept utf8" "decode_free utf8 parse bs d = Inr (d', events)"
  shows "sd_limit d' = sd_limit d \<and> utf8_len (sd_data d') \<le> utf8_len (sd_data d) + length bs"
proof -
  obtain raw where raw: "utf8 bs = Inr raw" using assms(2) by (auto simp: decode_free_def split: sum.splits)
  have "utf8_len (sd_data (push_data (data_value val) d)) \<le> utf8_len (sd_data d) + length bs"
    if "strip_prefix ''data:'' (trim_end_matches (\<lambda>c. c = CHR 0x0D) raw) = Some val" for val
    using data_line_len [OF assms(1) raw that] push_data_len [of "data_value val" d] by linarith
  moreover have "sd_limit (push_data v d) = sd_limit d" for v by (simp add: push_data_def)
  ultimately show ?thesis using assms(2) raw
    by (auto simp: decode_free_def Let_def dest: sse_dispatch_facts split: if_splits option.splits)
qed

text \<open>Within the limit, decoding a line does not look at what else is buffered.\<close>

lemma push_data_buffer:
  "push_data v (d\<lparr>sd_buffer := b\<rparr>) = (push_data v d)\<lparr>sd_buffer := b\<rparr>"
  "sd_buffer (push_data v d) = sd_buffer d" "sd_limit (push_data v d) = sd_limit d"
  by (simp_all add: push_data_def)

lemma sse_dispatch_buffer:
  "sse_dispatch parse (d\<lparr>sd_buffer := b\<rparr>) =
     (case sse_dispatch parse d of Inl e \<Rightarrow> Inl e | Inr (d', events) \<Rightarrow> Inr (d'\<lparr>sd_buffer := b\<rparr>, events))"
  by (simp add: sse_dispatch_def split: sum.split)

lemma decode_line_free:
  assumes "line_bytes_kept utf8" "length b + length bs + utf8_len (sd_data d) \<le> sd_limit d"
  shows "decode_line utf8 parse bs (d\<lparr>sd_buffer := b\<rparr>) =
    (case decode_free utf8 parse bs d of Inl e \<Rightarrow> Inl e | Inr (d', events) \<Rightarrow> Inr (d'\<lparr>sd_buffer := b\<rparr>, events))"
proof (cases "utf8 bs")
  case (Inr raw)
  let ?line = "trim_end_matches (\<lambda>c. c = CHR 0x0D) raw"
  show ?thesis
  proof (cases "strip_prefix ''data:'' ?line")
    case None
    then show ?thesis by (simp add: decode_line_def decode_free_def handle_line_def Let_def Inr sse_dispatch_buffer)
  next
    case (Some val)
    have "check_limit ((push_data (data_value val) d)\<lparr>sd_buffer := b\<rparr>) = None"
      using data_line_len [OF assms(1) Inr Some] assms(2) push_data_len [of "data_value val" d]
      by (simp add: check_limit_def buffered_def push_data_buffer)
    then show ?thesis
      by (simp add: decode_line_def decode_free_def handle_line_def Let_def Inr Some sse_dispatch_buffer push_data_buffer(1))
  qed
qed (simp add: decode_line_def decode_free_def)

lemma split_once_append: "split_once c s = Some (a, b) \<Longrightarrow> split_once c (s @ t) = Some (a, b @ t)"
  by (induction s arbitrary: a b) (auto split: if_splits)

lemma split_once_exact: "split_once c s = Some (a, b) \<Longrightarrow> length s = length a + 1 + length b"
  by (induction s arbitrary: a b) (auto split: if_splits)

definition bind_events ::
  "AgentError + SseDecoder \<times> AgentEvent list \<Rightarrow> (SseDecoder \<Rightarrow> AgentError + SseDecoder \<times> AgentEvent list) \<Rightarrow>
   AgentError + SseDecoder \<times> AgentEvent list" where
  "bind_events r k =
     (case r of Inl e \<Rightarrow> Inl e
      | Inr (d, events) \<Rightarrow> (case k d of Inl e \<Rightarrow> Inl e | Inr (d', events') \<Rightarrow> Inr (d', events @ events')))"

lemma bind_events_assoc: "bind_events (bind_events r k) h = bind_events r (\<lambda>d. bind_events (k d) h)"
  by (auto simp: bind_events_def split: sum.split)

lemma drain_step:
  "drain_lines utf8 parse d =
     (case split_once NL (sd_buffer d) of
        None \<Rightarrow> Inr (d, [])
      | Some (line, rest) \<Rightarrow>
          bind_events (decode_line utf8 parse line (d\<lparr>sd_buffer := rest\<rparr>)) (\<lambda>d'. drain_lines utf8 parse (d'\<lparr>sd_buffer := rest\<rparr>)))"
  by (subst drain_lines.simps) (auto simp: bind_events_def split: option.split sum.split prod.split)

lemma drain_append:
  assumes "line_bytes_kept utf8" "length (sd_buffer d) + length bs + utf8_len (sd_data d) \<le> sd_limit d"
  shows "drain_lines utf8 parse (d\<lparr>sd_buffer := sd_buffer d @ bs\<rparr>) =
    bind_events (drain_lines utf8 parse d) (\<lambda>d'. drain_lines utf8 parse (d'\<lparr>sd_buffer := sd_buffer d' @ bs\<rparr>))"
  using assms(2)
proof (induction "length (sd_buffer d)" arbitrary: d rule: less_induct)
  case less
  show ?case
  proof (cases "split_once NL (sd_buffer d)")
    case None
    then show ?thesis by (simp add: drain_step [of _ _ d] bind_events_def split: sum.split)
  next
    case (Some p)
    obtain line rest where p: "p = (line, rest)" by (cases p)
    note len = split_once_exact [OF Some [unfolded p]]
    have dec: "decode_line utf8 parse line (d\<lparr>sd_buffer := b\<rparr>) = (case decode_free utf8 parse line d of
        Inl e \<Rightarrow> Inl e | Inr (d', events) \<Rightarrow> Inr (d'\<lparr>sd_buffer := b\<rparr>, events))" if "length b \<le> length rest + length bs" for b
      using that len less.prems by (intro decode_line_free [OF assms(1)]) simp
    show ?thesis
    proof (cases "decode_free utf8 parse line d")
      case (Inl e)
      then show ?thesis using dec [of rest] dec [of "rest @ bs"]
        by (simp add: drain_step [of _ _ d] drain_step [of _ _ "d\<lparr>sd_buffer := sd_buffer d @ bs\<rparr>"] Some p
            split_once_append [OF Some [unfolded p]] bind_events_def)
    next
      case (Inr r)
      obtain d' events where r: "r = (d', events)" by (cases r)
      note facts = decode_free_facts [OF assms(1) Inr [unfolded r]]
      have ih: "drain_lines utf8 parse (d'\<lparr>sd_buffer := rest @ bs\<rparr>) =
          bind_events (drain_lines utf8 parse (d'\<lparr>sd_buffer := rest\<rparr>)) (\<lambda>x. drain_lines utf8 parse (x\<lparr>sd_buffer := sd_buffer x @ bs\<rparr>))"
        using less.hyps [of "d'\<lparr>sd_buffer := rest\<rparr>"] len less.prems facts by simp
      show ?thesis
        using dec [of rest] dec [of "rest @ bs"] Inr r
        by (simp add: drain_step [of _ _ d] drain_step [of _ _ "d\<lparr>sd_buffer := sd_buffer d @ bs\<rparr>"] Some p
            split_once_append [OF Some [unfolded p]] ih bind_events_def split: sum.split)
    qed
  qed
qed

lemma drain_facts:
  assumes "line_bytes_kept utf8" "buffered d \<le> sd_limit d" "drain_lines utf8 parse d = Inr (d', events)"
  shows "sd_limit d' = sd_limit d \<and> buffered d' \<le> buffered d \<and> split_once NL (sd_buffer d') = None"
  using assms(2,3)
proof (induction "length (sd_buffer d)" arbitrary: d events rule: less_induct)
  case less
  show ?case
  proof (cases "split_once NL (sd_buffer d)")
    case None
    with less.prems show ?thesis by (simp add: drain_step [of _ _ d])
  next
    case (Some p)
    obtain line rest where p: "p = (line, rest)" by (cases p)
    note len = split_once_exact [OF Some [unfolded p]]
    have dec: "decode_line utf8 parse line (d\<lparr>sd_buffer := rest\<rparr>) = (case decode_free utf8 parse line d of
        Inl e \<Rightarrow> Inl e | Inr (d', events) \<Rightarrow> Inr (d'\<lparr>sd_buffer := rest\<rparr>, events))"
      using len less.prems(1) by (intro decode_line_free [OF assms(1)]) (simp add: buffered_def)
    obtain d1 ev1 ev2 where r: "decode_free utf8 parse line d = Inr (d1, ev1)"
      "drain_lines utf8 parse (d1\<lparr>sd_buffer := rest\<rparr>) = Inr (d', ev2)"
      using less.prems(2) dec by (auto simp: drain_step [of _ _ d] Some p bind_events_def split: sum.splits)
    note facts = decode_free_facts [OF assms(1) r(1)]
    have b: "buffered (d1\<lparr>sd_buffer := rest\<rparr>) \<le> buffered d" using facts len by (simp add: buffered_def)
    then show ?thesis
      using less.hyps [of "d1\<lparr>sd_buffer := rest\<rparr>", OF _ _ r(2)] len less.prems(1) facts by simp
  qed
qed

lemma push_within:
  "buffered d + length bs \<le> sd_limit d \<Longrightarrow> sse_push utf8 parse bs d = drain_lines utf8 parse (d\<lparr>sd_buffer := sd_buffer d @ bs\<rparr>)"
  by (simp add: sse_push_def check_limit_def buffered_def)

lemma push_append:
  assumes "line_bytes_kept utf8" "buffered d + length a + length b \<le> sd_limit d"
  shows "sse_push utf8 parse (a @ b) d = bind_events (sse_push utf8 parse a d) (sse_push utf8 parse b)"
proof -
  let ?d = "d\<lparr>sd_buffer := sd_buffer d @ a\<rparr>"
  have "sse_push utf8 parse (a @ b) d = bind_events (drain_lines utf8 parse ?d) (\<lambda>d'. drain_lines utf8 parse (d'\<lparr>sd_buffer := sd_buffer d' @ b\<rparr>))"
    using assms drain_append [OF assms(1), of ?d b] by (simp add: push_within buffered_def)
  also have "\<dots> = bind_events (drain_lines utf8 parse ?d) (sse_push utf8 parse b)"
  proof (cases "drain_lines utf8 parse ?d")
    case (Inr r)
    obtain d' events where r: "r = (d', events)" by (cases r)
    have "sd_limit d' = sd_limit d \<and> buffered d' \<le> buffered d + length a"
      using drain_facts [OF assms(1) _ Inr [unfolded r]] assms(2) by (simp add: buffered_def)
    then show ?thesis using assms(2) by (simp add: Inr r bind_events_def push_within)
  qed (simp add: bind_events_def)
  finally show ?thesis using assms(2) by (simp add: push_within)
qed

text \<open>A stream as the turn takes it: all its events, or the error it ended with.\<close>

definition settled_stream :: "AgentEvent list \<times> AgentError option \<Rightarrow> AgentError + AgentEvent list" where
  "settled_stream r = (case r of (events, None) \<Rightarrow> Inr events | (_, Some e) \<Rightarrow> Inl e)"

definition finish_events ::
  "(rstr \<Rightarrow> rstr + rstr) \<Rightarrow> (rstr \<Rightarrow> rstr + StreamChunk) \<Rightarrow> AgentError + SseDecoder \<times> AgentEvent list \<Rightarrow> AgentError + AgentEvent list" where
  "finish_events utf8 parse r = (case bind_events r (sse_finish utf8 parse) of Inl e \<Rightarrow> Inl e | Inr (_, events) \<Rightarrow> Inr events)"

lemma settled_push:
  "settled_stream (decode_stream utf8 parse (bs # chunks) d) =
     (case sse_push utf8 parse bs d of Inl e \<Rightarrow> Inl e
      | Inr (d', events) \<Rightarrow> map_sum (\<lambda>e. e) ((@) events) (settled_stream (decode_stream utf8 parse chunks d')))"
  by (auto simp: settled_stream_def split: sum.split option.split prod.split)

lemma settled_concat:
  assumes "line_bytes_kept utf8" "buffered d + length (concat chunks) \<le> sd_limit d" "split_once NL (sd_buffer d) = None"
  shows "settled_stream (decode_stream utf8 parse chunks d) = settled_stream (decode_stream utf8 parse [concat chunks] d)"
  using assms(2,3)
proof (induction chunks arbitrary: d)
  case Nil
  then have "sse_push utf8 parse [] d = Inr (d, [])" by (simp add: push_within drain_step [of _ _ d])
  then show ?case unfolding concat.simps settled_push by (simp add: settled_stream_def split: sum.split)
next
  case (Cons c chunks)
  have two: "settled_stream (decode_stream utf8 parse [c @ s] d) = settled_stream (decode_stream utf8 parse [c, s] d)"
    if "buffered d + length c + length s \<le> sd_limit d" for s
    unfolding settled_push push_append [OF assms(1) that] bind_events_def
    by (auto simp: settled_stream_def split: sum.split option.split prod.split)
  show ?case
  proof (cases "sse_push utf8 parse c d")
    case (Inl e)
    then show ?thesis using two [of "concat chunks"] Cons.prems(1) by (simp add: settled_push)
  next
    case (Inr r)
    obtain d' events where r: "r = (d', events)" by (cases r)
    have d': "sd_limit d' = sd_limit d \<and> buffered d' \<le> buffered d + length c \<and> split_once NL (sd_buffer d') = None"
      using drain_facts [OF assms(1), of "d\<lparr>sd_buffer := sd_buffer d @ c\<rparr>" parse d' events] Inr r Cons.prems(1)
      by (simp add: push_within buffered_def)
    then have "settled_stream (decode_stream utf8 parse chunks d') = settled_stream (decode_stream utf8 parse [concat chunks] d')"
      using Cons.IH [of d'] Cons.prems(1) by simp
    then have "settled_stream (decode_stream utf8 parse (c # chunks) d) = settled_stream (decode_stream utf8 parse [c, concat chunks] d)"
      by (simp only: settled_push Inr r sum.case prod.case)
    also have "\<dots> = settled_stream (decode_stream utf8 parse [concat (c # chunks)] d)"
      using two [of "concat chunks"] Cons.prems(1) by simp
    finally show ?thesis .
  qed
qed


text \<open>A decoder of two-byte characters, to see the law above at work on a character cut in two.\<close>

definition continues :: "char \<Rightarrow> char \<Rightarrow> bool" where
  "continues c d \<longleftrightarrow> (c = CHR 0xC2 \<or> c = CHR 0xC3) \<and> digit7 d \<and> \<not> digit6 d"

fun utf8_two :: "rstr \<Rightarrow> rstr + rstr" where
  "utf8_two [] = Inr []"
| "utf8_two [c] = (if digit7 c then Inl ''incomplete utf-8'' else Inr [c])"
| "utf8_two (c # d # s) =
     (if \<not> digit7 c then map_sum (\<lambda>e. e) ((#) c) (utf8_two (d # s))
      else if continues c d
      then map_sum (\<lambda>e. e)
             ((#) (Char (digit0 d) (digit1 d) (digit2 d) (digit3 d) (digit4 d) (digit5 d) (digit0 c) True)) (utf8_two s)
      else Inl ''invalid utf-8'')"

lemma utf8_two_bytes: "utf8_two bs = Inr s \<Longrightarrow> utf8_len s = length bs"
proof (induction bs arbitrary: s rule: utf8_two.induct)
  case (3 c d cs)
  then show ?case by (cases "digit7 c"; cases "continues c d"; cases "utf8_two (d # cs)"; cases "utf8_two cs") auto
qed (auto split: if_splits)


section \<open>Tool calls come back together\<close>

lemma push_delta_lookup:
  "map_of (push_delta d acc) i =
     (if i = delta_index d then Some (apply_delta d (case map_of acc i of None \<Rightarrow> new_partial | Some c \<Rightarrow> c)) else map_of acc i)"
  by (simp add: push_delta_def Let_def update_conv')

lemma push_delta_keys: "fst ` set (push_delta d acc) = insert (delta_index d) (fst ` set acc)"
  by (simp add: push_delta_def Let_def dom_update)

lemma push_delta_distinct: "distinct (map fst acc) \<Longrightarrow> distinct (map fst (push_delta d acc))"
  by (simp add: push_delta_def Let_def distinct_update)

lemma pushed_keys: "fst ` set (fold push_delta ds acc) = delta_index ` set ds \<union> fst ` set acc"
  by (induction ds arbitrary: acc) (simp_all add: push_delta_keys)

lemma pushed_distinct: "distinct (map fst acc) \<Longrightarrow> distinct (map fst (fold push_delta ds acc))"
  by (induction ds arbitrary: acc) (simp_all add: push_delta_distinct)

lemma pushed_lookup:
  "(case map_of (fold push_delta ds acc) i of None \<Rightarrow> new_partial | Some c \<Rightarrow> c) =
     fold apply_delta (filter (\<lambda>d. delta_index d = i) ds) (case map_of acc i of None \<Rightarrow> new_partial | Some c \<Rightarrow> c)"
  by (induction ds arbitrary: acc) (auto simp: push_delta_lookup)

lemma sort_by_keys:
  assumes "distinct (map fst acc)"
  shows "sort_key fst acc = map (\<lambda>i. (i, the (map_of acc i))) (sorted_list_of_set (fst ` set acc))"
proof -
  let ?s = "sort_key fst acc"
  have "distinct (map fst ?s)"
    using assms mset_eq_imp_distinct_iff [of "map fst ?s" "map fst acc"] by simp
  then have "map fst ?s = sorted_list_of_set (fst ` set acc)"
    using sorted_sort_key [of fst acc] by (metis list.set_map set_sort sorted_list_of_set.idem_if_sorted_distinct)
  moreover have "map (\<lambda>i. (i, the (map_of acc i))) (map fst ?s) = ?s"
    using assms by (auto simp: comp_def intro!: map_idI)
  ultimately show ?thesis by metis
qed

text \<open>Whatever way a model spreads its calls over deltas, each call is the fragments of its own index in order,
  and the calls come out in the order of their indices.\<close>

theorem calls_reassembled:
  "accumulator_finish from_str (fold push_delta ds []) =
     collect_results
       (map (\<lambda>i. finish_call from_str (i, fold apply_delta (filter (\<lambda>d. delta_index d = i) ds) new_partial))
         (sorted_list_of_set (delta_index ` set ds)))"
proof -
  let ?acc = "fold push_delta ds []"
  have keys: "fst ` set ?acc = delta_index ` set ds" by (simp add: pushed_keys)
  have "the (map_of ?acc i) = fold apply_delta (filter (\<lambda>d. delta_index d = i) ds) new_partial"
    if "i \<in> delta_index ` set ds" for i
  proof -
    have "map_of ?acc i \<noteq> None" using that keys by (simp add: map_of_eq_None_iff)
    then show ?thesis using pushed_lookup [of ds "[]" i] by auto
  qed
  then have "map (\<lambda>i. finish_call from_str (i, the (map_of ?acc i))) (sorted_list_of_set (delta_index ` set ds)) =
      map (\<lambda>i. finish_call from_str (i, fold apply_delta (filter (\<lambda>d. delta_index d = i) ds) new_partial))
        (sorted_list_of_set (delta_index ` set ds))"
    by (intro map_cong) auto
  moreover have "accumulator_finish from_str ?acc =
      collect_results (map (\<lambda>i. finish_call from_str (i, the (map_of ?acc i))) (sorted_list_of_set (delta_index ` set ds)))"
    by (simp add: accumulator_finish_def sort_by_keys pushed_distinct keys comp_def)
  ultimately show ?thesis by (simp only:)
qed

section \<open>A stream is guarded\<close>

definition coherent_request :: "ChatRequest \<Rightarrow> bool" where
  "coherent_request r \<longleftrightarrow> \<not> (cr_model r = DEEPSEEK_FLASH \<and> cr_effort r = Some ''max'')"

text \<open>\<open>w'\<close> has the requests of \<open>w\<close> and at most \<open>k\<close> more, none of them asking Flash for its missing effort.\<close>

definition asked_more :: "nat \<Rightarrow> Wire \<Rightarrow> Wire \<Rightarrow> bool" where
  "asked_more k w w' \<longleftrightarrow>
     take (length (wr_requests w)) (wr_requests w') = wr_requests w \<and>
     length (wr_requests w') \<le> length (wr_requests w) + k \<and>
     list_all coherent_request (drop (length (wr_requests w)) (wr_requests w'))"

lemma asked_more_iff:
  "asked_more k w w' \<longleftrightarrow> (\<exists>reqs. wr_requests w' = wr_requests w @ reqs \<and> length reqs \<le> k \<and> list_all coherent_request reqs)"
    (is "?l \<longleftrightarrow> ?r")
proof
  assume ?l
  then have "wr_requests w' = wr_requests w @ drop (length (wr_requests w)) (wr_requests w')"
    by (metis asked_more_def append_take_drop_id)
  then show ?r using \<open>?l\<close> unfolding asked_more_def
    by (intro exI [of _ "drop (length (wr_requests w)) (wr_requests w')"]) auto
qed (auto simp: asked_more_def)

lemma asked_none: "wr_requests w' = wr_requests w \<Longrightarrow> asked_more k w w'"
  by (simp add: asked_more_iff)

lemma asked_trans: "asked_more a w w' \<Longrightarrow> asked_more b w' w'' \<Longrightarrow> a + b \<le> c \<Longrightarrow> asked_more c w w''"
  by (fastforce simp: asked_more_iff)

lemma asked_mono: "asked_more a w w' \<Longrightarrow> a \<le> b \<Longrightarrow> asked_more b w w'"
  by (auto simp: asked_more_iff)

lemma asked_chat: "coherent_request r \<Longrightarrow> stream_chat net r w = (w', e) \<Longrightarrow> asked_more 1 w w'"
  by (auto simp: stream_chat_def asked_more_iff)

lemma clamped_coherent:
  "coherent_request (r\<lparr>cr_model := m, cr_effort := as_api_value (clamp_effort_to_model m e)\<rparr>)"
  by (auto simp: coherent_request_def as_api_value_def clamp_effort_to_model_def split: ReasoningEffort.splits)

lemma on_route_coherent: "coherent_request (on_route route r)"
  by (simp add: on_route_def clamped_coherent)

definition fallbacks_left :: "TurnRoute \<Rightarrow> nat" where
  "fallbacks_left route = (if api_fallback_model route = None then 0 else 1)"

lemma fallback_asks:
  assumes "stream_with_fallback net route r w = (route', w', e)" "coherent_request r"
  shows "asked_more (1 + fallbacks_left route - fallbacks_left route') w w' \<and> fallbacks_left route' \<le> fallbacks_left route"
proof -
  obtain w1 e1 where one: "stream_chat net r w = (w1, e1)" by fastforce
  note asked1 = asked_chat [OF assms(2) one]
  show ?thesis
  proof (cases "\<exists>err fb. e1 = Some err \<and> api_error_retriable err \<and> api_fallback_model route = Some fb")
    case False
    with assms(1) one have "route' = route \<and> w' = w1"
      by (auto simp: stream_with_fallback_def split: option.splits if_splits)
    then show ?thesis using asked1 by simp
  next
    case True
    then obtain err fb where fb: "e1 = Some err" "api_error_retriable err" "api_fallback_model route = Some fb" by blast
    obtain w2 e2 where two: "stream_chat net
        (r\<lparr>cr_model := fb, cr_effort := as_api_value (clamp_effort_to_model fb (effective_effort route))\<rparr>) w1 = (w2, e2)"
      by fastforce
    have res: "w' = w2 \<and> used_model_fallback route'" using assms(1) one two fb by (auto simp: stream_with_fallback_def)
    have "asked_more 2 w w2" using asked_trans [OF asked1 asked_chat [OF clamped_coherent two]] by simp
    moreover have "fallbacks_left route' = 0 \<and> fallbacks_left route = 1"
      using fb(3) res by (simp add: fallbacks_left_def api_fallback_model_def)
    ultimately show ?thesis using res by (simp add: numeral_2_eq_2)
  qed
qed

lemma attempts_ask:
  "open_attempts net left used backoff route r w = (route', w', res) \<Longrightarrow>
    asked_more (left + 1 + fallbacks_left route - (case res of Inl _ \<Rightarrow> 0 | Inr (l, _, _) \<Rightarrow> l)) w w' \<and>
    (case res of Inl _ \<Rightarrow> True | Inr (l, _, _) \<Rightarrow> l \<le> left)"
proof (induction left arbitrary: used backoff route w)
  case 0
  obtain route1 w1 e1 where one: "stream_with_fallback net route (on_route route r) w = (route1, w1, e1)"
    using prod_cases3 by blast
  then have "w' = w1 \<and> (res = Inr (0, used, backoff) \<or> (\<exists>e. res = Inl e))"
    using 0 by (auto simp: open_attempts.simps [of net 0] split: option.splits)
  moreover have "asked_more (1 + fallbacks_left route) w w1"
    by (rule asked_mono [OF conjunct1 [OF fallback_asks [OF one on_route_coherent]]]) simp
  ultimately show ?case by auto
next
  case (Suc left)
  obtain route1 w1 e1 where one: "stream_with_fallback net route (on_route route r) w = (route1, w1, e1)"
    using prod_cases3 by blast
  note asked1 = fallback_asks [OF one on_route_coherent]
  have asked: "asked_more (1 + fallbacks_left route) w w1"
    by (rule asked_mono [OF conjunct1 [OF asked1]]) simp
  show ?case
  proof (cases "\<exists>e. e1 = Some e \<and> open_error_retriable e")
    case False
    then have "w' = w1 \<and> (res = Inr (Suc left, used, backoff) \<or> (\<exists>e. res = Inl e))"
      using Suc.prems one by (auto simp: open_attempts.simps [of net "Suc left"] split: option.splits if_splits)
    moreover have "asked_more (Suc left + 1 + fallbacks_left route) w w1" by (rule asked_mono [OF asked]) simp
    ultimately show ?thesis using asked by auto
  next
    case True
    then have "open_attempts net left (used + 1) (min (backoff * 2) MAX_BACKOFF) route1 r (sleep backoff w1) = (route', w', res)"
      using Suc.prems one by (auto simp: open_attempts.simps [of net "Suc left"])
    note later = Suc.IH [OF this]
    let ?l = "case res of Inl _ \<Rightarrow> 0 | Inr (l, _, _) \<Rightarrow> l"
    have l: "?l \<le> left" using later by (auto split: sum.splits)
    have "asked_more (1 + fallbacks_left route - fallbacks_left route1) w (sleep backoff w1)"
      using asked_trans [OF conjunct1 [OF asked1] asked_none [of "sleep backoff w1" w1 0]] by (simp add: sleep_def)
    from asked_trans [OF this conjunct1 [OF later], of "Suc left + 1 + fallbacks_left route - ?l"]
    have "asked_more (Suc left + 1 + fallbacks_left route - ?l) w w'" using asked1 l by simp
    then show ?thesis using l by (auto split: sum.splits)
  qed
qed

lemma asked_sleep: "asked_more k w w' \<Longrightarrow> asked_more k w (sleep ms w')"
  by (simp add: asked_more_iff sleep_def)

lemma asked_after_sleep: "asked_more k (sleep ms w) w' \<Longrightarrow> asked_more k w w'"
  by (simp add: asked_more_iff sleep_def)

text \<open>What reopening leaves alone, and what it costs.\<close>

definition same_but_retries :: "GuardedStream \<Rightarrow> GuardedStream \<Rightarrow> bool" where
  "same_but_retries gs gs' \<longleftrightarrow>
     gs_request gs' = gs_request gs \<and> gs_max_bytes gs' = gs_max_bytes gs \<and> gs_bytes_seen gs' = gs_bytes_seen gs \<and>
     gs_any_content gs' = gs_any_content gs \<and> gs_saw_done gs' = gs_saw_done gs \<and> gs_finished gs' = gs_finished gs"

lemma reopen_asks:
  "reopen net left e gs w = (gs', w', r) \<Longrightarrow> gs_retries_left gs = left \<Longrightarrow> coherent_request (gs_request gs) \<Longrightarrow>
    same_but_retries gs gs' \<and> gs_retries_left gs' \<le> left \<and> asked_more (left - gs_retries_left gs') w w'"
proof (induction left arbitrary: e gs w)
  case 0
  then show ?case by (simp add: same_but_retries_def asked_none)
next
  case (Suc left)
  define gs1 where "gs1 = gs\<lparr>gs_retries_left := left, gs_retries_used := gs_retries_used gs + 1,
    gs_backoff := min (gs_backoff gs * 2) MAX_BACKOFF\<rparr>"
  have same: "same_but_retries gs gs1" "gs_retries_left gs1 = left" "coherent_request (gs_request gs1)"
    using Suc.prems(3) by (simp_all add: gs1_def same_but_retries_def)
  obtain w1 e1 where one: "stream_chat net (gs_request gs) (sleep (gs_backoff gs) w) = (w1, e1)" by fastforce
  note asked1 = asked_after_sleep [OF asked_chat [OF Suc.prems(3) one]]
  show ?case
  proof (cases e1)
    case None
    then have "gs' = gs1 \<and> w' = w1" using Suc.prems(1) one by (simp add: gs1_def)
    then show ?thesis using same asked1 by simp
  next
    case (Some e')
    then have "reopen net left e' gs1 w1 = (gs', w', r)" using Suc.prems(1) one by (simp add: gs1_def)
    note later = Suc.IH [OF this same(2,3)]
    show ?thesis using later same(1) asked_trans [OF asked1, of "left - gs_retries_left gs'" w' "Suc left - gs_retries_left gs'"]
      by (auto simp: same_but_retries_def)
  qed
qed

definition is_done :: "AgentEvent \<Rightarrow> bool" where
  "is_done event = (case event of AgentDone _ \<Rightarrow> True | _ \<Rightarrow> False)"

text \<open>One call of the stream, from a stream not yet finished.\<close>

definition step_ok :: "GuardedStream \<Rightarrow> GuardedStream \<Rightarrow> (AgentError + AgentEvent) option \<Rightarrow> bool" where
  "step_ok gs gs' r \<longleftrightarrow>
     gs_request gs' = gs_request gs \<and> gs_max_bytes gs' = gs_max_bytes gs \<and> gs_retries_left gs' \<le> gs_retries_left gs \<and>
     (case r of
        Some (Inr event) \<Rightarrow>
          \<not> gs_finished gs' \<and> gs_any_content gs' \<and> gs_saw_done gs' = (gs_saw_done gs \<or> is_done event) \<and>
          gs_bytes_seen gs' = gs_bytes_seen gs + event_content_len event \<and> gs_bytes_seen gs' \<le> gs_max_bytes gs
      | Some (Inl _) \<Rightarrow> gs_finished gs'
      | None \<Rightarrow> gs_finished gs' \<and> gs_saw_done gs)"

definition call_cost :: "GuardedStream \<Rightarrow> GuardedStream \<Rightarrow> nat" where
  "call_cost gs gs' = (if gs_any_content gs then 0 else gs_retries_left gs - gs_retries_left gs')"

lemma finished_is_over: "gs_finished gs \<Longrightarrow> next_event net gs w = (gs, w, None)"
  by (simp add: next_event.simps)

lemma next_event_ok:
  "next_event net gs w = (gs', w', r) \<Longrightarrow> \<not> gs_finished gs \<Longrightarrow> coherent_request (gs_request gs) \<Longrightarrow>
    step_ok gs gs' r \<and> asked_more (call_cost gs gs') w w'"
proof (induction "gs_retries_left gs" arbitrary: gs w rule: less_induct)
  case less
  let ?late = "gs_deadline gs \<le> wr_now w"
  obtain poll passed where polled: "net_poll net (wr_polls w) (min (gs_chunk_timeout gs) (gs_deadline gs - wr_now w)) = (poll, passed)"
    by fastforce
  let ?w = "w\<lparr>wr_polls := wr_polls w + 1, wr_now := wr_now w + passed\<rparr>"
  have w: "asked_more k w ?w" for k by (simp add: asked_none)
  show ?case
  proof (cases "?late \<or> poll = Elapsed \<or> poll = StreamEnds \<or> (\<exists>e. poll = Yields (Inl e) \<and> gs_any_content gs)")
    case True
    then show ?thesis using less.prems(1,2) polled w
      by (auto simp: next_event.simps [of net gs w] step_ok_def asked_none split: if_splits)
  next
    case False
    then obtain x where x: "poll = Yields x" by (cases poll) auto
    then consider ev where "poll = Yields (Inr ev)" | e where "poll = Yields (Inl e)" "\<not> gs_any_content gs"
      using False by (cases x) auto
    then show ?thesis
    proof cases
      case 1
      then show ?thesis using False less.prems(1,2) polled w
        by (auto simp: next_event.simps [of net gs w] step_ok_def Let_def is_done_def split: if_splits)
    next
      case 2
      obtain gs1 w1 r1 where re: "reopen net (gs_retries_left gs) e gs ?w = (gs1, w1, r1)" using prod_cases3 by blast
      note costs = reopen_asks [OF re refl less.prems(3)]
      have asked1: "asked_more (gs_retries_left gs - gs_retries_left gs1) w w1"
        using costs asked_trans [OF w [of 0]] by auto
      show ?thesis
      proof (cases r1)
        case None
        then have nx: "next_event net gs1 w1 = (gs', w', r)" using False 2 less.prems(1,2) polled re
          by (simp add: next_event.simps [of net gs w])
        have smaller: "gs_retries_left gs1 < gs_retries_left gs" using reopen_left re None by blast
        have "\<not> gs_finished gs1 \<and> coherent_request (gs_request gs1)"
          using costs less.prems(2,3) by (simp add: same_but_retries_def)
        then have ih: "step_ok gs1 gs' r \<and> asked_more (call_cost gs1 gs') w1 w'" using less.hyps [OF smaller nx] by blast
        have "call_cost gs1 gs' = gs_retries_left gs1 - gs_retries_left gs'"
          using costs 2 by (simp add: call_cost_def same_but_retries_def)
        then have "asked_more (call_cost gs gs') w w'"
          using asked_trans [OF asked1, of "call_cost gs1 gs'" w'] ih costs 2 by (auto simp: call_cost_def step_ok_def)
        moreover have "step_ok gs gs' r" using ih costs by (auto simp: step_ok_def same_but_retries_def split: option.splits sum.splits)
        ultimately show ?thesis by simp
      next
        case (Some err)
        then have "gs' = gs1\<lparr>gs_finished := True\<rparr> \<and> w' = w1 \<and> r = Some (Inl err)"
          using False 2 less.prems(1,2) polled re by (auto simp: next_event.simps [of net gs w])
        then show ?thesis using asked1 costs 2 by (auto simp: step_ok_def call_cost_def same_but_retries_def)
      qed
    qed
  qed
qed

text \<open>Taking \<open>n\<close> results from a stream.\<close>

fun consume :: "nat \<Rightarrow> Net \<Rightarrow> GuardedStream \<Rightarrow> Wire \<Rightarrow> GuardedStream \<times> Wire \<times> (AgentError + AgentEvent) option list" where
  "consume 0 net gs w = (gs, w, [])"
| "consume (Suc n) net gs w =
     (case next_event net gs w of (gs, w, r) \<Rightarrow> (case consume n net gs w of (gs, w, rs) \<Rightarrow> (gs, w, r # rs)))"

text \<open>Events, then one ending: an error, or the end of a stream that said it was done; then nothing.\<close>

fun ends_once :: "bool \<Rightarrow> (AgentError + AgentEvent) option list \<Rightarrow> bool" where
  "ends_once saw [] = True"
| "ends_once saw (Some (Inr event) # rs) = ends_once (saw \<or> is_done event) rs"
| "ends_once saw (Some (Inl e) # rs) = list_all (\<lambda>r. r = None) rs"
| "ends_once saw (None # rs) = (saw \<and> list_all (\<lambda>r. r = None) rs)"

fun streamed_bytes :: "(AgentError + AgentEvent) option list \<Rightarrow> nat" where
  "streamed_bytes [] = 0"
| "streamed_bytes (Some (Inr event) # rs) = event_content_len event + streamed_bytes rs"
| "streamed_bytes (Some (Inl e) # rs) = streamed_bytes rs"
| "streamed_bytes (None # rs) = streamed_bytes rs"

definition is_event :: "(AgentError + AgentEvent) option \<Rightarrow> bool" where
  "is_event r = (case r of Some (Inr _) \<Rightarrow> True | _ \<Rightarrow> False)"

lemma consume_finished: "gs_finished gs \<Longrightarrow> consume n net gs w = (gs, w, replicate n None)"
  by (induction n) (simp_all add: finished_is_over)

lemma streamed_nothing: "streamed_bytes (replicate n None) = 0"
  by (induction n) simp_all

lemma consume_append:
  "consume (n + m) net gs w =
     (case consume n net gs w of (gs', w', rs) \<Rightarrow> (case consume m net gs' w' of (gs'', w'', rs') \<Rightarrow> (gs'', w'', rs @ rs')))"
  by (induction n arbitrary: gs w) (auto split: prod.splits)

lemma later_cost:
  "consume n net gs w = (gs', w', rs) \<Longrightarrow> coherent_request (gs_request gs) \<Longrightarrow>
    gs_retries_left gs' \<le> gs_retries_left gs \<and> asked_more (call_cost gs gs') w w'"
proof (induction n arbitrary: gs w rs)
  case 0
  then show ?case by (simp add: asked_none)
next
  case (Suc n)
  obtain gs1 w1 r where one: "next_event net gs w = (gs1, w1, r)" using prod_cases3 by blast
  obtain rs1 where later: "consume n net gs1 w1 = (gs', w', rs1)" using Suc.prems(1) one by (auto split: prod.splits)
  show ?case
  proof (cases "gs_finished gs")
    case True
    then show ?thesis using Suc.prems(1) by (simp only: consume_finished) (simp add: asked_none)
  next
    case unfinished: False
    note ok = next_event_ok [OF one unfinished Suc.prems(2)]
    show ?thesis
    proof (cases "gs_finished gs1")
      case True
      then show ?thesis using later ok by (auto simp: consume_finished step_ok_def)
    next
      case False
      have gs1: "gs_any_content gs1 \<and> gs_request gs1 = gs_request gs \<and> gs_retries_left gs1 \<le> gs_retries_left gs"
        using ok False by (auto simp: step_ok_def split: sum.splits option.splits)
      note ih = Suc.IH [OF later]
      have "asked_more (call_cost gs gs1) w w'"
        using asked_trans [OF conjunct2 [OF ok], of 0 w'] ih gs1 Suc.prems(2) by (simp add: call_cost_def)
      moreover have "call_cost gs gs1 \<le> call_cost gs gs'" using ih gs1 Suc.prems(2) by (auto simp: call_cost_def diff_le_mono2)
      ultimately show ?thesis using asked_mono gs1 ih Suc.prems(2) by force
    qed
  qed
qed

lemma consume_ok:
  "consume n net gs w = (gs', w', rs) \<Longrightarrow> \<not> gs_finished gs \<Longrightarrow> coherent_request (gs_request gs) \<Longrightarrow>
    gs_bytes_seen gs \<le> gs_max_bytes gs \<Longrightarrow>
    ends_once (gs_saw_done gs) rs \<and> gs_bytes_seen gs + streamed_bytes rs \<le> gs_max_bytes gs \<and>
    (gs_finished gs' \<or> gs_any_content gs' = (gs_any_content gs \<or> list_ex is_event rs)) \<and>
    gs_request gs' = gs_request gs"
proof (induction n arbitrary: gs w rs)
  case 0
  then show ?case by simp
next
  case (Suc n)
  obtain gs1 w1 r where one: "next_event net gs w = (gs1, w1, r)" using prod_cases3 by blast
  obtain rs1 where later: "consume n net gs1 w1 = (gs', w', rs1)" and rs: "rs = r # rs1"
    using Suc.prems(1) one by (auto split: prod.splits)
  note ok = next_event_ok [OF one Suc.prems(2,3)]
  show ?case
  proof (cases "gs_finished gs1")
    case True
    then have "rs1 = replicate n None \<and> gs' = gs1 \<and> w' = w1" using later by (simp add: consume_finished)
    then show ?thesis using ok True Suc.prems(4)
      by (auto simp: rs step_ok_def streamed_nothing list_all_iff split: option.splits sum.splits)
  next
    case False
    then obtain event where r: "r = Some (Inr event)"
      using ok by (cases r) (auto simp: step_ok_def elim: sumE split: sum.splits)
    have gs1: "gs_request gs1 = gs_request gs \<and> gs_max_bytes gs1 = gs_max_bytes gs \<and> gs_any_content gs1 \<and>
        gs_saw_done gs1 = (gs_saw_done gs \<or> is_done event) \<and> gs_bytes_seen gs1 = gs_bytes_seen gs + event_content_len event \<and>
        gs_bytes_seen gs1 \<le> gs_max_bytes gs1 \<and> gs_retries_left gs1 \<le> gs_retries_left gs"
      using ok r by (simp add: step_ok_def)
    have ih: "ends_once (gs_saw_done gs1) rs1 \<and> gs_bytes_seen gs1 + streamed_bytes rs1 \<le> gs_max_bytes gs1 \<and>
        (gs_finished gs' \<or> gs_any_content gs' = (gs_any_content gs1 \<or> list_ex is_event rs1)) \<and> gs_request gs' = gs_request gs1"
      using Suc.IH [OF later False] gs1 Suc.prems(3) by simp
    then show ?thesis using ih gs1 by (simp add: rs r is_event_def)
  qed
qed

text \<open>C17 (bounds). A request opened for a turn and taken to its end costs no more than one request per allowed retry, the first one
  and one on the fallback model; none of them is malformed; the reply stays within its bytes; it ends once; and after its
  first event nothing is asked again, so that no text is ever shown twice.\<close>

theorem turn_stream_guarded:
  "case open_turn_stream net config route request w of
     (_, w1, Inl _) \<Rightarrow> asked_more (unat (ac_stream_max_retries config) + 2) w w1
   | (_, w1, Inr gs) \<Rightarrow>
       (case consume n net gs w1 of
          (gs', w2, rs) \<Rightarrow>
            (case consume m net gs' w2 of
               (_, w3, rs') \<Rightarrow>
                 asked_more (unat (ac_stream_max_retries config) + 2) w w3 \<and>
                 asked_more (if list_ex is_event rs then 0 else unat (ac_stream_max_retries config)) w2 w3 \<and>
                 ends_once False (rs @ rs') \<and>
                 streamed_bytes (rs @ rs') \<le> unat (ac_stream_max_bytes config)))"
proof -
  let ?max = "unat (ac_stream_max_retries config)"
  obtain route' w1 res where opened: "open_attempts net ?max 0 INITIAL_BACKOFF route request w = (route', w1, res)"
    using prod_cases3 by blast
  note asked = attempts_ask [OF opened]
  have fb: "fallbacks_left route \<le> 1" by (simp add: fallbacks_left_def)
  show ?thesis
  proof (cases res)
    case (Inl e)
    then have "asked_more (?max + 2) w w1" by (intro asked_mono [OF conjunct1 [OF asked]]) (use fb in simp)
    then show ?thesis using Inl by (simp add: open_turn_stream_def opened)
  next
    case (Inr t)
    obtain left used backoff where t: "t = (left, used, backoff)" using prod_cases3 by blast
    let ?gs = "guarded config (on_route route' request) left used backoff w1"
    obtain gs2 w2 rs where one: "consume n net ?gs w1 = (gs2, w2, rs)" using prod_cases3 by blast
    obtain gs3 w3 rs' where two: "consume m net gs2 w2 = (gs3, w3, rs')" using prod_cases3 by blast
    have both: "consume (n + m) net ?gs w1 = (gs3, w3, rs @ rs')" by (simp add: consume_append one two)
    have gs: "\<not> gs_finished ?gs" "coherent_request (gs_request ?gs)" "gs_bytes_seen ?gs \<le> gs_max_bytes ?gs"
      "\<not> gs_any_content ?gs" "\<not> gs_saw_done ?gs" "gs_retries_left ?gs = left" "gs_bytes_seen ?gs = 0"
      "gs_max_bytes ?gs = unat (ac_stream_max_bytes config)"
      by (simp_all add: guarded_def on_route_coherent)
    note all_ok = consume_ok [OF both gs(1-3)] and first = consume_ok [OF one gs(1-3)]
    have left: "left \<le> ?max" using asked Inr t by simp
    have asked1: "asked_more (?max + 2 - left) w w1"
      by (rule asked_mono [OF conjunct1 [OF asked]]) (use fb Inr t in simp)
    have "asked_more left w1 w3"
      by (rule asked_mono [OF conjunct2 [OF later_cost [OF both gs(2)]]]) (simp add: call_cost_def gs)
    then have "asked_more (?max + 2) w w3" using asked_trans [OF asked1, of left w3] left by simp
    moreover have "asked_more (if list_ex is_event rs then 0 else ?max) w2 w3"
    proof (cases "gs_finished gs2")
      case True
      then show ?thesis using two by (simp add: consume_finished asked_none)
    next
      case False
      have any: "gs_any_content gs2 = list_ex is_event rs" using first False gs by auto
      have rest: "gs_retries_left gs2 \<le> left" using later_cost [OF one gs(2)] gs by simp
      have "gs_request gs2 = gs_request ?gs" using first by blast
      then have "asked_more (call_cost gs2 gs3) w2 w3" using later_cost [OF two] gs(2) by simp
      then show ?thesis by (rule asked_mono) (use any rest left in \<open>auto simp: call_cost_def intro: le_trans [OF diff_le_self]\<close>)
    qed
    ultimately show ?thesis using all_ok gs by (simp add: open_turn_stream_def opened Inr t one two)
  qed
qed

end
