(* ===== verification/Checkpoints.thy ===== *)
theory Checkpoints
  imports Brace_Expansion Job_Store "HOL-Library.AList" "HOL-Library.List_Lexorder"
begin

text \<open>
  The snapshots a turn can be taken back to, \<^verbatim>\<open>checkpoint.rs\<close> and \<^verbatim>\<open>restore_checkpoint\<close> of
  \<^verbatim>\<open>runtime/checkpoints.rs\<close>: which entries of the workspace a snapshot takes, the copy with its budget and its
  cancellation, publishing and pruning, and the restore, which clears the workspace of what a snapshot can put
  back and copies the snapshot over what is left.

  A directory is a tree with its entries in the order the system lists them. The storage lies inside the
  workspace, under a name every walk leaves out, and is kept apart here. Which operation of the disk fails is
  given by \<open>DiskFaults\<close>, in every combination; a write that would pass through a link or a device ends the
  copy as \<open>WroteThrough\<close>, which is shown never to happen. The copy-on-write clone is a copy; the modes of
  directories are not recorded, as in the code.
\<close>

section \<open>Trees\<close>

datatype Tree = DirTree "(rstr \<times> Tree) list" | FileTree rstr nat | LinkTree rstr | SpecialTree rstr

type_synonym rel_path = "rstr list"
type_synonym forest = "(rstr \<times> Tree) list"

datatype Entry = EntrySymlink | EntryDir | EntryFile | EntryUncapturable

fun classify :: "Tree \<Rightarrow> Entry" where
  "classify (LinkTree _) = EntrySymlink"
| "classify (DirTree _) = EntryDir"
| "classify (FileTree _ _) = EntryFile"
| "classify (SpecialTree _) = EntryUncapturable"

fun lookup_at :: "rel_path \<Rightarrow> Tree \<Rightarrow> Tree option" where
  "lookup_at [] t = Some t"
| "lookup_at (n # p) (DirTree ch) = Option.bind (map_of ch n) (lookup_at p)"
| "lookup_at (n # p) _ = None"

text \<open>A write at a path, the directories on the way made where they are missing.\<close>

datatype Write = Wrote Tree | WriteRefused | WriteThrough

fun write_at :: "(Tree option \<Rightarrow> Write) \<Rightarrow> rel_path \<Rightarrow> Tree option \<Rightarrow> Write" where
  "write_at leaf [] t = leaf t"
| "write_at leaf (n # p) t =
     (case t of
        None \<Rightarrow> (case write_at leaf p None of Wrote x \<Rightarrow> Wrote (DirTree [(n, x)]) | r \<Rightarrow> r)
      | Some (DirTree ch) \<Rightarrow> (case write_at leaf p (map_of ch n) of Wrote x \<Rightarrow> Wrote (DirTree (AList.update n x ch)) | r \<Rightarrow> r)
      | Some (LinkTree _) \<Rightarrow> WriteThrough
      | Some _ \<Rightarrow> WriteRefused)"

definition make_dir :: "Tree option \<Rightarrow> Write" where
  "make_dir t =
     (case t of None \<Rightarrow> Wrote (DirTree []) | Some (DirTree ch) \<Rightarrow> Wrote (DirTree ch)
      | Some (LinkTree _) \<Rightarrow> WriteThrough | Some _ \<Rightarrow> WriteRefused)"

definition put_file :: "Tree \<Rightarrow> Tree option \<Rightarrow> Write" where
  "put_file x t =
     (case t of None \<Rightarrow> Wrote x | Some (FileTree _ _) \<Rightarrow> Wrote x | Some (DirTree _) \<Rightarrow> WriteRefused | Some _ \<Rightarrow> WriteThrough)"

definition put_link :: "Tree \<Rightarrow> Tree option \<Rightarrow> Write" where
  "put_link x t = (case t of None \<Rightarrow> Wrote x | Some _ \<Rightarrow> WriteRefused)"

section \<open>What a snapshot leaves out\<close>

definition SKIP_DIRS :: "rstr list" where
  "SKIP_DIRS = [''.git'', ''.deep-code'', ''target'', ''node_modules'', ''.venv'', ''venv'', ''__pycache__'', ''.mypy_cache'',
     ''.pytest_cache'', ''.ruff_cache'', ''.tox'', ''.next'', ''.nuxt'', ''.svelte-kit'', ''.output'', ''.gradle'', ''.terraform'',
     ''.dart_tool'', ''DerivedData'', ''Pods'', ''.idea'']"

definition SKIP_DIRS_TOP_LEVEL :: "rstr list" where "SKIP_DIRS_TOP_LEVEL = [''build'', ''dist'']"

definition MAX_SNAPSHOT_ENTRIES :: nat where "MAX_SNAPSHOT_ENTRIES = 20000"
definition CANCEL_CHECK_INTERVAL :: nat where "CANCEL_CHECK_INTERVAL = 512"
definition DEFAULT_KEPT_SNAPSHOTS :: nat where "DEFAULT_KEPT_SNAPSHOTS = 20"

definition should_skip :: "rel_path \<Rightarrow> bool" where
  "should_skip rel \<longleftrightarrow>
     list_ex (\<lambda>part. part \<in> set SKIP_DIRS) rel \<or>
     (case rel of [name] \<Rightarrow> name \<in> set SKIP_DIRS_TOP_LEVEL | _ \<Rightarrow> False)"

definition snapshot_can_capture_symlink :: "bool \<Rightarrow> bool" where
  "snapshot_can_capture_symlink win \<longleftrightarrow> \<not> win"

section \<open>The names of snapshots\<close>

definition id_char :: "char \<Rightarrow> bool" where
  "id_char c \<longleftrightarrow> is_ascii_alphanumeric c \<or> c = CHR ''-'' \<or> c = CHR ''_''"

definition validate_checkpoint_id :: "rstr \<Rightarrow> bool" where
  "validate_checkpoint_id raw \<longleftrightarrow> raw \<noteq> [] \<and> list_all id_char raw"

definition sanitize_label :: "rstr \<Rightarrow> rstr" where
  "sanitize_label label = map (\<lambda>ch. if id_char ch then ch else CHR ''_'') label"

definition last_part :: "rstr \<Rightarrow> rstr" where
  "last_part s = rev (takeWhile (\<lambda>c. c \<noteq> CHR ''_'') (rev s))"

definition is_snapshot_name :: "rstr \<Rightarrow> bool" where
  "is_snapshot_name name \<longleftrightarrow>
     validate_checkpoint_id name \<and> CHR ''_'' \<in> set name \<and> last_part name \<noteq> [] \<and> list_all is_ascii_digit (last_part name)"

definition parse_u128 :: "rstr \<Rightarrow> nat option" where
  "parse_u128 s =
     (let digits = (case s of [] \<Rightarrow> [] | c # cs \<Rightarrow> if c = CHR ''+'' then cs else s);
          v = nat (decimal_value digits)
      in if digits = [] \<or> \<not> list_all is_ascii_digit digits \<or> 2 ^ 128 \<le> v then None else Some v)"

definition snapshot_timestamp :: "rstr \<Rightarrow> nat" where
  "snapshot_timestamp i = (case parse_u128 (last_part i) of None \<Rightarrow> 0 | Some n \<Rightarrow> n)"

definition snapshot_id :: "rstr \<Rightarrow> nat option \<Rightarrow> rstr" where
  "snapshot_id label now = sanitize_label label @ ''_'' @ nat_digits (case now of None \<Rightarrow> 0 | Some ms \<Rightarrow> ms)"

definition staging_name :: "rstr \<Rightarrow> rstr" where
  "staging_name i = ''.staging_'' @ i"

section \<open>Copying a tree\<close>

datatype CheckpointError =
    StorageNotOwned
  | WalkFailed rel_path
  | DirFailed rel_path
  | CopyFailed rel_path
  | LinkFailed rel_path
  | NotPlain rel_path
  | WroteThrough rel_path
  | PublishFailed
  | ListFailed
  | InvalidId rstr
  | NoSuchCheckpoint rstr
  | ReadFailed rel_path
  | RemoveFailed rel_path
  | PartiallyCleared CheckpointError rstr
  | PartiallyRestored CheckpointError rstr
  | CheckpointsDisabled
  | TurnInProgress
  | JobsRunning

datatype CopyTry = CopiedWhole | CopyLocked | CopyBroke "rstr option"

record DiskFaults =
  df_owned :: "nat \<Rightarrow> bool"
  df_unreadable :: "rel_path \<Rightarrow> bool"
  df_mkdir :: "rel_path \<Rightarrow> bool"
  df_copy :: "rel_path \<Rightarrow> nat \<Rightarrow> CopyTry"
  df_link :: "rel_path \<Rightarrow> bool"
  df_cleanup :: "forest option"
  df_rename :: bool
  df_read_storage :: bool
  df_prune :: "rstr \<Rightarrow> forest option"
  df_read_dir :: "rel_path \<Rightarrow> bool"
  df_remove :: "rel_path \<Rightarrow> bool"

datatype CopyMode = CopySnapshot | CopyRestore
datatype CopyStatus = CopyDone | CopyAborted

record CopyEnv =
  ce_mode :: CopyMode
  ce_win :: bool
  ce_budget :: "nat option"
  ce_token :: "nat \<Rightarrow> bool"
  ce_faults :: DiskFaults

definition BACKOFF_MS :: "nat list" where "BACKOFF_MS = [10, 30, 100, 300]"

text \<open>The outcome of a copy; \<open>Some\<close> what is left at the destination when it fails.\<close>

fun copy_attempts :: "(nat \<Rightarrow> CopyTry) \<Rightarrow> nat list \<Rightarrow> nat \<Rightarrow> rstr option option" where
  "copy_attempts attempt backoff k =
     (case attempt k of
        CopiedWhole \<Rightarrow> None
      | CopyBroke left \<Rightarrow> Some left
      | CopyLocked \<Rightarrow> (case backoff of [] \<Rightarrow> Some None | _ # waits \<Rightarrow> copy_attempts attempt waits (k + 1)))"

definition copy_file_retrying :: "(nat \<Rightarrow> CopyTry) \<Rightarrow> rstr option option" where
  "copy_file_retrying attempt = copy_attempts attempt BACKOFF_MS 0"

definition written :: "rel_path \<Rightarrow> CheckpointError \<Rightarrow> Write \<Rightarrow> Tree \<Rightarrow> Tree \<times> CheckpointError option" where
  "written q refused w dest =
     (case w of Wrote dest' \<Rightarrow> (dest', None) | WriteRefused \<Rightarrow> (dest, Some refused) | WriteThrough \<Rightarrow> (dest, Some (WroteThrough q)))"

text \<open>One entry of the walk that is neither left out nor over the budget.\<close>

definition copy_entry :: "CopyEnv \<Rightarrow> rel_path \<Rightarrow> Tree \<Rightarrow> Tree \<Rightarrow> Tree \<times> CheckpointError option" where
  "copy_entry env q t dest =
     (if ce_mode env = CopyRestore \<and>
         (case lookup_at q dest of None \<Rightarrow> False | Some x \<Rightarrow> classify x = EntrySymlink \<or> classify x = EntryUncapturable)
      then (dest, Some (NotPlain q))
      else case t of
          LinkTree _ \<Rightarrow>
            if snapshot_can_capture_symlink (ce_win env)
            then if df_link (ce_faults env) q then (dest, Some (LinkFailed q))
                 else written q (LinkFailed q) (write_at (put_link t) q (Some dest)) dest
            else (dest, None)
        | SpecialTree _ \<Rightarrow> (dest, None)
        | DirTree _ \<Rightarrow>
            if df_mkdir (ce_faults env) q then (dest, Some (DirFailed q))
            else written q (DirFailed q) (write_at make_dir q (Some dest)) dest
        | FileTree bytes mode \<Rightarrow>
            (case copy_file_retrying (df_copy (ce_faults env) q) of
               None \<Rightarrow> written q (CopyFailed q) (write_at (put_file t) q (Some dest)) dest
             | Some None \<Rightarrow> (dest, Some (CopyFailed q))
             | Some (Some left) \<Rightarrow>
                 (case written q (CopyFailed q) (write_at (put_file (FileTree left mode)) q (Some dest)) dest of
                    (dest', None) \<Rightarrow> (dest', Some (CopyFailed q))
                  | r \<Rightarrow> r)))"

definition stops_copy :: "CopyEnv \<Rightarrow> nat \<Rightarrow> bool" where
  "stops_copy env copied \<longleftrightarrow>
     ce_mode env = CopySnapshot \<and>
     ((case ce_budget env of None \<Rightarrow> False | Some limit \<Rightarrow> limit < copied) \<or>
      copied mod CANCEL_CHECK_INTERVAL = 0 \<and> ce_token env copied)"

text \<open>The walk, which gives a directory before its entries; the entries of one that is left out are not visited.\<close>

fun copy_children :: "CopyEnv \<Rightarrow> rel_path \<Rightarrow> forest \<Rightarrow> nat \<times> Tree \<Rightarrow> (nat \<times> Tree) \<times> (CheckpointError + CopyStatus)" where
  "copy_children env p [] st = (st, Inr CopyDone)"
| "copy_children env p ((n, t) # rest) st =
     (let q = p @ [n] in
      if ce_mode env = CopySnapshot \<and> should_skip q then copy_children env p rest st
      else
        (let copied = (if ce_mode env = CopySnapshot then fst st + 1 else fst st) in
         if stops_copy env copied then ((copied, snd st), Inr CopyAborted)
         else case copy_entry env q t (snd st) of
             (dest, Some e) \<Rightarrow> ((copied, dest), Inl e)
           | (dest, None) \<Rightarrow>
               (case t of
                  DirTree ch \<Rightarrow>
                    if df_unreadable (ce_faults env) q then ((copied, dest), Inl (WalkFailed q))
                    else (case copy_children env q ch (copied, dest) of
                            (st', Inr CopyDone) \<Rightarrow> copy_children env p rest st'
                          | r \<Rightarrow> r)
                | _ \<Rightarrow> copy_children env p rest (copied, dest))))"

definition copy_tree :: "CopyEnv \<Rightarrow> forest \<Rightarrow> Tree option \<Rightarrow> (nat \<times> Tree option) \<times> (CheckpointError + CopyStatus)" where
  "copy_tree env source dest =
     (if df_mkdir (ce_faults env) [] then ((0, dest), Inl (DirFailed []))
      else case make_dir dest of
          Wrote d \<Rightarrow>
            if df_unreadable (ce_faults env) [] then ((0, Some d), Inl (WalkFailed []))
            else (case copy_children env [] source (0, d) of ((copied, d'), r) \<Rightarrow> ((copied, Some d'), r))
        | WriteRefused \<Rightarrow> ((0, dest), Inl (DirFailed []))
        | WriteThrough \<Rightarrow> ((0, dest), Inl (WroteThrough [])))"

section \<open>The store\<close>

record CheckpointStore =
  cs_workspace :: forest
  cs_storage :: forest
  cs_max :: nat
  cs_oversized :: bool

definition with_max_snapshots :: "nat \<Rightarrow> CheckpointStore \<Rightarrow> CheckpointStore" where
  "with_max_snapshots n cs = cs\<lparr>cs_max := n\<rparr>"

definition ensure_owned_storage :: "DiskFaults \<Rightarrow> nat \<Rightarrow> CheckpointError option" where
  "ensure_owned_storage faults look = (if df_owned faults look then None else Some StorageNotOwned)"

definition new_store :: "DiskFaults \<Rightarrow> forest \<Rightarrow> forest \<Rightarrow> CheckpointError + CheckpointStore" where
  "new_store faults workspace storage =
     (case ensure_owned_storage faults 0 of
        Some e \<Rightarrow> Inl e
      | None \<Rightarrow> Inr \<lparr>cs_workspace = workspace, cs_storage = storage, cs_max = DEFAULT_KEPT_SNAPSHOTS, cs_oversized = False\<rparr>)"

definition snapshot_names :: "forest \<Rightarrow> rstr list" where
  "snapshot_names storage = map fst (filter (\<lambda>(n, t). classify t = EntryDir \<and> is_snapshot_name n) storage)"

definition list_checkpoints :: "DiskFaults \<Rightarrow> nat \<Rightarrow> forest \<Rightarrow> CheckpointError + rstr list" where
  "list_checkpoints faults look storage =
     (case ensure_owned_storage faults look of
        Some e \<Rightarrow> Inl e
      | None \<Rightarrow> if df_read_storage faults then Inl ListFailed else Inr (sort (snapshot_names storage)))"

text \<open>The removal of a directory and all in it; when it fails, what is left of it.\<close>

definition remove_dir_all :: "rstr \<Rightarrow> forest option \<Rightarrow> forest \<Rightarrow> forest" where
  "remove_dir_all name left storage =
     (case left of None \<Rightarrow> filter (\<lambda>(n, _). n \<noteq> name) storage | Some ch \<Rightarrow> AList.update name (DirTree ch) storage)"

definition prune_one :: "DiskFaults \<Rightarrow> rstr \<Rightarrow> forest \<times> rstr list \<Rightarrow> forest \<times> rstr list" where
  "prune_one faults i st =
     (remove_dir_all i (df_prune faults i) (fst st), if df_prune faults i = None then snd st else snd st @ [i])"

definition prune_old_snapshots :: "DiskFaults \<Rightarrow> nat \<Rightarrow> forest \<Rightarrow> forest \<times> rstr list" where
  "prune_old_snapshots faults max_snapshots storage =
     (if max_snapshots = 0 then (storage, [])
      else case list_checkpoints faults 1 storage of
          Inl _ \<Rightarrow> (storage, [])
        | Inr ids \<Rightarrow>
            if length ids \<le> max_snapshots then (storage, [])
            else fold (prune_one faults) (take (length ids - max_snapshots) (sort_key snapshot_timestamp ids)) (storage, []))"

datatype SnapshotSkip = SkipCancelled | SkipTooLarge bool
datatype SnapshotOutcome = SnapshotCreated rstr "rstr list" | SnapshotSkipped SnapshotSkip

text \<open>A rename over a directory succeeds only where that one has no entries.\<close>

definition rename_dir :: "DiskFaults \<Rightarrow> rstr \<Rightarrow> rstr \<Rightarrow> forest \<Rightarrow> forest option" where
  "rename_dir faults source dest storage =
     (case map_of storage source of
        None \<Rightarrow> None
      | Some t \<Rightarrow>
          if df_rename faults \<or> (case map_of storage dest of None \<Rightarrow> False | Some (DirTree []) \<Rightarrow> False | Some _ \<Rightarrow> True) then None
          else Some (AList.update dest t (filter (\<lambda>(n, _). n \<noteq> source) storage)))"

definition snapshot ::
  "bool \<Rightarrow> DiskFaults \<Rightarrow> (nat \<Rightarrow> bool) \<Rightarrow> rstr \<Rightarrow> nat option \<Rightarrow> CheckpointStore
    \<Rightarrow> CheckpointStore \<times> (CheckpointError + SnapshotOutcome)" where
  "snapshot win faults token label now cs =
     (case ensure_owned_storage faults 0 of
        Some e \<Rightarrow> (cs, Inl e)
      | None \<Rightarrow>
          if cs_oversized cs then (cs, Inr (SnapshotSkipped (SkipTooLarge False)))
          else
            (let i = snapshot_id label now; staging = staging_name i in
             case copy_tree \<lparr>ce_mode = CopySnapshot, ce_win = win, ce_budget = Some MAX_SNAPSHOT_ENTRIES, ce_token = token, ce_faults = faults\<rparr>
                    (cs_workspace cs) (map_of (cs_storage cs) staging) of
               ((copied, made), result) \<Rightarrow>
                 (let storage = (case made of None \<Rightarrow> cs_storage cs | Some t \<Rightarrow> AList.update staging t (cs_storage cs));
                      swept = cs\<lparr>cs_storage := remove_dir_all staging (df_cleanup faults) storage\<rparr>
                  in case result of
                      Inl e \<Rightarrow> (swept, Inl e)
                    | Inr CopyAborted \<Rightarrow>
                        if token (copied + 1) then (swept, Inr (SnapshotSkipped SkipCancelled))
                        else (swept\<lparr>cs_oversized := True\<rparr>, Inr (SnapshotSkipped (SkipTooLarge (\<not> cs_oversized cs))))
                    | Inr CopyDone \<Rightarrow>
                        (case rename_dir faults staging i storage of
                           None \<Rightarrow> (swept, Inl PublishFailed)
                         | Some storage' \<Rightarrow>
                             (case prune_old_snapshots faults (cs_max cs) storage' of
                                (storage'', warnings) \<Rightarrow>
                                  (cs\<lparr>cs_storage := storage''\<rparr>, Inr (SnapshotCreated i warnings)))))))"

section \<open>Restoring\<close>

definition snapshot_covers :: "forest \<Rightarrow> rel_path \<Rightarrow> bool" where
  "snapshot_covers source relative \<longleftrightarrow> lookup_at relative (DirTree source) \<noteq> None"

text \<open>The entries of a directory after it was cleared, whether any was kept, and those worth a report; or the
  error the clearing stopped at.\<close>

fun clear_children ::
  "bool \<Rightarrow> DiskFaults \<Rightarrow> forest \<Rightarrow> rel_path \<Rightarrow> forest \<Rightarrow> forest \<times> (CheckpointError + bool \<times> rel_path list)" where
  "clear_children win faults source p [] = ([], Inr (False, []))"
| "clear_children win faults source p ((n, t) # rest) =
     (let q = p @ [n];
          removed = (if df_remove faults q then ([(n, t)], Inl (RemoveFailed q)) else ([], Inr (False, [])));
          cleared =
            (if should_skip q then ([(n, t)], Inr (True, []))
             else case t of
                 LinkTree _ \<Rightarrow>
                   if snapshot_can_capture_symlink win \<or> snapshot_covers source q then removed
                   else ([(n, t)], Inr (True, [q]))
               | DirTree ch \<Rightarrow>
                   if df_read_dir faults q then ([(n, t)], Inl (ReadFailed q))
                   else (case clear_children win faults source q ch of
                           (ch', Inl e) \<Rightarrow> ([(n, DirTree ch')], Inl e)
                         | (ch', Inr (True, report)) \<Rightarrow> ([(n, DirTree ch')], Inr (True, report))
                         | (ch', Inr (False, report)) \<Rightarrow>
                             if df_remove faults q then ([(n, DirTree ch')], Inl (RemoveFailed q)) else ([], Inr (False, report)))
               | FileTree _ _ \<Rightarrow> removed
               | SpecialTree _ \<Rightarrow> if snapshot_covers source q then removed else ([(n, t)], Inr (True, [q])))
      in case cleared of
           (here, Inl e) \<Rightarrow> (here @ rest, Inl e)
         | (here, Inr (kept, report)) \<Rightarrow>
             (case clear_children win faults source p rest of
                (others, Inl e) \<Rightarrow> (here @ others, Inl e)
              | (others, Inr (kept', report')) \<Rightarrow> (here @ others, Inr (kept \<or> kept', report @ report'))))"

definition clear_workspace_contents ::
  "bool \<Rightarrow> DiskFaults \<Rightarrow> forest \<Rightarrow> forest \<Rightarrow> forest \<times> (CheckpointError + rel_path list)" where
  "clear_workspace_contents win faults source workspace =
     (if df_read_dir faults [] then (workspace, Inl (ReadFailed []))
      else case clear_children win faults source [] workspace of
          (left, Inl e) \<Rightarrow> (left, Inl e)
        | (left, Inr (_, report)) \<Rightarrow> (left, Inr report))"

definition children :: "Tree option \<Rightarrow> forest" where
  "children t = (case t of Some (DirTree ch) \<Rightarrow> ch | _ \<Rightarrow> [])"

definition restore ::
  "bool \<Rightarrow> DiskFaults \<Rightarrow> rstr \<Rightarrow> CheckpointStore \<Rightarrow> CheckpointStore \<times> (CheckpointError + rstr list)" where
  "restore win faults i cs =
     (if \<not> validate_checkpoint_id i then (cs, Inl (InvalidId i))
      else case ensure_owned_storage faults 0 of
          Some e \<Rightarrow> (cs, Inl e)
        | None \<Rightarrow>
            (case map_of (cs_storage cs) i of
               Some (DirTree source) \<Rightarrow>
                 (case clear_workspace_contents win faults source (cs_workspace cs) of
                    (left, Inl e) \<Rightarrow> (cs\<lparr>cs_workspace := left\<rparr>, Inl (PartiallyCleared e i))
                  | (left, Inr report) \<Rightarrow>
                      (case copy_tree \<lparr>ce_mode = CopyRestore, ce_win = win, ce_budget = None, ce_token = (\<lambda>_. False), ce_faults = faults\<rparr>
                              source (Some (DirTree left)) of
                         ((_, made), Inl e) \<Rightarrow> (cs\<lparr>cs_workspace := children made\<rparr>, Inl (PartiallyRestored e i))
                       | ((_, made), Inr _) \<Rightarrow>
                           (cs\<lparr>cs_workspace := children made\<rparr>, Inr (sort (map (join_with ''/'') report)))))
             | _ \<Rightarrow> (cs, Inl (NoSuchCheckpoint i))))"

text \<open>The restore a person asks for: refused while a turn is live or waits, and while a process runs.\<close>

definition restore_checkpoint ::
  "bool \<Rightarrow> DiskFaults \<Rightarrow> (nat \<Rightarrow> int option option) \<Rightarrow> bool \<Rightarrow> bool \<Rightarrow> rstr \<Rightarrow> JobStore option \<Rightarrow> CheckpointStore option
    \<Rightarrow> (JobStore option \<times> CheckpointStore option) \<times> (CheckpointError + rstr list)" where
  "restore_checkpoint win faults waited turn_live turn_parked i jobs store =
     (case store of
        None \<Rightarrow> ((jobs, store), Inl CheckpointsDisabled)
      | Some cs \<Rightarrow>
          if turn_live \<or> turn_parked then ((jobs, store), Inl TurnInProgress)
          else
            (case jobs of
               None \<Rightarrow> (case restore win faults i cs of (cs', r) \<Rightarrow> ((None, Some cs'), r))
             | Some js \<Rightarrow>
                 (case idle_workspace waited js of
                    (js', False) \<Rightarrow> ((Some js', store), Inl JobsRunning)
                  | (js', True) \<Rightarrow>
                      (case restore win faults i cs of (cs', r) \<Rightarrow> ((Some (js'\<lparr>jb_gate := GateFree\<rparr>), Some cs'), r)))))"

section \<open>What is at a path\<close>

fun shallow :: "Tree \<Rightarrow> Tree" where
  "shallow (DirTree _) = DirTree []"
| "shallow t = t"

definition at_path :: "rel_path \<Rightarrow> Tree \<Rightarrow> Tree option" where
  "at_path p t = map_option shallow (lookup_at p t)"

abbreviation dir_at :: "rel_path \<Rightarrow> Tree \<Rightarrow> bool" where
  "dir_at p t \<equiv> at_path p t = Some (DirTree [])"

lemma shallow_iff [simp]:
  "shallow t = DirTree ch \<longleftrightarrow> ch = [] \<and> (\<exists>ch'. t = DirTree ch')" "shallow t = LinkTree s \<longleftrightarrow> t = LinkTree s"
  "shallow t = FileTree b m \<longleftrightarrow> t = FileTree b m" "shallow t = SpecialTree s \<longleftrightarrow> t = SpecialTree s"
  by (cases t; auto)+

lemma classify_shallow [simp]: "classify (shallow t) = classify t"
  by (cases t) simp_all

lemma at_path_Nil [simp]: "at_path [] t = Some (shallow t)"
  by (simp add: at_path_def)

lemma at_path_Cons [simp]:
  "at_path (n # p) (DirTree ch) = Option.bind (map_of ch n) (at_path p)"
  "at_path (n # p) (FileTree b m) = None" "at_path (n # p) (LinkTree s) = None" "at_path (n # p) (SpecialTree s) = None"
  by (simp_all add: at_path_def split: Option.bind_split)

lemma at_path_snoc: "at_path (p @ q) t = Option.bind (lookup_at p t) (at_path q)"
proof (induction p arbitrary: t)
  case (Cons n p)
  then show ?case by (cases t) (simp_all split: Option.bind_split)
qed simp

lemma at_path_above:
  assumes "at_path (p @ q) t \<noteq> None" "q \<noteq> []"
  shows "dir_at p t"
proof -
  obtain x where x: "lookup_at p t = Some x" "at_path q x \<noteq> None" using assms(1) by (auto simp: at_path_snoc split: bind_splits)
  then show ?thesis using assms(2) by (cases q; cases x) (auto simp: at_path_def [of p])
qed

lemma map_of_update: "map_of (AList.update n x ch) m = (if m = n then Some x else map_of ch m)"
  by (simp add: update_conv')

text \<open>Where the directory around it is there, a write changes what is at its path and below, and nothing else.\<close>

lemma write_at_changes:
  "write_at leaf r (Some d) = Wrote d' \<Longrightarrow> r \<noteq> [] \<Longrightarrow> dir_at (butlast r) d \<Longrightarrow>
    \<exists>x. leaf (lookup_at r d) = Wrote x \<and> lookup_at r d' = Some x \<and>
      (\<forall>q. at_path q d' = (if prefix r q then at_path (drop (length r) q) x else at_path q d))"
proof (induction r arbitrary: d d')
  case (Cons n r)
  from Cons.prems(3) obtain ch where d: "d = DirTree ch" by (cases d; cases r) auto
  show ?case
  proof (cases "r = []")
    case True
    then obtain x where "leaf (map_of ch n) = Wrote x" "d' = DirTree (AList.update n x ch)"
      using Cons.prems(1) d by (auto split: Write.splits)
    moreover have "at_path q (DirTree (AList.update n x ch)) =
        (if prefix [n] q then at_path (drop 1 q) x else at_path q (DirTree ch))" for q
      by (cases q) (auto simp: map_of_update)
    ultimately show ?thesis using True d by (auto simp: map_of_update intro!: exI [of _ x] split: bind_splits)
  next
    case False
    then obtain t where t: "map_of ch n = Some t" and below: "dir_at (butlast r) t"
      using Cons.prems(3) d by (auto split: bind_splits)
    obtain t' where w: "write_at leaf r (Some t) = Wrote t'" and d': "d' = DirTree (AList.update n t' ch)"
      using Cons.prems(1) d t by (auto split: Write.splits)
    from Cons.IH [OF w False below] obtain x where x: "leaf (lookup_at r t) = Wrote x" "lookup_at r t' = Some x"
      "\<forall>q. at_path q t' = (if prefix r q then at_path (drop (length r) q) x else at_path q t)" by blast
    have "at_path q d' = (if prefix (n # r) q then at_path (drop (length (n # r)) q) x else at_path q d)" for q
      by (cases q) (auto simp: d d' map_of_update x t)
    then show ?thesis using x t by (auto simp: d d' map_of_update intro!: exI [of _ x])
  qed
qed simp

section \<open>What a copy writes\<close>

definition recorded :: "bool \<Rightarrow> Tree \<Rightarrow> bool" where
  "recorded win t = (case t of SpecialTree _ \<Rightarrow> False | LinkTree _ \<Rightarrow> \<not> win | _ \<Rightarrow> True)"

lemma make_dir_wrote: "make_dir t = Wrote x \<longleftrightarrow> (t = None \<and> x = DirTree []) \<or> (\<exists>ch. t = Some (DirTree ch) \<and> x = DirTree ch)"
  by (auto simp: make_dir_def split: option.splits Tree.splits)

lemma put_file_wrote: "put_file x t = Wrote y \<longleftrightarrow> y = x \<and> (t = None \<or> (\<exists>b m. t = Some (FileTree b m)))"
  by (auto simp: put_file_def split: option.splits Tree.splits)

lemma put_link_wrote: "put_link x t = Wrote y \<longleftrightarrow> y = x \<and> t = None"
  by (auto simp: put_link_def split: option.splits)

lemma at_path_below: "lookup_at q d = t \<Longrightarrow> prefix q p \<Longrightarrow> at_path p d = Option.bind t (at_path (drop (length q) p))"
  by (metis append_eq_conv_conj at_path_snoc prefix_def)

text \<open>A leaf that replaces nothing but itself: nothing below its path was there, or is.\<close>

lemma write_leaf_changes:
  assumes "write_at leaf q (Some d) = Wrote d'" "q \<noteq> []" "dir_at (butlast q) d"
    and "\<And>t y. leaf t = Wrote y \<Longrightarrow> shallow y = s \<and> (\<forall>n p. at_path (n # p) y = Option.bind t (at_path (n # p)))"
  shows "at_path p d' = (if p = q then Some s else at_path p d)"
proof -
  obtain x where x: "leaf (lookup_at q d) = Wrote x"
      "at_path p d' = (if prefix q p then at_path (drop (length q) p) x else at_path p d)"
    using write_at_changes [OF assms(1-3)] by blast
  note y = assms(4) [OF x(1)]
  show ?thesis
  proof (cases "prefix q p \<and> p \<noteq> q")
    case True
    then obtain n r where r: "drop (length q) p = n # r" by (metis append_Nil2 append_eq_conv_conj neq_Nil_conv prefix_def)
    then show ?thesis using True x(2) y at_path_below [of q d _ p] by simp
  next
    case False
    then show ?thesis using x(2) y by auto
  qed
qed

lemma make_dir_changes:
  assumes "write_at make_dir q (Some d) = Wrote d'" "q \<noteq> []" "dir_at (butlast q) d"
  shows "at_path p d' = (if p = q then Some (DirTree []) else at_path p d)"
  by (rule write_leaf_changes [OF assms]) (auto simp: make_dir_wrote)

lemma put_file_changes:
  assumes "write_at (put_file (FileTree b m)) q (Some d) = Wrote d'" "q \<noteq> []" "dir_at (butlast q) d"
  shows "at_path p d' = (if p = q then Some (FileTree b m) else at_path p d)"
  by (rule write_leaf_changes [OF assms]) (auto simp: put_file_wrote)

lemma put_link_changes:
  assumes "write_at (put_link (LinkTree s)) q (Some d) = Wrote d'" "q \<noteq> []" "dir_at (butlast q) d"
  shows "at_path p d' = (if p = q then Some (LinkTree s) else at_path p d)"
  by (rule write_leaf_changes [OF assms]) (auto simp: put_link_wrote)

lemma copy_entry_copies:
  assumes "copy_entry env q t d = (d', None)" "q \<noteq> []" "dir_at (butlast q) d"
  shows "at_path p d' = (if p = q \<and> recorded (ce_win env) t then Some (shallow t) else at_path p d)"
  using assms
  by (cases t)
    (auto simp: copy_entry_def written_def recorded_def snapshot_can_capture_symlink_def put_link_changes make_dir_changes
      put_file_changes split: if_splits Write.splits option.splits prod.splits)

lemma copy_entry_errs:
  assumes "copy_entry env q t d = (d', Some e)" "q \<noteq> []" "dir_at (butlast q) d"
  shows "p \<noteq> q \<Longrightarrow> at_path p d' = at_path p d"
  using assms
  by (cases t)
    (auto simp: copy_entry_def written_def put_link_changes make_dir_changes
      put_file_changes split: if_splits Write.splits option.splits prod.splits)

text \<open>A write passes through a link or a device only where one stands at the path itself.\<close>

lemma write_at_through:
  "write_at leaf r (Some d) = WriteThrough \<Longrightarrow> r \<noteq> [] \<Longrightarrow> dir_at (butlast r) d \<Longrightarrow> leaf (lookup_at r d) = WriteThrough"
proof (induction r arbitrary: d)
  case (Cons n r)
  from Cons.prems(3) obtain ch where d: "d = DirTree ch" by (cases d; cases r) auto
  show ?case
  proof (cases "r = []")
    case True
    then show ?thesis using Cons.prems(1) d by (cases "map_of ch n") (auto split: Write.splits)
  next
    case False
    then obtain t where t: "map_of ch n = Some t" and below: "dir_at (butlast r) t"
      using Cons.prems(3) d by (auto split: bind_splits)
    then show ?thesis using Cons.prems(1) Cons.IH [OF _ False below] d by (auto split: Write.splits)
  qed
qed simp

definition plain_at :: "rel_path \<Rightarrow> Tree \<Rightarrow> bool" where
  "plain_at q d \<longleftrightarrow> (case lookup_at q d of None \<Rightarrow> True | Some x \<Rightarrow> classify x = EntryDir \<or> classify x = EntryFile)"

lemma copy_entry_never_through:
  assumes "copy_entry env q t d = (d', Some (WroteThrough q'))" "q \<noteq> []" "dir_at (butlast q) d"
  shows "ce_mode env = CopySnapshot \<and> \<not> plain_at q d"
proof -
  have leaf: "make_dir (lookup_at q d) \<noteq> WriteThrough" "put_file x (lookup_at q d) \<noteq> WriteThrough" if "plain_at q d" for x
    using that by (auto simp: plain_at_def make_dir_def put_file_def split: option.splits Tree.splits)
  have link: "put_link x (lookup_at q d) \<noteq> WriteThrough" for x by (auto simp: put_link_def split: option.splits)
  have restoring: "plain_at q d" if "\<not> (case lookup_at q d of None \<Rightarrow> False | Some x \<Rightarrow> classify x = EntrySymlink \<or> classify x = EntryUncapturable)"
    using that by (cases "lookup_at q d"; cases "the (lookup_at q d)") (auto simp: plain_at_def)
  note through = write_at_through [OF _ assms(2,3)]
  have "\<not> plain_at q d"
  proof
    assume plain: "plain_at q d"
    note no = leaf [OF plain] link
    show False using assms(1) no through
      by (cases t) (auto simp: copy_entry_def written_def split: if_splits Write.splits option.splits)
  qed
  moreover have "ce_mode env = CopySnapshot"
    using assms(1) restoring calculation by (cases "ce_mode env") (auto simp: copy_entry_def split: if_splits)
  ultimately show ?thesis by simp
qed

text \<open>A directory never lists a name twice.\<close>

fun distinct_names :: "forest \<Rightarrow> bool" where
  "distinct_names [] \<longleftrightarrow> True"
| "distinct_names ((n, t) # rest) \<longleftrightarrow>
     n \<notin> fst ` set rest \<and> (case t of DirTree ch \<Rightarrow> distinct_names ch | _ \<Rightarrow> True) \<and> distinct_names rest"

text \<open>What of a tree a copy takes, when it leaves out the paths of \<open>leave\<close>.\<close>

fun captured :: "(rel_path \<Rightarrow> bool) \<Rightarrow> bool \<Rightarrow> rel_path \<Rightarrow> forest \<Rightarrow> forest" where
  "captured leave win p [] = []"
| "captured leave win p ((n, t) # rest) =
     (if leave (p @ [n]) then []
      else case t of
          DirTree ch \<Rightarrow> [(n, DirTree (captured leave win (p @ [n]) ch))]
        | _ \<Rightarrow> if recorded win t then [(n, t)] else []) @ captured leave win p rest"

definition leaves_out :: "CopyEnv \<Rightarrow> rel_path \<Rightarrow> bool" where
  "leaves_out env q \<longleftrightarrow> ce_mode env = CopySnapshot \<and> should_skip q"

lemma captured_names: "fst ` set (captured leave win p ch) \<subseteq> fst ` set ch"
  by (induction leave win p ch rule: captured.induct) (auto split: Tree.splits if_splits)

lemma captured_None: "n \<notin> fst ` set ch \<Longrightarrow> map_of (captured leave win p ch) n = None"
  using subsetD [OF captured_names [of leave win p ch], of n] by (auto simp: map_of_eq_None_iff)

lemma captured_distinct: "distinct_names ch \<Longrightarrow> distinct_names (captured leave win p ch)"
proof (induction leave win p ch rule: captured.induct)
  case (2 leave win p n t rest)
  then have "n \<notin> fst ` set (captured leave win p rest)" using subsetD [OF captured_names [of leave win p rest], of n] by auto
  then show ?case using 2 by (auto split: Tree.splits)
qed simp

lemma captured_at_path:
  assumes "distinct_names ((n, t) # rest)"
  shows "at_path (m # r) (DirTree (captured leave win p ((n, t) # rest))) =
    (if m \<noteq> n then at_path (m # r) (DirTree (captured leave win p rest))
     else if leave (p @ [n]) then None
     else case t of
         DirTree ch \<Rightarrow> at_path r (DirTree (captured leave win (p @ [n]) ch))
       | _ \<Rightarrow> if recorded win t then at_path r t else None)"
  using assms captured_None [of n rest] by (auto split: Tree.splits)

lemma strict_prefix_split: "strict_prefix p q \<longleftrightarrow> (\<exists>m r. q = p @ m # r)"
  by (metis strict_prefixE' strict_prefixI')

text \<open>How a copy overlays a tree, and the steps it does so in.\<close>

definition overlay :: "rel_path \<Rightarrow> forest \<Rightarrow> Tree \<Rightarrow> rel_path \<Rightarrow> Tree option" where
  "overlay p taken d q =
     (if strict_prefix p q
      then (case at_path (drop (length p) q) (DirTree taken) of None \<Rightarrow> at_path q d | Some x \<Rightarrow> Some x)
      else at_path q d)"

lemma overlay_below: "overlay p taken d (p @ m # r) =
    (case at_path (m # r) (DirTree taken) of None \<Rightarrow> at_path (p @ m # r) d | Some x \<Rightarrow> Some x)"
  by (simp add: overlay_def strict_prefix_split)

lemma overlay_else: "(\<And>m r. q \<noteq> p @ m # r) \<Longrightarrow> overlay p taken d q = at_path q d"
  by (auto simp: overlay_def strict_prefix_split)

lemma overlay_self [simp]: "overlay p taken d p = at_path p d"
  by (simp add: overlay_def)

lemma overlay_Nil [simp]: "overlay p [] d q = at_path q d"
  by (auto simp: overlay_def strict_prefix_split)

lemma overlay_Cons:
  assumes "distinct_names ((n, t) # rest)" "q = p @ m # r"
  shows "overlay p (captured leave win p ((n, t) # rest)) d q =
    (if m \<noteq> n then overlay p (captured leave win p rest) d q
     else if leave (p @ [n]) then at_path q d
     else case t of
         DirTree ch \<Rightarrow> (case at_path r (DirTree (captured leave win (p @ [n]) ch)) of None \<Rightarrow> at_path q d | Some x \<Rightarrow> Some x)
       | _ \<Rightarrow> if recorded win t then (case at_path r t of None \<Rightarrow> at_path q d | Some x \<Rightarrow> Some x) else at_path q d)"
  using captured_at_path [OF assms(1), of m r leave win p] assms(2) by (auto simp: overlay_below split: Tree.splits option.splits)

lemma overlay_absent:
  "n \<notin> fst ` set rest \<Longrightarrow> overlay p (captured leave win p rest) d (p @ n # r) = at_path (p @ n # r) d"
  by (simp add: overlay_below captured_None)

text \<open>The steps of a copy that went on to its end.\<close>

lemma copy_children_steps:
  assumes "copy_children env p ((n, t) # rest) st = (st', Inr CopyDone)"
  obtains "leaves_out env (p @ [n])" "copy_children env p rest st = (st', Inr CopyDone)"
  | c d where "\<not> leaves_out env (p @ [n])" "copy_entry env (p @ [n]) t (snd st) = (d, None)"
      "\<forall>ch. t \<noteq> DirTree ch" "copy_children env p rest (c, d) = (st', Inr CopyDone)"
  | c d ch st2 where "\<not> leaves_out env (p @ [n])" "copy_entry env (p @ [n]) t (snd st) = (d, None)"
      "t = DirTree ch" "copy_children env (p @ [n]) ch (c, d) = (st2, Inr CopyDone)"
      "copy_children env p rest st2 = (st', Inr CopyDone)"
proof (cases "leaves_out env (p @ [n])")
  case True
  then show ?thesis using assms that(1) by (simp add: leaves_out_def Let_def)
next
  case False
  let ?c = "if ce_mode env = CopySnapshot then fst st + 1 else fst st"
  obtain d e where entry: "copy_entry env (p @ [n]) t (snd st) = (d, e)" by fastforce
  show ?thesis
  proof (cases "\<exists>ch. t = DirTree ch")
    case True
    then obtain ch where t: "t = DirTree ch" by blast
    obtain st2 r2 where below: "copy_children env (p @ [n]) ch (?c, d) = (st2, r2)" by fastforce
    show ?thesis using assms False entry below that(3) [of d ch ?c st2] unfolding t
      by (auto simp: leaves_out_def Let_def split: if_splits option.splits sum.splits CopyStatus.splits)
  next
    case leaf: False
    then show ?thesis using assms False entry that(2) [of d ?c]
      by (cases t) (auto simp: leaves_out_def Let_def split: if_splits option.splits)
  qed
qed

lemma copy_children_overlays:
  "copy_children env p ch st = (st', Inr CopyDone) \<Longrightarrow> distinct_names ch \<Longrightarrow> dir_at p (snd st) \<Longrightarrow>
    at_path q (snd st') = overlay p (captured (leaves_out env) (ce_win env) p ch) (snd st) q"
proof (induction ch arbitrary: p st st' q rule: distinct_names.induct)
  case (2 n t rest)
  note distinct = "2.prems"(2)
  then have absent: "n \<notin> fst ` set rest" and rest_ok: "distinct_names rest" by simp_all
  let ?q = "p @ [n]"
  let ?taken = "captured (leaves_out env) (ce_win env)"
  from "2.prems"(1) show ?case
  proof (cases rule: copy_children_steps)
    case 1
    have "at_path q (snd st') = overlay p (?taken p rest) (snd st) q" by (rule "2.IH"(2) [OF 1(2) rest_ok "2.prems"(3)])
    then show ?thesis using 1(1) by simp
  next
    case (2 c d)
    have d: "at_path r d = (if r = ?q \<and> recorded (ce_win env) t then Some (shallow t) else at_path r (snd st))" for r
      using copy_entry_copies [OF 2(2)] "2.prems"(3) by simp
    have "dir_at p (snd (c, d))" using d [of p] "2.prems"(3) by simp
    from "2.IH"(2) [OF 2(4) rest_ok this, of q] have ih: "at_path q (snd st') = overlay p (?taken p rest) d q" by simp
    show ?thesis
    proof (cases "\<exists>m r. q = p @ m # r")
      case True
      then obtain m r where q: "q = p @ m # r" by blast
      show ?thesis
        using ih 2(1,3) d [of q] overlay_absent [OF absent, of p "leaves_out env" "ce_win env" d r] absent
        by (cases t; cases r) (auto simp: overlay_Cons [OF distinct q] overlay_below q captured_None split: option.splits)
    next
      case False
      then show ?thesis using ih d [of q] by (simp add: overlay_else)
    qed
  next
    case (3 c d ch st2)
    have d: "at_path r d = (if r = ?q then Some (DirTree []) else at_path r (snd st))" for r
      using copy_entry_copies [OF 3(2)] "2.prems"(3) 3(3) by (simp add: recorded_def)
    have ch_ok: "distinct_names ch" using distinct 3(3) by simp
    have below: "at_path r (snd st2) = overlay ?q (?taken ?q ch) d r" for r
      using "2.IH"(1) [OF 3(3) 3(4) ch_ok] d [of ?q] by simp
    have "dir_at p (snd st2)" using below [of p] d [of p] "2.prems"(3) by (simp add: overlay_else)
    from "2.IH"(2) [OF 3(5) rest_ok this] have ih: "at_path q (snd st') = overlay p (?taken p rest) (snd st2) q" .
    show ?thesis
    proof (cases "\<exists>m r. q = p @ m # r")
      case True
      then obtain m r where q: "q = p @ m # r" by blast
      show ?thesis
      proof (cases "m = n")
        case True
        have "at_path q (snd st') = overlay ?q (?taken ?q ch) d q"
          using ih below overlay_absent [OF absent] by (simp add: q True)
        then show ?thesis using True 3(1,3) d [of q]
          by (cases r) (auto simp: q overlay_def strict_prefix_split split: option.splits)
      next
        case False
        then have "at_path q (snd st2) = at_path q (snd st)" using below [of q] d [of q] by (simp add: q overlay_else)
        then show ?thesis using False ih 3(3) by (auto simp: q overlay_def strict_prefix_split split: option.splits)
      qed
    next
      case False
      then have "at_path q (snd st2) = at_path q (snd st)" using below [of q] d [of q] by (subst below, subst overlay_else) auto
      then show ?thesis using ih False by (simp add: overlay_else)
    qed
  qed
qed simp

text \<open>However a copy ends, it wrote only at paths its source has.\<close>

lemma copy_children_elsewhere:
  "copy_children env p ch st = (st', r) \<Longrightarrow> distinct_names ch \<Longrightarrow> dir_at p (snd st) \<Longrightarrow>
    (if strict_prefix p q then at_path (drop (length p) q) (DirTree ch) = None else True) \<Longrightarrow>
    at_path q (snd st') = at_path q (snd st)"
proof (induction ch arbitrary: p st st' r q rule: distinct_names.induct)
  case (2 n t rest)
  let ?q = "p @ [n]"
  let ?c = "if ce_mode env = CopySnapshot then fst st + 1 else fst st"
  have rest_ok: "distinct_names rest" and absent: "map_of rest n = None" using "2.prems"(2) by (simp_all add: map_of_eq_None_iff)
  have q_rest: "if strict_prefix p q then at_path (drop (length p) q) (DirTree rest) = None else True"
    using "2.prems"(4) absent by (auto simp: strict_prefix_split split: if_splits bind_splits)
  show ?case
  proof (cases "leaves_out env ?q")
    case True
    then have "copy_children env p rest st = (st', r)" using "2.prems"(1) by (simp add: leaves_out_def Let_def)
    then show ?thesis using "2.IH"(2) [OF _ rest_ok "2.prems"(3) q_rest] by blast
  next
    case False
    obtain d e where entry: "copy_entry env ?q t (snd st) = (d, e)" by fastforce
    have not_q: "q \<noteq> ?q" using "2.prems"(4) by (auto simp: strict_prefix_split split: if_splits)
    have not_p: "p \<noteq> ?q" by simp
    have d: "at_path s d = at_path s (snd st)" if "s \<noteq> ?q" for s
      using that copy_entry_copies [of env ?q t "snd st" d s] copy_entry_errs [of env ?q t "snd st" d _ s] entry "2.prems"(3)
      by (cases e) auto
    have p1: "dir_at p d" using d [OF not_p] "2.prems"(3) by simp
    show ?thesis
    proof (cases "stops_copy env ?c \<or> e \<noteq> None")
      case True
      then show ?thesis using "2.prems"(1) False entry d [OF not_q] by (auto simp: leaves_out_def Let_def split: if_splits option.splits)
    next
      case go: False
      then have e: "e = None" "\<not> stops_copy env ?c" by simp_all
      show ?thesis
      proof (cases "\<exists>ch. t = DirTree ch")
        case True
        then obtain ch where t: "t = DirTree ch" by blast
        have q1: "dir_at ?q d" using copy_entry_copies [OF entry [unfolded e], of ?q] t "2.prems"(3) by (simp add: recorded_def)
        obtain st2 r2 where below: "copy_children env ?q ch (?c, d) = (st2, r2)" by fastforce
        have ch_ok: "distinct_names ch" using "2.prems"(2) t by simp
        have st2: "at_path s (snd st2) = at_path s d"
          if "if strict_prefix ?q s then at_path (drop (length ?q) s) (DirTree ch) = None else True" for s
          using "2.IH"(1) [OF t below ch_ok _ that] q1 by simp
        have "at_path q (snd st2) = at_path q d"
          by (rule st2) (use "2.prems"(4) t in \<open>auto simp: strict_prefix_split split: if_splits\<close>)
        moreover have "dir_at p (snd st2)" using st2 [of p] p1 by (simp add: strict_prefix_split)
        moreover have "st' = (?c, d) \<or> st' = st2 \<or> copy_children env p rest st2 = (st', r)"
          using "2.prems"(1) False entry e below t by (auto simp: leaves_out_def Let_def split: if_splits sum.splits CopyStatus.splits)
        ultimately show ?thesis using "2.IH"(2) [OF _ rest_ok _ q_rest, of st2 st' r] d [OF not_q] by auto
      next
        case leaf: False
        then have "copy_children env p rest (?c, d) = (st', r)"
          using "2.prems"(1) False entry e by (cases t) (auto simp: leaves_out_def Let_def split: if_splits)
        from "2.IH"(2) [OF this rest_ok _ q_rest] p1 d [OF not_q] show ?thesis by simp
      qed
    qed
  qed
qed simp

text \<open>No write passes through a link or a device: a restore looks before it writes, and what a snapshot fills is new.\<close>

lemma copy_children_never_through:
  "copy_children env p ch st = (st', Inl (WroteThrough x)) \<Longrightarrow> distinct_names ch \<Longrightarrow> dir_at p (snd st) \<Longrightarrow>
    ce_mode env = CopySnapshot \<and> (\<exists>m \<in> fst ` set ch. at_path (p @ [m]) (snd st) \<noteq> None)"
proof (induction ch arbitrary: p st st' rule: distinct_names.induct)
  case (2 n t rest)
  let ?q = "p @ [n]"
  let ?c = "if ce_mode env = CopySnapshot then fst st + 1 else fst st"
  have rest_ok: "distinct_names rest" using "2.prems"(2) by simp
  show ?case
  proof (cases "leaves_out env ?q")
    case True
    then have "copy_children env p rest st = (st', Inl (WroteThrough x))" using "2.prems"(1) by (simp add: leaves_out_def Let_def)
    then show ?thesis using "2.IH"(2) [OF _ rest_ok "2.prems"(3)] by auto
  next
    case False
    obtain d e where entry: "copy_entry env ?q t (snd st) = (d, e)" by fastforce
    show ?thesis
    proof (cases e)
      case (Some err)
      then have "err = WroteThrough x" using "2.prems"(1) False entry by (auto simp: leaves_out_def Let_def split: if_splits)
      then have "ce_mode env = CopySnapshot \<and> \<not> plain_at ?q (snd st)"
        using copy_entry_never_through [of env ?q t "snd st" d x] entry Some "2.prems"(3) by simp
      then show ?thesis by (auto simp: plain_at_def at_path_def split: option.splits)
    next
      case None
      note d = copy_entry_copies [OF entry [unfolded None]]
      have d: "at_path s d = at_path s (snd st)" if "s \<noteq> ?q" for s using d [of s] that "2.prems"(3) by simp
      have p1: "dir_at p d" using d [of p] "2.prems"(3) by simp
      have next_ok: "at_path (p @ [m]) st2 = at_path (p @ [m]) (snd st)"
        if "m \<in> fst ` set rest" "at_path (p @ [m]) st2 = at_path (p @ [m]) d" for m st2
        using that d [of "p @ [m]"] "2.prems"(2) by auto
      show ?thesis
      proof (cases "\<exists>ch. t = DirTree ch")
        case True
        then obtain ch where t: "t = DirTree ch" by blast
        have q1: "dir_at ?q d" using copy_entry_copies [OF entry [unfolded None], of ?q] t "2.prems"(3) by (simp add: recorded_def)
        have ch_ok: "distinct_names ch" using "2.prems"(2) t by simp
        obtain st2 r2 where below: "copy_children env ?q ch (?c, d) = (st2, r2)" by fastforce
        have "r2 = Inl (WroteThrough x) \<or> copy_children env p rest st2 = (st', Inl (WroteThrough x))"
          using "2.prems"(1) False entry None below t
          by (auto simp: leaves_out_def Let_def split: if_splits sum.splits CopyStatus.splits)
        then show ?thesis
        proof
          assume "r2 = Inl (WroteThrough x)"
          then obtain m where "ce_mode env = CopySnapshot" "at_path (?q @ [m]) d \<noteq> None"
            using "2.IH"(1) [OF t _ ch_ok, of ?q "(?c, d)" st2] below q1 by auto
          moreover from this have "at_path ?q (snd st) \<noteq> None"
            using d [of "?q @ [m]"] at_path_above [of ?q "[m]" "snd st"] by auto
          ultimately show ?thesis by auto
        next
          assume rest: "copy_children env p rest st2 = (st', Inl (WroteThrough x))"
          have st2: "at_path s (snd st2) = at_path s d" if "\<not> strict_prefix ?q s" for s
            using copy_children_elsewhere [OF below ch_ok, of s] q1 that by simp
          have "dir_at p (snd st2)" using st2 [of p] p1 by (simp add: strict_prefix_split)
          from "2.IH"(2) [OF rest rest_ok this] obtain m where m: "ce_mode env = CopySnapshot" "m \<in> fst ` set rest"
            "at_path (p @ [m]) (snd st2) \<noteq> None" by auto
          then show ?thesis using next_ok [OF m(2) st2] by (auto simp: strict_prefix_split)
        qed
      next
        case leaf: False
        then have "copy_children env p rest (?c, d) = (st', Inl (WroteThrough x))"
          using "2.prems"(1) False entry None by (cases t) (auto simp: leaves_out_def Let_def split: if_splits)
        from "2.IH"(2) [OF this rest_ok] p1 obtain m where "ce_mode env = CopySnapshot" "m \<in> fst ` set rest"
          "at_path (p @ [m]) d \<noteq> None" by auto
        then show ?thesis using next_ok [of m d] by auto
      qed
    qed
  qed
qed simp

section \<open>What clearing leaves\<close>

definition skipped :: "rel_path \<Rightarrow> bool" where
  "skipped q \<longleftrightarrow> list_ex should_skip (prefixes q)"

lemma skipped_iff: "skipped q \<longleftrightarrow> (\<exists>r. prefix r q \<and> should_skip r)"
  by (auto simp: skipped_def list_ex_iff)

lemma should_skip_Nil [simp]: "\<not> should_skip []"
  by (simp add: should_skip_def)

lemma skipped_self: "should_skip q \<Longrightarrow> skipped (q @ r)"
  by (auto simp: skipped_iff intro!: exI [of _ q])

lemma skipped_snoc: "skipped (p @ n # r) \<Longrightarrow> \<not> should_skip (p @ [n]) \<Longrightarrow> \<not> skipped p \<Longrightarrow> \<exists>m s. r = m # s"
  by (cases r) (auto simp: skipped_iff)

text \<open>One entry looked at: what is left of it, and what is said of it.\<close>

definition clear_entry ::
  "bool \<Rightarrow> DiskFaults \<Rightarrow> forest \<Rightarrow> rel_path \<Rightarrow> rstr \<Rightarrow> Tree \<Rightarrow> forest \<times> (CheckpointError + bool \<times> rel_path list)" where
  "clear_entry win faults source q n t =
     (let removed = (if df_remove faults q then ([(n, t)], Inl (RemoveFailed q)) else ([], Inr (False, []))) in
      if should_skip q then ([(n, t)], Inr (True, []))
      else case t of
          LinkTree _ \<Rightarrow>
            if snapshot_can_capture_symlink win \<or> snapshot_covers source q then removed
            else ([(n, t)], Inr (True, [q]))
        | DirTree ch \<Rightarrow>
            if df_read_dir faults q then ([(n, t)], Inl (ReadFailed q))
            else (case clear_children win faults source q ch of
                    (ch', Inl e) \<Rightarrow> ([(n, DirTree ch')], Inl e)
                  | (ch', Inr (True, report)) \<Rightarrow> ([(n, DirTree ch')], Inr (True, report))
                  | (ch', Inr (False, report)) \<Rightarrow>
                      if df_remove faults q then ([(n, DirTree ch')], Inl (RemoveFailed q)) else ([], Inr (False, report)))
        | FileTree _ _ \<Rightarrow> removed
        | SpecialTree _ \<Rightarrow> if snapshot_covers source q then removed else ([(n, t)], Inr (True, [q])))"

lemma clear_children_Cons:
  "clear_children win faults source p ((n, t) # rest) =
     (case clear_entry win faults source (p @ [n]) n t of
        (here, Inl e) \<Rightarrow> (here @ rest, Inl e)
      | (here, Inr (kept, report)) \<Rightarrow>
          (case clear_children win faults source p rest of
             (others, Inl e) \<Rightarrow> (here @ others, Inl e)
           | (others, Inr (kept', report')) \<Rightarrow> (here @ others, Inr (kept \<or> kept', report @ report'))))"
  by (simp add: clear_entry_def Let_def)

declare clear_children.simps(2) [simp del]

text \<open>Nothing is changed but by removing it, whatever the outcome, and nothing that is left out of snapshots.\<close>

definition trimmed :: "rel_path \<Rightarrow> forest \<Rightarrow> forest \<Rightarrow> bool" where
  "trimmed p ch ch' \<longleftrightarrow>
     fst ` set ch' \<subseteq> fst ` set ch \<and> distinct_names ch' \<and>
     (\<forall>m r. let now = at_path (m # r) (DirTree ch); left = at_path (m # r) (DirTree ch') in
        (left = now \<or> left = None) \<and> (skipped (p @ m # r) \<longrightarrow> left = now))"

lemma trimmed_refl: "distinct_names ch \<Longrightarrow> trimmed p ch ch"
  by (simp add: trimmed_def)

lemma trimmed_entry:
  assumes "distinct_names [(n, t)]" "clear_entry win faults source (p @ [n]) n t = (here, r)" "\<not> skipped p"
    and below: "\<And>ch ch' r'. t = DirTree ch \<Longrightarrow> clear_children win faults source (p @ [n]) ch = (ch', r') \<Longrightarrow>
      \<not> skipped (p @ [n]) \<Longrightarrow> trimmed (p @ [n]) ch ch' \<and> (case r' of Inl _ \<Rightarrow> True | Inr (kept, _) \<Rightarrow> kept = (ch' \<noteq> []))"
  shows "trimmed p [(n, t)] here \<and> (case r of Inl _ \<Rightarrow> True | Inr (kept, _) \<Rightarrow> kept = (here \<noteq> []))"
proof (cases "should_skip (p @ [n])")
  case True
  then show ?thesis using assms(1,2) by (auto simp: clear_entry_def trimmed_refl)
next
  case False
  then have unskipped: "\<not> skipped (p @ [n])" using assms(3) by (auto simp: skipped_iff prefix_snoc)
  have gone: "trimmed p [(n, t)] []" if "\<And>r. skipped (p @ n # r) \<Longrightarrow> at_path r t = None"
    using that by (auto simp: trimmed_def Let_def)
  have gone_leaf: "trimmed p [(n, t)] []" if "\<And>m r. at_path (m # r) t = None"
  proof (rule gone)
    fix r assume "skipped (p @ n # r)"
    then obtain m s where "r = m # s" using skipped_snoc False assms(3) by blast
    then show "at_path r t = None" using that by simp
  qed
  show ?thesis
  proof (cases t)
    case (DirTree ch)
    obtain ch' r' where cl: "clear_children win faults source (p @ [n]) ch = (ch', r')" by fastforce
    note b = below [OF DirTree cl unskipped]
    have part: "trimmed p [(n, t)] [(n, DirTree ch')]"
      unfolding trimmed_def
    proof (intro conjI allI)
      show "fst ` set [(n, DirTree ch')] \<subseteq> fst ` set [(n, t)]" by simp
      show "distinct_names [(n, DirTree ch')]" using b by (simp add: trimmed_def)
      fix m r
      show "let now = at_path (m # r) (DirTree [(n, t)]); left = at_path (m # r) (DirTree [(n, DirTree ch')]) in
          (left = now \<or> left = None) \<and> (skipped (p @ m # r) \<longrightarrow> left = now)"
        using b DirTree by (cases r) (auto simp: trimmed_def Let_def)
    qed
    have all_gone: "trimmed p [(n, t)] []" if "ch' = []"
    proof (rule gone)
      fix r assume s: "skipped (p @ n # r)"
      then obtain m s where "r = m # s" using skipped_snoc False assms(3) by blast
      then show "at_path r t = None" using b s that DirTree by (auto simp: trimmed_def Let_def dest!: spec [of _ m] spec [of _ s])
    qed
    show ?thesis using assms(1,2) False cl b part all_gone DirTree
      by (auto simp: clear_entry_def trimmed_refl Let_def split: if_splits sum.splits prod.splits bool.splits)
  next
    case (FileTree bytes mode)
    then show ?thesis using assms(1,2) False gone_leaf by (auto simp: clear_entry_def trimmed_refl Let_def split: if_splits)
  next
    case (LinkTree s)
    then show ?thesis using assms(1,2) False gone_leaf by (auto simp: clear_entry_def trimmed_refl Let_def split: if_splits)
  next
    case (SpecialTree s)
    then show ?thesis using assms(1,2) False gone_leaf by (auto simp: clear_entry_def trimmed_refl Let_def split: if_splits)
  qed
qed

lemma distinct_names_append:
  "distinct_names (xs @ ys) \<longleftrightarrow> distinct_names xs \<and> distinct_names ys \<and> fst ` set xs \<inter> fst ` set ys = {}"
  by (induction xs rule: distinct_names.induct) auto

lemma at_path_split:
  assumes "fst ` set here \<subseteq> {n}" "n \<notin> fst ` set others"
  shows "at_path (m # r) (DirTree (here @ others)) =
    (if m = n then at_path (m # r) (DirTree here) else at_path (m # r) (DirTree others))"
proof (cases "m = n")
  case True
  have "map_of others n = None" using assms(2) by (simp add: map_of_eq_None_iff)
  then show ?thesis using True by (simp add: map_add_def split: option.split)
next
  case False
  then have "map_of here m = None" using assms(1) by (auto simp: map_of_eq_None_iff)
  then show ?thesis using False by (simp add: map_add_def split: option.split)
qed

lemma trimmed_Cons:
  assumes "distinct_names ((n, t) # rest)" "trimmed p [(n, t)] here" "trimmed p rest others"
  shows "trimmed p ((n, t) # rest) (here @ others)"
proof -
  have here: "fst ` set here \<subseteq> {n}" and others: "fst ` set others \<subseteq> fst ` set rest" using assms(2,3) by (simp_all add: trimmed_def)
  have new: "n \<notin> fst ` set others" using subsetD [OF others, of n] assms(1) by auto
  note lookups = at_path_split [OF here new]
  have "fst ` set here \<inter> fst ` set others = {}" using here new by blast
  then have "distinct_names (here @ others)" using assms(2,3) by (simp add: distinct_names_append trimmed_def)
  moreover have "let now = at_path (m # r) (DirTree ((n, t) # rest)); left = at_path (m # r) (DirTree (here @ others)) in
      (left = now \<or> left = None) \<and> (skipped (p @ m # r) \<longrightarrow> left = now)" for m r
  proof -
    have "let now = at_path (m # r) (DirTree [(n, t)]); left = at_path (m # r) (DirTree here) in
        (left = now \<or> left = None) \<and> (skipped (p @ m # r) \<longrightarrow> left = now)"
      using assms(2) unfolding trimmed_def by blast
    moreover have "let now = at_path (m # r) (DirTree rest); left = at_path (m # r) (DirTree others) in
        (left = now \<or> left = None) \<and> (skipped (p @ m # r) \<longrightarrow> left = now)"
      using assms(3) unfolding trimmed_def by blast
    ultimately show ?thesis unfolding lookups by (cases "m = n") (simp_all add: Let_def)
  qed
  ultimately show ?thesis using here others by (auto simp: trimmed_def)
qed

lemma clear_children_trims:
  "clear_children win faults source p ch = (ch', r) \<Longrightarrow> distinct_names ch \<Longrightarrow> \<not> skipped p \<Longrightarrow>
    trimmed p ch ch' \<and> (case r of Inl _ \<Rightarrow> True | Inr (kept, _) \<Rightarrow> kept = (ch' \<noteq> []))"
proof (induction ch arbitrary: p ch' r rule: distinct_names.induct)
  case (2 n t rest)
  obtain here e where entry: "clear_entry win faults source (p @ [n]) n t = (here, e)" by fastforce
  obtain others r' where tail: "clear_children win faults source p rest = (others, r')" by fastforce
  have rest_ok: "distinct_names rest" and one: "distinct_names [(n, t)]" using "2.prems"(2) by simp_all
  have h: "trimmed p [(n, t)] here \<and> (case e of Inl _ \<Rightarrow> True | Inr (kept, _) \<Rightarrow> kept = (here \<noteq> []))"
  proof (rule trimmed_entry [OF one entry "2.prems"(3)])
    fix ch ch2 r2
    assume t: "t = DirTree ch" and cl: "clear_children win faults source (p @ [n]) ch = (ch2, r2)" and s: "\<not> skipped (p @ [n])"
    have "distinct_names ch" using one t by simp
    then show "trimmed (p @ [n]) ch ch2 \<and> (case r2 of Inl _ \<Rightarrow> True | Inr (kept, _) \<Rightarrow> kept = (ch2 \<noteq> []))"
      using "2.IH"(1) [OF t cl _ s] by blast
  qed
  note o = "2.IH"(2) [OF tail rest_ok "2.prems"(3)]
  have stopped: "trimmed p ((n, t) # rest) (here @ rest)" by (rule trimmed_Cons [OF "2.prems"(2) conjunct1 [OF h] trimmed_refl [OF rest_ok]])
  have on: "trimmed p ((n, t) # rest) (here @ others)" by (rule trimmed_Cons [OF "2.prems"(2) conjunct1 [OF h] conjunct1 [OF o]])
  show ?case using "2.prems"(1) entry tail stopped on h o
    by (auto simp: clear_children_Cons split: sum.splits prod.splits)
qed (simp add: trimmed_refl)

text \<open>A clearing that came to its end kept a directory only for what is left out of snapshots or what it reports,
  and reports only what the snapshot neither holds nor could.\<close>

definition accounted_for :: "bool \<Rightarrow> forest \<Rightarrow> rel_path \<Rightarrow> forest \<Rightarrow> rel_path list \<Rightarrow> bool" where
  "accounted_for win source p left report \<longleftrightarrow>
     (\<forall>m r. at_path (m # r) (DirTree left) \<noteq> None \<longrightarrow>
        (\<exists>s. at_path (m # r @ s) (DirTree left) \<noteq> None \<and> (skipped (p @ m # r @ s) \<or> p @ m # r @ s \<in> set report))) \<and>
     (\<forall>q \<in> set report. \<exists>m r x. q = p @ m # r \<and> at_path (m # r) (DirTree left) = Some x \<and> \<not> recorded win x \<and>
        \<not> snapshot_covers source q)"

lemma accounted_Nil: "accounted_for win source p [] []"
  by (simp add: accounted_for_def)

lemma accounted_skipped: "should_skip (p @ [n]) \<Longrightarrow> accounted_for win source p [(n, t)] []"
  using skipped_self [of "p @ [n]"] by (auto simp: accounted_for_def intro!: exI [of _ "[]"] split: if_splits)

lemma accounted_reported:
  assumes "\<And>m r. at_path (m # r) t = None" "\<not> recorded win t" "\<not> snapshot_covers source (p @ [n])" "shallow t = t"
  shows "accounted_for win source p [(n, t)] [p @ [n]]"
proof -
  have leaf: "at_path (m # r) (DirTree [(n, t)]) = Some x \<longleftrightarrow> m = n \<and> r = [] \<and> x = t" for m r x
    using assms(1,4) by (cases r) auto
  then show ?thesis using assms(2,3) by (auto simp: accounted_for_def simp del: at_path_Cons intro!: exI [of _ "[]"])
qed

lemma accounted_dir:
  assumes "accounted_for win source (p @ [n]) ch report" "ch \<noteq> []"
  shows "accounted_for win source p [(n, DirTree ch)] report"
proof -
  obtain k t rest where ch: "ch = (k, t) # rest" using assms(2) by (cases ch) auto
  have some: "at_path (k # []) (DirTree ch) \<noteq> None" by (simp add: ch)
  have inner: "\<exists>s. at_path (m # r @ s) (DirTree ch) \<noteq> None \<and>
      (skipped (p @ n # m # r @ s) \<or> p @ n # m # r @ s \<in> set report)" if "at_path (m # r) (DirTree ch) \<noteq> None" for m r
    using assms(1) that unfolding accounted_for_def by fastforce
  have "\<exists>s. at_path (n # r @ s) (DirTree [(n, DirTree ch)]) \<noteq> None \<and> (skipped (p @ n # r @ s) \<or> p @ n # r @ s \<in> set report)"
    if "at_path r (DirTree ch) \<noteq> None" for r
  proof (cases r)
    case Nil
    from inner [OF some] obtain s where "at_path ((k # []) @ s) (DirTree ch) \<noteq> None"
      "skipped (p @ n # (k # []) @ s) \<or> p @ n # (k # []) @ s \<in> set report" by auto
    then show ?thesis using Nil by (intro exI [of _ "k # s"]) simp
  next
    case (Cons m r')
    then show ?thesis using inner [of m r'] that by fastforce
  qed
  moreover have "\<exists>m r x. q = p @ m # r \<and> at_path (m # r) (DirTree [(n, DirTree ch)]) = Some x \<and> \<not> recorded win x \<and>
      \<not> snapshot_covers source q" if "q \<in> set report" for q
  proof -
    obtain m r x where "q = (p @ [n]) @ m # r" "at_path (m # r) (DirTree ch) = Some x" "\<not> recorded win x" "\<not> snapshot_covers source q"
      using assms(1) \<open>q \<in> set report\<close> unfolding accounted_for_def by blast
    then show ?thesis by (intro exI [of _ n] exI [of _ "m # r"] exI [of _ x]) simp
  qed
  ultimately show ?thesis by (auto simp: accounted_for_def split: if_splits)
qed

lemma accounted_append:
  assumes "fst ` set here \<subseteq> {n}" "n \<notin> fst ` set others"
    and "accounted_for win source p here report" "accounted_for win source p others report'"
  shows "accounted_for win source p (here @ others) (report @ report')"
proof -
  note lookups = at_path_split [OF assms(1,2)]
  have none: "at_path (m # r) (DirTree here) = None" if "m \<noteq> n" for m r
  proof -
    have "map_of here m = None" using that assms(1) by (auto simp: map_of_eq_None_iff)
    then show ?thesis by simp
  qed
  have none': "at_path (n # r) (DirTree others) = None" for r
  proof -
    have "map_of others n = None" using assms(2) by (simp add: map_of_eq_None_iff)
    then show ?thesis by simp
  qed
  show ?thesis
    unfolding accounted_for_def
  proof (intro conjI allI impI ballI)
    fix m r
    assume "at_path (m # r) (DirTree (here @ others)) \<noteq> None"
    then show "\<exists>s. at_path (m # r @ s) (DirTree (here @ others)) \<noteq> None \<and>
        (skipped (p @ m # r @ s) \<or> p @ m # r @ s \<in> set (report @ report'))"
      using assms(3,4) unfolding lookups accounted_for_def by (cases "m = n") (simp_all, blast+)
  next
    fix q
    assume "q \<in> set (report @ report')"
    then consider m r x where "q = p @ m # r" "at_path (m # r) (DirTree here) = Some x" "\<not> recorded win x" "\<not> snapshot_covers source q"
      | m r x where "q = p @ m # r" "at_path (m # r) (DirTree others) = Some x" "\<not> recorded win x" "\<not> snapshot_covers source q"
      using assms(3,4) unfolding accounted_for_def by (auto simp del: at_path_Cons)
    then show "\<exists>m r x. q = p @ m # r \<and> at_path (m # r) (DirTree (here @ others)) = Some x \<and> \<not> recorded win x \<and>
        \<not> snapshot_covers source q"
      unfolding lookups using none none' by cases (metis option.distinct(1))+
  qed
qed

lemma accounted_entry:
  assumes "clear_entry win faults source (p @ [n]) n t = (here, Inr (kept, report))" "distinct_names [(n, t)]" "\<not> skipped p"
    and below: "\<And>ch ch' kept' report'. t = DirTree ch \<Longrightarrow>
      clear_children win faults source (p @ [n]) ch = (ch', Inr (kept', report')) \<Longrightarrow> \<not> skipped (p @ [n]) \<Longrightarrow>
      accounted_for win source (p @ [n]) ch' report'"
  shows "accounted_for win source p here report"
proof (cases "should_skip (p @ [n])")
  case True
  then show ?thesis using assms(1) accounted_skipped by (auto simp: clear_entry_def)
next
  case False
  then have unskipped: "\<not> skipped (p @ [n])" using assms(3) by (auto simp: skipped_iff prefix_snoc)
  show ?thesis
  proof (cases t)
    case (DirTree ch)
    obtain ch' r' where cl: "clear_children win faults source (p @ [n]) ch = (ch', r')" by fastforce
    have ch_ok: "distinct_names ch" using assms(2) DirTree by simp
    have kept: "case r' of Inl _ \<Rightarrow> True | Inr (kept, _) \<Rightarrow> kept = (ch' \<noteq> [])"
      using clear_children_trims [OF cl ch_ok unskipped] by simp
    obtain kept' report' where r': "r' = Inr (kept', report')"
      using assms(1) False cl DirTree by (auto simp: clear_entry_def Let_def split: if_splits sum.splits)
    note b = below [OF DirTree cl [unfolded r'] unskipped]
    have "report' = []" if "ch' = []"
      using b that by (cases report') (auto simp: accounted_for_def)
    then show ?thesis using assms(1) False cl DirTree r' kept accounted_dir [OF b] accounted_Nil
      by (auto simp: clear_entry_def Let_def split: if_splits bool.splits)
  next
    case (FileTree bytes mode)
    then show ?thesis using assms(1) False accounted_Nil by (auto simp: clear_entry_def Let_def split: if_splits)
  next
    case (LinkTree s)
    then show ?thesis using assms(1) False accounted_Nil accounted_reported [of t win source p n]
      by (auto simp: clear_entry_def Let_def recorded_def snapshot_can_capture_symlink_def split: if_splits)
  next
    case (SpecialTree s)
    then show ?thesis using assms(1) False accounted_Nil accounted_reported [of t win source p n]
      by (auto simp: clear_entry_def Let_def recorded_def split: if_splits)
  qed
qed

lemma clear_children_accounts:
  "clear_children win faults source p ch = (ch', Inr (kept, report)) \<Longrightarrow> distinct_names ch \<Longrightarrow> \<not> skipped p \<Longrightarrow>
    accounted_for win source p ch' report"
proof (induction ch arbitrary: p ch' kept report rule: distinct_names.induct)
  case (2 n t rest)
  obtain here k1 r1 others k2 r2 where entry: "clear_entry win faults source (p @ [n]) n t = (here, Inr (k1, r1))"
    and tail: "clear_children win faults source p rest = (others, Inr (k2, r2))"
    and whole: "ch' = here @ others" "report = r1 @ r2"
    using "2.prems"(1) by (auto simp: clear_children_Cons split: sum.splits prod.splits)
  have rest_ok: "distinct_names rest" and one: "distinct_names [(n, t)]" using "2.prems"(2) by simp_all
  have h: "accounted_for win source p here r1"
  proof (rule accounted_entry [OF entry one "2.prems"(3)])
    fix ch ch2 k3 r3
    assume t: "t = DirTree ch" and cl: "clear_children win faults source (p @ [n]) ch = (ch2, Inr (k3, r3))" and s: "\<not> skipped (p @ [n])"
    show "accounted_for win source (p @ [n]) ch2 r3" by (rule "2.IH"(1) [OF t cl _ s]) (use one t in simp)
  qed
  have o: "accounted_for win source p others r2" by (rule "2.IH"(2) [OF tail rest_ok "2.prems"(3)])
  have "trimmed p [(n, t)] here"
  proof (rule conjunct1 [OF trimmed_entry [OF one entry "2.prems"(3)]])
    fix ch ch2 r3
    assume t: "t = DirTree ch" and cl: "clear_children win faults source (p @ [n]) ch = (ch2, r3)" and s: "\<not> skipped (p @ [n])"
    show "trimmed (p @ [n]) ch ch2 \<and> (case r3 of Inl _ \<Rightarrow> True | Inr (kept, _) \<Rightarrow> kept = (ch2 \<noteq> []))"
      by (rule clear_children_trims [OF cl _ s]) (use one t in simp)
  qed
  moreover have "trimmed p rest others" using clear_children_trims [OF tail rest_ok "2.prems"(3)] by simp
  ultimately have "fst ` set here \<subseteq> {n}" "n \<notin> fst ` set others" using "2.prems"(2) by (auto simp: trimmed_def)
  from accounted_append [OF this h o] show ?case by (simp add: whole)
qed (auto simp: accounted_Nil)

section \<open>A restore gives back what the snapshot took\<close>

lemma left_out_Cons:
  "(\<exists>r. r \<noteq> [] \<and> prefix r (m # q) \<and> leave (p @ r)) \<longleftrightarrow> leave (p @ [m]) \<or> (\<exists>r. r \<noteq> [] \<and> prefix r q \<and> leave ((p @ [m]) @ r))"
proof -
  have "(\<exists>r. r \<noteq> [] \<and> prefix r (m # q) \<and> leave (p @ r)) \<longleftrightarrow> (\<exists>s. prefix s q \<and> leave (p @ m # s))"
    by (auto simp: prefix_Cons intro: exI [of _ "m # _"])
  also have "\<dots> \<longleftrightarrow> leave (p @ [m]) \<or> (\<exists>s. s \<noteq> [] \<and> prefix s q \<and> leave (p @ m # s))"
    by (metis Nil_prefix)
  finally show ?thesis by simp
qed

lemma captured_exact:
  "distinct_names ch \<Longrightarrow>
    at_path q (DirTree (captured leave win p ch)) =
      (case at_path q (DirTree ch) of
         None \<Rightarrow> None
       | Some x \<Rightarrow> if recorded win x \<and> \<not> (\<exists>r. r \<noteq> [] \<and> prefix r q \<and> leave (p @ r)) then Some x else None)"
proof (induction ch arbitrary: p q rule: distinct_names.induct)
  case 1
  then show ?case by (cases q) (simp_all add: recorded_def)
next
  case (2 n t rest)
  show ?case
  proof (cases q)
    case Nil
    then show ?thesis by (simp add: recorded_def)
  next
    case (Cons m r)
    have rest_ok: "distinct_names rest" using "2.prems" by simp
    show ?thesis
    proof (cases "m = n")
      case False
      then show ?thesis unfolding Cons captured_at_path [OF "2.prems"] using "2.IH"(2) [OF rest_ok, of "m # r" p] by simp
    next
      case True
      show ?thesis
      proof (cases t)
        case (DirTree ch)
        then have "distinct_names ch" using "2.prems" by simp
        from "2.IH"(1) [OF DirTree this, of r "p @ [n]"] show ?thesis
          unfolding Cons captured_at_path [OF "2.prems"] left_out_Cons
          using True DirTree by (auto split: option.splits)
      next
        case (FileTree bytes mode)
        then show ?thesis unfolding Cons captured_at_path [OF "2.prems"] left_out_Cons
          using True by (cases r) (auto simp: recorded_def)
      next
        case (LinkTree s)
        then show ?thesis unfolding Cons captured_at_path [OF "2.prems"] left_out_Cons
          using True by (cases r) (auto simp: recorded_def)
      next
        case (SpecialTree s)
        then show ?thesis unfolding Cons captured_at_path [OF "2.prems"] left_out_Cons
          using True by (cases r) (auto simp: recorded_def)
      qed
    qed
  qed
qed

text \<open>Directories that list a name once stay so.\<close>

definition distinct_tree :: "Tree \<Rightarrow> bool" where
  "distinct_tree t = (case t of DirTree ch \<Rightarrow> distinct_names ch | _ \<Rightarrow> True)"

lemma distinct_names_lookup: "distinct_names ch \<Longrightarrow> map_of ch n = Some t \<Longrightarrow> distinct_tree t"
  by (induction ch rule: distinct_names.induct) (auto simp: distinct_tree_def split: if_splits)

lemma distinct_names_update: "distinct_names ch \<Longrightarrow> distinct_tree x \<Longrightarrow> distinct_names (AList.update n x ch)"
  by (induction ch rule: distinct_names.induct) (auto simp: distinct_tree_def dom_update)

lemma write_at_distinct:
  "write_at leaf r t = Wrote t' \<Longrightarrow> (\<And>t y. leaf t = Wrote y \<Longrightarrow> pred_option distinct_tree t \<Longrightarrow> distinct_tree y) \<Longrightarrow>
    pred_option distinct_tree t \<Longrightarrow> distinct_tree t'"
proof (induction r arbitrary: t t')
  case (Cons n r)
  show ?case
  proof (cases t)
    case None
    then obtain x where x: "write_at leaf r None = Wrote x" "t' = DirTree [(n, x)]" using Cons.prems(1) by (auto split: Write.splits)
    have "distinct_tree x" by (rule Cons.IH [OF x(1)]) (use Cons.prems(2) in simp_all)
    then show ?thesis using x(2) by (simp add: distinct_tree_def)
  next
    case (Some d)
    then obtain ch x where d: "d = DirTree ch" "write_at leaf r (map_of ch n) = Wrote x" "t' = DirTree (AList.update n x ch)"
      using Cons.prems(1) by (auto split: Tree.splits Write.splits)
    have ok: "distinct_names ch" using Cons.prems(3) Some d by (simp add: distinct_tree_def)
    then have inner: "pred_option distinct_tree (map_of ch n)" using distinct_names_lookup by (cases "map_of ch n") auto
    have "distinct_tree x"
    proof (rule Cons.IH [OF d(2)])
      show "leaf t = Wrote y \<Longrightarrow> pred_option distinct_tree t \<Longrightarrow> distinct_tree y" for t y by (rule Cons.prems(2))
    qed (rule inner)
    then show ?thesis using ok distinct_names_update d(3) by (simp add: distinct_tree_def [of "DirTree _"])
  qed
qed simp

lemma copy_entry_distinct: "copy_entry env q t d = (d', e) \<Longrightarrow> distinct_tree d \<Longrightarrow> distinct_tree d'"
  by (cases t)
    (auto simp: copy_entry_def written_def make_dir_wrote put_file_wrote put_link_wrote distinct_tree_def [of "DirTree []"]
        distinct_tree_def [of "FileTree _ _"] distinct_tree_def [of "LinkTree _"]
      elim!: write_at_distinct split: if_splits Write.splits option.splits prod.splits)

lemma copy_children_distinct:
  "copy_children env p ch st = (st', r) \<Longrightarrow> distinct_tree (snd st) \<Longrightarrow> distinct_tree (snd st')"
proof (induction ch arbitrary: p st st' r rule: distinct_names.induct)
  case (2 n t rest)
  let ?c = "if ce_mode env = CopySnapshot then fst st + 1 else fst st"
  obtain d e where entry: "copy_entry env (p @ [n]) t (snd st) = (d, e)" by fastforce
  then have d: "distinct_tree d" using copy_entry_distinct "2.prems"(2) by blast
  show ?case
  proof (cases "\<exists>ch. t = DirTree ch")
    case True
    then obtain ch where t: "t = DirTree ch" by blast
    obtain st2 r2 where below: "copy_children env (p @ [n]) ch (?c, d) = (st2, r2)" by fastforce
    then have "distinct_tree (snd st2)" using "2.IH"(1) [OF t below] d by simp
    then show ?thesis using "2.prems" entry below "2.IH"(2) d unfolding t
      by (auto simp: Let_def split: if_splits option.splits sum.splits CopyStatus.splits)
  next
    case False
    then show ?thesis using "2.prems" entry d "2.IH"(2)
      by (cases t) (auto simp: Let_def split: if_splits option.splits)
  qed
qed simp

text \<open>The tree a snapshot publishes.\<close>

lemma prune_keeps:
  "fold (prune_one faults) ids st = st' \<Longrightarrow>
    set (snd st) \<subseteq> set (snd st') \<and>
    (n \<notin> set (snd st') \<longrightarrow> map_of (fst st') n = Some t \<longrightarrow> map_of (fst st) n = Some t)"
proof (induction ids arbitrary: st)
  case (Cons i ids)
  note ih = Cons.IH [of "prune_one faults i st"]
  have gone: "map_of (filter (\<lambda>(k, _). k \<noteq> i) xs) n = (if n = i then None else map_of xs n)" for xs :: forest
    by (induction xs) auto
  show ?case using ih Cons.prems by (cases "df_prune faults i") (auto simp: prune_one_def remove_dir_all_def gone map_of_update split: if_splits)
qed simp

definition takes :: "bool \<Rightarrow> forest \<Rightarrow> forest \<Rightarrow> bool" where
  "takes win workspace source \<longleftrightarrow> distinct_names source \<and>
     (\<forall>q. at_path q (DirTree source) =
        (case at_path q (DirTree workspace) of None \<Rightarrow> None | Some x \<Rightarrow> if recorded win x \<and> \<not> skipped q then Some x else None))"

lemma copy_tree_takes:
  assumes "copy_tree env workspace None = ((copied, made), Inr CopyDone)" "ce_mode env = CopySnapshot" "distinct_names workspace"
  shows "\<exists>source. made = Some (DirTree source) \<and> takes (ce_win env) workspace source"
proof -
  obtain st where st: "copy_children env [] workspace (0, DirTree []) = (st, Inr CopyDone)" "made = Some (snd st)"
    using assms(1) by (auto simp: copy_tree_def make_dir_def split: if_splits prod.splits)
  have dest: "dir_at [] (snd (0::nat, DirTree []))" by simp
  note copied = copy_children_overlays [OF st(1) assms(3) dest]
  have leave: "leaves_out env = should_skip" using assms(2) by (auto simp: leaves_out_def)
  have skip: "(\<exists>r. r \<noteq> [] \<and> prefix r q \<and> should_skip ([] @ r)) \<longleftrightarrow> skipped q" for q
    by (auto simp: skipped_iff) (metis should_skip_Nil)
  have "at_path q (snd st) = at_path q (DirTree (captured should_skip (ce_win env) [] workspace))" for q
    using copied [of q] leave by (cases q) (auto simp: overlay_def split: option.splits)
  moreover obtain source where "snd st = DirTree source" using copied [of "[]"] by (cases "snd st") auto
  moreover have "distinct_tree (snd st)" using copy_children_distinct [OF st(1)] by (simp add: distinct_tree_def)
  moreover have "at_path q (DirTree (captured should_skip (ce_win env) [] workspace)) =
      (case at_path q (DirTree workspace) of None \<Rightarrow> None | Some x \<Rightarrow> if recorded (ce_win env) x \<and> \<not> skipped q then Some x else None)"
    for q using captured_exact [OF assms(3), of q should_skip "ce_win env" "[]"] unfolding skip .
  ultimately show ?thesis using st(2) by (auto simp: takes_def distinct_tree_def)
qed

lemma snapshot_takes:
  assumes "snapshot win faults token label now cs = (cs', Inr (SnapshotCreated i warnings))"
    and "distinct_names (cs_workspace cs)" "map_of (cs_storage cs) (staging_name i) = None"
    and "i \<notin> set warnings" "map_of (cs_storage cs') i = Some t"
  shows "cs_workspace cs' = cs_workspace cs \<and> (\<exists>source. t = DirTree source \<and> takes win (cs_workspace cs) source)"
proof -
  let ?staging = "staging_name i"
  let ?env = "\<lparr>ce_mode = CopySnapshot, ce_win = win, ce_budget = Some MAX_SNAPSHOT_ENTRIES, ce_token = token, ce_faults = faults\<rparr>"
  obtain copied made storage where i: "i = snapshot_id label now"
    and made: "copy_tree ?env (cs_workspace cs) None = ((copied, made), Inr CopyDone)"
    and renamed: "rename_dir faults ?staging i (case made of None \<Rightarrow> cs_storage cs | Some t \<Rightarrow> AList.update ?staging t (cs_storage cs)) = Some storage"
    and pruned: "prune_old_snapshots faults (cs_max cs) storage = (cs_storage cs', warnings)"
    and same: "cs_workspace cs' = cs_workspace cs"
    using assms(1,3)
    by (auto simp: snapshot_def Let_def split: option.splits if_splits prod.splits sum.splits CopyStatus.splits)
  have "distinct_names (cs_workspace cs)" by (rule assms(2))
  from copy_tree_takes [OF made _ this] obtain source where source: "made = Some (DirTree source)" "takes win (cs_workspace cs) source"
    by auto
  have staged: "map_of storage i = Some (DirTree source)"
    using renamed source(1) by (auto simp: rename_dir_def map_of_update split: if_splits option.splits)
  have "map_of storage i = Some t"
    using pruned assms(4,5) prune_keeps [where st = "(storage, [])" and st' = "(cs_storage cs', warnings)" and n = i and t = t]
    by (auto simp: prune_old_snapshots_def split: if_splits sum.splits)
  then have "t = DirTree source" using staged by simp
  then show ?thesis using source(2) same by blast
qed

lemma captured_whole:
  assumes "takes win workspace source"
  shows "at_path q (DirTree (captured (\<lambda>_. False) win [] source)) = at_path q (DirTree source)"
  using captured_exact [of source q "\<lambda>_. False" win "[]"] assms by (auto simp: takes_def split: option.splits)

lemma restore_never_aborts: "ce_mode env = CopyRestore \<Longrightarrow> copy_children env p ch st \<noteq> (st', Inr CopyAborted)"
proof (induction ch arbitrary: p st st' rule: distinct_names.induct)
  case (2 n t rest)
  obtain d e where entry: "copy_entry env (p @ [n]) t (snd st) = (d, e)" by fastforce
  show ?case
  proof (cases "\<exists>ch. t = DirTree ch")
    case True
    then obtain ch where t: "t = DirTree ch" by blast
    obtain st2 r2 where below: "copy_children env (p @ [n]) ch (fst st, d) = (st2, r2)" by fastforce
    then have "r2 \<noteq> Inr CopyAborted" using "2.IH"(1) [OF t "2.prems", of "p @ [n]" "(fst st, d)" st2] by auto
    then show ?thesis using entry below "2.IH"(2) "2.prems" unfolding t
      by (auto simp: Let_def stops_copy_def split: option.splits sum.splits CopyStatus.splits)
  next
    case False
    then show ?thesis using entry "2.IH"(2) "2.prems"
      by (cases t) (auto simp: Let_def stops_copy_def split: option.splits)
  qed
qed simp

lemma restore_result:
  assumes "restore win faults i cs = (cs', Inr kept)" "distinct_names (cs_workspace cs)"
    and "map_of (cs_storage cs) i = Some (DirTree source)" "distinct_names source"
  shows "\<exists>left report. trimmed [] (cs_workspace cs) left \<and> accounted_for win source [] left report \<and>
    set kept = join_with ''/'' ` set report \<and>
    (\<forall>q. at_path q (DirTree (cs_workspace cs')) = overlay [] (captured (\<lambda>_. False) win [] source) (DirTree left) q)"
proof -
  let ?env = "\<lparr>ce_mode = CopyRestore, ce_win = win, ce_budget = None, ce_token = (\<lambda>_. False), ce_faults = faults\<rparr>"
  obtain left k report made n st where cleared: "clear_children win faults source [] (cs_workspace cs) = (left, Inr (k, report))"
    and copied: "copy_tree ?env source (Some (DirTree left)) = ((n, made), Inr st)"
    and whole: "cs' = cs\<lparr>cs_workspace := children made\<rparr>" "kept = sort (map (join_with ''/'') report)"
    using assms(1,3)
    by (auto simp: restore_def clear_workspace_contents_def split: if_splits option.splits prod.splits sum.splits)
  have top: "\<not> skipped []" by (simp add: skipped_iff)
  obtain st' where children: "copy_children ?env [] source (0, DirTree left) = (st', Inr st)" "made = Some (snd st')"
    using copied by (auto simp: copy_tree_def make_dir_def split: if_splits prod.splits)
  have "st = CopyDone" using restore_never_aborts [of ?env "[]" source "(0, DirTree left)" st'] children(1) by (cases st) auto
  then have "at_path q (snd st') = overlay [] (captured (leaves_out ?env) win [] source) (DirTree left) q" for q
    using copy_children_overlays [OF children(1) [unfolded \<open>st = CopyDone\<close>] assms(4), of q] by simp
  moreover have "leaves_out ?env = (\<lambda>_. False)" by (auto simp: leaves_out_def)
  moreover obtain ch where "snd st' = DirTree ch" using calculation(1) [of "[]"] by (cases "snd st'") auto
  moreover have "trimmed [] (cs_workspace cs) left" using clear_children_trims [OF cleared assms(2) top] by simp
  moreover have "accounted_for win source [] left report" by (rule clear_children_accounts [OF cleared assms(2) top])
  ultimately show ?thesis using whole children(2) by (intro exI [of _ left] exI [of _ report]) (simp add: children_def)
qed


definition demo_faults :: DiskFaults where
  "demo_faults = \<lparr>df_owned = (\<lambda>_. True), df_unreadable = (\<lambda>_. False), df_mkdir = (\<lambda>_. False), df_copy = (\<lambda>_ _. CopiedWhole),
     df_link = (\<lambda>_. False), df_cleanup = None, df_rename = False, df_read_storage = False, df_prune = (\<lambda>_. None),
     df_read_dir = (\<lambda>_. False), df_remove = (\<lambda>_. False)\<rparr>"

definition demo_store :: CheckpointStore where
  "demo_store = \<lparr>cs_workspace = [(''a'', FileTree ''1'' 6), (''s'', DirTree [(''l'', LinkTree ''a''), (''venv'', DirTree [])])],
     cs_storage = [], cs_max = 20, cs_oversized = False\<rparr>"

definition demo_later :: forest where
  "demo_later = [(''a'', DirTree []), (''s'', DirTree [(''venv'', DirTree [(''x'', FileTree ''2'' 6)])]), (''pipe'', SpecialTree ''fifo'')]"

lemma demo_id: "snapshot_id ''t'' (Some 5) = ''t_5''"
  by code_simp

lemma demo_name: "is_snapshot_name ''t_5''" "validate_checkpoint_id ''t_5''"
  by code_simp+

lemmas demo_simps = demo_store_def demo_faults_def demo_later_def demo_id demo_name staging_name_def ensure_owned_storage_def Let_def copy_tree_def
  make_dir_def stops_copy_def copy_entry_def written_def put_file_def put_link_def copy_file_retrying_def should_skip_def
  SKIP_DIRS_def SKIP_DIRS_TOP_LEVEL_def snapshot_can_capture_symlink_def rename_dir_def prune_old_snapshots_def
  list_checkpoints_def snapshot_names_def MAX_SNAPSHOT_ENTRIES_def CANCEL_CHECK_INTERVAL_def

lemma demo_snapshot:
  "snapshot False demo_faults (\<lambda>_. False) ''t'' (Some 5) demo_store =
     (demo_store\<lparr>cs_storage := [(''t_5'', DirTree [(''a'', FileTree ''1'' 6), (''s'', DirTree [(''l'', LinkTree ''a'')])])]\<rparr>,
      Inr (SnapshotCreated ''t_5'' []))"
  by (simp add: snapshot_def demo_simps)

lemma demo_restore:
  "restore False demo_faults ''t_5''
     (demo_store\<lparr>cs_storage := [(''t_5'', DirTree [(''a'', FileTree ''1'' 6), (''s'', DirTree [(''l'', LinkTree ''a'')])])]\<rparr>
       \<lparr>cs_workspace := demo_later\<rparr>) =
     (demo_store\<lparr>cs_storage := [(''t_5'', DirTree [(''a'', FileTree ''1'' 6), (''s'', DirTree [(''l'', LinkTree ''a'')])])],
        cs_workspace := [(''s'', DirTree [(''venv'', DirTree [(''x'', FileTree ''2'' 6)]), (''l'', LinkTree ''a'')]),
          (''pipe'', SpecialTree ''fifo''), (''a'', FileTree ''1'' 6)]\<rparr>,
      Inr [''pipe''])"
  by (simp add: restore_def clear_workspace_contents_def clear_children_Cons clear_entry_def snapshot_covers_def children_def demo_simps)


section \<open>What a snapshot or a restore never does\<close>

text \<open>A staging directory is never taken for a snapshot.\<close>

lemma staging_unlisted: "\<not> is_snapshot_name (staging_name i)"
  by (simp add: staging_name_def is_snapshot_name_def validate_checkpoint_id_def id_char_def is_ascii_alphanumeric_def is_ascii_alphabetic_def
      is_ascii_lowercase_def is_ascii_uppercase_def is_ascii_digit_def)

definition listable :: "forest \<Rightarrow> forest" where
  "listable storage = filter (\<lambda>(n, _). is_snapshot_name n) storage"

lemma listable_update: "\<not> is_snapshot_name n \<Longrightarrow> listable (AList.update n x storage) = listable storage"
  by (induction storage) (auto simp: listable_def)

lemma listable_remove: "\<not> is_snapshot_name n \<Longrightarrow> listable (filter (\<lambda>(m, _). m \<noteq> n) storage) = listable storage"
  by (induction storage) (auto simp: listable_def)

lemma listable_lookup: "is_snapshot_name n \<Longrightarrow> map_of (listable storage) n = map_of storage n"
  by (induction storage) (auto simp: listable_def)




text \<open>A turn that is live or waits, or a process that runs, keeps the workspace from being taken back.\<close>

lemma restore_refused:
  assumes "restore_checkpoint win faults waited turn_live turn_parked i jobs store = ((jobs', store'), r)"
    and "turn_live \<or> turn_parked \<or>
      (case jobs of None \<Rightarrow> False | Some js \<Rightarrow> list_ex (\<lambda>(_, e). je_status e = Running) (jb_jobs (refresh_all waited js)))"
  shows "store' = store \<and> (\<exists>e. r = Inl e)"
  using assms
  by (auto simp: restore_checkpoint_def idle_workspace_def Let_def list_ex_iff split: option.splits if_splits prod.splits)

section \<open>Retention\<close>

text \<open>Where every removal succeeds, pruning leaves at most as many snapshots as the store is to keep; the ones it removes
  are no newer than any it keeps, and nothing else in the storage is touched.\<close>

lemma prune_removes:
  "fold (prune_one faults) ids (storage, ws) = (storage', ws') \<Longrightarrow> ws' = ws \<Longrightarrow>
    storage' = filter (\<lambda>(n, _). n \<notin> set ids) storage"
proof (induction ids arbitrary: storage ws)
  case Nil
  then show ?case by (simp add: case_prod_beta filter_True)
next
  case (Cons i ids)
  have grows: "length (snd st) \<le> length (snd (fold (prune_one faults) ids st))" for st
  proof (induction ids arbitrary: st)
    case (Cons k ids)
    have "length (snd st) \<le> length (snd (prune_one faults k st))" by (simp add: prune_one_def)
    also have "\<dots> \<le> length (snd (fold (prune_one faults) ids (prune_one faults k st)))" by (rule Cons.IH)
    finally show ?case by simp
  qed simp
  have "df_prune faults i = None"
  proof (rule ccontr)
    assume "df_prune faults i \<noteq> None"
    then have "length ws + 1 \<le> length ws'"
      using grows [of "prune_one faults i (storage, ws)"] Cons.prems(1) by (auto simp: prune_one_def [of faults i])
    then show False using Cons.prems(2) by simp
  qed
  then have "fold (prune_one faults) ids (filter (\<lambda>(n, _). n \<noteq> i) storage, ws) = (storage', ws')"
    using Cons.prems(1) by (simp add: prune_one_def [of faults i] remove_dir_all_def)
  from Cons.IH [OF this Cons.prems(2)] show ?case by (simp add: case_prod_beta conj_commute)
qed

lemma names_filter:
  "snapshot_names (filter (\<lambda>(n, _). n \<notin> N) storage) = filter (\<lambda>n. n \<notin> N) (snapshot_names storage)"
  by (induction storage) (auto simp: snapshot_names_def)

theorem prune_keeps_newest:
  assumes "prune_old_snapshots faults max_snapshots storage = (storage', [])" "0 < max_snapshots"
    and "df_owned faults 1" "\<not> df_read_storage faults" "distinct (map fst storage)"
  shows "length (snapshot_names storage') \<le> max_snapshots \<and>
    (\<exists>old. storage' = filter (\<lambda>(n, _). n \<notin> set old) storage \<and>
       list_all (\<lambda>n. n \<in> set (snapshot_names storage) \<and>
         list_all (\<lambda>k. snapshot_timestamp n \<le> snapshot_timestamp k) (snapshot_names storage')) old)"
proof -
  let ?names = "snapshot_names storage"
  let ?ids = "sort_key snapshot_timestamp (sort ?names)"
  let ?old = "take (length ?names - max_snapshots) ?ids"
  have distinct: "distinct ?names" using assms(5) by (simp add: snapshot_names_def distinct_map_filter)
  then have ids: "distinct ?ids" "set ?ids = set ?names" "length ?ids = length ?names" by simp_all
  show ?thesis
  proof (cases "length ?names \<le> max_snapshots")
    case True
    then have "storage' = storage"
      using assms(1-4) by (simp add: prune_old_snapshots_def list_checkpoints_def ensure_owned_storage_def)
    then show ?thesis using True by (intro conjI exI [of _ "[]"]) (simp_all add: case_prod_beta filter_True)
  next
    case False
    then have "fold (prune_one faults) ?old (storage, []) = (storage', [])"
      using assms(1-4) by (simp add: prune_old_snapshots_def list_checkpoints_def ensure_owned_storage_def)
    from prune_removes [OF this refl] have left: "storage' = filter (\<lambda>(n, _). n \<notin> set ?old) storage" .
    then have names: "snapshot_names storage' = filter (\<lambda>n. n \<notin> set ?old) ?names" by (simp add: names_filter)
    have "set (snapshot_names storage') = set (drop (length ?names - max_snapshots) ?ids)"
    proof -
      have "set ?old \<inter> set (drop (length ?names - max_snapshots) ?ids) = {}" using ids(1) by (rule set_take_disj_set_drop_if_distinct) simp
      moreover have "set ?names = set ?old \<union> set (drop (length ?names - max_snapshots) ?ids)"
        using ids(2) by (metis append_take_drop_id set_append)
      ultimately show ?thesis unfolding names by auto
    qed
    moreover have "distinct (snapshot_names storage')" using distinct names by simp
    ultimately have len: "length (snapshot_names storage') = length (drop (length ?names - max_snapshots) ?ids)"
      using ids(1) by (metis distinct_card distinct_drop)
    have "sorted (map snapshot_timestamp (?old @ drop (length ?names - max_snapshots) ?ids))" by simp
    then have sorted: "sorted (map snapshot_timestamp ?old @ map snapshot_timestamp (drop (length ?names - max_snapshots) ?ids))"
      unfolding map_append .
    have "snapshot_timestamp n \<le> snapshot_timestamp k"
      if "n \<in> set ?old" "k \<in> set (drop (length ?names - max_snapshots) ?ids)" for n k
      using sorted that unfolding sorted_append by (auto simp del: take_map drop_map)
    then show ?thesis
      using len left ids(2,3) False \<open>set (snapshot_names storage') = _\<close>
      by (intro conjI exI [of _ ?old]) (auto simp: list_all_iff dest: in_set_takeD)
  qed
qed

section \<open>Where the code falls short\<close>

text \<open>The staging directory is made by a call that accepts one that is there, and follows a link to one: whoever
  puts a link under the name of the next snapshot has the whole workspace copied to where it points.\<close>

lemma staging_followed:
  assumes "df_owned faults 0" "\<not> cs_oversized cs" "\<not> df_mkdir faults []"
    and "map_of (cs_storage cs) (staging_name (snapshot_id label now)) = Some (LinkTree s)"
  shows "snd (snapshot win faults token label now cs) = Inl (WroteThrough [])"
  using assms by (simp add: snapshot_def Let_def ensure_owned_storage_def copy_tree_def make_dir_def)

text \<open>A snapshot whose removal fails half-way can still be listed, and a restore to it puts back only the rest.\<close>

lemma half_pruned_listed:
  assumes "is_snapshot_name i" "df_prune faults i = Some left"
  shows "map_of (listable (fst (prune_one faults i (storage, ws)))) i = Some (DirTree left)"
  using assms by (simp add: prune_one_def remove_dir_all_def listable_lookup map_of_update)

text \<open>With a clock that went back the new snapshot is the oldest, and is removed as soon as it is reported.\<close>

lemma created_and_pruned:
  "let cs = \<lparr>cs_workspace = [], cs_storage = [(''t_9'', DirTree [])], cs_max = 1, cs_oversized = False\<rparr> in
   snapshot False demo_faults (\<lambda>_. False) ''t'' (Some 5) cs = (cs, Inr (SnapshotCreated ''t_5'' []))"
proof -
  have "snapshot_timestamp ''t_5'' = 5" "snapshot_timestamp ''t_9'' = 9"
    by (simp_all add: snapshot_timestamp_def parse_u128_def last_part_def Let_def decimal_value_def digit_value_def is_ascii_digit_def)
  moreover have "is_snapshot_name ''t_9''" by code_simp
  ultimately show ?thesis by (simp add: snapshot_def demo_simps prune_one_def remove_dir_all_def)
qed

end
