(* ===== verification/Turn_Loop.thy ===== *)
theory Turn_Loop
  imports Tool_Batch Compaction Provider_Stream Checkpoints
begin

text \<open>
  A turn, \<^verbatim>\<open>runtime/turn_loop.rs\<close>, \<^verbatim>\<open>runtime/state.rs\<close>, \<^verbatim>\<open>runtime/telemetry.rs\<close>, \<^verbatim>\<open>runtime/checkpoints.rs\<close>,
  \<^verbatim>\<open>runtime/turn_handle.rs\<close> and the turn's entry points of \<^verbatim>\<open>runtime.rs\<close>: its start, the loop of requests and
  tool batches with its budget, compaction, steering and recovery from a refused request, the parks on an
  approval, and the events its one consumer sees.

  The loop composes the other parts: the route (\<open>Model_Route\<close>), the compaction, the images, the guarded stream
  and the tool batch are the definitions of their theories. As in \<open>Tool_Batch\<close>, whatever another task can change
  between two steps is a function of the number of looks taken (\<open>rt_clock\<close>): whether the turn is still the current
  one and its token not cancelled, whether a newer turn has taken the budget, what became of the steering queue,
  of the session while the summarizer wrote. Costs in money are left out; the events of a fold and of a tool's
  progress are too. A cancellation while a request is being opened is seen when the result ends, its requests
  counted whole.
\<close>

section \<open>State\<close>

record UserTurn =
  ut_text :: rstr
  ut_images :: "rstr list"

datatype Steered = SteeredUser UserTurn | SteeredNotice rstr

record TurnBudget =
  tb_turn :: TurnId
  tb_steps :: "32 word"
  tb_overflow_rescued :: bool
  tb_wrap_up_sent :: bool

definition new_budget :: "TurnId \<Rightarrow> TurnBudget" where
  "new_budget turn = \<lparr>tb_turn = turn, tb_steps = 0, tb_overflow_rescued = False, tb_wrap_up_sent = False\<rparr>"

datatype PrefixStatus = FirstTurn | Stable | Changed

record PrefixProbe =
  pp_status :: PrefixStatus
  pp_carried :: "nat \<times> 64 word"

record TurnTelemetry =
  tt_route_label :: RouteLabel
  tt_effective_model :: rstr
  tt_reasoning_effort :: rstr
  tt_prompt_tokens :: "32 word"
  tt_completion_tokens :: "32 word"
  tt_cache_hit :: "32 word option"
  tt_cache_miss :: "32 word option"
  tt_session_cache_hit :: "32 word"
  tt_session_cache_miss :: "32 word"
  tt_prefix_status :: PrefixStatus
  tt_route_source :: rstr
  tt_cascade_triggered :: bool
  tt_context_window :: "32 word"
  tt_estimated_context :: "32 word"
  tt_context_percent :: "64 word"
  tt_near_threshold :: bool
  tt_used_fallback :: bool
  tt_stream_retries :: "32 word"

datatype FailureKind = ExecutionFailure | StepLimit

datatype TurnErrorText =
    StepLimitReached "32 word"
  | ContextOverflow "32 word"
  | ProviderSaid rstr
  | ProviderFailed AgentError
  | BadToolCall ToolError

datatype TurnWarning = OverflowRescued | SnapshotFailed rstr CheckpointError | CheckpointsTooLarge | OtherWarning rstr

datatype TurnEvent =
    FromBatch RuntimeEvent
  | TurnStarted rstr
  | AssistantDelta rstr
  | ReasoningText rstr
  | ToolCallUpdated rstr "rstr option"
  | ToolCallStarted ToolCall
  | UserMessageInjected rstr
  | CheckpointCreated rstr rstr
  | TurnWarned TurnWarning
  | TurnFinished "Usage option" TurnTelemetry
  | TurnFailed FailureKind TurnErrorText

record 'w Turn =
  tl_rt :: "'w Runtime"
  tl_prompt :: "UserTurn option"
  tl_open :: bool
  tl_turns_closed :: nat
  tl_budget :: "TurnBudget option"
  tl_steering :: "Steered list"
  tl_attempts :: Attempts
  tl_wire :: Wire
  tl_last_prefix :: "(nat \<times> 64 word) option"
  tl_turn_cache_hit :: "64 word"
  tl_turn_cache_miss :: "64 word"
  tl_session_cache_hit :: "64 word"
  tl_session_cache_miss :: "64 word"
  tl_checkpoints :: "rstr list"
  tl_events :: "TurnEvent list"

record 'w TurnEnv =
  te_env :: "'w Env"
  te_turn :: TurnId
  te_config :: AgentConfig
  te_catalog :: "ModelInfo list"
  te_to_lower :: "codes \<Rightarrow> codes"
  te_is_subagent :: bool
  te_net :: Net
  te_texts :: Texts
  te_from_str :: "rstr \<Rightarrow> rstr + Value"
  te_base64 :: "rstr \<Rightarrow> rstr"
  te_images :: "nat \<Rightarrow> ImageDisk"
  te_serialized :: "ChatRequest \<Rightarrow> nat option"
  te_estimate :: "Message list \<Rightarrow> 32 word"
  te_estimate_request :: "WireMessage list \<Rightarrow> 32 word"
  te_fingerprint :: "WireMessage list \<Rightarrow> 64 word"
  te_handover :: "nat \<Rightarrow> CompactionPlan \<Rightarrow> HandoverError + rstr \<times> bool"
  te_meanwhile :: "nat \<Rightarrow> Session \<Rightarrow> Session"
  te_storage_pressure :: "nat \<Rightarrow> bool"
  te_queue :: "nat \<Rightarrow> Steered list \<Rightarrow> Steered list"
  te_newer_turn :: "nat \<Rightarrow> bool"
  te_some_turn :: "nat \<Rightarrow> bool"
  te_snapshot :: "(CheckpointError + SnapshotOutcome) option"
  te_lsp_warnings :: "nat \<Rightarrow> rstr list"
  te_wrap_up :: "32 word \<Rightarrow> 32 word \<Rightarrow> rstr"

definition clock :: "'w Turn \<Rightarrow> nat" where
  "clock st = rt_clock (tl_rt st)"

definition glance :: "'w Turn \<Rightarrow> 'w Turn" where
  "glance st = st\<lparr>tl_rt := tick (tl_rt st)\<rparr>"

definition say :: "TurnEvent \<Rightarrow> 'w Turn \<Rightarrow> 'w Turn" where
  "say event st = st\<lparr>tl_events := tl_events st @ [event]\<rparr>"

definition is_current :: "'w TurnEnv \<Rightarrow> 'w Turn \<Rightarrow> bool" where
  "is_current te st = e_turn_is_current (te_env te) (clock st)"

definition is_cancelled :: "'w TurnEnv \<Rightarrow> 'w Turn \<Rightarrow> bool" where
  "is_cancelled te st = e_token_cancelled (te_env te) (clock st)"

text \<open>What the tool batch did, its events taken over in order.\<close>

definition absorb :: "'w Runtime \<Rightarrow> 'w Turn \<Rightarrow> 'w Turn" where
  "absorb rt st = st\<lparr>tl_rt := rt\<lparr>rt_events := []\<rparr>, tl_events := tl_events st @ map FromBatch (rt_events rt)\<rparr>"

definition with_session :: "Session \<Rightarrow> 'w Turn \<Rightarrow> 'w Turn" where
  "with_session s st = st\<lparr>tl_rt := (tl_rt st)\<lparr>rt_session := s\<rparr>\<rparr>"

definition session_of :: "'w Turn \<Rightarrow> Session" where
  "session_of st = rt_session (tl_rt st)"

section \<open>The budget of a turn\<close>

definition budget_wrap_up_due :: "32 word \<Rightarrow> 32 word \<Rightarrow> bool \<Rightarrow> bool" where
  "budget_wrap_up_due used limit already_sent \<longleftrightarrow>
     \<not> already_sent \<and> 0 < limit \<and> saturating_mul_u32 limit 4 div 5 \<le> used"

definition owned_budget :: "'w TurnEnv \<Rightarrow> 'w Turn \<Rightarrow> TurnBudget option" where
  "owned_budget te st =
     (case tl_budget st of
        None \<Rightarrow> None
      | Some budget \<Rightarrow> if tb_turn budget \<noteq> te_turn te \<or> te_newer_turn te (clock st) then None else Some budget)"

text \<open>A budget found to be another turn's stays so.\<close>

definition spend_step :: "'w TurnEnv \<Rightarrow> 'w Turn \<Rightarrow> 'w Turn \<times> (32 word \<times> bool \<times> bool) option" where
  "spend_step te st =
     (case owned_budget te st of
        None \<Rightarrow> ((glance st)\<lparr>tl_budget := None\<rparr>, None)
      | Some budget \<Rightarrow>
          (let budget = budget\<lparr>tb_steps := tb_steps budget + 1\<rparr> in
           ((glance st)\<lparr>tl_budget := Some budget\<rparr>,
            Some (tb_steps budget, tb_wrap_up_sent budget, tb_overflow_rescued budget))))"

definition mark_wrap_up_sent :: "'w TurnEnv \<Rightarrow> 'w Turn \<Rightarrow> 'w Turn" where
  "mark_wrap_up_sent te st =
     (glance st)\<lparr>tl_budget := map_option (\<lambda>budget. budget\<lparr>tb_wrap_up_sent := True\<rparr>) (owned_budget te st)\<rparr>"

definition mark_overflow_rescued :: "'w TurnEnv \<Rightarrow> 'w Turn \<Rightarrow> 'w Turn" where
  "mark_overflow_rescued te st =
     (glance st)\<lparr>tl_budget := map_option (\<lambda>budget. budget\<lparr>tb_overflow_rescued := True\<rparr>) (owned_budget te st)\<rparr>"

section \<open>The end of a turn\<close>

definition finish_turn :: "'w TurnEnv \<Rightarrow> 'w Turn \<Rightarrow> 'w Turn" where
  "finish_turn te st =
     (if \<not> is_current te st then glance st
      else if tl_open st
      then (glance st)\<lparr>tl_open := False, tl_prompt := None, tl_turns_closed := tl_turns_closed st + 1\<rparr>
      else glance st)"

definition abort_turn :: "'w TurnEnv \<Rightarrow> 'w Turn \<Rightarrow> 'w Turn" where
  "abort_turn te st = finish_turn te st"

definition finish_turn_cancelled :: "'w TurnEnv \<Rightarrow> 'w Turn \<Rightarrow> 'w Turn" where
  "finish_turn_cancelled te st = say (FromBatch TurnCancelled) (finish_turn te st)"

definition fail_turn :: "'w TurnEnv \<Rightarrow> FailureKind \<Rightarrow> TurnErrorText \<Rightarrow> 'w Turn \<Rightarrow> 'w Turn" where
  "fail_turn te kind why st = abort_turn te (say (TurnFailed kind why) st)"

section \<open>Steering\<close>

definition steer :: "bool \<Rightarrow> UserTurn \<Rightarrow> Steered list \<Rightarrow> bool \<times> Steered list" where
  "steer some_turn prompt queue =
     (if \<not> some_turn then (False, queue) else (True, queue @ [SteeredUser prompt]))"

definition steer_notice :: "'w TurnEnv \<Rightarrow> rstr \<Rightarrow> 'w Turn \<Rightarrow> 'w Turn" where
  "steer_notice te notice st =
     (let queue = te_queue te (clock st) (tl_steering st) in
      if \<not> te_some_turn te (clock st) then (glance st)\<lparr>tl_steering := queue\<rparr>
      else (glance st)\<lparr>tl_steering := queue @ [SteeredNotice notice]\<rparr>)"

definition push_steered :: "TurnId \<Rightarrow> Steered \<Rightarrow> Session \<Rightarrow> Session" where
  "push_steered turn steered s =
     (case steered of
        SteeredUser prompt \<Rightarrow> push_user_with_images turn (ut_text prompt) (ut_images prompt) s
      | SteeredNotice notice \<Rightarrow> push_system notice s)"

definition injected :: "Steered \<Rightarrow> TurnEvent list" where
  "injected steered = (case steered of SteeredUser prompt \<Rightarrow> [UserMessageInjected (ut_text prompt)] | SteeredNotice _ \<Rightarrow> [])"

definition drain_steering :: "'w TurnEnv \<Rightarrow> 'w Turn \<Rightarrow> 'w Turn" where
  "drain_steering te st =
     (let queue = te_queue te (clock st) (tl_steering st) in
      if \<not> is_current te st then (glance st)\<lparr>tl_steering := queue\<rparr>
      else
        (with_session (fold (push_steered (te_turn te)) queue (session_of st)) (glance st))
          \<lparr>tl_steering := [], tl_events := tl_events st @ concat (map injected queue)\<rparr>)"

section \<open>Telemetry\<close>

definition probe_prefix :: "(WireMessage list \<Rightarrow> 64 word) \<Rightarrow> WireMessage list \<Rightarrow> (nat \<times> 64 word) option \<Rightarrow> PrefixProbe" where
  "probe_prefix fingerprint messages prior =
     \<lparr>pp_status =
        (case prior of
           None \<Rightarrow> FirstTurn
         | Some (len, hash) \<Rightarrow>
             if len \<le> length messages \<and> fingerprint (take len messages) = hash then Stable else Changed),
      pp_carried = (length messages, fingerprint messages)\<rparr>"

definition accumulate_request_usage :: "Usage \<Rightarrow> 'w Turn \<Rightarrow> 'w Turn" where
  "accumulate_request_usage usage st =
     (let hit = (case prompt_cache_hit_tokens usage of None \<Rightarrow> 0 | Some n \<Rightarrow> ucast n);
          miss = (case prompt_cache_miss_tokens usage of None \<Rightarrow> 0 | Some n \<Rightarrow> ucast n)
      in (glance st)\<lparr>tl_turn_cache_hit := tl_turn_cache_hit st + hit, tl_turn_cache_miss := tl_turn_cache_miss st + miss,
                     tl_session_cache_hit := tl_session_cache_hit st + hit,
                     tl_session_cache_miss := tl_session_cache_miss st + miss\<rparr>)"

definition to_u32 :: "64 word \<Rightarrow> 32 word" where
  "to_u32 n = (if n < 2 ^ 32 then ucast n else - 1)"

definition no_usage :: Usage where
  "no_usage = \<lparr>prompt_tokens = None, completion_tokens = None, total_tokens = None, reasoning_tokens = None,
     prompt_cache_hit_tokens = None, prompt_cache_miss_tokens = None\<rparr>"

definition context_usage_percent :: "ModelInfo list \<Rightarrow> 32 word \<Rightarrow> rstr \<Rightarrow> 64 word" where
  "context_usage_percent catalog tokens model =
     (let window = context_window_for_model catalog model in
      if window = 0 then 0 else min ((ucast tokens * 100) div ucast window) 100)"

definition effective_compaction_threshold :: "ModelInfo list \<Rightarrow> rstr \<Rightarrow> 32 word option \<Rightarrow> 32 word" where
  "effective_compaction_threshold catalog model override =
     (case override of None \<Rightarrow> compaction_threshold_for_model catalog model | Some n \<Rightarrow> n)"

definition reported :: "64 word \<Rightarrow> 32 word option \<Rightarrow> 32 word option" where
  "reported accumulated own = (if 0 < accumulated then Some (to_u32 accumulated) else own)"

definition build_turn_telemetry ::
  "'w TurnEnv \<Rightarrow> TurnRoute \<Rightarrow> Usage option \<Rightarrow> PrefixProbe \<Rightarrow> 32 word \<Rightarrow> 32 word \<Rightarrow> 'w Turn \<Rightarrow> 'w Turn \<times> TurnTelemetry" where
  "build_turn_telemetry te route given_usage probe estimated stream_retries st =
     (let usage = (case given_usage of None \<Rightarrow> no_usage | Some u \<Rightarrow> u);
          tokens = max (input_tokens usage) estimated;
          model = effective_model route
      in ((glance st)\<lparr>tl_last_prefix := Some (pp_carried probe)\<rparr>,
          \<lparr>tt_route_label = route_label route, tt_effective_model = model,
           tt_reasoning_effort = short_label (effective_effort route),
           tt_prompt_tokens = input_tokens usage, tt_completion_tokens = output_tokens usage,
           tt_cache_hit = reported (tl_turn_cache_hit st) (prompt_cache_hit_tokens usage),
           tt_cache_miss = reported (tl_turn_cache_miss st) (prompt_cache_miss_tokens usage),
           tt_session_cache_hit = to_u32 (tl_session_cache_hit st),
           tt_session_cache_miss = to_u32 (tl_session_cache_miss st),
           tt_prefix_status = pp_status probe, tt_route_source = source_label (route_source route),
           tt_cascade_triggered = rt_cascade_triggered (tl_rt st),
           tt_context_window = context_window_for_model (te_catalog te) model,
           tt_estimated_context = tokens,
           tt_context_percent = context_usage_percent (te_catalog te) tokens model,
           tt_near_threshold =
             saturating_mul_u32 (effective_compaction_threshold (te_catalog te) model (ac_compaction_threshold (te_config te))) 80 div 100
               \<le> tokens,
           tt_used_fallback = used_model_fallback route, tt_stream_retries = stream_retries\<rparr>))"

section \<open>Before a request\<close>

definition should_compact :: "'w TurnEnv \<Rightarrow> rstr \<Rightarrow> Session \<Rightarrow> bool" where
  "should_compact te model s \<longleftrightarrow>
     effective_compaction_threshold (te_catalog te) model (ac_compaction_threshold (te_config te))
       \<le> te_estimate te (wire_messages s)"

definition turn_compacts :: "'w TurnEnv \<Rightarrow> rstr \<Rightarrow> 'w Turn \<Rightarrow> 'w Turn" where
  "turn_compacts te model st =
     (case maybe_compact (te_texts te) (te_turn te) (te_storage_pressure te (clock st)) (should_compact te model)
             (te_handover te (clock st)) (is_cancelled te st) (te_meanwhile te (clock st)) (tl_attempts st) (session_of st) of
        (attempts, s, _) \<Rightarrow> (with_session s (glance st))\<lparr>tl_attempts := attempts\<rparr>)"

datatype LoopEnd = LoopOver | LoopParked | LoopGone

definition StepCap :: "'w TurnEnv \<Rightarrow> 32 word" where "StepCap te = ac_turn_steps (te_config te)"

text \<open>The head of an iteration, up to the request: its end, or whether this turn was rescued before.\<close>

definition begin_round :: "'w TurnEnv \<Rightarrow> rstr \<Rightarrow> 'w Turn \<Rightarrow> 'w Turn \<times> (LoopEnd + bool)" where
  "begin_round te model st =
     (case spend_step te st of
        (st, None) \<Rightarrow> (st, Inl LoopGone)
      | (st, Some (steps, wrap_up_sent, overflow_rescued)) \<Rightarrow>
          (let limit = StepCap te in
           if 0 < limit \<and> limit < steps then (fail_turn te StepLimit (StepLimitReached limit) st, Inl LoopOver)
           else if is_cancelled te st then (finish_turn_cancelled te (glance st), Inl LoopOver)
           else
             (let st = glance st;
                  st = (if budget_wrap_up_due steps limit wrap_up_sent
                        then steer_notice te (te_wrap_up te steps limit) (mark_wrap_up_sent te st)
                        else st)
              in (drain_steering te (turn_compacts te model st), Inr overflow_rescued))))"

section \<open>The request\<close>

definition build_request :: "'w TurnEnv \<Rightarrow> TurnRoute \<Rightarrow> 'w Turn \<Rightarrow> ChatRequest" where
  "build_request te route st =
     (let accepts = (case info_for (te_catalog te) (effective_model route) of None \<Rightarrow> True | Some e \<Rightarrow> model_supports_vision e);
          messages = hydrate_for (te_base64 te) (te_images te (clock st)) (map from_transcript (wire_messages (session_of st)))
            (Some (ac_vision_detail (te_config te))) accepts MAX_TOTAL_BYTES
      in fit_request_to_limit (te_serialized te)
           ((streaming (effective_model route) messages)
              \<lparr>cr_tools := specs (e_tools (te_env te)), cr_effort := as_api_value (effective_effort route)\<rparr>)
           MAX_REQUEST_BYTES)"

definition reply_anchor :: "'w Turn \<Rightarrow> entry_ptr option" where
  "reply_anchor st = (if entries (session_of st) = [] then None else Some (fst (last (entries (session_of st)))))"

definition overflow_refusal :: "bool \<Rightarrow> AgentError \<Rightarrow> bool" where
  "overflow_refusal near_window e \<longleftrightarrow>
     blames_context_window e \<or> near_window \<and> (case e of Api status _ \<Rightarrow> status = 400 | _ \<Rightarrow> False)"

text \<open>Opening the stream: the end of the loop, another round over a shorter history, or the stream.\<close>

datatype Opening = OpeningEnds LoopEnd | OpeningAgain | Opened GuardedStream

definition rescue_overflow :: "'w TurnEnv \<Rightarrow> 32 word \<Rightarrow> 'w Turn \<Rightarrow> 'w Turn \<times> Opening" where
  "rescue_overflow te estimated st =
     (let st = mark_overflow_rescued te st in
      case compact_session (te_texts te) OverflowRescue (te_handover te (clock st)) (is_cancelled te st)
             (session_of st) (te_meanwhile te (clock st) (session_of st)) of
        (s, outcome) \<Rightarrow>
          (let st = with_session s (glance st) in
           case outcome of
             Applied _ _ _ \<Rightarrow> (say (TurnWarned OverflowRescued) st, OpeningAgain)
           | FoldCancelled \<Rightarrow> (finish_turn_cancelled te st, OpeningEnds LoopOver)
           | _ \<Rightarrow> (fail_turn te ExecutionFailure (ContextOverflow estimated) st, OpeningEnds LoopOver)))"

definition open_round ::
  "'w TurnEnv \<Rightarrow> TurnRoute \<Rightarrow> bool \<Rightarrow> 32 word \<Rightarrow> ChatRequest \<Rightarrow> 'w Turn \<Rightarrow> TurnRoute \<times> 'w Turn \<times> Opening" where
  "open_round te route overflow_rescued estimated request st =
     (if is_cancelled te st then (route, finish_turn_cancelled te (glance st), OpeningEnds LoopOver)
      else case open_turn_stream (te_net te) (te_config te) route request (tl_wire st) of
        (route', wire, opened) \<Rightarrow>
          (let st = (glance st)\<lparr>tl_wire := wire\<rparr>;
               near_window =
                 (saturating_mul_u32 (context_window_for_model (te_catalog te) (effective_model route)) 95 div 100 \<le> estimated)
           in if is_cancelled te st then (route', finish_turn_cancelled te (glance st), OpeningEnds LoopOver)
              else case opened of
                  Inr gs \<Rightarrow> (route', glance st, Opened gs)
                | Inl e \<Rightarrow>
                    if \<not> overflow_rescued \<and> overflow_refusal near_window e
                    then (case rescue_overflow te estimated (glance st) of (st, result) \<Rightarrow> (route', st, result))
                    else (route', fail_turn te ExecutionFailure (ProviderFailed e) (glance st), OpeningEnds LoopOver)))"

section \<open>The reply\<close>

record Reply =
  rp_text :: rstr
  rp_reasoning :: rstr
  rp_acc :: ToolCallAccumulator
  rp_ids :: "(nat \<times> rstr) list"
  rp_usage :: "Usage option"
  rp_error :: bool
  rp_cancelled :: bool

definition no_reply :: Reply where
  "no_reply = \<lparr>rp_text = [], rp_reasoning = [], rp_acc = [], rp_ids = [], rp_usage = None, rp_error = False, rp_cancelled = False\<rparr>"

definition delta_arguments :: "ToolCallDelta \<Rightarrow> rstr option" where
  "delta_arguments delta = Option.bind (td_function delta) fd_arguments"

text \<open>One event of the stream taken in; whether reading stops there.\<close>

definition take_event :: "AgentError + AgentEvent \<Rightarrow> Reply \<Rightarrow> 'w Turn \<Rightarrow> Reply \<times> 'w Turn \<times> bool" where
  "take_event event rp st =
     (case event of
        Inr (AgentText s) \<Rightarrow> (rp\<lparr>rp_text := rp_text rp @ s\<rparr>, say (AssistantDelta s) st, False)
      | Inr (AgentReasoning s) \<Rightarrow> (rp\<lparr>rp_reasoning := rp_reasoning rp @ s\<rparr>, say (ReasoningText s) st, False)
      | Inr (AgentToolDelta delta) \<Rightarrow>
          (let ids = (case td_id delta of None \<Rightarrow> rp_ids rp | Some i \<Rightarrow> AList.update (delta_index delta) i (rp_ids rp));
               call_id = map_of ids (delta_index delta);
               rp = rp\<lparr>rp_ids := ids, rp_acc := push_delta delta (rp_acc rp)\<rparr>
           in (rp, (case call_id of None \<Rightarrow> st | Some i \<Rightarrow> say (ToolCallUpdated i (delta_arguments delta)) st), False))
      | Inr (AgentDone usage) \<Rightarrow>
          (rp\<lparr>rp_usage := usage\<rparr>, (case usage of None \<Rightarrow> st | Some u \<Rightarrow> accumulate_request_usage u st), False)
      | Inr (AgentFailed msg) \<Rightarrow> (rp\<lparr>rp_error := True\<rparr>, say (TurnFailed ExecutionFailure (ProviderSaid msg)) st, True)
      | Inl e \<Rightarrow> (rp\<lparr>rp_error := True\<rparr>, say (TurnFailed ExecutionFailure (ProviderFailed e)) st, False))"

text \<open>The loop over the stream; \<open>None\<close> when the fuel does not reach its end.\<close>

fun read_reply :: "nat \<Rightarrow> 'w TurnEnv \<Rightarrow> GuardedStream \<Rightarrow> Reply \<Rightarrow> 'w Turn \<Rightarrow> (GuardedStream \<times> Reply \<times> 'w Turn) option" where
  "read_reply 0 te gs rp st = None"
| "read_reply (Suc fuel) te gs rp st =
     (if is_cancelled te st then Some (gs, rp\<lparr>rp_cancelled := True\<rparr>, glance st)
      else case next_event (te_net te) gs (tl_wire st) of
        (gs, wire, None) \<Rightarrow> Some (gs, rp, (glance st)\<lparr>tl_wire := wire\<rparr>)
      | (gs, wire, Some event) \<Rightarrow>
          (case take_event event rp ((glance st)\<lparr>tl_wire := wire\<rparr>) of
             (rp, st, True) \<Rightarrow> Some (gs, rp, st)
           | (rp, st, False) \<Rightarrow> read_reply fuel te gs rp st))"

definition record_partial_reply :: "'w TurnEnv \<Rightarrow> entry_ptr option \<Rightarrow> Reply \<Rightarrow> 'w Turn \<Rightarrow> 'w Turn" where
  "record_partial_reply te anchor rp st =
     (if rp_text rp = [] \<and> rp_reasoning rp = [] then st
      else case anchor of
          None \<Rightarrow> st
        | Some a \<Rightarrow>
            with_session (fst (insert_partial_assistant_after a (te_turn te) (rp_text rp) (rp_reasoning rp) (session_of st))) st)"

definition tool_call_payload :: "'w TurnEnv \<Rightarrow> ToolCall \<Rightarrow> ToolCallPayload" where
  "tool_call_payload te call =
     \<lparr>payload_id = tc_id call, payload_type = ''function'', payload_name = tc_name call,
      payload_arguments = e_to_string (te_env te) (tc_arguments call)\<rparr>"

section \<open>After the reply\<close>

datatype RoundEnd = Again | Ends LoopEnd

definition finish_with_answer ::
  "'w TurnEnv \<Rightarrow> TurnRoute \<Rightarrow> Reply \<Rightarrow> PrefixProbe \<Rightarrow> 32 word \<Rightarrow> 32 word \<Rightarrow> 'w Turn \<Rightarrow> 'w Turn" where
  "finish_with_answer te route rp probe estimated stream_retries st =
     (case build_turn_telemetry te route (rp_usage rp) probe estimated stream_retries st of
        (st, telemetry) \<Rightarrow>
          (let st = say (FromBatch SessionUpdated) (finish_turn te st);
               st = fold (\<lambda>w. say (TurnWarned (OtherWarning w))) (te_lsp_warnings te (clock st)) st
           in say (TurnFinished (rp_usage rp) telemetry) st))"

definition run_batch :: "'w TurnEnv \<Rightarrow> ToolCall list \<Rightarrow> 'w Turn \<Rightarrow> 'w Turn \<times> RoundEnd" where
  "run_batch te calls st =
     (let st = fold (\<lambda>call. say (ToolCallStarted call)) calls st;
          st = say (FromBatch SessionUpdated) st
      in case process_tool_batch (te_env te) calls (tl_rt st) of
           (BatchOutcome.Completed, rt) \<Rightarrow>
             (case boundary_breaker_tripped rt of
                (True, rt) \<Rightarrow> (abort_turn te (absorb rt st), Ends LoopOver)
              | (False, rt) \<Rightarrow> (absorb rt st, Again))
         | (AwaitingApproval, rt) \<Rightarrow> (absorb rt st, Ends LoopParked)
         | (BatchCancelled, rt) \<Rightarrow> (finish_turn te (absorb rt st), Ends LoopOver))"

definition settle_reply ::
  "'w TurnEnv \<Rightarrow> TurnRoute \<Rightarrow> entry_ptr option \<Rightarrow> Reply \<Rightarrow> PrefixProbe \<Rightarrow> 32 word \<Rightarrow> 32 word \<Rightarrow> 'w Turn \<Rightarrow> 'w Turn \<times> RoundEnd" where
  "settle_reply te route anchor rp probe estimated stream_retries st =
     (if rp_cancelled rp then (finish_turn_cancelled te (record_partial_reply te anchor rp st), Ends LoopOver)
      else if rp_error rp then (abort_turn te (record_partial_reply te anchor rp st), Ends LoopOver)
      else case accumulator_finish (te_from_str te) (rp_acc rp) of
          Inl e \<Rightarrow> (fail_turn te ExecutionFailure (BadToolCall e) st, Ends LoopOver)
        | Inr calls \<Rightarrow>
            if \<not> is_current te st \<or> is_cancelled te st
            then (finish_turn_cancelled te (record_partial_reply te anchor rp (glance st)), Ends LoopOver)
            else
              (let st = with_session (push_assistant (te_turn te) (rp_text rp) (rp_reasoning rp)
                          (map (tool_call_payload te) calls) (session_of st)) (glance st)
               in if calls = [] then (finish_with_answer te route rp probe estimated stream_retries st, Ends LoopOver)
                  else run_batch te calls st))"

section \<open>The loop\<close>

definition run_round ::
  "nat \<Rightarrow> 'w TurnEnv \<Rightarrow> TurnRoute \<times> 32 word \<Rightarrow> 'w Turn \<Rightarrow> ((TurnRoute \<times> 32 word) \<times> 'w Turn \<times> RoundEnd) option" where
  "run_round fuel te carried st =
     (case carried of (route, stream_retries) \<Rightarrow>
       (case begin_round te (effective_model route) st of
          (st, Inl ending) \<Rightarrow> Some (carried, st, Ends ending)
        | (st, Inr overflow_rescued) \<Rightarrow>
            (let anchor = reply_anchor st;
                 request = build_request te route st;
                 probe = probe_prefix (te_fingerprint te) (cr_messages request) (tl_last_prefix st);
                 estimated = te_estimate_request te (cr_messages request)
             in case open_round te route overflow_rescued estimated request (glance st) of
                  (route, st, OpeningEnds ending) \<Rightarrow> Some ((route, stream_retries), st, Ends ending)
                | (route, st, OpeningAgain) \<Rightarrow> Some ((route, stream_retries), st, Again)
                | (route, st, Opened gs) \<Rightarrow>
                    (case read_reply fuel te gs no_reply st of
                       None \<Rightarrow> None
                     | Some (gs, rp, st) \<Rightarrow>
                         (let stream_retries = stream_retries + of_nat (gs_retries_used gs) in
                          case settle_reply te route anchor rp probe estimated stream_retries st of
                            (st, ending) \<Rightarrow> Some ((route, stream_retries), st, ending))))))"

fun rounds :: "nat \<Rightarrow> nat \<Rightarrow> 'w TurnEnv \<Rightarrow> TurnRoute \<times> 32 word \<Rightarrow> 'w Turn \<Rightarrow> ('w Turn \<times> LoopEnd) option" where
  "rounds 0 fuel te carried st = None"
| "rounds (Suc n) fuel te carried st =
     (case run_round fuel te carried st of
        None \<Rightarrow> None
      | Some (_, st, Ends ending) \<Rightarrow> Some (st, ending)
      | Some (carried, st, Again) \<Rightarrow> rounds n fuel te carried st)"

definition turn_prompt :: "'w Turn \<Rightarrow> UserTurn" where
  "turn_prompt st = (case tl_prompt st of None \<Rightarrow> \<lparr>ut_text = [], ut_images = []\<rparr> | Some prompt \<Rightarrow> prompt)"

definition route_context :: "'w TurnEnv \<Rightarrow> 'w Turn \<Rightarrow> RouteContext" where
  "route_context te st =
     \<lparr>context_tokens = te_estimate te (wire_messages (session_of st)),
      context_window = context_window_for_model (te_catalog te) DEEPSEEK_V4_PRO,
      escalated = rt_cascade_escalated (tl_rt st), has_images = ut_images (turn_prompt st) \<noteq> []\<rparr>"

definition run_loop :: "nat \<Rightarrow> nat \<Rightarrow> 'w TurnEnv \<Rightarrow> 'w Turn \<Rightarrow> ('w Turn \<times> LoopEnd) option" where
  "run_loop n fuel te st =
     (if \<not> is_current te st then Some (glance st, LoopGone)
      else if is_cancelled te (glance st) then Some (finish_turn_cancelled te (glance (glance st)), LoopOver)
      else rounds n fuel te
        (resolve_turn_route (te_to_lower te) (te_config te) (te_catalog te) (codes_of (ut_text (turn_prompt st)))
           (te_is_subagent te) (route_context te st), 0)
        (glance (glance st)))"

section \<open>The start of a turn\<close>

definition begin_turn :: "TurnId \<Rightarrow> UserTurn \<Rightarrow> 'w Turn \<Rightarrow> 'w Turn" where
  "begin_turn turn prompt st =
     st\<lparr>tl_rt := (tl_rt st)\<lparr>
          rt_session := push_user_with_images turn (ut_text prompt) (ut_images prompt) (session_of st),
          rt_pending := None, rt_turn_tool_errors := 0, rt_cascade_triggered := False,
          rt_turn_boundary_denials := 0, rt_last_boundary_denial_path := None, rt_events := []\<rparr>,
        tl_prompt := Some prompt, tl_open := True,
        tl_turns_closed := tl_turns_closed st + (if tl_open st then 1 else 0),
        tl_budget := Some (new_budget turn), tl_steering := [],
        tl_turn_cache_hit := 0, tl_turn_cache_miss := 0, tl_events := []\<rparr>"

definition record_checkpoint :: "64 word \<Rightarrow> rstr \<Rightarrow> rstr list \<Rightarrow> rstr list" where
  "record_checkpoint max_snapshots i known =
     (let known = known @ [i]; limit = unat max_snapshots in
      if 0 < limit \<and> limit < length known then drop (length known - limit) known else known)"

definition snapshot_turn :: "'w TurnEnv \<Rightarrow> rstr \<Rightarrow> 'w Turn \<Rightarrow> 'w Turn" where
  "snapshot_turn te label st =
     (case te_snapshot te of
        None \<Rightarrow> st
      | Some (Inr (SnapshotCreated i prune_warnings)) \<Rightarrow>
          (let st = fold (\<lambda>w. say (TurnWarned (OtherWarning w))) prune_warnings st;
               st = st\<lparr>tl_checkpoints := record_checkpoint (ac_checkpoint_max_snapshots (te_config te)) i (tl_checkpoints st)\<rparr>
           in say (CheckpointCreated i label) st)
      | Some (Inr (SnapshotSkipped SkipCancelled)) \<Rightarrow> st
      | Some (Inr (SnapshotSkipped (SkipTooLarge first))) \<Rightarrow> if first then say (TurnWarned CheckpointsTooLarge) st else st
      | Some (Inl why) \<Rightarrow> say (TurnWarned (SnapshotFailed label why)) st)"

definition spawn_turn :: "nat \<Rightarrow> nat \<Rightarrow> 'w TurnEnv \<Rightarrow> 'w Turn \<Rightarrow> ('w Turn \<times> LoopEnd) option" where
  "spawn_turn n fuel te st =
     (let st = say (FromBatch SessionUpdated) (say (TurnStarted (ut_text (turn_prompt st))) st) in
      run_loop n fuel te (snapshot_turn te ''before_turn'' st))"

text \<open>An answer to a parked approval: the batch goes on, and the loop is entered again.\<close>

definition answer_turn ::
  "nat \<Rightarrow> nat \<Rightarrow> 'w TurnEnv \<Rightarrow> ApprovalId \<times> ApprovalDecision \<times> DenialNote option \<Rightarrow> 'w Turn
    \<Rightarrow> ApprovalError + ('w Turn \<times> LoopEnd) option" where
  "answer_turn n fuel te answer st =
     (case answer of (approval_id, decision, said_note) \<Rightarrow>
       (case submit_approval_with_denial_note (te_env te) approval_id decision said_note (tl_rt st) of
          Inl e \<Rightarrow> Inl e
        | Inr (NextRound, rt) \<Rightarrow> Inr (run_loop n fuel te (absorb rt st))
        | Inr (Parked, rt) \<Rightarrow> Inr (Some (absorb rt st, LoopParked))
        | Inr (TurnOver, rt) \<Rightarrow> Inr (Some (finish_turn te (absorb rt st), LoopOver))))"

text \<open>A turn and the answers given to it, a refused answer leaving it parked.\<close>

fun answer_all ::
  "nat \<Rightarrow> nat \<Rightarrow> 'w TurnEnv \<Rightarrow> (ApprovalId \<times> ApprovalDecision \<times> DenialNote option) list
    \<Rightarrow> ('w Turn \<times> LoopEnd) option \<Rightarrow> ('w Turn \<times> LoopEnd) option" where
  "answer_all n fuel te [] r = r"
| "answer_all n fuel te (answer # answers) r =
     (case r of
        Some (st, LoopParked) \<Rightarrow>
          (case answer_turn n fuel te answer st of
             Inl _ \<Rightarrow> answer_all n fuel te answers r
           | Inr r' \<Rightarrow> answer_all n fuel te answers r')
      | _ \<Rightarrow> r)"

definition whole_turn ::
  "nat \<Rightarrow> nat \<Rightarrow> 'w TurnEnv \<Rightarrow> UserTurn \<Rightarrow> (ApprovalId \<times> ApprovalDecision \<times> DenialNote option) list \<Rightarrow> 'w Turn
    \<Rightarrow> ('w Turn \<times> LoopEnd) option" where
  "whole_turn n fuel te prompt answers st =
     answer_all n fuel te answers (spawn_turn n fuel te (begin_turn (te_turn te) prompt st))"

section \<open>The handle of a turn\<close>

datatype FinishReason = FinishCompleted | FinishCancelled | FinishStepLimit | FinishFailed | FinishIncomplete

text \<open>The reason an event ends the turn for, where it does.\<close>

definition ending_reason :: "TurnEvent option \<Rightarrow> FinishReason option" where
  "ending_reason event =
     (case event of
        None \<Rightarrow> Some FinishIncomplete
      | Some (TurnFinished _ _) \<Rightarrow> Some FinishCompleted
      | Some (FromBatch TurnCancelled) \<Rightarrow> Some FinishCancelled
      | Some (TurnFailed StepLimit _) \<Rightarrow> Some FinishStepLimit
      | Some (TurnFailed ExecutionFailure _) \<Rightarrow> Some FinishFailed
      | Some (FromBatch (BreakerError _)) \<Rightarrow> Some FinishFailed
      | _ \<Rightarrow> None)"

record TurnHandle =
  th_events :: "TurnEvent list"
  th_outcome :: "FinishReason option"

definition recv :: "TurnHandle \<Rightarrow> TurnHandle \<times> TurnEvent option" where
  "recv h =
     (if th_outcome h \<noteq> None then (h, None)
      else case th_events h of
          [] \<Rightarrow> (h\<lparr>th_outcome := ending_reason None\<rparr>, None)
        | event # events \<Rightarrow> (\<lparr>th_events = events, th_outcome = ending_reason (Some event)\<rparr>, Some event))"

section \<open>What each part leaves alone\<close>

named_theorems frame

lemma glance_frame [frame]: "tl_wire (glance st) = tl_wire st" "tl_budget (glance st) = tl_budget st" "tl_events (glance st) = tl_events st"
  by (simp_all add: glance_def)

lemma say_frame [frame]: "tl_wire (say e st) = tl_wire st" "tl_budget (say e st) = tl_budget st" "tl_events (say e st) = tl_events st @ [e]"
  by (simp_all add: say_def)

lemma say_all_frame [frame]:
  "tl_wire (fold (\<lambda>x. say (f x)) xs st) = tl_wire st" "tl_budget (fold (\<lambda>x. say (f x)) xs st) = tl_budget st"
  "tl_events (fold (\<lambda>x. say (f x)) xs st) = tl_events st @ map f xs"
  by (induction xs arbitrary: st) (simp_all add: frame)

lemma with_session_frame [frame]:
  "tl_wire (with_session s st) = tl_wire st" "tl_budget (with_session s st) = tl_budget st"
  "tl_events (with_session s st) = tl_events st"
  by (simp_all add: with_session_def)

lemma absorb_frame [frame]:
  "tl_wire (absorb rt st) = tl_wire st" "tl_budget (absorb rt st) = tl_budget st"
  "tl_events (absorb rt st) = tl_events st @ map FromBatch (rt_events rt)"
  by (simp_all add: absorb_def)

lemma finish_turn_frame [frame]:
  "tl_wire (finish_turn te st) = tl_wire st" "tl_budget (finish_turn te st) = tl_budget st"
  "tl_events (finish_turn te st) = tl_events st"
  by (simp_all add: finish_turn_def frame)

lemma ending_frame [frame]:
  "tl_wire (abort_turn te st) = tl_wire st" "tl_budget (abort_turn te st) = tl_budget st" "tl_events (abort_turn te st) = tl_events st"
  "tl_wire (finish_turn_cancelled te st) = tl_wire st" "tl_budget (finish_turn_cancelled te st) = tl_budget st"
  "tl_events (finish_turn_cancelled te st) = tl_events st @ [FromBatch TurnCancelled]"
  "tl_wire (fail_turn te kind why st) = tl_wire st" "tl_budget (fail_turn te kind why st) = tl_budget st"
  "tl_events (fail_turn te kind why st) = tl_events st @ [TurnFailed kind why]"
  by (simp_all add: abort_turn_def finish_turn_cancelled_def fail_turn_def frame)

lemma steering_frame [frame]:
  "tl_wire (steer_notice te n st) = tl_wire st" "tl_budget (steer_notice te n st) = tl_budget st"
  "tl_events (steer_notice te n st) = tl_events st"
  "tl_wire (drain_steering te st) = tl_wire st" "tl_budget (drain_steering te st) = tl_budget st"
  by (simp_all add: steer_notice_def drain_steering_def Let_def frame)

lemma compacts_frame [frame]:
  "tl_wire (turn_compacts te model st) = tl_wire st" "tl_budget (turn_compacts te model st) = tl_budget st"
  "tl_events (turn_compacts te model st) = tl_events st"
  by (simp_all add: turn_compacts_def frame split: prod.split)

lemma partial_frame [frame]:
  "tl_wire (record_partial_reply te a rp st) = tl_wire st" "tl_budget (record_partial_reply te a rp st) = tl_budget st"
  "tl_events (record_partial_reply te a rp st) = tl_events st"
  by (simp_all add: record_partial_reply_def frame split: option.split)

lemma usage_frame [frame]:
  "tl_wire (accumulate_request_usage u st) = tl_wire st" "tl_budget (accumulate_request_usage u st) = tl_budget st"
  "tl_events (accumulate_request_usage u st) = tl_events st"
  by (simp_all add: accumulate_request_usage_def Let_def frame)

lemma telemetry_frame:
  "build_turn_telemetry te route u p n k st = (st', t) \<Longrightarrow>
    tl_wire st' = tl_wire st \<and> tl_budget st' = tl_budget st \<and> tl_events st' = tl_events st"
  by (auto simp: build_turn_telemetry_def Let_def frame)

lemma answer_frame [frame]:
  "tl_wire (finish_with_answer te route rp p n k st) = tl_wire st"
  "tl_budget (finish_with_answer te route rp p n k st) = tl_budget st"
  by (auto simp: finish_with_answer_def Let_def frame dest: telemetry_frame split: prod.split)

lemma run_batch_frame [frame]:
  "tl_wire (fst (run_batch te calls st)) = tl_wire st" "tl_budget (fst (run_batch te calls st)) = tl_budget st"
  by (auto simp: run_batch_def Let_def frame split: prod.split BatchOutcome.split bool.split)

lemma settle_frame [frame]:
  "tl_wire (fst (settle_reply te route a rp p n k st)) = tl_wire st"
  "tl_budget (fst (settle_reply te route a rp p n k st)) = tl_budget st"
  by (auto simp: settle_reply_def Let_def frame split: sum.split)

lemma take_event_frame:
  "take_event event rp st = (rp', st', stop) \<Longrightarrow> tl_wire st' = tl_wire st \<and> tl_budget st' = tl_budget st"
  by (auto simp: take_event_def Let_def frame split: sum.splits AgentEvent.splits option.splits)

section \<open>A turn asks the provider a bounded number of times\<close>

definition allowance :: "GuardedStream \<Rightarrow> nat" where
  "allowance gs = (if gs_any_content gs \<or> gs_finished gs then 0 else gs_retries_left gs)"

lemma next_allowance:
  assumes "next_event net gs w = (gs', w', r)" "coherent_request (gs_request gs)"
  shows "gs_request gs' = gs_request gs \<and> allowance gs' \<le> allowance gs \<and> asked_more (allowance gs - allowance gs') w w'"
proof (cases "gs_finished gs")
  case True
  then show ?thesis using assms(1) by (simp add: finished_is_over asked_none)
next
  case False
  note ok = next_event_ok [OF assms(1) False assms(2)]
  then have "allowance gs' = 0" by (auto simp: step_ok_def allowance_def split: option.splits sum.splits)
  moreover have "call_cost gs gs' \<le> allowance gs" using False by (simp add: call_cost_def allowance_def)
  ultimately show ?thesis using ok asked_mono by (auto simp: step_ok_def)
qed

lemma read_reply_asks:
  "read_reply fuel te gs rp st = Some (gs', rp', st') \<Longrightarrow> coherent_request (gs_request gs) \<Longrightarrow>
    tl_budget st' = tl_budget st \<and> allowance gs' \<le> allowance gs \<and>
    asked_more (allowance gs - allowance gs') (tl_wire st) (tl_wire st')"
proof (induction fuel arbitrary: gs rp st)
  case (Suc fuel)
  show ?case
  proof (cases "is_cancelled te st")
    case True
    then show ?thesis using Suc.prems(1) by (auto simp: frame asked_none)
  next
    case False
    obtain gs1 w1 r where one: "next_event (te_net te) gs (tl_wire st) = (gs1, w1, r)" using prod_cases3 by blast
    note allow = next_allowance [OF one Suc.prems(2)]
    show ?thesis
    proof (cases r)
      case None
      then show ?thesis using Suc.prems(1) False one allow by (auto simp: frame)
    next
      case (Some event)
      obtain rp1 st1 stop where taken: "take_event event rp ((glance st)\<lparr>tl_wire := w1\<rparr>) = (rp1, st1, stop)"
        using prod_cases3 by blast
      then have st1: "tl_wire st1 = w1 \<and> tl_budget st1 = tl_budget st" using take_event_frame [OF taken] by (simp add: frame)
      show ?thesis
      proof (cases stop)
        case True
        then show ?thesis using Suc.prems(1) False one Some taken allow st1 by auto
      next
        case go: False
        then have later: "read_reply fuel te gs1 rp1 st1 = Some (gs', rp', st')"
          using Suc.prems(1) False one Some taken by simp
        have "coherent_request (gs_request gs1)" using allow Suc.prems(2) by simp
        note ih = Suc.IH [OF later this]
        show ?thesis
          using ih st1 allow asked_trans [of "allowance gs - allowance gs1" "tl_wire st" w1 "allowance gs1 - allowance gs'" "tl_wire st'" "allowance gs - allowance gs'"]
          by auto
      qed
    qed
  qed
qed simp

definition per_round :: "'w TurnEnv \<Rightarrow> nat" where
  "per_round te = unat (ac_stream_max_retries (te_config te)) + 2"

text \<open>Opening a stream, and the allowance it leaves.\<close>

lemma opened_asks:
  assumes "open_turn_stream net config route r w = (route', w', res)"
  shows "case res of
     Inl _ \<Rightarrow> asked_more (unat (ac_stream_max_retries config) + 2) w w'
   | Inr gs \<Rightarrow> coherent_request (gs_request gs) \<and> allowance gs \<le> unat (ac_stream_max_retries config) \<and>
       asked_more (unat (ac_stream_max_retries config) + 2 - allowance gs) w w'"
proof -
  let ?max = "unat (ac_stream_max_retries config)"
  obtain route1 w1 tried where tried: "open_attempts net ?max 0 INITIAL_BACKOFF route r w = (route1, w1, tried)"
    using prod_cases3 by blast
  note asked = attempts_ask [OF tried]
  have fb: "fallbacks_left route \<le> 1" by (simp add: fallbacks_left_def)
  show ?thesis
  proof (cases tried)
    case (Inl e)
    then have "asked_more (?max + 2) w w1" by (intro asked_mono [OF conjunct1 [OF asked]]) (use fb in simp)
    then show ?thesis using assms tried Inl by (auto simp: open_turn_stream_def)
  next
    case (Inr t)
    obtain left used backoff where t: "t = (left, used, backoff)" using prod_cases3 by blast
    have "asked_more (?max + 2 - left) w w1"
      by (rule asked_mono [OF conjunct1 [OF asked]]) (use fb Inr t in simp)
    then show ?thesis using assms tried asked Inr t
      by (auto simp: open_turn_stream_def guarded_def allowance_def on_route_coherent)
  qed
qed

text \<open>The steps left of this turn's budget, and the budgets the loop can be entered with.\<close>

definition steps_left :: "'w TurnEnv \<Rightarrow> 'w Turn \<Rightarrow> nat" where
  "steps_left te st =
     (case tl_budget st of
        None \<Rightarrow> 0
      | Some b \<Rightarrow> if tb_turn b = te_turn te then unat (StepCap te) - unat (tb_steps b) else 0)"

definition within_cap :: "'w TurnEnv \<Rightarrow> 'w Turn \<Rightarrow> bool" where
  "within_cap te st \<longleftrightarrow> (case tl_budget st of None \<Rightarrow> True | Some b \<Rightarrow> tb_steps b \<le> StepCap te)"

definition capped :: "'w TurnEnv \<Rightarrow> bool" where
  "capped te \<longleftrightarrow> StepCap te \<noteq> 0 \<and> StepCap te \<noteq> - 1"

lemma budget_only:
  "tl_budget st' = tl_budget st \<Longrightarrow> steps_left te st' = steps_left te st"
  "tl_budget st' = tl_budget st \<Longrightarrow> within_cap te st' = within_cap te st"
  by (simp_all add: steps_left_def within_cap_def)

lemma unat_lt2p_32: "unat (w :: 32 word) < 4294967296"
  using unsigned_less [of w] by simp

lemma step_word:
  assumes "capped te" "n \<le> StepCap te"
  shows "unat (n + 1) = unat n + 1"
proof -
  have "n \<noteq> - 1"
  proof
    assume "n = - 1"
    moreover have "unat (- 1 :: 32 word) = 4294967295" by (simp add: unsigned_minus_1_eq_mask mask_eq_exp_minus_1)
    ultimately have "unat (StepCap te) = unat (- 1 :: 32 word)"
      using assms(2) unat_lt2p_32 [of "StepCap te"] by (simp add: word_le_nat_alt)
    then show False using assms(1) by (simp add: capped_def word_unat_eq_iff)
  qed
  then have "1 + n \<noteq> 0" by (metis add.commute eq_neg_iff_add_eq_0)
  then show ?thesis by (simp add: unatSuc add.commute)
qed

lemma spend_step_left:
  assumes "spend_step te st = (st', Some (steps, sent, rescued))" "capped te" "within_cap te st"
  shows "tl_wire st' = tl_wire st \<and>
    (if steps \<le> StepCap te then within_cap te st' \<and> steps_left te st = steps_left te st' + 1 else steps_left te st' = 0)"
proof -
  obtain b where b: "owned_budget te st = Some b" using assms(1) by (cases "owned_budget te st") (simp_all add: spend_step_def)
  have st': "st' = (glance st)\<lparr>tl_budget := Some (b\<lparr>tb_steps := tb_steps b + 1\<rparr>)\<rparr>" and steps: "steps = tb_steps b + 1"
    using assms(1) by (auto simp: spend_step_def Let_def b)
  have own: "tl_budget st = Some b" "tb_turn b = te_turn te" using b by (auto simp: owned_budget_def split: option.splits if_splits)
  have n: "unat (tb_steps b + 1) = unat (tb_steps b) + 1"
    using step_word [OF assms(2)] assms(3) own by (simp add: within_cap_def)
  have "tl_budget st' = Some (b\<lparr>tb_steps := steps\<rparr>)" "tl_wire st' = tl_wire st" by (simp_all add: st' steps frame)
  moreover have "unat steps = unat (tb_steps b) + 1" using n steps by simp
  ultimately show ?thesis using own by (auto simp: steps_left_def within_cap_def word_le_nat_alt)
qed

lemma spend_step_gone: "spend_step te st = (st', None) \<Longrightarrow> tl_wire st' = tl_wire st \<and> tl_budget st' = None"
  by (auto simp: spend_step_def Let_def frame split: option.splits)

lemma marks_left:
  "tl_wire (mark_wrap_up_sent te st) = tl_wire st \<and> steps_left te (mark_wrap_up_sent te st) \<le> steps_left te st \<and>
   (within_cap te st \<longrightarrow> within_cap te (mark_wrap_up_sent te st))"
  "tl_wire (mark_overflow_rescued te st) = tl_wire st \<and> steps_left te (mark_overflow_rescued te st) \<le> steps_left te st \<and>
   (within_cap te st \<longrightarrow> within_cap te (mark_overflow_rescued te st))"
  by (auto simp: mark_wrap_up_sent_def mark_overflow_rescued_def steps_left_def within_cap_def owned_budget_def frame
      split: option.splits)

text \<open>What a stretch of the turn may cost: so many rounds' worth of requests, paid with as many steps.\<close>

definition paid :: "'w TurnEnv \<Rightarrow> 'w Turn \<Rightarrow> 'w Turn \<Rightarrow> bool" where
  "paid te st st' \<longleftrightarrow>
     (\<exists>k. asked_more (k * per_round te) (tl_wire st) (tl_wire st') \<and> k + steps_left te st' \<le> steps_left te st)"

lemma paid_refl: "tl_wire st' = tl_wire st \<Longrightarrow> steps_left te st' \<le> steps_left te st \<Longrightarrow> paid te st st'"
  unfolding paid_def by (intro exI [of _ 0]) (simp add: asked_none)

lemma paid_trans:
  assumes "paid te st st1" "paid te st1 st2"
  shows "paid te st st2"
proof -
  obtain a b where a: "asked_more (a * per_round te) (tl_wire st) (tl_wire st1)" "a + steps_left te st1 \<le> steps_left te st"
    and b: "asked_more (b * per_round te) (tl_wire st1) (tl_wire st2)" "b + steps_left te st2 \<le> steps_left te st1"
    using assms by (auto simp: paid_def)
  have "asked_more ((a + b) * per_round te) (tl_wire st) (tl_wire st2)"
    using asked_trans [OF a(1) b(1)] by (simp add: add_mult_distrib)
  then show ?thesis using a(2) b(2) unfolding paid_def by (intro exI [of _ "a + b"]) simp
qed

lemma begin_round_pays:
  assumes "begin_round te model st = (st', res)" "capped te" "within_cap te st"
  shows "tl_wire st' = tl_wire st \<and>
    (case res of
       Inl ending \<Rightarrow> steps_left te st' \<le> steps_left te st \<and> ending \<noteq> LoopParked
     | Inr _ \<Rightarrow> within_cap te st' \<and> steps_left te st' + 1 \<le> steps_left te st)"
proof -
  obtain st1 spent where s: "spend_step te st = (st1, spent)" by fastforce
  show ?thesis
  proof (cases spent)
    case None
    then have "st' = st1 \<and> res = Inl LoopGone" using assms(1) s by (simp add: begin_round_def)
    then show ?thesis using spend_step_gone [OF s [unfolded None]] by (simp add: steps_left_def)
  next
    case (Some t)
    obtain steps sent rescued where t: "t = (steps, sent, rescued)" using prod_cases3 by blast
    note left = spend_step_left [OF s [unfolded Some t] assms(2,3)]
    let ?st2 = "glance st1"
    let ?st3 = "if budget_wrap_up_due steps (StepCap te) sent
      then steer_notice te (te_wrap_up te steps (StepCap te)) (mark_wrap_up_sent te ?st2) else ?st2"
    let ?go = "drain_steering te (turn_compacts te model ?st3)"
    have cap: "0 < StepCap te" using assms(2) by (simp add: capped_def word_gt_0)
    have g: "tl_wire ?go = tl_wire st1 \<and> steps_left te ?go \<le> steps_left te st1 \<and> (within_cap te st1 \<longrightarrow> within_cap te ?go)"
    proof -
      have "tl_budget ?go = tl_budget ?st3 \<and> tl_wire ?go = tl_wire ?st3" by (simp add: frame)
      moreover have "tl_wire ?st3 = tl_wire st1 \<and> steps_left te ?st3 \<le> steps_left te st1 \<and> (within_cap te st1 \<longrightarrow> within_cap te ?st3)"
        using marks_left(1) [of te ?st2] budget_only [of "glance st1" st1 te]
          budget_only [of "steer_notice te (te_wrap_up te steps (StepCap te)) (mark_wrap_up_sent te ?st2)" "mark_wrap_up_sent te ?st2" te]
        by (auto simp: frame)
      ultimately show ?thesis using budget_only [of ?go ?st3 te] by simp
    qed
    show ?thesis
    proof (cases "StepCap te < steps")
      case True
      then have "st' = fail_turn te StepLimit (StepLimitReached (StepCap te)) st1 \<and> res = Inl LoopOver"
        using assms(1) s Some t cap by (simp add: begin_round_def Let_def)
      then show ?thesis using left True budget_only [of st' st1 te] by (auto simp: frame not_le)
    next
      case False
      then have le: "within_cap te st1 \<and> steps_left te st = steps_left te st1 + 1" "tl_wire st1 = tl_wire st"
        using left by (auto simp: not_less)
      show ?thesis
      proof (cases "is_cancelled te st1")
        case True
        then have "st' = finish_turn_cancelled te (glance st1) \<and> res = Inl LoopOver"
          using assms(1) s Some t False by (simp add: begin_round_def Let_def)
        then show ?thesis using le budget_only [of st' st1 te] by (auto simp: frame)
      next
        case go: False
        then have "st' = ?go \<and> res = Inr rescued" using assms(1) s Some t False by (simp add: begin_round_def Let_def)
        then show ?thesis using le g by simp
      qed
    qed
  qed
qed

lemma rescue_pays:
  "rescue_overflow te estimated st = (st', result) \<Longrightarrow>
    tl_wire st' = tl_wire st \<and> steps_left te st' \<le> steps_left te st \<and> (within_cap te st \<longrightarrow> within_cap te st')"
proof -
  assume r: "rescue_overflow te estimated st = (st', result)"
  let ?st1 = "mark_overflow_rescued te st"
  have "tl_wire st' = tl_wire ?st1 \<and> tl_budget st' = tl_budget ?st1"
    using r by (auto simp: rescue_overflow_def Let_def frame split: prod.splits FoldOutcome.splits)
  then show ?thesis using marks_left(2) [of te st] budget_only [of st' ?st1 te] by simp
qed

lemma open_round_pays:
  assumes "open_round te route rescued estimated request st = (route', st', result)"
  shows "steps_left te st' \<le> steps_left te st \<and> (within_cap te st \<longrightarrow> within_cap te st') \<and>
    (case result of
       Opened gs \<Rightarrow> coherent_request (gs_request gs) \<and> allowance gs \<le> per_round te \<and>
         asked_more (per_round te - allowance gs) (tl_wire st) (tl_wire st')
     | OpeningEnds ending \<Rightarrow> ending \<noteq> LoopParked \<and> asked_more (per_round te) (tl_wire st) (tl_wire st')
     | OpeningAgain \<Rightarrow> asked_more (per_round te) (tl_wire st) (tl_wire st'))"
proof (cases "is_cancelled te st")
  case True
  then have "st' = finish_turn_cancelled te (glance st) \<and> result = OpeningEnds LoopOver"
    using assms by (simp add: open_round_def)
  then show ?thesis using budget_only [of st' st te] by (simp add: frame asked_none)
next
  case False
  obtain route1 w1 opened where o: "open_turn_stream (te_net te) (te_config te) route request (tl_wire st) = (route1, w1, opened)"
    using prod_cases3 by blast
  let ?st1 = "(glance st)\<lparr>tl_wire := w1\<rparr>"
  note asks = opened_asks [OF o]
  have all: "asked_more (per_round te) (tl_wire st) w1"
    using asks asked_mono by (cases opened) (auto simp: per_round_def)
  have st1: "tl_wire ?st1 = w1 \<and> tl_budget ?st1 = tl_budget st" by (simp add: frame)
  show ?thesis
  proof (cases "is_cancelled te ?st1")
    case True
    then have "st' = finish_turn_cancelled te (glance ?st1) \<and> result = OpeningEnds LoopOver"
      using assms False o by (simp add: open_round_def Let_def)
    then show ?thesis using st1 all budget_only [of st' st te] by (simp add: frame)
  next
    case go: False
    show ?thesis
    proof (cases opened)
      case (Inr gs)
      then have "st' = glance ?st1 \<and> result = Opened gs"
        using assms False o go by (simp add: open_round_def Let_def)
      then show ?thesis using st1 asks Inr budget_only [of st' st te] by (simp add: frame per_round_def)
    next
      case (Inl e)
      let ?near = "saturating_mul_u32 (context_window_for_model (te_catalog te) (effective_model route)) 95 div 100 \<le> estimated"
      show ?thesis
      proof (cases "\<not> rescued \<and> overflow_refusal ?near e")
        case True
        obtain st2 result2 where r: "rescue_overflow te estimated (glance ?st1) = (st2, result2)" by fastforce
        then have eq: "st' = st2 \<and> result = result2" using assms False o go Inl True by (simp add: open_round_def Let_def)
        have "result2 \<noteq> Opened gs \<and> result2 \<noteq> OpeningEnds LoopParked" for gs
          using r by (auto simp: rescue_overflow_def Let_def split: prod.splits FoldOutcome.splits)
        then show ?thesis using eq rescue_pays [OF r] st1 all budget_only [of "glance ?st1" st te]
          by (cases result2) (auto simp: frame)
      next
        case other: False
        then have "st' = fail_turn te ExecutionFailure (ProviderFailed e) (glance ?st1) \<and> result = OpeningEnds LoopOver"
          using assms False o go Inl by (auto simp: open_round_def Let_def)
        then show ?thesis using st1 all budget_only [of st' st te] by (simp add: frame)
      qed
    qed
  qed
qed

lemma run_round_pays:
  assumes "run_round fuel te carried st = Some (carried', st', ending)" "capped te" "within_cap te st"
  shows "paid te st st' \<and> (ending = Again \<or> ending = Ends LoopParked \<longrightarrow> within_cap te st') \<and>
    (ending = Again \<longrightarrow> steps_left te st' + 1 \<le> steps_left te st)"
proof -
  obtain route retries where c: "carried = (route, retries)" by (cases carried)
  obtain st1 began where b: "begin_round te (effective_model route) st = (st1, began)" by fastforce
  note begins = begin_round_pays [OF b assms(2,3)]
  show ?thesis
  proof (cases began)
    case (Inl e)
    then have "st' = st1 \<and> ending = Ends e" using assms(1) b by (simp add: run_round_def c)
    then show ?thesis using begins Inl by (auto intro: paid_refl)
  next
    case (Inr rescued)
    let ?request = "build_request te route st1"
    let ?estimated = "te_estimate_request te (cr_messages ?request)"
    obtain route2 st2 result where o: "open_round te route rescued ?estimated ?request (glance st1) = (route2, st2, result)"
      using prod_cases3 by blast
    note opnd = open_round_pays [OF o]
    have st1: "within_cap te (glance st1)" "steps_left te (glance st1) + 1 \<le> steps_left te st" "tl_wire (glance st1) = tl_wire st"
      using begins Inr budget_only [of "glance st1" st1 te] by (simp_all add: frame)
    have pay: "paid te st st3" if "asked_more (per_round te) (tl_wire st) (tl_wire st3)" "steps_left te st3 \<le> steps_left te (glance st1)" for st3
      using that st1(2) unfolding paid_def by (intro exI [of _ 1]) simp
    show ?thesis
    proof (cases result)
      case (OpeningEnds e)
      then have "st' = st2 \<and> ending = Ends e" using assms(1) b Inr o by (simp add: run_round_def c Let_def)
      then show ?thesis using opnd OpeningEnds st1 pay by simp
    next
      case OpeningAgain
      then have "st' = st2 \<and> ending = Again" using assms(1) b Inr o by (simp add: run_round_def c Let_def)
      then show ?thesis using opnd OpeningAgain st1 pay by auto
    next
      case (Opened gs)
      obtain gs3 rp3 st3 where rd: "read_reply fuel te gs no_reply st2 = Some (gs3, rp3, st3)"
        using assms(1) b Inr o Opened by (auto simp: run_round_def c Let_def split: option.splits)
      have "coherent_request (gs_request gs)" using opnd Opened by simp
      note reads = read_reply_asks [OF rd this]
      have "asked_more (per_round te) (tl_wire st) (tl_wire st3)"
        using opnd Opened reads st1(3)
          asked_trans [of "per_round te - allowance gs" "tl_wire st" "tl_wire st2" "allowance gs - allowance gs3" "tl_wire st3" "per_round te"]
        by simp
      moreover have "tl_wire st' = tl_wire st3 \<and> tl_budget st' = tl_budget st3"
        using assms(1) b Inr o Opened rd by (auto simp: run_round_def c Let_def split: prod.splits dest!: arg_cong [where f = fst] simp: frame)
      ultimately show ?thesis using opnd Opened reads st1(1,2) pay [of st'] budget_only [of st' st2 te] by auto
    qed
  qed
qed

lemma rounds_pay:
  "rounds n fuel te carried st = Some (st', ending) \<Longrightarrow> capped te \<Longrightarrow> within_cap te st \<Longrightarrow>
    paid te st st' \<and> (ending = LoopParked \<longrightarrow> within_cap te st')"
proof (induction n arbitrary: carried st)
  case (Suc n)
  obtain carried1 st1 ending1 where one: "run_round fuel te carried st = Some (carried1, st1, ending1)"
    using Suc.prems(1) by (cases "run_round fuel te carried st") auto
  note pays = run_round_pays [OF one Suc.prems(2,3)]
  show ?case
  proof (cases ending1)
    case Again
    then have "rounds n fuel te carried1 st1 = Some (st', ending)" using Suc.prems(1) one by simp
    then show ?thesis using Suc.IH pays Again Suc.prems(2) paid_trans by blast
  next
    case (Ends e)
    then show ?thesis using Suc.prems(1) one pays by auto
  qed
qed simp

lemma run_loop_pays:
  assumes "run_loop n fuel te st = Some (st', ending)" "capped te" "within_cap te st"
  shows "paid te st st' \<and> (ending = LoopParked \<longrightarrow> within_cap te st')"
proof (cases "is_current te st \<and> \<not> is_cancelled te (glance st)")
  case False
  then have "(st' = glance st \<or> st' = finish_turn_cancelled te (glance (glance st))) \<and> ending \<noteq> LoopParked"
    using assms(1) by (auto simp: run_loop_def split: if_splits)
  then show ?thesis using budget_only [of st' st te] by (auto intro!: paid_refl simp: frame)
next
  case True
  let ?st = "glance (glance st)"
  have "within_cap te ?st \<and> tl_wire ?st = tl_wire st \<and> steps_left te ?st = steps_left te st"
    using assms(3) budget_only [of ?st st te] by (simp add: frame)
  then show ?thesis using assms(1) True rounds_pay [OF _ assms(2), of n fuel _ ?st st' ending]
    by (auto simp: run_loop_def paid_def)
qed

lemma answer_turn_pays:
  assumes "answer_turn n fuel te answer st = Inr (Some (st', ending))" "capped te" "within_cap te st"
  shows "paid te st st' \<and> (ending = LoopParked \<longrightarrow> within_cap te st')"
proof -
  obtain i decision note' where a: "answer = (i, decision, note')" using prod_cases3 by blast
  obtain step rt where s: "submit_approval_with_denial_note (te_env te) i decision note' (tl_rt st) = Inr (step, rt)"
    using assms(1) by (auto simp: answer_turn_def a split: sum.splits)
  have same: "tl_wire (absorb rt st) = tl_wire st" "steps_left te (absorb rt st) = steps_left te st" "within_cap te (absorb rt st)"
    using assms(3) budget_only [of "absorb rt st" st te] by (simp_all add: frame)
  show ?thesis
  proof (cases step)
    case NextRound
    then have "run_loop n fuel te (absorb rt st) = Some (st', ending)" using assms(1) s by (simp add: answer_turn_def a)
    from run_loop_pays [OF this assms(2) same(3)] show ?thesis using same by (simp add: paid_def)
  next
    case Parked
    then have "st' = absorb rt st" using assms(1) s by (simp add: answer_turn_def a)
    then show ?thesis using same by (simp add: paid_refl)
  next
    case TurnOver
    then have "st' = finish_turn te (absorb rt st) \<and> ending = LoopOver" using assms(1) s by (simp add: answer_turn_def a)
    then show ?thesis using same budget_only [of st' "absorb rt st" te] by (auto intro!: paid_refl simp: frame)
  qed
qed

lemma answer_all_pays:
  "answer_all n fuel te answers (Some (st, ending)) = Some (st', ending') \<Longrightarrow> capped te \<Longrightarrow>
    (ending = LoopParked \<longrightarrow> within_cap te st) \<Longrightarrow> paid te st st'"
proof (induction answers arbitrary: st ending)
  case Nil
  then show ?case by (simp add: paid_refl)
next
  case (Cons answer answers)
  show ?case
  proof (cases "ending = LoopParked")
    case False
    then show ?thesis using Cons.prems(1) by (cases ending) (simp_all add: paid_refl)
  next
    case True
    show ?thesis
    proof (cases "answer_turn n fuel te answer st")
      case (Inl e)
      then show ?thesis using Cons True by simp
    next
      case (Inr r)
      have stuck: "answer_all n fuel te answers None = None" by (cases answers) simp_all
      then obtain st1 ending1 where r: "r = Some (st1, ending1)" using Cons.prems(1) True Inr by (cases r) auto
      note pays = answer_turn_pays [OF Inr [unfolded r] Cons.prems(2)]
      have "answer_all n fuel te answers (Some (st1, ending1)) = Some (st', ending')" using Cons.prems(1) True Inr r by simp
      then show ?thesis using Cons.IH [of st1 ending1] pays Cons.prems True paid_trans by blast
    qed
  qed
qed

lemma snapshot_frame [frame]:
  "tl_wire (snapshot_turn te label st) = tl_wire st" "tl_budget (snapshot_turn te label st) = tl_budget st"
  by (auto simp: snapshot_turn_def Let_def frame split: option.split sum.split SnapshotOutcome.split SnapshotSkip.split)


section \<open>A turn ends once\<close>

definition rt_terminal :: "RuntimeEvent \<Rightarrow> bool" where
  "rt_terminal event = (case event of TurnCancelled \<Rightarrow> True | BreakerError _ \<Rightarrow> True | _ \<Rightarrow> False)"

definition terminal :: "TurnEvent \<Rightarrow> bool" where
  "terminal event \<longleftrightarrow> ending_reason (Some event) \<noteq> None"

lemma rt_terminal_simps [simp]:
  "rt_terminal TurnCancelled" "rt_terminal (BreakerError p)" "\<not> rt_terminal (ToolCallFinished i r)" "\<not> rt_terminal (LostResult i)"
  "\<not> rt_terminal (ApprovalAsked request)" "\<not> rt_terminal (ApprovalResolved i decision)" "\<not> rt_terminal (RootGranted path)"
  "\<not> rt_terminal SessionUpdated"
  by (simp_all add: rt_terminal_def)

lemma terminal_simps [simp]:
  "terminal (FromBatch e) = rt_terminal e" "terminal (TurnFinished u t)" "terminal (TurnFailed kind why)"
  "\<not> terminal (TurnStarted p)" "\<not> terminal (AssistantDelta s)" "\<not> terminal (ReasoningText s)"
  "\<not> terminal (ToolCallUpdated i a)" "\<not> terminal (ToolCallStarted call)" "\<not> terminal (UserMessageInjected s)"
  "\<not> terminal (CheckpointCreated i l)" "\<not> terminal (TurnWarned w)"
  by (auto simp: terminal_def ending_reason_def rt_terminal_def split: RuntimeEvent.splits FailureKind.splits)

text \<open>From one state to the next, only events that end nothing.\<close>

definition quiet :: "'w Runtime \<Rightarrow> 'w Runtime \<Rightarrow> bool" where
  "quiet st st' \<longleftrightarrow> (\<exists>new. rt_events st' = rt_events st @ new \<and> list_all (\<lambda>e. \<not> rt_terminal e) new)"

lemma quiet_refl: "rt_events st' = rt_events st \<Longrightarrow> quiet st st'"
  by (simp add: quiet_def)

lemma quiet_trans: "quiet st st1 \<Longrightarrow> quiet st1 st2 \<Longrightarrow> quiet st st2"
  by (fastforce simp: quiet_def)

lemma quiet_one: "rt_events st' = rt_events st @ [e] \<Longrightarrow> \<not> rt_terminal e \<Longrightarrow> quiet st st'"
  by (simp add: quiet_def)

lemma failure_signals_events: "rt_events (record_failure_signals env call result st) = rt_events st"
  by (simp add: record_failure_signals_def note_boundary_denial_def note_tool_error_def Let_def split: option.split)

lemma record_result_quiet: "quiet st (record_result env call result ask st)"
  by (auto simp: record_result_def Let_def quiet_def emit_def tick_def failure_signals_events split: prod.split)

lemma run_tool_quiet: "run_tool env call decision authority st = (st', outcome) \<Longrightarrow> quiet st st'"
  by (auto simp: run_tool_def Let_def tick_def split: if_splits prod.splits intro!: quiet_refl)

lemma fold_quiet: "(\<And>x st. quiet st (f x st)) \<Longrightarrow> quiet st (fold f xs st)"
proof (induction xs arbitrary: st)
  case (Cons x xs)
  from quiet_trans [OF Cons.prems Cons.IH [OF Cons.prems]] show ?case by simp
qed (simp add: quiet_refl)

lemma run_group_quiet: "run_group env calls st = (st', outcomes) \<Longrightarrow> quiet st st'"
proof (induction calls arbitrary: st st' outcomes)
  case (Cons call calls)
  obtain st1 outcome where one: "run_tool env call None ByApproval st = (st1, outcome)" by fastforce
  obtain st2 outcomes2 where later: "run_group env calls st1 = (st2, outcomes2)" by fastforce
  show ?case using quiet_trans [OF run_tool_quiet [OF one] Cons.IH [OF later]] Cons.prems one later by simp
qed (simp add: quiet_refl)

lemma record_group_quiet: "quiet st (record_group env finished st)"
  unfolding record_group_def by (rule fold_quiet) (auto intro: record_result_quiet)

lemma tick_quiet: "quiet st (tick st)"
  by (simp add: tick_def quiet_refl)

lemma apply_root_grant_quiet: "apply_root_grant env call target st = (st', result) \<Longrightarrow> quiet st st'"
  by (auto simp: apply_root_grant_def Let_def tick_def emit_def remember_root_def quiet_def
      split: sum.splits option.splits if_splits prod.splits RootGrantOutcome.splits)

lemma ask_gate_quiet: "ask_gate env call request st = (st', parked) \<Longrightarrow> quiet st st'"
proof -
  assume a: "ask_gate env call request st = (st', parked)"
  let ?st1 = "emit (ApprovalResolved (tc_id call) Approved) (tick st)"
  have st1: "quiet st ?st1" by (rule quiet_one [where e = "ApprovalResolved (tc_id call) Approved"]) (simp add: emit_def tick_def, rule rt_terminal_simps)
  have "quiet st (record_result env call r ask st2)" if "run_tool env call d au ?st1 = (st2, outcome)" for r ask st2 d au outcome
    using quiet_trans [OF quiet_trans [OF st1 run_tool_quiet [OF that]] record_result_quiet] .
  moreover have "quiet st (record_result env call r ask (tick st))" for r ask
    using quiet_trans [OF tick_quiet record_result_quiet] .
  ultimately show ?thesis using a tick_quiet
    by (auto simp: ask_gate_def split: option.splits prod.splits RootGrantPrompt.splits)
qed

lemma cancelled_calls_events:
  "\<exists>new. rt_events (finish_cancelled_calls env calls st) = rt_events st @ new @ [TurnCancelled] \<and> list_all (\<lambda>e. \<not> rt_terminal e) new"
proof -
  let ?st = "fold (\<lambda>call. record_result env call (error_result call CancelledResult) Unasked) calls st"
  have "quiet st ?st" by (rule fold_quiet) (rule record_result_quiet)
  then obtain new where "rt_events ?st = rt_events st @ new" "list_all (\<lambda>e. \<not> rt_terminal e) new" by (auto simp: quiet_def)
  then show ?thesis
    by (intro exI [of _ "new @ [SessionUpdated]"]) (simp add: finish_cancelled_calls_def flush_session_update_def emit_def)
qed

text \<open>The events of a batch: a cancelled one ends with the cancellation, any other ends nothing.\<close>

definition batch_events :: "'w Runtime \<Rightarrow> bool \<Rightarrow> 'w Runtime \<Rightarrow> bool" where
  "batch_events st cancelled st' \<longleftrightarrow>
     (\<exists>new. rt_events st' = rt_events st @ new @ (if cancelled then [TurnCancelled] else []) \<and> list_all (\<lambda>e. \<not> rt_terminal e) new)"

lemma batch_events_after: "quiet st st1 \<Longrightarrow> batch_events st1 c st2 \<Longrightarrow> batch_events st c st2"
proof -
  assume "quiet st st1" "batch_events st1 c st2"
  then obtain a b where "rt_events st1 = rt_events st @ a" "list_all (\<lambda>e. \<not> rt_terminal e) a"
    "rt_events st2 = rt_events st1 @ b @ (if c then [TurnCancelled] else [])" "list_all (\<lambda>e. \<not> rt_terminal e) b"
    by (auto simp: quiet_def batch_events_def)
  then show ?thesis unfolding batch_events_def by (intro exI [of _ "a @ b"]) simp
qed

lemma quiet_batch: "quiet st st' \<Longrightarrow> batch_events st False st'"
  by (simp add: quiet_def batch_events_def)

lemma cancelled_batch: "batch_events st True (finish_cancelled_calls env calls st)"
  using cancelled_calls_events by (simp add: batch_events_def)

lemma park_events:
  "park env request call remaining target st = (outcome, st') \<Longrightarrow>
    (outcome = AwaitingApproval \<or> outcome = BatchCancelled) \<and> batch_events st (outcome = BatchCancelled) st'"
  by (auto simp: park_def split: if_splits
      intro!: quiet_batch quiet_refl batch_events_after [OF tick_quiet cancelled_batch])
     (simp add: tick_def)

lemma process_events:
  "process_tool_batch env calls st = (outcome, st') \<Longrightarrow> batch_events st (outcome = BatchCancelled) st'"
proof (induction env calls st arbitrary: outcome st' rule: process_tool_batch.induct)
  case (1 env st)
  then show ?case by (auto simp: flush_session_update_def emit_def intro!: quiet_batch quiet_one)
next
  case (2 env call remaining st)
  show ?case
  proof (cases "owns_turn env st")
    case False
    then show ?thesis using "2.prems" by (auto intro: batch_events_after [OF tick_quiet cancelled_batch])
  next
    case owns: True
    show ?thesis
    proof (cases "is_parallel_safe env call \<and> (case remaining of [] \<Rightarrow> False | following # _ \<Rightarrow> is_parallel_safe env following)")
      case True
      obtain st1 outcomes where g: "run_group env (call # takeWhile (is_parallel_safe env) remaining) (tick st) = (st1, outcomes)"
        by fastforce
      have q: "quiet st (record_group env (zip (call # takeWhile (is_parallel_safe env) remaining) outcomes) st1)"
        using quiet_trans [OF quiet_trans [OF tick_quiet run_group_quiet [OF g]] record_group_quiet] .
      show ?thesis
        using "2.prems" "2.IH"(1) [OF _ True refl g [symmetric]] owns True g batch_events_after [OF q] by auto
    next
      case False
      obtain st1 res where r: "run_tool env call None ByApproval (tick st) = (st1, res)" by fastforce
      note q1 = quiet_trans [OF tick_quiet run_tool_quiet [OF r]]
      note q2 = quiet_trans [OF q1 record_result_quiet]
      show ?thesis
      proof (cases res)
        case (Inl e)
        then show ?thesis using "2.prems" "2.IH"(2) [OF _ False r [symmetric] Inl] owns False r
          by (auto intro: batch_events_after [OF q2])
      next
        case (Inr out)
        show ?thesis
        proof (cases out)
          case (Result result)
          then show ?thesis using "2.prems" "2.IH"(4) [OF _ False r [symmetric] Inr Result] owns False r Inr
            by (auto intro: batch_events_after [OF q2])
        next
          case (ApprovalRequired request)
          obtain st2 parked where a: "ask_gate env call request st1 = (st2, parked)" by fastforce
          note q3 = quiet_trans [OF q1 ask_gate_quiet [OF a]]
          show ?thesis
          proof (cases parked)
            case None
            then show ?thesis using "2.prems" "2.IH"(3) [OF _ False r [symmetric] Inr ApprovalRequired a [symmetric] None]
                owns False r Inr ApprovalRequired a
              by (auto intro: batch_events_after [OF q3])
          next
            case (Some p)
            obtain request' target where p: "p = (request', target)" by (cases p)
            obtain o3 st3 where k: "park env request' call remaining target st2 = (o3, st3)" by fastforce
            note pk = park_events [OF k]
            show ?thesis
            proof (cases "o3 = AwaitingApproval")
              case True
              then have res: "outcome = AwaitingApproval \<and> st' = emit (ApprovalAsked request') (flush_session_update st3)"
                using "2.prems" owns False r Inr ApprovalRequired a Some p k by auto
              have "quiet st3 st'" using res by (simp add: quiet_def emit_def flush_session_update_def)
              moreover have "quiet st2 st3" using pk True by (simp add: batch_events_def quiet_def)
              ultimately show ?thesis using res quiet_batch quiet_trans [OF q3] quiet_trans by fastforce
            next
              case other: False
              then have "o3 = BatchCancelled" using pk by auto
              then have "outcome = BatchCancelled \<and> st' = st3"
                using "2.prems" owns False r Inr ApprovalRequired a Some p k by auto
              then show ?thesis using pk other batch_events_after [OF q3] by auto
            qed
          qed
        qed
      qed
    qed
  qed
qed

text \<open>The events a part of the turn says: any that end nothing, and then the given endings.\<close>

definition says :: "'w Turn \<Rightarrow> TurnEvent list \<Rightarrow> 'w Turn \<Rightarrow> bool" where
  "says st endings st' \<longleftrightarrow>
     (\<exists>new. tl_events st' = tl_events st @ new @ endings \<and> list_all (\<lambda>e. \<not> terminal e) new)"

lemma says_refl: "tl_events st' = tl_events st @ endings \<Longrightarrow> says st endings st'"
  unfolding says_def by (intro exI [of _ "[]"]) simp

lemma says_nothing: "tl_events st' = tl_events st \<Longrightarrow> says st [] st'"
  by (rule says_refl) simp

lemma says_more: "tl_events st' = tl_events st @ new \<Longrightarrow> list_all (\<lambda>e. \<not> terminal e) new \<Longrightarrow> says st [] st'"
  by (simp add: says_def)

lemma says_same: "tl_events st2 = tl_events st1 \<Longrightarrow> says st endings st1 \<Longrightarrow> says st endings st2"
  by (simp add: says_def)

lemma says_trans:
  assumes "says st [] st1" "says st1 endings st2"
  shows "says st endings st2"
proof -
  obtain a b where "tl_events st1 = tl_events st @ a" "list_all (\<lambda>e. \<not> terminal e) a"
    "tl_events st2 = tl_events st1 @ b @ endings" "list_all (\<lambda>e. \<not> terminal e) b"
    using assms by (auto simp: says_def)
  then show ?thesis unfolding says_def by (intro exI [of _ "a @ b"]) simp
qed

lemma says_then: "says st a st1 \<Longrightarrow> tl_events st2 = tl_events st1 @ b \<Longrightarrow> says st (a @ b) st2"
  by (auto simp: says_def)

definition ends_turn :: "TurnEvent list \<Rightarrow> bool" where
  "ends_turn endings \<longleftrightarrow>
     (\<exists>e. endings = [e] \<and> terminal e) \<or>
     (\<exists>e. endings = [TurnFailed ExecutionFailure (ProviderFailed e), FromBatch TurnCancelled])"

text \<open>How a loop that ends in a given way ends its events.\<close>

definition ends_events :: "LoopEnd \<Rightarrow> TurnEvent list \<Rightarrow> bool" where
  "ends_events ending endings \<longleftrightarrow> (if ending = LoopOver then ends_turn endings else endings = [])"

lemma over_with: "says st [e] st' \<Longrightarrow> terminal e \<Longrightarrow> \<exists>endings. says st endings st' \<and> ends_events LoopOver endings"
  by (intro exI [of _ "[e]"]) (simp add: ends_events_def ends_turn_def)

lemma drain_says: "says st [] (drain_steering te st)"
proof -
  have "list_all (\<lambda>e. \<not> terminal e) (concat (map injected queue))" for queue
    by (induction queue) (auto simp: injected_def split: Steered.split)
  then show ?thesis by (auto simp: drain_steering_def Let_def frame intro: says_more says_nothing)
qed

lemma begin_round_says:
  assumes "begin_round te model st = (st', res)"
  shows "case res of Inl ending \<Rightarrow> \<exists>endings. says st endings st' \<and> ends_events ending endings | Inr _ \<Rightarrow> says st [] st'"
proof -
  obtain st1 spent where s: "spend_step te st = (st1, spent)" by fastforce
  then have st1: "tl_events st1 = tl_events st" by (auto simp: spend_step_def Let_def frame split: option.splits)
  have over: "\<exists>endings. says st endings st2 \<and> ends_events LoopOver endings"
    if "tl_events st2 = tl_events st @ [e]" "terminal e" for st2 e
    using says_refl [OF that(1)] that(2) by (auto simp: ends_events_def ends_turn_def)
  show ?thesis
  proof (cases spent)
    case None
    then show ?thesis using assms s st1
      by (auto simp: begin_round_def ends_events_def intro: says_nothing)
  next
    case (Some t)
    obtain steps sent rescued where t: "t = (steps, sent, rescued)" using prod_cases3 by blast
    let ?st3 = "if budget_wrap_up_due steps (StepCap te) sent
      then steer_notice te (te_wrap_up te steps (StepCap te)) (mark_wrap_up_sent te (glance st1)) else glance st1"
    have "tl_events (turn_compacts te model ?st3) = tl_events st"
      using st1 by (simp add: frame mark_wrap_up_sent_def)
    then have go: "says st [] (drain_steering te (turn_compacts te model ?st3))"
      by (rule says_trans [OF says_nothing drain_says])
    show ?thesis using assms s Some t st1 go
      by (auto simp: begin_round_def Let_def frame split: if_splits intro!: over)
  qed
qed

lemma rescue_says:
  assumes "rescue_overflow te estimated st = (st', result)"
  shows "case result of
     OpeningEnds ending \<Rightarrow> \<exists>endings. says st endings st' \<and> ends_events ending endings
   | _ \<Rightarrow> says st [] st'"
proof -
  have marked: "tl_events (mark_overflow_rescued te st) = tl_events st" by (simp add: mark_overflow_rescued_def frame)
  have over: "\<exists>endings. says st endings st2 \<and> ends_events LoopOver endings"
    if "tl_events st2 = tl_events st @ [e]" "terminal e" for st2 e
    using says_refl [OF that(1)] that(2) by (auto simp: ends_events_def ends_turn_def)
  show ?thesis using assms marked
    by (auto simp: rescue_overflow_def Let_def frame split: prod.splits FoldOutcome.splits
        intro!: over says_more [where new = "[TurnWarned OverflowRescued]"])
qed

lemma open_round_says:
  assumes "open_round te route rescued estimated request st = (route', st', result)"
  shows "case result of
     OpeningEnds ending \<Rightarrow> \<exists>endings. says st endings st' \<and> ends_events ending endings
   | _ \<Rightarrow> says st [] st'"
proof -
  have over: "\<exists>endings. says st endings st2 \<and> ends_events LoopOver endings"
    if "tl_events st2 = tl_events st @ [e]" "terminal e" for st2 e
    using says_refl [OF that(1)] that(2) by (auto simp: ends_events_def ends_turn_def)
  obtain route1 w1 opened where o: "open_turn_stream (te_net te) (te_config te) route request (tl_wire st) = (route1, w1, opened)"
    using prod_cases3 by blast
  let ?st1 = "glance ((glance st)\<lparr>tl_wire := w1\<rparr>)"
  obtain st2 result2 where r: "rescue_overflow te estimated ?st1 = (st2, result2)" by fastforce
  have same: "says st endings st3 = says ?st1 endings st3" for endings st3 by (simp add: says_def frame)
  note rescued = rescue_says [OF r, folded same]
  show ?thesis using assms o r rescued
    by (auto simp: open_round_def Let_def frame split: if_splits sum.splits intro!: over says_nothing)
qed

lemma take_event_says:
  assumes "take_event event rp st = (rp', st', stop)"
  shows "rp_cancelled rp' = rp_cancelled rp \<and>
    (case event of
       Inl e \<Rightarrow> \<not> stop \<and> rp_error rp' \<and> tl_events st' = tl_events st @ [TurnFailed ExecutionFailure (ProviderFailed e)]
     | Inr _ \<Rightarrow>
         if stop then rp_error rp' \<and> (\<exists>e. tl_events st' = tl_events st @ [e] \<and> terminal e)
         else rp_error rp' = rp_error rp \<and> says st [] st')"
  using assms
  by (auto simp: take_event_def Let_def frame says_def split: sum.splits AgentEvent.splits option.splits)

text \<open>A stream that failed yields nothing more.\<close>

lemma next_after_error: "next_event net gs w = (gs', w', Some (Inl e)) \<Longrightarrow> coherent_request (gs_request gs) \<Longrightarrow> gs_finished gs'"
  using next_event_ok [of net gs w gs' w' "Some (Inl e)"] finished_is_over [of gs net w]
  by (cases "gs_finished gs") (auto simp: step_ok_def)

lemma read_after_error:
  assumes "read_reply fuel te gs rp st = Some (gs', rp', st')" "gs_finished gs"
  shows "tl_events st' = tl_events st \<and> rp_error rp' = rp_error rp"
  using assms by (cases fuel) (auto simp: finished_is_over frame split: if_splits)

text \<open>Reading a reply says nothing that ends the turn, unless it ends in an error; a transport error may be
  followed by a cancellation.\<close>

lemma read_reply_says:
  "read_reply fuel te gs rp st = Some (gs', rp', st') \<Longrightarrow> coherent_request (gs_request gs) \<Longrightarrow> \<not> rp_error rp \<Longrightarrow> \<not> rp_cancelled rp \<Longrightarrow>
    (if \<not> rp_error rp' then says st [] st'
     else \<exists>e. terminal e \<and> says st [e] st' \<and>
       (rp_cancelled rp' \<longrightarrow> (\<exists>why. e = TurnFailed ExecutionFailure (ProviderFailed why))))"
proof (induction fuel arbitrary: gs rp st)
  case (Suc fuel)
  show ?case
  proof (cases "is_cancelled te st")
    case True
    then show ?thesis using Suc.prems by (auto simp: frame intro: says_nothing)
  next
    case False
    obtain gs1 w1 r where one: "next_event (te_net te) gs (tl_wire st) = (gs1, w1, r)" using prod_cases3 by blast
    show ?thesis
    proof (cases r)
      case None
      then show ?thesis using Suc.prems False one by (auto simp: frame intro: says_nothing)
    next
      case (Some event)
      let ?st = "(glance st)\<lparr>tl_wire := w1\<rparr>"
      obtain rp1 st1 stop where taken: "take_event event rp ?st = (rp1, st1, stop)" using prod_cases3 by blast
      note t = take_event_says [OF taken]
      have same: "tl_events ?st = tl_events st" by (simp add: frame)
      have coh: "coherent_request (gs_request gs1)" using next_allowance [OF one Suc.prems(2)] Suc.prems(2) by simp
      show ?thesis
      proof (cases stop)
        case True
        then have "gs' = gs1 \<and> rp' = rp1 \<and> st' = st1" using Suc.prems(1) False one Some taken by simp
        then show ?thesis using t True same Suc.prems(4) by (auto split: sum.splits intro: says_refl)
      next
        case go: False
        then have later: "read_reply fuel te gs1 rp1 st1 = Some (gs', rp', st')"
          using Suc.prems(1) False one Some taken by simp
        show ?thesis
        proof (cases event)
          case (Inl why)
          have "gs_finished gs1" using next_after_error one Some Inl Suc.prems(2) by blast
          note after = read_after_error [OF later this]
          then have "says st [TurnFailed ExecutionFailure (ProviderFailed why)] st'"
            using t Inl same by (intro says_refl) simp
          then show ?thesis using after t Inl
            by (simp, intro exI [of _ "TurnFailed ExecutionFailure (ProviderFailed why)"], simp)
        next
          case (Inr ev)
          then have q: "says st [] st1" "\<not> rp_error rp1" "\<not> rp_cancelled rp1"
            using t go same Suc.prems(3,4) by (simp_all add: says_def)
          show ?thesis using Suc.IH [OF later coh q(2,3)] says_trans [OF q(1)] by (auto split: if_splits)
        qed
      qed
    qed
  qed
qed simp

lemma answer_says:
  "\<exists>endings. says st endings (finish_with_answer te route rp p n k st) \<and> ends_events LoopOver endings"
proof -
  obtain st1 t where b: "build_turn_telemetry te route (rp_usage rp) p n k st = (st1, t)" by fastforce
  let ?st2 = "say (FromBatch SessionUpdated) (finish_turn te st1)"
  let ?warnings = "map (\<lambda>w. TurnWarned (OtherWarning w)) (te_lsp_warnings te (clock ?st2))"
  have "tl_events (finish_with_answer te route rp p n k st) =
      tl_events st @ (FromBatch SessionUpdated # ?warnings) @ [TurnFinished (rp_usage rp) t]"
    using telemetry_frame [OF b] by (simp add: finish_with_answer_def b Let_def frame)
  moreover have "list_all (\<lambda>e. \<not> terminal e) (FromBatch SessionUpdated # ?warnings)" by (simp add: list_all_iff)
  ultimately have "says st [TurnFinished (rp_usage rp) t] (finish_with_answer te route rp p n k st)" unfolding says_def by blast
  then show ?thesis by (intro exI [of _ "[TurnFinished (rp_usage rp) t]"]) (simp add: ends_events_def ends_turn_def)
qed

lemma batch_quiet_events: "list_all (\<lambda>e. \<not> rt_terminal e) es \<Longrightarrow> list_all (\<lambda>e. \<not> terminal e) (map FromBatch es)"
  by (induction es) simp_all

lemma breaker_events:
  "boundary_breaker_tripped rt = (tripped, rt') \<Longrightarrow>
    rt_events rt' = rt_events rt @ (if tripped then [BreakerError (rt_last_boundary_denial_path rt)] else [])"
  by (auto simp: boundary_breaker_tripped_def emit_def split: if_splits)

text \<open>A batch taken over into the turn, its events counted from a runtime with none.\<close>

lemma absorb_says:
  assumes "batch_events rt0 c rt" "rt_events rt0 = []"
  shows "says st (if c then [FromBatch TurnCancelled] else []) (absorb rt st)"
proof -
  obtain new where new: "rt_events rt = new @ (if c then [TurnCancelled] else [])" "list_all (\<lambda>e. \<not> rt_terminal e) new"
    using assms by (auto simp: batch_events_def)
  have "tl_events (absorb rt st) = tl_events st @ map FromBatch new @ (if c then [FromBatch TurnCancelled] else [])"
    by (simp add: frame new(1))
  then show ?thesis unfolding says_def using batch_quiet_events [OF new(2)] by blast
qed

lemma absorb_breaker_says:
  assumes "batch_events rt0 False rt" "rt_events rt0 = []" "boundary_breaker_tripped rt = (True, rt')"
  shows "\<exists>p. says st [FromBatch (BreakerError p)] (absorb rt' st)"
proof -
  obtain new where new: "rt_events rt = new" "list_all (\<lambda>e. \<not> rt_terminal e) new"
    using assms by (auto simp: batch_events_def)
  have "tl_events (absorb rt' st) = tl_events st @ map FromBatch new @ [FromBatch (BreakerError (rt_last_boundary_denial_path rt))]"
    using breaker_events [OF assms(3)] by (simp add: frame new(1))
  then show ?thesis unfolding says_def using batch_quiet_events [OF new(2)] by blast
qed

lemma run_batch_says:
  assumes "run_batch te calls st = (st', ending)" "rt_events (tl_rt st) = []"
  shows "case ending of Again \<Rightarrow> says st [] st' | Ends e \<Rightarrow> \<exists>endings. says st endings st' \<and> ends_events e endings"
proof -
  let ?st1 = "say (FromBatch SessionUpdated) (fold (\<lambda>call. say (ToolCallStarted call)) calls st)"
  have rt: "tl_rt (fold (\<lambda>call. say (ToolCallStarted call)) calls st) = tl_rt st" for st :: "'a Turn"
    by (induction calls arbitrary: st) (simp_all add: say_def)
  have rt1: "rt_events (tl_rt ?st1) = []" using assms(2) by (simp add: rt say_def)
  have "tl_events ?st1 = tl_events st @ (map ToolCallStarted calls @ [FromBatch SessionUpdated])" by (simp add: frame)
  then have st1: "says st [] ?st1" by (rule says_more) (simp add: list_all_iff)
  obtain outcome rt2 where p: "process_tool_batch (te_env te) calls (tl_rt ?st1) = (outcome, rt2)" by fastforce
  note pe = process_events [OF p]
  show ?thesis
  proof (cases outcome)
    case Completed
    obtain tripped rt3 where b: "boundary_breaker_tripped rt2 = (tripped, rt3)" by fastforce
    show ?thesis
    proof (cases tripped)
      case True
      have "\<exists>p. says ?st1 [FromBatch (BreakerError p)] (absorb rt3 ?st1)"
        by (rule absorb_breaker_says [OF _ rt1]) (use pe b Completed True in simp_all)
      then obtain pth where "says ?st1 [FromBatch (BreakerError pth)] (absorb rt3 ?st1)" by blast
      then have "says st [FromBatch (BreakerError pth)] (abort_turn te (absorb rt3 ?st1))"
        by (intro says_same [OF _ says_trans [OF st1]]) (simp_all add: frame)
      from over_with [OF this] show ?thesis using assms(1) p b Completed True
        by (auto simp: run_batch_def Let_def)
    next
      case False
      then have "rt3 = rt2" using b by (auto simp: boundary_breaker_tripped_def split: if_splits)
      then have "says st [] (absorb rt3 ?st1)" using says_trans [OF st1] absorb_says [OF _ rt1, of False rt2] pe Completed by simp
      then show ?thesis using assms(1) p b Completed False by (auto simp: run_batch_def Let_def)
    qed
  next
    case AwaitingApproval
    then have "says st [] (absorb rt2 ?st1)" using says_trans [OF st1] absorb_says [OF _ rt1, of False rt2] pe by simp
    then show ?thesis using assms(1) p AwaitingApproval by (auto simp: run_batch_def Let_def ends_events_def)
  next
    case BatchCancelled
    then have "says st [FromBatch TurnCancelled] (absorb rt2 ?st1)"
      using says_trans [OF st1] absorb_says [OF _ rt1, of True rt2] pe by simp
    then have "says st [FromBatch TurnCancelled] (finish_turn te (absorb rt2 ?st1))"
      by (rule says_same [rotated]) (simp add: frame)
    from over_with [OF this] show ?thesis using assms(1) p BatchCancelled
      by (auto simp: run_batch_def Let_def)
  qed
qed

lemma settle_says:
  assumes "settle_reply te route a rp p n k st = (st', ending)" "rt_events (tl_rt st) = []" "says st0 endings0 st"
    and "if rp_error rp then \<exists>e. endings0 = [e] \<and> terminal e \<and>
          (rp_cancelled rp \<longrightarrow> (\<exists>why. e = TurnFailed ExecutionFailure (ProviderFailed why))) else endings0 = []"
  shows "case ending of Again \<Rightarrow> says st0 [] st' | Ends e \<Rightarrow> \<exists>endings. says st0 endings st' \<and> ends_events e endings"
proof -
  have say: "\<exists>endings. says st0 endings st2 \<and> ends_events LoopOver endings"
    if "tl_events st2 = tl_events st @ [e]" "terminal e" "endings0 = []" for st2 e
    using says_then [OF assms(3) that(1)] that(2,3) by (auto simp: ends_events_def ends_turn_def)
  show ?thesis
  proof (cases "rp_cancelled rp")
    case True
    then have st': "st' = finish_turn_cancelled te (record_partial_reply te a rp st)" "ending = Ends LoopOver"
      using assms(1) by (simp_all add: settle_reply_def)
    have "says st0 (endings0 @ [FromBatch TurnCancelled]) st'" by (rule says_then [OF assms(3)]) (simp add: st' frame)
    moreover have "ends_turn (endings0 @ [FromBatch TurnCancelled])"
      using assms(4) True by (auto simp: ends_turn_def split: if_splits)
    ultimately show ?thesis using st' by (auto simp: ends_events_def)
  next
    case going: False
    show ?thesis
    proof (cases "rp_error rp")
      case True
      then have st': "st' = abort_turn te (record_partial_reply te a rp st)" "ending = Ends LoopOver"
        using assms(1) going by (simp_all add: settle_reply_def)
      have "says st0 endings0 st'" using assms(3) by (simp add: says_def st' frame)
      then show ?thesis using st' assms(4) True by (auto simp: ends_events_def ends_turn_def)
    next
      case fine: False
      then have e0: "endings0 = []" using assms(4) by simp
      show ?thesis
      proof (cases "accumulator_finish (te_from_str te) (rp_acc rp)")
        case (Inl e)
        then have "st' = fail_turn te ExecutionFailure (BadToolCall e) st \<and> ending = Ends LoopOver"
          using assms(1) going fine by (simp add: settle_reply_def)
        then show ?thesis using e0 by (auto simp: frame intro!: say)
      next
        case (Inr calls)
        show ?thesis
        proof (cases "\<not> is_current te st \<or> is_cancelled te st")
          case True
          then have "st' = finish_turn_cancelled te (record_partial_reply te a rp (glance st)) \<and> ending = Ends LoopOver"
            using assms(1) going fine Inr by (auto simp: settle_reply_def)
          then show ?thesis using e0 by (auto simp: frame intro!: say)
        next
          case ours: False
          let ?st1 = "with_session (push_assistant (te_turn te) (rp_text rp) (rp_reasoning rp)
            (map (tool_call_payload te) calls) (session_of st)) (glance st)"
          have st1: "says st0 [] ?st1" using assms(3) e0 by (simp add: says_def frame)
          have rt1: "rt_events (tl_rt ?st1) = []" using assms(2) by (simp add: with_session_def glance_def tick_def)
          show ?thesis
          proof (cases "calls = []")
            case True
            then have "st' = finish_with_answer te route rp p n k ?st1 \<and> ending = Ends LoopOver"
              using assms(1) going fine Inr ours by (auto simp: settle_reply_def Let_def)
            then show ?thesis using answer_says [of ?st1 te route rp p n k] says_trans [OF st1] by auto
          next
            case False
            then have rb: "run_batch te calls ?st1 = (st', ending)"
              using assms(1) going fine Inr ours by (auto simp: settle_reply_def Let_def)
            show ?thesis using run_batch_says [OF rb rt1] says_trans [OF st1] by (auto split: RoundEnd.splits)
          qed
        qed
      qed
    qed
  qed
qed

text \<open>Between two rounds the events of the last batch were taken over.\<close>

definition taken_over :: "'w Turn \<Rightarrow> bool" where
  "taken_over st \<longleftrightarrow> rt_events (tl_rt st) = []"

lemma takes_over [frame]:
  "taken_over (glance st) = taken_over st" "taken_over (say e st) = taken_over st"
  "taken_over (with_session s st) = taken_over st" "taken_over (absorb rt st)"
  "taken_over (st\<lparr>tl_wire := w\<rparr>) = taken_over st" "taken_over (st\<lparr>tl_budget := b\<rparr>) = taken_over st"
  "taken_over (st\<lparr>tl_steering := q\<rparr>) = taken_over st" "taken_over (st\<lparr>tl_attempts := a\<rparr>) = taken_over st"
  "taken_over (st\<lparr>tl_steering := q, tl_events := es\<rparr>) = taken_over st" "taken_over (st\<lparr>tl_events := es\<rparr>) = taken_over st"
  "taken_over (st\<lparr>tl_checkpoints := c\<rparr>) = taken_over st"
  by (simp_all add: taken_over_def glance_def tick_def say_def with_session_def absorb_def)

lemma take_over_say_all [frame]: "taken_over (fold (\<lambda>x. say (f x)) xs st) = taken_over st"
  by (induction xs arbitrary: st) (simp_all add: frame)

lemma take_over_finish [frame]: "taken_over (finish_turn te st) = taken_over st"
  by (simp add: finish_turn_def taken_over_def glance_def tick_def)

lemma take_over_endings [frame]:
  "taken_over (finish_turn_cancelled te st) = taken_over st" "taken_over (fail_turn te kind why st) = taken_over st"
  by (simp_all add: finish_turn_cancelled_def fail_turn_def abort_turn_def frame)

lemma begin_round_taken: "begin_round te model st = (st', res) \<Longrightarrow> taken_over st \<Longrightarrow> taken_over st'"
  by (auto simp: begin_round_def spend_step_def mark_wrap_up_sent_def steer_notice_def drain_steering_def turn_compacts_def
      Let_def frame split: option.splits prod.splits if_splits)

lemma open_round_taken: "open_round te route rescued k request st = (route', st', res) \<Longrightarrow> taken_over st \<Longrightarrow> taken_over st'"
  by (auto simp: open_round_def rescue_overflow_def mark_overflow_rescued_def Let_def frame
      split: prod.splits if_splits sum.splits FoldOutcome.splits)

lemma take_event_taken: "take_event event rp st = (rp', st', stop) \<Longrightarrow> taken_over st' = taken_over st"
  by (auto simp: take_event_def accumulate_request_usage_def taken_over_def say_def glance_def tick_def Let_def
      split: sum.splits AgentEvent.splits option.splits)

lemma read_reply_taken: "read_reply fuel te gs rp st = Some (gs', rp', st') \<Longrightarrow> taken_over st' = taken_over st"
proof (induction fuel arbitrary: gs rp st)
  case (Suc fuel)
  obtain gs1 w1 r where one: "next_event (te_net te) gs (tl_wire st) = (gs1, w1, r)" using prod_cases3 by blast
  show ?case
  proof (cases "is_cancelled te st \<or> r = None")
    case True
    then show ?thesis using Suc.prems one by (auto simp: frame split: if_splits)
  next
    case False
    then obtain event where r: "r = Some event" by auto
    obtain rp1 st1 stop where taken: "take_event event rp ((glance st)\<lparr>tl_wire := w1\<rparr>) = (rp1, st1, stop)" using prod_cases3 by blast
    have st1: "taken_over st1 = taken_over st" using take_event_taken [OF taken] by (simp add: frame)
    show ?thesis using Suc.prems Suc.IH False one r taken st1 by (cases stop) auto
  qed
qed simp

lemma run_batch_taken: "run_batch te calls st = (st', Again) \<Longrightarrow> taken_over st'"
  by (auto simp: run_batch_def Let_def frame split: prod.splits BatchOutcome.splits bool.splits)

lemma settle_taken: "settle_reply te route a rp p n k st = (st', Again) \<Longrightarrow> taken_over st'"
  by (auto simp: settle_reply_def Let_def split: if_splits sum.splits dest: run_batch_taken)

lemma run_round_says:
  assumes "run_round fuel te carried st = Some (carried', st', ending)" "taken_over st"
  shows "case ending of
     Again \<Rightarrow> says st [] st' \<and> taken_over st'
   | Ends e \<Rightarrow> \<exists>endings. says st endings st' \<and> ends_events e endings"
proof -
  obtain route retries where c: "carried = (route, retries)" by (cases carried)
  obtain st1 began where b: "begin_round te (effective_model route) st = (st1, began)" by fastforce
  note begins = begin_round_says [OF b] and t1 = begin_round_taken [OF b assms(2)]
  show ?thesis
  proof (cases began)
    case (Inl e)
    then show ?thesis using assms(1) b begins by (auto simp: run_round_def c)
  next
    case (Inr rescued)
    let ?request = "build_request te route st1"
    let ?estimated = "te_estimate_request te (cr_messages ?request)"
    obtain route2 st2 result where o: "open_round te route rescued ?estimated ?request (glance st1) = (route2, st2, result)"
      using prod_cases3 by blast
    have s1: "says st [] (glance st1)" using begins Inr by (simp add: says_def frame)
    note opening_says = open_round_says [OF o] and t2 = open_round_taken [OF o]
    have t2: "taken_over st2" using t2 t1 by (simp add: frame)
    show ?thesis
    proof (cases result)
      case (OpeningEnds e)
      then obtain endings where "says st endings st2 \<and> ends_events e endings" using opening_says says_trans [OF s1] by auto
      then show ?thesis using assms(1) b Inr o OpeningEnds by (auto simp: run_round_def c Let_def)
    next
      case OpeningAgain
      then show ?thesis using assms(1) b Inr o opening_says says_trans [OF s1] t2 by (auto simp: run_round_def c Let_def)
    next
      case (Opened gs)
      obtain gs3 rp3 st3 where rd: "read_reply fuel te gs no_reply st2 = Some (gs3, rp3, st3)"
        using assms(1) b Inr o Opened by (auto simp: run_round_def c Let_def split: option.splits)
      have coh: "coherent_request (gs_request gs)" using open_round_pays [OF o] Opened by simp
      note reads = read_reply_says [OF rd coh]
      have s2: "says st [] st2" using says_trans [OF s1] opening_says Opened by simp
      obtain endings0 where e0: "says st endings0 st3"
        "if rp_error rp3 then \<exists>e. endings0 = [e] \<and> terminal e \<and>
          (rp_cancelled rp3 \<longrightarrow> (\<exists>why. e = TurnFailed ExecutionFailure (ProviderFailed why))) else endings0 = []"
        using reads says_trans [OF s2] by (cases "rp_error rp3") (auto simp: no_reply_def)
      have t3: "rt_events (tl_rt st3) = []" using read_reply_taken [OF rd] t2 by (simp add: taken_over_def)
      have s: "settle_reply te route2 (reply_anchor st1) rp3
          (probe_prefix (te_fingerprint te) (cr_messages ?request) (tl_last_prefix st1)) ?estimated
          (retries + of_nat (gs_retries_used gs3)) st3 = (st', ending)"
        using assms(1) b Inr o Opened rd by (auto simp: run_round_def c Let_def split: prod.splits)
      show ?thesis using settle_says [OF s t3 e0] settle_taken s by (auto split: RoundEnd.splits)
    qed
  qed
qed

lemma rounds_say:
  "rounds n fuel te carried st = Some (st', ending) \<Longrightarrow> taken_over st \<Longrightarrow>
    \<exists>endings. says st endings st' \<and> ends_events ending endings"
proof (induction n arbitrary: carried st)
  case (Suc n)
  obtain carried1 st1 ending1 where one: "run_round fuel te carried st = Some (carried1, st1, ending1)"
    using Suc.prems(1) by (cases "run_round fuel te carried st") auto
  note said = run_round_says [OF one Suc.prems(2)]
  show ?case
  proof (cases ending1)
    case Again
    then have "rounds n fuel te carried1 st1 = Some (st', ending)" using Suc.prems(1) one by simp
    then show ?thesis using Suc.IH said Again says_trans by fastforce
  next
    case (Ends e)
    then show ?thesis using Suc.prems(1) one said by auto
  qed
qed simp

lemma run_loop_says:
  assumes "run_loop n fuel te st = Some (st', ending)" "taken_over st"
  shows "\<exists>endings. says st endings st' \<and> ends_events ending endings"
proof -
  consider "\<not> is_current te st" | "is_current te st" "is_cancelled te (glance st)" | "is_current te st" "\<not> is_cancelled te (glance st)"
    by blast
  then show ?thesis
  proof cases
    case 1
    then show ?thesis using assms(1)
      by (auto simp: run_loop_def ends_events_def frame intro!: says_nothing)
  next
    case 2
    then have "says st [FromBatch TurnCancelled] st' \<and> ending = LoopOver"
      using assms(1) by (auto simp: run_loop_def frame intro!: says_refl)
    then show ?thesis by (intro exI [of _ "[FromBatch TurnCancelled]"]) (simp add: ends_events_def ends_turn_def)
  next
    case 3
    have "taken_over (glance (glance st))" using assms(2) by (simp add: frame)
    then obtain endings where "says (glance (glance st)) endings st'" "ends_events ending endings"
      using assms(1) 3 rounds_say [of n fuel te _ "glance (glance st)" st' ending] by (auto simp: run_loop_def)
    then show ?thesis by (auto simp: says_def frame)
  qed
qed

text \<open>An answer: its batch goes on quietly, and a turn that is over there was cancelled or stopped by the breaker.\<close>

definition step_events :: "'w Runtime \<Rightarrow> TurnStep \<Rightarrow> 'w Runtime \<Rightarrow> bool" where
  "step_events st step st' \<longleftrightarrow>
     (if step = TurnOver then batch_events st True st' \<or>
        (\<exists>new p. rt_events st' = rt_events st @ new @ [BreakerError p] \<and> list_all (\<lambda>e. \<not> rt_terminal e) new)
      else quiet st st')"

lemma step_events_after: "quiet st st1 \<Longrightarrow> step_events st1 step st2 \<Longrightarrow> step_events st step st2"
proof -
  assume q: "quiet st st1" and s: "step_events st1 step st2"
  obtain a where a: "rt_events st1 = rt_events st @ a" "list_all (\<lambda>e. \<not> rt_terminal e) a" using q by (auto simp: quiet_def)
  show ?thesis
  proof (cases "step = TurnOver")
    case False
    then show ?thesis using q s quiet_trans by (auto simp: step_events_def)
  next
    case True
    then consider "batch_events st1 True st2"
      | new p where "rt_events st2 = rt_events st1 @ new @ [BreakerError p]" "list_all (\<lambda>e. \<not> rt_terminal e) new"
      using s by (auto simp: step_events_def)
    then show ?thesis
    proof cases
      case 1
      then show ?thesis using batch_events_after [OF q] True by (simp add: step_events_def)
    next
      case 2
      then have "rt_events st2 = rt_events st @ (a @ new) @ [BreakerError p] \<and> list_all (\<lambda>e. \<not> rt_terminal e) (a @ new)"
        using a by simp
      then have "\<exists>new p. rt_events st2 = rt_events st @ new @ [BreakerError p] \<and> list_all (\<lambda>e. \<not> rt_terminal e) new" by blast
      then show ?thesis using True by (simp only: step_events_def simp_thms if_True)
    qed
  qed
qed

lemma resume_events: "resume_after_batch env remaining st = (step, st') \<Longrightarrow> step_events st step st'"
proof -
  assume r: "resume_after_batch env remaining st = (step, st')"
  show ?thesis
  proof (cases "owns_turn env st")
    case False
    then show ?thesis using r batch_events_after [OF tick_quiet cancelled_batch]
      by (auto simp: resume_after_batch_def step_events_def)
  next
    case True
    obtain outcome st1 where p: "process_tool_batch env remaining (tick st) = (outcome, st1)" by fastforce
    note pe = batch_events_after [OF tick_quiet process_events [OF p]]
    obtain tripped st2 where b: "boundary_breaker_tripped st1 = (tripped, st2)" by fastforce
    note be = breaker_events [OF b]
    show ?thesis
    proof (cases outcome)
      case Completed
      then obtain new where new: "rt_events st1 = rt_events st @ new" "list_all (\<lambda>e. \<not> rt_terminal e) new"
        using pe by (auto simp: batch_events_def)
      show ?thesis
      proof (cases tripped)
        case True
        then have "rt_events st2 = rt_events st @ new @ [BreakerError (rt_last_boundary_denial_path st1)]" using be new by simp
        then show ?thesis using r p b Completed \<open>owns_turn env st\<close> True new(2)
          by (auto simp: resume_after_batch_def step_events_def)
      next
        case False
        then show ?thesis using r p b be Completed \<open>owns_turn env st\<close> new
          by (auto simp: resume_after_batch_def step_events_def quiet_def)
      qed
    next
      case AwaitingApproval
      then show ?thesis using r p pe True by (auto simp: resume_after_batch_def step_events_def batch_events_def quiet_def)
    next
      case BatchCancelled
      then show ?thesis using r p pe True by (auto simp: resume_after_batch_def step_events_def)
    qed
  qed
qed

lemma answer_root_grant_quiet:
  "answer_root_grant env batch decision note' st = (st', result) \<Longrightarrow> quiet st st'"
  by (cases decision) (auto simp: answer_root_grant_def dest: apply_root_grant_quiet intro: quiet_refl)

lemma handle_approval_events:
  "handle_approval env batch decision note' st = (step, st') \<Longrightarrow> step_events st step st'"
proof -
  assume h: "handle_approval env batch decision note' st = (step, st')"
  show ?thesis
  proof (cases "owns_turn env st")
    case False
    then show ?thesis using h batch_events_after [OF tick_quiet cancelled_batch]
      by (auto simp: handle_approval_def Let_def step_events_def)
  next
    case owns: True
    obtain consents' decision' where c: "record_session_consent (e_win env) (e_tools env) (pb_current batch) decision (rt_consents st) =
        (consents', decision')" by fastforce
    let ?st0 = "(tick st)\<lparr>rt_consents := consents'\<rparr>"
    have q0: "quiet st ?st0" by (simp add: quiet_refl tick_def)
    have resumed: "step_events st step2 st2"
      if "quiet ?st0 st1" "resume_after_batch env rem (record_result env call result Asked st1) = (step2, st2)"
      for st1 rem call result step2 st2
      using step_events_after [OF quiet_trans [OF quiet_trans [OF q0 that(1)] record_result_quiet] resume_events [OF that(2)]] .
    show ?thesis
    proof (cases "is_root_grant (tc_name (pb_current batch))")
      case True
      obtain st1 result where a: "answer_root_grant env batch decision' note' ?st0 = (st1, result)" by fastforce
      show ?thesis using h owns c True a resumed [OF answer_root_grant_quiet [OF a]] by (simp add: handle_approval_def Let_def)
    next
      case tool: False
      obtain st1 outcome where r: "run_tool env (pb_current batch) (Some decision') ByApproval ?st0 = (st1, outcome)" by fastforce
      note q1 = run_tool_quiet [OF r]
      show ?thesis
      proof (cases outcome)
        case (Inl e)
        then show ?thesis using h owns c tool r resumed [OF q1] by (simp add: handle_approval_def Let_def)
      next
        case (Inr out)
        then obtain result where "out = Result result" using run_tool_decided r by (cases out) blast+
        then show ?thesis using h owns c tool r Inr resumed [OF q1] by (simp add: handle_approval_def Let_def)
      qed
    qed
  qed
qed

lemma absorb_step_says:
  assumes "step_events rt0 step rt" "rt_events rt0 = events" "list_all (\<lambda>e. \<not> rt_terminal e) events"
  shows "if step = TurnOver then \<exists>endings. says st endings (absorb rt st) \<and> ends_turn endings else says st [] (absorb rt st)"
proof -
  have said: "says st (map FromBatch tail) (absorb rt st)"
    if "rt_events rt = new @ tail" "list_all (\<lambda>e. \<not> rt_terminal e) new" for new tail
  proof -
    have "tl_events (absorb rt st) = tl_events st @ map FromBatch new @ map FromBatch tail" by (simp add: frame that(1))
    then show ?thesis unfolding says_def using batch_quiet_events [OF that(2)] by blast
  qed
  show ?thesis
  proof (cases "step = TurnOver")
    case False
    then obtain new where "rt_events rt = (events @ new) @ []" "list_all (\<lambda>e. \<not> rt_terminal e) (events @ new)"
      using assms by (auto simp: step_events_def quiet_def)
    from said [OF this] False show ?thesis by simp
  next
    case True
    then obtain new e where new: "rt_events rt = (events @ new) @ [e]" "list_all (\<lambda>e. \<not> rt_terminal e) (events @ new)" and e: "rt_terminal e"
      using assms by (auto simp: step_events_def batch_events_def)
    have "ends_turn (map FromBatch [e])" using e by (simp add: ends_turn_def)
    then show ?thesis using said [OF new] True by auto
  qed
qed

lemma answer_turn_says:
  assumes "answer_turn n fuel te answer st = Inr (Some (st', ending))" "taken_over st"
  shows "\<exists>endings. says st endings st' \<and> ends_events ending endings"
proof -
  obtain i decision note' where a: "answer = (i, decision, note')" using prod_cases3 by blast
  obtain step rt where s: "submit_approval_with_denial_note (te_env te) i decision note' (tl_rt st) = Inr (step, rt)"
    using assms(1) by (auto simp: answer_turn_def a split: sum.splits)
  then obtain batch where h: "handle_approval (te_env te) batch decision note'
      (emit (ApprovalResolved (tc_id (pb_current batch)) decision) ((tl_rt st)\<lparr>rt_pending := None\<rparr>)) = (step, rt)"
    by (auto simp: submit_approval_with_denial_note_def split: option.splits if_splits)
  have said: "if step = TurnOver then \<exists>endings. says st endings (absorb rt st) \<and> ends_turn endings else says st [] (absorb rt st)"
    by (rule absorb_step_says [OF handle_approval_events [OF h] refl]) (use assms(2) in \<open>simp add: taken_over_def emit_def\<close>)
  show ?thesis
  proof (cases step)
    case NextRound
    then have "run_loop n fuel te (absorb rt st) = Some (st', ending)" using assms(1) s by (simp add: answer_turn_def a)
    from run_loop_says [OF this] obtain endings where "says (absorb rt st) endings st'" "ends_events ending endings"
      by (auto simp: frame)
    moreover have "says st [] (absorb rt st)" using said NextRound by simp
    ultimately show ?thesis using says_trans by blast
  next
    case Parked
    then show ?thesis using assms(1) s said by (auto simp: answer_turn_def a ends_events_def)
  next
    case TurnOver
    then have st': "st' = finish_turn te (absorb rt st) \<and> ending = LoopOver" using assms(1) s by (simp add: answer_turn_def a)
    obtain endings where "says st endings (absorb rt st)" "ends_turn endings" using said TurnOver by auto
    then have "says st endings st' \<and> ends_events ending endings"
      using st' says_same [of st' "absorb rt st" st endings] by (simp add: ends_events_def frame)
    then show ?thesis by blast
  qed
qed

lemma parked_taken:
  assumes "run_round fuel te carried st = Some (carried', st', Ends LoopParked)"
  shows "taken_over st'"
proof -
  obtain route retries where c: "carried = (route, retries)" by (cases carried)
  obtain st1 began where b: "begin_round te (effective_model route) st = (st1, began)" by fastforce
  then have "began \<noteq> Inl LoopParked" by (auto simp: begin_round_def Let_def split: prod.splits option.splits if_splits)
  then obtain rescued where began: "began = Inr rescued" using assms b by (cases began) (auto simp: run_round_def c)
  let ?request = "build_request te route st1"
  obtain route2 st2 result where o: "open_round te route rescued (te_estimate_request te (cr_messages ?request)) ?request (glance st1) =
      (route2, st2, result)" using prod_cases3 by blast
  then have "result \<noteq> OpeningEnds LoopParked"
    by (auto simp: open_round_def rescue_overflow_def Let_def split: prod.splits if_splits sum.splits FoldOutcome.splits)
  then obtain gs where gs: "result = Opened gs" using assms b began o by (cases result) (auto simp: run_round_def c Let_def)
  have "taken_over st4" if "settle_reply te r a rp p n k st3 = (st4, Ends LoopParked)" for r a rp p n k st3 st4
    using that
    by (auto simp: settle_reply_def run_batch_def Let_def frame
        split: if_splits sum.splits prod.splits BatchOutcome.splits bool.splits)
  then show ?thesis using assms b began o gs by (auto simp: run_round_def c Let_def split: option.splits prod.splits)
qed

lemma rounds_parked: "rounds n fuel te carried st = Some (st', LoopParked) \<Longrightarrow> taken_over st'"
  by (induction n arbitrary: carried st) (auto dest: parked_taken split: option.splits RoundEnd.splits)

lemma answer_turn_parked:
  assumes "answer_turn n fuel te answer st = Inr (Some (st', LoopParked))"
  shows "taken_over st'"
  using assms
  by (auto simp: answer_turn_def run_loop_def frame split: prod.splits sum.splits TurnStep.splits if_splits dest: rounds_parked)

lemma answer_all_says:
  "answer_all n fuel te answers (Some (st, ending)) = Some (st', ending') \<Longrightarrow> (if ending = LoopParked then taken_over st else True) \<Longrightarrow>
    \<exists>endings. says st0 endings st \<and> ends_events ending endings \<Longrightarrow> \<exists>endings. says st0 endings st' \<and> ends_events ending' endings"
proof (induction answers arbitrary: st ending)
  case (Cons answer answers)
  show ?case
  proof (cases "ending = LoopParked")
    case False
    then show ?thesis using Cons.prems by (cases ending) simp_all
  next
    case True
    show ?thesis
    proof (cases "answer_turn n fuel te answer st")
      case (Inl e)
      then show ?thesis using Cons True by simp
    next
      case (Inr r)
      have stuck: "answer_all n fuel te answers None = None" by (cases answers) simp_all
      then obtain st1 ending1 where r: "r = Some (st1, ending1)" using Cons.prems(1) True Inr by (cases r) auto
      have rest: "answer_all n fuel te answers (Some (st1, ending1)) = Some (st', ending')" using Cons.prems(1) True Inr r by simp
      obtain endings where e: "says st endings st1" "ends_events ending1 endings"
        using answer_turn_says [OF Inr [unfolded r]] Cons.prems(2) True by auto
      have "says st0 [] st" using Cons.prems(3) True by (auto simp: ends_events_def)
      then have "\<exists>endings. says st0 endings st1 \<and> ends_events ending1 endings" using e says_trans by blast
      moreover have "if ending1 = LoopParked then taken_over st1 else True"
        using answer_turn_parked [of n fuel te answer st st1] Inr r by (cases ending1) simp_all
      ultimately show ?thesis using Cons.IH [OF rest] by simp
    qed
  qed
qed simp

text \<open>Reading a handle until it gives nothing more.\<close>

fun recv_all :: "nat \<Rightarrow> TurnHandle \<Rightarrow> TurnHandle \<times> TurnEvent list" where
  "recv_all 0 h = (h, [])"
| "recv_all (Suc n) h =
     (case recv h of
        (h, None) \<Rightarrow> (h, [])
      | (h, Some event) \<Rightarrow> (case recv_all n h of (h, events) \<Rightarrow> (h, event # events)))"

lemma recv_after: "th_outcome h \<noteq> None \<Longrightarrow> recv_all n h = (h, [])"
  by (cases n) (simp_all add: recv_def)

lemma recv_all_events:
  "recv_all (length events) \<lparr>th_events = events, th_outcome = None\<rparr> =
     (case dropWhile (\<lambda>e. \<not> terminal e) events of
        [] \<Rightarrow> (\<lparr>th_events = [], th_outcome = None\<rparr>, events)
      | e # rest \<Rightarrow> (\<lparr>th_events = rest, th_outcome = ending_reason (Some e)\<rparr>, takeWhile (\<lambda>e. \<not> terminal e) events @ [e]))"
proof (induction events)
  case (Cons e events)
  have t: "ending_reason (Some e) = None \<longleftrightarrow> \<not> terminal e" by (simp add: terminal_def)
  show ?case
  proof (cases "terminal e")
    case True
    then show ?thesis using t by (simp add: recv_def recv_after)
  next
    case False
    then show ?thesis using t Cons by (cases "dropWhile (\<lambda>e. \<not> terminal e) events") (simp_all add: recv_def del: dropWhile_eq_Nil_conv)
  qed
qed simp

lemma says_endings:
  assumes "says st endings st'" "list_all (\<lambda>e. \<not> terminal e) (tl_events st)" "endings = [] \<or> terminal (hd endings)"
  shows "dropWhile (\<lambda>e. \<not> terminal e) (tl_events st') = endings"
proof -
  obtain new where new: "tl_events st' = tl_events st @ new @ endings" "list_all (\<lambda>e. \<not> terminal e) new"
    using assms(1) by (auto simp: says_def)
  have quiet: "dropWhile (\<lambda>e. \<not> terminal e) (es @ rest) = dropWhile (\<lambda>e. \<not> terminal e) rest" if "list_all (\<lambda>e. \<not> terminal e) es" for es rest
    using that by (induction es) simp_all
  have "list_all (\<lambda>e. \<not> terminal e) (tl_events st @ new)" using assms(2) new(2) by simp
  from quiet [OF this, of endings] have "dropWhile (\<lambda>e. \<not> terminal e) (tl_events st') = dropWhile (\<lambda>e. \<not> terminal e) endings"
    by (simp add: new(1))
  then show ?thesis using assms(3) by (cases endings) simp_all
qed

lemma snapshot_says: "says st [] (snapshot_turn te label st)"
proof -
  let ?warned = "\<lambda>ws. map (\<lambda>w. TurnWarned (OtherWarning w)) ws"
  have "list_all (\<lambda>e. \<not> terminal e) (?warned ws @ [CheckpointCreated i l])" for ws i l by (simp add: list_all_iff)
  then show ?thesis
    by (auto simp: snapshot_turn_def Let_def says_def frame split: option.split sum.split SnapshotOutcome.split SnapshotSkip.split)
qed

lemma snapshot_taken: "taken_over (snapshot_turn te label st) = taken_over st"
  by (auto simp: snapshot_turn_def Let_def frame split: option.split sum.split SnapshotOutcome.split SnapshotSkip.split)


text \<open>The second ending: a token cancelled between the failure of the stream and the next look at it.\<close>

lemma error_then_cancelled:
  assumes "\<not> is_cancelled te st" "next_event (te_net te) gs (tl_wire st) = (gs', w', Some (Inl e))"
    and "e_token_cancelled (te_env te) (clock st + 1)"
  shows "case read_reply (Suc (Suc fuel)) te gs no_reply st of
     None \<Rightarrow> False
   | Some (_, rp, st1) \<Rightarrow>
       tl_events (fst (settle_reply te route anchor rp probe estimated retries st1)) =
         tl_events st @ [TurnFailed ExecutionFailure (ProviderFailed e), FromBatch TurnCancelled]"
proof -
  have "clock (say f ((glance st)\<lparr>tl_wire := w'\<rparr>)) = clock st + 1" for f
    by (simp add: clock_def say_def glance_def tick_def)
  then show ?thesis using assms
    by (simp add: take_event_def is_cancelled_def settle_reply_def no_reply_def frame)
qed

section \<open>A turn returns\<close>

text \<open>Waiting takes time.\<close>

definition time_passes :: "Net \<Rightarrow> bool" where
  "time_passes net \<longleftrightarrow> (\<forall>k ms. 0 < snd (net_poll net k ms))"

lemma reopen_time: "reopen net left e gs w = (gs', w', r) \<Longrightarrow> gs_deadline gs' = gs_deadline gs \<and> wr_now w \<le> wr_now w'"
proof (induction left arbitrary: e gs w)
  case (Suc left)
  obtain w1 e1 where one: "stream_chat net (gs_request gs) (sleep (gs_backoff gs) w) = (w1, e1)" by fastforce
  then have "wr_now w \<le> wr_now w1" by (auto simp: stream_chat_def sleep_def)
  then show ?case using Suc.prems Suc.IH one by (cases e1) (fastforce simp: Let_def)+
qed simp

lemma next_event_time:
  "next_event net gs w = (gs', w', r) \<Longrightarrow> time_passes net \<Longrightarrow>
    gs_deadline gs' = gs_deadline gs \<and> wr_now w \<le> wr_now w' \<and>
    (r = None \<or> gs_finished gs' \<or> (wr_now w < wr_now w' \<and> wr_now w < gs_deadline gs))"
proof (induction "gs_retries_left gs" arbitrary: gs w rule: less_induct)
  case less
  let ?late = "gs_finished gs \<or> gs_deadline gs \<le> wr_now w"
  obtain poll passed where polled: "net_poll net (wr_polls w) (min (gs_chunk_timeout gs) (gs_deadline gs - wr_now w)) = (poll, passed)"
    by fastforce
  have passed: "0 < passed" using less.prems(2) polled by (metis snd_conv time_passes_def)
  let ?w = "w\<lparr>wr_polls := wr_polls w + 1, wr_now := wr_now w + passed\<rparr>"
  show ?case
  proof (cases "?late \<or> poll = Elapsed \<or> poll = StreamEnds \<or> (\<exists>e. poll = Yields (Inl e) \<and> gs_any_content gs)")
    case True
    then show ?thesis using less.prems(1) polled by (auto simp: next_event.simps [of net gs w] split: if_splits)
  next
    case False
    then obtain x where x: "poll = Yields x" by (cases poll) auto
    show ?thesis
    proof (cases x)
      case (Inr ev)
      then show ?thesis using False less.prems(1) polled passed x
        by (auto simp: next_event.simps [of net gs w] Let_def split: if_splits)
    next
      case (Inl e)
      obtain gs1 w1 r1 where re: "reopen net (gs_retries_left gs) e gs ?w = (gs1, w1, r1)" using prod_cases3 by blast
      note t1 = reopen_time [OF re]
      show ?thesis
      proof (cases r1)
        case None
        then have nx: "next_event net gs1 w1 = (gs', w', r)" using False x Inl less.prems(1) polled re
          by (simp add: next_event.simps [of net gs w])
        have "gs_retries_left gs1 < gs_retries_left gs" using reopen_left re None by blast
        from less.hyps [OF this nx less.prems(2)] show ?thesis using t1 passed False by auto
      next
        case (Some err)
        then show ?thesis using False x Inl less.prems(1) polled re t1 by (auto simp: next_event.simps [of net gs w])
      qed
    qed
  qed
qed

lemma read_reply_returns:
  assumes "time_passes (te_net te)"
  shows "(if gs_finished gs then 1 else gs_deadline gs - wr_now (tl_wire st) + 2) \<le> fuel \<Longrightarrow> read_reply fuel te gs rp st \<noteq> None"
proof (induction fuel arbitrary: gs rp st)
  case 0
  then show ?case by (simp split: if_splits)
next
  case (Suc fuel)
  obtain gs1 w1 r where one: "next_event (te_net te) gs (tl_wire st) = (gs1, w1, r)" using prod_cases3 by blast
  show ?case
  proof (cases "is_cancelled te st \<or> r = None")
    case True
    then show ?thesis using one by auto
  next
    case False
    then obtain event where r: "r = Some event" by auto
    then have unfinished: "\<not> gs_finished gs" using one finished_is_over by fastforce
    obtain rp1 st1 stop where taken: "take_event event rp ((glance st)\<lparr>tl_wire := w1\<rparr>) = (rp1, st1, stop)" using prod_cases3 by blast
    have st1: "tl_wire st1 = w1" using take_event_frame [OF taken] by simp
    note t = next_event_time [OF one assms]
    have "(if gs_finished gs1 then 1 else gs_deadline gs1 - wr_now w1 + 2) \<le> fuel"
      using Suc.prems unfinished t r by (auto split: if_splits)
    then show ?thesis using Suc.IH [of gs1 st1 rp1] False one r taken st1 by (cases stop) auto
  qed
qed

definition stream_fuel :: "'w TurnEnv \<Rightarrow> nat" where
  "stream_fuel te = unat (ac_stream_total_timeout (te_config te)) * 1000 + 2"

lemma opened_deadline:
  "open_turn_stream net config route r w = (route', w', Inr gs) \<Longrightarrow>
    gs_deadline gs - wr_now w' \<le> unat (ac_stream_total_timeout config) * 1000"
  by (auto simp: open_turn_stream_def guarded_def split: prod.splits sum.splits)

lemma open_round_deadline:
  "open_round te route rescued k request st = (route', st', Opened gs) \<Longrightarrow>
    gs_deadline gs - wr_now (tl_wire st') + 2 \<le> stream_fuel te"
  by (auto simp: open_round_def rescue_overflow_def stream_fuel_def Let_def frame
      split: prod.splits if_splits sum.splits FoldOutcome.splits dest!: opened_deadline)

lemma run_round_returns:
  assumes "time_passes (te_net te)" "stream_fuel te \<le> fuel"
  shows "run_round fuel te carried st \<noteq> None"
proof -
  obtain route retries where c: "carried = (route, retries)" by (cases carried)
  obtain st1 began where b: "begin_round te (effective_model route) st = (st1, began)" by fastforce
  show ?thesis
  proof (cases began)
    case (Inl e)
    then show ?thesis using b by (simp add: run_round_def c)
  next
    case (Inr rescued)
    let ?request = "build_request te route st1"
    obtain route2 st2 result where o: "open_round te route rescued (te_estimate_request te (cr_messages ?request)) ?request (glance st1) =
        (route2, st2, result)" using prod_cases3 by blast
    show ?thesis
    proof (cases result)
      case (Opened gs)
      have "gs_deadline gs - wr_now (tl_wire st2) + 2 \<le> fuel" using open_round_deadline [OF o [unfolded Opened]] assms(2) by simp
      then have "(if gs_finished gs then 1 else gs_deadline gs - wr_now (tl_wire st2) + 2) \<le> fuel" by simp
      from read_reply_returns [OF assms(1) this, of no_reply] obtain gs3 rp3 st3
        where "read_reply fuel te gs no_reply st2 = Some (gs3, rp3, st3)" by auto
      then show ?thesis using b Inr o Opened by (auto simp: run_round_def c Let_def split: prod.split)
    qed (use b Inr o in \<open>simp_all add: run_round_def c Let_def\<close>)
  qed
qed

lemma rounds_return:
  assumes "time_passes (te_net te)" "stream_fuel te \<le> fuel" "capped te"
  shows "within_cap te st \<Longrightarrow> steps_left te st < n \<Longrightarrow> rounds n fuel te carried st \<noteq> None"
proof (induction n arbitrary: carried st)
  case (Suc n)
  obtain carried1 st1 ending1 where one: "run_round fuel te carried st = Some (carried1, st1, ending1)"
    using run_round_returns [OF assms(1,2), of carried st] by auto
  note pays = run_round_pays [OF one assms(3) Suc.prems(1)]
  show ?case
  proof (cases ending1)
    case Again
    then have "steps_left te st1 < n" "within_cap te st1" using pays Suc.prems(2) by auto
    then show ?thesis using Suc.IH one Again by simp
  qed (use one in simp)
qed simp

lemma run_loop_returns:
  assumes "time_passes (te_net te)" "stream_fuel te \<le> fuel" "capped te" "within_cap te st" "unat (StepCap te) < n"
  shows "run_loop n fuel te st \<noteq> None"
proof -
  let ?st = "glance (glance st)"
  have "within_cap te ?st" "steps_left te ?st \<le> unat (StepCap te)"
    using assms(4) budget_only [of ?st st te] by (simp_all add: frame steps_left_def split: option.split)
  then have "rounds n fuel te carried ?st \<noteq> None" for carried using rounds_return [OF assms(1-3), of ?st n carried] assms(5) by simp
  then show ?thesis by (simp add: run_loop_def)
qed

lemma answer_all_returns:
  assumes "time_passes (te_net te)" "stream_fuel te \<le> fuel" "capped te" "unat (StepCap te) < n"
  shows "(if ending = LoopParked then within_cap te st else True) \<Longrightarrow> answer_all n fuel te answers (Some (st, ending)) \<noteq> None"
proof (induction answers arbitrary: st ending)
  case (Cons answer answers)
  show ?case
  proof (cases "ending = LoopParked")
    case False
    then show ?thesis by (cases ending) simp_all
  next
    case True
    then have within: "within_cap te st" using Cons.prems by simp
    show ?thesis
    proof (cases "answer_turn n fuel te answer st")
      case (Inl e)
      then show ?thesis using Cons True by simp
    next
      case (Inr r)
      obtain i decision note' where a: "answer = (i, decision, note')" using prod_cases3 by blast
      have "within_cap te (absorb rt st)" for rt using within budget_only [of "absorb rt st" st te] by (simp add: frame)
      then have "r \<noteq> None" using Inr run_loop_returns [OF assms(1-3) _ assms(4)]
        by (auto simp: answer_turn_def a split: sum.splits TurnStep.splits)
      then obtain st1 ending1 where r: "r = Some (st1, ending1)" by auto
      have "if ending1 = LoopParked then within_cap te st1 else True"
        using answer_turn_pays [OF Inr [unfolded r] assms(3) within] by simp
      then show ?thesis using Cons.IH True Inr r by simp
    qed
  qed
qed simp


definition demo_turn_env :: "nat TurnEnv" where
  "demo_turn_env =
     \<lparr>te_env = demo_env, te_turn = ''turn_1'', te_config = builtin, te_catalog = [], te_to_lower = (\<lambda>s. s),
      te_is_subagent = False,
      te_net = \<lparr>net_open = (\<lambda>_ _. None), net_poll = (\<lambda>k _. (if k = 0 then Yields (Inr (AgentText ''hi'')) else StreamEnds, 1))\<rparr>,
      te_texts = plain_texts, te_from_str = (\<lambda>_. Inr (Object [])), te_base64 = (\<lambda>s. s),
      te_images = (\<lambda>_. \<lparr>im_metadata = (\<lambda>_. Inl NotFound), im_header = (\<lambda>_. Inl []), im_bytes = (\<lambda>_. Inl [])\<rparr>),
      te_serialized = (\<lambda>_. Some 0), te_estimate = (\<lambda>_. 1), te_estimate_request = (\<lambda>_. 1), te_fingerprint = (\<lambda>_. 0),
      te_handover = (\<lambda>_ _. Inl HandoverFailed), te_meanwhile = (\<lambda>_ s. s), te_storage_pressure = (\<lambda>_. False),
      te_queue = (\<lambda>_ queue. queue), te_newer_turn = (\<lambda>_. False), te_some_turn = (\<lambda>_. True), te_snapshot = None,
      te_lsp_warnings = (\<lambda>_. []), te_wrap_up = (\<lambda>_ _. ''wrap up'')\<rparr>"


end
